(* ===== verification/Prelude.thy ===== *)
theory Prelude
  imports Main "HOL-Library.Word" "HOL-Library.While_Combinator" "HOL-Library.Multiset"
begin

text \<open>
  Shared vocabulary of the development: the result type of kernel operations, its sequencing
  operator, the loop combinator for C loops that are not bounded by a counter, and generic
  lemmas on lists, function updates and machine words.
\<close>

section \<open>Results of kernel code\<close>

text \<open>
  A kernel operation either returns (\<open>Ok\<close>), stops the machine through \<open>panic\<close> or a
  failed \<open>ASSERT\<close> (\<open>Panic\<close>, with the message), dereferences a null or wild pointer
  (\<open>Fault\<close>, undefined behaviour in C), has to wait for another process or CPU (\<open>Wait\<close>:
  a contended lock or a sleep), or loops for ever (\<open>Diverge\<close>).
\<close>

datatype 'a res = Ok 'a | Panic string | Fault | Wait | Diverge

primrec bindR :: "'a res \<Rightarrow> ('a \<Rightarrow> 'b res) \<Rightarrow> 'b res" where
  "bindR (Ok x) f = f x"
| "bindR (Panic e) f = Panic e"
| "bindR Fault f = Fault"
| "bindR Wait f = Wait"
| "bindR Diverge f = Diverge"

text \<open>\<open>ASSERT(c)\<close> of \<open>assert.h\<close>: a failed assertion ends in \<open>panic("list")\<close>.\<close>

definition ASSERT :: "bool \<Rightarrow> unit res" where
  "ASSERT c = (if c then Ok () else Panic ''list'')"

lemma bindR_assoc: "bindR (bindR m f) g = bindR m (\<lambda>x. bindR (f x) g)"
  by (cases m) simp_all

lemma bindR_eq_Ok: "bindR m f = Ok y \<longleftrightarrow> (\<exists>x. m = Ok x \<and> f x = Ok y)"
  by (cases m) simp_all

lemma ASSERT_True [simp]: "c \<Longrightarrow> ASSERT c = Ok ()"
  by (simp add: ASSERT_def)

lemma ASSERT_False [simp]: "\<not> c \<Longrightarrow> ASSERT c = Panic ''list''"
  by (simp add: ASSERT_def)

lemma ASSERT_eq_Ok [simp]: "ASSERT c = Ok u \<longleftrightarrow> c"
  by (simp add: ASSERT_def)

section \<open>Loops\<close>

text \<open>
  One turn of a loop body either goes round again with new loop variables (\<open>Next\<close>) or
  leaves the loop with a result (\<open>Exit\<close>: the failed condition, a \<open>break\<close> or a
  \<open>return\<close>).  A loop that never leaves is the value \<open>Diverge\<close>, so that a theorem
  that a loop returns \<open>Ok\<close> includes that it terminates.
\<close>

datatype ('s, 'r) ctl = Next 's | Exit 'r

definition loopR :: "('s \<Rightarrow> ('s, 'r) ctl res) \<Rightarrow> 's \<Rightarrow> 'r res" where
  "loopR body s =
     (case while_option (\<lambda>t. case t of Ok (Next _) \<Rightarrow> True | _ \<Rightarrow> False)
             (\<lambda>t. case t of Ok (Next u) \<Rightarrow> body u | _ \<Rightarrow> t) (Ok (Next s)) of
        None \<Rightarrow> Diverge
      | Some t \<Rightarrow> bindR t (\<lambda>c. case c of Exit r \<Rightarrow> Ok r | Next _ \<Rightarrow> Diverge))"

lemma loopR_unfold:
  "loopR body s =
     bindR (body s) (\<lambda>c. case c of Next t \<Rightarrow> loopR body t | Exit r \<Rightarrow> Ok r)"
proof -
  let ?b = "\<lambda>t. case t of Ok (Next _) \<Rightarrow> True | _ \<Rightarrow> False"
  let ?c = "\<lambda>t. case t of Ok (Next u) \<Rightarrow> body u | _ \<Rightarrow> t"
  have *: "while_option ?b ?c (Ok (Next s)) = while_option ?b ?c (body s)"
    by (subst while_option_unfold) simp
  show ?thesis
  proof (cases "body s")
    case (Ok c)
    show ?thesis
    proof (cases c)
      case (Next t)
      then show ?thesis using Ok by (simp add: loopR_def *)
    next
      case (Exit r)
      then have "while_option ?b ?c (body s) = Some (Ok (Exit r))"
        using Ok by (subst while_option_unfold) simp
      then show ?thesis using Ok Exit by (simp add: loopR_def *)
    qed
  qed (simp_all add: loopR_def * while_option_unfold)
qed

lemma loopR_Next: "body s = Ok (Next t) \<Longrightarrow> loopR body s = loopR body t"
  by (subst loopR_unfold) simp

lemma loopR_Exit: "body s = Ok (Exit r) \<Longrightarrow> loopR body s = Ok r"
  by (subst loopR_unfold) simp

text \<open>
  Total correctness of a loop: an invariant that every turn keeps while a measure drops, and
  that gives the postcondition on the turn that leaves.
\<close>

lemma loopR_total:
  assumes inv: "I s"
    and turn: "\<And>s. I s \<Longrightarrow>
      (\<exists>t. body s = Ok (Next t) \<and> I t \<and> (f t :: nat) < f s) \<or> (\<exists>r. body s = Ok (Exit r) \<and> Q r)"
  shows "\<exists>r. loopR body s = Ok r \<and> Q r"
  using inv
proof (induction s rule: measure_induct_rule [where f = f])
  case (less s)
  from turn [OF less.prems] show ?case
  proof
    assume "\<exists>t. body s = Ok (Next t) \<and> I t \<and> f t < f s"
    then obtain t where t: "body s = Ok (Next t)" "I t" "f t < f s" by blast
    then show ?thesis using less.IH [OF t(3) t(2)] by (simp add: loopR_Next)
  next
    assume "\<exists>r. body s = Ok (Exit r) \<and> Q r"
    then show ?thesis by (auto simp: loopR_Exit)
  qed
qed

text \<open>A counted loop over the given indices, whose body may fail.\<close>

primrec forR :: "(nat \<Rightarrow> 's \<Rightarrow> 's res) \<Rightarrow> nat list \<Rightarrow> 's \<Rightarrow> 's res" where
  "forR f [] s = Ok s"
| "forR f (i # is) s = bindR (f i s) (forR f is)"

text \<open>An invariant indexed by the set of turns already made.\<close>

lemma forR_rule:
  assumes "I [] s" and "\<And>ds i s. set ds \<subseteq> set js \<Longrightarrow> i \<in> set js \<Longrightarrow> I ds s \<Longrightarrow> \<exists>t. f i s = Ok t \<and> I (ds @ [i]) t"
  shows "\<exists>t. forR f js s = Ok t \<and> I js t"
proof -
  have "\<exists>t. forR f ks s = Ok t \<and> I (ds @ ks) t" if "I ds s" "set ds \<union> set ks \<subseteq> set js" for ds ks s
    using that
  proof (induction ks arbitrary: ds s)
    case (Cons k ks)
    then obtain t where t: "f k s = Ok t" "I (ds @ [k]) t" using assms(2) [of ds k s] by auto
    from Cons.IH [OF t(2)] Cons.prems show ?case using t(1) by auto
  qed simp
  from this [of "[]" s js] assms(1) show ?thesis by simp
qed

text \<open>The same with the position known: the turns made are a prefix of the indices.\<close>

lemma forR_prefix_rule:
  assumes "I [] s"
    and "\<And>ds i es s. js = ds @ i # es \<Longrightarrow> I ds s \<Longrightarrow> \<exists>t. f i s = Ok t \<and> I (ds @ [i]) t"
  shows "\<exists>t. forR f js s = Ok t \<and> I js t"
proof -
  have "\<exists>t. forR f ks s = Ok t \<and> I js t" if "I ds s" "js = ds @ ks" for ds ks s
    using that
  proof (induction ks arbitrary: ds s)
    case (Cons k ks)
    then obtain t where t: "f k s = Ok t" "I (ds @ [k]) t" using assms(2) [of ds k ks s] by auto
    from Cons.IH [OF t(2)] Cons.prems show ?case using t(1) by auto
  qed simp
  from this [of "[]" s js] assms(1) show ?thesis by simp
qed

section \<open>Generic facts\<close>

named_theorems frame_simps \<open>what an operation leaves unchanged\<close>

lemma option_total [simp]:
  "(\<exists>y. x = Some y) \<or> x = None" "x = None \<or> (\<exists>y. x = Some y)"
  by (cases x; simp)+

lemma distinct_append_Cons_iff:
  "distinct (xs @ y # ys) \<longleftrightarrow> y \<notin> set xs \<and> y \<notin> set ys \<and> distinct (xs @ ys)"
  by auto

lemma first_index:
  assumes "\<exists>i<n::nat. P i"
  shows "\<exists>p<n. P p \<and> (\<forall>i<p. \<not> P i)"
  using assms exists_least_iff [of P] by (metis less_trans linorder_neqE_nat)

end
