(* ===== verification/LinkedList.thy ===== *)
theory LinkedList
  imports Prelude
begin

text \<open>
  The intrusive doubly linked list of \<open>kernel/list.h\<close> and \<open>kernel/list.c\<close>: pointer
  structure, traversal, insertion, splicing, removal and reversal.  A list element is an
  address of type \<open>'p\<close>; the heap gives its two links.  A \<open>struct list\<close> is the pair of
  addresses of its embedded head and tail elements.  \<open>NULL\<close> is \<open>None\<close>.
  Theorems relate every operation to the HOL list of the interior elements.
\<close>

section \<open>Data\<close>

record 'p list_elem =
  prv :: "'p option"
  nxt :: "'p option"

record 'p clist =
  lhead :: 'p
  ltail :: 'p

type_synonym 'p lheap = "'p \<Rightarrow> 'p list_elem"

text \<open>Reads and writes through an element pointer; a null pointer faults.\<close>

definition ld_prv :: "'p option \<Rightarrow> 'p lheap \<Rightarrow> 'p option res" where
  "ld_prv p h = (case p of None \<Rightarrow> Fault | Some a \<Rightarrow> Ok (prv (h a)))"

definition ld_nxt :: "'p option \<Rightarrow> 'p lheap \<Rightarrow> 'p option res" where
  "ld_nxt p h = (case p of None \<Rightarrow> Fault | Some a \<Rightarrow> Ok (nxt (h a)))"

definition upd_prv :: "'p \<Rightarrow> 'p option \<Rightarrow> 'p lheap \<Rightarrow> 'p lheap" where
  "upd_prv a v h = h(a := (h a)\<lparr>prv := v\<rparr>)"

definition upd_nxt :: "'p \<Rightarrow> 'p option \<Rightarrow> 'p lheap \<Rightarrow> 'p lheap" where
  "upd_nxt a v h = h(a := (h a)\<lparr>nxt := v\<rparr>)"

definition st_prv :: "'p option \<Rightarrow> 'p option \<Rightarrow> 'p lheap \<Rightarrow> 'p lheap res" where
  "st_prv p v h = (case p of None \<Rightarrow> Fault | Some a \<Rightarrow> Ok (upd_prv a v h))"

definition st_nxt :: "'p option \<Rightarrow> 'p option \<Rightarrow> 'p lheap \<Rightarrow> 'p lheap res" where
  "st_nxt p v h = (case p of None \<Rightarrow> Fault | Some a \<Rightarrow> Ok (upd_nxt a v h))"

section \<open>Operations\<close>

fun is_head :: "'p option \<Rightarrow> 'p lheap \<Rightarrow> bool" where
  "is_head None h = False"
| "is_head (Some e) h = (prv (h e) = None \<and> nxt (h e) \<noteq> None)"

fun is_interior :: "'p option \<Rightarrow> 'p lheap \<Rightarrow> bool" where
  "is_interior None h = False"
| "is_interior (Some e) h = (prv (h e) \<noteq> None \<and> nxt (h e) \<noteq> None)"

fun is_tail :: "'p option \<Rightarrow> 'p lheap \<Rightarrow> bool" where
  "is_tail None h = False"
| "is_tail (Some e) h = (prv (h e) \<noteq> None \<and> nxt (h e) = None)"

text \<open>Functions on \<open>struct list *\<close> assert that the pointer is not null.\<close>

fun list_init :: "'p clist option \<Rightarrow> 'p lheap \<Rightarrow> 'p lheap res" where
  "list_init None h = Panic ''list''"
| "list_init (Some l) h =
     Ok (upd_nxt (ltail l) None
          (upd_prv (ltail l) (Some (lhead l))
            (upd_nxt (lhead l) (Some (ltail l))
              (upd_prv (lhead l) None h))))"

fun list_begin :: "'p clist option \<Rightarrow> 'p lheap \<Rightarrow> 'p option res" where
  "list_begin None h = Panic ''list''"
| "list_begin (Some l) h = Ok (nxt (h (lhead l)))"

definition list_next :: "'p option \<Rightarrow> 'p lheap \<Rightarrow> 'p option res" where
  "list_next elem h =
     bindR (ASSERT (is_head elem h \<or> is_interior elem h)) (\<lambda>_. ld_nxt elem h)"

fun list_end :: "'p clist option \<Rightarrow> 'p option res" where
  "list_end None = Panic ''list''"
| "list_end (Some l) = Ok (Some (ltail l))"

fun list_rbegin :: "'p clist option \<Rightarrow> 'p lheap \<Rightarrow> 'p option res" where
  "list_rbegin None h = Panic ''list''"
| "list_rbegin (Some l) h = Ok (prv (h (ltail l)))"

definition list_prev :: "'p option \<Rightarrow> 'p lheap \<Rightarrow> 'p option res" where
  "list_prev elem h =
     bindR (ASSERT (is_interior elem h \<or> is_tail elem h)) (\<lambda>_. ld_prv elem h)"

fun list_rend :: "'p clist option \<Rightarrow> 'p option res" where
  "list_rend None = Panic ''list''"
| "list_rend (Some l) = Ok (Some (lhead l))"

fun list_head :: "'p clist option \<Rightarrow> 'p option res" where
  "list_head None = Panic ''list''"
| "list_head (Some l) = Ok (Some (lhead l))"

fun list_tail :: "'p clist option \<Rightarrow> 'p option res" where
  "list_tail None = Panic ''list''"
| "list_tail (Some l) = Ok (Some (ltail l))"

definition list_insert :: "'p option \<Rightarrow> 'p option \<Rightarrow> 'p lheap \<Rightarrow> 'p lheap res" where
  "list_insert before elem h =
     bindR (ASSERT (is_interior before h \<or> is_tail before h)) (\<lambda>_.
     bindR (ASSERT (elem \<noteq> None)) (\<lambda>_.
     bindR (ld_prv before h) (\<lambda>bp.
     bindR (st_prv elem bp h) (\<lambda>h.
     bindR (st_nxt elem before h) (\<lambda>h.
     bindR (ld_prv before h) (\<lambda>bp.
     bindR (st_nxt bp elem h) (\<lambda>h.
     st_prv before elem h)))))))"

definition list_splice ::
  "'p option \<Rightarrow> 'p option \<Rightarrow> 'p option \<Rightarrow> 'p lheap \<Rightarrow> 'p lheap res" where
  "list_splice before first lst h =
     bindR (ASSERT (is_interior before h \<or> is_tail before h)) (\<lambda>_.
     if first = lst then Ok h
     else
     bindR (list_prev lst h) (\<lambda>last.
     bindR (ASSERT (is_interior first h)) (\<lambda>_.
     bindR (ASSERT (is_interior last h)) (\<lambda>_.
     bindR (ld_prv first h) (\<lambda>fp. bindR (ld_nxt last h) (\<lambda>ln.
     bindR (st_nxt fp ln h) (\<lambda>h.
     bindR (ld_nxt last h) (\<lambda>ln. bindR (ld_prv first h) (\<lambda>fp.
     bindR (st_prv ln fp h) (\<lambda>h.
     bindR (ld_prv before h) (\<lambda>bp.
     bindR (st_prv first bp h) (\<lambda>h.
     bindR (st_nxt last before h) (\<lambda>h.
     bindR (ld_prv before h) (\<lambda>bp.
     bindR (st_nxt bp first h) (\<lambda>h.
     st_prv before last h)))))))))))))))"

definition list_push_front :: "'p clist option \<Rightarrow> 'p option \<Rightarrow> 'p lheap \<Rightarrow> 'p lheap res" where
  "list_push_front l elem h = bindR (list_begin l h) (\<lambda>b. list_insert b elem h)"

definition list_push_back :: "'p clist option \<Rightarrow> 'p option \<Rightarrow> 'p lheap \<Rightarrow> 'p lheap res" where
  "list_push_back l elem h = bindR (list_end l) (\<lambda>e. list_insert e elem h)"

definition list_remove :: "'p option \<Rightarrow> 'p lheap \<Rightarrow> ('p option \<times> 'p lheap) res" where
  "list_remove elem h =
     bindR (ASSERT (is_interior elem h)) (\<lambda>_.
     bindR (ld_prv elem h) (\<lambda>ep. bindR (ld_nxt elem h) (\<lambda>en.
     bindR (st_nxt ep en h) (\<lambda>h.
     bindR (ld_nxt elem h) (\<lambda>en. bindR (ld_prv elem h) (\<lambda>ep.
     bindR (st_prv en ep h) (\<lambda>h.
     bindR (ld_nxt elem h) (\<lambda>en. Ok (en, h)))))))))"

definition list_empty :: "'p clist option \<Rightarrow> 'p lheap \<Rightarrow> bool res" where
  "list_empty l h = bindR (list_begin l h) (\<lambda>b. bindR (list_end l) (\<lambda>e. Ok (b = e)))"

fun list_front :: "'p clist option \<Rightarrow> 'p lheap \<Rightarrow> 'p option res" where
  "list_front None h = Panic ''list''"
| "list_front (Some l) h =
     bindR (list_empty (Some l) h) (\<lambda>em. bindR (ASSERT (\<not> em)) (\<lambda>_. Ok (nxt (h (lhead l)))))"

fun list_back :: "'p clist option \<Rightarrow> 'p lheap \<Rightarrow> 'p option res" where
  "list_back None h = Panic ''list''"
| "list_back (Some l) h =
     bindR (list_empty (Some l) h) (\<lambda>em. bindR (ASSERT (\<not> em)) (\<lambda>_. Ok (prv (h (ltail l)))))"

definition list_pop_front :: "'p clist option \<Rightarrow> 'p lheap \<Rightarrow> ('p option \<times> 'p lheap) res" where
  "list_pop_front l h =
     bindR (list_front l h) (\<lambda>front. bindR (list_remove front h) (\<lambda>(_, h). Ok (front, h)))"

definition list_pop_back :: "'p clist option \<Rightarrow> 'p lheap \<Rightarrow> ('p option \<times> 'p lheap) res" where
  "list_pop_back l h =
     bindR (list_back l h) (\<lambda>back. bindR (list_remove back h) (\<lambda>(_, h). Ok (back, h)))"

text \<open>\<open>size_t\<close> is the 64-bit \<open>unsigned long\<close>; the counter wraps.\<close>

definition list_size :: "'p clist option \<Rightarrow> 'p lheap \<Rightarrow> 64 word res" where
  "list_size l h =
     bindR (list_begin l h) (\<lambda>b.
       loopR (\<lambda>(e, cnt). bindR (list_end l) (\<lambda>t.
         if e \<noteq> t then bindR (list_next e h) (\<lambda>e. Ok (Next (e, cnt + 1)))
         else Ok (Exit cnt))) (b, 0))"

text \<open>The address of a link field, \<open>&e->prev\<close> or \<open>&e->next\<close>, as \<open>swap\<close> takes it.\<close>

datatype 'p link_ref = PrevOf "'p option" | NextOf "'p option"

fun rd_link :: "'p link_ref \<Rightarrow> 'p lheap \<Rightarrow> 'p option res" where
  "rd_link (PrevOf e) h = ld_prv e h"
| "rd_link (NextOf e) h = ld_nxt e h"

fun wr_link :: "'p link_ref \<Rightarrow> 'p option \<Rightarrow> 'p lheap \<Rightarrow> 'p lheap res" where
  "wr_link (PrevOf e) v h = st_prv e v h"
| "wr_link (NextOf e) v h = st_nxt e v h"

definition swap :: "'p link_ref \<Rightarrow> 'p link_ref \<Rightarrow> 'p lheap \<Rightarrow> 'p lheap res" where
  "swap a b h =
     bindR (rd_link a h) (\<lambda>t.
     bindR (rd_link b h) (\<lambda>v.
     bindR (wr_link a v h) (\<lambda>h. wr_link b t h)))"

fun list_reverse :: "'p clist option \<Rightarrow> 'p lheap \<Rightarrow> 'p lheap res" where
  "list_reverse None h = Panic ''list''"
| "list_reverse (Some l) h =
     bindR (list_empty (Some l) h) (\<lambda>em.
     if em then Ok h
     else
       bindR (list_begin (Some l) h) (\<lambda>b.
       bindR (loopR (\<lambda>(e, h). bindR (list_end (Some l)) (\<lambda>t.
                if e \<noteq> t
                then bindR (swap (PrevOf e) (NextOf e) h) (\<lambda>h.
                     bindR (ld_prv e h) (\<lambda>e. Ok (Next (e, h))))
                else Ok (Exit h))) (b, h)) (\<lambda>h.
       bindR (swap (NextOf (Some (lhead l))) (PrevOf (Some (ltail l))) h) (\<lambda>h.
       swap (PrevOf (nxt (h (lhead l)))) (NextOf (prv (h (ltail l)))) h))))"

section \<open>The abstraction: well-formed chains\<close>

text \<open>\<open>linked h xs\<close>: consecutive addresses of \<open>xs\<close> point at each other.\<close>

fun linked :: "'p lheap \<Rightarrow> 'p list \<Rightarrow> bool" where
  "linked h (a # b # xs) = (nxt (h a) = Some b \<and> prv (h b) = Some a \<and> linked h (b # xs))"
| "linked h _ = True"

definition chain :: "'p lheap \<Rightarrow> 'p list \<Rightarrow> bool" where
  "chain h xs \<longleftrightarrow> linked h xs \<and> distinct xs \<and> prv (h (hd xs)) = None \<and> nxt (h (last xs)) = None"

text \<open>\<open>dll h l xs\<close>: the list \<open>l\<close> holds exactly the interior elements \<open>xs\<close>, in order.\<close>

definition dll :: "'p lheap \<Rightarrow> 'p clist \<Rightarrow> 'p list \<Rightarrow> bool" where
  "dll h l xs \<longleftrightarrow> chain h (lhead l # xs @ [ltail l])"

definition addrs :: "'p clist \<Rightarrow> 'p list \<Rightarrow> 'p set" where
  "addrs l xs = insert (lhead l) (insert (ltail l) (set xs))"

lemma upd_simps [simp]:
  "nxt (upd_nxt a v h b) = (if b = a then v else nxt (h b))"
  "prv (upd_nxt a v h b) = prv (h b)"
  "prv (upd_prv a v h b) = (if b = a then v else prv (h b))"
  "nxt (upd_prv a v h b) = nxt (h b)"
  by (simp_all add: upd_nxt_def upd_prv_def)

lemma upd_other [simp]:
  "b \<noteq> a \<Longrightarrow> upd_nxt a v h b = h b"
  "b \<noteq> a \<Longrightarrow> upd_prv a v h b = h b"
  by (simp_all add: upd_nxt_def upd_prv_def)

lemma ldst_simps [simp]:
  "ld_prv (Some a) h = Ok (prv (h a))" "ld_nxt (Some a) h = Ok (nxt (h a))"
  "st_prv (Some a) v h = Ok (upd_prv a v h)" "st_nxt (Some a) v h = Ok (upd_nxt a v h)"
  by (simp_all add: ld_prv_def ld_nxt_def st_prv_def st_nxt_def)

lemma linked_split:
  "linked h (xs @ a # b # ys) \<longleftrightarrow>
     linked h (xs @ [a]) \<and> nxt (h a) = Some b \<and> prv (h b) = Some a \<and> linked h (b # ys)"
proof (induction xs)
  case (Cons x xs)
  then show ?case by (cases xs) auto
qed simp

lemma linked_join:
  "linked h (xs @ a # ys) \<longleftrightarrow> linked h (xs @ [a]) \<and> linked h (a # ys)"
  by (cases ys) (auto simp: linked_split)

lemma linked_cong:
  assumes "\<And>a. a \<in> set (butlast xs) \<Longrightarrow> nxt (g a) = nxt (h a)"
    and "\<And>a. a \<in> set (tl xs) \<Longrightarrow> prv (g a) = prv (h a)"
  shows "linked g xs = linked h xs"
  using assms by (induction h xs rule: linked.induct) (auto split: if_splits)

lemma chain_frame:
  assumes "\<And>a. a \<in> set xs \<Longrightarrow> g a = h a" and "xs \<noteq> []"
  shows "chain g xs = chain h xs"
proof -
  have "linked g xs = linked h xs"
    by (rule linked_cong) (auto simp: assms dest: in_set_butlastD list.set_sel(2)[OF assms(2)])
  then show ?thesis using assms by (simp add: chain_def)
qed

lemma dll_frame: "(\<And>a. a \<in> addrs l xs \<Longrightarrow> g a = h a) \<Longrightarrow> dll g l xs = dll h l xs"
  unfolding dll_def by (rule chain_frame) (auto simp: addrs_def)

lemma dll_distinct: "dll h l xs \<Longrightarrow> distinct (lhead l # xs @ [ltail l])"
  by (simp add: dll_def chain_def)

lemma chain_link:
  "chain h (xs @ a # b # ys) \<Longrightarrow> nxt (h a) = Some b \<and> prv (h b) = Some a"
  by (auto simp: chain_def linked_split)

lemma chain_ends:
  "chain h xs \<Longrightarrow> xs \<noteq> [] \<Longrightarrow> prv (h (hd xs)) = None \<and> nxt (h (last xs)) = None"
  by (simp add: chain_def)

text \<open>The links of a chain determine it: two chains from the same head are equal.\<close>

lemma linked_unique:
  "linked h (a # xs) \<Longrightarrow> linked h (a # ys) \<Longrightarrow> nxt (h (last (a # xs))) = None \<Longrightarrow>
   nxt (h (last (a # ys))) = None \<Longrightarrow> xs = ys"
proof (induction xs arbitrary: a ys)
  case Nil
  then show ?case by (cases ys) auto
next
  case (Cons x xs)
  then show ?case by (cases ys) auto
qed

lemma dll_unique: "dll h l xs \<Longrightarrow> dll h l ys \<Longrightarrow> xs = ys"
  using linked_unique [of h "lhead l" "xs @ [ltail l]" "ys @ [ltail l]"]
  by (simp add: dll_def chain_def)

section \<open>Effect of the pointer operations on chains\<close>

lemma linked_prefix_cong:
  assumes "\<And>a. a \<in> set u \<Longrightarrow> nxt (g a) = nxt (h a) \<and> prv (g a) = prv (h a)" and "prv (g p) = prv (h p)"
  shows "linked g (u @ [p]) = linked h (u @ [p])"
  by (rule linked_cong) (use assms in \<open>cases u; auto\<close>)+

lemma linked_suffix_cong:
  assumes "\<And>a. a \<in> set v \<Longrightarrow> nxt (g a) = nxt (h a) \<and> prv (g a) = prv (h a)" and "nxt (g b) = nxt (h b)"
  shows "linked g (b # v) = linked h (b # v)"
  by (rule linked_cong) (use assms in \<open>auto dest: in_set_butlastD split: if_splits\<close>)

lemma linked_join3:
  "linked h (u @ p # m @ b # v) \<longleftrightarrow>
     linked h (u @ [p]) \<and> linked h (p # m @ [b]) \<and> linked h (b # v)"
  using linked_join [of h u p "m @ b # v"] linked_join [of h "p # m" b v] by simp

text \<open>A chain whose middle is replaced: the outer parts only need their own links unchanged.\<close>

lemma chain_replace:
  assumes c: "chain h (u @ p # m @ b # v)"
    and g: "\<And>a. a \<in> set u \<union> set v \<Longrightarrow> nxt (g a) = nxt (h a) \<and> prv (g a) = prv (h a)"
      "prv (g p) = prv (h p)" "nxt (g b) = nxt (h b)"
    and l: "linked g (p # n @ [b])" and d: "distinct (u @ p # n @ b # v)"
  shows "chain g (u @ p # n @ b # v)"
proof -
  have up: "linked h (u @ [p])" and bv: "linked h (b # v)"
    using c by (auto simp: chain_def linked_join3)
  have "linked g (u @ [p])" using up linked_prefix_cong [of u g h p] g by simp
  moreover have "linked g (b # v)" using bv linked_suffix_cong [of v g h b] g by simp
  ultimately have "linked g (u @ p # n @ b # v)"
    using l by (simp add: linked_join3)
  moreover have "prv (g (hd (u @ p # n @ b # v))) = None"
    using c g by (cases u) (auto simp: chain_def)
  moreover have "nxt (g (last (u @ p # n @ b # v))) = None"
    using c g by (cases v rule: rev_cases) (auto simp: chain_def)
  ultimately show ?thesis using d by (simp add: chain_def)
qed

lemma chain_insert:
  assumes c: "chain h (u @ p # b # v)" and e: "e \<notin> set (u @ p # b # v)"
  shows "\<exists>g. list_insert (Some b) (Some e) h = Ok g \<and> chain g (u @ p # e # b # v) \<and>
             (\<forall>q. q \<notin> {p, b, e} \<longrightarrow> g q = h q)"
proof -
  let ?g = "upd_prv b (Some e) (upd_nxt p (Some e) (upd_nxt e (Some b) (upd_prv e (Some p) h)))"
  have lnk: "nxt (h p) = Some b" "prv (h b) = Some p" using chain_link [OF c] by auto
  have d: "distinct (u @ p # b # v)" using c by (simp add: chain_def)
  have run: "list_insert (Some b) (Some e) h = Ok ?g"
    using lnk d e by (auto simp: list_insert_def)
  have "chain ?g (u @ p # [e] @ b # v)"
    by (rule chain_replace [where m = "[]" and h = h]) (use c d e in auto)
  then show ?thesis using run by (intro exI [of _ ?g]) simp
qed

lemma chain_remove:
  assumes c: "chain h (u @ p # e # b # v)"
  shows "\<exists>g. list_remove (Some e) h = Ok (Some b, g) \<and> chain g (u @ p # b # v) \<and>
             (\<forall>q. q \<notin> {p, b} \<longrightarrow> g q = h q)"
proof -
  let ?g = "upd_prv b (Some p) (upd_nxt p (Some b) h)"
  have lnk: "prv (h e) = Some p" "nxt (h e) = Some b"
    using chain_link [OF c] chain_link [of h "u @ [p]" e b v] c by auto
  have d: "distinct (u @ p # e # b # v)" using c by (simp add: chain_def)
  have run: "list_remove (Some e) h = Ok (Some b, ?g)"
    using lnk d by (auto simp: list_remove_def)
  have "chain ?g (u @ p # [] @ b # v)"
    by (rule chain_replace [where m = "[e]" and h = h]) (use c d in auto)
  then show ?thesis using run by (intro exI [of _ ?g]) simp
qed

text \<open>
  Splicing the segment \<open>x # m\<close> (from \<open>x\<close> up to but excluding \<open>c\<close>) to just before an
  element \<open>b\<close> that comes earlier in the same list.
\<close>

lemma linked_last: "linked h (x # m @ [c]) \<Longrightarrow> prv (h c) = Some (last (x # m))"
proof (induction m arbitrary: x)
  case (Cons a m) then show ?case by simp
qed simp

lemma linked_append_last:
  "linked h (xs @ [a]) \<Longrightarrow> xs \<noteq> [] \<Longrightarrow> nxt (h (last xs)) = Some a \<and> prv (h a) = Some (last xs)"
  by (cases xs rule: rev_cases) (auto simp: linked_split)

definition splice_result :: "'p \<Rightarrow> 'p \<Rightarrow> 'p \<Rightarrow> 'p \<Rightarrow> 'p \<Rightarrow> 'p \<Rightarrow> 'p lheap \<Rightarrow> 'p lheap" where
  "splice_result p b q f l c h =
     upd_prv b (Some l) (upd_nxt p (Some f) (upd_nxt l (Some b) (upd_prv f (Some p)
       (upd_prv c (Some q) (upd_nxt q (Some c) h)))))"

lemma list_splice_run:
  assumes "prv (h b) = Some p" "prv (h f) = Some q" "nxt (h l) = Some c" "prv (h c) = Some l"
    "nxt (h f) \<noteq> None" "prv (h l) \<noteq> None" "f \<noteq> c" "c \<noteq> f" "q \<noteq> l" "b \<noteq> f" "b \<noteq> c"
  shows "list_splice (Some b) (Some f) (Some c) h = Ok (splice_result p b q f l c h)"
  using assms by (auto simp: list_splice_def list_prev_def splice_result_def)

lemma splice_simps:
  "nxt (splice_result p b q f l c h a) =
     (if a = p then Some f else if a = l then Some b else if a = q then Some c else nxt (h a))"
  "prv (splice_result p b q f l c h a) =
     (if a = b then Some l else if a = f then Some p else if a = c then Some q else prv (h a))"
  by (simp_all add: splice_result_def)

lemma splice_frame: "a \<notin> {p, b, q, f, l, c} \<Longrightarrow> splice_result p b q f l c h a = h a"
  by (simp add: splice_result_def)

lemma linked_mid_cong:
  assumes "\<And>a. a \<in> set m \<Longrightarrow> nxt (g a) = nxt (h a) \<and> prv (g a) = prv (h a)" "nxt (g x) = nxt (h x)" "prv (g y) = prv (h y)"
  shows "linked g (x # m @ [y]) = linked h (x # m @ [y])"
  by (rule linked_cong) (use assms in \<open>auto simp: butlast_append split: if_splits\<close>)

text \<open>Moving one element \<open>x\<close>, the step \<open>inplace_merge\<close> makes.\<close>

lemma chain_splice1:
  assumes c: "chain h (u @ p # b # m @ x # c # v)"
  shows "\<exists>g. list_splice (Some b) (Some x) (Some c) h = Ok g \<and>
             chain g (u @ p # x # b # m @ c # v) \<and>
             (\<forall>a. a \<notin> set (p # b # m @ [x, c]) \<longrightarrow> g a = h a)"
proof -
  obtain q where q_def: "last (b # m) = q" by blast
  let ?g = "splice_result p b q x x c h"
  have d: "distinct (u @ p # b # m @ x # c # v)" using c by (simp add: chain_def)
  have pb: "nxt (h p) = Some b" "prv (h b) = Some p" using chain_link [OF c] by auto
  have xc: "nxt (h x) = Some c" "prv (h c) = Some x"
    using chain_link [of h "u @ p # b # m" x c v] c by auto
  have lm: "linked h (b # m @ [x])" using c linked_join3 [of h "u @ [p]" b m x "c # v"]
    by (simp add: chain_def)
  then have qx: "prv (h x) = Some q" "nxt (h q) = Some x"
    using linked_append_last [of h "b # m" x] q_def by auto
  have q: "q \<in> insert b (set m)" using q_def last_in_set [of "b # m"] by simp
  have ne: "q \<noteq> x" "q \<noteq> p" "q \<noteq> c" using d q by auto
  have run: "list_splice (Some b) (Some x) (Some c) h = Ok ?g"
    using pb xc qx d ne by (intro list_splice_run) auto
  have "linked ?g (b # m @ [c])"
  proof (cases m rule: rev_cases)
    case Nil
    then show ?thesis using d q_def by (auto simp: splice_simps)
  next
    case (snoc m' y)
    have "linked h (b # m' @ [y])" using lm snoc linked_join [of h "b # m'" y "[x]"] by simp
    moreover have "linked ?g (b # m' @ [y]) = linked h (b # m' @ [y])"
      by (rule linked_mid_cong) (use d snoc q_def in \<open>auto simp: splice_simps\<close>)
    ultimately show ?thesis
      using d snoc q_def linked_join [of ?g "b # m'" y "[c]"] by (auto simp: splice_simps)
  qed
  then have "linked ?g (p # (x # b # m) @ [c])"
    using d ne by (auto simp: splice_simps)
  moreover have "a \<notin> {p, b, q, x, x, c}" if "a \<in> set u \<union> set v" for a
    using that d q by auto
  moreover have "p \<notin> {b, x, c}" "c \<notin> {p, x, q}" using d ne by auto
  moreover have "distinct (u @ p # (x # b # m) @ c # v)" using d by auto
  ultimately have "chain ?g (u @ p # (x # b # m) @ c # v)"
    using c by - (rule chain_replace [where m = "b # m @ [x]" and h = h], simp_all add: splice_frame, simp_all add: splice_simps)
  then show ?thesis using run q by (intro exI [of _ ?g]) (auto intro!: splice_frame)
qed

text \<open>Moving a whole segment \<open>f # m\<close> from one list to another one.\<close>

lemma chain_splice_two:
  assumes c1: "chain h (u @ p # b # v)" and c2: "chain h (w @ q # (f # m) @ c # z)"
    and disj: "set (u @ p # b # v) \<inter> set (w @ q # (f # m) @ c # z) = {}"
  shows "\<exists>g. list_splice (Some b) (Some f) (Some c) h = Ok g \<and>
             chain g (u @ p # (f # m) @ b # v) \<and> chain g (w @ q # c # z) \<and>
             (\<forall>a. a \<notin> {p, b, q, f, last (f # m), c} \<longrightarrow> g a = h a)"
proof -
  obtain l where l_def: "last (f # m) = l" by blast
  let ?g = "splice_result p b q f l c h"
  have d1: "distinct (u @ p # b # v)" using c1 by (simp add: chain_def)
  have d2: "distinct (w @ q # (f # m) @ c # z)" using c2 by (simp add: chain_def)
  have pb: "nxt (h p) = Some b" "prv (h b) = Some p" using chain_link [OF c1] by auto
  have qf: "nxt (h q) = Some f" "prv (h f) = Some q"
    using chain_link [of h w q f "m @ c # z"] c2 by auto
  have lm: "linked h (f # m @ [c])" using c2 linked_join3 [of h "w @ [q]" f m c z]
    by (simp add: chain_def)
  then have lc: "nxt (h l) = Some c" "prv (h c) = Some l"
    using linked_append_last [of h "f # m" c] l_def by auto
  have l: "l \<in> insert f (set m)" using l_def last_in_set [of "f # m"] by simp
  have fn: "nxt (h f) \<noteq> None" using lm by (cases m) auto
  have lp: "prv (h l) \<noteq> None"
  proof (cases m rule: rev_cases)
    case Nil then show ?thesis using qf l_def by simp
  next
    case (snoc m' y)
    then have "linked h ((f # m') @ [y])" using lm linked_join [of h "f # m'" y "[c]"] by simp
    then show ?thesis using linked_append_last [of h "f # m'" y] snoc l_def by auto
  qed
  have ne: "l \<noteq> q" "l \<noteq> c" "l \<noteq> p" "l \<noteq> b" using d2 l disj by auto
  have run: "list_splice (Some b) (Some f) (Some c) h = Ok ?g"
    using pb qf lc fn lp ne d2 disj by (intro list_splice_run) auto
  have "linked ?g (q # [] @ [c])" using d2 ne disj by (auto simp: splice_simps)
  moreover have "a \<notin> {p, b, q, f, l, c}" if "a \<in> set w \<union> set z" for a
    using that d2 l disj by auto
  moreover have "q \<notin> {b, f, c}" "c \<notin> {p, l, q}" using d2 ne disj by auto
  moreover have "distinct (w @ q # [] @ c # z)" using d2 by auto
  ultimately have k2: "chain ?g (w @ q # [] @ c # z)"
    using c2 by - (rule chain_replace [where m = "f # m" and h = h], simp_all add: splice_frame, simp_all add: splice_simps)
  have "linked ?g ((f # m) @ [b])"
  proof (cases m rule: rev_cases)
    case Nil then show ?thesis using d2 disj l_def by (auto simp: splice_simps)
  next
    case (snoc m' y)
    have "linked h (f # m' @ [y])" using lm snoc linked_join [of h "f # m'" y "[c]"] by simp
    moreover have "linked ?g (f # m' @ [y]) = linked h (f # m' @ [y])"
      by (rule linked_mid_cong) (use d2 disj snoc l_def in \<open>auto simp: splice_simps\<close>)
    ultimately show ?thesis
      using d2 disj snoc l_def linked_join [of ?g "f # m'" y "[b]"] by (auto simp: splice_simps)
  qed
  then have "linked ?g (p # (f # m) @ [b])" using d1 ne disj by (auto simp: splice_simps)
  moreover have "a \<notin> {p, b, q, f, l, c}" if "a \<in> set u \<union> set v" for a
    using that d1 l disj by auto
  moreover have "p \<notin> {b, f, c}" "b \<notin> {p, l, q}" using d1 ne disj by auto
  moreover have "distinct (u @ p # (f # m) @ b # v)" using d1 d2 disj by auto
  ultimately have "chain ?g (u @ p # (f # m) @ b # v)"
    using c1 by - (rule chain_replace [where m = "[]" and h = h], simp_all add: splice_frame, simp_all add: splice_simps)
  then show ?thesis using run k2 l_def by (intro exI [of _ ?g]) (auto intro!: splice_frame)
qed


section \<open>Operations on whole lists\<close>

lemma butlast_last_hd_tl:
  "A \<noteq> [] \<Longrightarrow> B \<noteq> [] \<Longrightarrow> butlast A @ last A # m @ hd B # tl B = A @ m @ B"
  by (cases A rule: rev_cases; cases B) auto

text \<open>A list as a chain cut at a position: the element before it and the element at it.\<close>

lemma dll_join:
  "chain g (butlast (lhead l # xs) @ last (lhead l # xs) # m @ hd (ys @ [ltail l]) # tl (ys @ [ltail l])) =
   dll g l (xs @ m @ ys)"
  by (subst butlast_last_hd_tl) (simp_all add: dll_def)

lemma dll_split:
  assumes "dll h l (xs @ ys)"
  shows "chain h (butlast (lhead l # xs) @ last (lhead l # xs) # hd (ys @ [ltail l]) # tl (ys @ [ltail l]))"
  using assms dll_join [of h l xs "[]" ys] by simp

lemma dll_neighbours:
  assumes "dll h l (xs @ ys)"
  shows "nxt (h (last (lhead l # xs))) = Some (hd (ys @ [ltail l]))"
    "prv (h (hd (ys @ [ltail l]))) = Some (last (lhead l # xs))"
  using chain_link [OF dll_split [OF assms]] by auto

lemma dll_interior:
  assumes "dll h l (xs @ y # ys)"
  shows "nxt (h y) = Some (hd (ys @ [ltail l]))" "prv (h y) = Some (last (lhead l # xs))"
    "y \<noteq> ltail l" "y \<noteq> lhead l" "y \<notin> set xs" "y \<notin> set ys"
  using dll_neighbours [of h l xs "y # ys"] dll_neighbours [of h l "xs @ [y]" ys] assms
    dll_distinct [OF assms] by auto

lemma dll_pos_in: "hd (ys @ [ltail l]) \<in> addrs l (xs @ ys)" "last (lhead l # xs) \<in> addrs l (xs @ ys)"
  by (cases ys; auto simp: addrs_def)+

lemma dll_headtail:
  assumes "dll h l xs"
  shows "nxt (h (lhead l)) = Some (hd (xs @ [ltail l]))" "prv (h (lhead l)) = None"
    "prv (h (ltail l)) = Some (last (lhead l # xs))" "nxt (h (ltail l)) = None"
    "lhead l \<noteq> ltail l" "lhead l \<notin> set xs" "ltail l \<notin> set xs" "distinct xs"
  using dll_neighbours [of h l "[]" xs] dll_neighbours [of h l xs "[]"] assms
    dll_distinct [OF assms] by (auto simp: dll_def chain_def)

lemma list_init_dll:
  assumes "lhead l \<noteq> ltail l"
  shows "\<exists>g. list_init (Some l) h = Ok g \<and> dll g l [] \<and> (\<forall>q. q \<notin> addrs l [] \<longrightarrow> g q = h q)"
  using assms by (auto simp: dll_def chain_def addrs_def)

lemma list_begin_dll: "dll h l xs \<Longrightarrow> list_begin (Some l) h = Ok (Some (hd (xs @ [ltail l])))"
  by (simp add: dll_headtail)

lemma list_rbegin_dll: "dll h l xs \<Longrightarrow> list_rbegin (Some l) h = Ok (Some (last (lhead l # xs)))"
  by (metis dll_headtail(3) list_rbegin.simps(2))

lemma list_next_dll: "dll h l (xs @ y # ys) \<Longrightarrow> list_next (Some y) h = Ok (Some (hd (ys @ [ltail l])))"
  using dll_interior(1,2) [of h l xs y ys] by (auto simp: list_next_def)

lemma list_prev_dll:
  "dll h l (xs @ ys) \<Longrightarrow> list_prev (Some (hd (ys @ [ltail l]))) h = Ok (Some (last (lhead l # xs)))"
  using dll_neighbours(2) [of h l xs ys] by (auto simp: list_prev_def)

lemma list_empty_dll: "dll h l xs \<Longrightarrow> list_empty (Some l) h = Ok (xs = [])"
  using dll_headtail [of h l xs] by (cases xs) (auto simp: list_empty_def)

lemma list_insert_dll:
  assumes "dll h l (xs @ ys)" and "e \<notin> addrs l (xs @ ys)"
  shows "\<exists>g. list_insert (Some (hd (ys @ [ltail l]))) (Some e) h = Ok g \<and> dll g l (xs @ e # ys) \<and>
             (\<forall>q. q \<notin> insert e (addrs l (xs @ ys)) \<longrightarrow> g q = h q)"
proof -
  have "set (butlast (lhead l # xs) @ last (lhead l # xs) # hd (ys @ [ltail l]) # tl (ys @ [ltail l]))
        = addrs l (xs @ ys)"
    by (subst butlast_last_hd_tl [where m = "[]", simplified]) (auto simp: addrs_def)
  then have "e \<notin> set (butlast (lhead l # xs) @ last (lhead l # xs) # hd (ys @ [ltail l]) # tl (ys @ [ltail l]))"
    using assms(2) by simp
  from chain_insert [OF dll_split [OF assms(1)] this] obtain g where
    g: "list_insert (Some (hd (ys @ [ltail l]))) (Some e) h = Ok g"
       "chain g (butlast (lhead l # xs) @ last (lhead l # xs) # [e] @ hd (ys @ [ltail l]) # tl (ys @ [ltail l]))"
       "\<forall>q. q \<notin> {last (lhead l # xs), hd (ys @ [ltail l]), e} \<longrightarrow> g q = h q"
    by auto
  have "dll g l (xs @ [e] @ ys)" using g(2) by (simp only: dll_join)
  moreover have "\<forall>q. q \<notin> insert e (addrs l (xs @ ys)) \<longrightarrow> g q = h q"
    using g(3) dll_pos_in [where l = l and xs = xs and ys = ys] by (metis empty_iff insert_iff)
  ultimately show ?thesis using g(1) by auto
qed

lemma list_remove_dll:
  assumes "dll h l (xs @ e # ys)"
  shows "\<exists>g. list_remove (Some e) h = Ok (Some (hd (ys @ [ltail l])), g) \<and> dll g l (xs @ ys) \<and>
             (\<forall>q. q \<notin> addrs l (xs @ ys) \<longrightarrow> g q = h q)"
proof -
  have "chain h (butlast (lhead l # xs) @ last (lhead l # xs) # e # hd (ys @ [ltail l]) # tl (ys @ [ltail l]))"
    using assms dll_join [of h l xs "[e]" ys] by simp
  from chain_remove [OF this] obtain g where
    g: "list_remove (Some e) h = Ok (Some (hd (ys @ [ltail l])), g)"
       "chain g (butlast (lhead l # xs) @ last (lhead l # xs) # [] @ hd (ys @ [ltail l]) # tl (ys @ [ltail l]))"
       "\<forall>q. q \<notin> {last (lhead l # xs), hd (ys @ [ltail l])} \<longrightarrow> g q = h q"
    by auto
  have "dll g l (xs @ [] @ ys)" using g(2) by (simp only: dll_join)
  moreover have "\<forall>q. q \<notin> addrs l (xs @ ys) \<longrightarrow> g q = h q"
    using g(3) dll_pos_in [where l = l and xs = xs and ys = ys] by (metis empty_iff insert_iff)
  ultimately show ?thesis using g(1) by auto
qed

lemma list_push_front_dll:
  assumes "dll h l xs" "e \<notin> addrs l xs"
  shows "\<exists>g. list_push_front (Some l) (Some e) h = Ok g \<and> dll g l (e # xs) \<and>
             (\<forall>q. q \<notin> insert e (addrs l xs) \<longrightarrow> g q = h q)"
  using list_insert_dll [of h l "[]" xs e] assms
  by (simp add: list_push_front_def dll_headtail)

lemma list_push_back_dll:
  assumes "dll h l xs" "e \<notin> addrs l xs"
  shows "\<exists>g. list_push_back (Some l) (Some e) h = Ok g \<and> dll g l (xs @ [e]) \<and>
             (\<forall>q. q \<notin> insert e (addrs l xs) \<longrightarrow> g q = h q)"
  using list_insert_dll [of h l xs "[]" e] assms by (simp add: list_push_back_def)

lemma list_pop_front_dll:
  assumes "dll h l (x # xs)"
  shows "\<exists>g. list_pop_front (Some l) h = Ok (Some x, g) \<and> dll g l xs \<and>
             (\<forall>q. q \<notin> addrs l xs \<longrightarrow> g q = h q)"
  using list_remove_dll [of h l "[]" x xs] assms
  by (auto simp: list_pop_front_def list_empty_dll dll_headtail)

lemma list_pop_back_dll:
  assumes "dll h l (xs @ [x])"
  shows "\<exists>g. list_pop_back (Some l) h = Ok (Some x, g) \<and> dll g l xs \<and>
             (\<forall>q. q \<notin> addrs l xs \<longrightarrow> g q = h q)"
  using list_remove_dll [of h l xs x "[]"] assms dll_headtail(3) [OF assms]
  by (auto simp: list_pop_back_def list_empty_dll)

text \<open>Popping an empty list is the assertion failure the comments call undefined behaviour.\<close>

lemma list_pop_empty:
  assumes "dll h l []"
  shows "list_pop_front (Some l) h = Panic ''list''" "list_pop_back (Some l) h = Panic ''list''"
  using assms by (simp_all add: list_pop_front_def list_pop_back_def list_empty_dll)

lemma list_size_loop:
  assumes "dll h l (xs @ ys)"
  shows "loopR (\<lambda>(e, cnt). bindR (list_end (Some l)) (\<lambda>t.
           if e \<noteq> t then bindR (list_next e h) (\<lambda>e. Ok (Next (e, cnt + 1)))
           else Ok (Exit cnt))) (Some (hd (ys @ [ltail l])), c) = Ok (c + of_nat (length ys) :: 64 word)"
  using assms
proof (induction ys arbitrary: xs c)
  case Nil
  then show ?case by (subst loopR_unfold) simp
next
  case (Cons y ys)
  have "dll h l ((xs @ [y]) @ ys)" using Cons.prems by simp
  from Cons.IH [OF this, of "c + 1"] show ?case
    using Cons.prems by (subst loopR_unfold) (simp add: list_next_dll dll_interior(3) ac_simps)
qed

lemma list_size_dll: "dll h l xs \<Longrightarrow> list_size (Some l) h = Ok (of_nat (length xs))"
  using list_size_loop [of h l "[]" xs 0] by (simp add: list_size_def dll_headtail)

subsection \<open>Reversal\<close>

definition flip_links :: "'p set \<Rightarrow> 'p lheap \<Rightarrow> 'p lheap" where
  "flip_links A h = (\<lambda>a. if a \<in> A then (h a)\<lparr>prv := nxt (h a), nxt := prv (h a)\<rparr> else h a)"

lemma flip_simps [simp]:
  "nxt (flip_links A h a) = (if a \<in> A then prv (h a) else nxt (h a))"
  "prv (flip_links A h a) = (if a \<in> A then nxt (h a) else prv (h a))"
  by (simp_all add: flip_links_def)

lemma swap_flip:
  "y \<notin> A \<Longrightarrow> swap (PrevOf (Some y)) (NextOf (Some y)) (flip_links A h) = Ok (flip_links (insert y A) h)"
  by (auto simp: swap_def flip_links_def upd_nxt_def upd_prv_def fun_eq_iff)

lemma linked_flip: "linked h xs \<Longrightarrow> set xs \<subseteq> A \<Longrightarrow> linked (flip_links A h) (rev xs)"
  by (induction h xs rule: linked.induct) (auto simp: linked_split)

lemma linked_wrap:
  assumes "zs \<noteq> []"
  shows "linked r (a # zs @ [b]) \<longleftrightarrow> nxt (r a) = Some (hd zs) \<and> prv (r (hd zs)) = Some a \<and>
     linked r zs \<and> nxt (r (last zs)) = Some b \<and> prv (r b) = Some (last zs)"
proof -
  have "linked r (a # zs @ [b]) \<longleftrightarrow> nxt (r a) = Some (hd zs) \<and> prv (r (hd zs)) = Some a \<and> linked r (zs @ [b])"
    using assms by (cases zs) auto
  moreover have "linked r (zs @ [b]) \<longleftrightarrow> linked r zs \<and> nxt (r (last zs)) = Some b \<and> prv (r b) = Some (last zs)"
    using assms by (cases zs rule: rev_cases) (auto simp: linked_split)
  ultimately show ?thesis by blast
qed

lemma list_reverse_loop:
  assumes "dll h l (xs @ ys)"
  shows "loopR (\<lambda>(e, h). bindR (list_end (Some l)) (\<lambda>t.
           if e \<noteq> t
           then bindR (swap (PrevOf e) (NextOf e) h) (\<lambda>h. bindR (ld_prv e h) (\<lambda>e. Ok (Next (e, h))))
           else Ok (Exit h))) (Some (hd (ys @ [ltail l])), flip_links (set xs) h)
         = Ok (flip_links (set (xs @ ys)) h)"
  using assms
proof (induction ys arbitrary: xs)
  case Nil
  then show ?case by (subst loopR_unfold) simp
next
  case (Cons y ys)
  have "dll h l ((xs @ [y]) @ ys)" using Cons.prems by simp
  from Cons.IH [OF this] show ?case
    using dll_interior [OF Cons.prems] by (subst loopR_unfold) (simp add: swap_flip)
qed

lemma list_reverse_dll:
  assumes d: "dll h l xs"
  shows "\<exists>g. list_reverse (Some l) h = Ok g \<and> dll g l (rev xs) \<and> (\<forall>q. q \<notin> addrs l xs \<longrightarrow> g q = h q)"
proof (cases "xs = []")
  case True
  then show ?thesis using d by (simp add: list_empty_dll)
next
  case False
  note ht = dll_headtail [OF d]
  let ?f = "flip_links (set xs) h"
  let ?r = "upd_nxt (hd xs) (Some (ltail l)) (upd_prv (last xs) (Some (lhead l))
     (upd_prv (ltail l) (Some (hd xs)) (upd_nxt (lhead l) (Some (last xs)) ?f)))"
  have in1: "hd xs \<in> set xs" "last xs \<in> set xs" using False by auto
  have hx: "nxt (h (lhead l)) = Some (hd xs)" "prv (h (ltail l)) = Some (last xs)"
    using ht False by auto
  have lx: "prv (h (hd xs)) = Some (lhead l)" "nxt (h (last xs)) = Some (ltail l)" "linked h xs"
    using d linked_wrap [OF False, of h "lhead l" "ltail l"] by (simp_all add: dll_def chain_def)
  have run: "list_reverse (Some l) h = Ok ?r"
    using list_reverse_loop [of h l "[]" xs] d False ht hx lx in1
    by (auto simp: list_empty_dll swap_def flip_links_def)
  have "linked ?r (rev xs) = linked ?f (rev xs)"
  proof (rule linked_cong)
    fix a assume "a \<in> set (butlast (rev xs))"
    then have "a \<in> set (tl xs)" by (simp add: butlast_rev)
    then have "a \<noteq> hd xs" "a \<noteq> lhead l" using ht(6,8) False by (cases xs; auto)+
    then show "nxt (?r a) = nxt (?f a)" by simp
  next
    fix a assume "a \<in> set (tl (rev xs))"
    then have *: "a \<in> set (butlast xs)" by (metis butlast_rev rev_rev_ident set_rev)
    then have "a \<noteq> last xs" using ht(8) by (cases xs rule: rev_cases) auto
    moreover have "a \<noteq> ltail l" using ht(7) in_set_butlastD [OF *] by auto
    ultimately show "prv (?r a) = prv (?f a)" by simp
  qed
  then have "linked ?r (rev xs)" using linked_flip [OF lx(3)] by simp
  then have "dll ?r l (rev xs)"
    using ht in1 False by (auto simp: dll_def chain_def linked_wrap hd_rev last_rev)
  moreover have "\<forall>q. q \<notin> addrs l xs \<longrightarrow> ?r q = h q"
    using in1 by (auto simp: addrs_def flip_links_def upd_nxt_def upd_prv_def)
  ultimately show ?thesis using run by blast
qed

section \<open>The list as a queue\<close>

text \<open>
  The contract the process and container code relies on: an abstract sequence \<open>rep h l xs\<close>
  with footprint \<open>foot l xs\<close>, an emptiness test, the first element, insertion at the back
  and removal of any element, each of which leaves everything outside the footprint alone.
\<close>

locale queue_contract =
  fixes rep :: "('e \<Rightarrow> 'c) \<Rightarrow> 'l \<Rightarrow> 'e list \<Rightarrow> bool"
    and foot :: "'l \<Rightarrow> 'e list \<Rightarrow> 'e set"
    and isempty :: "'l \<Rightarrow> ('e \<Rightarrow> 'c) \<Rightarrow> bool res"
    and first :: "'l \<Rightarrow> ('e \<Rightarrow> 'c) \<Rightarrow> 'e option res"
    and push :: "'l \<Rightarrow> 'e \<Rightarrow> ('e \<Rightarrow> 'c) \<Rightarrow> ('e \<Rightarrow> 'c) res"
    and remove :: "'e option \<Rightarrow> ('e \<Rightarrow> 'c) \<Rightarrow> ('e option \<times> ('e \<Rightarrow> 'c)) res"
  assumes isempty_law: "rep h l xs \<Longrightarrow> isempty l h = Ok (xs = [])"
    and first_law: "rep h l (x # xs) \<Longrightarrow> first l h = Ok (Some x)"
    and push_law: "rep h l xs \<Longrightarrow> e \<notin> foot l xs \<Longrightarrow>
      \<exists>g. push l e h = Ok g \<and> rep g l (xs @ [e]) \<and> (\<forall>q. q \<notin> insert e (foot l xs) \<longrightarrow> g q = h q)"
    and remove_law: "rep h l (xs @ e # ys) \<Longrightarrow>
      \<exists>r g. remove (Some e) h = Ok (r, g) \<and> rep g l (xs @ ys) \<and> (\<forall>q. q \<notin> foot l (xs @ ys) \<longrightarrow> g q = h q)"
    and foot_law: "foot l (xs @ [e]) = insert e (foot l xs)"
begin

text \<open>The dequeue idiom of \<open>alloccont\<close>, \<open>allocproc\<close> and \<open>scheduler\<close>.\<close>

lemma dequeue_law:
  "rep h l (x # xs) \<Longrightarrow>
   \<exists>g. bindR (isempty l h) (\<lambda>em. if em then Ok (None, h)
         else bindR (first l h) (\<lambda>e. bindR (remove e h) (\<lambda>(_, g). Ok (e, g)))) = Ok (Some x, g) \<and>
       rep g l xs \<and> (\<forall>q. q \<notin> foot l xs \<longrightarrow> g q = h q)"
  using remove_law [of h l "[]" x xs] by (auto simp: isempty_law first_law)

lemma dequeue_empty:
  "rep h l [] \<Longrightarrow>
   bindR (isempty l h) (\<lambda>em. if em then Ok (None, h)
         else bindR (first l h) (\<lambda>e. bindR (remove e h) (\<lambda>(_, g). Ok (e, g)))) = Ok (None, h)"
  by (simp add: isempty_law)

text \<open>First in, first out: pushing a batch of new elements appends it in order.\<close>

lemma push_all:
  "rep h l xs \<Longrightarrow> distinct es \<Longrightarrow> set es \<inter> foot l xs = {} \<Longrightarrow>
   \<exists>g. foldl (\<lambda>r e. bindR r (push l e)) (Ok h) es = Ok g \<and> rep g l (xs @ es) \<and>
       (\<forall>q. q \<notin> set es \<union> foot l xs \<longrightarrow> g q = h q)"
proof (induction es arbitrary: h xs)
  case Nil
  then show ?case by simp
next
  case (Cons e es)
  then have "e \<notin> foot l xs" by simp
  from push_law [OF Cons.prems(1) this] obtain g where
    g: "push l e h = Ok g" "rep g l (xs @ [e])" "\<forall>q. q \<notin> insert e (foot l xs) \<longrightarrow> g q = h q"
    by blast
  have "set es \<inter> foot l (xs @ [e]) = {}" using Cons.prems by (auto simp: foot_law)
  from Cons.IH [OF g(2) _ this] Cons.prems(2) obtain k where
    k: "foldl (\<lambda>r e. bindR r (push l e)) (Ok g) es = Ok k" "rep k l ((xs @ [e]) @ es)"
       "\<forall>q. q \<notin> set es \<union> foot l (xs @ [e]) \<longrightarrow> k q = g q"
    by auto
  have "\<forall>q. q \<notin> set (e # es) \<union> foot l xs \<longrightarrow> k q = h q" using k(3) g(3) by (auto simp: foot_law)
  then show ?case using k(1,2) g(1) by auto
qed

end

interpretation list_queue: queue_contract dll addrs "\<lambda>l. list_empty (Some l)"
  "\<lambda>l. list_begin (Some l)" "\<lambda>l e. list_push_back (Some l) (Some e)" list_remove
proof unfold_locales
  fix h :: "'a lheap" and l xs e ys
  assume "dll h l (xs @ e # ys)"
  then show "\<exists>r g. list_remove (Some e) h = Ok (r, g) \<and> dll g l (xs @ ys) \<and>
      (\<forall>q. q \<notin> addrs l (xs @ ys) \<longrightarrow> g q = h q)"
    using list_remove_dll [of h l xs e ys] by blast
next
  fix h :: "'a lheap" and l x xs
  assume "dll h l (x # xs)"
  then show "list_begin (Some l) h = Ok (Some x)" by (simp add: dll_headtail(1))
next
  fix h :: "'a lheap" and l xs e
  assume "dll h l xs" and "e \<notin> addrs l xs"
  then show "\<exists>g. list_push_back (Some l) (Some e) h = Ok g \<and> dll g l (xs @ [e]) \<and>
      (\<forall>q. q \<notin> insert e (addrs l xs) \<longrightarrow> g q = h q)"
    by (rule list_push_back_dll)
qed (auto simp: list_empty_dll addrs_def)

section \<open>Refinement: any sequence of list operations\<close>

text \<open>
  The abstract list is a HOL list of element addresses; an operation is allowed when its
  precondition holds (a new element is not in the list, the list to pop is not empty).
\<close>

datatype 'p list_op = PushFront 'p | PushBack 'p | PopFront | PopBack | Remove 'p | Reverse | Size

datatype 'p list_out = NoOut | OutElem "'p option" | OutSize "64 word"

fun spec_op :: "'p clist \<Rightarrow> 'p list_op \<Rightarrow> 'p list \<Rightarrow> ('p list_out \<times> 'p list) option" where
  "spec_op l (PushFront e) xs = (if e \<in> set (lhead l # ltail l # xs) then None else Some (NoOut, e # xs))"
| "spec_op l (PushBack e) xs = (if e \<in> set (lhead l # ltail l # xs) then None else Some (NoOut, xs @ [e]))"
| "spec_op l PopFront xs = (if xs = [] then None else Some (OutElem (Some (hd xs)), tl xs))"
| "spec_op l PopBack xs = (if xs = [] then None else Some (OutElem (Some (last xs)), butlast xs))"
| "spec_op l (Remove e) xs =
     (if e \<in> set xs then Some (OutElem (Some (hd (tl (dropWhile (\<lambda>y. y \<noteq> e) xs) @ [ltail l]))), remove1 e xs)
      else None)"
| "spec_op l Reverse xs = Some (NoOut, rev xs)"
| "spec_op l Size xs = Some (OutSize (of_nat (length xs)), xs)"

fun list_exec :: "'p clist \<Rightarrow> 'p list_op \<Rightarrow> 'p lheap \<Rightarrow> ('p list_out \<times> 'p lheap) res" where
  "list_exec l (PushFront e) h = bindR (list_push_front (Some l) (Some e) h) (\<lambda>h. Ok (NoOut, h))"
| "list_exec l (PushBack e) h = bindR (list_push_back (Some l) (Some e) h) (\<lambda>h. Ok (NoOut, h))"
| "list_exec l PopFront h = bindR (list_pop_front (Some l) h) (\<lambda>(e, h). Ok (OutElem e, h))"
| "list_exec l PopBack h = bindR (list_pop_back (Some l) h) (\<lambda>(e, h). Ok (OutElem e, h))"
| "list_exec l (Remove e) h = bindR (list_remove (Some e) h) (\<lambda>(e, h). Ok (OutElem e, h))"
| "list_exec l Reverse h = bindR (list_reverse (Some l) h) (\<lambda>h. Ok (NoOut, h))"
| "list_exec l Size h = bindR (list_size (Some l) h) (\<lambda>n. Ok (OutSize n, h))"

fun spec_ops :: "'p clist \<Rightarrow> 'p list_op list \<Rightarrow> 'p list \<Rightarrow> ('p list_out list \<times> 'p list) option" where
  "spec_ops l [] xs = Some ([], xs)"
| "spec_ops l (x # os) xs =
     (case spec_op l x xs of None \<Rightarrow> None
      | Some (r, ys) \<Rightarrow> (case spec_ops l os ys of None \<Rightarrow> None | Some (rs, zs) \<Rightarrow> Some (r # rs, zs)))"

fun list_execs :: "'p clist \<Rightarrow> 'p list_op list \<Rightarrow> 'p lheap \<Rightarrow> ('p list_out list \<times> 'p lheap) res" where
  "list_execs l [] h = Ok ([], h)"
| "list_execs l (x # os) h = bindR (list_exec l x h) (\<lambda>(r, h). bindR (list_execs l os h) (\<lambda>(rs, h). Ok (r # rs, h)))"

lemma list_exec_refines:
  assumes "dll h l xs" "spec_op l x xs = Some (r, ys)"
  shows "\<exists>g. list_exec l x h = Ok (r, g) \<and> dll g l ys"
proof (cases x)
  case (PushFront e)
  then show ?thesis using assms list_push_front_dll [OF assms(1), of e] by (auto simp: addrs_def split: if_splits)
next
  case (PushBack e)
  then show ?thesis using assms list_push_back_dll [OF assms(1), of e] by (auto simp: addrs_def split: if_splits)
next
  case PopFront
  then obtain y zs where "xs = y # zs" using assms(2) by (cases xs) auto
  then show ?thesis using PopFront assms list_pop_front_dll [of h l y zs] by auto
next
  case PopBack
  then obtain y zs where "xs = zs @ [y]" using assms(2) by (cases xs rule: rev_cases) auto
  then show ?thesis using PopBack assms list_pop_back_dll [of h l zs y] by auto
next
  case (Remove e)
  then obtain as bs where xs: "xs = as @ e # bs" "e \<notin> set as" using assms(2) by (auto split: if_splits dest: split_list_first)
  then have "dropWhile (\<lambda>y. y \<noteq> e) xs = e # bs" by (auto simp: dropWhile_append)
  then show ?thesis using Remove xs assms list_remove_dll [of h l as e bs] by (auto simp: remove1_append split: if_splits)
next
  case Reverse
  then show ?thesis using assms list_reverse_dll [OF assms(1)] by auto
next
  case Size
  then show ?thesis using assms list_size_dll [OF assms(1)] by auto
qed

lemma list_execs_sim:
  "dll h l xs \<Longrightarrow> spec_ops l os xs = Some (rs, ys) \<Longrightarrow> \<exists>g. list_execs l os h = Ok (rs, g) \<and> dll g l ys"
proof (induction os arbitrary: h xs rs)
  case (Cons x os)
  then obtain r zs qs where s: "spec_op l x xs = Some (r, zs)" "spec_ops l os zs = Some (qs, ys)" "rs = r # qs"
    by (auto split: option.splits)
  from list_exec_refines [OF Cons.prems(1) s(1)] obtain g where "list_exec l x h = Ok (r, g)" "dll g l zs" by blast
  with Cons.IH [OF this(2) s(2)] s(3) show ?case by auto
qed simp

lemma list_splice_dlls:
  assumes d1: "dll h l (xs @ ys)" and d2: "dll h k (as @ (f # m) @ bs)"
    and disj: "addrs l (xs @ ys) \<inter> addrs k (as @ (f # m) @ bs) = {}"
  shows "\<exists>g. list_splice (Some (hd (ys @ [ltail l]))) (Some f) (Some (hd (bs @ [ltail k]))) h = Ok g \<and>
    dll g l (xs @ (f # m) @ ys) \<and> dll g k (as @ bs) \<and>
    (\<forall>q. q \<notin> addrs l (xs @ ys) \<union> addrs k (as @ (f # m) @ bs) \<longrightarrow> g q = h q)"
proof -
  let ?u = "butlast (lhead l # xs)" and ?p = "last (lhead l # xs)" and ?b = "hd (ys @ [ltail l])" and ?v = "tl (ys @ [ltail l])"
  let ?w = "butlast (lhead k # as)" and ?q = "last (lhead k # as)" and ?c = "hd (bs @ [ltail k])" and ?z = "tl (bs @ [ltail k])"
  have c1: "chain h (?u @ ?p # ?b # ?v)" using d1 dll_join [of h l xs "[]" ys] by simp
  have c2: "chain h (?w @ ?q # (f # m) @ ?c # ?z)" using d2 dll_join [of h k as "f # m" bs] by simp
  have s1: "set (?u @ ?p # ?b # ?v) = addrs l (xs @ ys)"
    by (subst butlast_last_hd_tl [where m = "[]", simplified]) (auto simp: addrs_def)
  have s2: "set (?w @ ?q # (f # m) @ ?c # ?z) = addrs k (as @ (f # m) @ bs)"
    by (subst butlast_last_hd_tl [where m = "f # m"]) (auto simp: addrs_def)
  from chain_splice_two [OF c1 c2] disj s1 s2 obtain g where
    g: "list_splice (Some ?b) (Some f) (Some ?c) h = Ok g" "chain g (?u @ ?p # (f # m) @ ?b # ?v)"
       "chain g (?w @ ?q # ?c # ?z)" "\<forall>a. a \<notin> {?p, ?b, ?q, f, last (f # m), ?c} \<longrightarrow> g a = h a" by auto
  have "dll g l (xs @ (f # m) @ ys)" "dll g k (as @ bs)"
    using g(2,3) dll_join [of g l xs "f # m" ys] dll_join [of g k as "[]" bs] by simp_all
  moreover have "{?p, ?b, ?q, f, last (f # m), ?c} \<subseteq> addrs l (xs @ ys) \<union> addrs k (as @ (f # m) @ bs)"
    using last_in_set [of "f # m"] unfolding s1 [symmetric] s2 [symmetric] set_append list.set(2) by blast
  ultimately show ?thesis using g(1,4) by (intro exI [of _ g]) blast
qed

section \<open>Properties\<close>

definition sample_list :: "nat clist" where
  "sample_list = \<lparr>lhead = 100, ltail = 101\<rparr>"

definition sample_heap :: "nat lheap" where
  "sample_heap = (\<lambda>_. \<lparr>prv = None, nxt = None\<rparr>)
     (100 := \<lparr>prv = None, nxt = Some 3\<rparr>, 3 := \<lparr>prv = Some 100, nxt = Some 1\<rparr>,
      1 := \<lparr>prv = Some 3, nxt = Some 2\<rparr>, 2 := \<lparr>prv = Some 1, nxt = Some 101\<rparr>,
      101 := \<lparr>prv = Some 2, nxt = None\<rparr>)"

lemma sample_dll: "dll sample_heap sample_list [3, 1, 2]"
  by (simp add: dll_def chain_def sample_heap_def sample_list_def)


text \<open>
  C5.  Refinement of the pointer lists by HOL lists: for every sequence of pushes, pops,
  removals, reversals and size queries whose preconditions hold on the abstract list, the
  pointer code runs without an assertion failure, returns the same outputs, and leaves a
  well-formed list with the same contents.
\<close>

theorem list_ops_refine:
  assumes "dll h l xs" "spec_ops l os xs = Some (rs, ys)"
  shows "\<exists>g. list_execs l os h = Ok (rs, g) \<and> dll g l ys"
  using assms by (rule list_execs_sim)

theorem list_ops_refine_witness:
  "\<exists>g. list_execs sample_list [PushBack 7, PopFront, Reverse, Remove 2, Size] sample_heap
         = Ok ([NoOut, OutElem (Some 3), NoOut, OutElem (Some 1), OutSize 2], g) \<and> dll g sample_list [7, 1]"
  by (rule list_ops_refine [OF sample_dll]) (simp add: sample_list_def)


text \<open>
  \<open>list_splice\<close> moves a whole segment of one list before a given position of another one:
  both lists stay well formed, their contents are what the move says, and no other element
  is touched.
\<close>

theorem list_splice_moves:
  assumes "dll h l (xs @ ys)" "dll h k (as @ (f # m) @ bs)"
    and "addrs l (xs @ ys) \<inter> addrs k (as @ (f # m) @ bs) = {}"
  shows "\<exists>g. list_splice (Some (hd (ys @ [ltail l]))) (Some f) (Some (hd (bs @ [ltail k]))) h = Ok g \<and>
    dll g l (xs @ (f # m) @ ys) \<and> dll g k (as @ bs) \<and>
    (\<forall>q. q \<notin> addrs l (xs @ ys) \<union> addrs k (as @ (f # m) @ bs) \<longrightarrow> g q = h q)"
  using assms by (rule list_splice_dlls)

theorem list_splice_moves_witness:
  "\<exists>h g. list_splice (Some 1) (Some 7) (Some 201) h = Ok g \<and>
     dll g sample_list [3, 7, 1, 2] \<and> dll g \<lparr>lhead = 200, ltail = 201\<rparr> [8]"
proof -
  let ?h = "sample_heap(200 := \<lparr>prv = None, nxt = Some 8\<rparr>, 8 := \<lparr>prv = Some 200, nxt = Some 7\<rparr>,
      7 := \<lparr>prv = Some 8, nxt = Some 201\<rparr>, 201 := \<lparr>prv = Some 7, nxt = None\<rparr>)"
  have "dll ?h sample_list ([3] @ [1, 2])" "dll ?h \<lparr>lhead = 200, ltail = 201\<rparr> ([8] @ [7] @ [])"
    by (simp_all add: dll_def chain_def sample_heap_def sample_list_def)
  from list_splice_moves [OF this] show ?thesis by (auto simp: addrs_def sample_list_def)
qed

end
