(* ===== verification/ListSort.thy ===== *)
theory ListSort
  imports LinkedList "HOL-Library.Sublist"
begin

text \<open>
  The ordered operations of \<open>kernel/list.c\<close>: the natural merge sort \<open>list_sort\<close> with its
  helpers, ordered insertion, removal of adjacent duplicates, maximum and minimum.  The
  comparison \<open>less (a, b, aux)\<close> is a parameter \<open>lessf\<close> (with \<open>aux\<close> already applied); what
  the theorems need of it is \<open>strict_weak lessf\<close>.
\<close>

section \<open>Operations\<close>

definition less_at :: "('p \<Rightarrow> 'p \<Rightarrow> bool) \<Rightarrow> 'p option \<Rightarrow> 'p option \<Rightarrow> bool res" where
  "less_at lessf p q =
     (case p of None \<Rightarrow> Fault
      | Some a \<Rightarrow> (case q of None \<Rightarrow> Fault | Some b \<Rightarrow> Ok (lessf a b)))"

definition is_sorted ::
  "'p option \<Rightarrow> 'p option \<Rightarrow> ('p \<Rightarrow> 'p \<Rightarrow> bool) \<Rightarrow> 'p lheap \<Rightarrow> bool res" where
  "is_sorted a b lessf h =
     (if a \<noteq> b then
        loopR (\<lambda>a. bindR (list_next a h) (\<lambda>a.
          if a \<noteq> b then
            bindR (list_prev a h) (\<lambda>p. bindR (less_at lessf a p) (\<lambda>lt.
            if lt then Ok (Exit False) else Ok (Next a)))
          else Ok (Exit True))) a
      else Ok True)"

definition find_end_of_run ::
  "'p option \<Rightarrow> 'p option \<Rightarrow> ('p \<Rightarrow> 'p \<Rightarrow> bool) \<Rightarrow> 'p lheap \<Rightarrow> 'p option res" where
  "find_end_of_run a b lessf h =
     bindR (ASSERT (a \<noteq> None)) (\<lambda>_.
     bindR (ASSERT (b \<noteq> None)) (\<lambda>_.
     bindR (ASSERT (a \<noteq> b)) (\<lambda>_.
     loopR (\<lambda>a. bindR (list_next a h) (\<lambda>a.
       if a \<noteq> b then
         bindR (list_prev a h) (\<lambda>p. bindR (less_at lessf a p) (\<lambda>lt.
         if \<not> lt then Ok (Next a) else Ok (Exit a)))
       else Ok (Exit a))) a)))"

definition inplace_merge ::
  "'p option \<Rightarrow> 'p option \<Rightarrow> 'p option \<Rightarrow> ('p \<Rightarrow> 'p \<Rightarrow> bool) \<Rightarrow> 'p lheap \<Rightarrow> 'p lheap res" where
  "inplace_merge a0 a1b0 b1 lessf h =
     bindR (ASSERT (a0 \<noteq> None)) (\<lambda>_.
     bindR (ASSERT (a1b0 \<noteq> None)) (\<lambda>_.
     bindR (ASSERT (b1 \<noteq> None)) (\<lambda>_.
     bindR (is_sorted a0 a1b0 lessf h) (\<lambda>s1. bindR (ASSERT s1) (\<lambda>_.
     bindR (is_sorted a1b0 b1 lessf h) (\<lambda>s2. bindR (ASSERT s2) (\<lambda>_.
     loopR (\<lambda>(a0, a1b0, h).
       if a0 \<noteq> a1b0 \<and> a1b0 \<noteq> b1 then
         bindR (less_at lessf a1b0 a0) (\<lambda>lt.
         if \<not> lt then bindR (list_next a0 h) (\<lambda>a0. Ok (Next (a0, a1b0, h)))
         else
           bindR (list_next a1b0 h) (\<lambda>a1b0.
           bindR (list_prev a1b0 h) (\<lambda>p.
           bindR (list_splice a0 p a1b0 h) (\<lambda>h. Ok (Next (a0, a1b0, h))))))
       else Ok (Exit h)) (a0, a1b0, h))))))))"

text \<open>One pass of \<open>list_sort\<close>: the inner \<open>for\<close> loop, with the number of output runs.\<close>

definition sort_pass ::
  "'p clist option \<Rightarrow> ('p \<Rightarrow> 'p \<Rightarrow> bool) \<Rightarrow> 'p lheap \<Rightarrow> (64 word \<times> 'p lheap) res" where
  "sort_pass l lessf h =
     bindR (list_begin l h) (\<lambda>a0.
     bindR (list_end l) (\<lambda>e.
     loopR (\<lambda>(a0, output_run_cnt, h).
       if a0 \<noteq> e then
         bindR (find_end_of_run a0 e lessf h) (\<lambda>a1b0.
         if a1b0 = e then Ok (Exit (output_run_cnt + 1, h))
         else
           bindR (find_end_of_run a1b0 e lessf h) (\<lambda>b1.
           bindR (inplace_merge a0 a1b0 b1 lessf h) (\<lambda>h.
           Ok (Next (b1, output_run_cnt + 1, h)))))
       else Ok (Exit (output_run_cnt, h))) (a0, 0, h)))"

definition list_sort ::
  "'p clist option \<Rightarrow> ('p \<Rightarrow> 'p \<Rightarrow> bool) \<Rightarrow> 'p lheap \<Rightarrow> 'p lheap res" where
  "list_sort l lessf h =
     bindR (ASSERT (l \<noteq> None)) (\<lambda>_.
     bindR (loopR (\<lambda>h. bindR (sort_pass l lessf h) (\<lambda>(output_run_cnt, h).
              if output_run_cnt > 1 then Ok (Next h) else Ok (Exit h))) h) (\<lambda>h.
     bindR (list_begin l h) (\<lambda>b. bindR (list_end l) (\<lambda>e.
     bindR (is_sorted b e lessf h) (\<lambda>s. bindR (ASSERT s) (\<lambda>_. Ok h))))))"

definition list_insert_ordered ::
  "'p clist option \<Rightarrow> 'p option \<Rightarrow> ('p \<Rightarrow> 'p \<Rightarrow> bool) \<Rightarrow> 'p lheap \<Rightarrow> 'p lheap res" where
  "list_insert_ordered l elem lessf h =
     bindR (ASSERT (l \<noteq> None)) (\<lambda>_.
     bindR (ASSERT (elem \<noteq> None)) (\<lambda>_.
     bindR (list_begin l h) (\<lambda>b.
     bindR (loopR (\<lambda>e. bindR (list_end l) (\<lambda>t.
              if e \<noteq> t then
                bindR (less_at lessf elem e) (\<lambda>lt.
                if lt then Ok (Exit e) else bindR (list_next e h) (\<lambda>e. Ok (Next e)))
              else Ok (Exit e))) b) (\<lambda>e.
     list_insert e elem h))))"

definition list_unique ::
  "'p clist option \<Rightarrow> 'p clist option \<Rightarrow> ('p \<Rightarrow> 'p \<Rightarrow> bool) \<Rightarrow> 'p lheap \<Rightarrow> 'p lheap res" where
  "list_unique l duplicates lessf h =
     bindR (ASSERT (l \<noteq> None)) (\<lambda>_.
     bindR (list_empty l h) (\<lambda>em.
     if em then Ok h
     else
       bindR (list_begin l h) (\<lambda>elem.
       loopR (\<lambda>(elem, h).
         bindR (list_next elem h) (\<lambda>next. bindR (list_end l) (\<lambda>t.
         if next \<noteq> t then
           bindR (less_at lessf elem next) (\<lambda>lt1. bindR (less_at lessf next elem) (\<lambda>lt2.
           if \<not> lt1 \<and> \<not> lt2 then
             bindR (list_remove next h) (\<lambda>(_, h).
             if duplicates \<noteq> None
             then bindR (list_push_back duplicates next h) (\<lambda>h. Ok (Next (elem, h)))
             else Ok (Next (elem, h)))
           else Ok (Next (next, h))))
         else Ok (Exit h)))) (elem, h))))"

definition list_max ::
  "'p clist option \<Rightarrow> ('p \<Rightarrow> 'p \<Rightarrow> bool) \<Rightarrow> 'p lheap \<Rightarrow> 'p option res" where
  "list_max l lessf h =
     bindR (list_begin l h) (\<lambda>max. bindR (list_end l) (\<lambda>t.
     if max \<noteq> t then
       bindR (list_next max h) (\<lambda>e.
       loopR (\<lambda>(max, e).
         if e \<noteq> t then
           bindR (less_at lessf max e) (\<lambda>lt.
           bindR (list_next e h) (\<lambda>e'. Ok (Next (if lt then e else max, e'))))
         else Ok (Exit max)) (max, e))
     else Ok max))"

definition list_min ::
  "'p clist option \<Rightarrow> ('p \<Rightarrow> 'p \<Rightarrow> bool) \<Rightarrow> 'p lheap \<Rightarrow> 'p option res" where
  "list_min l lessf h =
     bindR (list_begin l h) (\<lambda>min. bindR (list_end l) (\<lambda>t.
     if min \<noteq> t then
       bindR (list_next min h) (\<lambda>e.
       loopR (\<lambda>(min, e).
         if e \<noteq> t then
           bindR (less_at lessf e min) (\<lambda>lt.
           bindR (list_next e h) (\<lambda>e'. Ok (Next (if lt then e else min, e'))))
         else Ok (Exit min)) (min, e))
     else Ok min))"

section \<open>Reference definitions on HOL lists\<close>

definition strict_weak :: "('p \<Rightarrow> 'p \<Rightarrow> bool) \<Rightarrow> bool" where
  "strict_weak lessf \<longleftrightarrow>
     (\<forall>x y. lessf x y \<longrightarrow> \<not> lessf y x) \<and> (\<forall>x y z. \<not> lessf y x \<longrightarrow> \<not> lessf z y \<longrightarrow> \<not> lessf z x)"

definition eqv :: "('p \<Rightarrow> 'p \<Rightarrow> bool) \<Rightarrow> 'p \<Rightarrow> 'p \<Rightarrow> bool" where
  "eqv lessf x y \<longleftrightarrow> \<not> lessf x y \<and> \<not> lessf y x"

fun sorted_adj :: "('p \<Rightarrow> 'p \<Rightarrow> bool) \<Rightarrow> 'p list \<Rightarrow> bool" where
  "sorted_adj lessf (x # y # ys) = (\<not> lessf y x \<and> sorted_adj lessf (y # ys))"
| "sorted_adj lessf _ = True"

text \<open>The rest of the maximal nondecreasing run that starts at \<open>x\<close>, and what follows it.\<close>

fun run_split :: "('p \<Rightarrow> 'p \<Rightarrow> bool) \<Rightarrow> 'p \<Rightarrow> 'p list \<Rightarrow> 'p list \<times> 'p list" where
  "run_split lessf x [] = ([], [])"
| "run_split lessf x (y # ys) =
     (if lessf y x then ([], y # ys)
      else (y # fst (run_split lessf y ys), snd (run_split lessf y ys)))"

fun mrg :: "('p \<Rightarrow> 'p \<Rightarrow> bool) \<Rightarrow> 'p list \<Rightarrow> 'p list \<Rightarrow> 'p list" where
  "mrg lessf [] bs = bs"
| "mrg lessf as [] = as"
| "mrg lessf (a # as) (b # bs) =
     (if \<not> lessf b a then a # mrg lessf as (b # bs) else b # mrg lessf (a # as) bs)"

lemma run_split_append: "fst (run_split lessf x ys) @ snd (run_split lessf x ys) = ys"
  by (induction ys arbitrary: x) auto

lemma run_split_length: "length (snd (run_split lessf x ys)) \<le> length ys"
  by (induction ys arbitrary: x) (auto intro: le_SucI)

lemma run_split_length2:
  "snd (run_split lessf x ys) = z # zs \<Longrightarrow> length (snd (run_split lessf z zs)) < Suc (length ys)"
  using run_split_length [of lessf z zs] run_split_length [of lessf x ys] by simp

function pass :: "('p \<Rightarrow> 'p \<Rightarrow> bool) \<Rightarrow> 'p list \<Rightarrow> nat \<times> 'p list" where
  "pass lessf [] = (0, [])"
| "pass lessf (x # ys) =
     (case snd (run_split lessf x ys) of
        [] \<Rightarrow> (1, x # ys)
      | z # zs \<Rightarrow>
          (Suc (fst (pass lessf (snd (run_split lessf z zs)))),
           mrg lessf (x # fst (run_split lessf x ys)) (z # fst (run_split lessf z zs)) @
           snd (pass lessf (snd (run_split lessf z zs)))))"
  by pat_completeness auto
termination
  by (relation "measure (\<lambda>(lessf, xs). length xs)") (auto simp: run_split_length2)

declare pass.simps(2) [simp del]

text \<open>The number of maximal runs.\<close>

function nruns :: "('p \<Rightarrow> 'p \<Rightarrow> bool) \<Rightarrow> 'p list \<Rightarrow> nat" where
  "nruns lessf [] = 0"
| "nruns lessf (x # ys) = Suc (nruns lessf (snd (run_split lessf x ys)))"
  by pat_completeness auto
termination
  by (relation "measure (\<lambda>(lessf, xs). length xs)") (auto simp: le_imp_less_Suc run_split_length)

section \<open>The reference sort\<close>

lemma strict_weakD:
  assumes "strict_weak lessf"
  shows "lessf x y \<Longrightarrow> \<not> lessf y x" "\<not> lessf y x \<Longrightarrow> \<not> lessf z y \<Longrightarrow> \<not> lessf z x"
    "lessf x y \<Longrightarrow> \<not> lessf z y \<Longrightarrow> lessf x z" "\<not> lessf y x \<Longrightarrow> lessf y z \<Longrightarrow> lessf x z"
    "\<not> lessf x x"
  using assms unfolding strict_weak_def by blast+

lemma sorted_adj_wrt:
  assumes "strict_weak lessf"
  shows "sorted_adj lessf xs \<longleftrightarrow> sorted_wrt (\<lambda>x y. \<not> lessf y x) xs"
  using assms
proof (induction lessf xs rule: sorted_adj.induct)
  case (1 lessf x y ys)
  have "\<not> lessf z x" if "\<not> lessf y x" "\<not> lessf z y" for z
    by (rule strict_weakD(2) [OF "1.prems" that])
  then show ?case using 1 by auto
qed simp_all

lemma sorted_adj_run: "sorted_adj lessf (x # fst (run_split lessf x ys))"
  by (induction ys arbitrary: x) auto

lemma mset_mrg [simp]: "mset (mrg lessf as bs) = mset as + mset bs"
  by (induction lessf as bs rule: mrg.induct) auto

lemma set_mrg [simp]: "set (mrg lessf as bs) = set as \<union> set bs"
  by (metis mset_mrg set_mset_mset set_mset_union)

lemma sorted_mrg:
  assumes "strict_weak lessf"
  shows "sorted_wrt (\<lambda>x y. \<not> lessf y x) as \<Longrightarrow> sorted_wrt (\<lambda>x y. \<not> lessf y x) bs \<Longrightarrow>
    sorted_wrt (\<lambda>x y. \<not> lessf y x) (mrg lessf as bs)"
  using assms
proof (induction lessf as bs rule: mrg.induct)
  case (3 lessf a as b bs)
  note w = strict_weakD(1,2) [OF "3.prems"(3)]
  show ?case
  proof (cases "lessf b a")
    case True
    have "\<not> lessf x b" if "x \<in> set (a # as)" for x
      using that "3.prems"(1) w(1) [OF True] w(2) [OF w(1) [OF True]] by auto
    then show ?thesis using True 3 by auto
  next
    case False
    have "\<not> lessf x a" if "x \<in> set (b # bs)" for x
      using that "3.prems"(2) w(2) [OF False] False by auto
    then show ?thesis using False 3 by auto
  qed
qed simp_all

lemma stable_mrg:
  assumes "strict_weak lessf"
  shows "sorted_wrt (\<lambda>x y. \<not> lessf y x) as \<Longrightarrow>
    filter (eqv lessf k) (mrg lessf as bs) = filter (eqv lessf k) as @ filter (eqv lessf k) bs"
  using assms
proof (induction lessf as bs rule: mrg.induct)
  case (3 lessf a as b bs)
  note w = strict_weakD [OF "3.prems"(2)]
  show ?case
  proof (cases "lessf b a")
    case True
    have less: "lessf b x" if "x \<in> set (a # as)" for x
      using that True "3.prems"(1) w(3) [OF True] by auto
    then have "eqv lessf k b \<Longrightarrow> \<not> eqv lessf k x" if "x \<in> set (a # as)" for x
      using that w unfolding eqv_def by blast
    then have none: "eqv lessf k b \<Longrightarrow> filter (eqv lessf k) (a # as) = []"
      by (simp add: filter_empty_conv)
    have "filter (eqv lessf k) (mrg lessf (a # as) bs) =
        filter (eqv lessf k) (a # as) @ filter (eqv lessf k) bs"
      using "3.IH"(2) True "3.prems" by simp
    then show ?thesis using True none by (cases "eqv lessf k b") (simp_all del: filter.simps add: filter.simps(2) [of _ b])
  qed (use 3 in simp)
qed simp_all

lemma pass_props:
  assumes w: "strict_weak lessf"
  shows "mset (snd (pass lessf xs)) = mset xs \<and>
     filter (eqv lessf k) (snd (pass lessf xs)) = filter (eqv lessf k) xs"
  using w
proof (induction lessf xs rule: pass.induct)
  case (2 lessf x ys)
  show ?case
  proof (cases "snd (run_split lessf x ys)")
    case Nil
    then show ?thesis by (simp add: pass.simps)
  next
    case (Cons z zs)
    note IH = "2.IH" [OF Cons "2.prems"]
    have e1: "x # ys = (x # fst (run_split lessf x ys)) @ (z # fst (run_split lessf z zs)) @ snd (run_split lessf z zs)"
      using run_split_append [of lessf x ys] run_split_append [of lessf z zs] Cons by simp
    have s: "sorted_wrt (\<lambda>x y. \<not> lessf y x) (x # fst (run_split lessf x ys))"
      using sorted_adj_run [of lessf x ys] sorted_adj_wrt [OF "2.prems"] by blast
    let ?m = "mrg lessf (x # fst (run_split lessf x ys)) (z # fst (run_split lessf z zs))"
    have out: "snd (pass lessf (x # ys)) = ?m @ snd (pass lessf (snd (run_split lessf z zs)))"
      using Cons by (simp add: pass.simps(2))
    have "mset (snd (pass lessf (x # ys))) = mset (x # ys)"
      unfolding out by (subst e1) (use IH in \<open>simp del: mrg.simps\<close>)
    moreover have "filter (eqv lessf k) (snd (pass lessf (x # ys))) = filter (eqv lessf k) (x # ys)"
    proof -
      have "filter (eqv lessf k) (snd (pass lessf (x # ys))) =
        filter (eqv lessf k) (x # fst (run_split lessf x ys)) @
        filter (eqv lessf k) (z # fst (run_split lessf z zs)) @
        filter (eqv lessf k) (snd (run_split lessf z zs))"
        unfolding out filter_append stable_mrg [OF "2.prems" s] using IH by simp
      also have "\<dots> = filter (eqv lessf k) (x # ys)"
        by (subst e1) (simp only: filter_append)
      finally show ?thesis .
    qed
    ultimately show ?thesis ..
  qed
qed simp

lemma run_split_sorted_prefix:
  "sorted_adj lessf (x # xs) \<Longrightarrow>
   \<exists>r. run_split lessf x (xs @ ys) = (xs @ r, snd (run_split lessf (last (x # xs)) ys))"
proof (induction xs arbitrary: x)
  case Nil
  then show ?case by (intro exI [of _ "fst (run_split lessf x ys)"]) simp
next
  case (Cons a xs)
  then obtain r where "run_split lessf a (xs @ ys) = (xs @ r, snd (run_split lessf (last (a # xs)) ys))"
    by fastforce
  then show ?case using Cons.prems by auto
qed

lemma nruns_suffix: "nruns lessf (snd (run_split lessf y ys)) \<le> nruns lessf ys"
proof (cases ys)
  case (Cons a as)
  then show ?thesis by simp
qed simp

lemma nruns_sorted_append:
  assumes "sorted_adj lessf A" "A \<noteq> []"
  shows "nruns lessf (A @ ys) \<le> Suc (nruns lessf ys)"
proof -
  obtain x xs where A: "A = x # xs" using assms(2) by (cases A) auto
  then obtain r where "run_split lessf x (xs @ ys) = (xs @ r, snd (run_split lessf (last (x # xs)) ys))"
    using run_split_sorted_prefix [of lessf x xs ys] assms(1) by blast
  then show ?thesis using A nruns_suffix [of lessf "last (x # xs)" ys] by simp
qed

lemma pass_runs:
  assumes w: "strict_weak lessf"
  shows "fst (pass lessf xs) = (nruns lessf xs + 1) div 2 \<and>
     nruns lessf (snd (pass lessf xs)) \<le> fst (pass lessf xs)"
  using w
proof (induction lessf xs rule: pass.induct)
  case (2 lessf x ys)
  show ?case
  proof (cases "snd (run_split lessf x ys)")
    case Nil
    then show ?thesis by (simp add: pass.simps)
  next
    case (Cons z zs)
    note IH = "2.IH" [OF Cons "2.prems"]
    let ?m = "mrg lessf (x # fst (run_split lessf x ys)) (z # fst (run_split lessf z zs))"
    have "sorted_adj lessf ?m"
      using sorted_mrg [OF "2.prems"] sorted_adj_run [of lessf x ys] sorted_adj_run [of lessf z zs]
      by (simp only: sorted_adj_wrt [OF "2.prems"])
    moreover have "?m \<noteq> []" by simp
    ultimately show ?thesis
      using IH Cons nruns_sorted_append [of lessf ?m "snd (pass lessf (snd (run_split lessf z zs)))"]
      by (simp add: pass.simps)
  qed
qed simp

lemma nruns_1_sorted: "nruns lessf xs \<le> 1 \<Longrightarrow> sorted_adj lessf xs"
proof (cases xs)
  case (Cons x ys)
  assume "nruns lessf xs \<le> 1"
  then have "snd (run_split lessf x ys) = []" using Cons by (cases "snd (run_split lessf x ys)") auto
  then show ?thesis using Cons run_split_append [of lessf x ys] sorted_adj_run [of lessf x ys] by simp
qed simp

lemma pass_done:
  assumes "strict_weak lessf" "fst (pass lessf xs) \<le> 1"
  shows "sorted_wrt (\<lambda>x y. \<not> lessf y x) (snd (pass lessf xs))"
  using pass_runs [OF assms(1), of xs] assms nruns_1_sorted [of lessf "snd (pass lessf xs)"]
  by (auto simp: sorted_adj_wrt)

lemma pass_decreases:
  assumes "strict_weak lessf" "1 < fst (pass lessf xs)"
  shows "fst (pass lessf (snd (pass lessf xs))) < fst (pass lessf xs)"
  using pass_runs [OF assms(1), of xs] pass_runs [OF assms(1), of "snd (pass lessf xs)"] assms(2)
  by auto

lemma pass_count: "fst (pass lessf xs) \<le> length xs"
proof (induction lessf xs rule: pass.induct)
  case (2 lessf x ys)
  then show ?case
    using run_split_length2 [of lessf x ys]
    by (auto simp: pass.simps split: list.splits)
qed simp

section \<open>The pointer code follows the reference\<close>

lemma less_at_simps [simp]: "less_at lessf (Some a) (Some b) = Ok (lessf a b)"
  by (simp add: less_at_def)

lemma hd_pos_neq:
  assumes "dll h l (xs @ y # ys @ zs)"
  shows "y \<noteq> hd (zs @ [ltail l])"
  using dll_distinct [OF assms] by (cases zs) auto

lemma dll_neq_pos:
  assumes "dll h l (xs @ ys @ zs)"
  shows "hd (ys @ zs @ [ltail l]) = hd (zs @ [ltail l]) \<longleftrightarrow> ys = []"
proof (cases ys)
  case (Cons y ys')
  then show ?thesis using hd_pos_neq [of h l xs y ys' zs] assms by simp
qed simp

lemma is_sorted_dll:
  assumes "dll h l (xs @ ys @ zs)"
  shows "is_sorted (Some (hd (ys @ zs @ [ltail l]))) (Some (hd (zs @ [ltail l]))) lessf h
         = Ok (sorted_adj lessf ys)"
proof (cases ys)
  case Nil
  then show ?thesis by (simp add: is_sorted_def)
next
  case (Cons y ys')
  let ?b = "Some (hd (zs @ [ltail l]))"
  have "loopR (\<lambda>a. bindR (list_next a h) (\<lambda>a.
          if a \<noteq> ?b then
            bindR (list_prev a h) (\<lambda>p. bindR (less_at lessf a p) (\<lambda>lt.
            if lt then Ok (Exit False) else Ok (Next a)))
          else Ok (Exit True))) (Some y) = Ok (sorted_adj lessf (y # ys'))"
    using assms unfolding Cons
  proof (induction ys' arbitrary: xs y)
    case Nil
    then show ?case by (subst loopR_unfold) (simp add: list_next_dll)
  next
    case (Cons x ys')
    have d: "dll h l ((xs @ [y]) @ (x # ys') @ zs)" using Cons.prems by simp
    have "x \<noteq> hd (zs @ [ltail l])" using hd_pos_neq [of h l "xs @ [y]" x ys' zs] d by simp
    moreover have "list_prev (Some x) h = Ok (Some y)"
      using list_prev_dll [of h l "xs @ [y]" "x # ys' @ zs"] d by simp
    ultimately show ?case
      using Cons.IH [OF d] Cons.prems by (subst loopR_unfold) (simp add: list_next_dll)
  qed
  then show ?thesis using Cons dll_neq_pos [OF assms] by (simp add: is_sorted_def)
qed

lemma find_end_of_run_dll:
  assumes "dll h l (xs @ y # ys)"
  shows "find_end_of_run (Some y) (Some (ltail l)) lessf h
         = Ok (Some (hd (snd (run_split lessf y ys) @ [ltail l])))"
proof -
  have "loopR (\<lambda>a. bindR (list_next a h) (\<lambda>a.
       if a \<noteq> Some (ltail l) then
         bindR (list_prev a h) (\<lambda>p. bindR (less_at lessf a p) (\<lambda>lt.
         if \<not> lt then Ok (Next a) else Ok (Exit a)))
       else Ok (Exit a))) (Some y) = Ok (Some (hd (snd (run_split lessf y ys) @ [ltail l])))"
    using assms
  proof (induction ys arbitrary: xs y)
    case Nil
    then show ?case by (subst loopR_unfold) (simp add: list_next_dll)
  next
    case (Cons x ys)
    have d: "dll h l ((xs @ [y]) @ x # ys)" using Cons.prems by simp
    moreover have "list_prev (Some x) h = Ok (Some y)"
      using list_prev_dll [of h l "xs @ [y]" "x # ys"] d by simp
    ultimately show ?case
      using Cons.IH [OF d] Cons.prems dll_interior(3) [OF d]
      by (subst loopR_unfold) (simp add: list_next_dll)
  qed
  then show ?thesis using dll_interior(3) [OF assms] by (simp add: find_end_of_run_def)
qed

lemma inplace_merge_loop:
  assumes "dll h l (ps @ as @ bs @ zs)"
  shows "\<exists>g. loopR (\<lambda>(a0, a1b0, h).
       if a0 \<noteq> a1b0 \<and> a1b0 \<noteq> Some (hd (zs @ [ltail l])) then
         bindR (less_at lessf a1b0 a0) (\<lambda>lt.
         if \<not> lt then bindR (list_next a0 h) (\<lambda>a0. Ok (Next (a0, a1b0, h)))
         else
           bindR (list_next a1b0 h) (\<lambda>a1b0.
           bindR (list_prev a1b0 h) (\<lambda>p.
           bindR (list_splice a0 p a1b0 h) (\<lambda>h. Ok (Next (a0, a1b0, h))))))
       else Ok (Exit h))
       (Some (hd (as @ bs @ zs @ [ltail l])), Some (hd (bs @ zs @ [ltail l])), h) = Ok g \<and>
     dll g l (ps @ mrg lessf as bs @ zs) \<and> (\<forall>q. q \<notin> addrs l (ps @ as @ bs @ zs) \<longrightarrow> g q = h q)"
  using assms
proof (induction lessf as bs arbitrary: ps h rule: mrg.induct)
  case (1 lessf bs)
  then show ?case by (subst loopR_unfold) simp
next
  case (2 lessf a as)
  then show ?case by (subst loopR_unfold) simp
next
  case (3 lessf a as b bs)
  have n1: "a \<noteq> b" "b \<noteq> hd (zs @ [ltail l])"
    using hd_pos_neq [of h l ps a as "b # bs @ zs"] hd_pos_neq [of h l "ps @ a # as" b bs zs] "3.prems"
    by auto
  show ?case
  proof (cases "lessf b a")
    case False
    have d: "dll h l ((ps @ [a]) @ as @ (b # bs) @ zs)" using "3.prems" by simp
    have nx: "list_next (Some a) h = Ok (Some (hd (as @ (b # bs) @ zs @ [ltail l])))"
      using list_next_dll [of h l ps a "as @ (b # bs) @ zs"] "3.prems" by simp
    from "3.IH"(1) [OF False d] show ?thesis
      using False n1 nx by (subst loopR_unfold) simp
  next
    case True
    let ?c = "hd (bs @ zs @ [ltail l])"
    have nx: "list_next (Some b) h = Ok (Some ?c)"
      using list_next_dll [of h l "ps @ a # as" b "bs @ zs"] "3.prems" by simp
    have pv: "list_prev (Some ?c) h = Ok (Some b)"
      using list_prev_dll [of h l "ps @ a # as @ [b]" "bs @ zs"] "3.prems" by simp
    have "chain h (butlast (lhead l # ps) @ last (lhead l # ps) # a # as @ b # ?c # tl (bs @ zs @ [ltail l]))"
      using "3.prems" dll_join [of h l ps "a # as @ [b]" "bs @ zs"] by simp
    from chain_splice1 [OF this] obtain g where
      g: "list_splice (Some a) (Some b) (Some ?c) h = Ok g"
        "chain g (butlast (lhead l # ps) @ last (lhead l # ps) # (b # a # as) @ ?c # tl (bs @ zs @ [ltail l]))"
        "\<forall>q. q \<notin> set (last (lhead l # ps) # a # as @ [b, ?c]) \<longrightarrow> g q = h q"
      by auto
    have d: "dll g l ((ps @ [b]) @ (a # as) @ bs @ zs)"
      using g(2) dll_join [of g l ps "b # a # as" "bs @ zs"] by simp
    have sub: "set (last (lhead l # ps) # a # as @ [b, ?c]) \<subseteq> addrs l (ps @ (a # as) @ (b # bs) @ zs)"
      using hd_in_set [of "bs @ zs @ [ltail l]"] by (auto simp: addrs_def)
    have fr: "\<forall>q. q \<notin> addrs l (ps @ (a # as) @ (b # bs) @ zs) \<longrightarrow> g q = h q"
      using g(3) sub by blast
    have same: "addrs l ((ps @ [b]) @ (a # as) @ bs @ zs) = addrs l (ps @ (a # as) @ (b # bs) @ zs)"
      by (auto simp: addrs_def)
    from "3.IH"(2) [OF _ d] True obtain k where
      k: "loopR (\<lambda>(a0, a1b0, h).
       if a0 \<noteq> a1b0 \<and> a1b0 \<noteq> Some (hd (zs @ [ltail l])) then
         bindR (less_at lessf a1b0 a0) (\<lambda>lt.
         if \<not> lt then bindR (list_next a0 h) (\<lambda>a0. Ok (Next (a0, a1b0, h)))
         else
           bindR (list_next a1b0 h) (\<lambda>a1b0.
           bindR (list_prev a1b0 h) (\<lambda>p.
           bindR (list_splice a0 p a1b0 h) (\<lambda>h. Ok (Next (a0, a1b0, h))))))
       else Ok (Exit h)) (Some (hd ((a # as) @ bs @ zs @ [ltail l])), Some ?c, g) = Ok k"
       "dll k l ((ps @ [b]) @ mrg lessf (a # as) bs @ zs)"
       "\<forall>q. q \<notin> addrs l ((ps @ [b]) @ (a # as) @ bs @ zs) \<longrightarrow> k q = g q"
      by auto
    have "\<forall>q. q \<notin> addrs l (ps @ (a # as) @ (b # bs) @ zs) \<longrightarrow> k q = h q"
      using k(3) fr unfolding same by simp
    then show ?thesis
      using k(1,2) True n1 nx pv g(1) by (subst loopR_unfold) simp
  qed
qed

lemma inplace_merge_dll:
  assumes "dll h l (ps @ as @ bs @ zs)" "sorted_adj lessf as" "sorted_adj lessf bs"
  shows "\<exists>g. inplace_merge (Some (hd (as @ bs @ zs @ [ltail l]))) (Some (hd (bs @ zs @ [ltail l])))
           (Some (hd (zs @ [ltail l]))) lessf h = Ok g \<and>
     dll g l (ps @ mrg lessf as bs @ zs) \<and> (\<forall>q. q \<notin> addrs l (ps @ as @ bs @ zs) \<longrightarrow> g q = h q)"
proof -
  have s1: "is_sorted (Some (hd (as @ bs @ zs @ [ltail l]))) (Some (hd (bs @ zs @ [ltail l]))) lessf h = Ok True"
    using is_sorted_dll [of h l ps as "bs @ zs" lessf] assms by simp
  have s2: "is_sorted (Some (hd (bs @ zs @ [ltail l]))) (Some (hd (zs @ [ltail l]))) lessf h = Ok True"
    using is_sorted_dll [of h l "ps @ as" bs zs lessf] assms by simp

  have "inplace_merge (Some (hd (as @ bs @ zs @ [ltail l]))) (Some (hd (bs @ zs @ [ltail l])))
           (Some (hd (zs @ [ltail l]))) lessf h = loopR (\<lambda>(a0, a1b0, h).
       if a0 \<noteq> a1b0 \<and> a1b0 \<noteq> Some (hd (zs @ [ltail l])) then
         bindR (less_at lessf a1b0 a0) (\<lambda>lt.
         if \<not> lt then bindR (list_next a0 h) (\<lambda>a0. Ok (Next (a0, a1b0, h)))
         else
           bindR (list_next a1b0 h) (\<lambda>a1b0.
           bindR (list_prev a1b0 h) (\<lambda>p.
           bindR (list_splice a0 p a1b0 h) (\<lambda>h. Ok (Next (a0, a1b0, h))))))
       else Ok (Exit h))
       (Some (hd (as @ bs @ zs @ [ltail l])), Some (hd (bs @ zs @ [ltail l])), h)"
    unfolding inplace_merge_def s1 s2 ASSERT_def by (simp only: bindR.simps if_True option.distinct not_False_eq_True)
  then show ?thesis using inplace_merge_loop [OF assms(1), of lessf] by metis
qed

lemma addrs_mset: "mset xs = mset ys \<Longrightarrow> addrs l xs = addrs l ys"
  using mset_eq_setD [of xs ys] by (simp add: addrs_def)

lemma mset_pass [simp]: "mset (snd (pass lessf xs)) = mset xs"
proof (induction lessf xs rule: pass.induct)
  case (2 lessf x ys)
  show ?case
  proof (cases "snd (run_split lessf x ys)")
    case (Cons z zs)
    have "x # ys = (x # fst (run_split lessf x ys)) @ (z # fst (run_split lessf z zs)) @ snd (run_split lessf z zs)"
      using run_split_append [of lessf x ys] run_split_append [of lessf z zs] Cons by simp
    then show ?thesis using 2 [OF Cons] Cons
      by (metis (no_types, lifting) list.simps(5) mset_append mset_mrg pass.simps(2) snd_conv union_assoc)
  qed (simp add: pass.simps)
qed simp

lemma sort_pass_loop:
  assumes "dll h l (ps @ xs)"
  shows "\<exists>g. loopR (\<lambda>(a0, output_run_cnt, h).
       if a0 \<noteq> Some (ltail l) then
         bindR (find_end_of_run a0 (Some (ltail l)) lessf h) (\<lambda>a1b0.
         if a1b0 = Some (ltail l) then Ok (Exit (output_run_cnt + 1, h))
         else
           bindR (find_end_of_run a1b0 (Some (ltail l)) lessf h) (\<lambda>b1.
           bindR (inplace_merge a0 a1b0 b1 lessf h) (\<lambda>h.
           Ok (Next (b1, output_run_cnt + 1, h)))))
       else Ok (Exit (output_run_cnt, h))) (Some (hd (xs @ [ltail l])), c, h)
       = Ok (c + of_nat (fst (pass lessf xs)) :: 64 word, g) \<and>
     dll g l (ps @ snd (pass lessf xs)) \<and> (\<forall>q. q \<notin> addrs l (ps @ xs) \<longrightarrow> g q = h q)"
  using assms
proof (induction lessf xs arbitrary: ps h c rule: pass.induct)
  case (1 lessf)
  then show ?case by (subst loopR_unfold) simp
next
  case (2 lessf x ys)
  let ?r = "fst (run_split lessf x ys)"
  note ne = dll_interior(3) [OF "2.prems"]
  note fe = find_end_of_run_dll [OF "2.prems", of lessf]
  show ?case
  proof (cases "snd (run_split lessf x ys)")
    case Nil
    then show ?thesis using "2.prems" ne fe by (subst loopR_unfold) (simp add: pass.simps)
  next
    case (Cons z zs)
    let ?r2 = "fst (run_split lessf z zs)" and ?s = "snd (run_split lessf z zs)"
    have ys: "x # ys = (x # ?r) @ (z # ?r2) @ ?s"
      using run_split_append [of lessf x ys] run_split_append [of lessf z zs] Cons by simp
    have d: "dll h l (ps @ (x # ?r) @ (z # ?r2) @ ?s)" using "2.prems" unfolding ys .
    have dz: "dll h l ((ps @ x # ?r) @ z # zs)"
      using d run_split_append [of lessf z zs] by simp
    obtain g where g: "inplace_merge (Some x) (Some z) (Some (hd (?s @ [ltail l]))) lessf h = Ok g"
      "dll g l (ps @ mrg lessf (x # ?r) (z # ?r2) @ ?s)"
      "\<forall>q. q \<notin> addrs l (ps @ (x # ?r) @ (z # ?r2) @ ?s) \<longrightarrow> g q = h q"
      using inplace_merge_dll [OF d sorted_adj_run sorted_adj_run] by auto
    have d2: "dll g l ((ps @ mrg lessf (x # ?r) (z # ?r2)) @ ?s)" using g(2) by simp
    from "2.IH" [OF Cons d2, of "c + 1"] obtain k where
      k: "loopR (\<lambda>(a0, output_run_cnt, h).
       if a0 \<noteq> Some (ltail l) then
         bindR (find_end_of_run a0 (Some (ltail l)) lessf h) (\<lambda>a1b0.
         if a1b0 = Some (ltail l) then Ok (Exit (output_run_cnt + 1, h))
         else
           bindR (find_end_of_run a1b0 (Some (ltail l)) lessf h) (\<lambda>b1.
           bindR (inplace_merge a0 a1b0 b1 lessf h) (\<lambda>h.
           Ok (Next (b1, output_run_cnt + 1, h)))))
       else Ok (Exit (output_run_cnt, h))) (Some (hd (?s @ [ltail l])), c + 1, g)
       = Ok (c + 1 + of_nat (fst (pass lessf ?s)), k)"
       "dll k l ((ps @ mrg lessf (x # ?r) (z # ?r2)) @ snd (pass lessf ?s))"
       "\<forall>q. q \<notin> addrs l ((ps @ mrg lessf (x # ?r) (z # ?r2)) @ ?s) \<longrightarrow> k q = g q"
      by auto
    have "addrs l ((ps @ mrg lessf (x # ?r) (z # ?r2)) @ ?s) = addrs l (ps @ x # ys)"
      unfolding ys by (rule addrs_mset) (simp del: mrg.simps)
    then have "\<forall>q. q \<notin> addrs l (ps @ x # ys) \<longrightarrow> k q = h q"
      using k(3) g(3) unfolding ys by simp
    moreover have "fst (pass lessf (x # ys)) = Suc (fst (pass lessf ?s))"
      "snd (pass lessf (x # ys)) = mrg lessf (x # ?r) (z # ?r2) @ snd (pass lessf ?s)"
      using Cons by (simp_all add: pass.simps)
    ultimately show ?thesis
      using k(1,2) ne fe find_end_of_run_dll [OF dz, of lessf] dll_interior(3) [OF dz] Cons g(1)
      by (subst loopR_unfold) (simp del: mrg.simps add: ac_simps)
  qed
qed

lemma sort_pass_dll:
  assumes "dll h l xs"
  shows "\<exists>g. sort_pass (Some l) lessf h = Ok (of_nat (fst (pass lessf xs)), g) \<and>
     dll g l (snd (pass lessf xs)) \<and> (\<forall>q. q \<notin> addrs l xs \<longrightarrow> g q = h q)"
  using sort_pass_loop [of h l "[]" xs lessf 0] assms
  by (simp add: sort_pass_def dll_headtail(1))

lemma list_sort_loop:
  assumes "strict_weak lessf" "length xs < 2 ^ 64" "dll h l xs"
  shows "\<exists>g ys. loopR (\<lambda>h. bindR (sort_pass (Some l) lessf h) (\<lambda>(output_run_cnt, h).
              if output_run_cnt > 1 then Ok (Next h) else Ok (Exit h))) h = Ok g \<and>
     dll g l ys \<and> mset ys = mset xs \<and> sorted_wrt (\<lambda>x y. \<not> lessf y x) ys \<and>
     (\<forall>k. filter (eqv lessf k) ys = filter (eqv lessf k) xs) \<and>
     (\<forall>q. q \<notin> addrs l xs \<longrightarrow> g q = h q)"
  using assms(2,3)
proof (induction "fst (pass lessf xs)" arbitrary: xs h rule: less_induct)
  case less
  let ?ys = "snd (pass lessf xs)" and ?n = "fst (pass lessf xs)"
  obtain g where g: "sort_pass (Some l) lessf h = Ok (of_nat ?n, g)" "dll g l ?ys"
    "\<forall>q. q \<notin> addrs l xs \<longrightarrow> g q = h q"
    using sort_pass_dll [OF less.prems(2), of lessf] by blast
  have n: "?n < 2 ^ 64" using pass_count [of lessf xs] less.prems(1) by simp
  then have gt: "(of_nat ?n :: 64 word) > 1 \<longleftrightarrow> 1 < ?n"
    by (simp add: word_less_nat_alt unsigned_of_nat take_bit_nat_eq_self)
  have st: "filter (eqv lessf k) ?ys = filter (eqv lessf k) xs" for k
    using pass_props [OF assms(1)] by blast
  show ?case
  proof (cases "1 < ?n")
    case True
    have len: "length ?ys < 2 ^ 64" using less.prems(1) by (metis mset_pass size_mset)
    from less.hyps [OF pass_decreases [OF assms(1) True] len g(2)] obtain k zs where
      k: "loopR (\<lambda>h. bindR (sort_pass (Some l) lessf h) (\<lambda>(output_run_cnt, h).
              if output_run_cnt > 1 then Ok (Next h) else Ok (Exit h))) g = Ok k"
        "dll k l zs" "mset zs = mset ?ys" "sorted_wrt (\<lambda>x y. \<not> lessf y x) zs"
        "\<forall>k. filter (eqv lessf k) zs = filter (eqv lessf k) ?ys" "\<forall>q. q \<notin> addrs l ?ys \<longrightarrow> k q = g q"
      by blast
    have "addrs l ?ys = addrs l xs" by (rule addrs_mset) simp
    then have "\<forall>q. q \<notin> addrs l xs \<longrightarrow> k q = h q" using k(6) g(3) by simp
    then show ?thesis using k st g(1) True gt
      by (intro exI [of _ k] exI [of _ zs]) (subst loopR_unfold, simp)
  next
    case False
    then show ?thesis
      using g gt st pass_done [OF assms(1), of xs]
      by (intro exI [of _ g] exI [of _ ?ys]) (subst loopR_unfold, simp)
  qed
qed

lemma list_sort_dll:
  assumes "strict_weak lessf" "length xs < 2 ^ 64" "dll h l xs"
  shows "\<exists>g ys. list_sort (Some l) lessf h = Ok g \<and> dll g l ys \<and> mset ys = mset xs \<and>
     sorted_wrt (\<lambda>x y. \<not> lessf y x) ys \<and>
     (\<forall>k. filter (eqv lessf k) ys = filter (eqv lessf k) xs) \<and>
     (\<forall>q. q \<notin> addrs l xs \<longrightarrow> g q = h q)"
proof -
  from list_sort_loop [OF assms] obtain g ys where
    g: "loopR (\<lambda>h. bindR (sort_pass (Some l) lessf h) (\<lambda>(output_run_cnt, h).
              if output_run_cnt > 1 then Ok (Next h) else Ok (Exit h))) h = Ok g"
      "dll g l ys" "mset ys = mset xs" "sorted_wrt (\<lambda>x y. \<not> lessf y x) ys"
      "\<forall>k. filter (eqv lessf k) ys = filter (eqv lessf k) xs" "\<forall>q. q \<notin> addrs l xs \<longrightarrow> g q = h q"
    by blast
  have "list_sort (Some l) lessf h = Ok g"
    using g(1,2,4) is_sorted_dll [of g l "[]" ys "[]" lessf]
    by (simp add: list_sort_def sorted_adj_wrt [OF assms(1)] dll_headtail(1))
  then show ?thesis using g by blast
qed


section \<open>Ordered insertion, duplicates, extrema\<close>

lemma insert_ordered_loop:
  assumes "dll h l (xs @ ys)"
  shows "loopR (\<lambda>e. bindR (list_end (Some l)) (\<lambda>t.
              if e \<noteq> t then
                bindR (less_at lessf (Some x) e) (\<lambda>lt.
                if lt then Ok (Exit e) else bindR (list_next e h) (\<lambda>e. Ok (Next e)))
              else Ok (Exit e))) (Some (hd (ys @ [ltail l])))
         = Ok (Some (hd (dropWhile (\<lambda>y. \<not> lessf x y) ys @ [ltail l])))"
  using assms
proof (induction ys arbitrary: xs)
  case Nil
  then show ?case by (subst loopR_unfold) simp
next
  case (Cons y ys)
  have "dll h l ((xs @ [y]) @ ys)" using Cons.prems by simp
  from Cons.IH [OF this] show ?case
    using Cons.prems dll_interior(3) [OF Cons.prems] by (subst loopR_unfold) (simp add: list_next_dll)
qed

lemma list_insert_ordered_dll:
  assumes d: "dll h l xs" and x: "x \<notin> addrs l xs"
  shows "\<exists>g. list_insert_ordered (Some l) (Some x) lessf h = Ok g \<and>
     dll g l (takeWhile (\<lambda>y. \<not> lessf x y) xs @ x # dropWhile (\<lambda>y. \<not> lessf x y) xs) \<and>
     (\<forall>q. q \<notin> insert x (addrs l xs) \<longrightarrow> g q = h q)"
  using list_insert_dll [of h l "takeWhile (\<lambda>y. \<not> lessf x y) xs" "dropWhile (\<lambda>y. \<not> lessf x y) xs" x]
    insert_ordered_loop [of h l "[]" xs lessf x] d x
  by (simp add: list_insert_ordered_def dll_headtail(1))

lemma insert_position_sorted:
  assumes w: "strict_weak lessf" and s: "sorted_wrt (\<lambda>x y. \<not> lessf y x) xs"
  shows "sorted_wrt (\<lambda>x y. \<not> lessf y x) (takeWhile (\<lambda>y. \<not> lessf x y) xs @ x # dropWhile (\<lambda>y. \<not> lessf x y) xs)"
  using s
proof (induction xs)
  case (Cons y ys)
  show ?case
  proof (cases "lessf x y")
    case True
    have "\<not> lessf z x" if "z \<in> set (y # ys)" for z
      using that Cons.prems strict_weakD(1) [OF w True] strict_weakD(2) [OF w strict_weakD(1) [OF w True]]
      by auto
    then show ?thesis using True Cons.prems by simp
  next
    case False
    have "set (takeWhile (\<lambda>y. \<not> lessf x y) ys @ x # dropWhile (\<lambda>y. \<not> lessf x y) ys) = insert x (set ys)"
      by (metis Un_insert_right list.simps(15) set_append takeWhile_dropWhile_id)
    moreover have "\<not> lessf z y" if "z \<in> insert x (set ys)" for z
      using that False Cons.prems by auto
    ultimately have "\<forall>z\<in>set (takeWhile (\<lambda>y. \<not> lessf x y) ys @ x # dropWhile (\<lambda>y. \<not> lessf x y) ys). \<not> lessf z y"
      by blast
    then show ?thesis using False Cons by (simp del: set_append)
  qed
qed simp

text \<open>The elements \<open>list_unique\<close> keeps after \<open>x\<close>, and the ones it moves out.\<close>

fun uniq :: "('p \<Rightarrow> 'p \<Rightarrow> bool) \<Rightarrow> 'p \<Rightarrow> 'p list \<Rightarrow> 'p list \<times> 'p list" where
  "uniq lessf x [] = ([], [])"
| "uniq lessf x (y # ys) =
     (if eqv lessf x y then (fst (uniq lessf x ys), y # snd (uniq lessf x ys))
      else (y # fst (uniq lessf y ys), snd (uniq lessf y ys)))"

text \<open>
  With a \<open>duplicates\<close> list \<open>d\<close> the removed elements are appended to it, in order; without
  one they are just unlinked.
\<close>

definition dups_ok :: "'p lheap \<Rightarrow> 'p clist option \<Rightarrow> 'p clist \<Rightarrow> 'p list \<Rightarrow> 'p list \<Rightarrow> bool" where
  "dups_ok h dup l xs ds \<longleftrightarrow>
     (case dup of None \<Rightarrow> True | Some d \<Rightarrow> dll h d ds \<and> addrs d ds \<inter> addrs l xs = {})"

lemma list_unique_loop:
  assumes "dll h l (ps @ x # ys)" and "dups_ok h dup l (ps @ x # ys) ds"
  shows "\<exists>g. loopR (\<lambda>(elem, h).
         bindR (list_next elem h) (\<lambda>next. bindR (list_end (Some l)) (\<lambda>t.
         if next \<noteq> t then
           bindR (less_at lessf elem next) (\<lambda>lt1. bindR (less_at lessf next elem) (\<lambda>lt2.
           if \<not> lt1 \<and> \<not> lt2 then
             bindR (list_remove next h) (\<lambda>(_, h).
             if dup \<noteq> None
             then bindR (list_push_back dup next h) (\<lambda>h. Ok (Next (elem, h)))
             else Ok (Next (elem, h)))
           else Ok (Next (next, h))))
         else Ok (Exit h)))) (Some x, h) = Ok g \<and>
     dll g l (ps @ x # fst (uniq lessf x ys)) \<and>
     dups_ok g dup l (ps @ x # fst (uniq lessf x ys)) (ds @ snd (uniq lessf x ys))"
  using assms
proof (induction ys arbitrary: ps x h ds)
  case Nil
  then show ?case by (subst loopR_unfold) (simp add: list_next_dll)
next
  case (Cons y ys)
  have d': "dll h l ((ps @ [x]) @ y # ys)" using Cons.prems by simp
  note ne = dll_interior(3) [OF d']
  have nx: "list_next (Some x) h = Ok (Some y)" using list_next_dll [OF Cons.prems(1)] by simp
  show ?case
  proof (cases "eqv lessf x y")
    case False
    have p: "dups_ok h dup l ((ps @ [x]) @ y # ys) ds" using Cons.prems by simp
    show ?thesis using Cons.IH [OF d' p] False nx ne
      by (subst loopR_unfold) (auto simp: eqv_def)
  next
    case True
    obtain g where g: "list_remove (Some y) h = Ok (Some (hd (ys @ [ltail l])), g)"
      "dll g l ((ps @ [x]) @ ys)" "\<forall>q. q \<notin> addrs l ((ps @ [x]) @ ys) \<longrightarrow> g q = h q"
      using list_remove_dll [OF d'] by blast
    have gd: "dll g l (ps @ x # ys)" using g(2) by simp
    have sub: "addrs l (ps @ x # ys) \<subseteq> addrs l (ps @ x # y # ys)" by (auto simp: addrs_def)
    show ?thesis
    proof (cases dup)
      case None
      then have "dups_ok g dup l (ps @ x # ys) ds" by (simp add: dups_ok_def)
      from Cons.IH [OF gd this] show ?thesis using True nx ne g(1) None
        by (subst loopR_unfold) (simp add: eqv_def dups_ok_def)
    next
      case (Some d)
      have dd: "dll h d ds" and dj: "addrs d ds \<inter> addrs l (ps @ x # y # ys) = {}"
        using Cons.prems(2) Some by (simp_all add: dups_ok_def)
      have "g q = h q" if "q \<in> addrs d ds" for q
        using that dj g(3) sub by (simp only: append.simps append_assoc) blast
      then have "dll g d ds" using dd by (simp add: dll_frame [of d ds g h])
      moreover have "y \<notin> addrs d ds" using dj by (auto simp: addrs_def)
      ultimately obtain k where k: "list_push_back (Some d) (Some y) g = Ok k" "dll k d (ds @ [y])"
        "\<forall>q. q \<notin> insert y (addrs d ds) \<longrightarrow> k q = g q"
        using list_push_back_dll [of g d ds y] by blast
      have yn: "y \<notin> addrs l (ps @ x # ys)" using dll_interior [OF d'] by (auto simp: addrs_def)
      have "k q = g q" if "q \<in> addrs l (ps @ x # ys)" for q
      proof -
        have "q \<notin> insert y (addrs d ds)" using that yn dj sub by fastforce
        then show ?thesis using k(3) by simp
      qed
      then have kl: "dll k l (ps @ x # ys)" using gd by (simp add: dll_frame [of l "ps @ x # ys" k g])
      have "addrs d (ds @ [y]) = insert y (addrs d ds)" by (auto simp: addrs_def)
      then have kd: "dups_ok k dup l (ps @ x # ys) (ds @ [y])"
        using k(2) Some yn dj sub unfolding dups_ok_def by (simp only: option.case) blast
      show ?thesis using Cons.IH [OF kl kd] True nx ne g(1) Some k(1)
        by (subst loopR_unfold) (simp add: eqv_def)
    qed
  qed
qed

lemma list_unique_dll:
  assumes "dll h l (x # xs)" and "dups_ok h dup l (x # xs) ds"
  shows "\<exists>g. list_unique (Some l) dup lessf h = Ok g \<and> dll g l (x # fst (uniq lessf x xs)) \<and>
     dups_ok g dup l (x # fst (uniq lessf x xs)) (ds @ snd (uniq lessf x xs))"
  using list_unique_loop [of h l "[]" x xs dup ds lessf] assms
  by (simp add: list_unique_def list_empty_dll dll_headtail(1))

lemma uniq_mset: "mset (fst (uniq lessf x xs)) + mset (snd (uniq lessf x xs)) = mset xs"
  by (induction xs arbitrary: x) auto

text \<open>No two neighbours of the result are equivalent.\<close>

lemma uniq_adjacent: "successively (\<lambda>a b. \<not> eqv lessf a b) (x # fst (uniq lessf x xs))"
  by (induction xs arbitrary: x) (auto simp: successively_Cons)

lemma list_max_loop:
  assumes "dll h l (xs @ ys)"
  shows "loopR (\<lambda>(max, e).
         if e \<noteq> Some (ltail l) then
           bindR (less_at lessf max e) (\<lambda>lt.
           bindR (list_next e h) (\<lambda>e'. Ok (Next (if lt then e else max, e'))))
         else Ok (Exit max)) (Some m, Some (hd (ys @ [ltail l])))
       = Ok (Some (foldl (\<lambda>m e. if lessf m e then e else m) m ys))"
  using assms
proof (induction ys arbitrary: xs m)
  case Nil
  then show ?case by (subst loopR_unfold) simp
next
  case (Cons y ys)
  have "dll h l ((xs @ [y]) @ ys)" using Cons.prems by simp
  from Cons.IH [OF this] show ?case
    using Cons.prems dll_interior(3) [OF Cons.prems] by (subst loopR_unfold) (auto simp: list_next_dll)
qed

lemma list_min_loop:
  assumes "dll h l (xs @ ys)"
  shows "loopR (\<lambda>(min, e).
         if e \<noteq> Some (ltail l) then
           bindR (less_at lessf e min) (\<lambda>lt.
           bindR (list_next e h) (\<lambda>e'. Ok (Next (if lt then e else min, e'))))
         else Ok (Exit min)) (Some m, Some (hd (ys @ [ltail l])))
       = Ok (Some (foldl (\<lambda>m e. if lessf e m then e else m) m ys))"
  using assms
proof (induction ys arbitrary: xs m)
  case Nil
  then show ?case by (subst loopR_unfold) simp
next
  case (Cons y ys)
  have "dll h l ((xs @ [y]) @ ys)" using Cons.prems by simp
  from Cons.IH [OF this] show ?case
    using Cons.prems dll_interior(3) [OF Cons.prems] by (subst loopR_unfold) (auto simp: list_next_dll)
qed

lemma fold_extremum:
  assumes "\<And>x y. r x y \<Longrightarrow> \<not> r y x" "\<And>x y z. \<not> r y x \<Longrightarrow> \<not> r z y \<Longrightarrow> \<not> r z x"
    "xs = as @ m # bs" "\<forall>a\<in>set as. r a m" "\<forall>b\<in>set bs. \<not> r m b"
  shows "\<exists>as' m' bs'. foldl (\<lambda>m e. if r m e then e else m) m ys = m' \<and> xs @ ys = as' @ m' # bs' \<and>
     (\<forall>a\<in>set as'. r a m') \<and> (\<forall>b\<in>set bs'. \<not> r m' b)"
  using assms(3,4,5)
proof (induction ys arbitrary: xs as m bs)
  case Nil
  then show ?case by auto
next
  case (Cons y ys)
  show ?case
  proof (cases "r m y")
    case True
    have "\<not> r m a" if "a \<in> set xs" for a
      using that Cons.prems assms(1) by auto
    then have "r a y" if "a \<in> set xs" for a
      using that True assms(2) [of a y m] by blast
    then show ?thesis using Cons.IH [of "xs @ [y]" xs y "[]"] True by simp
  next
    case False
    then show ?thesis using Cons.IH [of "xs @ [y]" as m "bs @ [y]"] Cons.prems by simp
  qed
qed

lemma list_max_dll:
  assumes d: "dll h l xs" and w: "strict_weak lessf"
  shows "xs = [] \<and> list_max (Some l) lessf h = Ok (Some (ltail l)) \<or>
    (\<exists>as m bs. xs = as @ m # bs \<and> list_max (Some l) lessf h = Ok (Some m) \<and>
       (\<forall>a\<in>set as. lessf a m) \<and> (\<forall>b\<in>set bs. \<not> lessf m b))"
proof (cases xs)
  case Nil
  then show ?thesis using d by (simp add: list_max_def dll_headtail(1))
next
  case (Cons x ys)
  have d2: "dll h l ([] @ x # ys)" "dll h l ([x] @ ys)" using d Cons by simp_all
  have "list_max (Some l) lessf h = Ok (Some (foldl (\<lambda>m e. if lessf m e then e else m) x ys))"
    using list_max_loop [OF d2(2), of lessf x] list_next_dll [OF d2(1)] dll_interior(3) [OF d2(1)] d Cons
    by (simp add: list_max_def dll_headtail(1))
  moreover have "\<exists>as' m' bs'. foldl (\<lambda>m e. if lessf m e then e else m) x ys = m' \<and>
     [x] @ ys = as' @ m' # bs' \<and> (\<forall>a\<in>set as'. lessf a m') \<and> (\<forall>b\<in>set bs'. \<not> lessf m' b)"
    by (rule fold_extremum [of lessf "[x]" "[]" x "[]"])
       (erule strict_weakD(1) [OF w], erule (1) strict_weakD(2) [OF w], simp_all)
  ultimately show ?thesis using Cons by auto
qed

lemma list_min_dll:
  assumes d: "dll h l xs" and w: "strict_weak lessf"
  shows "xs = [] \<and> list_min (Some l) lessf h = Ok (Some (ltail l)) \<or>
    (\<exists>as m bs. xs = as @ m # bs \<and> list_min (Some l) lessf h = Ok (Some m) \<and>
       (\<forall>a\<in>set as. lessf m a) \<and> (\<forall>b\<in>set bs. \<not> lessf b m))"
proof (cases xs)
  case Nil
  then show ?thesis using d by (simp add: list_min_def dll_headtail(1))
next
  case (Cons x ys)
  have d2: "dll h l ([] @ x # ys)" "dll h l ([x] @ ys)" using d Cons by simp_all
  have "list_min (Some l) lessf h = Ok (Some (foldl (\<lambda>m e. if lessf e m then e else m) x ys))"
    using list_min_loop [OF d2(2), of lessf x] list_next_dll [OF d2(1)] dll_interior(3) [OF d2(1)] d Cons
    by (simp add: list_min_def dll_headtail(1))
  moreover have "\<exists>as' m' bs'. foldl (\<lambda>m e. if lessf e m then e else m) x ys = m' \<and>
     [x] @ ys = as' @ m' # bs' \<and> (\<forall>a\<in>set as'. lessf m' a) \<and> (\<forall>b\<in>set bs'. \<not> lessf b m')"
    by (rule fold_extremum [of "\<lambda>a b. lessf b a" "[x]" "[]" x "[]"])
       (erule strict_weakD(1) [OF w], rule strict_weakD(2) [OF w], simp_all)
  ultimately show ?thesis using Cons by auto
qed

section \<open>Properties\<close>

lemma strict_weak_nat: "strict_weak ((<) :: nat \<Rightarrow> nat \<Rightarrow> bool)"
  by (auto simp: strict_weak_def)

lemma uniq_subseq: "subseq (fst (uniq lessf x xs)) xs \<and> subseq (snd (uniq lessf x xs)) xs"
  by (induction xs arbitrary: x) auto

text \<open>
  C2.  \<open>list_sort\<close>, the in-place iterative natural merge sort, terminates without an assertion
  failure on every well-formed list and every strict weak order: the result is a well-formed
  list, a permutation of the input, sorted, stable (equivalent elements keep their order), and
  no element outside the list is changed.
\<close>

theorem list_sort_correct:
  assumes "strict_weak lessf" "length xs < 2 ^ 64" "dll h l xs"
  shows "\<exists>g ys. list_sort (Some l) lessf h = Ok g \<and> dll g l ys \<and> mset ys = mset xs \<and>
     sorted_wrt (\<lambda>x y. \<not> lessf y x) ys \<and>
     (\<forall>k. filter (eqv lessf k) ys = filter (eqv lessf k) xs) \<and>
     (\<forall>q. q \<notin> addrs l xs \<longrightarrow> g q = h q)"
  using assms by (rule list_sort_dll)

theorem list_sort_correct_witness:
  "\<exists>g. list_sort (Some sample_list) (<) sample_heap = Ok g \<and> dll g sample_list [1, 2, 3]"
proof -
  obtain g ys where g: "list_sort (Some sample_list) (<) sample_heap = Ok g" "dll g sample_list ys"
    "mset ys = mset [3, 1, 2]" "sorted_wrt (\<lambda>x y. \<not> y < x) ys"
    using list_sort_correct [OF strict_weak_nat _ sample_dll] by auto
  have "ys = sort [3, 1, 2 :: nat]"
    using g(3,4) by (intro properties_for_sort [symmetric]) (simp_all add: not_less)
  then show ?thesis using g by auto
qed

text \<open>
  \<open>list_insert_ordered\<close> inserts the element after every element that is not greater, which
  keeps a sorted list sorted and inserts after equivalent elements.
\<close>

theorem list_insert_ordered_correct:
  assumes "strict_weak lessf" "sorted_wrt (\<lambda>x y. \<not> lessf y x) xs" "dll h l xs" "x \<notin> addrs l xs"
  shows "\<exists>g as bs. list_insert_ordered (Some l) (Some x) lessf h = Ok g \<and> xs = as @ bs \<and>
     dll g l (as @ x # bs) \<and> sorted_wrt (\<lambda>x y. \<not> lessf y x) (as @ x # bs) \<and>
     (\<forall>a\<in>set as. \<not> lessf x a) \<and> (\<forall>q. q \<notin> insert x (addrs l xs) \<longrightarrow> g q = h q)"
proof -
  let ?as = "takeWhile (\<lambda>y. \<not> lessf x y) xs" and ?bs = "dropWhile (\<lambda>y. \<not> lessf x y) xs"
  obtain g where "list_insert_ordered (Some l) (Some x) lessf h = Ok g" "dll g l (?as @ x # ?bs)"
     "\<forall>q. q \<notin> insert x (addrs l xs) \<longrightarrow> g q = h q"
    using list_insert_ordered_dll [OF assms(3,4)] by blast
  moreover have "\<forall>a\<in>set ?as. \<not> lessf x a" by (auto dest: set_takeWhileD)
  ultimately show ?thesis using insert_position_sorted [OF assms(1,2), of x]
    by (intro exI [of _ g] exI [of _ ?as] exI [of _ ?bs]) simp
qed

theorem list_insert_ordered_correct_witness:
  "\<exists>g as bs. list_insert_ordered (Some sample_list) (Some 4) (\<lambda>x y. x mod 3 < y mod 3) sample_heap = Ok g \<and>
     [3, 1, 2] = as @ bs \<and> dll g sample_list (as @ 4 # bs) \<and> sorted_wrt (\<lambda>x y. \<not> y mod 3 < x mod 3) (as @ 4 # bs)"
proof -
  have "strict_weak (\<lambda>x y. x mod 3 < y mod (3 :: nat))" by (auto simp: strict_weak_def)
  from list_insert_ordered_correct [OF this _ sample_dll, of 4] show ?thesis
    by (auto simp: addrs_def sample_list_def)
qed

text \<open>
  \<open>list_unique\<close> keeps the first of every group of adjacent equivalent elements: no two
  neighbours of the result are equivalent, and the removed elements, in order, are appended to
  the duplicates list when there is one.
\<close>

theorem list_unique_correct:
  assumes "dll h l (x # xs)" "dups_ok h dup l (x # xs) ds"
  shows "\<exists>g ys zs. list_unique (Some l) dup lessf h = Ok g \<and> dll g l (x # ys) \<and>
     dups_ok g dup l (x # ys) (ds @ zs) \<and> mset ys + mset zs = mset xs \<and> subseq ys xs \<and> subseq zs xs \<and>
     successively (\<lambda>a b. \<not> eqv lessf a b) (x # ys)"
proof -
  obtain g where "list_unique (Some l) dup lessf h = Ok g" "dll g l (x # fst (uniq lessf x xs))"
    "dups_ok g dup l (x # fst (uniq lessf x xs)) (ds @ snd (uniq lessf x xs))"
    using list_unique_dll [OF assms] by blast
  then show ?thesis using uniq_mset [of lessf x xs] uniq_adjacent [of lessf x xs] uniq_subseq [of lessf x xs]
    by blast
qed

theorem list_unique_correct_witness:
  "\<exists>g ys zs. list_unique (Some sample_list) None (\<lambda>x y. x div 3 < y div 3) sample_heap = Ok g \<and>
     dll g sample_list (3 # ys) \<and> mset ys + mset zs = mset [1, 2 :: nat] \<and>
     successively (\<lambda>a b. \<not> eqv (\<lambda>x y. x div 3 < y div 3) a b) (3 # ys)"
  using list_unique_correct [OF sample_dll, of None "[]" "\<lambda>x y. x div 3 < y div 3"]
  by (auto simp: dups_ok_def)

text \<open>
  \<open>list_max\<close> returns the first of the greatest elements, and \<open>list_min\<close> the first of
  the least ones; on an empty list both return the list's tail.
\<close>

theorem list_max_min_correct:
  assumes "dll h l xs" "strict_weak lessf"
  shows "(xs = [] \<and> list_max (Some l) lessf h = Ok (Some (ltail l)) \<and> list_min (Some l) lessf h = Ok (Some (ltail l))) \<or>
    ((\<exists>as m bs. xs = as @ m # bs \<and> list_max (Some l) lessf h = Ok (Some m) \<and>
       (\<forall>a\<in>set as. lessf a m) \<and> (\<forall>b\<in>set bs. \<not> lessf m b)) \<and>
     (\<exists>as m bs. xs = as @ m # bs \<and> list_min (Some l) lessf h = Ok (Some m) \<and>
       (\<forall>a\<in>set as. lessf m a) \<and> (\<forall>b\<in>set bs. \<not> lessf b m)))"
  using list_max_dll [OF assms] list_min_dll [OF assms] by blast

theorem list_max_min_correct_witness:
  "list_max (Some sample_list) (<) sample_heap = Ok (Some 3) \<and> list_min (Some sample_list) (<) sample_heap = Ok (Some 1)"
proof -
  obtain as m bs cs n ds where *: "[3, 1, 2] = as @ m # bs" "list_max (Some sample_list) (<) sample_heap = Ok (Some m)"
    "\<forall>a\<in>set as. a < m" "\<forall>b\<in>set bs. \<not> m < b"
    "[3, 1, 2] = cs @ n # ds" "list_min (Some sample_list) (<) sample_heap = Ok (Some n)"
    "\<forall>a\<in>set cs. n < a" "\<forall>b\<in>set ds. \<not> b < n"
    using list_max_min_correct [OF sample_dll strict_weak_nat] list.distinct(2) [of 3 "[1, 2]"] by blast
  then have "m = 3" "n = 1" by (auto simp: Cons_eq_append_conv)
  then show ?thesis using * by simp
qed

end
