(* ===== verification/CMem.thy ===== *)
theory CMem
  imports Prelude
begin

text \<open>
  Byte-addressed memory and the functions of \<open>kernel/string.c\<close>.  Memory maps 64-bit
  addresses to bytes; address arithmetic wraps at 64 bits as the machine's does.  Counters
  keep the C width of the parameter (\<open>uint n\<close> is a 32-bit word, \<open>int n\<close> its signed reading).
\<close>

unbundle bit_operations_syntax

type_synonym byte = "8 word"
type_synonym u32 = "32 word"
type_synonym u64 = "64 word"
type_synonym memory = "u64 \<Rightarrow> byte"

section \<open>string.c\<close>

text \<open>The \<open>for\<close> loop of \<open>memset\<close> from index \<open>i\<close> on, \<open>k\<close> turns left.\<close>

primrec memset_from :: "memory \<Rightarrow> u64 \<Rightarrow> byte \<Rightarrow> nat \<Rightarrow> nat \<Rightarrow> memory" where
  "memset_from m cdst c i 0 = m"
| "memset_from m cdst c i (Suc k) = memset_from (m(cdst + of_nat i := c)) cdst c (Suc i) k"

definition memset :: "memory \<Rightarrow> u64 \<Rightarrow> u32 \<Rightarrow> u32 \<Rightarrow> memory" where
  "memset m dst c n = memset_from m dst (ucast c) 0 (unat n)"

text \<open>\<open>while(n-- > 0)\<close> of \<open>memcmp\<close>; the result is the difference of two \<open>uchar\<close>s as an \<open>int\<close>.\<close>

primrec memcmp_loop :: "memory \<Rightarrow> u64 \<Rightarrow> u64 \<Rightarrow> nat \<Rightarrow> int" where
  "memcmp_loop m s1 s2 0 = 0"
| "memcmp_loop m s1 s2 (Suc n) =
     (if m s1 \<noteq> m s2 then uint (m s1) - uint (m s2) else memcmp_loop m (s1 + 1) (s2 + 1) n)"

definition memcmp :: "memory \<Rightarrow> u64 \<Rightarrow> u64 \<Rightarrow> u32 \<Rightarrow> int" where
  "memcmp m v1 v2 n = memcmp_loop m v1 v2 (unat n)"

primrec copy_down :: "memory \<Rightarrow> u64 \<Rightarrow> u64 \<Rightarrow> nat \<Rightarrow> memory" where
  "copy_down m d s 0 = m"
| "copy_down m d s (Suc n) = copy_down (m(d - 1 := m (s - 1))) (d - 1) (s - 1) n"

primrec copy_up :: "memory \<Rightarrow> u64 \<Rightarrow> u64 \<Rightarrow> nat \<Rightarrow> memory" where
  "copy_up m d s 0 = m"
| "copy_up m d s (Suc n) = copy_up (m(d := m s)) (d + 1) (s + 1) n"

definition memmove :: "memory \<Rightarrow> u64 \<Rightarrow> u64 \<Rightarrow> u32 \<Rightarrow> memory" where
  "memmove m dst src n =
     (if n = 0 then m
      else if src < dst \<and> src + ucast n > dst
      then copy_down m (dst + ucast n) (src + ucast n) (unat n)
      else copy_up m dst src (unat n))"

definition memcpy :: "memory \<Rightarrow> u64 \<Rightarrow> u64 \<Rightarrow> u32 \<Rightarrow> memory" where
  "memcpy m dst src n = memmove m dst src n"

primrec strncmp_loop :: "memory \<Rightarrow> u64 \<Rightarrow> u64 \<Rightarrow> nat \<Rightarrow> int" where
  "strncmp_loop m p q 0 = 0"
| "strncmp_loop m p q (Suc n) =
     (if m p \<noteq> 0 \<and> m p = m q then strncmp_loop m (p + 1) (q + 1) n
      else uint (m p) - uint (m q))"

definition strncmp :: "memory \<Rightarrow> u64 \<Rightarrow> u64 \<Rightarrow> u32 \<Rightarrow> int" where
  "strncmp m p q n = strncmp_loop m p q (unat n)"

primrec zero_fill :: "memory \<Rightarrow> u64 \<Rightarrow> nat \<Rightarrow> memory" where
  "zero_fill m s 0 = m"
| "zero_fill m s (Suc n) = zero_fill (m(s := 0)) (s + 1) n"

text \<open>First loop of \<open>strncpy\<close> (copy until a NUL has been copied), then the padding loop.\<close>

primrec strncpy_loop :: "memory \<Rightarrow> u64 \<Rightarrow> u64 \<Rightarrow> nat \<Rightarrow> memory" where
  "strncpy_loop m s t 0 = m"
| "strncpy_loop m s t (Suc n) =
     (let m' = m(s := m t)
      in if m t \<noteq> 0 then strncpy_loop m' (s + 1) (t + 1) n else zero_fill m' (s + 1) n)"

definition strncpy :: "memory \<Rightarrow> u64 \<Rightarrow> u64 \<Rightarrow> u32 \<Rightarrow> memory" where
  "strncpy m s t n = strncpy_loop m s t (nat (sint n))"

text \<open>\<open>while(--n > 0 && (*s++ = *t++) != 0)\<close>, then \<open>*s = 0\<close>; \<open>n\<close> is the value before the decrement.\<close>

primrec safestrcpy_loop :: "memory \<Rightarrow> u64 \<Rightarrow> u64 \<Rightarrow> nat \<Rightarrow> memory" where
  "safestrcpy_loop m s t 0 = m(s := 0)"
| "safestrcpy_loop m s t (Suc n) =
     (let m' = m(s := m t)
      in if m t \<noteq> 0 then safestrcpy_loop m' (s + 1) (t + 1) n else m'(s + 1 := 0))"

definition safestrcpy :: "memory \<Rightarrow> u64 \<Rightarrow> u64 \<Rightarrow> u32 \<Rightarrow> memory" where
  "safestrcpy m s t n =
     (if sint n \<le> 0 then m else safestrcpy_loop m s t (nat (sint n) - 1))"

text \<open>\<open>strlen\<close> counts in an \<open>int\<close>; without a NUL it does not return.\<close>

definition strlen :: "memory \<Rightarrow> u64 \<Rightarrow> u32 res" where
  "strlen m s =
     loopR (\<lambda>n. if m (s + scast n) \<noteq> 0 then Ok (Next (n + 1)) else Ok (Exit n)) 0"

section \<open>Contents of a region\<close>

definition bytes_at :: "memory \<Rightarrow> u64 \<Rightarrow> nat \<Rightarrow> byte list" where
  "bytes_at m a n = map (\<lambda>i. m (a + of_nat i)) [0..<n]"

definition region :: "u64 \<Rightarrow> nat \<Rightarrow> u64 set" where
  "region a n = {x. unat (x - a) < n}"

text \<open>The NUL-terminated string \<open>s\<close> starts at \<open>a\<close>.\<close>

definition cstr_at :: "memory \<Rightarrow> u64 \<Rightarrow> byte list \<Rightarrow> bool" where
  "cstr_at m a s \<longleftrightarrow> bytes_at m a (length s) = s \<and> 0 \<notin> set s \<and> m (a + of_nat (length s)) = 0"

lemma unat_of_nat_small [simp]: "n < 2 ^ 64 \<Longrightarrow> unat (of_nat n :: u64) = n"
  by (simp add: unsigned_of_nat take_bit_nat_eq_self)

lemma in_region_0 [simp]: "region a 0 = {}"
  by (simp add: region_def)

lemma region_Suc: "n < 2 ^ 64 \<Longrightarrow> region a (Suc n) = insert (a + of_nat n) (region a n)"
proof (rule set_eqI)
  fix x
  assume n: "n < 2 ^ 64"
  have "unat (x - a) = n \<longleftrightarrow> x = a + of_nat n"
  proof
    assume "unat (x - a) = n"
    then have "of_nat n = x - a" by auto
    then show "x = a + of_nat n" by simp
  qed (use n in simp)
  then show "x \<in> region a (Suc n) \<longleftrightarrow> x \<in> insert (a + of_nat n) (region a n)"
    by (auto simp: region_def less_Suc_eq)
qed

lemma region_shift: "n < 2 ^ 64 \<Longrightarrow> region a (Suc n) = insert a (region (a + 1) n)"
proof (induction n)
  case 0
  then show ?case by (auto simp: region_def unat_eq_0)
next
  case (Suc n)
  have "region a (Suc (Suc n)) = insert (a + of_nat (Suc n)) (region a (Suc n))"
    using Suc.prems by (rule region_Suc)
  also have "\<dots> = insert (a + of_nat (Suc n)) (insert a (region (a + 1) n))"
    using Suc by simp
  also have "\<dots> = insert a (region (a + 1) (Suc n))"
    using Suc.prems by (auto simp: region_Suc ac_simps)
  finally show ?case .
qed

lemma in_region_iff: "n \<le> 2 ^ 64 \<Longrightarrow> x \<in> region a n \<longleftrightarrow> (\<exists>i<n. x = a + of_nat i)"
proof
  assume "n \<le> 2 ^ 64" "x \<in> region a n"
  then show "\<exists>i<n. x = a + of_nat i"
    by (intro exI [of _ "unat (x - a)"]) (simp add: region_def)
next
  assume n: "n \<le> 2 ^ 64" and "\<exists>i<n. x = a + of_nat i"
  then show "x \<in> region a n" by (auto simp: region_def)
qed

lemma memset_from_apply:
  "i + k \<le> 2 ^ 64 \<Longrightarrow>
   memset_from m d c i k a = (if a \<in> region (d + of_nat i) k then c else m a)"
proof (induction k arbitrary: m i)
  case (Suc k)
  have "region (d + of_nat i) (Suc k) = insert (d + of_nat i) (region (d + of_nat (Suc i)) k)"
    using Suc.prems by (subst region_shift) (auto simp: ac_simps)
  then show ?case using Suc by auto
qed simp

text \<open>\<open>memset\<close> writes exactly its region.\<close>

lemma memset_apply:
  "memset m dst c n a = (if a \<in> region dst (unat n) then ucast c else m a)"
proof -
  have "unat n < 2 ^ LENGTH(32)" by (rule unsigned_less)
  then show ?thesis by (simp add: memset_def memset_from_apply)
qed

lemma copy_up_other: "n \<le> 2 ^ 64 \<Longrightarrow> a \<notin> region d n \<Longrightarrow> copy_up m d s n a = m a"
proof (induction n arbitrary: m d s)
  case (Suc n)
  then show ?case by (auto simp: region_shift)
qed simp

lemma copy_up_apply:
  assumes "n \<le> 2 ^ 64" "i < n" "\<And>j k. j < k \<Longrightarrow> k < n \<Longrightarrow> d + of_nat j \<noteq> s + of_nat k"
  shows "copy_up m d s n (d + of_nat i) = m (s + of_nat i)"
  using assms
proof (induction n arbitrary: m d s i)
  case (Suc n)
  show ?case
  proof (cases i)
    case 0
    have "unat (-1 :: u64) = 2 ^ 64 - 1"
      by (simp add: unsigned_minus_1_eq_mask mask_eq_exp_minus_1)
    then have "d \<notin> region (d + 1) n" using Suc.prems(1) by (simp add: region_def)
    then show ?thesis using 0 Suc.prems(1) by (simp add: copy_up_other)
  next
    case (Suc k)
    have "d + 1 + of_nat j \<noteq> s + 1 + of_nat k'" if "j < k'" "k' < n" for j k'
      using Suc.prems(3) [of "Suc j" "Suc k'"] that by (simp add: ac_simps)
    then have "copy_up (m(d := m s)) (d + 1) (s + 1) n (d + 1 + of_nat k) =
        (m(d := m s)) (s + 1 + of_nat k)"
      using Suc.IH [of k "d + 1" "s + 1"] Suc.prems(1,2) Suc by simp
    moreover have "s + 1 + of_nat k \<noteq> d"
      using Suc.prems(3) [of 0 "Suc k"] Suc.prems(2) Suc by (simp add: ac_simps)
    ultimately show ?thesis using Suc by (simp add: ac_simps)
  qed
qed simp

lemma region_below: "n < 2 ^ 64 \<Longrightarrow> region (d - of_nat (Suc n)) (Suc n) = insert (d - 1) (region (d - 1 - of_nat n) n)"
  using region_Suc [of n "d - of_nat (Suc n)"] by (simp add: algebra_simps)

lemma copy_down_other: "n \<le> 2 ^ 64 \<Longrightarrow> a \<notin> region (d - of_nat n) n \<Longrightarrow> copy_down m d s n a = m a"
proof (induction n arbitrary: m d s)
  case (Suc n)
  then show ?case using region_below [of n d] by auto
qed simp

lemma copy_down_apply:
  assumes "n \<le> 2 ^ 64" "i < n" "\<And>j k. j < k \<Longrightarrow> k < n \<Longrightarrow> d - 1 - of_nat j \<noteq> s - 1 - of_nat k"
  shows "copy_down m d s n (d - 1 - of_nat i) = m (s - 1 - of_nat i)"
  using assms
proof (induction n arbitrary: m d s i)
  case (Suc n)
  show ?case
  proof (cases i)
    case 0
    have "unat (of_nat n :: u64) = n" using Suc.prems(1) by simp
    then have "d - 1 \<notin> region (d - 1 - of_nat n) n" by (simp add: region_def)
    then show ?thesis using 0 Suc.prems(1) by (simp add: copy_down_other)
  next
    case (Suc k)
    have "d - 1 - 1 - of_nat j \<noteq> s - 1 - 1 - of_nat k'" if "j < k'" "k' < n" for j k'
      using Suc.prems(3) [of "Suc j" "Suc k'"] that by (simp add: algebra_simps)
    then have "copy_down (m(d - 1 := m (s - 1))) (d - 1) (s - 1) n (d - 1 - 1 - of_nat k) =
        (m(d - 1 := m (s - 1))) (s - 1 - 1 - of_nat k)"
      using Suc.IH [of k "d - 1" "s - 1"] Suc.prems(1,2) Suc by simp
    moreover have "s - 1 - 1 - of_nat k \<noteq> d - 1"
      using Suc.prems(3) [of 0 "Suc k"] Suc.prems(2) Suc by (simp add: algebra_simps)
    ultimately show ?thesis using Suc by (simp add: algebra_simps)
  qed
qed simp

lemma unat_add_of_nat: "unat a + i < 2 ^ 64 \<Longrightarrow> unat (a + of_nat i :: u64) = unat a + i"
  by (subst unat_word_ariths) (simp add: unsigned_of_nat take_bit_nat_def)

lemma unat_u32_less: "unat (n :: u32) < 2 ^ 32"
proof -
  have "unat n < 2 ^ LENGTH(32)" by (rule unsigned_less)
  then show ?thesis by simp
qed

lemma ucast_u32_nat: "(ucast (n :: u32) :: u64) = of_nat (unat n)"
  by simp

lemma memmove_down:
  assumes "unat src + n < 2 ^ 64" "unat dst + n \<le> 2 ^ 64" "src < dst" "i < n"
  shows "copy_down m (dst + of_nat n) (src + of_nat n) n (dst + of_nat i) = m (src + of_nat i)"
proof -
  have lt: "unat src < unat dst" using assms(3) by (simp add: word_less_nat_alt)
  have k: "dst + of_nat n - 1 - of_nat j \<noteq> src + of_nat n - 1 - of_nat k" if "j < k" "k < n" for j k
  proof
    assume "dst + of_nat n - 1 - of_nat j = src + of_nat n - 1 - of_nat k"
    then have "dst + of_nat k = src + of_nat j" by (simp add: algebra_simps)
    moreover have "unat (dst + of_nat k) = unat dst + k" "unat (src + of_nat j) = unat src + j"
      using that assms by (auto intro: unat_add_of_nat)
    ultimately show False using lt that by simp
  qed
  let ?i = "n - 1 - i"
  have "(of_nat ?i :: u64) = of_nat n - 1 - of_nat i" using assms(4) by (simp add: of_nat_diff)
  then have e: "dst + of_nat n - 1 - of_nat ?i = dst + of_nat i"
    "src + of_nat n - 1 - of_nat ?i = src + of_nat i" by simp_all
  have "copy_down m (dst + of_nat n) (src + of_nat n) n (dst + of_nat n - 1 - of_nat ?i)
      = m (src + of_nat n - 1 - of_nat ?i)"
    by (rule copy_down_apply) (use k assms in auto)
  then show ?thesis unfolding e .
qed

lemma memmove_up:
  assumes "unat src + n < 2 ^ 64" "unat dst + n \<le> 2 ^ 64" "dst \<le> src \<or> src + of_nat n \<le> dst" "i < n"
  shows "copy_up m dst src n (dst + of_nat i) = m (src + of_nat i)"
proof (rule copy_up_apply)
  have c: "unat dst \<le> unat src \<or> unat src + n \<le> unat dst"
    using assms(1,3) unat_add_of_nat [OF assms(1)] by (simp add: word_le_nat_alt)
  show "dst + of_nat j \<noteq> src + of_nat k" if "j < k" "k < n" for j k
  proof
    assume "dst + of_nat j = src + of_nat k"
    moreover have "unat (dst + of_nat j) = unat dst + j" "unat (src + of_nat k) = unat src + k"
      using that assms by (auto intro: unat_add_of_nat)
    ultimately show False using c that by auto
  qed
qed (use assms in auto)

lemma memmove_content:
  assumes "unat src + unat n < 2 ^ 64" "unat dst + unat n \<le> 2 ^ 64" "i < unat n"
  shows "memmove m dst src n (dst + of_nat i) = m (src + of_nat i)"
  using assms memmove_down [of src "unat n" dst i m] memmove_up [of src "unat n" dst i m]
  by (auto simp: memmove_def not_less unat_eq_0)

lemma memmove_frame:
  assumes "a \<notin> region dst (unat n)"
  shows "memmove m dst src n a = m a"
  using assms unat_u32_less [of n] copy_up_other [of "unat n" a dst m src]
    copy_down_other [of "unat n" a "dst + of_nat (unat n)" m "src + of_nat (unat n)"]
  by (simp add: memmove_def)

lemma memmove_bytes:
  assumes "unat src + unat n < 2 ^ 64" "unat dst + unat n \<le> 2 ^ 64"
  shows "bytes_at (memmove m dst src n) dst (unat n) = bytes_at m src (unat n)"
  using memmove_content [OF assms] by (simp add: bytes_at_def)

section \<open>NUL-terminated strings\<close>

lemma bytes_at_Suc: "bytes_at m a (Suc n) = m a # bytes_at m (a + 1) n"
  by (auto simp: bytes_at_def upt_conv_Cons map_Suc_upt [symmetric] ac_simps simp del: upt_Suc)

lemma nth_bytes_at: "i < n \<Longrightarrow> bytes_at m a n ! i = m (a + of_nat i)"
  by (simp add: bytes_at_def)

lemma cstr_at_Nil [simp]: "cstr_at m a [] \<longleftrightarrow> m a = 0"
  by (simp add: cstr_at_def bytes_at_def)

lemma cstr_at_Cons [simp]: "cstr_at m a (c # s) \<longleftrightarrow> m a = c \<and> c \<noteq> 0 \<and> cstr_at m (a + 1) s"
  by (auto simp: cstr_at_def bytes_at_Suc ac_simps)

lemma strncmp_loop_zero:
  "cstr_at m p s \<Longrightarrow> cstr_at m q t \<Longrightarrow> strncmp_loop m p q n = 0 \<longleftrightarrow> take n s = take n t"
proof (induction n arbitrary: p q s t)
  case (Suc n)
  show ?case
  proof (cases s)
    case Nil
    then show ?thesis using Suc.prems by (cases t) (auto simp: unsigned_eq_0_iff)
  next
    case (Cons c s')
    then show ?thesis using Suc
      by (cases t) (auto simp: unsigned_eq_0_iff dest: unsigned_word_eqI)
  qed
qed simp

lemma scast_of_nat_small: "k < 2 ^ 31 \<Longrightarrow> scast (of_nat k :: u32) = (of_nat k :: u64)"
  by (simp add: signed_of_nat signed_take_bit_int_eq_self)

lemma strlen_cstr:
  assumes "cstr_at m a s" "length s < 2 ^ 31"
  shows "strlen m a = Ok (of_nat (length s))"
proof -
  have "loopR (\<lambda>n. if m (a + scast n) \<noteq> 0 then Ok (Next (n + 1)) else Ok (Exit n)) (of_nat i)
      = Ok (of_nat (length s) :: u32)" if "i \<le> length s" for i
    using that
  proof (induction "length s - i" arbitrary: i)
    case 0
    have "scast (of_nat (length s) :: u32) = (of_nat (length s) :: u64)"
      using assms(2) by (rule scast_of_nat_small)
    then show ?case using 0 assms(1) by (subst loopR_unfold) (simp add: cstr_at_def)
  next
    case (Suc k)
    have i: "i < length s" using Suc by simp
    have "scast (of_nat i :: u32) = (of_nat i :: u64)"
      using i assms(2) by (intro scast_of_nat_small) simp
    moreover have "m (a + of_nat i) = s ! i"
      using assms(1) i nth_bytes_at [of i "length s" m a] by (simp add: cstr_at_def)
    moreover have "s ! i \<noteq> 0" using assms(1) i unfolding cstr_at_def by (metis nth_mem)
    moreover have "loopR (\<lambda>n. if m (a + scast n) \<noteq> 0 then Ok (Next (n + 1)) else Ok (Exit n)) (of_nat (Suc i))
      = Ok (of_nat (length s) :: u32)"
      using Suc.hyps(1) [of "Suc i"] Suc.hyps(2) i by simp
    ultimately show ?case by (subst loopR_unfold) (simp add: ac_simps)
  qed
  from this [of 0] show ?thesis by (simp add: strlen_def)
qed

lemma safestrcpy_loop_frame:
  "n < 2 ^ 64 \<Longrightarrow> a \<notin> region s (Suc n) \<Longrightarrow> safestrcpy_loop m s t n a = m a"
proof (induction n arbitrary: m s t)
  case 0
  then show ?case by (auto simp: region_shift)
next
  case (Suc n)
  have "region s (Suc (Suc n)) = insert s (region (s + 1) (Suc n))"
    using Suc.prems by (simp add: region_shift)
  moreover have "s + 1 \<in> region (s + 1) (Suc n)" by (simp add: region_def)
  ultimately show ?case using Suc by (auto simp: Let_def)
qed

lemma self_notin_next: "n < 2 ^ 64 \<Longrightarrow> s \<notin> region (s + 1 :: u64) n"
  by (simp add: region_def unsigned_minus_1_eq_mask mask_eq_exp_minus_1)

lemma cstr_at_cong: "(\<And>i. i \<le> length t \<Longrightarrow> g (a + of_nat i) = m (a + of_nat i)) \<Longrightarrow> cstr_at g a t = cstr_at m a t"
proof -
  assume e: "\<And>i. i \<le> length t \<Longrightarrow> g (a + of_nat i) = m (a + of_nat i)"
  then have "bytes_at g a (length t) = bytes_at m a (length t)" by (simp add: bytes_at_def)
  then show ?thesis using e by (simp add: cstr_at_def)
qed

lemma safestrcpy_loop_cstr:
  assumes "cstr_at m src t" "n < 2 ^ 63"
    "\<And>i j. i \<le> n \<Longrightarrow> j \<le> length t \<Longrightarrow> s + of_nat i \<noteq> src + of_nat j"
  shows "cstr_at (safestrcpy_loop m s src n) s (take n t)"
  using assms
proof (induction n arbitrary: m s src t)
  case (Suc n)
  have ne: "s \<noteq> src" using Suc.prems(3) [of 0 0] by simp
  show ?case
  proof (cases t)
    case Nil
    then show ?thesis using Suc.prems(1) by (simp add: Let_def)
  next
    case (Cons c u)
    let ?m = "m(s := m src)"
    have j: "s + 1 + of_nat i \<noteq> src + 1 + of_nat k" if "i \<le> n" "k \<le> length u" for i k
      using Suc.prems(3) [of "Suc i" "Suc k"] that Cons by (simp add: ac_simps)
    have "cstr_at ?m (src + 1) u = cstr_at m (src + 1) u"
    proof (rule cstr_at_cong)
      fix i assume "i \<le> length u"
      then have "s \<noteq> src + 1 + of_nat i"
        using Suc.prems(3) [of 0 "Suc i"] Cons by (simp add: ac_simps)
      then show "?m (src + 1 + of_nat i) = m (src + 1 + of_nat i)" by simp
    qed
    then have c: "cstr_at ?m (src + 1) u" using Suc.prems(1) Cons by simp
    have IH: "cstr_at (safestrcpy_loop ?m (s + 1) (src + 1) n) (s + 1) (take n u)"
      by (rule Suc.IH [OF c _ j]) (use Suc.prems(2) in simp_all)
    have "safestrcpy_loop ?m (s + 1) (src + 1) n s = m src"
      using Suc.prems(2) self_notin_next [of "Suc n" s] by (subst safestrcpy_loop_frame) auto
    then show ?thesis using IH Suc.prems(1) Cons by (simp add: Let_def)
  qed
qed simp

text \<open>
  \<open>safestrcpy\<close> with a positive size leaves a NUL-terminated string, the source cut to
  \<open>n - 1\<close> bytes, and writes nothing outside the \<open>n\<close> bytes of the destination.
\<close>

lemma safestrcpy_cstr:
  assumes "cstr_at m src t" "0 < sint n"
    "\<And>i j. i < nat (sint n) \<Longrightarrow> j \<le> length t \<Longrightarrow> s + of_nat i \<noteq> src + of_nat j"
  shows "cstr_at (safestrcpy m s src n) s (take (nat (sint n) - 1) t)"
    and "a \<notin> region s (nat (sint n)) \<Longrightarrow> safestrcpy m s src n a = m a"
proof -
  have "sint n < 2 ^ 31" using sint_lt [of n] by simp
  then have b: "nat (sint n) - 1 < 2 ^ 63" "Suc (nat (sint n) - 1) = nat (sint n)" using assms(2) by auto
  show "cstr_at (safestrcpy m s src n) s (take (nat (sint n) - 1) t)"
    using safestrcpy_loop_cstr [OF assms(1) b(1), of s] assms(2,3) by (auto simp: safestrcpy_def)
  show "a \<notin> region s (nat (sint n)) \<Longrightarrow> safestrcpy m s src n a = m a"
    using safestrcpy_loop_frame [of "nat (sint n) - 1" a s m src] b assms(2) by (simp add: safestrcpy_def)
qed

lemma zero_fill_apply: "n \<le> 2 ^ 64 \<Longrightarrow> zero_fill m s n a = (if a \<in> region s n then 0 else m a)"
proof (induction n arbitrary: m s)
  case (Suc n)
  then show ?case by (auto simp: region_shift)
qed simp

lemma bytes_zero_fill: "n \<le> 2 ^ 64 \<Longrightarrow> bytes_at (zero_fill m s n) s n = replicate n 0"
  by (auto simp: bytes_at_def zero_fill_apply region_def intro: nth_equalityI)

lemma strncpy_loop_frame: "n \<le> 2 ^ 64 \<Longrightarrow> a \<notin> region s n \<Longrightarrow> strncpy_loop m s t n a = m a"
proof (induction n arbitrary: m s t)
  case (Suc n)
  then show ?case by (auto simp: region_shift Let_def zero_fill_apply)
qed simp

lemma strncpy_loop_bytes:
  assumes "cstr_at m src t" "n < 2 ^ 63"
    "\<And>i j. i < n \<Longrightarrow> j \<le> length t \<Longrightarrow> s + of_nat i \<noteq> src + of_nat j"
  shows "bytes_at (strncpy_loop m s src n) s n = take n (t @ replicate n 0)"
  using assms
proof (induction n arbitrary: m s src t)
  case (Suc n)
  have sn: "s \<notin> region (s + 1) n" using Suc.prems(2) by (intro self_notin_next) simp
  show ?case
  proof (cases t)
    case Nil
    then show ?thesis using Suc.prems(1,2) sn
      zero_fill_apply [of n "m(s := 0)" "s + 1" s]
      by (simp add: Let_def bytes_at_Suc bytes_zero_fill)
  next
    case (Cons c u)
    let ?m = "m(s := m src)"
    have j: "s + 1 + of_nat i \<noteq> src + 1 + of_nat k" if "i < n" "k \<le> length u" for i k
      using Suc.prems(3) [of "Suc i" "Suc k"] that Cons by (simp add: ac_simps)
    have "cstr_at ?m (src + 1) u = cstr_at m (src + 1) u"
    proof (rule cstr_at_cong)
      fix i assume "i \<le> length u"
      then have "s \<noteq> src + 1 + of_nat i"
        using Suc.prems(3) [of 0 "Suc i"] Cons by (simp add: ac_simps)
      then show "?m (src + 1 + of_nat i) = m (src + 1 + of_nat i)" by simp
    qed
    then have c: "cstr_at ?m (src + 1) u" using Suc.prems(1) Cons by simp
    have IH: "bytes_at (strncpy_loop ?m (s + 1) (src + 1) n) (s + 1) n = take n (u @ replicate n 0)"
      by (rule Suc.IH [OF c _ j]) (use Suc.prems(2) in simp_all)
    have "strncpy_loop ?m (s + 1) (src + 1) n s = m src"
      using Suc.prems(2) sn by (subst strncpy_loop_frame) auto
    moreover have "take n (u @ replicate n (0 :: byte)) = take n (u @ replicate (Suc n) 0)"
      by (simp del: replicate_Suc)
    ultimately show ?thesis using IH Suc.prems(1) Cons by (simp add: Let_def bytes_at_Suc)
  qed
qed (simp add: bytes_at_def)



section \<open>Words in memory, pages\<close>

text \<open>Little-endian 64-bit loads and stores, and 4096-byte pages (\<open>riscv.h\<close>).\<close>

definition load64 :: "memory \<Rightarrow> u64 \<Rightarrow> u64" where
  "load64 m a =
     ucast (m a) OR push_bit 8 (ucast (m (a + 1))) OR push_bit 16 (ucast (m (a + 2))) OR
     push_bit 24 (ucast (m (a + 3))) OR push_bit 32 (ucast (m (a + 4))) OR
     push_bit 40 (ucast (m (a + 5))) OR push_bit 48 (ucast (m (a + 6))) OR
     push_bit 56 (ucast (m (a + 7)))"

definition store64 :: "memory \<Rightarrow> u64 \<Rightarrow> u64 \<Rightarrow> memory" where
  "store64 m a v = m(
     a := ucast v, a + 1 := ucast (drop_bit 8 v), a + 2 := ucast (drop_bit 16 v),
     a + 3 := ucast (drop_bit 24 v), a + 4 := ucast (drop_bit 32 v),
     a + 5 := ucast (drop_bit 40 v), a + 6 := ucast (drop_bit 48 v),
     a + 7 := ucast (drop_bit 56 v))"

lemma byte_step:
  "take_bit n v OR push_bit n (ucast (ucast (drop_bit n v) :: byte)) = take_bit (n + 8) (v :: u64)"
  by (rule bit_word_eqI) (auto simp: bit_simps)

lemma low_byte: "ucast (ucast v :: byte) = take_bit 8 (v :: u64)"
  by (rule bit_word_eqI) (auto simp: bit_simps)

lemma bytes_of_word64:
  "(ucast (ucast v :: byte) :: u64) OR push_bit 8 (ucast (ucast (drop_bit 8 v) :: byte)) OR
   push_bit 16 (ucast (ucast (drop_bit 16 v) :: byte)) OR
   push_bit 24 (ucast (ucast (drop_bit 24 v) :: byte)) OR
   push_bit 32 (ucast (ucast (drop_bit 32 v) :: byte)) OR
   push_bit 40 (ucast (ucast (drop_bit 40 v) :: byte)) OR
   push_bit 48 (ucast (ucast (drop_bit 48 v) :: byte)) OR
   push_bit 56 (ucast (ucast (drop_bit 56 v) :: byte)) = (v :: u64)"
proof -
  note s = byte_step [of 8 v] byte_step [of 16 v] byte_step [of 24 v] byte_step [of 32 v]
    byte_step [of 40 v] byte_step [of 48 v] byte_step [of 56 v]
  have "take_bit 64 v = v" by (rule bit_word_eqI) (simp add: bit_simps)
  then show ?thesis
    unfolding or.assoc [symmetric] low_byte [of v] using s by simp
qed

lemma load_store64 [simp]: "load64 (store64 m a v) a = v"
  by (simp add: load64_def store64_def bytes_of_word64)

lemma store64_other: "x \<notin> region a 8 \<Longrightarrow> store64 m a v x = m x"
proof -
  assume "x \<notin> region a 8"
  then have "\<And>i. i < 8 \<Longrightarrow> x \<noteq> a + of_nat i"
    by (auto simp: in_region_iff)
  from this [of 0] this [of 1] this [of 2] this [of 3] this [of 4] this [of 5] this [of 6] this [of 7]
  show ?thesis by (simp add: store64_def)
qed

lemma load64_cong: "(\<And>x. x \<in> region a 8 \<Longrightarrow> g x = m x) \<Longrightarrow> load64 g a = load64 m a"
proof -
  assume e: "\<And>x. x \<in> region a 8 \<Longrightarrow> g x = m x"
  have "g (a + of_nat i) = m (a + of_nat i)" if "i < 8" for i
    using that e by (auto simp: in_region_iff)
  from this [of 0] this [of 1] this [of 2] this [of 3] this [of 4] this [of 5] this [of 6] this [of 7]
  show ?thesis by (simp add: load64_def)
qed

definition PGSIZE :: u64 where "PGSIZE = 4096"

definition aligned :: "u64 \<Rightarrow> bool" where "aligned a \<longleftrightarrow> a mod PGSIZE = 0"

lemma aligned_nat: "aligned a \<longleftrightarrow> unat a mod 4096 = 0"
proof -
  have "unat (a mod 4096) = unat a mod 4096" by (simp add: unat_mod_distrib)
  then show ?thesis by (metis PGSIZE_def aligned_def unat_eq_0)
qed

lemma page_disjoint:
  assumes "aligned p" "aligned q" "p \<noteq> q"
  shows "region p 4096 \<inter> region q 4096 = {}"
proof (rule ccontr)
  assume "region p 4096 \<inter> region q 4096 \<noteq> {}"
  then obtain x where x: "x \<in> region p 4096" "x \<in> region q 4096" by blast
  have pg: "unat x div 4096 = unat r div 4096" if "aligned r" "x \<in> region r 4096" for r
  proof -
    let ?o = "unat (x - r)"
    have o: "?o < 4096" using that by (simp add: region_def)
    have "4096 dvd unat r" using that(1) by (simp add: aligned_nat mod_eq_0_iff_dvd)
    then obtain k where k: "unat r = 4096 * k" by (rule dvdE)
    have "unat r < 2 ^ LENGTH(64)" by (rule unsigned_less)
    then have "k < 2 ^ 52" using k by simp
    then have "unat r + ?o < 2 ^ 64" using k o by simp
    then have "unat (r + of_nat ?o) = unat r + ?o" by (rule unat_add_of_nat)
    then have "unat x = unat r + ?o" by simp
    then show ?thesis using k o by simp
  qed
  have "unat p = unat q"
    using pg [OF assms(1) x(1)] pg [OF assms(2) x(2)] assms(1,2) by (auto simp: aligned_nat)
  then show False using assms(3) by (auto dest: unsigned_word_eqI)
qed

section \<open>Properties\<close>

text \<open>
  \<open>memmove\<close> is correct for overlapping regions: the destination holds what the source held
  before the call, and nothing outside the destination changes.  The source may not end at
  the top of the address space, where the overlap test \<open>s + n > d\<close> wraps to 0.
\<close>

theorem memmove_correct:
  assumes "unat src + unat n < 2 ^ 64" "unat dst + unat n \<le> 2 ^ 64"
  shows "bytes_at (memmove m dst src n) dst (unat n) = bytes_at m src (unat n) \<and>
     (\<forall>a. a \<notin> region dst (unat n) \<longrightarrow> memmove m dst src n a = m a)"
  using memmove_bytes [OF assms] memmove_frame by blast

theorem memmove_correct_witness:
  "bytes_at (memmove (\<lambda>a. ucast a) 12 10 4) 12 4 = [10, 11, 12, 13]"
proof -
  have "bytes_at (memmove (\<lambda>a. ucast a) 12 10 4) 12 (unat (4 :: u32)) = bytes_at (\<lambda>a. ucast a) 10 (unat (4 :: u32))"
    using memmove_correct [of 10 4 12 "\<lambda>a. ucast a"] by simp
  then show ?thesis by (simp add: bytes_at_def upt_rec)
qed

text \<open>
  \<open>strncmp\<close> on two NUL-terminated strings is 0 exactly when they agree on their first
  \<open>n\<close> characters (a shorter string counts up to its end).
\<close>

theorem strncmp_correct:
  assumes "cstr_at m p s" "cstr_at m q t"
  shows "strncmp m p q n = 0 \<longleftrightarrow> take (unat n) s = take (unat n) t"
  using strncmp_loop_zero [OF assms] by (simp add: strncmp_def)

theorem strncmp_correct_witness:
  "strncmp ((\<lambda>_. 0)(10 := 114, 11 := 111, 20 := 114, 21 := 112)) 10 20 1 = 0"
  using strncmp_correct [of "(\<lambda>_. 0)(10 := 114, 11 := 111, 20 := 114, 21 := 112)" 10 "[114, 111]" 20 "[114, 112]" 1]
  by (simp add: cstr_at_def bytes_at_def)

text \<open>
  \<open>safestrcpy\<close> always leaves a NUL-terminated string: the first \<open>n - 1\<close> characters of the
  source (or all of them), and it writes nothing outside the \<open>n\<close> bytes of the destination.
\<close>

theorem safestrcpy_correct:
  assumes "cstr_at m src t" "0 < sint n"
    "\<And>i j. i < nat (sint n) \<Longrightarrow> j \<le> length t \<Longrightarrow> s + of_nat i \<noteq> src + of_nat j"
  shows "cstr_at (safestrcpy m s src n) s (take (nat (sint n) - 1) t) \<and>
    (\<forall>a. a \<notin> region s (nat (sint n)) \<longrightarrow> safestrcpy m s src n a = m a)"
  using safestrcpy_cstr [OF assms] by blast

theorem safestrcpy_correct_witness:
  "cstr_at (safestrcpy ((\<lambda>_. 0)(10 := 114, 11 := 111, 12 := 111)) 100 10 3) 100 [114, 111]"
proof -
  let ?m = "(\<lambda>_. 0)(10 := 114, 11 := 111, 12 := 111) :: memory"
  have "cstr_at ?m 10 [114, 111, 111]" by (simp add: cstr_at_def bytes_at_def)
  moreover have "100 + of_nat i \<noteq> 10 + (of_nat j :: u64)" if "i < 3" "j \<le> 3" for i j :: nat
  proof -
    have "i \<in> {0, 1, 2}" "j \<in> {0, 1, 2, 3}" using that by auto
    then show ?thesis by auto
  qed
  ultimately show ?thesis using safestrcpy_correct [of ?m 10 "[114, 111, 111]" 3 100] by (auto simp: less_Suc_eq_le)
qed

text \<open>
  \<open>strncpy\<close> writes exactly \<open>n\<close> bytes: the source cut or padded with NULs to \<open>n\<close>; and
  \<open>strlen\<close> of a string shorter than \<open>2 ^ 31\<close> returns its length.
\<close>

theorem strncpy_strlen_correct:
  assumes "cstr_at m src t" "length t < 2 ^ 31"
    "\<And>i j. i < nat (sint n) \<Longrightarrow> j \<le> length t \<Longrightarrow> s + of_nat i \<noteq> src + of_nat j"
  shows "bytes_at (strncpy m s src n) s (nat (sint n)) = take (nat (sint n)) (t @ replicate (nat (sint n)) 0) \<and>
    (\<forall>a. a \<notin> region s (nat (sint n)) \<longrightarrow> strncpy m s src n a = m a) \<and>
    strlen m src = Ok (of_nat (length t))"
proof -
  have "sint n < 2 ^ 31" using sint_lt [of n] by simp
  then have "nat (sint n) < 2 ^ 31" by simp
  then have "nat (sint n) < 2 ^ 63" "nat (sint n) \<le> 2 ^ 64" by simp_all
  then show ?thesis unfolding strncpy_def
    using strncpy_loop_bytes [OF assms(1) _ assms(3)] strncpy_loop_frame strlen_cstr [OF assms(1,2)] by blast
qed

theorem strncpy_strlen_correct_witness:
  "bytes_at (strncpy ((\<lambda>_. 0)(10 := 114, 11 := 111)) 100 10 4) 100 4 = [114, 111, 0, 0] \<and>
   strlen ((\<lambda>_. 0)(10 := 114, 11 := 111)) 10 = Ok 2"
proof -
  let ?m = "(\<lambda>_. 0)(10 := 114, 11 := 111) :: memory"
  have "cstr_at ?m 10 [114, 111]" by (simp add: cstr_at_def bytes_at_def)
  moreover have "100 + of_nat i \<noteq> 10 + (of_nat j :: u64)" if "i < 4" "j \<le> 2" for i j :: nat
  proof -
    have "i \<in> {0, 1, 2, 3}" "j \<in> {0, 1, 2}" using that by auto
    then show ?thesis by auto
  qed
  ultimately have "bytes_at (strncpy ?m 100 10 4) 100 4 = take 4 ([114, 111] @ replicate 4 0) \<and> strlen ?m 10 = Ok 2"
    using strncpy_strlen_correct [of ?m 10 "[114, 111]" 4 100] by simp
  then show ?thesis by (simp add: numeral_eq_Suc)
qed

end
