(* ===== verification/Kalloc.thy ===== *)
theory Kalloc
  imports CMem
begin

text \<open>
  The physical page allocator \<open>kernel/kalloc.c\<close>.  The free list is kept inside the free
  pages themselves: the first eight bytes of a free page hold the address of the next one.
  \<open>kend\<close> stands for the linker symbol \<open>end\<close>, the first address after the kernel.  Each
  function holds \<open>kmem.lock\<close> for its list update, so it is one atomic step.
\<close>

definition KERNBASE :: u64 where "KERNBASE = 0x80000000"
definition PHYSTOP :: u64 where "PHYSTOP = KERNBASE + 128 * 1024 * 1024"

definition PGROUNDUP :: "u64 \<Rightarrow> u64" where
  "PGROUNDUP sz = (sz + PGSIZE - 1) AND NOT (PGSIZE - 1)"

definition PGROUNDDOWN :: "u64 \<Rightarrow> u64" where
  "PGROUNDDOWN a = a AND NOT (PGSIZE - 1)"

record kmem =
  pmem :: memory
  freelist :: u64

definition kfree :: "u64 \<Rightarrow> u64 \<Rightarrow> kmem \<Rightarrow> kmem res" where
  "kfree kend pa s =
     (if pa mod PGSIZE \<noteq> 0 \<or> pa < kend \<or> pa \<ge> PHYSTOP then Panic ''kfree''
      else
        let m = memset (pmem s) pa 1 (ucast PGSIZE) in
        Ok (s\<lparr>pmem := store64 m pa (freelist s), freelist := pa\<rparr>))"

text \<open>The null pointer 0 is returned when the list is empty.\<close>

definition kalloc :: "kmem \<Rightarrow> u64 \<times> kmem" where
  "kalloc s =
     (let r = freelist s in
      if r \<noteq> 0
      then (r, s\<lparr>freelist := load64 (pmem s) r, pmem := memset (pmem s) r 5 (ucast PGSIZE)\<rparr>)
      else (r, s))"

definition freerange :: "u64 \<Rightarrow> u64 \<Rightarrow> u64 \<Rightarrow> kmem \<Rightarrow> kmem res" where
  "freerange kend pa_start pa_end s =
     loopR (\<lambda>(p, s). if p + PGSIZE \<le> pa_end
                     then bindR (kfree kend p s) (\<lambda>s. Ok (Next (p + PGSIZE, s)))
                     else Ok (Exit s)) (PGROUNDUP pa_start, s)"

definition kinit :: "u64 \<Rightarrow> kmem \<Rightarrow> kmem res" where
  "kinit kend s = freerange kend kend PHYSTOP s"

section \<open>The free list\<close>

fun free_chain :: "memory \<Rightarrow> u64 \<Rightarrow> u64 list \<Rightarrow> bool" where
  "free_chain m r [] \<longleftrightarrow> r = 0"
| "free_chain m r (p # ps) \<longleftrightarrow> r = p \<and> p \<noteq> 0 \<and> free_chain m (load64 m p) ps"

definition page_ok :: "u64 \<Rightarrow> u64 \<Rightarrow> bool" where
  "page_ok kend p \<longleftrightarrow> aligned p \<and> p \<noteq> 0 \<and> kend \<le> p \<and> p < PHYSTOP"

definition kmem_inv :: "u64 \<Rightarrow> kmem \<Rightarrow> u64 list \<Rightarrow> bool" where
  "kmem_inv kend s ps \<longleftrightarrow>
     free_chain (pmem s) (freelist s) ps \<and> distinct ps \<and> (\<forall>p \<in> set ps. page_ok kend p)"

lemma region_mono: "i \<le> j \<Longrightarrow> region a i \<subseteq> region a j"
  by (auto simp: region_def)

lemma free_chain_cong:
  "(\<And>p x. p \<in> set ps \<Longrightarrow> x \<in> region p 8 \<Longrightarrow> g x = m x) \<Longrightarrow> free_chain g r ps = free_chain m r ps"
proof (induction ps arbitrary: r)
  case (Cons p ps)
  have "load64 g p = load64 m p" by (rule load64_cong) (use Cons.prems in auto)
  then show ?case using Cons by auto
qed simp

lemma memset_page_apply:
  "memset m p c (ucast PGSIZE) a = (if a \<in> region p 4096 then ucast c else m a)"
  by (simp add: memset_apply PGSIZE_def)

text \<open>Writes inside one page leave the chain through other pages alone.\<close>

lemma free_chain_page:
  assumes "\<And>x. x \<notin> region p 4096 \<Longrightarrow> g x = m x" "aligned p" "p \<notin> set ps" "\<forall>q \<in> set ps. aligned q"
  shows "free_chain g r ps = free_chain m r ps"
proof (rule free_chain_cong)
  fix q x assume q: "q \<in> set ps" and x: "x \<in> region q 8"
  have "x \<in> region q 4096" using x region_mono [of 8 4096 q] by auto
  moreover have "region p 4096 \<inter> region q 4096 = {}"
    by (rule page_disjoint) (use assms q in auto)
  ultimately show "g x = m x" using assms(1) by blast
qed

lemma kfree_inv:
  assumes inv: "kmem_inv kend s ps" and pa: "page_ok kend pa" "pa \<notin> set ps"
  shows "\<exists>t. kfree kend pa s = Ok t \<and> kmem_inv kend t (pa # ps) \<and>
             (\<forall>x. x \<notin> region pa 4096 \<longrightarrow> pmem t x = pmem s x)"
proof -
  let ?m = "store64 (memset (pmem s) pa 1 (ucast PGSIZE)) pa (freelist s)"
  let ?t = "s\<lparr>pmem := ?m, freelist := pa\<rparr>"
  have run: "kfree kend pa s = Ok ?t"
    using pa by (auto simp: kfree_def page_ok_def aligned_def not_less Let_def)
  have fr: "?m x = pmem s x" if "x \<notin> region pa 4096" for x
    using that region_mono [of 8 4096 pa] by (subst store64_other) (auto simp: memset_page_apply)
  have "free_chain ?m (freelist s) ps = free_chain (pmem s) (freelist s) ps"
    by (rule free_chain_page [OF fr]) (use inv pa in \<open>auto simp: kmem_inv_def page_ok_def\<close>)
  then have "kmem_inv kend ?t (pa # ps)" using inv pa by (auto simp: kmem_inv_def page_ok_def)
  then show ?thesis using run fr by (intro exI [of _ ?t]) auto
qed

lemma kfree_panics:
  "\<not> (pa mod PGSIZE = 0 \<and> kend \<le> pa \<and> pa < PHYSTOP) \<Longrightarrow> kfree kend pa s = Panic ''kfree''"
  by (auto simp: kfree_def not_le not_less)

lemma kalloc_inv:
  assumes inv: "kmem_inv kend s (p # ps)"
  shows "\<exists>t. kalloc s = (p, t) \<and> kmem_inv kend t ps \<and> page_ok kend p \<and> p \<notin> set ps \<and>
             (\<forall>x \<in> region p 4096. pmem t x = 5) \<and> (\<forall>x. x \<notin> region p 4096 \<longrightarrow> pmem t x = pmem s x)"
proof -
  let ?t = "s\<lparr>freelist := load64 (pmem s) p, pmem := memset (pmem s) p 5 (ucast PGSIZE)\<rparr>"
  have r: "freelist s = p" "p \<noteq> 0" "free_chain (pmem s) (load64 (pmem s) p) ps"
    using inv by (auto simp: kmem_inv_def)
  have "free_chain (pmem ?t) (load64 (pmem s) p) ps = free_chain (pmem s) (load64 (pmem s) p) ps"
    by (rule free_chain_page [of p]) (use inv in \<open>auto simp: kmem_inv_def page_ok_def memset_page_apply\<close>)
  then show ?thesis
    using r inv by (intro exI [of _ ?t]) (auto simp: kalloc_def kmem_inv_def memset_page_apply)
qed

lemma kalloc_empty: "kmem_inv kend s [] \<Longrightarrow> kalloc s = (0, s)"
  by (simp add: kalloc_def kmem_inv_def)

text \<open>What \<open>kfree\<close> gives back is the next page \<open>kalloc\<close> hands out.\<close>

lemma kfree_kalloc:
  assumes "kmem_inv kend s ps" "page_ok kend pa" "pa \<notin> set ps"
  shows "\<exists>t u. kfree kend pa s = Ok t \<and> kalloc t = (pa, u) \<and> kmem_inv kend u ps"
  using kfree_inv [OF assms] kalloc_inv by blast

section \<open>Page rounding and initialisation\<close>

lemma PGROUNDDOWN_shift: "PGROUNDDOWN a = push_bit 12 (drop_bit 12 a)"
proof -
  have *: "(4096 - 1 :: u64) = mask 12" by (simp add: mask_eq_exp_minus_1)
  show ?thesis unfolding PGROUNDDOWN_def PGSIZE_def *
    by (auto intro!: bit_word_eqI simp: bit_simps)
qed

lemma unat_PGROUNDDOWN: "unat (PGROUNDDOWN a) = unat a div 4096 * 4096"
proof -
  have "unat a < 2 ^ LENGTH(64)" by (rule unsigned_less)
  then have "unat a div 4096 * 4096 < 2 ^ 64" by simp
  then show ?thesis
    by (simp only: PGROUNDDOWN_shift unsigned_push_bit_eq unsigned_drop_bit_eq)
       (simp add: push_bit_eq_mult drop_bit_eq_div take_bit_nat_eq_self)
qed

lemma PGROUNDUP_DOWN: "PGROUNDUP a = PGROUNDDOWN (a + 4095)"
  by (simp add: PGROUNDUP_def PGROUNDDOWN_def PGSIZE_def add.commute)

lemma unat_PGROUNDUP:
  assumes "unat a + 4095 < 2 ^ 64"
  shows "unat (PGROUNDUP a) = (unat a + 4095) div 4096 * 4096"
  using unat_add_of_nat [of a 4095] assms by (simp add: PGROUNDUP_DOWN unat_PGROUNDDOWN)

lemma PHYSTOP_nat: "unat PHYSTOP = 0x88000000"
  by (simp add: PHYSTOP_def KERNBASE_def)

lemma freerange_all:
  assumes inv: "kmem_inv kend s []" and k: "0 < kend" "kend \<le> PHYSTOP"
  shows "\<exists>t. freerange kend kend PHYSTOP s = Ok t \<and> (\<exists>ps. kmem_inv kend t ps \<and> set ps = {q. page_ok kend q})"
proof -
  let ?I = "\<lambda>(p, s). aligned p \<and> kend \<le> p \<and> p \<le> PHYSTOP \<and>
     (\<exists>ps. kmem_inv kend s ps \<and> set ps = {q. page_ok kend q \<and> q < p})"
  let ?b = "\<lambda>(p, s). if p + PGSIZE \<le> PHYSTOP
                     then bindR (kfree kend p s) (\<lambda>s. Ok (Next (p + PGSIZE, s)))
                     else Ok (Exit s)"
  have kn: "unat kend \<le> 0x88000000" "0 < unat kend"
    using k PHYSTOP_nat by (simp_all add: word_le_nat_alt word_less_nat_alt)
  have up: "unat (PGROUNDUP kend) = (unat kend + 4095) div 4096 * 4096"
    using kn by (intro unat_PGROUNDUP) simp
  have start: "?I (PGROUNDUP kend, s)"
  proof -
    have "unat kend \<le> unat (PGROUNDUP kend)" "unat (PGROUNDUP kend) \<le> 0x88000000"
      unfolding up using kn by simp_all
    moreover have "aligned (PGROUNDUP kend)" by (simp add: aligned_nat up)
    moreover have False if "page_ok kend q" "q < PGROUNDUP kend" for q
    proof -
      have "unat kend \<le> unat q" "unat q < (unat kend + 4095) div 4096 * 4096" "unat q mod 4096 = 0"
        using that up by (auto simp: page_ok_def aligned_nat word_le_nat_alt word_less_nat_alt)
      then show False by (auto elim!: dvdE simp: mod_eq_0_iff_dvd)
    qed
    ultimately show ?thesis using inv PHYSTOP_nat
      by (auto simp: word_le_nat_alt intro!: exI [of _ "[]"])
  qed
  have "\<exists>t. loopR ?b (PGROUNDUP kend, s) = Ok t \<and> (\<exists>ps. kmem_inv kend t ps \<and> set ps = {q. page_ok kend q})"
  proof (rule loopR_total [where I = ?I and f = "\<lambda>(p, s). unat PHYSTOP - unat p"])
    show "?I (PGROUNDUP kend, s)" by (rule start)
  next
    fix ps0 :: "u64 \<times> kmem"
    assume I: "?I ps0"
    obtain p s where ps: "ps0 = (p, s)" by (cases ps0)
    from I ps obtain fs where al: "aligned p" and le: "kend \<le> p" "p \<le> PHYSTOP"
      and fs: "kmem_inv kend s fs" "set fs = {q. page_ok kend q \<and> q < p}" by auto
    have pn: "unat p \<le> 0x88000000" using le PHYSTOP_nat by (simp add: word_le_nat_alt)
    have p4: "unat (p + PGSIZE) = unat p + 4096"
      using unat_add_of_nat [of p 4096] pn by (simp add: PGSIZE_def)
    have dv: "4096 dvd unat p" using al by (simp add: aligned_nat mod_eq_0_iff_dvd)
    show "(\<exists>t. ?b ps0 = Ok (Next t) \<and> ?I t \<and> (\<lambda>(p, s). unat PHYSTOP - unat p) t < (\<lambda>(p, s). unat PHYSTOP - unat p) ps0) \<or>
          (\<exists>r. ?b ps0 = Ok (Exit r) \<and> (\<exists>ps. kmem_inv kend r ps \<and> set ps = {q. page_ok kend q}))"
    proof (cases "p = PHYSTOP")
      case True
      then have "\<not> p + PGSIZE \<le> PHYSTOP" using p4 by (simp add: word_le_nat_alt)
      moreover have "{q. page_ok kend q \<and> q < p} = {q. page_ok kend q}"
        using True by (auto simp: page_ok_def)
      ultimately show ?thesis using ps fs by auto
    next
      case False
      then have lt: "unat p < 0x88000000" using pn PHYSTOP_nat le(2)
        by (metis order.not_eq_order_implies_strict word_less_nat_alt)
      then have step: "unat p + 4096 \<le> 0x88000000" using dv by (elim dvdE) simp
      have ok: "page_ok kend p" using al le lt kn PHYSTOP_nat
        by (auto simp: page_ok_def word_le_nat_alt word_less_nat_alt)
      have "p \<notin> set fs" using fs(2) by simp
      from kfree_inv [OF fs(1) ok this] obtain t where
        t: "kfree kend p s = Ok t" "kmem_inv kend t (p # fs)" by blast
      have "q < p + PGSIZE \<longleftrightarrow> q = p \<or> q < p" if "page_ok kend q" for q
      proof -
        have "4096 dvd unat q" using that by (simp add: page_ok_def aligned_nat mod_eq_0_iff_dvd)
        then have "unat q < unat p + 4096 \<longleftrightarrow> unat q = unat p \<or> unat q < unat p"
          using dv by (elim dvdE) auto
        then show ?thesis using p4 by (auto simp: word_less_nat_alt dest: unsigned_word_eqI)
      qed
      then have "set (p # fs) = {q. page_ok kend q \<and> q < p + PGSIZE}" using fs(2) ok by auto
      moreover have "aligned (p + PGSIZE)" using dv p4 by (simp add: aligned_nat)
      moreover have "kend \<le> p + PGSIZE" "p + PGSIZE \<le> PHYSTOP"
        using le(1) p4 step PHYSTOP_nat by (simp_all add: word_le_nat_alt)
      moreover have "unat PHYSTOP - unat (p + PGSIZE) < unat PHYSTOP - unat p"
        using p4 lt PHYSTOP_nat by simp
      ultimately show ?thesis using t ps by auto
    qed
  qed
  then show ?thesis by (simp add: freerange_def)
qed

section \<open>Properties\<close>

text \<open>
  \<open>kinit\<close> puts exactly the whole pages between the end of the kernel and \<open>PHYSTOP\<close> on
  the free list, each once; its loop terminates and no \<open>kfree\<close> panics.
\<close>

theorem kinit_correct:
  assumes "freelist s = 0" "0 < kend" "kend \<le> PHYSTOP"
  shows "\<exists>t ps. kinit kend s = Ok t \<and> kmem_inv kend t ps \<and> set ps = {q. page_ok kend q}"
  using freerange_all [of kend s] assms unfolding kinit_def by (auto simp: kmem_inv_def)

theorem kinit_correct_witness:
  "\<exists>t ps. kinit 0x87ffe800 \<lparr>pmem = (\<lambda>_. 0), freelist = 0\<rparr> = Ok t \<and> kmem_inv 0x87ffe800 t ps \<and>
     set ps = {q. page_ok 0x87ffe800 q}"
  by (rule kinit_correct) (simp_all add: PHYSTOP_def KERNBASE_def)

text \<open>
  \<open>kalloc\<close> takes the first free page: it was free, it is filled with 5s, it leaves the free
  list (so it cannot be handed out twice), and no other page changes.  With an empty free list
  it returns the null pointer and changes nothing.
\<close>

theorem kalloc_correct:
  assumes "kmem_inv kend s ps"
  shows "case ps of [] \<Rightarrow> kalloc s = (0, s)
    | p # qs \<Rightarrow> \<exists>t. kalloc s = (p, t) \<and> kmem_inv kend t qs \<and> page_ok kend p \<and> p \<notin> set qs \<and>
        (\<forall>x \<in> region p 4096. pmem t x = 5) \<and> (\<forall>x. x \<notin> region p 4096 \<longrightarrow> pmem t x = pmem s x)"
proof (cases ps)
  case Nil then show ?thesis using assms kalloc_empty by simp
next
  case (Cons p qs) then show ?thesis using kalloc_inv [of kend s p qs] assms by simp
qed

theorem kalloc_correct_witness:
  "\<exists>t. kalloc \<lparr>pmem = (\<lambda>_. 0), freelist = 0x80001000\<rparr> = (0x80001000, t) \<and> kmem_inv 0x80000000 t []"
proof -
  have "kmem_inv 0x80000000 \<lparr>pmem = (\<lambda>_. 0), freelist = 0x80001000\<rparr> [0x80001000]"
    by (simp add: kmem_inv_def page_ok_def aligned_def PGSIZE_def PHYSTOP_def KERNBASE_def load64_def bytes_at_def)
  from kalloc_correct [OF this] show ?thesis by auto
qed



end
