(* ===== verification/Sched.thy ===== *)
theory Sched
  imports LinkedList CMem
begin

text \<open>
  The process and container tables of \<open>kernel/proc.c\<close> and \<open>kernel/proc.h\<close> and the
  scheduling operations on them: process queues, \<open>wakeup\<close>, \<open>sleep\<close>, \<open>yield\<close>,
  \<open>sched\<close>, \<open>scheduler\<close>, \<open>kill\<close>, \<open>reparent\<close>, pid allocation, container allocation and
  release, and \<open>procinit\<close>.  A process or container is named by its index in \<open>proc[]\<close> or
  \<open>cont[]\<close>; all queues are the pointer lists of \<open>LinkedList\<close> in one heap.

  The state is the view of one CPU: \<open>held\<close> lists the spinlocks it holds, the most recent
  first, so that \<open>mycpu()->noff\<close> is the length of \<open>held\<close>.  Code between two calls of
  \<open>swtch\<close> is one operation; an operation that ends in \<open>swtch\<close> stops there.
\<close>

section \<open>Data\<close>

definition NPROC :: nat where "NPROC = 64"
definition NCONT :: nat where "NCONT = 4"
definition NOFILE :: nat where "NOFILE = 16"

datatype procstate = UNUSED | USED | SLEEPING | RUNNABLE | RUNNING | ZOMBIE

text \<open>The addresses used as sleep channels.\<close>

datatype chan =
    ChProc nat | ChTicks | ChLog | ChPipeRead u64 | ChPipeWrite u64
  | ChSleepBuf nat | ChSleepInode nat | ChCons nat | ChUart | ChDiskFree | ChBuf nat

record pcontext =
  ra :: u64
  sp :: u64
  saved :: "u64 list"

record proc =
  state :: procstate
  chan :: "chan option"
  killed_flag :: u32
  xstate :: u32
  pid :: u32
  parent :: "nat option"
  kstack :: u64
  sz :: u64
  pagetable :: u64
  trapframe :: u64
  ctxt :: pcontext
  ofile :: "nat option list"
  cwd :: "nat option"
  name :: "byte list"
  nsched :: u64
  nticks :: u64
  contp :: "nat option"

record cont =
  cstate :: procstate
  cnextpid :: u32
  cname :: "byte list"
  rootpath :: "byte list"
  rootdir :: "nat option"
  max_mem_bytes :: u32
  max_disk_bytes :: u32
  used_mem_bytes :: u32
  used_disk_bytes :: u32
  cnticks :: u32

text \<open>Addresses of embedded list elements and of the head and tail of every list.\<close>

datatype listid = LUnused | LRun | LContUnused | LContRun | LProcs nat | LRunq nat

datatype laddr = PElem nat | PElemC nat | CElem nat | Hd listid | Tl listid

definition lst :: "listid \<Rightarrow> laddr clist" where
  "lst l = \<lparr>lhead = Hd l, ltail = Tl l\<rparr>"

datatype lockid =
    LkProc nat | LkCont nat | LkUnused | LkRun | LkContUnused | LkContRun | LkPid | LkWait
  | LkTicks | LkLog | LkPipe u64 | LkItable | LkFtable | LkBcache | LkSleep chan | LkVdisk
  | LkCons nat | LkUart | LkConscur | LkPr

record sst =
  procs :: "nat \<Rightarrow> proc"
  conts :: "nat \<Rightarrow> cont"
  lh :: "laddr lheap"
  held :: "lockid list"
  curproc :: "nat option"
  cont_root :: "nat option"
  initproc :: "nat option"
  cont_init :: bool
  ticks :: u32

text \<open>Field updates of one table entry.\<close>

definition upd_proc :: "nat \<Rightarrow> (proc \<Rightarrow> proc) \<Rightarrow> sst \<Rightarrow> sst" where
  "upd_proc i f s = s\<lparr>procs := (procs s)(i := f (procs s i))\<rparr>"

definition upd_cont :: "nat \<Rightarrow> (cont \<Rightarrow> cont) \<Rightarrow> sst \<Rightarrow> sst" where
  "upd_cont c f s = s\<lparr>conts := (conts s)(c := f (conts s c))\<rparr>"

text \<open>\<open>list_entry(e, struct proc, elem)\<close> and its kin: the table index of an embedded element.\<close>

fun entry_proc :: "laddr option \<Rightarrow> nat res" where
  "entry_proc (Some (PElem i)) = Ok i"
| "entry_proc _ = Fault"

fun entry_cont :: "laddr option \<Rightarrow> nat res" where
  "entry_cont (Some (CElem c)) = Ok c"
| "entry_cont _ = Fault"

section \<open>Locks, current process\<close>

definition acquire :: "lockid \<Rightarrow> sst \<Rightarrow> sst res" where
  "acquire l s = (if l \<in> set (held s) then Panic ''acquire'' else Ok (s\<lparr>held := l # held s\<rparr>))"

definition release :: "lockid \<Rightarrow> sst \<Rightarrow> sst res" where
  "release l s = (if l \<in> set (held s) then Ok (s\<lparr>held := remove1 l (held s)\<rparr>) else Panic ''release'')"

definition myproc :: "sst \<Rightarrow> nat option" where
  "myproc s = curproc s"

text \<open>A use of the result of \<open>myproc\<close>: the null pointer faults.\<close>

definition deref :: "'a option \<Rightarrow> 'a res" where
  "deref p = (case p of None \<Rightarrow> Fault | Some i \<Rightarrow> Ok i)"

definition mycont :: "sst \<Rightarrow> nat option res" where
  "mycont s = bindR (deref (curproc s)) (\<lambda>p. Ok (contp (procs s p)))"

text \<open>List operations on the heap of the state.\<close>

definition push_back :: "listid \<Rightarrow> laddr \<Rightarrow> sst \<Rightarrow> sst res" where
  "push_back l e s = bindR (list_push_back (Some (lst l)) (Some e) (lh s)) (\<lambda>h. Ok (s\<lparr>lh := h\<rparr>))"

definition remove_elem :: "laddr option \<Rightarrow> sst \<Rightarrow> sst res" where
  "remove_elem e s = bindR (list_remove e (lh s)) (\<lambda>(_, h). Ok (s\<lparr>lh := h\<rparr>))"

text \<open>
  \<open>e = 0; if(!list_empty(l)){ e = list_begin(l); list_remove(e); }\<close>, the way
  \<open>alloccont\<close>, \<open>allocproc\<close> and \<open>scheduler\<close> take the first element.
\<close>

definition take_first :: "listid \<Rightarrow> sst \<Rightarrow> (laddr option \<times> sst) res" where
  "take_first l s =
     bindR (list_empty (Some (lst l)) (lh s)) (\<lambda>em.
     if em then Ok (None, s)
     else bindR (list_begin (Some (lst l)) (lh s)) (\<lambda>e.
          bindR (remove_elem e s) (\<lambda>s. Ok (e, s))))"

section \<open>Containers\<close>

text \<open>
  A \<open>char\<close> array that \<open>safestrcpy(arr, t, sizeof(arr))\<close> fills; \<open>t\<close> is the source without
  its NUL.  A short source is followed by two NULs: the copied one and the final store.
\<close>

definition safestrcpy_arr :: "byte list \<Rightarrow> byte list \<Rightarrow> byte list" where
  "safestrcpy_arr arr t =
     (let n = length arr; u = take (n - 1) t @ (if length t < n - 1 then [0, 0] else [0])
      in if n = 0 then arr else u @ drop (length u) arr)"

definition root_name :: "byte list" where
  "root_name = [114, 111, 111, 116]"

text \<open>
  \<open>namei_root\<close> is the block \<open>begin_op(); c->rootdir = namei(crootdir); end_op();\<close>, which
  works on the file system state.
\<close>

definition alloccont ::
  "(byte list \<Rightarrow> sst \<Rightarrow> (nat option \<times> sst) res) \<Rightarrow>
   byte list \<Rightarrow> u32 \<Rightarrow> byte list \<Rightarrow> u32 \<Rightarrow> sst \<Rightarrow> (nat option \<times> sst) res" where
  "alloccont namei_root nm max_mem crootdir max_disk s =
     (let isroot = (take 4 nm = root_name) in
      bindR (acquire LkContUnused s) (\<lambda>s.
      bindR (take_first LContUnused s) (\<lambda>(e, s).
      bindR (release LkContUnused s) (\<lambda>s.
      if e = None then Ok (None, s)
      else
        bindR (entry_cont e) (\<lambda>c.
        bindR (acquire (LkCont c) s) (\<lambda>s.
        let s = upd_cont c (\<lambda>k. k\<lparr>cstate := USED, cnextpid := 1\<rparr>) s in
        bindR (list_init (Some (lst (LProcs c))) (lh s)) (\<lambda>h.
        bindR (list_init (Some (lst (LRunq c))) h) (\<lambda>h.
        let s = s\<lparr>lh := h\<rparr>;
            s = upd_cont c (\<lambda>k. k\<lparr>cname := safestrcpy_arr (cname k) nm, max_mem_bytes := max_mem,
                                  rootpath := safestrcpy_arr (rootpath k) crootdir\<rparr>) s in
        bindR (if isroot then Ok (True, s)
               else bindR (namei_root crootdir s) (\<lambda>(ip, s).
                    Ok (ip \<noteq> None, upd_cont c (\<lambda>k. k\<lparr>rootdir := ip\<rparr>) s))) (\<lambda>(ok, s).
        if \<not> ok then Ok (None, s)
        else
          let s = upd_cont c (\<lambda>k. k\<lparr>max_disk_bytes := max_disk, used_mem_bytes := 0,
                                    used_disk_bytes := 0, cnticks := 0\<rparr>) s in
          bindR (release (LkCont c) s) (\<lambda>s. Ok (Some c, s)))))))))))"

definition freecont :: "nat \<Rightarrow> sst \<Rightarrow> sst" where
  "freecont c s =
     upd_cont c (\<lambda>k. k\<lparr>cstate := UNUSED, cnextpid := 1, cname := (cname k)[0 := 0], rootdir := None,
        max_mem_bytes := 0, max_disk_bytes := 0, used_mem_bytes := 0, used_disk_bytes := 0,
        cnticks := 0\<rparr>) s"

definition allocpid :: "nat \<Rightarrow> sst \<Rightarrow> (u32 \<times> sst) res" where
  "allocpid c s =
     bindR (acquire (LkCont c) s) (\<lambda>s.
     let p = cnextpid (conts s c);
         s = upd_cont c (\<lambda>k. k\<lparr>cnextpid := cnextpid k + 1\<rparr>) s in
     bindR (release (LkCont c) s) (\<lambda>s. Ok (p, s)))"

text \<open>\<open>KSTACK(i)\<close> of \<open>memlayout.h\<close>.\<close>

definition MAXVA :: u64 where "MAXVA = push_bit (9 + 9 + 9 + 12 - 1) 1"
definition TRAMPOLINE :: u64 where "TRAMPOLINE = MAXVA - PGSIZE"
definition TRAPFRAME :: u64 where "TRAPFRAME = TRAMPOLINE - PGSIZE"
definition KSTACK :: "nat \<Rightarrow> u64" where "KSTACK p = TRAMPOLINE - of_nat (p + 1) * 2 * PGSIZE"

definition init_list :: "listid \<Rightarrow> sst \<Rightarrow> sst res" where
  "init_list l s = bindR (list_init (Some (lst l)) (lh s)) (\<lambda>h. Ok (s\<lparr>lh := h\<rparr>))"

definition procinit :: "sst \<Rightarrow> sst res" where
  "procinit s =
     bindR (init_list LContRun s) (\<lambda>s.
     bindR (init_list LContUnused s) (\<lambda>s.
     bindR (forR (\<lambda>c s. push_back LContUnused (CElem c) (upd_cont c (\<lambda>k. k\<lparr>cstate := UNUSED\<rparr>) s))
              [0..<NCONT] s) (\<lambda>s.
     bindR (init_list LUnused s) (\<lambda>s.
     bindR (forR (\<lambda>i s. push_back LUnused (PElem i)
                     (upd_proc i (\<lambda>p. p\<lparr>state := UNUSED, kstack := KSTACK i\<rparr>) s))
              [0..<NPROC] s) (\<lambda>s.
     bindR (init_list LRun s) (\<lambda>s.
     bindR (alloccont (\<lambda>_ s. Ok (None, s)) root_name 0 [47] 0 s) (\<lambda>(c, s).
     let s = s\<lparr>cont_root := c\<rparr> in
     bindR (deref c) (\<lambda>c. push_back LContRun (CElem c) s))))))))"

section \<open>Scheduling\<close>

text \<open>The body of the loop in \<open>wakeup\<close> for one table entry.\<close>

definition wakeup1 :: "chan option \<Rightarrow> nat \<Rightarrow> sst \<Rightarrow> sst res" where
  "wakeup1 ch p s =
     (if Some p \<noteq> myproc s then
        bindR (acquire (LkProc p) s) (\<lambda>s.
        bindR (if state (procs s p) = SLEEPING \<and> chan (procs s p) = ch then
                 let s = upd_proc p (\<lambda>r. r\<lparr>state := RUNNABLE\<rparr>) s in
                 bindR (deref (contp (procs s p))) (\<lambda>c.
                 bindR (acquire (LkCont c) s) (\<lambda>s.
                 bindR (push_back (LRunq c) (PElem p) s) (\<lambda>s.
                 release (LkCont c) s)))
               else Ok s) (\<lambda>s.
        release (LkProc p) s))
      else Ok s)"

definition wakeup :: "chan option \<Rightarrow> sst \<Rightarrow> sst res" where
  "wakeup ch s = forR (wakeup1 ch) [0..<NPROC] s"

definition sched :: "sst \<Rightarrow> sst res" where
  "sched s =
     bindR (deref (myproc s)) (\<lambda>p.
     if LkProc p \<notin> set (held s) then Panic ''sched p->lock''
     else if length (held s) \<noteq> 1 then Panic ''sched locks''
     else if state (procs s p) = RUNNING then Panic ''sched running''
     else Ok s)"

text \<open>\<open>yield\<close> up to the switch to the scheduler; \<open>yield_resume\<close> is what follows it.\<close>

definition yield :: "sst \<Rightarrow> sst res" where
  "yield s =
     bindR (deref (myproc s)) (\<lambda>p.
     bindR (mycont s) (\<lambda>cp.
     bindR (acquire (LkProc p) s) (\<lambda>s.
     let s = upd_proc p (\<lambda>r. r\<lparr>state := RUNNABLE\<rparr>) s in
     bindR (deref cp) (\<lambda>c.
     bindR (acquire (LkCont c) s) (\<lambda>s.
     bindR (push_back (LRunq c) (PElem p) s) (\<lambda>s.
     bindR (release (LkCont c) s) (\<lambda>s.
     sched s)))))))"

definition yield_resume :: "sst \<Rightarrow> sst res" where
  "yield_resume s = bindR (deref (myproc s)) (\<lambda>p. release (LkProc p) s)"

definition sleep :: "chan \<Rightarrow> lockid \<Rightarrow> sst \<Rightarrow> sst res" where
  "sleep ch lk s =
     bindR (deref (myproc s)) (\<lambda>p.
     bindR (acquire (LkProc p) s) (\<lambda>s.
     bindR (release lk s) (\<lambda>s.
     sched (upd_proc p (\<lambda>r. r\<lparr>chan := Some ch, state := SLEEPING\<rparr>) s))))"

definition sleep_resume :: "lockid \<Rightarrow> sst \<Rightarrow> sst res" where
  "sleep_resume lk s =
     bindR (deref (myproc s)) (\<lambda>p.
     bindR (release (LkProc p) (upd_proc p (\<lambda>r. r\<lparr>chan := None\<rparr>) s)) (\<lambda>s.
     acquire lk s))"

text \<open>
  One turn of \<open>scheduler\<close> up to \<open>swtch\<close>: \<open>None\<close> when the run list is empty (\<open>wfi\<close>).
  \<open>scheduler_back\<close> is what the scheduler does when the process has switched back.
\<close>

definition scheduler :: "sst \<Rightarrow> (nat option \<times> sst) res" where
  "scheduler s =
     bindR (deref (cont_root s)) (\<lambda>c.
     bindR (acquire (LkCont c) s) (\<lambda>s.
     bindR (take_first (LRunq c) s) (\<lambda>(e, s).
     bindR (release (LkCont c) s) (\<lambda>s.
     if e = None then Ok (None, s)
     else
       bindR (entry_proc e) (\<lambda>p.
       bindR (acquire (LkProc p) s) (\<lambda>s.
       bindR (ASSERT (state (procs s p) = RUNNABLE)) (\<lambda>_.
       Ok (Some p, (upd_proc p (\<lambda>r. r\<lparr>state := RUNNING, nsched := nsched r + 1\<rparr>) s)
                     \<lparr>curproc := Some p\<rparr>))))))))"

definition scheduler_back :: "nat \<Rightarrow> sst \<Rightarrow> sst res" where
  "scheduler_back p s = release (LkProc p) (s\<lparr>curproc := None\<rparr>)"

text \<open>The loop of \<open>kill\<close> from table index \<open>i\<close> on; the result is the C return value.\<close>

fun kill_from :: "nat list \<Rightarrow> u32 \<Rightarrow> sst \<Rightarrow> (int \<times> sst) res" where
  "kill_from [] q s = Ok (-1, s)"
| "kill_from (p # ps) q s =
     bindR (acquire (LkProc p) s) (\<lambda>s.
     if pid (procs s p) = q then
       let s = upd_proc p (\<lambda>r. r\<lparr>killed_flag := 1\<rparr>) s in
       bindR (if state (procs s p) = SLEEPING then
                let s = upd_proc p (\<lambda>r. r\<lparr>state := RUNNABLE\<rparr>) s in
                bindR (deref (contp (procs s p))) (\<lambda>c.
                bindR (acquire (LkCont c) s) (\<lambda>s.
                bindR (push_back (LRunq c) (PElem p) s) (\<lambda>s.
                release (LkCont c) s)))
              else Ok s) (\<lambda>s.
       bindR (release (LkProc p) s) (\<lambda>s. Ok (0, s)))
     else bindR (release (LkProc p) s) (\<lambda>s. kill_from ps q s))"

definition kill :: "u32 \<Rightarrow> sst \<Rightarrow> (int \<times> sst) res" where
  "kill q s = kill_from [0..<NPROC] q s"

definition setkilled :: "nat \<Rightarrow> sst \<Rightarrow> sst res" where
  "setkilled p s =
     bindR (acquire (LkProc p) s) (\<lambda>s.
     release (LkProc p) (upd_proc p (\<lambda>r. r\<lparr>killed_flag := 1\<rparr>) s))"

definition killed :: "nat \<Rightarrow> sst \<Rightarrow> (u32 \<times> sst) res" where
  "killed p s =
     bindR (acquire (LkProc p) s) (\<lambda>s.
     let k = killed_flag (procs s p) in
     bindR (release (LkProc p) s) (\<lambda>s. Ok (k, s)))"

text \<open>Children of \<open>p\<close> go to init; in other containers their pid becomes \<open>-2\<close>.\<close>

definition reparent1 :: "nat \<Rightarrow> nat \<Rightarrow> sst \<Rightarrow> sst res" where
  "reparent1 p pp s =
     (if parent (procs s pp) = Some p then
        let s = upd_proc pp (\<lambda>r. r\<lparr>parent := initproc s\<rparr>) s;
            s = (if contp (procs s pp) \<noteq> cont_root s
                 then upd_proc pp (\<lambda>r. r\<lparr>pid := -2\<rparr>) s else s) in
        wakeup (map_option ChProc (initproc s)) s
      else Ok s)"

definition reparent :: "nat \<Rightarrow> sst \<Rightarrow> sst res" where
  "reparent p s = forR (reparent1 p) [0..<NPROC] s"


section \<open>All queues together\<close>

text \<open>
  \<open>lists_ok V h v\<close>: every list in \<open>V\<close> (the initialised ones) is well formed in the heap
  and holds exactly the elements \<open>v\<close> says; no element is on two of them.
\<close>

fun is_elem :: "laddr \<Rightarrow> bool" where
  "is_elem (Hd l) = False"
| "is_elem (Tl l) = False"
| "is_elem _ = True"

definition lists_ok :: "listid set \<Rightarrow> laddr lheap \<Rightarrow> (listid \<Rightarrow> laddr list) \<Rightarrow> bool" where
  "lists_ok V h v \<longleftrightarrow>
     (\<forall>l\<in>V. dll h (lst l) (v l) \<and> (\<forall>a\<in>set (v l). is_elem a)) \<and>
     (\<forall>l\<in>V. \<forall>k\<in>V. l \<noteq> k \<longrightarrow> set (v l) \<inter> set (v k) = {})"

lemma addrs_lst: "addrs (lst l) xs = insert (Hd l) (insert (Tl l) (set xs))"
  by (simp add: addrs_def lst_def)

lemma lst_sel [simp]: "lhead (lst l) = Hd l" "ltail (lst l) = Tl l"
  by (simp_all add: lst_def)

lemma lists_ok_D:
  assumes "lists_ok V h v"
  shows "l \<in> V \<Longrightarrow> dll h (lst l) (v l)" "l \<in> V \<Longrightarrow> a \<in> set (v l) \<Longrightarrow> is_elem a"
    "l \<in> V \<Longrightarrow> k \<in> V \<Longrightarrow> l \<noteq> k \<Longrightarrow> a \<in> set (v l) \<Longrightarrow> a \<notin> set (v k)"
  using assms unfolding lists_ok_def by blast+

lemma lists_okI:
  assumes "\<And>l. l \<in> V \<Longrightarrow> dll h (lst l) (v l)" "\<And>l a. l \<in> V \<Longrightarrow> a \<in> set (v l) \<Longrightarrow> is_elem a"
    "\<And>l k a. l \<in> V \<Longrightarrow> k \<in> V \<Longrightarrow> l \<noteq> k \<Longrightarrow> a \<in> set (v l) \<Longrightarrow> a \<notin> set (v k)"
  shows "lists_ok V h v"
  using assms unfolding lists_ok_def by (simp add: disjoint_iff)

lemma lists_ok_sentinel:
  assumes "lists_ok V h v" "l \<in> V"
  shows "Hd k \<notin> set (v l)" "Tl k \<notin> set (v l)"
  using lists_ok_D(2) [OF assms, of "Hd k"] lists_ok_D(2) [OF assms, of "Tl k"] by auto

lemma lists_ok_addrs:
  assumes "lists_ok V h v" "l \<in> V" "k \<in> V" "l \<noteq> k" "a \<in> addrs (lst k) (v k)"
  shows "a \<notin> addrs (lst l) (v l)"
  using assms(4,5) lists_ok_sentinel [OF assms(1,2)] lists_ok_sentinel [OF assms(1,3)]
    lists_ok_D(3) [OF assms(1,3,2)]
  by (auto simp: addrs_lst)

text \<open>The general step: list \<open>l\<close> changes within its footprint, the others keep theirs.\<close>

lemma lists_ok_update:
  assumes ok: "lists_ok V h v" and l: "l \<in> V" and d: "dll g (lst l) xs"
    and el: "\<And>a. a \<in> set xs \<Longrightarrow> is_elem a \<and> (\<forall>k\<in>V. k \<noteq> l \<longrightarrow> a \<notin> set (v k))"
    and fr: "\<And>q. q \<notin> addrs (lst l) (v l) \<union> set xs \<Longrightarrow> g q = h q"
  shows "lists_ok V g (v(l := xs))"
proof -
  have o: "dll g (lst k) (v k)" if k: "k \<in> V" "k \<noteq> l" for k
  proof -
    have "g q = h q" if "q \<in> addrs (lst k) (v k)" for q
    proof (rule fr)
      have "q \<notin> addrs (lst l) (v l)" using lists_ok_addrs [OF ok l k(1)] k(2) that by auto
      moreover have "q \<notin> set xs"
        using el [of "Hd k"] el [of "Tl k"] el [of q] k that by (auto simp: addrs_lst)
      ultimately show "q \<notin> addrs (lst l) (v l) \<union> set xs" by simp
    qed
    then show ?thesis using lists_ok_D(1) [OF ok k(1)] by (simp add: dll_frame [of _ _ g h])
  qed
  show ?thesis
  proof (rule lists_okI)
    fix k assume "k \<in> V" then show "dll g (lst k) ((v(l := xs)) k)" using d o by (cases "k = l") simp_all
  next
    fix k a assume "k \<in> V" "a \<in> set ((v(l := xs)) k)"
    then show "is_elem a" using el lists_ok_D(2) [OF ok] by (cases "k = l") simp_all
  next
    fix j k a assume *: "j \<in> V" "k \<in> V" "j \<noteq> k" "a \<in> set ((v(l := xs)) j)"
    show "a \<notin> set ((v(l := xs)) k)"
    proof (cases "j = l")
      case True then show ?thesis using * el by simp
    next
      case False
      then have a: "a \<in> set (v j)" using *(4) by simp
      show ?thesis
      proof (cases "k = l")
        case True then show ?thesis using el [of a] a *(1) False by auto
      next
        case k: False then show ?thesis using lists_ok_D(3) [OF ok *(1,2,3) a] by simp
      qed
    qed
  qed
qed

lemma push_back_ok:
  assumes ok: "lists_ok V (lh s) v" and l: "l \<in> V" and e: "is_elem e" "\<And>k. k \<in> V \<Longrightarrow> e \<notin> set (v k)"
  shows "\<exists>h. push_back l e s = Ok (s\<lparr>lh := h\<rparr>) \<and> lists_ok V h (v(l := v l @ [e]))"
proof -
  have "e \<notin> addrs (lst l) (v l)" using e l by (auto simp: addrs_lst)
  from list_queue.push_law [OF lists_ok_D(1) [OF ok l] this] obtain g where
    g: "list_push_back (Some (lst l)) (Some e) (lh s) = Ok g" "dll g (lst l) (v l @ [e])"
       "\<forall>q. q \<notin> insert e (addrs (lst l) (v l)) \<longrightarrow> g q = lh s q" by blast
  have "lists_ok V g (v(l := v l @ [e]))"
  proof (rule lists_ok_update [OF ok l g(2)])
    fix a assume "a \<in> set (v l @ [e])"
    then show "is_elem a \<and> (\<forall>k\<in>V. k \<noteq> l \<longrightarrow> a \<notin> set (v k))"
      using e lists_ok_D(2) [OF ok l] lists_ok_D(3) [OF ok l] by auto
  qed (use g(3) in auto)
  then show ?thesis using g(1) by (auto simp: push_back_def)
qed

lemma remove_elem_ok:
  assumes ok: "lists_ok V (lh s) v" and l: "l \<in> V" and e: "v l = xs @ e # ys"
  shows "\<exists>h. remove_elem (Some e) s = Ok (s\<lparr>lh := h\<rparr>) \<and> lists_ok V h (v(l := xs @ ys))"
proof -
  have "dll (lh s) (lst l) (xs @ e # ys)" using lists_ok_D(1) [OF ok l] e by simp
  from list_queue.remove_law [OF this] obtain r g where
    g: "list_remove (Some e) (lh s) = Ok (r, g)" "dll g (lst l) (xs @ ys)"
       "\<forall>q. q \<notin> addrs (lst l) (xs @ ys) \<longrightarrow> g q = lh s q" by blast
  have "lists_ok V g (v(l := xs @ ys))"
  proof (rule lists_ok_update [OF ok l g(2)])
    fix a assume "a \<in> set (xs @ ys)"
    then have "a \<in> set (v l)" using e by auto
    then show "is_elem a \<and> (\<forall>k\<in>V. k \<noteq> l \<longrightarrow> a \<notin> set (v k))"
      using lists_ok_D(2) [OF ok l] lists_ok_D(3) [OF ok l] by auto
  qed (use e g(3) in \<open>auto simp: addrs_lst\<close>)
  then show ?thesis using g(1) by (auto simp: remove_elem_def)
qed

lemma take_first_ok:
  assumes ok: "lists_ok V (lh s) v" and l: "l \<in> V" and e: "v l = e # xs"
  shows "\<exists>h. take_first l s = Ok (Some e, s\<lparr>lh := h\<rparr>) \<and> lists_ok V h (v(l := xs))"
proof -
  have d: "dll (lh s) (lst l) (e # xs)" using lists_ok_D(1) [OF ok l] e by simp
  show ?thesis
    using remove_elem_ok [of V s v l "[]" e xs] ok l e list_queue.isempty_law [OF d] list_queue.first_law [OF d]
    by (auto simp: take_first_def)
qed

lemma take_first_empty:
  assumes "lists_ok V (lh s) v" "l \<in> V" "v l = []"
  shows "take_first l s = Ok (None, s)"
  using lists_ok_D(1) [OF assms(1,2)] assms(3) by (simp add: take_first_def list_queue.isempty_law)

lemma init_list_ok:
  assumes ok: "lists_ok V h v" and l: "l \<notin> V"
  shows "\<exists>g. list_init (Some (lst l)) h = Ok g \<and> lists_ok (insert l V) g (v(l := []))"
proof -
  obtain g where g: "list_init (Some (lst l)) h = Ok g" "dll g (lst l) []"
    "\<forall>q. q \<notin> addrs (lst l) [] \<longrightarrow> g q = h q"
    using list_init_dll [of "lst l" h] by auto
  have "dll g (lst k) (v k)" if k: "k \<in> V" for k
  proof -
    have "q \<notin> addrs (lst l) []" if "q \<in> addrs (lst k) (v k)" for q
      using that k l lists_ok_sentinel [OF ok k] by (auto simp: addrs_lst)
    then show ?thesis using lists_ok_D(1) [OF ok k] g(3) by (simp add: dll_frame [of _ _ g h])
  qed
  note o = this
  have "lists_ok (insert l V) g (v(l := []))"
  proof (rule lists_okI)
    fix k assume "k \<in> insert l V" then show "dll g (lst k) ((v(l := [])) k)"
      using g(2) o by (cases "k = l") simp_all
  next
    fix k a assume "k \<in> insert l V" "a \<in> set ((v(l := [])) k)"
    then show "is_elem a" using lists_ok_D(2) [OF ok, of k a] by (cases "k = l") simp_all
  next
    fix j k a assume "j \<in> insert l V" "k \<in> insert l V" "j \<noteq> k" "a \<in> set ((v(l := [])) j)"
    then show "a \<notin> set ((v(l := [])) k)"
      using lists_ok_D(3) [OF ok, of j k a] by (cases "k = l"; cases "j = l") simp_all
  qed
  then show ?thesis using g(1) by blast
qed

lemma lists_ok_subset: "lists_ok V h v \<Longrightarrow> U \<subseteq> V \<Longrightarrow> lists_ok U h v"
  unfolding lists_ok_def by blast

lemma lists_ok_cong: "lists_ok V h v \<Longrightarrow> (\<And>l. l \<in> V \<Longrightarrow> v l = w l) \<Longrightarrow> lists_ok V h w"
  unfolding lists_ok_def by simp

section \<open>The invariant of the tables\<close>

definition live :: "sst \<Rightarrow> listid set" where
  "live s = {LUnused, LRun, LContUnused, LContRun} \<union>
     {l. \<exists>c<NCONT. cstate (conts s c) = USED \<and> (l = LProcs c \<or> l = LRunq c)}"

definition sched_inv :: "sst \<Rightarrow> (listid \<Rightarrow> laddr list) \<Rightarrow> bool" where
  "sched_inv s v \<longleftrightarrow>
     lists_ok (live s) (lh s) v \<and> v LRun = [] \<and>
     set (v LUnused) = PElem ` {i. i < NPROC \<and> state (procs s i) = UNUSED} \<and>
     set (v LContUnused) = CElem ` {c. c < NCONT \<and> cstate (conts s c) = UNUSED} \<and>
     set (v LContRun) = CElem ` {c. c < NCONT \<and> cstate (conts s c) = USED} \<and>
     (\<forall>c<NCONT. cstate (conts s c) = USED \<longrightarrow>
        set (v (LRunq c)) =
          PElem ` {i. i < NPROC \<and> state (procs s i) = RUNNABLE \<and> contp (procs s i) = Some c} \<and>
        set (v (LProcs c)) = PElemC ` {i. i < NPROC \<and> contp (procs s i) = Some c}) \<and>
     (\<forall>c<NCONT. cstate (conts s c) = UNUSED \<or> cstate (conts s c) = USED) \<and>
     (\<forall>i<NPROC. contp (procs s i) = None \<longleftrightarrow> state (procs s i) = UNUSED) \<and>
     (\<forall>i<NPROC. \<forall>c. contp (procs s i) = Some c \<longrightarrow> c < NCONT \<and> cstate (conts s c) = USED) \<and>
     (\<exists>c<NCONT. cont_root s = Some c \<and> cstate (conts s c) = USED)"

definition no_table_locks :: "sst \<Rightarrow> bool" where
  "no_table_locks s \<longleftrightarrow> (\<forall>i. LkProc i \<notin> set (held s)) \<and> (\<forall>c. LkCont c \<notin> set (held s))"

lemma sched_inv_lists: "sched_inv s v \<Longrightarrow> lists_ok (live s) (lh s) v"
  by (simp add: sched_inv_def)

lemma live_runq: "sched_inv s v \<Longrightarrow> i < NPROC \<Longrightarrow> contp (procs s i) = Some c \<Longrightarrow> LRunq c \<in> live s \<and> c < NCONT \<and> cstate (conts s c) = USED"
  unfolding sched_inv_def live_def by auto

text \<open>A process that is neither unused nor runnable is on no queue, so it can be queued.\<close>

lemma off_queues:
  assumes inv: "sched_inv s v" and i: "i < NPROC" "state (procs s i) \<noteq> UNUSED" "state (procs s i) \<noteq> RUNNABLE"
    and l: "l \<in> live s"
  shows "PElem i \<notin> set (v l)"
  using inv i l unfolding sched_inv_def live_def by auto

subsection \<open>What the invariant does not depend on\<close>

lemma sched_inv_frame [simp]:
  "sched_inv (s\<lparr>held := x\<rparr>) v = sched_inv s v" "sched_inv (s\<lparr>curproc := y\<rparr>) v = sched_inv s v"
  "sched_inv (s\<lparr>ticks := z\<rparr>) v = sched_inv s v" "sched_inv (s\<lparr>initproc := w\<rparr>) v = sched_inv s v"
  by (simp_all add: sched_inv_def live_def)

lemma upd_proc_sel [simp]:
  "procs (upd_proc i f s) = (procs s)(i := f (procs s i))" "conts (upd_proc i f s) = conts s"
  "lh (upd_proc i f s) = lh s" "held (upd_proc i f s) = held s" "curproc (upd_proc i f s) = curproc s"
  "cont_root (upd_proc i f s) = cont_root s" "initproc (upd_proc i f s) = initproc s"
  "live (upd_proc i f s) = live s"
  by (simp_all add: upd_proc_def live_def)

lemma upd_cont_sel [simp]:
  "conts (upd_cont i f s) = (conts s)(i := f (conts s i))" "procs (upd_cont i f s) = procs s"
  "lh (upd_cont i f s) = lh s" "held (upd_cont i f s) = held s" "curproc (upd_cont i f s) = curproc s"
  "cont_root (upd_cont i f s) = cont_root s" "initproc (upd_cont i f s) = initproc s"
  by (simp_all add: upd_cont_def)

text \<open>Two states with the same queues, the same state of every process, and so on.\<close>

lemma sched_inv_cong:
  assumes "sched_inv s v" "lh t = lh s" "cont_root t = cont_root s"
    "\<And>i. i < NPROC \<Longrightarrow> contp (procs t i) = contp (procs s i)"
    "\<And>i. i < NPROC \<Longrightarrow> (state (procs t i) = UNUSED) = (state (procs s i) = UNUSED)"
    "\<And>i. i < NPROC \<Longrightarrow> (state (procs t i) = RUNNABLE) = (state (procs s i) = RUNNABLE)"
    "\<And>c. c < NCONT \<Longrightarrow> cstate (conts t c) = cstate (conts s c)"
  shows "sched_inv t v"
proof -
  have l: "live t = live s" using assms(7) by (auto simp: live_def)
  have s: "{i. i < NPROC \<and> state (procs t i) = UNUSED} = {i. i < NPROC \<and> state (procs s i) = UNUSED}"
    "{i. i < NPROC \<and> contp (procs t i) = Some c} = {i. i < NPROC \<and> contp (procs s i) = Some c}"
    "{i. i < NPROC \<and> state (procs t i) = RUNNABLE \<and> contp (procs t i) = Some c} =
     {i. i < NPROC \<and> state (procs s i) = RUNNABLE \<and> contp (procs s i) = Some c}"
    "{c. c < NCONT \<and> cstate (conts t c) = UNUSED} = {c. c < NCONT \<and> cstate (conts s c) = UNUSED}"
    "{c. c < NCONT \<and> cstate (conts t c) = USED} = {c. c < NCONT \<and> cstate (conts s c) = USED}" for c
    using assms(4,5,6,7) by auto
  show ?thesis using assms(1) unfolding sched_inv_def l s assms(2,3)
    by (auto simp: assms(4,5,7))
qed

subsection \<open>Entering a run queue\<close>

definition set_queue :: "(listid \<Rightarrow> laddr list) \<Rightarrow> nat \<Rightarrow> nat \<Rightarrow> listid \<Rightarrow> laddr list" where
  "set_queue v c p = v(LRunq c := v (LRunq c) @ [PElem p])"

lemma enqueue_inv:
  assumes inv: "sched_inv s v" and p: "p < NPROC" "state (procs s p) \<noteq> UNUSED" "state (procs s p) \<noteq> RUNNABLE"
    and c: "contp (procs s p) = Some c"
    and f: "state (f (procs s p)) = RUNNABLE" "contp (f (procs s p)) = Some c"
  shows "\<exists>h. push_back (LRunq c) (PElem p) (upd_proc p f s) = Ok ((upd_proc p f s)\<lparr>lh := h\<rparr>)
           \<and> sched_inv ((upd_proc p f s)\<lparr>lh := h\<rparr>) (set_queue v c p)"
proof -
  let ?s = "upd_proc p f s"
  have c': "LRunq c \<in> live s" "c < NCONT" "cstate (conts s c) = USED" using live_runq [OF inv p(1) c] by auto
  have "lists_ok (live s) (lh ?s) v" using inv by (simp add: sched_inv_def)
  from push_back_ok [OF this c'(1), of "PElem p"] off_queues [OF inv p]
  obtain h where h: "push_back (LRunq c) (PElem p) ?s = Ok (?s\<lparr>lh := h\<rparr>)" "lists_ok (live s) h (set_queue v c p)"
    by (auto simp: set_queue_def)
  have l: "live (?s\<lparr>lh := h\<rparr>) = live s" by (simp add: live_def)
  have q: "set_queue v c p l = v l" if "\<forall>d. l \<noteq> LRunq d" for l using that by (auto simp: set_queue_def)
  have r: "set (set_queue v c p (LRunq d)) =
      PElem ` {i. i < NPROC \<and> state (procs ?s i) = RUNNABLE \<and> contp (procs ?s i) = Some d}"
    if "d < NCONT" "cstate (conts s d) = USED" for d
  proof -
    have "set (v (LRunq d)) = PElem ` {i. i < NPROC \<and> state (procs s i) = RUNNABLE \<and> contp (procs s i) = Some d}"
      using inv that unfolding sched_inv_def by blast
    then show ?thesis using p c f by (auto simp: set_queue_def)
  qed
  have "sched_inv (?s\<lparr>lh := h\<rparr>) (set_queue v c p)"
    using inv p c f h(2) r unfolding sched_inv_def l by (auto simp: q image_iff)
  then show ?thesis using h(1) by blast
qed

subsection \<open>Waking processes\<close>

lemma acquire_ok [simp]: "l \<notin> set (held s) \<Longrightarrow> acquire l s = Ok (s\<lparr>held := l # held s\<rparr>)"
  by (simp add: acquire_def)

lemma release_first [simp]: "held s = l # ls \<Longrightarrow> release l s = Ok (s\<lparr>held := ls\<rparr>)"
  by (simp add: release_def)

lemma held_outer [simp]:
  "s\<lparr>held := x, lh := h\<rparr> = s\<lparr>lh := h, held := x\<rparr>"
  "s\<lparr>held := x, procs := p\<rparr> = s\<lparr>procs := p, held := x\<rparr>"
  "s\<lparr>held := x, conts := c\<rparr> = s\<lparr>conts := c, held := x\<rparr>"
  "s\<lparr>held := x, curproc := y\<rparr> = s\<lparr>curproc := y, held := x\<rparr>"
  by simp_all

lemma push_back_held [simp]:
  "push_back l e (s\<lparr>held := x\<rparr>) = bindR (push_back l e s) (\<lambda>t. Ok (t\<lparr>held := x\<rparr>))"
  by (simp add: push_back_def bindR_assoc)

lemma push_back_Ok_held: "push_back l e s = Ok t \<Longrightarrow> held t = held s"
  by (auto simp: push_back_def bindR_eq_Ok)

lemma upd_proc_held [simp]: "upd_proc i f (s\<lparr>held := x\<rparr>) = (upd_proc i f s)\<lparr>held := x\<rparr>"
  by (simp add: upd_proc_def)

text \<open>The tables with some processes made runnable.\<close>

definition make_runnable :: "nat set \<Rightarrow> sst \<Rightarrow> sst" where
  "make_runnable A s = s\<lparr>procs := (\<lambda>i. if i \<in> A then (procs s i)\<lparr>state := RUNNABLE\<rparr> else procs s i)\<rparr>"

definition sleepers :: "chan option \<Rightarrow> sst \<Rightarrow> nat set" where
  "sleepers ch s = {i. i < NPROC \<and> Some i \<noteq> curproc s \<and> state (procs s i) = SLEEPING \<and> chan (procs s i) = ch}"

text \<open>The queues when the processes \<open>is\<close> are queued in that order, each in its container.\<close>

definition enqueue_all :: "sst \<Rightarrow> nat list \<Rightarrow> (listid \<Rightarrow> laddr list) \<Rightarrow> listid \<Rightarrow> laddr list" where
  "enqueue_all s is v l =
     (case l of LRunq c \<Rightarrow> v l @ map PElem (filter (\<lambda>i. contp (procs s i) = Some c) is) | _ \<Rightarrow> v l)"

lemma enqueue_all_Nil [simp]: "enqueue_all s [] v = v"
  by (rule ext) (simp add: enqueue_all_def split: listid.splits)

lemma enqueue_all_snoc:
  assumes "contp (procs s i) = Some c"
  shows "enqueue_all s (is @ [i]) v = set_queue (enqueue_all s is v) c i"
  by (rule ext) (simp add: enqueue_all_def set_queue_def assms split: listid.splits)

lemma make_runnable_sel [simp]:
  "conts (make_runnable A s) = conts s" "held (make_runnable A s) = held s" "lh (make_runnable A s) = lh s"
  "curproc (make_runnable A s) = curproc s" "cont_root (make_runnable A s) = cont_root s"
  "contp (procs (make_runnable A s) i) = contp (procs s i)" "chan (procs (make_runnable A s) i) = chan (procs s i)"
  "state (procs (make_runnable A s) i) = (if i \<in> A then RUNNABLE else state (procs s i))"
  by (simp_all add: make_runnable_def)

lemma make_runnable_empty [simp]: "make_runnable {} s = s"
  by (simp add: make_runnable_def)

lemma make_runnable_insert:
  "upd_proc i (\<lambda>r. r\<lparr>state := RUNNABLE\<rparr>) (make_runnable A s\<lparr>lh := h\<rparr>) = make_runnable (insert i A) s\<lparr>lh := h\<rparr>"
  by (auto simp: make_runnable_def upd_proc_def fun_eq_iff)

text \<open>The common part of \<open>wakeup\<close>, \<open>kill\<close> and \<open>yield\<close>: queue the process in its container.\<close>

definition queue_proc :: "nat \<Rightarrow> sst \<Rightarrow> sst res" where
  "queue_proc p s =
     bindR (deref (contp (procs s p))) (\<lambda>c.
     bindR (acquire (LkCont c) s) (\<lambda>s.
     bindR (push_back (LRunq c) (PElem p) s) (\<lambda>s.
     release (LkCont c) s)))"

lemma queue_proc_inv:
  assumes inv: "sched_inv s v" and p: "p < NPROC" "state (procs s p) \<noteq> UNUSED" "state (procs s p) \<noteq> RUNNABLE"
    and c: "contp (procs s p) = Some c" and lk: "LkCont c \<notin> set (held s)"
    and f: "state (f (procs s p)) = RUNNABLE" "contp (f (procs s p)) = Some c"
  shows "\<exists>h. queue_proc p (upd_proc p f s) = Ok ((upd_proc p f s)\<lparr>lh := h\<rparr>)
           \<and> sched_inv ((upd_proc p f s)\<lparr>lh := h\<rparr>) (set_queue v c p)"
proof -
  from enqueue_inv [where f = f, OF inv p c f] obtain h where
    h: "push_back (LRunq c) (PElem p) (upd_proc p f s) = Ok ((upd_proc p f s)\<lparr>lh := h\<rparr>)"
       "sched_inv ((upd_proc p f s)\<lparr>lh := h\<rparr>) (set_queue v c p)" by blast
  have "queue_proc p (upd_proc p f s) = Ok ((upd_proc p f s)\<lparr>lh := h\<rparr>)"
    using lk f(2) h(1) by (simp add: queue_proc_def deref_def)
  then show ?thesis using h(2) by blast
qed

lemma wakeup1_eq:
  "wakeup1 ch p s =
     (if Some p \<noteq> myproc s then
        bindR (acquire (LkProc p) s) (\<lambda>s.
        bindR (if state (procs s p) = SLEEPING \<and> chan (procs s p) = ch
               then queue_proc p (upd_proc p (\<lambda>r. r\<lparr>state := RUNNABLE\<rparr>) s) else Ok s) (\<lambda>s.
        release (LkProc p) s))
      else Ok s)"
  unfolding wakeup1_def queue_proc_def Let_def ..

lemma sleeping_contp: "sched_inv s v \<Longrightarrow> i < NPROC \<Longrightarrow> state (procs s i) \<noteq> UNUSED \<Longrightarrow> \<exists>c. contp (procs s i) = Some c"
  unfolding sched_inv_def by (metis option.exhaust)

lemma filter_upt_prefix: "[0..<n] = ds @ i # es \<Longrightarrow> ds = [0..<i] \<and> i < n"
proof -
  assume a: "[0..<n] = ds @ i # es"
  then have n: "length ds < n" by (metis length_append length_upt minus_nat.diff_0 length_Cons less_add_Suc1 add_Suc_right)
  moreover have "[0..<n] ! length ds = i" using a by (simp add: nth_append)
  ultimately have "i = length ds" by simp
  moreover have "ds = take (length ds) [0..<n]" using a by simp
  ultimately show ?thesis using n by simp
qed

lemma wakeup_spec:
  assumes inv: "sched_inv s v" and lk: "no_table_locks s"
  shows "\<exists>h. wakeup ch s = Ok (make_runnable (sleepers ch s) s\<lparr>lh := h\<rparr>) \<and>
    sched_inv (make_runnable (sleepers ch s) s\<lparr>lh := h\<rparr>)
      (enqueue_all s (filter (\<lambda>i. i \<in> sleepers ch s) [0..<NPROC]) v)"
proof -
  let ?f = "filter (\<lambda>i. i \<in> sleepers ch s)"
  let ?t = "\<lambda>ds h. make_runnable (set (?f ds)) s\<lparr>lh := h\<rparr>"
  let ?I = "\<lambda>ds t. \<exists>h. t = ?t ds h \<and> sched_inv t (enqueue_all s (?f ds) v)"
  have "\<exists>t. forR (wakeup1 ch) [0..<NPROC] s = Ok t \<and> ?I [0..<NPROC] t"
  proof (rule forR_prefix_rule)
    show "?I [] s" using inv by (intro exI [of _ "lh s"]) simp
  next
    fix ds i es t
    assume js: "[0..<NPROC] = ds @ i # es" and "?I ds t"
    then obtain h where t: "t = ?t ds h" "sched_inv t (enqueue_all s (?f ds) v)" by blast
    have i: "i < NPROC" "i \<notin> set ds" using filter_upt_prefix [OF js] by auto
    have sl: "state (procs t i) = state (procs s i)" "chan (procs t i) = chan (procs s i)"
      "contp (procs t i) = contp (procs s i)" "curproc t = curproc s" "held t = held s"
      using i t(1) by simp_all
    have lk': "LkProc i \<notin> set (held t)" "LkCont c \<notin> set (held t)" for c
      using lk sl by (simp_all add: no_table_locks_def)
    show "\<exists>u. wakeup1 ch i t = Ok u \<and> ?I (ds @ [i]) u"
    proof (cases "i \<in> sleepers ch s")
      case False
      then have "wakeup1 ch i t = Ok t"
        using i lk' sl by (auto simp: wakeup1_eq sleepers_def myproc_def)
      then show ?thesis using t False by auto
    next
      case True
      then have st: "state (procs t i) = SLEEPING" "chan (procs t i) = ch" "Some i \<noteq> curproc t"
        using sl by (auto simp: sleepers_def)
      obtain c where c: "contp (procs s i) = Some c" using sleeping_contp [OF t(2) i(1)] st sl by auto
      let ?t' = "t\<lparr>held := LkProc i # held t\<rparr>"
      have p: "sched_inv ?t' (enqueue_all s (?f ds) v)" using t(2) by simp
      from queue_proc_inv [OF p i(1), of c "\<lambda>r. r\<lparr>state := RUNNABLE\<rparr>"] obtain h' where
        h': "queue_proc i (upd_proc i (\<lambda>r. r\<lparr>state := RUNNABLE\<rparr>) ?t') = Ok (upd_proc i (\<lambda>r. r\<lparr>state := RUNNABLE\<rparr>) ?t'\<lparr>lh := h'\<rparr>)"
            "sched_inv (upd_proc i (\<lambda>r. r\<lparr>state := RUNNABLE\<rparr>) ?t'\<lparr>lh := h'\<rparr>) (set_queue (enqueue_all s (?f ds) v) c i)"
        using st c sl lk' by auto
      let ?u = "upd_proc i (\<lambda>r. r\<lparr>state := RUNNABLE\<rparr>) t\<lparr>lh := h'\<rparr>"
      have "wakeup1 ch i t = Ok ?u"
        using st lk' h'(1) sl by (simp add: wakeup1_eq myproc_def)
      moreover have "?u = ?t (ds @ [i]) h'"
        using True by (simp add: t(1) make_runnable_insert)
      moreover have "sched_inv ?u (enqueue_all s (?f (ds @ [i])) v)"
        using h'(2) True c by (simp add: enqueue_all_snoc)
      ultimately show ?thesis by blast
    qed
  qed
  moreover have "set (?f [0..<NPROC]) = sleepers ch s" by (auto simp: sleepers_def)
  ultimately show ?thesis by (auto simp: wakeup_def)
qed

subsection \<open>Giving up and taking the CPU\<close>

lemma sched_ok:
  assumes "curproc s = Some p" "held s = [LkProc p]" "state (procs s p) \<noteq> RUNNING"
  shows "sched s = Ok s"
  using assms by (simp add: sched_def myproc_def deref_def)

lemma sched_locks:
  assumes "curproc s = Some p" "LkProc p \<in> set (held s)" "length (held s) \<noteq> 1"
  shows "sched s = Panic ''sched locks''"
  using assms by (simp add: sched_def myproc_def deref_def)

lemma yield_eq:
  assumes "curproc s = Some p" "contp (procs s p) = Some c" "LkProc p \<notin> set (held s)"
  shows "yield s = bindR (queue_proc p ((upd_proc p (\<lambda>r. r\<lparr>state := RUNNABLE\<rparr>) s)\<lparr>held := LkProc p # held s\<rparr>)) sched"
  using assms by (simp add: yield_def queue_proc_def myproc_def mycont_def deref_def Let_def bindR_assoc)

lemma yield_spec:
  assumes inv: "sched_inv s v" and p: "curproc s = Some p" "p < NPROC" "state (procs s p) = RUNNING"
    and c: "contp (procs s p) = Some c" and lk: "held s = []"
  shows "\<exists>h. yield s = Ok (upd_proc p (\<lambda>r. r\<lparr>state := RUNNABLE\<rparr>) s\<lparr>lh := h, held := [LkProc p]\<rparr>) \<and>
    sched_inv (upd_proc p (\<lambda>r. r\<lparr>state := RUNNABLE\<rparr>) s\<lparr>lh := h, held := [LkProc p]\<rparr>) (set_queue v c p)"
proof -
  let ?f = "\<lambda>r. r\<lparr>state := RUNNABLE\<rparr>"
  let ?s = "s\<lparr>held := [LkProc p]\<rparr>"
  have "sched_inv ?s v" using inv by simp
  from queue_proc_inv [OF this p(2), of c ?f] obtain h where
    h: "queue_proc p (upd_proc p ?f ?s) = Ok (upd_proc p ?f ?s\<lparr>lh := h\<rparr>)"
       "sched_inv (upd_proc p ?f ?s\<lparr>lh := h\<rparr>) (set_queue v c p)"
    using p c by auto
  have "sched (upd_proc p ?f ?s\<lparr>lh := h\<rparr>) = Ok (upd_proc p ?f ?s\<lparr>lh := h\<rparr>)"
    by (rule sched_ok [of _ p]) (simp_all add: p)
  then show ?thesis using h p c lk by (auto simp: yield_eq)
qed

lemma sleep_spec:
  assumes inv: "sched_inv s v" and p: "curproc s = Some p" "p < NPROC" "state (procs s p) = RUNNING"
    and lk: "held s = [lk]" "lk \<noteq> LkProc p"
  shows "sleep ch lk s = Ok (upd_proc p (\<lambda>r. r\<lparr>chan := Some ch, state := SLEEPING\<rparr>) s\<lparr>held := [LkProc p]\<rparr>)"
    and "sched_inv (upd_proc p (\<lambda>r. r\<lparr>chan := Some ch, state := SLEEPING\<rparr>) s\<lparr>held := [LkProc p]\<rparr>) v"
proof -
  let ?t = "upd_proc p (\<lambda>r. r\<lparr>chan := Some ch, state := SLEEPING\<rparr>) s\<lparr>held := [LkProc p]\<rparr>"
  have "sched ?t = Ok ?t" by (rule sched_ok [of _ p]) (simp_all add: p)
  then show "sleep ch lk s = Ok ?t"
    using p lk by (simp add: sleep_def myproc_def deref_def release_def)
  show "sched_inv ?t v" by (rule sched_inv_cong [OF inv]) (auto simp: p)
qed

lemma sleep_extra_lock:
  assumes "curproc s = Some p" "LkProc p \<notin> set (held s)" "lk \<in> set (held s)" "distinct (held s)"
    "l2 \<in> set (held s)" "l2 \<noteq> lk"
  shows "sleep ch lk s = Panic ''sched locks''"
proof -
  have ne: "lk \<noteq> LkProc p" using assms by auto
  have "remove1 lk (held s) \<noteq> []" using assms(3-6) by (metis in_set_remove1 empty_iff list.set(1))
  then have "sched (upd_proc p (\<lambda>r. r\<lparr>chan := Some ch, state := SLEEPING\<rparr>) s\<lparr>held := LkProc p # remove1 lk (held s)\<rparr>)
     = Panic ''sched locks''"
    using assms by (intro sched_locks [of _ p]) simp_all
  then show ?thesis using assms ne by (simp add: sleep_def myproc_def deref_def release_def)
qed

lemma sleep_resume_spec:
  assumes inv: "sched_inv s v" and p: "curproc s = Some p" "p < NPROC" and lk: "held s = [LkProc p]" "lk \<noteq> LkProc p"
  shows "sleep_resume lk s = Ok (upd_proc p (\<lambda>r. r\<lparr>chan := None\<rparr>) s\<lparr>held := [lk]\<rparr>)"
    and "sched_inv (upd_proc p (\<lambda>r. r\<lparr>chan := None\<rparr>) s\<lparr>held := [lk]\<rparr>) v"
  subgoal using p lk by (simp add: sleep_resume_def myproc_def deref_def)
  subgoal by (rule sched_inv_cong [OF inv]) auto
  done

text \<open>Every element of a run queue is a runnable process of that container.\<close>

lemma runq_elem:
  assumes "sched_inv s v" "c < NCONT" "cstate (conts s c) = USED" "a \<in> set (v (LRunq c))"
  shows "\<exists>i. a = PElem i \<and> i < NPROC \<and> state (procs s i) = RUNNABLE \<and> contp (procs s i) = Some c"
proof -
  have "set (v (LRunq c)) = PElem ` {i. i < NPROC \<and> state (procs s i) = RUNNABLE \<and> contp (procs s i) = Some c}"
    using assms(1-3) unfolding sched_inv_def by blast
  then show ?thesis using assms(4) by auto
qed

lemma root_live:
  assumes "sched_inv s v" "cont_root s = Some c"
  shows "c < NCONT" "cstate (conts s c) = USED" "LRunq c \<in> live s" "LProcs c \<in> live s"
  using assms unfolding sched_inv_def live_def by auto

lemma dequeue_inv:
  assumes inv: "sched_inv s v" and c: "c < NCONT" "cstate (conts s c) = USED" "LRunq c \<in> live s"
    and q: "v (LRunq c) = PElem p # xs"
    and f: "state (f (procs s p)) = RUNNING" "contp (f (procs s p)) = contp (procs s p)"
  shows "\<exists>h. take_first (LRunq c) s = Ok (Some (PElem p), s\<lparr>lh := h\<rparr>) \<and>
    sched_inv (upd_proc p f s\<lparr>lh := h\<rparr>) (v(LRunq c := xs)) \<and> p < NPROC \<and> state (procs s p) = RUNNABLE"
proof -
  have p: "p < NPROC" "state (procs s p) = RUNNABLE" "contp (procs s p) = Some c"
    using runq_elem [OF inv c(1,2), of "PElem p"] q by auto
  from take_first_ok [OF sched_inv_lists [OF inv] c(3) q] obtain h where
    h: "take_first (LRunq c) s = Ok (Some (PElem p), s\<lparr>lh := h\<rparr>)" "lists_ok (live s) h (v(LRunq c := xs))" by blast
  have l: "live (upd_proc p f s\<lparr>lh := h\<rparr>) = live s" by (simp add: live_def)
  have d: "distinct (PElem p # xs)" using dll_distinct [OF lists_ok_D(1) [OF sched_inv_lists [OF inv] c(3)]] q by simp
  have r: "set ((v(LRunq c := xs)) (LRunq d)) =
      PElem ` {i. i < NPROC \<and> state (procs (upd_proc p f s) i) = RUNNABLE \<and> contp (procs (upd_proc p f s) i) = Some d}"
    if "d < NCONT" "cstate (conts s d) = USED" for d
  proof -
    have *: "set (v (LRunq d)) = PElem ` {i. i < NPROC \<and> state (procs s i) = RUNNABLE \<and> contp (procs s i) = Some d}"
      using inv that unfolding sched_inv_def by blast
    show ?thesis
    proof (cases "d = c")
      case True
      have "set xs = PElem ` {i. i < NPROC \<and> state (procs s i) = RUNNABLE \<and> contp (procs s i) = Some c} - {PElem p}"
        using * d q True by auto
      then show ?thesis using True f by auto
    next
      case False then show ?thesis using * p f by auto
    qed
  qed
  have "sched_inv (upd_proc p f s\<lparr>lh := h\<rparr>) (v(LRunq c := xs))"
    using inv p f h(2) r unfolding sched_inv_def l by (auto simp: image_iff)
  then show ?thesis using h(1) p by blast
qed

lemma take_first_held [simp]:
  "take_first l (s\<lparr>held := x\<rparr>) = bindR (take_first l s) (\<lambda>(e, t). Ok (e, t\<lparr>held := x\<rparr>))"
  by (auto simp: take_first_def remove_elem_def bindR_assoc split_beta intro!: arg_cong2 [where f = bindR])

lemma scheduler_idle:
  assumes inv: "sched_inv s v" and r: "cont_root s = Some c" "v (LRunq c) = []" and lk: "held s = []"
  shows "scheduler s = Ok (None, s)"
  using r lk take_first_empty [OF sched_inv_lists [OF inv] root_live(3) [OF inv r(1)] r(2)]
  by (simp add: scheduler_def deref_def)

lemma scheduler_spec:
  assumes inv: "sched_inv s v" and r: "cont_root s = Some c" "v (LRunq c) = PElem p # xs" and lk: "held s = []"
  shows "\<exists>h. scheduler s = Ok (Some p, upd_proc p (\<lambda>r. r\<lparr>state := RUNNING, nsched := nsched r + 1\<rparr>) s
              \<lparr>lh := h, curproc := Some p, held := [LkProc p]\<rparr>) \<and>
    sched_inv (upd_proc p (\<lambda>r. r\<lparr>state := RUNNING, nsched := nsched r + 1\<rparr>) s
              \<lparr>lh := h, curproc := Some p, held := [LkProc p]\<rparr>) (v(LRunq c := xs))"
proof -
  let ?f = "\<lambda>r. r\<lparr>state := RUNNING, nsched := nsched r + 1\<rparr>"
  from dequeue_inv [OF inv root_live(1-3) [OF inv r(1)] r(2), of ?f] obtain h where
    h: "take_first (LRunq c) s = Ok (Some (PElem p), s\<lparr>lh := h\<rparr>)"
       "sched_inv (upd_proc p ?f s\<lparr>lh := h\<rparr>) (v(LRunq c := xs))" "p < NPROC" "state (procs s p) = RUNNABLE" by auto
  have u: "upd_proc p ?f (s\<lparr>lh := h\<rparr>) = upd_proc p ?f s\<lparr>lh := h\<rparr>" by (simp add: upd_proc_def)
  show ?thesis using h r lk by (auto simp: scheduler_def deref_def u)
qed

subsection \<open>Killing\<close>

lemma kill_from_Cons:
  "kill_from (p # ps) q s =
     bindR (acquire (LkProc p) s) (\<lambda>s.
     if pid (procs s p) = q then
       bindR (if state (procs s p) = SLEEPING
              then queue_proc p (upd_proc p (\<lambda>r. r\<lparr>killed_flag := 1, state := RUNNABLE\<rparr>) s)
              else Ok (upd_proc p (\<lambda>r. r\<lparr>killed_flag := 1\<rparr>) s)) (\<lambda>s.
       bindR (release (LkProc p) s) (\<lambda>s. Ok (0, s)))
     else bindR (release (LkProc p) s) (\<lambda>s. kill_from ps q s))"
  by (auto simp: acquire_def queue_proc_def Let_def upd_proc_def)

lemma kill_from_skip:
  assumes "no_table_locks s" "pid (procs s p) \<noteq> q"
  shows "kill_from (p # ps) q s = kill_from ps q s"
  using assms by (simp add: no_table_locks_def)

lemma kill_from_skips:
  assumes "no_table_locks s" "\<forall>i\<in>set ps. pid (procs s i) \<noteq> q"
  shows "kill_from (ps @ qs) q s = kill_from qs q s"
  using assms by (induction ps) (simp_all add: kill_from_skip del: kill_from.simps)

lemma kill_none:
  assumes "no_table_locks s" "\<forall>i<NPROC. pid (procs s i) \<noteq> q"
  shows "kill q s = Ok (-1, s)"
  using kill_from_skips [of s "[0..<NPROC]" q "[]"] assms by (simp add: kill_def)

lemma kill_split:
  assumes "no_table_locks s" "p < NPROC" "pid (procs s p) = q" "\<forall>i<p. pid (procs s i) \<noteq> q"
  shows "kill q s = kill_from (p # [Suc p..<NPROC]) q s"
proof -
  have "[0..<NPROC] = [0..<p] @ p # [Suc p..<NPROC]"
    using assms(2) upt_add_eq_append [of 0 p "NPROC - p"] upt_conv_Cons [of p NPROC] by simp
  then show ?thesis using kill_from_skips [of s "[0..<p]" q "p # [Suc p..<NPROC]"] assms by (simp add: kill_def)
qed

lemma kill_awake:
  assumes "no_table_locks s" "p < NPROC" "pid (procs s p) = q" "\<forall>i<p. pid (procs s i) \<noteq> q"
    "state (procs s p) \<noteq> SLEEPING"
  shows "kill q s = Ok (0, upd_proc p (\<lambda>r. r\<lparr>killed_flag := 1\<rparr>) s)"
  using assms by (simp add: kill_split kill_from_Cons no_table_locks_def del: kill_from.simps)

lemma kill_asleep:
  assumes inv: "sched_inv s v" and lk: "no_table_locks s"
    and p: "p < NPROC" "pid (procs s p) = q" "\<forall>i<p. pid (procs s i) \<noteq> q"
    and st: "state (procs s p) = SLEEPING" and c: "contp (procs s p) = Some c"
  shows "\<exists>h. kill q s = Ok (0, upd_proc p (\<lambda>r. r\<lparr>killed_flag := 1, state := RUNNABLE\<rparr>) s\<lparr>lh := h\<rparr>) \<and>
    sched_inv (upd_proc p (\<lambda>r. r\<lparr>killed_flag := 1, state := RUNNABLE\<rparr>) s\<lparr>lh := h\<rparr>) (set_queue v c p)"
proof -
  let ?f = "\<lambda>r. r\<lparr>killed_flag := 1, state := RUNNABLE\<rparr>"
  let ?s = "s\<lparr>held := LkProc p # held s\<rparr>"
  have "sched_inv ?s v" using inv by simp
  moreover have n: "LkProc p \<notin> set (held s)" "LkCont c \<notin> set (held s)" using lk by (simp_all add: no_table_locks_def)
  ultimately obtain h where
    h: "queue_proc p (upd_proc p ?f ?s) = Ok (upd_proc p ?f ?s\<lparr>lh := h\<rparr>)"
       "sched_inv (upd_proc p ?f ?s\<lparr>lh := h\<rparr>) (set_queue v c p)"
    using queue_proc_inv [of ?s v p c ?f] p(1) st c by auto
  have "kill q s = Ok (0, upd_proc p ?f s\<lparr>lh := h\<rparr>)"
    using h(1) n st p by (simp add: kill_split [OF lk p] kill_from_Cons del: kill_from.simps)
  then show ?thesis using h(2) by auto
qed

lemma setkilled_spec:
  "LkProc p \<notin> set (held s) \<Longrightarrow> setkilled p s = Ok (upd_proc p (\<lambda>r. r\<lparr>killed_flag := 1\<rparr>) s)"
  by (simp add: setkilled_def)

lemma killed_spec: "LkProc p \<notin> set (held s) \<Longrightarrow> killed p s = Ok (killed_flag (procs s p), s)"
  by (simp add: killed_def)

lemma setkilled_inv: "sched_inv s v \<Longrightarrow> sched_inv (upd_proc p (\<lambda>r. r\<lparr>killed_flag := k\<rparr>) s) v"
  by (rule sched_inv_cong) auto

lemma upd_cont_held [simp]: "upd_cont i f (s\<lparr>held := x\<rparr>) = (upd_cont i f s)\<lparr>held := x\<rparr>"
  by (simp add: upd_cont_def)

lemma allocpid_spec:
  assumes "LkCont c \<notin> set (held s)"
  shows "allocpid c s = Ok (cnextpid (conts s c), upd_cont c (\<lambda>k. k\<lparr>cnextpid := cnextpid k + 1\<rparr>) s)"
  using assms by (simp add: allocpid_def)

text \<open>Successive pids of one container: \<open>n\<close> calls return the next \<open>n\<close> numbers, modulo \<open>2 ^ 32\<close>.\<close>

primrec allocpids :: "nat \<Rightarrow> nat \<Rightarrow> sst \<Rightarrow> (u32 list \<times> sst) res" where
  "allocpids 0 c s = Ok ([], s)"
| "allocpids (Suc n) c s = bindR (allocpid c s) (\<lambda>(p, s). bindR (allocpids n c s) (\<lambda>(ps, s). Ok (p # ps, s)))"

lemma allocpids_spec:
  assumes "LkCont c \<notin> set (held s)"
  shows "allocpids n c s = Ok (map (\<lambda>k. cnextpid (conts s c) + of_nat k) [0..<n],
                               upd_cont c (\<lambda>k. k\<lparr>cnextpid := cnextpid k + of_nat n\<rparr>) s)"
  using assms
proof (induction n arbitrary: s)
  case 0
  then show ?case by (simp add: upd_cont_def)
next
  case (Suc n)
  have "map (\<lambda>k. cnextpid (conts s c) + of_nat k) [0..<Suc n] =
      cnextpid (conts s c) # map (\<lambda>k. cnextpid (conts s c) + 1 + of_nat k) [0..<n]"
    by (rule nth_equalityI) (auto simp: nth_Cons' simp del: upt_Suc)
  then show ?case using Suc by (simp add: allocpid_spec upd_cont_def add.assoc)
qed

subsection \<open>Allocating a container\<close>

definition named_root :: "byte list \<Rightarrow> bool" where
  "named_root nm \<longleftrightarrow> take 4 nm = root_name"

definition fresh_cont :: "byte list \<Rightarrow> u32 \<Rightarrow> byte list \<Rightarrow> nat option \<Rightarrow> cont \<Rightarrow> cont" where
  "fresh_cont nm mm rd ip k =
     (let k = k\<lparr>cstate := USED, cnextpid := 1, cname := safestrcpy_arr (cname k) nm, max_mem_bytes := mm,
               rootpath := safestrcpy_arr (rootpath k) rd\<rparr>
      in if named_root nm then k else k\<lparr>rootdir := ip\<rparr>)"

definition ready_cont :: "byte list \<Rightarrow> u32 \<Rightarrow> byte list \<Rightarrow> u32 \<Rightarrow> nat option \<Rightarrow> cont \<Rightarrow> cont" where
  "ready_cont nm mm rd md ip k =
     (fresh_cont nm mm rd ip k)\<lparr>max_disk_bytes := md, used_mem_bytes := 0, used_disk_bytes := 0, cnticks := 0\<rparr>"

lemma upd_cont_lh [simp]: "upd_cont c f (s\<lparr>lh := h\<rparr>) = upd_cont c f s\<lparr>lh := h\<rparr>"
  by (simp add: upd_cont_def)

lemma upd_cont_upd_cont [simp]: "upd_cont c f (upd_cont c g s) = upd_cont c (\<lambda>k. f (g k)) s"
  by (simp add: upd_cont_def)

lemma held_same [simp]: "held s = x \<Longrightarrow> s\<lparr>held := x\<rparr> = s"
  by (rule sst.equality) simp_all

lemma alloccont_none:
  assumes "lists_ok V (lh s) v" "LContUnused \<in> V" "v LContUnused = []" "LkContUnused \<notin> set (held s)"
  shows "alloccont nr nm mm rd md s = Ok (None, s)"
  using assms take_first_empty [OF assms(1-3)] by (simp add: alloccont_def Let_def)

lemma alloccont_lists:
  assumes ok: "lists_ok V (lh s) v" and V: "LContUnused \<in> V" "LProcs c \<notin> V" "LRunq c \<notin> V"
    and q: "v LContUnused = CElem c # xs" and lk: "LkContUnused \<notin> set (held s)" "LkCont c \<notin> set (held s)"
    and nr: "\<not> named_root nm \<Longrightarrow> \<forall>t. nr rd t = Ok (ip, t)"
  shows "\<exists>h. lists_ok (insert (LRunq c) (insert (LProcs c) V)) h (v(LContUnused := xs, LProcs c := [], LRunq c := [])) \<and>
    alloccont nr nm mm rd md s =
      (if named_root nm \<or> ip \<noteq> None then Ok (Some c, upd_cont c (ready_cont nm mm rd md ip) s\<lparr>lh := h\<rparr>)
       else Ok (None, upd_cont c (fresh_cont nm mm rd ip) s\<lparr>lh := h, held := LkCont c # held s\<rparr>))"
proof -
  from take_first_ok [OF ok V(1) q] obtain h1 where
    h1: "take_first LContUnused s = Ok (Some (CElem c), s\<lparr>lh := h1\<rparr>)" "lists_ok V h1 (v(LContUnused := xs))" by blast
  from init_list_ok [OF h1(2) V(2)] obtain h2 where
    h2: "list_init (Some (lst (LProcs c))) h1 = Ok h2"
        "lists_ok (insert (LProcs c) V) h2 (v(LContUnused := xs, LProcs c := []))" by blast
  have "LRunq c \<notin> insert (LProcs c) V" using V by simp
  from init_list_ok [OF h2(2) this] obtain h3 where
    h3: "list_init (Some (lst (LRunq c))) h2 = Ok h3"
        "lists_ok (insert (LRunq c) (insert (LProcs c) V)) h3 (v(LContUnused := xs, LProcs c := [], LRunq c := []))" by blast
  have r: "(take 4 nm = root_name) = named_root nm" by (simp add: named_root_def)
  have "alloccont nr nm mm rd md s =
      (if named_root nm \<or> ip \<noteq> None then Ok (Some c, upd_cont c (ready_cont nm mm rd md ip) s\<lparr>lh := h3\<rparr>)
       else Ok (None, upd_cont c (fresh_cont nm mm rd ip) s\<lparr>lh := h3, held := LkCont c # held s\<rparr>))"
    using lk h1(1) h2(1) h3(1) nr
    by (cases "named_root nm")
      (auto simp: alloccont_def Let_def r ready_cont_def [abs_def] fresh_cont_def [abs_def] release_def cong: if_cong)
  then show ?thesis using h3(2) by blast
qed

subsection \<open>Boot\<close>

lemma init_list_sst:
  assumes "lists_ok V (lh s) v" "l \<notin> V"
  shows "\<exists>h. init_list l s = Ok (s\<lparr>lh := h\<rparr>) \<and> lists_ok (insert l V) h (v(l := []))"
  using init_list_ok [OF assms] by (auto simp: init_list_def)

text \<open>A loop that pushes one fresh element per table entry.\<close>

lemma forR_push_back:
  assumes ok: "lists_ok V (lh s) v" and l: "l \<in> V" "v l = []"
    and e: "\<And>i. i < n \<Longrightarrow> is_elem (e i)" "\<And>i k. i < n \<Longrightarrow> k \<in> V \<Longrightarrow> e i \<notin> set (v k)" "inj e"
    and g: "\<And>i s. lh (g i s) = lh s" and com: "\<And>i s h. g i (s\<lparr>lh := h\<rparr>) = (g i s)\<lparr>lh := h\<rparr>"
  shows "\<exists>t. forR (\<lambda>i s. push_back l (e i) (g i s)) [0..<n] s = Ok t \<and>
     (\<exists>h. t = fold g [0..<n] s\<lparr>lh := h\<rparr>) \<and> lists_ok V (lh t) (v(l := map e [0..<n]))"
proof -
  let ?I = "\<lambda>ds t. (\<exists>h. t = fold g ds s\<lparr>lh := h\<rparr>) \<and> lists_ok V (lh t) (v(l := map e ds))"
  have "\<exists>t. forR (\<lambda>i s. push_back l (e i) (g i s)) [0..<n] s = Ok t \<and> ?I [0..<n] t"
  proof (rule forR_prefix_rule)
    have "lists_ok V (lh s) (v(l := map e []))" by (rule lists_ok_cong [OF ok]) (simp add: l)
    then show "?I [] s" by (auto intro: exI [of _ "lh s"])
  next
    fix ds i es t
    assume js: "[0..<n] = ds @ i # es" and "?I ds t"
    then obtain h where t: "t = fold g ds s\<lparr>lh := h\<rparr>" "lists_ok V (lh (g i t)) (v(l := map e ds))"
      using g by auto
    have i: "ds = [0..<i]" "i < n" using filter_upt_prefix [OF js] by auto
    have "is_elem (e i)" using e i by auto
    moreover have "e i \<notin> set ((v(l := map e ds)) k)" if "k \<in> V" for k
      using e i that by (auto dest: injD)
    ultimately obtain h' where h': "push_back l (e i) (g i t) = Ok (g i t\<lparr>lh := h'\<rparr>)"
      "lists_ok V h' ((v(l := map e ds))(l := (v(l := map e ds)) l @ [e i]))"
      using push_back_ok [OF t(2) l(1), of "e i"] by auto
    have "g i t\<lparr>lh := h'\<rparr> = fold g (ds @ [i]) s\<lparr>lh := h'\<rparr>" by (simp add: t(1) com)
    then show "\<exists>u. push_back l (e i) (g i t) = Ok u \<and> ?I (ds @ [i]) u" using h' by auto
  qed
  then show ?thesis by blast
qed

lemma fold_upd_cont: "fold (\<lambda>c. upd_cont c f) [0..<n] s = s\<lparr>conts := (\<lambda>c. if c < n then f (conts s c) else conts s c)\<rparr>"
  by (induction n) (auto simp: upd_cont_def fun_eq_iff less_Suc_eq)

lemma fold_upd_proc: "fold (\<lambda>i. upd_proc i (f i)) [0..<n] s = s\<lparr>procs := (\<lambda>i. if i < n then f i (procs s i) else procs s i)\<rparr>"
  by (induction n) (auto simp: upd_proc_def fun_eq_iff less_Suc_eq)

lemma lists_ok_empty: "lists_ok {} h v"
  by (simp add: lists_ok_def)

definition boot_queues :: "listid \<Rightarrow> laddr list" where
  "boot_queues l =
     (case l of LUnused \<Rightarrow> map PElem [0..<NPROC] | LContUnused \<Rightarrow> map CElem [1..<NCONT]
      | LContRun \<Rightarrow> [CElem 0] | _ \<Rightarrow> [])"


lemma const_upd [simp]: "(\<lambda>_. x)(k := x) = (\<lambda>_. x)"
  by auto

lemma inj_elems: "inj CElem" "inj PElem"
  by (auto simp: inj_def)

definition unused_conts :: "sst \<Rightarrow> sst" where
  "unused_conts s = s\<lparr>conts := (\<lambda>c. if c < NCONT then (conts s c)\<lparr>cstate := UNUSED\<rparr> else conts s c)\<rparr>"

definition unused_procs :: "sst \<Rightarrow> sst" where
  "unused_procs s = s\<lparr>procs := (\<lambda>i. if i < NPROC then (procs s i)\<lparr>state := UNUSED, kstack := KSTACK i\<rparr> else procs s i)\<rparr>"

lemma procinit_conts:
  "\<exists>h. bindR (init_list LContRun s) (\<lambda>s. bindR (init_list LContUnused s) (\<lambda>s.
          forR (\<lambda>c s. push_back LContUnused (CElem c) (upd_cont c (\<lambda>k. k\<lparr>cstate := UNUSED\<rparr>) s)) [0..<NCONT] s))
        = Ok (unused_conts s\<lparr>lh := h\<rparr>) \<and>
      lists_ok {LContUnused, LContRun} h ((\<lambda>_. [])(LContUnused := map CElem [0..<NCONT]))"
proof -
  let ?v = "\<lambda>l. [] :: laddr list" and ?f = "\<lambda>k. k\<lparr>cstate := UNUSED\<rparr>"
  obtain h1 where h1: "init_list LContRun s = Ok (s\<lparr>lh := h1\<rparr>)" "lists_ok {LContRun} h1 ?v"
    using init_list_sst [OF lists_ok_empty, of LContRun s ?v] by auto
  from init_list_sst [of "{LContRun}" "s\<lparr>lh := h1\<rparr>" ?v LContUnused] h1(2) obtain h2 where
    h2: "init_list LContUnused (s\<lparr>lh := h1\<rparr>) = Ok (s\<lparr>lh := h2\<rparr>)" "lists_ok {LContUnused, LContRun} h2 ?v" by auto
  have "\<exists>t. forR (\<lambda>c s. push_back LContUnused (CElem c) (upd_cont c ?f s)) [0..<NCONT] (s\<lparr>lh := h2\<rparr>) = Ok t \<and>
     (\<exists>h. t = fold (\<lambda>c. upd_cont c ?f) [0..<NCONT] (s\<lparr>lh := h2\<rparr>)\<lparr>lh := h\<rparr>) \<and>
     lists_ok {LContUnused, LContRun} (lh t) (?v(LContUnused := map CElem [0..<NCONT]))"
    by (rule forR_push_back) (use h2(2) in \<open>auto simp: inj_elems\<close>)
  then show ?thesis using h1(1) h2(1) by (auto simp: fold_upd_cont unused_conts_def cong: if_cong)
qed

lemma procinit_procs:
  assumes "lists_ok {LContUnused, LContRun} (lh s) ((\<lambda>_. [])(LContUnused := cs))" "\<And>a. a \<in> set cs \<Longrightarrow> a \<in> range CElem"
  shows "\<exists>h. bindR (init_list LUnused s) (\<lambda>s.
      bindR (forR (\<lambda>i s. push_back LUnused (PElem i) (upd_proc i (\<lambda>p. p\<lparr>state := UNUSED, kstack := KSTACK i\<rparr>) s)) [0..<NPROC] s)
        (init_list LRun)) = Ok (unused_procs s\<lparr>lh := h\<rparr>) \<and>
      lists_ok {LRun, LUnused, LContUnused, LContRun} h
        ((\<lambda>_. [])(LContUnused := cs, LUnused := map PElem [0..<NPROC]))"
proof -
  let ?v = "(\<lambda>_. [])(LContUnused := cs)" and ?f = "\<lambda>i p. p\<lparr>state := UNUSED, kstack := KSTACK i\<rparr>"
  have "?v(LUnused := []) = ?v" by auto
  then obtain h1 where h1: "init_list LUnused s = Ok (s\<lparr>lh := h1\<rparr>)" "lists_ok {LUnused, LContUnused, LContRun} h1 ?v"
    using init_list_sst [OF assms(1), of LUnused] by auto
  have c: "upd_proc i (?f i) (s\<lparr>lh := h\<rparr>) = upd_proc i (?f i) s\<lparr>lh := h\<rparr>" for i s h by (simp add: upd_proc_def)
  have "PElem i \<notin> set cs" for i using assms(2) [of "PElem i"] by auto
  then have "\<exists>t. forR (\<lambda>i s. push_back LUnused (PElem i) (upd_proc i (?f i) s)) [0..<NPROC] (s\<lparr>lh := h1\<rparr>) = Ok t \<and>
     (\<exists>h. t = fold (\<lambda>i. upd_proc i (?f i)) [0..<NPROC] (s\<lparr>lh := h1\<rparr>)\<lparr>lh := h\<rparr>) \<and>
     lists_ok {LUnused, LContUnused, LContRun} (lh t) (?v(LUnused := map PElem [0..<NPROC]))"
    using h1(2) c by (intro forR_push_back) (auto simp: inj_elems)
  then obtain t h2 where t: "forR (\<lambda>i s. push_back LUnused (PElem i) (upd_proc i (?f i) s)) [0..<NPROC] (s\<lparr>lh := h1\<rparr>) = Ok t"
    "t = unused_procs s\<lparr>lh := h2\<rparr>" "lists_ok {LUnused, LContUnused, LContRun} (lh t) (?v(LUnused := map PElem [0..<NPROC]))"
    by (auto simp: fold_upd_proc unused_procs_def cong: if_cong)
  obtain h3 where "init_list LRun t = Ok (t\<lparr>lh := h3\<rparr>)"
    "lists_ok {LRun, LUnused, LContUnused, LContRun} h3 (?v(LUnused := map PElem [0..<NPROC], LRun := []))"
    using init_list_sst [OF t(3), of LRun] by auto
  moreover have "?v(LUnused := map PElem [0..<NPROC], LRun := []) = ?v(LUnused := map PElem [0..<NPROC])" by auto
  ultimately show ?thesis using h1(1) t(1,2) by auto
qed

lemma procinit_root:
  assumes ok: "lists_ok {LRun, LUnused, LContUnused, LContRun} (lh s)
      ((\<lambda>_. [])(LContUnused := map CElem [0..<NCONT], LUnused := map PElem [0..<NPROC]))" and lk: "held s = []"
  shows "\<exists>h. bindR (alloccont (\<lambda>_ s. Ok (None, s)) root_name 0 [47] 0 s) (\<lambda>(c, s).
        let s = s\<lparr>cont_root := c\<rparr> in bindR (deref c) (\<lambda>c. push_back LContRun (CElem c) s))
      = Ok (upd_cont 0 (ready_cont root_name 0 [47] 0 None) s\<lparr>cont_root := Some 0, lh := h\<rparr>) \<and>
      lists_ok {LUnused, LRun, LContUnused, LContRun, LProcs 0, LRunq 0} h boot_queues"
proof -
  let ?V = "{LRun, LUnused, LContUnused, LContRun}"
  let ?v = "(\<lambda>_. [])(LContUnused := map CElem [0..<NCONT], LUnused := map PElem [0..<NPROC])"
  have q: "?v LContUnused = CElem 0 # map CElem [1..<NCONT]" by (simp add: NCONT_def upt_rec)
  have nr: "named_root root_name" by (simp add: named_root_def root_name_def)
  let ?w = "?v(LContUnused := map CElem [1..<NCONT], LProcs 0 := [], LRunq 0 := [])"
  obtain h where h: "lists_ok (insert (LRunq 0) (insert (LProcs 0) ?V)) h ?w"
    "alloccont (\<lambda>_ s. Ok (None, s)) root_name 0 [47] 0 s = Ok (Some 0, upd_cont 0 (ready_cont root_name 0 [47] 0 None) s\<lparr>lh := h\<rparr>)"
    using alloccont_lists [where v = ?v and c = 0, OF ok _ _ _ q, of root_name "\<lambda>_ s. Ok (None, s)" "[47]" None 0 0] lk nr by auto
  let ?s = "upd_cont 0 (ready_cont root_name 0 [47] 0 None) s\<lparr>lh := h, cont_root := Some 0\<rparr>"
  have "\<exists>g. push_back LContRun (CElem 0) ?s = Ok (?s\<lparr>lh := g\<rparr>) \<and>
      lists_ok (insert (LRunq 0) (insert (LProcs 0) ?V)) g (?w(LContRun := ?w LContRun @ [CElem 0]))"
    by (rule push_back_ok) (use h(1) in auto)
  then obtain g where g: "push_back LContRun (CElem 0) ?s = Ok (?s\<lparr>lh := g\<rparr>)"
    "lists_ok (insert (LRunq 0) (insert (LProcs 0) ?V)) g (?w(LContRun := [CElem 0]))" by auto
  have "lists_ok {LUnused, LRun, LContUnused, LContRun, LProcs 0, LRunq 0} g boot_queues"
    by (rule lists_ok_subset [OF lists_ok_cong [OF g(2)]]) (auto simp: boot_queues_def)
  then show ?thesis using h(2) g(1) by (auto simp: deref_def)
qed

definition boot_state :: "sst \<Rightarrow> sst" where
  "boot_state s = upd_cont 0 (ready_cont root_name 0 [47] 0 None) (unused_procs (unused_conts s))\<lparr>cont_root := Some 0\<rparr>"

lemma procinit_lists:
  assumes "held s = []"
  shows "\<exists>h. procinit s = Ok (boot_state s\<lparr>lh := h\<rparr>) \<and>
    lists_ok {LUnused, LRun, LContUnused, LContRun, LProcs 0, LRunq 0} h boot_queues"
proof -
  obtain h1 where h1: "bindR (init_list LContRun s) (\<lambda>s. bindR (init_list LContUnused s) (\<lambda>s.
          forR (\<lambda>c s. push_back LContUnused (CElem c) (upd_cont c (\<lambda>k. k\<lparr>cstate := UNUSED\<rparr>) s)) [0..<NCONT] s))
        = Ok (unused_conts s\<lparr>lh := h1\<rparr>)"
      "lists_ok {LContUnused, LContRun} h1 ((\<lambda>_. [])(LContUnused := map CElem [0..<NCONT]))"
    using procinit_conts by blast
  let ?s1 = "unused_conts s\<lparr>lh := h1\<rparr>"
  obtain h2 where h2: "bindR (init_list LUnused ?s1) (\<lambda>s.
      bindR (forR (\<lambda>i s. push_back LUnused (PElem i) (upd_proc i (\<lambda>p. p\<lparr>state := UNUSED, kstack := KSTACK i\<rparr>) s)) [0..<NPROC] s)
        (init_list LRun)) = Ok (unused_procs ?s1\<lparr>lh := h2\<rparr>)"
      "lists_ok {LRun, LUnused, LContUnused, LContRun} h2
        ((\<lambda>_. [])(LContUnused := map CElem [0..<NCONT], LUnused := map PElem [0..<NPROC]))"
    using procinit_procs [of ?s1 "map CElem [0..<NCONT]"] h1(2) by auto
  let ?s2 = "unused_procs ?s1\<lparr>lh := h2\<rparr>"
  have "held ?s2 = []" using assms by (simp add: unused_conts_def unused_procs_def)
  from procinit_root [OF _ this] h2(2) obtain h3 where
    h3: "bindR (alloccont (\<lambda>_ s. Ok (None, s)) root_name 0 [47] 0 ?s2) (\<lambda>(c, s).
        let s = s\<lparr>cont_root := c\<rparr> in bindR (deref c) (\<lambda>c. push_back LContRun (CElem c) s))
      = Ok (upd_cont 0 (ready_cont root_name 0 [47] 0 None) ?s2\<lparr>cont_root := Some 0, lh := h3\<rparr>)"
      "lists_ok {LUnused, LRun, LContUnused, LContRun, LProcs 0, LRunq 0} h3 boot_queues" by auto
  have "procinit s = bindR (bindR (init_list LContRun s) (\<lambda>s. bindR (init_list LContUnused s) (\<lambda>s.
          forR (\<lambda>c s. push_back LContUnused (CElem c) (upd_cont c (\<lambda>k. k\<lparr>cstate := UNUSED\<rparr>) s)) [0..<NCONT] s)))
     (\<lambda>s. bindR (bindR (init_list LUnused s) (\<lambda>s.
      bindR (forR (\<lambda>i s. push_back LUnused (PElem i) (upd_proc i (\<lambda>p. p\<lparr>state := UNUSED, kstack := KSTACK i\<rparr>) s)) [0..<NPROC] s)
        (init_list LRun))) (\<lambda>s. bindR (alloccont (\<lambda>_ s. Ok (None, s)) root_name 0 [47] 0 s) (\<lambda>(c, s).
        let s = s\<lparr>cont_root := c\<rparr> in bindR (deref c) (\<lambda>c. push_back LContRun (CElem c) s))))"
    unfolding procinit_def bindR_assoc ..
  also have "\<dots> = Ok (boot_state s\<lparr>lh := h3\<rparr>)"
    unfolding h1(1) bindR.simps h2(1) h3(1) by (simp add: boot_state_def unused_procs_def unused_conts_def upd_cont_def cong: if_cong)
  finally show ?thesis using h3(2) by blast
qed

lemma procinit_inv:
  assumes "held s = []" "\<And>i. i < NPROC \<Longrightarrow> contp (procs s i) = None"
  shows "\<exists>t. procinit s = Ok t \<and> sched_inv t boot_queues \<and> held t = []"
proof -
  obtain h where h: "procinit s = Ok (boot_state s\<lparr>lh := h\<rparr>)"
    "lists_ok {LUnused, LRun, LContUnused, LContRun, LProcs 0, LRunq 0} h boot_queues"
    using procinit_lists [OF assms(1)] by blast
  let ?t = "boot_state s\<lparr>lh := h\<rparr>"
  have c: "cstate (conts ?t c) = (if c = 0 then USED else UNUSED)" if "c < NCONT" for c
    using that by (simp add: boot_state_def unused_conts_def unused_procs_def ready_cont_def fresh_cont_def Let_def)
  have p: "state (procs ?t i) = UNUSED \<and> contp (procs ?t i) = None" if "i < NPROC" for i
    using that assms(2) by (simp add: boot_state_def unused_conts_def unused_procs_def)
  have r: "cont_root ?t = Some 0" "held ?t = []" "0 < NCONT"
    using assms(1) by (simp_all add: boot_state_def unused_conts_def unused_procs_def NCONT_def)
  have lv: "live ?t = {LUnused, LRun, LContUnused, LContRun, LProcs 0, LRunq 0}"
    using c r(3) by (auto simp: live_def split: if_splits)
  have sets: "{i. i < NPROC \<and> state (procs ?t i) = UNUSED} = {0..<NPROC}"
    "{c. c < NCONT \<and> cstate (conts ?t c) = UNUSED} = {1..<NCONT}"
    "{c. c < NCONT \<and> cstate (conts ?t c) = USED} = {0}"
    "{i. i < NPROC \<and> state (procs ?t i) = RUNNABLE \<and> contp (procs ?t i) = Some 0} = {}"
    "{i. i < NPROC \<and> contp (procs ?t i) = Some 0} = {}"
    using c p r(3) by (auto split: if_splits)
  have "sched_inv ?t boot_queues"
    unfolding sched_inv_def lv sets using h(2) c p r by (simp add: boot_queues_def sets)
  then show ?thesis using h(1) r by blast
qed

section \<open>The scheduling state machine\<close>

text \<open>
  One CPU.  \<open>curproc\<close> is \<open>None\<close> in the scheduler's own loop.  With a current process and its
  lock held the CPU is between \<open>sched\<close> and the scheduler (the process is not running) or
  between the scheduler and the process (it is); with no lock held the process runs kernel code.
\<close>

fun table_lock :: "lockid \<Rightarrow> bool" where
  "table_lock (LkProc _) = True"
| "table_lock (LkCont _) = True"
| "table_lock _ = False"

inductive kstep :: "sst \<Rightarrow> sst \<Rightarrow> bool" where
  pick: "curproc s = None \<Longrightarrow> scheduler s = Ok (Some p, t) \<Longrightarrow> kstep s t"
| resume_yield: "curproc s = Some p \<Longrightarrow> held s = [LkProc p] \<Longrightarrow> state (procs s p) = RUNNING \<Longrightarrow>
    yield_resume s = Ok t \<Longrightarrow> kstep s t"
| resume_sleep: "curproc s = Some p \<Longrightarrow> held s = [LkProc p] \<Longrightarrow> state (procs s p) = RUNNING \<Longrightarrow>
    \<not> table_lock lk \<Longrightarrow> bindR (sleep_resume lk s) (release lk) = Ok t \<Longrightarrow> kstep s t"
| do_yield: "curproc s = Some p \<Longrightarrow> held s = [] \<Longrightarrow> yield s = Ok t \<Longrightarrow> kstep s t"
| do_sleep: "curproc s = Some p \<Longrightarrow> held s = [] \<Longrightarrow> \<not> table_lock lk \<Longrightarrow>
    bindR (acquire lk s) (sleep ch lk) = Ok t \<Longrightarrow> kstep s t"
| switch_back: "curproc s = Some p \<Longrightarrow> held s = [LkProc p] \<Longrightarrow> state (procs s p) \<noteq> RUNNING \<Longrightarrow>
    scheduler_back p s = Ok t \<Longrightarrow> kstep s t"
| do_wakeup: "held s = [] \<Longrightarrow> wakeup ch s = Ok t \<Longrightarrow> kstep s t"
| do_kill: "held s = [] \<Longrightarrow> kill q s = Ok (r, t) \<Longrightarrow> kstep s t"
| do_setkilled: "held s = [] \<Longrightarrow> p < NPROC \<Longrightarrow> setkilled p s = Ok t \<Longrightarrow> kstep s t"

definition cpu_ok :: "sst \<Rightarrow> bool" where
  "cpu_ok s \<longleftrightarrow>
     (\<forall>i<NPROC. curproc s \<noteq> Some i \<longrightarrow> state (procs s i) \<noteq> RUNNING) \<and>
     (case curproc s of None \<Rightarrow> held s = []
      | Some p \<Rightarrow> p < NPROC \<and> state (procs s p) \<noteq> UNUSED \<and>
          (held s = [] \<and> state (procs s p) = RUNNING \<or> held s = [LkProc p]))"

definition kinv :: "sst \<Rightarrow> bool" where
  "kinv s \<longleftrightarrow> (\<exists>v. sched_inv s v) \<and> cpu_ok s"

lemma cpu_ok_Some:
  "curproc s = Some p \<Longrightarrow> cpu_ok s \<longleftrightarrow>
     (\<forall>i<NPROC. i \<noteq> p \<longrightarrow> state (procs s i) \<noteq> RUNNING) \<and> p < NPROC \<and> state (procs s p) \<noteq> UNUSED \<and>
     (held s = [] \<and> state (procs s p) = RUNNING \<or> held s = [LkProc p])"
  by (auto simp: cpu_ok_def)

lemma cpu_ok_None:
  "curproc s = None \<Longrightarrow> cpu_ok s \<longleftrightarrow> (\<forall>i<NPROC. state (procs s i) \<noteq> RUNNING) \<and> held s = []"
  by (auto simp: cpu_ok_def)

lemma cpu_ok_kernel:
  assumes "cpu_ok s" "curproc s = Some p"
  shows "p < NPROC" "state (procs s p) \<noteq> UNUSED" "held s = [] \<Longrightarrow> state (procs s p) = RUNNING"
  using assms by (auto simp: cpu_ok_def)

lemma cpu_ok_running: "cpu_ok s \<Longrightarrow> i < NPROC \<Longrightarrow> state (procs s i) = RUNNING \<Longrightarrow> curproc s = Some i"
  by (auto simp: cpu_ok_def)

lemma no_locks: "held s = [] \<Longrightarrow> no_table_locks s"
  by (simp add: no_table_locks_def)

subsection \<open>Every operation succeeds and keeps the invariant\<close>

lemma scheduler_kinv:
  assumes "kinv s" "curproc s = None"
  shows "\<exists>r t. scheduler s = Ok (r, t) \<and> kinv t"
proof -
  obtain v where v: "sched_inv s v" and k: "cpu_ok s" using assms by (auto simp: kinv_def)
  have h: "held s = []" using k assms(2) by (simp add: cpu_ok_def)
  obtain c where c: "cont_root s = Some c" using v by (auto simp: sched_inv_def)
  show ?thesis
  proof (cases "v (LRunq c)")
    case Nil then show ?thesis using scheduler_idle [OF v c _ h] assms(1) by auto
  next
    case (Cons a xs)
    then obtain p where p: "a = PElem p" "p < NPROC"
      using runq_elem [OF v root_live(1,2) [OF v c], of a] by auto
    from scheduler_spec [OF v c, of p xs] Cons p h obtain g where
      g: "scheduler s = Ok (Some p, upd_proc p (\<lambda>r. r\<lparr>state := RUNNING, nsched := nsched r + 1\<rparr>) s
              \<lparr>lh := g, curproc := Some p, held := [LkProc p]\<rparr>)"
         "sched_inv (upd_proc p (\<lambda>r. r\<lparr>state := RUNNING, nsched := nsched r + 1\<rparr>) s
              \<lparr>lh := g, curproc := Some p, held := [LkProc p]\<rparr>) (v(LRunq c := xs))" by auto
    have "cpu_ok (upd_proc p (\<lambda>r. r\<lparr>state := RUNNING, nsched := nsched r + 1\<rparr>) s
              \<lparr>lh := g, curproc := Some p, held := [LkProc p]\<rparr>)"
      using k p assms(2) by (simp add: cpu_ok_None cpu_ok_Some)
    then show ?thesis using g by (auto simp: kinv_def)
  qed
qed

lemma yield_kinv:
  assumes "kinv s" "curproc s = Some p" "held s = []"
  shows "\<exists>t. yield s = Ok t \<and> kinv t"
proof -
  obtain v where v: "sched_inv s v" and k: "cpu_ok s" using assms by (auto simp: kinv_def)
  have p: "p < NPROC" "state (procs s p) = RUNNING" using cpu_ok_kernel [OF k assms(2)] assms(3) by auto
  obtain c where c: "contp (procs s p) = Some c" using sleeping_contp [OF v p(1)] p(2) by auto
  from yield_spec [OF v assms(2) p c assms(3)] obtain h where
    h: "yield s = Ok (upd_proc p (\<lambda>r. r\<lparr>state := RUNNABLE\<rparr>) s\<lparr>lh := h, held := [LkProc p]\<rparr>)"
       "sched_inv (upd_proc p (\<lambda>r. r\<lparr>state := RUNNABLE\<rparr>) s\<lparr>lh := h, held := [LkProc p]\<rparr>) (set_queue v c p)" by blast
  have "cpu_ok (upd_proc p (\<lambda>r. r\<lparr>state := RUNNABLE\<rparr>) s\<lparr>lh := h, held := [LkProc p]\<rparr>)"
    using k assms(2) p by (simp add: cpu_ok_Some)
  then show ?thesis using h by (auto simp: kinv_def)
qed

lemma sleep_kinv:
  assumes "kinv s" "curproc s = Some p" "held s = []" "\<not> table_lock lk"
  shows "\<exists>t. bindR (acquire lk s) (sleep ch lk) = Ok t \<and> kinv t"
proof -
  obtain v where v: "sched_inv s v" and k: "cpu_ok s" using assms by (auto simp: kinv_def)
  have p: "p < NPROC" "state (procs s p) = RUNNING" using cpu_ok_kernel [OF k assms(2)] assms(3) by auto
  let ?s = "s\<lparr>held := [lk]\<rparr>"
  have l: "lk \<noteq> LkProc p" using assms(4) by auto
  have "sched_inv ?s v" using v by simp
  from sleep_spec [OF this, of p lk ch] assms(2) p l
  have "sleep ch lk ?s = Ok (upd_proc p (\<lambda>r. r\<lparr>chan := Some ch, state := SLEEPING\<rparr>) ?s\<lparr>held := [LkProc p]\<rparr>)"
    "sched_inv (upd_proc p (\<lambda>r. r\<lparr>chan := Some ch, state := SLEEPING\<rparr>) ?s\<lparr>held := [LkProc p]\<rparr>) v" by auto
  moreover have "cpu_ok (upd_proc p (\<lambda>r. r\<lparr>chan := Some ch, state := SLEEPING\<rparr>) ?s\<lparr>held := [LkProc p]\<rparr>)"
    using k assms(2) p by (simp add: cpu_ok_Some)
  ultimately show ?thesis using assms(3) by (auto simp: kinv_def)
qed

lemma resume_yield_kinv:
  assumes "kinv s" "curproc s = Some p" "held s = [LkProc p]" "state (procs s p) = RUNNING"
  shows "\<exists>t. yield_resume s = Ok t \<and> kinv t"
  using assms by (auto simp: kinv_def cpu_ok_Some yield_resume_def myproc_def deref_def)

lemma resume_sleep_kinv:
  assumes "kinv s" "curproc s = Some p" "held s = [LkProc p]" "state (procs s p) = RUNNING" "\<not> table_lock lk"
  shows "\<exists>t. bindR (sleep_resume lk s) (release lk) = Ok t \<and> kinv t"
proof -
  obtain v where v: "sched_inv s v" and k: "cpu_ok s" using assms by (auto simp: kinv_def)
  have l: "lk \<noteq> LkProc p" using assms(5) by auto
  note r = sleep_resume_spec [OF v assms(2) cpu_ok_kernel(1) [OF k assms(2)] assms(3) l]
  let ?t = "upd_proc p (\<lambda>r. r\<lparr>chan := None\<rparr>) s\<lparr>held := []\<rparr>"
  have "cpu_ok ?t" using k assms(2,4) by (simp add: cpu_ok_Some)
  moreover have "sched_inv ?t v" using r(2) by simp
  ultimately show ?thesis using r(1) by (auto simp: kinv_def)
qed

lemma back_kinv:
  assumes "kinv s" "curproc s = Some p" "held s = [LkProc p]" "state (procs s p) \<noteq> RUNNING"
  shows "\<exists>t. scheduler_back p s = Ok t \<and> kinv t"
  using assms by (auto simp: kinv_def cpu_ok_def scheduler_back_def)

lemma wakeup_kinv:
  assumes "kinv s" "held s = []"
  shows "\<exists>t. wakeup ch s = Ok t \<and> kinv t"
proof -
  obtain v where v: "sched_inv s v" and k: "cpu_ok s" using assms by (auto simp: kinv_def)
  from wakeup_spec [OF v no_locks [OF assms(2)], of ch] obtain h where
    h: "wakeup ch s = Ok (make_runnable (sleepers ch s) s\<lparr>lh := h\<rparr>)"
       "\<exists>w. sched_inv (make_runnable (sleepers ch s) s\<lparr>lh := h\<rparr>) w" by blast
  have "cpu_ok (make_runnable (sleepers ch s) s\<lparr>lh := h\<rparr>)"
    using k by (auto simp: cpu_ok_def sleepers_def split: option.splits)
  then show ?thesis using h by (auto simp: kinv_def)
qed

lemma setkilled_kinv:
  assumes "kinv s" "LkProc p \<notin> set (held s)"
  shows "\<exists>t. setkilled p s = Ok t \<and> kinv t"
  using assms setkilled_inv [of s _ p 1]
  by (auto simp: setkilled_spec kinv_def cpu_ok_def split: option.splits)

lemma kill_kinv:
  assumes "kinv s" "held s = []"
  shows "\<exists>r t. kill q s = Ok (r, t) \<and> kinv t"
proof (cases "\<forall>i<NPROC. pid (procs s i) \<noteq> q")
  case True then show ?thesis using kill_none [OF no_locks] assms by auto
next
  case False
  obtain v where v: "sched_inv s v" and k: "cpu_ok s" using assms by (auto simp: kinv_def)
  from False obtain p where p: "p < NPROC" "pid (procs s p) = q" and m: "\<forall>i<p. pid (procs s i) \<noteq> q"
    using first_index [of NPROC "\<lambda>i. pid (procs s i) = q"] by blast
  show ?thesis
  proof (cases "state (procs s p) = SLEEPING")
    case True
    obtain c where c: "contp (procs s p) = Some c" using sleeping_contp [OF v p(1)] True by auto
    let ?t = "\<lambda>h. upd_proc p (\<lambda>r. r\<lparr>killed_flag := 1, state := RUNNABLE\<rparr>) s\<lparr>lh := h\<rparr>"
    from kill_asleep [OF v no_locks [OF assms(2)] p m True c] obtain h where
      h: "kill q s = Ok (0, ?t h)" "sched_inv (?t h) (set_queue v c p)" by blast
    have "cpu_ok (?t h)" using k True assms(2) by (auto simp: cpu_ok_def split: option.splits)
    then show ?thesis using h by (auto simp: kinv_def)
  next
    case False
    have "cpu_ok (upd_proc p (\<lambda>r. r\<lparr>killed_flag := 1\<rparr>) s)" using k by (auto simp: cpu_ok_def split: option.splits)
    then show ?thesis
      using kill_awake [OF no_locks [OF assms(2)] p m False] setkilled_inv [OF v] by (auto simp: kinv_def)
  qed
qed

lemma kstep_kinv:
  assumes "kstep s t" "kinv s"
  shows "kinv t"
  using assms
proof (cases rule: kstep.cases)
  case (pick p) then show ?thesis using scheduler_kinv [OF assms(2)] by auto
next
  case (resume_yield p) then show ?thesis using resume_yield_kinv [OF assms(2)] by auto
next
  case (resume_sleep p lk) then show ?thesis using resume_sleep_kinv [OF assms(2), of p lk] by auto
next
  case (do_yield p) then show ?thesis using yield_kinv [OF assms(2)] by auto
next
  case (do_sleep p lk ch) then show ?thesis using sleep_kinv [OF assms(2), of p lk ch] by auto
next
  case (switch_back p) then show ?thesis using back_kinv [OF assms(2), of p] by auto
next
  case (do_wakeup ch) then show ?thesis using wakeup_kinv [OF assms(2), of ch] by auto
next
  case (do_kill q r) then show ?thesis using kill_kinv [OF assms(2), of q] by auto
next
  case (do_setkilled p) then show ?thesis using setkilled_kinv [OF assms(2), of p] by auto
qed

lemma kreach_kinv: "kstep\<^sup>*\<^sup>* s t \<Longrightarrow> kinv s \<Longrightarrow> kinv t"
  by (induction rule: rtranclp_induct) (auto intro: kstep_kinv)

text \<open>Once booted the machine never stops on a panic: what a state allows next returns.\<close>

lemma kinv_progress:
  assumes k: "kinv s"
  shows "curproc s = None \<Longrightarrow> \<exists>r t. scheduler s = Ok (r, t)"
    "curproc s = Some p \<Longrightarrow> held s \<noteq> [] \<Longrightarrow> state (procs s p) \<noteq> RUNNING \<Longrightarrow> \<exists>t. scheduler_back p s = Ok t"
    "curproc s = Some p \<Longrightarrow> held s \<noteq> [] \<Longrightarrow> state (procs s p) = RUNNING \<Longrightarrow> \<exists>t. yield_resume s = Ok t"
    "curproc s = Some p \<Longrightarrow> held s = [] \<Longrightarrow> \<exists>t. yield s = Ok t"
    "held s = [] \<Longrightarrow> \<exists>t. wakeup ch s = Ok t" "held s = [] \<Longrightarrow> \<exists>r t. kill q s = Ok (r, t)"
proof -
  have h: "held s = [LkProc p]" if "curproc s = Some p" "held s \<noteq> []"
    using k that by (auto simp: kinv_def cpu_ok_def)
  show "curproc s = None \<Longrightarrow> \<exists>r t. scheduler s = Ok (r, t)" using scheduler_kinv [OF k] by blast
  show "curproc s = Some p \<Longrightarrow> held s \<noteq> [] \<Longrightarrow> state (procs s p) \<noteq> RUNNING \<Longrightarrow> \<exists>t. scheduler_back p s = Ok t"
    using back_kinv [OF k] h by blast
  show "curproc s = Some p \<Longrightarrow> held s \<noteq> [] \<Longrightarrow> state (procs s p) = RUNNING \<Longrightarrow> \<exists>t. yield_resume s = Ok t"
    using resume_yield_kinv [OF k] h by blast
  show "curproc s = Some p \<Longrightarrow> held s = [] \<Longrightarrow> \<exists>t. yield s = Ok t" using yield_kinv [OF k] by blast
  show "held s = [] \<Longrightarrow> \<exists>t. wakeup ch s = Ok t" using wakeup_kinv [OF k] by blast
  show "held s = [] \<Longrightarrow> \<exists>r t. kill q s = Ok (r, t)" using kill_kinv [OF k] by blast
qed

section \<open>Round robin\<close>

text \<open>
  One time slice: the scheduler picks a process, which resumes after its last \<open>yield\<close>, yields
  again and hands the CPU back.  The result is the process that ran.
\<close>

definition rr_turn :: "sst \<Rightarrow> (nat option \<times> sst) res" where
  "rr_turn s =
     bindR (scheduler s) (\<lambda>(po, s).
     case po of None \<Rightarrow> Ok (None, s)
     | Some p \<Rightarrow> bindR (yield_resume s) (\<lambda>s. bindR (yield s) (\<lambda>s. bindR (scheduler_back p s) (\<lambda>s. Ok (Some p, s)))))"

primrec rr_turns :: "nat \<Rightarrow> sst \<Rightarrow> (nat option list \<times> sst) res" where
  "rr_turns 0 s = Ok ([], s)"
| "rr_turns (Suc n) s = bindR (rr_turn s) (\<lambda>(p, s). bindR (rr_turns n s) (\<lambda>(ps, s). Ok (p # ps, s)))"

lemma rr_turn_spec:
  assumes inv: "sched_inv s v" and r: "cont_root s = Some c" "v (LRunq c) = PElem p # xs" and lk: "held s = []"
  shows "\<exists>t. rr_turn s = Ok (Some p, t) \<and> sched_inv t (v(LRunq c := xs @ [PElem p])) \<and>
    cont_root t = Some c \<and> held t = [] \<and> curproc t = None"
proof -
  let ?f = "\<lambda>r. r\<lparr>state := RUNNING, nsched := nsched r + 1\<rparr>"
  from scheduler_spec [OF inv r lk] obtain h where
    h: "scheduler s = Ok (Some p, upd_proc p ?f s\<lparr>lh := h, curproc := Some p, held := [LkProc p]\<rparr>)"
       "sched_inv (upd_proc p ?f s\<lparr>lh := h, curproc := Some p, held := [LkProc p]\<rparr>) (v(LRunq c := xs))" by blast
  have p: "p < NPROC" "contp (procs s p) = Some c"
    using runq_elem [OF inv root_live(1,2) [OF inv r(1)], of "PElem p"] r(2) by auto
  let ?t = "upd_proc p ?f s\<lparr>lh := h, curproc := Some p, held := []\<rparr>"
  have t: "sched_inv ?t (v(LRunq c := xs))" using h(2) by simp
  have y: "yield_resume (upd_proc p ?f s\<lparr>lh := h, curproc := Some p, held := [LkProc p]\<rparr>) = Ok ?t"
    by (simp add: yield_resume_def myproc_def deref_def)
  from yield_spec [OF t, of p c] p obtain g where
    g: "yield ?t = Ok (upd_proc p (\<lambda>r. r\<lparr>state := RUNNABLE\<rparr>) ?t\<lparr>lh := g, held := [LkProc p]\<rparr>)"
       "sched_inv (upd_proc p (\<lambda>r. r\<lparr>state := RUNNABLE\<rparr>) ?t\<lparr>lh := g, held := [LkProc p]\<rparr>)
          (set_queue (v(LRunq c := xs)) c p)" by auto
  let ?u = "upd_proc p (\<lambda>r. r\<lparr>state := RUNNABLE\<rparr>) ?t\<lparr>lh := g, curproc := None, held := []\<rparr>"
  have "rr_turn s = Ok (Some p, ?u)"
    by (simp only: rr_turn_def h(1) bindR.simps y g(1) prod.case option.case)
      (simp add: scheduler_back_def)
  moreover have "sched_inv ?u (v(LRunq c := xs @ [PElem p]))" using g(2) by (simp add: set_queue_def)
  ultimately show ?thesis using r(1) by auto
qed

lemma rr_turns_spec:
  assumes "sched_inv s v" "cont_root s = Some c" "v (LRunq c) = map PElem ps" "ps \<noteq> []" "held s = []"
  shows "\<exists>t. rr_turns n s = Ok (map (\<lambda>k. Some (ps ! (k mod length ps))) [0..<n], t) \<and>
    sched_inv t (v(LRunq c := map PElem (rotate n ps))) \<and> cont_root t = Some c \<and> held t = []"
  using assms
proof (induction n arbitrary: s v ps)
  case 0
  then have "v(LRunq c := map PElem ps) = v" by auto
  then show ?case using 0 by auto
next
  case (Suc n)
  obtain p qs where ps: "ps = p # qs" using Suc.prems(4) by (cases ps) auto
  from rr_turn_spec [OF Suc.prems(1,2), of p "map PElem qs"] Suc.prems ps obtain t where
    t: "rr_turn s = Ok (Some p, t)" "sched_inv t (v(LRunq c := map PElem (qs @ [p])))" "cont_root t = Some c" "held t = []"
    by auto
  have "(v(LRunq c := map PElem (qs @ [p]))) (LRunq c) = map PElem (qs @ [p])" by simp
  from Suc.IH [OF t(2,3) this] t(4) obtain u where
    u: "rr_turns n t = Ok (map (\<lambda>k. Some ((qs @ [p]) ! (k mod length (qs @ [p])))) [0..<n], u)"
       "sched_inv u (v(LRunq c := map PElem (rotate n (qs @ [p]))))" "cont_root u = Some c" "held u = []"
    by (auto simp del: fun_upd_apply)
  have "(qs @ [p]) ! (k mod length (qs @ [p])) = ps ! (Suc k mod length ps)" for k
  proof -
    have "k mod Suc (length qs) < length qs \<or> k mod Suc (length qs) = length qs"
      by (simp add: less_Suc_eq [symmetric])
    then show ?thesis by (auto simp: ps nth_append nth_Cons' mod_Suc)
  qed
  then have "rr_turns (Suc n) s = Ok (map (\<lambda>k. Some (ps ! (k mod length ps))) [0..<Suc n], u)"
    using t(1) u(1) by (simp add: ps map_upt_Suc del: upt_Suc)
  moreover have "rotate (Suc n) ps = rotate n (qs @ [p])" by (simp add: ps rotate1_rotate_swap)
  ultimately show ?case using u(2-4) by (intro exI [of _ u]) (simp only: simp_thms)
qed

section \<open>States that satisfy the invariant\<close>

text \<open>Any finite assignment of disjoint element lists is represented by some heap.\<close>

lemma lists_ok_realise1:
  assumes ok: "lists_ok V h v" and l: "l \<in> V" "v l = []" and d: "distinct xs"
    and e: "\<And>a. a \<in> set xs \<Longrightarrow> is_elem a" "\<And>a k. a \<in> set xs \<Longrightarrow> k \<in> V \<Longrightarrow> a \<notin> set (v k)"
  shows "\<exists>g. lists_ok V g (v(l := xs))"
  using d e
proof (induction xs rule: rev_induct)
  case Nil
  have "v(l := []) = v" using l by auto
  then show ?case using ok by auto
next
  case (snoc a xs)
  have "\<exists>g. lists_ok V g (v(l := xs))" by (rule snoc.IH) (use snoc.prems in auto)
  then obtain g where g: "lists_ok V g (v(l := xs))" by blast
  have "\<exists>h. push_back l a (undefined\<lparr>lh := g\<rparr>) = Ok (undefined\<lparr>lh := g\<rparr>\<lparr>lh := h\<rparr>) \<and>
      lists_ok V h ((v(l := xs))(l := (v(l := xs)) l @ [a]))"
    by (rule push_back_ok) (use g l snoc.prems in auto)
  then have "\<exists>h. lists_ok V h (v(l := xs @ [a]))" by auto
  then show ?case by blast
qed

lemma lists_ok_realise:
  assumes "finite V" "\<And>l a. l \<in> V \<Longrightarrow> a \<in> set (v l) \<Longrightarrow> is_elem a" "\<And>l. l \<in> V \<Longrightarrow> distinct (v l)"
    "\<And>l k a. l \<in> V \<Longrightarrow> k \<in> V \<Longrightarrow> l \<noteq> k \<Longrightarrow> a \<in> set (v l) \<Longrightarrow> a \<notin> set (v k)"
  shows "\<exists>h. lists_ok V h v"
  using assms
proof (induction V rule: finite_induct)
  case empty
  then show ?case by (simp add: lists_ok_def)
next
  case (insert l V)
  have "\<exists>h. lists_ok V h v" by (rule insert.IH) (use insert.prems in \<open>blast+\<close>)
  then obtain h where h: "lists_ok V h v" by blast
  from init_list_ok [OF h insert.hyps(2)] obtain g where g: "lists_ok (insert l V) g (v(l := []))" by blast
  have "\<exists>f. lists_ok (insert l V) f ((v(l := []))(l := v l))"
  proof (rule lists_ok_realise1 [OF g])
    fix a k assume a: "a \<in> set (v l)" "k \<in> insert l V"
    show "a \<notin> set ((v(l := [])) k)" using insert.prems(3) [of l k a] a by (cases "k = l") auto
  qed (use insert.prems in auto)
  then show ?case by simp
qed

subsection \<open>A sample state\<close>

text \<open>
  Three processes in the root container: 0 runs, 1 sleeps on the ticks channel, 2 is runnable.
\<close>

definition sample_proc :: proc where
  "sample_proc = \<lparr>state = UNUSED, chan = None, killed_flag = 0, xstate = 0, pid = 0, parent = None, kstack = 0,
     sz = 0, pagetable = 0, trapframe = 0, ctxt = \<lparr>ra = 0, sp = 0, saved = []\<rparr>, ofile = replicate NOFILE None,
     cwd = None, name = replicate 16 0, nsched = 0, nticks = 0, contp = None\<rparr>"

definition sample_cont :: cont where
  "sample_cont = \<lparr>cstate = UNUSED, cnextpid = 1, cname = replicate 16 0, rootpath = replicate 128 0, rootdir = None,
     max_mem_bytes = 0, max_disk_bytes = 0, used_mem_bytes = 0, used_disk_bytes = 0, cnticks = 0\<rparr>"

definition sample_sst :: "laddr lheap \<Rightarrow> sst" where
  "sample_sst h = \<lparr>procs = (\<lambda>_. sample_proc)
       (0 := sample_proc\<lparr>state := RUNNING, pid := 1, contp := Some 0\<rparr>,
        1 := sample_proc\<lparr>state := SLEEPING, chan := Some ChTicks, pid := 2, contp := Some 0\<rparr>,
        2 := sample_proc\<lparr>state := RUNNABLE, pid := 3, contp := Some 0\<rparr>),
     conts = (\<lambda>_. sample_cont)(0 := sample_cont\<lparr>cstate := USED, cnextpid := 4\<rparr>),
     lh = h, held = [], curproc = Some 0, cont_root = Some 0, initproc = Some 0, cont_init = True, ticks = 0\<rparr>"

definition sample_queues :: "listid \<Rightarrow> laddr list" where
  "sample_queues l =
     (case l of LUnused \<Rightarrow> map PElem [3..<NPROC] | LContUnused \<Rightarrow> map CElem [1..<NCONT] | LContRun \<Rightarrow> [CElem 0]
      | LRun \<Rightarrow> [] | LProcs c \<Rightarrow> (if c = 0 then [PElemC 0, PElemC 1, PElemC 2] else [])
      | LRunq c \<Rightarrow> (if c = 0 then [PElem 2] else []))"

lemma sample_conts: "cstate (conts (sample_sst h) c) = (if c = 0 then USED else UNUSED)"
  by (simp add: sample_sst_def sample_cont_def)

lemma sample_procs:
  "state (procs (sample_sst h) i) = (if i = 0 then RUNNING else if i = 1 then SLEEPING else if i = 2 then RUNNABLE else UNUSED)"
  "contp (procs (sample_sst h) i) = (if i < 3 then Some 0 else None)"
  "pid (procs (sample_sst h) i) = (if i < 3 then of_nat i + 1 else 0)"
  "chan (procs (sample_sst h) i) = (if i = 1 then Some ChTicks else None)"
  by (auto simp: sample_sst_def sample_proc_def less_Suc_eq numeral_3_eq_3)

lemma sample_sel [simp]:
  "held (sample_sst h) = []" "curproc (sample_sst h) = Some 0" "cont_root (sample_sst h) = Some 0" "lh (sample_sst h) = h"
  by (simp_all add: sample_sst_def)

lemma sample_live: "live (sample_sst h) = {LUnused, LRun, LContUnused, LContRun, LProcs 0, LRunq 0}"
  by (auto simp: live_def sample_conts NCONT_def)

lemma sample_inv: "\<exists>h. sched_inv (sample_sst h) sample_queues"
proof -
  let ?V = "{LUnused, LRun, LContUnused, LContRun, LProcs 0, LRunq 0}"
  have "\<exists>h. lists_ok ?V h sample_queues"
    by (rule lists_ok_realise) (auto simp: sample_queues_def distinct_map inj_on_def)
  then obtain h where h: "lists_ok ?V h sample_queues" by blast
  have sets: "{i. i < NPROC \<and> state (procs (sample_sst h) i) = UNUSED} = {3..<NPROC}"
    "{c. c < NCONT \<and> cstate (conts (sample_sst h) c) = UNUSED} = {1..<NCONT}"
    "{c. c < NCONT \<and> cstate (conts (sample_sst h) c) = USED} = {0}"
    "{i. i < NPROC \<and> state (procs (sample_sst h) i) = RUNNABLE \<and> contp (procs (sample_sst h) i) = Some 0} = {2}"
    "{i. i < NPROC \<and> contp (procs (sample_sst h) i) = Some 0} = {0, 1, 2}"
    by (auto simp: sample_procs sample_conts NPROC_def NCONT_def split: if_splits)
  have N: "3 < NPROC" by (simp add: NPROC_def)
  have "sched_inv (sample_sst h) sample_queues"
    unfolding sched_inv_def sample_live sets sample_sel
    using h by (auto simp: sample_queues_def sample_conts sets sample_procs NCONT_def image_iff intro: less_trans [OF _ N] split: if_splits)
  then show ?thesis by blast
qed

lemma sample_kinv: "\<exists>h. kinv (sample_sst h)"
  using sample_inv by (auto simp: kinv_def cpu_ok_Some sample_procs NPROC_def)


section \<open>Properties\<close>

text \<open>
  \<open>procinit\<close> on zeroed tables succeeds and establishes the invariant of the tables: all
  processes on the unused list in index order, container 0 is the root container and the only
  used one, the others are on the container unused list, no lock is held.
\<close>

theorem procinit_correct:
  assumes "held s = []" "\<And>i. i < NPROC \<Longrightarrow> contp (procs s i) = None"
  shows "\<exists>t. procinit s = Ok t \<and> sched_inv t boot_queues \<and> held t = []"
  using assms by (rule procinit_inv)

theorem procinit_correct_witness:
  "\<exists>t. procinit \<lparr>procs = (\<lambda>_. sample_proc), conts = (\<lambda>_. sample_cont), lh = (\<lambda>_. \<lparr>prv = None, nxt = None\<rparr>), held = [],
      curproc = None, cont_root = None, initproc = None, cont_init = False, ticks = 0\<rparr> = Ok t \<and>
    sched_inv t boot_queues \<and> held t = []"
  by (rule procinit_correct) (simp_all add: sample_proc_def)

text \<open>
  C7.  \<open>wakeup(chan)\<close> makes runnable exactly the processes that sleep on \<open>chan\<close> (the caller
  apart), appends each, in table order, to the run list of its own container, changes nothing
  else of any process, releases every lock it took, and keeps the invariant.
\<close>

theorem wakeup_correct:
  assumes "sched_inv s v" "no_table_locks s"
  shows "\<exists>h. wakeup ch s = Ok (make_runnable (sleepers ch s) s\<lparr>lh := h\<rparr>) \<and>
    sched_inv (make_runnable (sleepers ch s) s\<lparr>lh := h\<rparr>)
      (enqueue_all s (filter (\<lambda>i. i \<in> sleepers ch s) [0..<NPROC]) v)"
  using assms by (rule wakeup_spec)

theorem wakeup_correct_witness:
  "\<exists>h g. sched_inv (sample_sst h) sample_queues \<and>
     wakeup (Some ChTicks) (sample_sst h) = Ok (make_runnable {1} (sample_sst h)\<lparr>lh := g\<rparr>)"
proof -
  obtain h where h: "sched_inv (sample_sst h) sample_queues" using sample_inv by blast
  have "sleepers (Some ChTicks) (sample_sst h) = {1}"
    by (auto simp: sleepers_def sample_procs NPROC_def split: if_splits)
  then show ?thesis using h wakeup_correct [OF h, of "Some ChTicks"] by (auto simp: no_locks)
qed

text \<open>
  C6.  Safety of the scheduling state machine: from a state where the invariant holds, every state
  reachable by any interleaving of scheduler picks, resumptions, yields, sleeps, wakeups and
  kills satisfies it again: queues are well formed and hold exactly the runnable processes, at
  most the current process is running, and outside a context switch no lock is left held.
\<close>

theorem scheduling_safe:
  assumes "kinv s" "kstep\<^sup>*\<^sup>* s t"
  shows "\<exists>v. sched_inv t v \<and>
    (\<forall>i<NPROC. state (procs t i) = RUNNING \<longrightarrow> curproc t = Some i) \<and>
    (\<forall>i<NPROC. state (procs t i) = RUNNABLE \<longrightarrow> (\<exists>c. contp (procs t i) = Some c \<and> PElem i \<in> set (v (LRunq c)))) \<and>
    (curproc t = None \<longrightarrow> held t = [])"
proof -
  have k: "kinv t" using kreach_kinv [OF assms(2,1)] .
  then obtain v where v: "sched_inv t v" and c: "cpu_ok t" by (auto simp: kinv_def)
  have "\<exists>c. contp (procs t i) = Some c \<and> PElem i \<in> set (v (LRunq c))" if i: "i < NPROC" "state (procs t i) = RUNNABLE" for i
  proof -
    obtain c where c: "contp (procs t i) = Some c" using sleeping_contp [OF v i(1)] i(2) by auto
    then have "set (v (LRunq c)) = PElem ` {i. i < NPROC \<and> state (procs t i) = RUNNABLE \<and> contp (procs t i) = Some c}"
      using live_runq [OF v i(1) c] v unfolding sched_inv_def by blast
    then show ?thesis using c i by auto
  qed
  then show ?thesis using v c cpu_ok_running [OF c] by (auto simp: cpu_ok_None)
qed

theorem scheduling_safe_witness:
  "\<exists>h t. kinv (sample_sst h) \<and> kstep (sample_sst h) t \<and> (\<exists>v. sched_inv t v) \<and> state (procs t 1) = RUNNABLE"
proof -
  obtain h where h: "kinv (sample_sst h)" using sample_kinv by blast
  then obtain v where v: "sched_inv (sample_sst h) v" by (auto simp: kinv_def)
  obtain g where g: "wakeup (Some ChTicks) (sample_sst h) = Ok (make_runnable (sleepers (Some ChTicks) (sample_sst h)) (sample_sst h)\<lparr>lh := g\<rparr>)"
    using wakeup_spec [OF v no_locks] by fastforce
  let ?t = "make_runnable (sleepers (Some ChTicks) (sample_sst h)) (sample_sst h)\<lparr>lh := g\<rparr>"
  have s: "kstep (sample_sst h) ?t" using g by (intro do_wakeup [of _ "Some ChTicks"]) simp_all
  moreover have "\<exists>v. sched_inv ?t v" using scheduling_safe [OF h r_into_rtranclp [of kstep, OF s]] by blast
  moreover have "state (procs ?t 1) = RUNNABLE" by (simp add: sleepers_def sample_procs NPROC_def)
  ultimately show ?thesis using h by blast
qed



text \<open>
  C14.  Round robin: while the processes of the root container only yield, \<open>n\<close> time slices run them
  in cyclic order, so each runs once in every \<open>length\<close> slices, and the queue ends rotated.
\<close>

theorem round_robin:
  assumes "sched_inv s v" "cont_root s = Some c" "v (LRunq c) = map PElem ps" "ps \<noteq> []" "held s = []"
  shows "\<exists>t. rr_turns n s = Ok (map (\<lambda>k. Some (ps ! (k mod length ps))) [0..<n], t) \<and>
    sched_inv t (v(LRunq c := map PElem (rotate n ps))) \<and> cont_root t = Some c \<and> held t = []"
  using assms by (rule rr_turns_spec)

theorem round_robin_witness:
  "\<exists>h t. sched_inv (sample_sst h) sample_queues \<and> rr_turns 2 (sample_sst h) = Ok ([Some 2, Some 2], t)"
proof -
  obtain h where h: "sched_inv (sample_sst h) sample_queues" using sample_inv by blast
  from round_robin [OF h, of 0 "[2]" 2] show ?thesis using h by (auto simp: sample_queues_def upt_rec)
qed

text \<open>
  \<open>kill(pid)\<close> marks the first table entry with that pid and no other; when it sleeps it becomes
  runnable at the end of its container's run list, so that it can exit; the result is 0.  With no
  such entry the result is \<open>-1\<close> and nothing changes.  The invariant is kept.
\<close>

theorem kill_correct:
  assumes "sched_inv s v" "no_table_locks s"
  shows "(kill q s = Ok (-1, s) \<and> (\<forall>i<NPROC. pid (procs s i) \<noteq> q)) \<or>
    (\<exists>p<NPROC. pid (procs s p) = q \<and> (\<forall>i<p. pid (procs s i) \<noteq> q) \<and>
      (if state (procs s p) = SLEEPING
       then \<exists>c h. contp (procs s p) = Some c \<and>
         kill q s = Ok (0, upd_proc p (\<lambda>r. r\<lparr>killed_flag := 1, state := RUNNABLE\<rparr>) s\<lparr>lh := h\<rparr>) \<and>
         sched_inv (upd_proc p (\<lambda>r. r\<lparr>killed_flag := 1, state := RUNNABLE\<rparr>) s\<lparr>lh := h\<rparr>) (set_queue v c p)
       else kill q s = Ok (0, upd_proc p (\<lambda>r. r\<lparr>killed_flag := 1\<rparr>) s) \<and>
         sched_inv (upd_proc p (\<lambda>r. r\<lparr>killed_flag := 1\<rparr>) s) v))"
proof (cases "\<exists>i<NPROC. pid (procs s i) = q")
  case False
  then show ?thesis using kill_none [OF assms(2)] by auto
next
  case True
  then obtain p where p: "p < NPROC" "pid (procs s p) = q" "\<forall>i<p. pid (procs s i) \<noteq> q"
    using first_index [of NPROC "\<lambda>i. pid (procs s i) = q"] by blast
  show ?thesis
  proof (cases "state (procs s p) = SLEEPING")
    case True
    then obtain c where "contp (procs s p) = Some c" using sleeping_contp [OF assms(1) p(1)] by auto
    then show ?thesis using kill_asleep [OF assms p True] p True by auto
  next
    case False
    then show ?thesis using kill_awake [OF assms(2) p] setkilled_inv [OF assms(1)] p by auto
  qed
qed

theorem kill_correct_witness:
  "\<exists>h g. sched_inv (sample_sst h) sample_queues \<and> kill 9 (sample_sst h) = Ok (-1, sample_sst h) \<and>
     kill 2 (sample_sst h) = Ok (0, upd_proc 1 (\<lambda>r. r\<lparr>killed_flag := 1, state := RUNNABLE\<rparr>) (sample_sst h)\<lparr>lh := g\<rparr>)"
proof -
  obtain h where h: "sched_inv (sample_sst h) sample_queues" using sample_inv by blast
  let ?s = "sample_sst h"
  have n: "no_table_locks ?s" by (simp add: no_locks)
  have p9: "pid (procs ?s i) \<noteq> 9" for i
    by (cases "i \<in> {0, 1, 2}") (auto simp: sample_procs)
  have p2: "pid (procs ?s i) = 2 \<longleftrightarrow> i = 1" for i
    by (cases "i \<in> {0, 1, 2}") (auto simp: sample_procs)
  from kill_correct [OF h n, of 9] p9 have "kill 9 ?s = Ok (-1, ?s)" by auto
  moreover from kill_correct [OF h n, of 2] p2
  have "\<exists>g. kill 2 ?s = Ok (0, upd_proc 1 (\<lambda>r. r\<lparr>killed_flag := 1, state := RUNNABLE\<rparr>) ?s\<lparr>lh := g\<rparr>)"
    by (auto simp: sample_procs(1,2) NPROC_def dest: spec [of _ 1])
  ultimately show ?thesis using h by blast
qed

text \<open>
  A pid does not protect a free slot: \<open>kill(0)\<close> succeeds on the first unused entry and leaves it
  marked as killed, although no process has pid 0.
\<close>

theorem kill_zero_marks_unused:
  assumes "sched_inv s v" "no_table_locks s" "p < NPROC" "state (procs s p) = UNUSED" "pid (procs s p) = 0"
    "\<forall>i<p. pid (procs s i) \<noteq> 0"
  shows "kill 0 s = Ok (0, upd_proc p (\<lambda>r. r\<lparr>killed_flag := 1\<rparr>) s)"
  using kill_awake [OF assms(2,3,5,6)] assms(4) by simp

theorem kill_zero_marks_unused_witness:
  "\<exists>h. sched_inv (sample_sst h) sample_queues \<and>
     kill 0 (sample_sst h) = Ok (0, upd_proc 3 (\<lambda>r. r\<lparr>killed_flag := 1\<rparr>) (sample_sst h))"
proof -
  obtain h where h: "sched_inv (sample_sst h) sample_queues" using sample_inv by blast
  have "pid (procs (sample_sst h) i) \<noteq> 0" if "i < 3" for i
    using that by (cases "i \<in> {0, 1, 2}") (auto simp: sample_procs)
  then show ?thesis using kill_zero_marks_unused [OF h no_locks, of 3] h by (auto simp: sample_procs NPROC_def)
qed

text \<open>
  Only the root container is scheduled: when its run list is empty the scheduler idles,
  whatever the run lists of the other containers hold.
\<close>

theorem scheduler_root_only:
  assumes "sched_inv s v" "cont_root s = Some r" "v (LRunq r) = []" "held s = []"
  shows "scheduler s = Ok (None, s)"
  using assms by (rule scheduler_idle)

theorem scheduler_root_only_witness:
  "\<exists>t. procinit (sample_sst (\<lambda>_. \<lparr>prv = None, nxt = None\<rparr>)
      \<lparr>procs := (\<lambda>_. sample_proc), curproc := None\<rparr>) = Ok t \<and> scheduler t = Ok (None, t)"
proof -
  obtain t where t: "procinit (sample_sst (\<lambda>_. \<lparr>prv = None, nxt = None\<rparr>)\<lparr>procs := (\<lambda>_. sample_proc), curproc := None\<rparr>) = Ok t"
    "sched_inv t boot_queues" "held t = []"
    using procinit_inv [of "sample_sst (\<lambda>_. \<lparr>prv = None, nxt = None\<rparr>)\<lparr>procs := (\<lambda>_. sample_proc), curproc := None\<rparr>"]
    by (auto simp: sample_proc_def)
  obtain r where r: "cont_root t = Some r" using t(2) by (auto simp: sched_inv_def)
  have "boot_queues (LRunq r) = []" by (simp add: boot_queues_def)
  then show ?thesis using scheduler_root_only [OF t(2) r _ t(3)] t(1) by blast
qed

text \<open>
  Pids of one container are handed out consecutively from its \<open>nextpid\<close>, so the first
  \<open>2 ^ 32\<close> of them are distinct; the counters of other containers are not touched.
\<close>

theorem allocpid_correct:
  assumes "LkCont c \<notin> set (held s)"
  shows "\<exists>ps t. allocpids n c s = Ok (ps, t) \<and> length ps = n \<and>
    (\<forall>k<n. ps ! k = cnextpid (conts s c) + of_nat k) \<and> (n \<le> 2 ^ 32 \<longrightarrow> distinct ps) \<and>
    held t = held s \<and> (\<forall>d. d \<noteq> c \<longrightarrow> conts t d = conts s d)"
proof -
  have "distinct (map (\<lambda>k. cnextpid (conts s c) + of_nat k) [0..<n])" if "n \<le> 2 ^ 32"
    using that by (auto simp: distinct_map inj_on_def word_of_nat_eq_iff take_bit_nat_eq_self)
  then show ?thesis using allocpids_spec [OF assms, of n] by auto
qed

theorem allocpid_correct_witness:
  "\<exists>ps t. allocpids 3 0 (sample_sst (\<lambda>_. \<lparr>prv = None, nxt = None\<rparr>)) = Ok (ps, t) \<and> ps ! 2 = 6 \<and> distinct ps"
  using allocpid_correct [of 0 "sample_sst (\<lambda>_. \<lparr>prv = None, nxt = None\<rparr>)" 3]
  by (auto simp: sample_sst_def)

text \<open>A new container, once on the container run list, keeps the invariant.\<close>

lemma sched_invD:
  assumes "sched_inv s v"
  shows "set (v LUnused) = PElem ` {i. i < NPROC \<and> state (procs s i) = UNUSED}"
    "set (v LContUnused) = CElem ` {c. c < NCONT \<and> cstate (conts s c) = UNUSED}"
    "set (v LContRun) = CElem ` {c. c < NCONT \<and> cstate (conts s c) = USED}"
    "v LRun = []"
  using assms unfolding sched_inv_def by - (elim conjE, assumption)+

lemma sched_inv_used:
  assumes "sched_inv s v" "c < NCONT" "cstate (conts s c) = USED"
  shows "set (v (LRunq c)) = PElem ` {i. i < NPROC \<and> state (procs s i) = RUNNABLE \<and> contp (procs s i) = Some c}"
    "set (v (LProcs c)) = PElemC ` {i. i < NPROC \<and> contp (procs s i) = Some c}"
  using assms unfolding sched_inv_def by - (elim conjE, simp)+

lemma inv_not_live:
  assumes "sched_inv s v" "v LContUnused = CElem c # cs"
  shows "c < NCONT" "cstate (conts s c) = UNUSED" "LProcs c \<notin> live s" "LRunq c \<notin> live s"
proof -
  have "CElem c \<in> CElem ` {c. c < NCONT \<and> cstate (conts s c) = UNUSED}"
    using sched_invD(2) [OF assms(1)] assms(2) by (metis list.set_intros(1))
  then show "c < NCONT" "cstate (conts s c) = UNUSED" by auto
  then show "LProcs c \<notin> live s" "LRunq c \<notin> live s" by (auto simp: live_def)
qed

lemma ready_cont_cstate [simp]: "cstate (ready_cont nm mm rd md ip k) = USED" "cstate (fresh_cont nm mm rd ip k) = USED"
  by (simp_all add: ready_cont_def fresh_cont_def Let_def)

lemma ready_cont_inv:
  assumes inv: "sched_inv s v" and q: "v LContUnused = CElem c # cs"
    and ok: "lists_ok (insert (LRunq c) (insert (LProcs c) (live s))) h (v(LContUnused := cs, LProcs c := [], LRunq c := []))"
    and f: "\<And>k. cstate (f k) = USED"
  shows "\<exists>g. push_back LContRun (CElem c) (upd_cont c f s\<lparr>lh := h\<rparr>) = Ok (upd_cont c f s\<lparr>lh := g\<rparr>) \<and>
    sched_inv (upd_cont c f s\<lparr>lh := g\<rparr>) (v(LContUnused := cs, LProcs c := [], LRunq c := [], LContRun := v LContRun @ [CElem c]))"
proof -
  note c = inv_not_live [OF inv q]
  let ?s = "upd_cont c f s\<lparr>lh := h\<rparr>" and ?v = "v(LContUnused := cs, LProcs c := [], LRunq c := [])"
  note su = sched_invD(2,3) [OF inv]
  have d: "distinct (v LContUnused)"
    using dll_distinct [OF lists_ok_D(1) [OF sched_inv_lists [OF inv], of LContUnused]] by (simp add: live_def)
  have cs: "set cs = CElem ` {d. d < NCONT \<and> cstate (conts s d) = UNUSED \<and> d \<noteq> c}" using su(1) d q by auto
  have lv: "live (upd_cont c f s\<lparr>lh := g\<rparr>) = insert (LRunq c) (insert (LProcs c) (live s))" for g
    using c f by (auto simp: live_def)
  have e: "CElem c \<notin> set (?v k)" if "k \<in> insert (LRunq c) (insert (LProcs c) (live s))" for k
    using that su c cs sched_invD(1,4) [OF inv] sched_inv_used [OF inv]
    by (cases "k = LRunq c \<or> k = LProcs c") (auto simp: live_def)
  have "\<exists>g. push_back LContRun (CElem c) ?s = Ok (?s\<lparr>lh := g\<rparr>) \<and>
     lists_ok (insert (LRunq c) (insert (LProcs c) (live s))) g (?v(LContRun := ?v LContRun @ [CElem c]))"
    by (rule push_back_ok) (use ok e in \<open>auto simp: live_def\<close>)
  then obtain g where g: "push_back LContRun (CElem c) ?s = Ok (upd_cont c f s\<lparr>lh := g\<rparr>)"
    "lists_ok (insert (LRunq c) (insert (LProcs c) (live s))) g (?v(LContRun := v LContRun @ [CElem c]))" by auto
  have noc: "contp (procs s i) \<noteq> Some c" if "i < NPROC" for i
    using inv c(2) that unfolding sched_inv_def by auto
  have "sched_inv (upd_cont c f s\<lparr>lh := g\<rparr>) (?v(LContRun := v LContRun @ [CElem c]))"
    using inv g(2) cs su c f noc unfolding sched_inv_def lv by auto
  then show ?thesis using g(1) by blast
qed

text \<open>
  When \<open>alloccont\<close> finds a free container and its root directory exists (or the name starts
  with \<open>root\<close>), the container comes back initialised and, after \<open>cfork\<close> has put it on the
  container run list, the invariant holds again, with empty process and run lists for it.
\<close>

theorem alloccont_correct:
  assumes "sched_inv s v" "v LContUnused = CElem c # cs" "held s = []"
    "take 4 nm = root_name \<or> ip \<noteq> None" "\<forall>t. nr rd t = Ok (ip, t)"
  shows "\<exists>h g. alloccont nr nm mm rd md s = Ok (Some c, upd_cont c (ready_cont nm mm rd md ip) s\<lparr>lh := h\<rparr>) \<and>
    push_back LContRun (CElem c) (upd_cont c (ready_cont nm mm rd md ip) s\<lparr>lh := h\<rparr>)
      = Ok (upd_cont c (ready_cont nm mm rd md ip) s\<lparr>lh := g\<rparr>) \<and>
    sched_inv (upd_cont c (ready_cont nm mm rd md ip) s\<lparr>lh := g\<rparr>)
      (v(LContUnused := cs, LProcs c := [], LRunq c := [], LContRun := v LContRun @ [CElem c]))"
proof -
  note nl = inv_not_live [OF assms(1,2)]
  have "LContUnused \<in> live s" by (simp add: live_def)
  from alloccont_lists [where ip = ip and nr = nr and nm = nm and rd = rd and mm = mm and md = md,
      OF sched_inv_lists [OF assms(1)] this nl(3,4) assms(2)] assms(3-5)
  obtain h where
    h: "lists_ok (insert (LRunq c) (insert (LProcs c) (live s))) h (v(LContUnused := cs, LProcs c := [], LRunq c := []))"
       "alloccont nr nm mm rd md s = Ok (Some c, upd_cont c (ready_cont nm mm rd md ip) s\<lparr>lh := h\<rparr>)"
    by (auto simp: named_root_def)
  from ready_cont_inv [OF assms(1,2) h(1), of "ready_cont nm mm rd md ip"] h(2) show ?thesis by auto
qed

theorem alloccont_correct_witness:
  "\<exists>s h g. sched_inv (sample_sst s) sample_queues \<and>
     alloccont (\<lambda>_ t. Ok (Some 7, t)) [99, 49] 4096 [47, 99] 0 (sample_sst s)
       = Ok (Some 1, upd_cont 1 (ready_cont [99, 49] 4096 [47, 99] 0 (Some 7)) (sample_sst s)\<lparr>lh := h\<rparr>) \<and>
     cstate (conts (upd_cont 1 (ready_cont [99, 49] 4096 [47, 99] 0 (Some 7)) (sample_sst s)\<lparr>lh := g\<rparr>) 1) = USED"
proof -
  obtain s where s: "sched_inv (sample_sst s) sample_queues" using sample_inv by blast
  have "sample_queues LContUnused = CElem 1 # [CElem 2, CElem 3]" by (simp add: sample_queues_def NCONT_def upt_rec)
  from alloccont_correct [where ip = "Some 7" and nr = "\<lambda>_ t. Ok (Some 7, t)" and nm = "[99, 49]" and rd = "[47, 99]"
      and mm = 4096 and md = 0, OF s this] s show ?thesis by auto
qed

text \<open>
  When the root directory of a new container does not exist, \<open>alloccont\<close> returns the null
  pointer with the container's lock still held and the container neither free nor in use: it
  is marked used but on no list, and the next attempt of the process to sleep panics.
\<close>

theorem alloccont_failure_leaks:
  assumes "sched_inv s v" "v LContUnused = CElem c # cs" "held s = []" "curproc s = Some p"
    "take 4 nm \<noteq> root_name" "\<forall>t. nr rd t = Ok (None, t)"
  shows "\<exists>t w. alloccont nr nm mm rd md s = Ok (None, t) \<and> held t = [LkCont c] \<and>
    cstate (conts t c) = USED \<and> lists_ok (live s) (lh t) w \<and> (\<forall>l\<in>live s. CElem c \<notin> set (w l)) \<and>
    (\<forall>lk ch. \<not> table_lock lk \<longrightarrow> bindR (acquire lk t) (sleep ch lk) = Panic ''sched locks'')"
proof -
  note nl = inv_not_live [OF assms(1,2)]
  have u: "LContUnused \<in> live s" by (simp add: live_def)
  from alloccont_lists [where ip = None and nr = nr and nm = nm and rd = rd and mm = mm and md = md,
      OF sched_inv_lists [OF assms(1)] u nl(3,4) assms(2)] assms(3,5,6)
  obtain h where
    h: "lists_ok (insert (LRunq c) (insert (LProcs c) (live s))) h (v(LContUnused := cs, LProcs c := [], LRunq c := []))"
       "alloccont nr nm mm rd md s = Ok (None, upd_cont c (fresh_cont nm mm rd None) s\<lparr>lh := h, held := [LkCont c]\<rparr>)"
    by (auto simp: named_root_def)
  let ?t = "upd_cont c (fresh_cont nm mm rd None) s\<lparr>lh := h, held := [LkCont c]\<rparr>"
  have l: "lists_ok (live s) h (v(LContUnused := cs))"
    by (rule lists_ok_cong [OF lists_ok_subset [OF h(1)]]) (use nl in auto)
  have d: "CElem c \<notin> set cs"
    using dll_distinct [OF lists_ok_D(1) [OF sched_inv_lists [OF assms(1)] u]] assms(2) by simp
  have "CElem c \<notin> set ((v(LContUnused := cs)) k)" if "k \<in> live s" for k
    using lists_ok_D(3) [OF sched_inv_lists [OF assms(1)] u that, of "CElem c"] assms(2) d by (cases "k = LContUnused") auto
  moreover have "bindR (acquire lk ?t) (sleep ch lk) = Panic ''sched locks''" if "\<not> table_lock lk" for lk ch
  proof -
    have ne: "lk \<noteq> LkCont c" "lk \<noteq> LkProc p" using that by auto
    then have "sleep ch lk (?t\<lparr>held := [lk, LkCont c]\<rparr>) = Panic ''sched locks''"
      using assms(4) by (intro sleep_extra_lock [of _ p lk "LkCont c"]) auto
    then show ?thesis using ne by simp
  qed
  ultimately show ?thesis using h(2) l by (intro exI [of _ ?t] exI [of _ "v(LContUnused := cs)"]) simp
qed

theorem alloccont_failure_leaks_witness:
  "\<exists>s t. sched_inv (sample_sst s) sample_queues \<and>
     alloccont (\<lambda>_ t. Ok (None, t)) [99, 49] 4096 [47, 99] 0 (sample_sst s) = Ok (None, t) \<and> held t = [LkCont 1] \<and>
     bindR (acquire LkTicks t) (sleep ChTicks LkTicks) = Panic ''sched locks''"
proof -
  obtain s where s: "sched_inv (sample_sst s) sample_queues" using sample_inv by blast
  have q: "sample_queues LContUnused = CElem 1 # [CElem 2, CElem 3]" by (simp add: sample_queues_def NCONT_def upt_rec)
  have n: "take 4 [99, 49 :: byte] \<noteq> root_name" by (simp add: root_name_def)
  from alloccont_failure_leaks [where nr = "\<lambda>_ t. Ok (None, t)" and nm = "[99, 49]" and rd = "[47, 99]"
      and mm = 4096 and md = 0, OF s q _ _ n]
  obtain t where t: "alloccont (\<lambda>_ t. Ok (None, t)) [99, 49] 4096 [47, 99] 0 (sample_sst s) = Ok (None, t)" "held t = [LkCont 1]"
    "\<forall>lk ch. \<not> table_lock lk \<longrightarrow> bindR (acquire lk t) (sleep ch lk) = Panic ''sched locks''" by auto
  then have "bindR (acquire LkTicks t) (sleep ChTicks LkTicks) = Panic ''sched locks''" by (simp del: acquire_ok)
  then show ?thesis using s t by blast
qed

lemma sint_of_nat_small: "n < 2 ^ 31 \<Longrightarrow> sint (of_nat n :: u32) = int n"
  by (simp add: signed_of_nat signed_take_bit_int_eq_self)

lemma bytes_at_upd: "n < 2 ^ 64 \<Longrightarrow> a \<notin> region d n \<Longrightarrow> bytes_at (m(a := x)) d n = bytes_at m d n"
  by (auto simp: bytes_at_def region_def)

lemma cstr_at_step:
  assumes "cstr_at m src (c # u)" "\<And>j. j \<le> Suc (length u) \<Longrightarrow> s \<noteq> src + of_nat j"
  shows "cstr_at (m(s := x)) (src + 1) u"
proof -
  have "cstr_at (m(s := x)) (src + 1) u = cstr_at m (src + 1) u"
  proof (rule cstr_at_cong)
    fix i assume "i \<le> length u"
    then have "s \<noteq> src + 1 + of_nat i" using assms(2) [of "Suc i"] by (simp add: ac_simps)
    then show "(m(s := x)) (src + 1 + of_nat i) = m (src + 1 + of_nat i)" by simp
  qed
  then show ?thesis using assms(1) by simp
qed

lemma safestrcpy_arr_Cons:
  "safestrcpy_arr (x # y # ys) (c # u) = c # safestrcpy_arr (y # ys) u"
  by (simp add: safestrcpy_arr_def Let_def)

lemma safestrcpy_loop_arr:
  assumes "cstr_at m src t" "n < 2 ^ 63" "\<And>i j. i \<le> n \<Longrightarrow> j \<le> length t \<Longrightarrow> d + of_nat i \<noteq> src + of_nat j"
  shows "bytes_at (safestrcpy_loop m d src n) d (Suc n) = safestrcpy_arr (bytes_at m d (Suc n)) t"
  using assms
proof (induction n arbitrary: m d src t)
  case 0
  then show ?case by (simp add: bytes_at_def safestrcpy_arr_def)
next
  case (Suc n)
  have nr: "d \<notin> region (d + 1) (Suc n)" "d + 1 \<notin> region (d + 1 + 1) n"
    using Suc.prems(2) self_notin_next [of "Suc n" d] self_notin_next [of n "d + 1"] by auto
  have nr2: "d \<notin> region (d + 1 + 1) n" using nr(1) Suc.prems(2) by (simp add: region_shift)
  show ?case
  proof (cases t)
    case Nil
    have nn: "n < 2 ^ 64" using Suc.prems(2) by simp
    have l: "safestrcpy_loop m d src (Suc n) = m(d := 0, d + 1 := 0)" using Nil Suc.prems(1) by (simp add: Let_def)
    have "bytes_at (m(d := 0, d + 1 := 0)) (d + 1 + 1) n = bytes_at m (d + 1 + 1) n"
      using bytes_at_upd [OF nn nr(2), of "m(d := 0)" 0] bytes_at_upd [OF nn nr2, of m 0] by (rule trans)
    then show ?thesis unfolding l using Nil
      by (simp only: bytes_at_Suc safestrcpy_arr_def) (simp add: Let_def)
  next
    case (Cons c u)
    let ?m = "m(d := m src)"
    have j: "d + 1 + of_nat i \<noteq> src + 1 + of_nat k" if "i \<le> n" "k \<le> length u" for i k
      using Suc.prems(3) [of "Suc i" "Suc k"] that Cons by (simp add: ac_simps)
    have c: "cstr_at ?m (src + 1) u"
      using Suc.prems(1) Suc.prems(3) [of 0] Cons by (intro cstr_at_step) auto
    have IH: "bytes_at (safestrcpy_loop ?m (d + 1) (src + 1) n) (d + 1) (Suc n) = safestrcpy_arr (bytes_at ?m (d + 1) (Suc n)) u"
      by (rule Suc.IH [OF c _ j]) (use Suc.prems(2) in simp_all)
    have "safestrcpy_loop ?m (d + 1) (src + 1) n d = m src"
      using Suc.prems(2) nr by (subst safestrcpy_loop_frame) auto
    moreover have "bytes_at ?m (d + 1) (Suc n) = bytes_at m (d + 1) (Suc n)"
      using nr(1) Suc.prems(2) by (intro bytes_at_upd) simp_all
    moreover have "m src = c" "m src \<noteq> 0" using Suc.prems(1) Cons by auto
    ultimately show ?thesis using IH Cons
      by (simp add: Let_def bytes_at_Suc [of _ d] safestrcpy_arr_Cons bytes_at_Suc [of m "d + 1" n])
  qed
qed

text \<open>
  The array copy used for process and container names is \<open>safestrcpy\<close> of \<open>string.c\<close>: for an
  array of \<open>n\<close> bytes at \<open>d\<close> and a NUL-terminated source that does not overlap it, the array
  afterwards is what the model of the copy says.
\<close>

theorem safestrcpy_arr_refines:
  assumes "cstr_at m src t" "0 < n" "n < 2 ^ 31"
    "\<And>i j. i < n \<Longrightarrow> j \<le> length t \<Longrightarrow> d + of_nat i \<noteq> src + of_nat j"
  shows "bytes_at (safestrcpy m d src (of_nat n)) d n = safestrcpy_arr (bytes_at m d n) t"
proof -
  have "sint (of_nat n :: u32) = int n" using assms(3) by (simp add: sint_of_nat_small)
  then show ?thesis
    using safestrcpy_loop_arr [of m src t "n - 1" d] assms by (auto simp: safestrcpy_def)
qed

theorem safestrcpy_arr_refines_witness:
  "bytes_at (safestrcpy ((\<lambda>_. 7)(10 := 114, 11 := 0)) 100 10 (of_nat 4)) 100 4 = [114, 0, 0, 7]"
proof -
  let ?m = "(\<lambda>_. 7)(10 := 114, 11 := 0) :: memory"
  have "cstr_at ?m 10 [114]" by (simp add: cstr_at_def bytes_at_def)
  moreover have "100 + of_nat i \<noteq> 10 + (of_nat j :: u64)" if "i < 4" "j \<le> 1" for i j :: nat
  proof -
    have "i \<in> {0, 1, 2, 3}" "j \<in> {0, 1}" using that by auto
    then show ?thesis by auto
  qed
  ultimately have "bytes_at (safestrcpy ?m 100 10 (of_nat 4)) 100 4 = safestrcpy_arr (bytes_at ?m 100 4) [114]"
    by (intro safestrcpy_arr_refines) auto
  then show ?thesis by (simp add: bytes_at_def safestrcpy_arr_def upt_rec)
qed

end
