(* ===== verification/Spinlock.thy ===== *)
theory Spinlock
  imports Sched
begin

text \<open>
  \<open>kernel/spinlock.c\<close> on several CPUs: \<open>push_off\<close>, \<open>pop_off\<close>, \<open>holding\<close>, and \<open>acquire\<close> and
  \<open>release\<close> cut at their atomic instructions, as a step relation over the program counters of
  the CPUs.  \<open>kernel/sleeplock.c\<close> on top of \<open>sleep\<close> and \<open>wakeup\<close> of \<open>Sched\<close>.
\<close>

section \<open>CPUs and locks\<close>

record cpu =
  noff :: int
  intena :: bool
  intr :: bool

record spinlock =
  locked :: bool
  lname :: string
  lcpu :: "nat option"

text \<open>Where a CPU is inside \<open>acquire\<close> or \<open>release\<close>.\<close>

datatype spc = Outside | Spinning nat | Swapped nat | Releasing nat

record mach =
  cpus :: "nat \<Rightarrow> cpu"
  locks :: "nat \<Rightarrow> spinlock"
  pc :: "nat \<Rightarrow> spc"

definition initlock :: "nat \<Rightarrow> string \<Rightarrow> mach \<Rightarrow> mach" where
  "initlock l n s = s\<lparr>locks := (locks s)(l := \<lparr>locked = False, lname = n, lcpu = None\<rparr>)\<rparr>"

definition push_off :: "nat \<Rightarrow> mach \<Rightarrow> mach" where
  "push_off c s =
     (let old = intr (cpus s c);
          k = (cpus s c)\<lparr>intr := False\<rparr>;
          k = (if noff k = 0 then k\<lparr>intena := old\<rparr> else k)
      in s\<lparr>cpus := (cpus s)(c := k\<lparr>noff := noff k + 1\<rparr>)\<rparr>)"

definition pop_off :: "nat \<Rightarrow> mach \<Rightarrow> mach res" where
  "pop_off c s =
     (if intr (cpus s c) then Panic ''pop_off - interruptible''
      else if noff (cpus s c) < 1 then Panic ''pop_off''
      else
        let k = (cpus s c)\<lparr>noff := noff (cpus s c) - 1\<rparr>;
            k = (if noff k = 0 \<and> intena k then k\<lparr>intr := True\<rparr> else k)
        in Ok (s\<lparr>cpus := (cpus s)(c := k)\<rparr>))"

definition holding :: "nat \<Rightarrow> nat \<Rightarrow> mach \<Rightarrow> bool" where
  "holding c l s \<longleftrightarrow> locked (locks s l) \<and> lcpu (locks s l) = Some c"

text \<open>\<open>acquire\<close>: entry, one try of the atomic swap, and the final store of the owner.\<close>

definition acquire_enter :: "nat \<Rightarrow> nat \<Rightarrow> mach \<Rightarrow> mach res" where
  "acquire_enter c l s =
     (let s = push_off c s in
      if holding c l s then Panic ''acquire'' else Ok (s\<lparr>pc := (pc s)(c := Spinning l)\<rparr>))"

definition acquire_swap :: "nat \<Rightarrow> nat \<Rightarrow> mach \<Rightarrow> mach" where
  "acquire_swap c l s =
     (let old = locked (locks s l);
          s = s\<lparr>locks := (locks s)(l := (locks s l)\<lparr>locked := True\<rparr>)\<rparr>
      in if old then s else s\<lparr>pc := (pc s)(c := Swapped l)\<rparr>)"

definition acquire_leave :: "nat \<Rightarrow> nat \<Rightarrow> mach \<Rightarrow> mach" where
  "acquire_leave c l s =
     s\<lparr>locks := (locks s)(l := (locks s l)\<lparr>lcpu := Some c\<rparr>), pc := (pc s)(c := Outside)\<rparr>"

text \<open>\<open>release\<close>: the owner is cleared first, then the lock word, then interrupts.\<close>

definition release_enter :: "nat \<Rightarrow> nat \<Rightarrow> mach \<Rightarrow> mach res" where
  "release_enter c l s =
     (if \<not> holding c l s then Panic ''release''
      else Ok (s\<lparr>locks := (locks s)(l := (locks s l)\<lparr>lcpu := None\<rparr>), pc := (pc s)(c := Releasing l)\<rparr>))"

definition release_leave :: "nat \<Rightarrow> nat \<Rightarrow> mach \<Rightarrow> mach res" where
  "release_leave c l s =
     pop_off c (s\<lparr>locks := (locks s)(l := (locks s l)\<lparr>locked := False\<rparr>), pc := (pc s)(c := Outside)\<rparr>)"

section \<open>Interleaved execution\<close>

inductive lstep :: "mach \<Rightarrow> mach \<Rightarrow> bool" where
  enter: "pc s c = Outside \<Longrightarrow> acquire_enter c l s = Ok t \<Longrightarrow> lstep s t"
| swap: "pc s c = Spinning l \<Longrightarrow> lstep s (acquire_swap c l s)"
| leave: "pc s c = Swapped l \<Longrightarrow> lstep s (acquire_leave c l s)"
| rel_enter: "pc s c = Outside \<Longrightarrow> release_enter c l s = Ok t \<Longrightarrow> lstep s t"
| rel_leave: "pc s c = Releasing l \<Longrightarrow> release_leave c l s = Ok t \<Longrightarrow> lstep s t"
| intr_toggle: "pc s c = Outside \<Longrightarrow> noff (cpus s c) = 0 \<Longrightarrow>
    lstep s (s\<lparr>cpus := (cpus s)(c := (cpus s c)\<lparr>intr := b\<rparr>)\<rparr>)"

text \<open>CPU \<open>c\<close> owns lock \<open>l\<close>: it has won the swap and not yet cleared the lock word.\<close>

definition owns :: "mach \<Rightarrow> nat \<Rightarrow> nat \<Rightarrow> bool" where
  "owns s c l \<longleftrightarrow> pc s c = Swapped l \<or> pc s c = Releasing l \<or> (locked (locks s l) \<and> lcpu (locks s l) = Some c)"

definition lock_inv :: "mach \<Rightarrow> bool" where
  "lock_inv s \<longleftrightarrow>
     (\<forall>l c. owns s c l \<longrightarrow> locked (locks s l)) \<and>
     (\<forall>l c d. owns s c l \<longrightarrow> owns s d l \<longrightarrow> c = d) \<and>
     (\<forall>l c. lcpu (locks s l) = Some c \<longrightarrow> locked (locks s l) \<and> pc s c \<noteq> Swapped l \<and> pc s c \<noteq> Releasing l) \<and>
     (\<forall>c. finite {l. owns s c l}) \<and>
     (\<forall>c. noff (cpus s c) = int (card {l. owns s c l}) + (if \<exists>l. pc s c = Spinning l then 1 else 0)) \<and>
     (\<forall>c. 0 < noff (cpus s c) \<longrightarrow> \<not> intr (cpus s c))"

lemma push_off_sel [simp]:
  "locks (push_off c s) = locks s" "pc (push_off c s) = pc s"
  "noff (cpus (push_off c s) d) = (if d = c then noff (cpus s c) + 1 else noff (cpus s d))"
  "intr (cpus (push_off c s) d) = (if d = c then False else intr (cpus s d))"
  by (auto simp: push_off_def Let_def)

lemma lock_invD:
  assumes "lock_inv s"
  shows "owns s c l \<Longrightarrow> locked (locks s l)" "owns s c l \<Longrightarrow> owns s d l \<Longrightarrow> c = d"
    "finite {l. owns s c l}"
    "noff (cpus s c) = int (card {l. owns s c l}) + (if \<exists>l. pc s c = Spinning l then 1 else 0)"
    "0 < noff (cpus s c) \<Longrightarrow> \<not> intr (cpus s c)"
    "lcpu (locks s l) = Some c \<Longrightarrow> locked (locks s l) \<and> pc s c \<noteq> Swapped l \<and> pc s c \<noteq> Releasing l"
  using assms unfolding lock_inv_def by blast+

lemma lock_invI:
  assumes "\<And>l c. owns s c l \<Longrightarrow> locked (locks s l)" "\<And>l c d. owns s c l \<Longrightarrow> owns s d l \<Longrightarrow> c = d"
    "\<And>c. finite {l. owns s c l}"
    "\<And>c. noff (cpus s c) = int (card {l. owns s c l}) + (if \<exists>l. pc s c = Spinning l then 1 else 0)"
    "\<And>c. 0 < noff (cpus s c) \<Longrightarrow> \<not> intr (cpus s c)"
    "\<And>l c. lcpu (locks s l) = Some c \<Longrightarrow> locked (locks s l) \<and> pc s c \<noteq> Swapped l \<and> pc s c \<noteq> Releasing l"
  shows "lock_inv s"
  using assms unfolding lock_inv_def by blast

subsection \<open>Every step keeps the lock invariant\<close>

lemma lock_inv_transfer:
  assumes "lock_inv s" "\<And>d k. owns t d k = owns s d k" "\<And>k. locked (locks t k) = locked (locks s k)"
    "\<And>d. noff (cpus t d) - (if \<exists>k. pc t d = Spinning k then 1 else 0) = noff (cpus s d) - (if \<exists>k. pc s d = Spinning k then 1 else 0)"
    "\<And>d. 0 < noff (cpus t d) \<Longrightarrow> \<not> intr (cpus t d)"
    "\<And>k d. lcpu (locks t k) = Some d \<Longrightarrow> locked (locks t k) \<and> pc t d \<noteq> Swapped k \<and> pc t d \<noteq> Releasing k"
  shows "lock_inv t"
proof (rule lock_invI)
  fix c show "noff (cpus t c) = int (card {l. owns t c l}) + (if \<exists>l. pc t c = Spinning l then 1 else 0)"
    using lock_invD(4) [OF assms(1), of c] assms(4) [of c] by (simp add: assms(2))
qed (use assms lock_invD [OF assms(1)] in \<open>auto simp: assms(2)\<close>)

lemma enter_inv:
  assumes i: "lock_inv s" and p: "pc s c = Outside" and e: "acquire_enter c l s = Ok t"
  shows "lock_inv t"
proof -
  have t: "t = (push_off c s)\<lparr>pc := (pc s)(c := Spinning l)\<rparr>"
    using e by (simp add: acquire_enter_def Let_def split: if_splits)
  have o: "owns t d k = owns s d k" for d k using p by (auto simp: t owns_def)
  show ?thesis
    by (rule lock_inv_transfer [OF i o]) (use i p lock_invD(5,6) [OF i] in \<open>auto simp: t\<close>)
qed

lemma swap_inv:
  assumes i: "lock_inv s" and p: "pc s c = Spinning l"
  shows "lock_inv (acquire_swap c l s)"
proof (cases "locked (locks s l)")
  case True
  then have e: "(locks s)(l := (locks s l)\<lparr>locked := True\<rparr>) = locks s" by (auto simp: fun_eq_iff)
  have "acquire_swap c l s = s\<lparr>locks := (locks s)(l := (locks s l)\<lparr>locked := True\<rparr>)\<rparr>"
    using True by (simp add: acquire_swap_def Let_def)
  also have "\<dots> = s" unfolding e by simp
  finally have "acquire_swap c l s = s" .
  then show ?thesis using i by simp
next
  case False
  let ?t = "acquire_swap c l s"
  have t: "locks ?t = (locks s)(l := (locks s l)\<lparr>locked := True\<rparr>)" "pc ?t = (pc s)(c := Swapped l)" "cpus ?t = cpus s"
    using False by (simp_all add: acquire_swap_def Let_def)
  have n: "lcpu (locks s l) = None" using lock_invD(6) [OF i, of l] False by (cases "lcpu (locks s l)") auto
  have nl: "\<not> owns s d l" for d using lock_invD(1) [OF i] False by blast
  have o: "owns ?t d k \<longleftrightarrow> owns s d k \<or> d = c \<and> k = l" for d k
    using p n nl [of d] by (auto simp: t owns_def)
  have cs: "{k. owns ?t c k} = insert l {k. owns s c k}" "{k. owns ?t d k} = {k. owns s d k}" if "d \<noteq> c" for d
    using that by (auto simp: o)
  show ?thesis
  proof (rule lock_invI)
    fix d show "noff (cpus ?t d) = int (card {k. owns ?t d k}) + (if \<exists>l. pc ?t d = Spinning l then 1 else 0)"
    proof (cases "d = c")
      case True
      have "card (insert l {k. owns s c k}) = Suc (card {k. owns s c k})"
        using nl lock_invD(3) [OF i, of c] by simp
      moreover have "{k. owns ?t c k} = insert l {k. owns s c k}" by (auto simp: o)
      ultimately show ?thesis using True p lock_invD(4) [OF i, of c] by (simp add: t)
    next
      case False then show ?thesis using cs(2) lock_invD(4) [OF i, of d] by (simp add: t)
    qed
  next
    fix d show "finite {k. owns ?t d k}"
      using lock_invD(3) [OF i, of d] by (simp add: o Collect_disj_eq)
  next
    fix k d assume "lcpu (locks ?t k) = Some d"
    then show "locked (locks ?t k) \<and> pc ?t d \<noteq> Swapped k \<and> pc ?t d \<noteq> Releasing k"
      using lock_invD(6) [OF i, of k d] n by (auto simp: t split: if_splits)
  next
    fix d assume "0 < noff (cpus ?t d)" then show "\<not> intr (cpus ?t d)" using lock_invD(5) [OF i, of d] by (simp add: t)
  next
    fix k d assume "owns ?t d k" then show "locked (locks ?t k)" using lock_invD(1) [OF i, of d k] o by (auto simp: t)
  next
    fix k d e assume "owns ?t d k" "owns ?t e k" then show "d = e" using lock_invD(2) [OF i, of d k e] nl o by auto
  qed
qed

lemma leave_inv:
  assumes i: "lock_inv s" and p: "pc s c = Swapped l"
  shows "lock_inv (acquire_leave c l s)"
proof -
  have own: "owns s c l" using p by (simp add: owns_def)
  have u: "d = c" if "owns s d l" for d using lock_invD(2) [OF i that own] .
  have o: "owns (acquire_leave c l s) d k = owns s d k" for d k
  proof (cases "k = l")
    case True
    have "owns s d l \<longleftrightarrow> d = c" using u own by blast
    moreover have "d \<noteq> c \<Longrightarrow> \<not> owns s d l" using u by blast
    then have "owns (acquire_leave c l s) d l \<longleftrightarrow> d = c"
      using lock_invD(1) [OF i own] by (cases "d = c") (simp_all add: acquire_leave_def owns_def)
    ultimately show ?thesis using True by simp
  qed (use p in \<open>auto simp: acquire_leave_def owns_def\<close>)
  show ?thesis
  proof (rule lock_inv_transfer [OF i o])
    fix k d assume "lcpu (locks (acquire_leave c l s) k) = Some d"
    then show "locked (locks (acquire_leave c l s) k) \<and> pc (acquire_leave c l s) d \<noteq> Swapped k \<and>
        pc (acquire_leave c l s) d \<noteq> Releasing k"
      using lock_invD(6) [OF i, of k d] lock_invD(1) [OF i own] by (auto simp: acquire_leave_def split: if_splits)
  qed (use i p lock_invD(5) [OF i] in \<open>auto simp: acquire_leave_def\<close>)
qed

lemma rel_enter_inv:
  assumes i: "lock_inv s" and p: "pc s c = Outside" and e: "release_enter c l s = Ok t"
  shows "lock_inv t"
proof -
  have h: "locked (locks s l)" "lcpu (locks s l) = Some c"
    and t: "t = s\<lparr>locks := (locks s)(l := (locks s l)\<lparr>lcpu := None\<rparr>), pc := (pc s)(c := Releasing l)\<rparr>"
    using e by (auto simp: release_enter_def holding_def split: if_splits)
  have own: "owns s c l" using h by (simp add: owns_def)
  have u: "d = c" if "owns s d l" for d using lock_invD(2) [OF i that own] .
  have o: "owns t d k = owns s d k" for d k
  proof (cases "k = l")
    case True
    have "owns s d l \<longleftrightarrow> d = c" using u own by blast
    moreover have "d \<noteq> c \<Longrightarrow> \<not> owns s d l" using u by blast
    then have "owns t d l \<longleftrightarrow> d = c" by (cases "d = c") (simp_all add: t owns_def)
    ultimately show ?thesis using True by simp
  qed (use p in \<open>auto simp: t owns_def\<close>)
  show ?thesis
  proof (rule lock_inv_transfer [OF i o])
    fix k d assume "lcpu (locks t k) = Some d"
    then show "locked (locks t k) \<and> pc t d \<noteq> Swapped k \<and> pc t d \<noteq> Releasing k"
      using lock_invD(6) [OF i, of k d] by (auto simp: t split: if_splits)
  qed (use i p lock_invD(5) [OF i] in \<open>auto simp: t\<close>)
qed

lemma rel_leave_run:
  assumes i: "lock_inv s" and p: "pc s c = Releasing l"
  shows "\<exists>k. release_leave c l s = Ok (s\<lparr>locks := (locks s)(l := (locks s l)\<lparr>locked := False\<rparr>),
      pc := (pc s)(c := Outside), cpus := (cpus s)(c := k)\<rparr>) \<and> noff k = noff (cpus s c) - 1 \<and>
      (0 < noff k \<longrightarrow> \<not> intr k)"
proof -
  have "owns s c l" using p by (simp add: owns_def)
  then have "0 < card {l. owns s c l}" using lock_invD(3) [OF i, of c] by (auto simp: card_gt_0_iff)
  then have "0 < noff (cpus s c)" using lock_invD(4) [OF i, of c] by simp
  then show ?thesis using lock_invD(5) [OF i, of c] by (auto simp: release_leave_def pop_off_def Let_def)
qed

lemma rel_leave_inv:
  assumes i: "lock_inv s" and p: "pc s c = Releasing l" and e: "release_leave c l s = Ok t"
  shows "lock_inv t"
proof -
  obtain k where t: "t = s\<lparr>locks := (locks s)(l := (locks s l)\<lparr>locked := False\<rparr>), pc := (pc s)(c := Outside), cpus := (cpus s)(c := k)\<rparr>"
    and k: "noff k = noff (cpus s c) - 1" "0 < noff k \<longrightarrow> \<not> intr k"
    using rel_leave_run [OF i p] e by auto
  have own: "owns s c l" using p by (simp add: owns_def)
  have u: "d = c" if "owns s d l" for d using lock_invD(2) [OF i that own] .
  have n: "lcpu (locks s l) = None" using lock_invD(6) [OF i, of l] u p
    by (cases "lcpu (locks s l)") (auto simp: owns_def)
  have o: "owns t d j \<longleftrightarrow> owns s d j \<and> j \<noteq> l" for d j
  proof (cases "j = l")
    case True then show ?thesis using u [of d] n by (auto simp: t owns_def)
  qed (use p in \<open>auto simp: t owns_def\<close>)
  have "{j. owns t c j} = {j. owns s c j} - {l}" by (auto simp: o)
  then have cd: "card {j. owns t c j} = card {j. owns s c j} - 1"
    using own by (simp add: card_Diff_singleton)
  have pos: "0 < card {j. owns s c j}" using own lock_invD(3) [OF i, of c] by (auto simp: card_gt_0_iff)
  show ?thesis
  proof (rule lock_invI)
    fix d show "noff (cpus t d) = int (card {k. owns t d k}) + (if \<exists>l. pc t d = Spinning l then 1 else 0)"
    proof (cases "d = c")
      case True then show ?thesis using cd pos k(1) lock_invD(4) [OF i, of c] p by (simp add: t)
    next
      case False
      then have "{k. owns t d k} = {k. owns s d k}" using u by (auto simp: o)
      then show ?thesis using False lock_invD(4) [OF i, of d] by (simp add: t)
    qed
  next
    fix d show "finite {k. owns t d k}" using lock_invD(3) [OF i, of d] by (simp add: o)
  next
    fix j d assume "lcpu (locks t j) = Some d"
    then show "locked (locks t j) \<and> pc t d \<noteq> Swapped j \<and> pc t d \<noteq> Releasing j"
      using lock_invD(6) [OF i, of j d] n by (auto simp: t split: if_splits)
  next
    fix d assume "0 < noff (cpus t d)" then show "\<not> intr (cpus t d)" using lock_invD(5) [OF i, of d] k by (auto simp: t split: if_splits)
  next
    fix j d assume "owns t d j" then show "locked (locks t j)" using lock_invD(1) [OF i, of d j] o by (auto simp: t)
  next
    fix j d e assume "owns t d j" "owns t e j" then show "d = e" using lock_invD(2) [OF i, of d j e] o by auto
  qed
qed

lemma lstep_inv: "lstep s t \<Longrightarrow> lock_inv s \<Longrightarrow> lock_inv t"
proof (induction rule: lstep.induct)
  case (intr_toggle s c b)
  show ?case
    by (rule lock_inv_transfer [OF intr_toggle.prems])
      (use intr_toggle lock_invD(5,6) [OF intr_toggle.prems] in \<open>auto simp: owns_def\<close>)
qed (auto intro: enter_inv swap_inv leave_inv rel_enter_inv rel_leave_inv)

lemma lreach_inv: "lstep\<^sup>*\<^sup>* s t \<Longrightarrow> lock_inv s \<Longrightarrow> lock_inv t"
  by (induction rule: rtranclp_induct) (auto intro: lstep_inv)

lemma lock_inv_init:
  assumes "\<And>l. locked (locks s l) = False" "\<And>l. lcpu (locks s l) = None" "\<And>c. pc s c = Outside" "\<And>c. noff (cpus s c) = 0"
  shows "lock_inv s"
  using assms by (intro lock_invI) (auto simp: owns_def)

subsection \<open>Nesting of interrupt disabling\<close>

primrec push_offs :: "nat \<Rightarrow> nat \<Rightarrow> mach \<Rightarrow> mach" where
  "push_offs 0 c s = s"
| "push_offs (Suc n) c s = push_off c (push_offs n c s)"

primrec pop_offs :: "nat \<Rightarrow> nat \<Rightarrow> mach \<Rightarrow> mach res" where
  "pop_offs 0 c s = Ok s"
| "pop_offs (Suc n) c s = bindR (pop_off c s) (pop_offs n c)"

lemma push_offs_sel:
  assumes "0 \<le> noff (cpus s c)"
  shows "noff (cpus (push_offs n c s) c) = noff (cpus s c) + int n"
    "0 < n \<Longrightarrow> \<not> intr (cpus (push_offs n c s) c)"
    "0 < n \<Longrightarrow> noff (cpus s c) = 0 \<Longrightarrow> intena (cpus (push_offs n c s) c) = intr (cpus s c)"
    "d \<noteq> c \<Longrightarrow> cpus (push_offs n c s) d = cpus s d"
proof (induction n)
  case (Suc n)
  { case 3 show ?case using Suc 3 assms by (cases n) (auto simp: push_off_def Let_def) }
  { case 4 show ?case using Suc 4 by (auto simp: push_off_def Let_def) }
qed auto

lemma pop_offs_spec:
  assumes "\<not> intr (cpus s c)" "int n \<le> noff (cpus s c)" "0 < n"
  shows "\<exists>t. pop_offs n c s = Ok t \<and> noff (cpus t c) = noff (cpus s c) - int n \<and>
    intr (cpus t c) = (noff (cpus s c) = int n \<and> intena (cpus s c)) \<and> (\<forall>d. d \<noteq> c \<longrightarrow> cpus t d = cpus s d)"
  using assms
proof (induction n arbitrary: s)
  case (Suc n)
  let ?k = "(cpus s c)\<lparr>noff := noff (cpus s c) - 1\<rparr>"
  let ?t = "s\<lparr>cpus := (cpus s)(c := if noff ?k = 0 \<and> intena ?k then ?k\<lparr>intr := True\<rparr> else ?k)\<rparr>"
  have p: "pop_off c s = Ok ?t" using Suc.prems by (simp add: pop_off_def Let_def)
  show ?case
  proof (cases "n = 0")
    case True then show ?thesis using p Suc.prems by auto
  next
    case False
    have "\<not> intr (cpus ?t c)" "int n \<le> noff (cpus ?t c)" using Suc.prems False by auto
    from Suc.IH [OF this] False p Suc.prems show ?thesis by auto
  qed
qed simp

section \<open>Sleep locks\<close>

record sleeplock =
  slocked :: bool
  spid :: u32

text \<open>The sleep locks of the kernel, by their address; the spinlock inside is \<open>LkSleep\<close>.\<close>

type_synonym slocks = "chan \<Rightarrow> sleeplock"

definition initsleeplock :: "chan \<Rightarrow> slocks \<Rightarrow> slocks" where
  "initsleeplock lk sl = sl(lk := \<lparr>slocked = False, spid = 0\<rparr>)"

text \<open>
  The loop of \<open>acquiresleep\<close> with the spinlock held: \<open>False\<close> when the process has gone to sleep,
  after which \<open>acquiresleep_resume\<close> goes on when it is scheduled again.
\<close>

definition acquiresleep_loop :: "chan \<Rightarrow> slocks \<Rightarrow> sst \<Rightarrow> (bool \<times> slocks \<times> sst) res" where
  "acquiresleep_loop lk sl s =
     (if slocked (sl lk) then bindR (sleep lk (LkSleep lk) s) (\<lambda>s. Ok (False, sl, s))
      else bindR (deref (myproc s)) (\<lambda>p.
           bindR (release (LkSleep lk) s) (\<lambda>s.
           Ok (True, sl(lk := \<lparr>slocked = True, spid = pid (procs s p)\<rparr>), s))))"

definition acquiresleep :: "chan \<Rightarrow> slocks \<Rightarrow> sst \<Rightarrow> (bool \<times> slocks \<times> sst) res" where
  "acquiresleep lk sl s = bindR (acquire (LkSleep lk) s) (acquiresleep_loop lk sl)"

definition acquiresleep_resume :: "chan \<Rightarrow> slocks \<Rightarrow> sst \<Rightarrow> (bool \<times> slocks \<times> sst) res" where
  "acquiresleep_resume lk sl s = bindR (sleep_resume (LkSleep lk) s) (acquiresleep_loop lk sl)"

definition releasesleep :: "chan \<Rightarrow> slocks \<Rightarrow> sst \<Rightarrow> (slocks \<times> sst) res" where
  "releasesleep lk sl s =
     bindR (acquire (LkSleep lk) s) (\<lambda>s.
     bindR (wakeup (Some lk) s) (\<lambda>s.
     bindR (release (LkSleep lk) s) (\<lambda>s.
     Ok (sl(lk := \<lparr>slocked = False, spid = 0\<rparr>), s))))"

definition holdingsleep :: "chan \<Rightarrow> slocks \<Rightarrow> sst \<Rightarrow> (bool \<times> sst) res" where
  "holdingsleep lk sl s =
     bindR (acquire (LkSleep lk) s) (\<lambda>s.
     bindR (deref (myproc s)) (\<lambda>p.
     let r = (slocked (sl lk) \<and> spid (sl lk) = pid (procs s p)) in
     bindR (release (LkSleep lk) s) (\<lambda>s. Ok (r, s))))"

lemma acquiresleep_free:
  assumes "\<not> slocked (sl lk)" "curproc s = Some p" "LkSleep lk \<notin> set (held s)"
  shows "acquiresleep lk sl s = Ok (True, sl(lk := \<lparr>slocked = True, spid = pid (procs s p)\<rparr>), s)"
  using assms by (simp add: acquiresleep_def acquiresleep_loop_def myproc_def deref_def)

lemma acquiresleep_busy:
  assumes "slocked (sl lk)" "sched_inv s v" "curproc s = Some p" "p < NPROC" "state (procs s p) = RUNNING" "held s = []"
  shows "acquiresleep lk sl s = Ok (False, sl, upd_proc p (\<lambda>r. r\<lparr>chan := Some lk, state := SLEEPING\<rparr>) s\<lparr>held := [LkProc p]\<rparr>)"
    and "sched_inv (upd_proc p (\<lambda>r. r\<lparr>chan := Some lk, state := SLEEPING\<rparr>) s\<lparr>held := [LkProc p]\<rparr>) v"
proof -
  have i: "sched_inv (s\<lparr>held := [LkSleep lk]\<rparr>) v" using assms(2) by simp
  note sp = sleep_spec [OF i, of p "LkSleep lk" lk]
  show "acquiresleep lk sl s = Ok (False, sl, upd_proc p (\<lambda>r. r\<lparr>chan := Some lk, state := SLEEPING\<rparr>) s\<lparr>held := [LkProc p]\<rparr>)"
    using sp(1) assms by (simp add: acquiresleep_def acquiresleep_loop_def)
  show "sched_inv (upd_proc p (\<lambda>r. r\<lparr>chan := Some lk, state := SLEEPING\<rparr>) s\<lparr>held := [LkProc p]\<rparr>) v"
    using sp(2) assms by simp
qed

lemma acquiresleep_resume_run:
  assumes "curproc s = Some p" "held s = [LkProc p]"
  shows "acquiresleep_resume lk sl s =
    acquiresleep lk sl (upd_proc p (\<lambda>r. r\<lparr>chan := None\<rparr>) s\<lparr>held := []\<rparr>)"
  using assms by (simp add: acquiresleep_resume_def acquiresleep_def sleep_resume_def myproc_def deref_def)

lemma releasesleep_spec:
  assumes "sched_inv s v" "no_table_locks s" "LkSleep lk \<notin> set (held s)"
  shows "\<exists>h. releasesleep lk sl s = Ok (sl(lk := \<lparr>slocked = False, spid = 0\<rparr>), make_runnable (sleepers (Some lk) s) s\<lparr>lh := h\<rparr>) \<and>
    sched_inv (make_runnable (sleepers (Some lk) s) s\<lparr>lh := h\<rparr>)
      (enqueue_all s (filter (\<lambda>i. i \<in> sleepers (Some lk) s) [0..<NPROC]) v)"
proof -
  let ?s = "s\<lparr>held := LkSleep lk # held s\<rparr>"
  have "sched_inv ?s v" "no_table_locks ?s" using assms by (simp_all add: no_table_locks_def)
  from wakeup_spec [OF this, of "Some lk"] obtain h where
    h: "wakeup (Some lk) ?s = Ok (make_runnable (sleepers (Some lk) ?s) ?s\<lparr>lh := h\<rparr>)"
       "sched_inv (make_runnable (sleepers (Some lk) ?s) ?s\<lparr>lh := h\<rparr>)
          (enqueue_all ?s (filter (\<lambda>i. i \<in> sleepers (Some lk) ?s) [0..<NPROC]) v)" by blast
  have e: "sleepers (Some lk) ?s = sleepers (Some lk) s" "make_runnable A ?s = make_runnable A s\<lparr>held := LkSleep lk # held s\<rparr>"
    "enqueue_all ?s is v = enqueue_all s is v" for A "is"
    by (auto simp: sleepers_def make_runnable_def enqueue_all_def fun_eq_iff split: listid.splits cong: if_cong)
  show ?thesis using h assms(3) unfolding e by (intro exI [of _ h]) (simp add: releasesleep_def)
qed

section \<open>Properties\<close>

definition boot_mach :: mach where
  "boot_mach = \<lparr>cpus = (\<lambda>_. \<lparr>noff = 0, intena = False, intr = False\<rparr>),
     locks = (\<lambda>_. \<lparr>locked = False, lname = [], lcpu = None\<rparr>), pc = (\<lambda>_. Outside)\<rparr>"

lemma boot_mach_inv: "lock_inv boot_mach"
  by (rule lock_inv_init) (simp_all add: boot_mach_def)

text \<open>
  C8.  Mutual exclusion of spinlocks: however the CPUs interleave the instructions of \<open>acquire\<close>
  and \<open>release\<close>, no lock has two owners, a CPU that owns a lock has interrupts off, and its
  \<open>noff\<close> is the number of locks it owns or is spinning for.
\<close>

theorem spinlock_mutual_exclusion:
  assumes "lstep\<^sup>*\<^sup>* boot_mach s"
  shows "(\<forall>l c d. owns s c l \<longrightarrow> owns s d l \<longrightarrow> c = d) \<and>
    (\<forall>l c. owns s c l \<longrightarrow> \<not> intr (cpus s c)) \<and>
    (\<forall>c. noff (cpus s c) = int (card {l. owns s c l}) + (if \<exists>l. pc s c = Spinning l then 1 else 0))"
proof -
  note i = lreach_inv [OF assms boot_mach_inv]
  have "\<not> intr (cpus s c)" if o: "owns s c l" for c l
  proof -
    have "{l. owns s c l} \<noteq> {}" using o by blast
    then have "0 < card {l. owns s c l}" using lock_invD(3) [OF i, of c] by (simp add: card_gt_0_iff)
    then show ?thesis using lock_invD(4,5) [OF i, of c] by simp
  qed
  then show ?thesis using lock_invD(2,4) [OF i] by blast
qed

theorem spinlock_mutual_exclusion_witness:
  "\<exists>s. lstep\<^sup>*\<^sup>* boot_mach s \<and> pc s 0 = Spinning 7 \<and> noff (cpus s 0) = 1"
proof -
  let ?s = "(push_off 0 boot_mach)\<lparr>pc := (pc boot_mach)(0 := Spinning 7)\<rparr>"
  have "lstep boot_mach ?s" by (rule enter [of _ 0 7]) (simp_all add: boot_mach_def acquire_enter_def holding_def Let_def)
  then have r: "lstep\<^sup>*\<^sup>* boot_mach ?s" by blast
  have "{l. owns ?s 0 l} = {}" by (auto simp: owns_def boot_mach_def)
  moreover have "noff (cpus ?s 0) = int (card {l. owns ?s 0 l}) + (if \<exists>l. pc ?s 0 = Spinning l then 1 else 0)"
    using spinlock_mutual_exclusion [OF r] by blast
  ultimately have "noff (cpus ?s 0) = 1" by simp
  then show ?thesis using r by (intro exI [of _ ?s]) simp
qed

text \<open>
  \<open>push_off\<close> and \<open>pop_off\<close> are matched: interrupts stay off inside any nesting, and after
  as many \<open>pop_off\<close>s as \<open>push_off\<close>s the CPU has its old nesting depth and interrupt state.
\<close>

theorem push_pop_off_matched:
  assumes "0 < n" "0 \<le> noff (cpus s c)" "0 < noff (cpus s c) \<Longrightarrow> \<not> intr (cpus s c)"
  shows "\<not> intr (cpus (push_offs n c s) c) \<and>
    (\<exists>t. pop_offs n c (push_offs n c s) = Ok t \<and> noff (cpus t c) = noff (cpus s c) \<and>
       intr (cpus t c) = intr (cpus s c) \<and> (\<forall>d. d \<noteq> c \<longrightarrow> cpus t d = cpus s d))"
proof -
  note p = push_offs_sel [where n = n, OF assms(2)]
  have off: "\<not> intr (cpus (push_offs n c s) c)" using p(2) assms(1) by simp
  obtain t where t: "pop_offs n c (push_offs n c s) = Ok t" "noff (cpus t c) = noff (cpus s c)"
    "intr (cpus t c) = (noff (cpus s c) = 0 \<and> intena (cpus (push_offs n c s) c))" "\<forall>d. d \<noteq> c \<longrightarrow> cpus t d = cpus s d"
    using pop_offs_spec [of "push_offs n c s" c n] off p(1,4) assms(1,2) by auto
  have "intr (cpus t c) = intr (cpus s c)"
    using t(3) p(3) assms by (cases "noff (cpus s c) = 0") auto
  then show ?thesis using off t by blast
qed

theorem push_pop_off_matched_witness:
  "\<exists>t. pop_offs 2 3 (push_offs 2 3 (boot_mach\<lparr>cpus := (\<lambda>_. \<lparr>noff = 0, intena = False, intr = True\<rparr>)\<rparr>)) = Ok t \<and> intr (cpus t 3)"
  using push_pop_off_matched [of 2 "boot_mach\<lparr>cpus := (\<lambda>_. \<lparr>noff = 0, intena = False, intr = True\<rparr>)\<rparr>" 3] by auto

text \<open>
  C15.  No lost wakeup on a sleep lock: a process that finds the lock taken sleeps on it;
  \<open>releasesleep\<close> by another process frees the lock and makes the sleeper runnable, keeping the
  invariant of the tables; and when the sleeper then tries again it gets the lock.
\<close>

theorem sleeplock_no_lost_wakeup:
  assumes "slocked (sl lk)" "sched_inv s v" "curproc s = Some p" "p < NPROC" "state (procs s p) = RUNNING" "held s = []"
  shows "\<exists>t. acquiresleep lk sl s = Ok (False, sl, t) \<and> state (procs t p) = SLEEPING \<and> chan (procs t p) = Some lk \<and>
    (\<forall>q<NPROC. q \<noteq> p \<longrightarrow>
      (\<exists>u. releasesleep lk sl (t\<lparr>curproc := Some q, held := []\<rparr>) = Ok (sl(lk := \<lparr>slocked = False, spid = 0\<rparr>), u) \<and>
        state (procs u p) = RUNNABLE \<and> (\<exists>w. sched_inv u w) \<and>
        acquiresleep lk (sl(lk := \<lparr>slocked = False, spid = 0\<rparr>)) (u\<lparr>curproc := Some p\<rparr>)
          = Ok (True, sl(lk := \<lparr>slocked = True, spid = pid (procs u p)\<rparr>), u\<lparr>curproc := Some p\<rparr>)))"
proof -
  let ?t = "upd_proc p (\<lambda>r. r\<lparr>chan := Some lk, state := SLEEPING\<rparr>) s\<lparr>held := [LkProc p]\<rparr>"
  note b = acquiresleep_busy [where sl = sl and lk = lk, OF assms]
  have "\<exists>u. releasesleep lk sl (?t\<lparr>curproc := Some q, held := []\<rparr>) = Ok (sl(lk := \<lparr>slocked = False, spid = 0\<rparr>), u) \<and>
      state (procs u p) = RUNNABLE \<and> (\<exists>w. sched_inv u w) \<and>
      acquiresleep lk (sl(lk := \<lparr>slocked = False, spid = 0\<rparr>)) (u\<lparr>curproc := Some p\<rparr>)
          = Ok (True, sl(lk := \<lparr>slocked = True, spid = pid (procs u p)\<rparr>), u\<lparr>curproc := Some p\<rparr>)" if q: "q < NPROC" "q \<noteq> p" for q
  proof -
    let ?r = "?t\<lparr>curproc := Some q, held := []\<rparr>"
    have "sched_inv ?r v" "no_table_locks ?r" using b(2) by (simp_all add: no_table_locks_def)
    from releasesleep_spec [OF this, of lk sl] obtain h where
      h: "releasesleep lk sl ?r = Ok (sl(lk := \<lparr>slocked = False, spid = 0\<rparr>), make_runnable (sleepers (Some lk) ?r) ?r\<lparr>lh := h\<rparr>)"
         "\<exists>w. sched_inv (make_runnable (sleepers (Some lk) ?r) ?r\<lparr>lh := h\<rparr>) w" by auto
    let ?u = "make_runnable (sleepers (Some lk) ?r) ?r\<lparr>lh := h\<rparr>"
    have "p \<in> sleepers (Some lk) ?r" using q assms(4) by (simp add: sleepers_def)
    then have "state (procs ?u p) = RUNNABLE" by simp
    moreover have "acquiresleep lk (sl(lk := \<lparr>slocked = False, spid = 0\<rparr>)) (?u\<lparr>curproc := Some p\<rparr>)
        = Ok (True, sl(lk := \<lparr>slocked = True, spid = pid (procs ?u p)\<rparr>), ?u\<lparr>curproc := Some p\<rparr>)"
      using acquiresleep_free [of "sl(lk := \<lparr>slocked = False, spid = 0\<rparr>)" lk "?u\<lparr>curproc := Some p\<rparr>" p] by simp
    ultimately show ?thesis using h by blast
  qed
  then show ?thesis using b(1) by (intro exI [of _ ?t]) simp
qed

theorem sleeplock_no_lost_wakeup_witness:
  "\<exists>h t. acquiresleep (ChSleepBuf 3) (\<lambda>_. \<lparr>slocked = True, spid = 9\<rparr>) (sample_sst h) = Ok (False, (\<lambda>_. \<lparr>slocked = True, spid = 9\<rparr>), t) \<and>
     state (procs t 0) = SLEEPING"
proof -
  obtain h where h: "sched_inv (sample_sst h) sample_queues" using sample_inv by blast
  from sleeplock_no_lost_wakeup [of "\<lambda>_. \<lparr>slocked = True, spid = 9\<rparr>" "ChSleepBuf 3", OF _ h, of 0] show ?thesis
    by (auto simp: sample_procs NPROC_def)
qed

end
