(* ===== verification/Vm.thy ===== *)
theory Vm
  imports Kalloc Sched
begin

text \<open>
  Page tables and user memory: \<open>kernel/vm.c\<close>, and \<open>proc_pagetable\<close>, \<open>proc_freepagetable\<close> and
  \<open>proc_mapstacks\<close> of \<open>kernel/proc.c\<close>.  Page tables live in physical memory, which the kernel
  maps to itself, so a page-table pointer is a physical address and an entry is read and
  written with \<open>load64\<close> and \<open>store64\<close>.  Functions that allocate carry the allocator state.
\<close>

section \<open>Page table entries\<close>

definition PTE_V :: u64 where "PTE_V = 1"
definition PTE_R :: u64 where "PTE_R = 2"
definition PTE_W :: u64 where "PTE_W = 4"
definition PTE_X :: u64 where "PTE_X = 8"
definition PTE_U :: u64 where "PTE_U = 16"

definition PA2PTE :: "u64 \<Rightarrow> u64" where "PA2PTE pa = push_bit 10 (drop_bit 12 pa)"
definition PTE2PA :: "u64 \<Rightarrow> u64" where "PTE2PA pte = push_bit 12 (drop_bit 10 pte)"
definition PTE_FLAGS :: "u64 \<Rightarrow> u64" where "PTE_FLAGS pte = pte AND 0x3FF"
definition PX :: "nat \<Rightarrow> u64 \<Rightarrow> u64" where "PX level va = drop_bit (12 + 9 * level) va AND 0x1FF"

text \<open>The address \<open>&pagetable[PX(level, va)]\<close>.\<close>

definition pte_slot :: "u64 \<Rightarrow> nat \<Rightarrow> u64 \<Rightarrow> u64" where
  "pte_slot pt level va = pt + 8 * PX level va"

definition valid :: "u64 \<Rightarrow> bool" where
  "valid pte \<longleftrightarrow> pte AND PTE_V \<noteq> 0"

section \<open>Walking and mapping\<close>

text \<open>The loop of \<open>walk\<close> from \<open>level\<close> down; the null pointer is 0.\<close>

primrec walk_from :: "nat \<Rightarrow> u64 \<Rightarrow> u64 \<Rightarrow> bool \<Rightarrow> kmem \<Rightarrow> u64 \<times> kmem" where
  "walk_from 0 pt va alloc s = (pte_slot pt 0 va, s)"
| "walk_from (Suc l) pt va alloc s =
     (let a = pte_slot pt (Suc l) va; pte = load64 (pmem s) a in
      if valid pte then walk_from l (PTE2PA pte) va alloc s
      else if \<not> alloc then (0, s)
      else
        let (p, s) = kalloc s in
        if p = 0 then (0, s)
        else
          let m = memset (pmem s) p 0 (ucast PGSIZE);
              m = store64 m a (PA2PTE p OR PTE_V)
          in walk_from l p va alloc (s\<lparr>pmem := m\<rparr>))"

definition walk :: "u64 \<Rightarrow> u64 \<Rightarrow> bool \<Rightarrow> kmem \<Rightarrow> (u64 \<times> kmem) res" where
  "walk pt va alloc s = (if va \<ge> MAXVA then Panic ''walk'' else Ok (walk_from 2 pt va alloc s))"

definition walkaddr :: "u64 \<Rightarrow> u64 \<Rightarrow> kmem \<Rightarrow> u64 res" where
  "walkaddr pt va s =
     (if va \<ge> MAXVA then Ok 0
      else bindR (walk pt va False s) (\<lambda>(pte, s).
        if pte = 0 then Ok 0
        else
          let e = load64 (pmem s) pte in
          if \<not> valid e then Ok 0 else if e AND PTE_U = 0 then Ok 0 else Ok (PTE2PA e)))"

definition mappages :: "u64 \<Rightarrow> u64 \<Rightarrow> u64 \<Rightarrow> u64 \<Rightarrow> u64 \<Rightarrow> kmem \<Rightarrow> (int \<times> kmem) res" where
  "mappages pt va siz pa perm s =
     (if siz = 0 then Panic ''mappages: size''
      else
        let last_a = PGROUNDDOWN (va + siz - 1) in
        loopR (\<lambda>(a, pa, s).
          bindR (walk pt a True s) (\<lambda>(pte, s).
          if pte = 0 then Ok (Exit (-1, s))
          else if valid (load64 (pmem s) pte) then Panic ''mappages: remap''
          else
            let s = s\<lparr>pmem := store64 (pmem s) pte (PA2PTE pa OR perm OR PTE_V)\<rparr> in
            if a = last_a then Ok (Exit (0, s)) else Ok (Next (a + PGSIZE, pa + PGSIZE, s))))
          (PGROUNDDOWN va, pa, s))"

definition kvmmap :: "u64 \<Rightarrow> u64 \<Rightarrow> u64 \<Rightarrow> u64 \<Rightarrow> u64 \<Rightarrow> kmem \<Rightarrow> kmem res" where
  "kvmmap kpgtbl va pa siz perm s =
     bindR (mappages kpgtbl va siz pa perm s) (\<lambda>(r, s). if r \<noteq> 0 then Panic ''kvmmap'' else Ok s)"

definition uvmunmap :: "u64 \<Rightarrow> u64 \<Rightarrow> u64 \<Rightarrow> u64 \<Rightarrow> bool \<Rightarrow> kmem \<Rightarrow> kmem res" where
  "uvmunmap kend pt va npages do_free s =
     (if va mod PGSIZE \<noteq> 0 then Panic ''uvmunmap: not aligned''
      else
        loopR (\<lambda>(a, s).
          if a < va + npages * PGSIZE then
            bindR (walk pt a False s) (\<lambda>(pte, s).
            if pte = 0 then Panic ''uvmunmap: walk''
            else
              let e = load64 (pmem s) pte in
              if \<not> valid e then Panic ''uvmunmap: not mapped''
              else if PTE_FLAGS e = PTE_V then Panic ''uvmunmap: not a leaf''
              else
                bindR (if do_free then kfree kend (PTE2PA e) s else Ok s) (\<lambda>s.
                Ok (Next (a + PGSIZE, s\<lparr>pmem := store64 (pmem s) pte 0\<rparr>))))
          else Ok (Exit s)) (va, s))"

text \<open>A store to address 0, which the kernel does not map, faults.\<close>

definition zero_page :: "u64 \<Rightarrow> kmem \<Rightarrow> kmem res" where
  "zero_page p s = (if p = 0 then Fault else Ok (s\<lparr>pmem := memset (pmem s) p 0 (ucast PGSIZE)\<rparr>))"

definition uvmcreate :: "kmem \<Rightarrow> u64 \<times> kmem" where
  "uvmcreate s =
     (let (pt, s) = kalloc s in
      if pt = 0 then (0, s) else (pt, s\<lparr>pmem := memset (pmem s) pt 0 (ucast PGSIZE)\<rparr>))"

definition uvmfirst :: "u64 \<Rightarrow> u64 \<Rightarrow> u32 \<Rightarrow> kmem \<Rightarrow> kmem res" where
  "uvmfirst pt src siz s =
     (if ucast siz \<ge> PGSIZE then Panic ''uvmfirst: more than a page''
      else
        let (mem, s) = kalloc s in
        bindR (zero_page mem s) (\<lambda>s.
        bindR (mappages pt 0 PGSIZE mem (PTE_W OR PTE_R OR PTE_X OR PTE_U) s) (\<lambda>(_, s).
        Ok (s\<lparr>pmem := memmove (pmem s) mem src siz\<rparr>))))"

definition uvmdealloc :: "u64 \<Rightarrow> u64 \<Rightarrow> u64 \<Rightarrow> u64 \<Rightarrow> kmem \<Rightarrow> (u64 \<times> kmem) res" where
  "uvmdealloc kend pt oldsz newsz s =
     (if newsz \<ge> oldsz then Ok (oldsz, s)
      else if PGROUNDUP newsz < PGROUNDUP oldsz then
        let npages = ucast ((PGROUNDUP oldsz - PGROUNDUP newsz) div PGSIZE) :: u32 in
        bindR (uvmunmap kend pt (PGROUNDUP newsz) (scast npages) True s) (\<lambda>s. Ok (newsz, s))
      else Ok (newsz, s))"

definition uvmalloc :: "u64 \<Rightarrow> u64 \<Rightarrow> u64 \<Rightarrow> u64 \<Rightarrow> u64 \<Rightarrow> kmem \<Rightarrow> (u64 \<times> kmem) res" where
  "uvmalloc kend pt oldsz newsz xperm s =
     (if newsz < oldsz then Ok (oldsz, s)
      else
        let oldsz = PGROUNDUP oldsz in
        loopR (\<lambda>(a, s).
          if a < newsz then
            let (mem, s) = kalloc s in
            if mem = 0 then
              bindR (uvmdealloc kend pt a oldsz s) (\<lambda>(_, s). Ok (Exit (0, s)))
            else
              let s = s\<lparr>pmem := memset (pmem s) mem 0 (ucast PGSIZE)\<rparr> in
              bindR (mappages pt a PGSIZE mem (PTE_R OR PTE_U OR xperm) s) (\<lambda>(r, s).
              if r \<noteq> 0 then
                bindR (kfree kend mem s) (\<lambda>s.
                bindR (uvmdealloc kend pt a oldsz s) (\<lambda>(_, s). Ok (Exit (0, s))))
              else Ok (Next (a + PGSIZE, s)))
          else Ok (Exit (newsz, s))) (oldsz, s))"

text \<open>
  \<open>freewalk\<close> recurses as deep as the tree; the first argument bounds the depth.  A three-level
  table needs 3, which is what \<open>uvmfree\<close> gives it.
\<close>

primrec freewalk :: "nat \<Rightarrow> u64 \<Rightarrow> u64 \<Rightarrow> kmem \<Rightarrow> kmem res" where
  "freewalk 0 kend pt s = Diverge"
| "freewalk (Suc d) kend pt s =
     bindR (forR (\<lambda>i s.
        let pte = load64 (pmem s) (pt + 8 * of_nat i) in
        if valid pte \<and> pte AND (PTE_R OR PTE_W OR PTE_X) = 0 then
          bindR (freewalk d kend (PTE2PA pte) s) (\<lambda>s.
          Ok (s\<lparr>pmem := store64 (pmem s) (pt + 8 * of_nat i) 0\<rparr>))
        else if valid pte then Panic ''freewalk: leaf''
        else Ok s) [0..<512] s) (\<lambda>s.
     kfree kend pt s)"

definition uvmfree :: "u64 \<Rightarrow> u64 \<Rightarrow> u64 \<Rightarrow> kmem \<Rightarrow> kmem res" where
  "uvmfree kend pt siz s =
     bindR (if siz > 0 then uvmunmap kend pt 0 (PGROUNDUP siz div PGSIZE) True s else Ok s) (\<lambda>s.
     freewalk 3 kend pt s)"

definition uvmcopy :: "u64 \<Rightarrow> u64 \<Rightarrow> u64 \<Rightarrow> u64 \<Rightarrow> kmem \<Rightarrow> (int \<times> kmem) res" where
  "uvmcopy kend old new siz s =
     (let err = (\<lambda>i s. bindR (uvmunmap kend new 0 (i div PGSIZE) True s) (\<lambda>s. Ok (Exit (-1, s)))) in
      loopR (\<lambda>(i, s).
        if i < siz then
          bindR (walk old i False s) (\<lambda>(pte, s).
          if pte = 0 then Panic ''uvmcopy: pte should exist''
          else
            let e = load64 (pmem s) pte in
            if \<not> valid e then Panic ''uvmcopy: page not present''
            else
              let pa = PTE2PA e; flags = PTE_FLAGS e; (mem, s) = kalloc s in
              if mem = 0 then err i s
              else
                let s = s\<lparr>pmem := memmove (pmem s) mem pa (ucast PGSIZE)\<rparr> in
                bindR (mappages new i PGSIZE mem flags s) (\<lambda>(r, s).
                if r \<noteq> 0 then bindR (kfree kend mem s) (err i)
                else Ok (Next (i + PGSIZE, s))))
        else Ok (Exit (0, s))) (0, s))"

definition uvmclear :: "u64 \<Rightarrow> u64 \<Rightarrow> kmem \<Rightarrow> kmem res" where
  "uvmclear pt va s =
     bindR (walk pt va False s) (\<lambda>(pte, s).
     if pte = 0 then Panic ''uvmclear''
     else Ok (s\<lparr>pmem := store64 (pmem s) pte (load64 (pmem s) pte AND NOT PTE_U)\<rparr>))"

section \<open>Copying between kernel and user memory\<close>

definition copyout :: "u64 \<Rightarrow> u64 \<Rightarrow> u64 \<Rightarrow> u64 \<Rightarrow> kmem \<Rightarrow> (int \<times> kmem) res" where
  "copyout pt dstva src len s =
     loopR (\<lambda>(dstva, src, len, s).
       if len > 0 then
         let va0 = PGROUNDDOWN dstva in
         bindR (walkaddr pt va0 s) (\<lambda>pa0.
         if pa0 = 0 then Ok (Exit (-1, s))
         else
           let n = PGSIZE - (dstva - va0);
               n = (if n > len then len else n);
               s = s\<lparr>pmem := memmove (pmem s) (pa0 + (dstva - va0)) src (ucast n)\<rparr>
           in Ok (Next (va0 + PGSIZE, src + n, len - n, s)))
       else Ok (Exit (0, s))) (dstva, src, len, s)"

definition copyin :: "u64 \<Rightarrow> u64 \<Rightarrow> u64 \<Rightarrow> u64 \<Rightarrow> kmem \<Rightarrow> (int \<times> kmem) res" where
  "copyin pt dst srcva len s =
     loopR (\<lambda>(dst, srcva, len, s).
       if len > 0 then
         let va0 = PGROUNDDOWN srcva in
         bindR (walkaddr pt va0 s) (\<lambda>pa0.
         if pa0 = 0 then Ok (Exit (-1, s))
         else
           let n = PGSIZE - (srcva - va0);
               n = (if n > len then len else n);
               s = s\<lparr>pmem := memmove (pmem s) dst (pa0 + (srcva - va0)) (ucast n)\<rparr>
           in Ok (Next (dst + n, va0 + PGSIZE, len - n, s)))
       else Ok (Exit (0, s))) (dst, srcva, len, s)"

text \<open>The inner loop of \<open>copyinstr\<close> over at most \<open>n\<close> bytes at \<open>p\<close>.\<close>

primrec copy_str_page :: "nat \<Rightarrow> u64 \<Rightarrow> u64 \<Rightarrow> u64 \<Rightarrow> memory \<Rightarrow> bool \<times> u64 \<times> u64 \<times> memory" where
  "copy_str_page 0 p dst mx m = (False, dst, mx, m)"
| "copy_str_page (Suc n) p dst mx m =
     (if m p = 0 then (True, dst, mx, m(dst := 0))
      else copy_str_page n (p + 1) (dst + 1) (mx - 1) (m(dst := m p)))"

definition copyinstr :: "u64 \<Rightarrow> u64 \<Rightarrow> u64 \<Rightarrow> u64 \<Rightarrow> kmem \<Rightarrow> (int \<times> kmem) res" where
  "copyinstr pt dst srcva mx s =
     loopR (\<lambda>(got_null, dst, srcva, mx, s).
       if \<not> got_null \<and> mx > 0 then
         let va0 = PGROUNDDOWN srcva in
         bindR (walkaddr pt va0 s) (\<lambda>pa0.
         if pa0 = 0 then Ok (Exit (-1, s))
         else
           let n = PGSIZE - (srcva - va0);
               n = (if n > mx then mx else n);
               (got_null, dst, mx, m) = copy_str_page (unat n) (pa0 + (srcva - va0)) dst mx (pmem s)
           in Ok (Next (got_null, dst, va0 + PGSIZE, mx, s\<lparr>pmem := m\<rparr>)))
       else Ok (Exit (if got_null then 0 else -1, s))) (False, dst, srcva, mx, s)"

section \<open>Kernel page table, process page tables\<close>

definition UART0 :: u64 where "UART0 = 0x10000000"
definition VIRTIO0 :: u64 where "VIRTIO0 = 0x10001000"
definition PLIC :: u64 where "PLIC = 0x0c000000"

definition proc_mapstacks :: "u64 \<Rightarrow> kmem \<Rightarrow> kmem res" where
  "proc_mapstacks kpgtbl s =
     forR (\<lambda>p s.
       let (pa, s) = kalloc s in
       if pa = 0 then Panic ''kalloc'' else kvmmap kpgtbl (KSTACK p) pa PGSIZE (PTE_R OR PTE_W) s)
       [0..<NPROC] s"

text \<open>\<open>etext\<close> and \<open>tramp\<close> are the linker symbols \<open>etext\<close> and \<open>trampoline\<close>.\<close>

definition kvmmake :: "u64 \<Rightarrow> u64 \<Rightarrow> kmem \<Rightarrow> (u64 \<times> kmem) res" where
  "kvmmake etext tramp s =
     (let (kpgtbl, s) = kalloc s in
      bindR (zero_page kpgtbl s) (\<lambda>s.
      bindR (kvmmap kpgtbl UART0 UART0 PGSIZE (PTE_R OR PTE_W) s) (\<lambda>s.
      bindR (kvmmap kpgtbl VIRTIO0 VIRTIO0 PGSIZE (PTE_R OR PTE_W) s) (\<lambda>s.
      bindR (kvmmap kpgtbl PLIC PLIC 0x400000 (PTE_R OR PTE_W) s) (\<lambda>s.
      bindR (kvmmap kpgtbl KERNBASE KERNBASE (etext - KERNBASE) (PTE_R OR PTE_X) s) (\<lambda>s.
      bindR (kvmmap kpgtbl etext etext (PHYSTOP - etext) (PTE_R OR PTE_W) s) (\<lambda>s.
      bindR (kvmmap kpgtbl TRAMPOLINE tramp PGSIZE (PTE_R OR PTE_X) s) (\<lambda>s.
      bindR (proc_mapstacks kpgtbl s) (\<lambda>s.
      Ok (kpgtbl, s))))))))))"

definition proc_pagetable :: "u64 \<Rightarrow> u64 \<Rightarrow> u64 \<Rightarrow> kmem \<Rightarrow> (u64 \<times> kmem) res" where
  "proc_pagetable kend tramp tf s =
     (let (pt, s) = uvmcreate s in
      if pt = 0 then Ok (0, s)
      else
        bindR (mappages pt TRAMPOLINE PGSIZE tramp (PTE_R OR PTE_X) s) (\<lambda>(r, s).
        if r < 0 then bindR (uvmfree kend pt 0 s) (\<lambda>s. Ok (0, s))
        else
          bindR (mappages pt TRAPFRAME PGSIZE tf (PTE_R OR PTE_W) s) (\<lambda>(r, s).
          if r < 0 then
            bindR (uvmunmap kend pt TRAMPOLINE 1 False s) (\<lambda>s.
            bindR (uvmfree kend pt 0 s) (\<lambda>s. Ok (0, s)))
          else Ok (pt, s))))"

definition proc_freepagetable :: "u64 \<Rightarrow> u64 \<Rightarrow> u64 \<Rightarrow> kmem \<Rightarrow> kmem res" where
  "proc_freepagetable kend pt siz s =
     bindR (uvmunmap kend pt TRAMPOLINE 1 False s) (\<lambda>s.
     bindR (uvmunmap kend pt TRAPFRAME 1 False s) (\<lambda>s.
     uvmfree kend pt siz s))"

section \<open>Entries and slots\<close>

lemma PX_less: "unat (PX l va) < 512"
proof -
  have "(0x1FF :: u64) = mask 9" by (simp add: mask_eq_exp_minus_1)
  then have "PX l va = take_bit 9 (drop_bit (12 + 9 * l) va)" by (simp add: PX_def take_bit_eq_mask)
  then have "unat (PX l va) = take_bit 9 (unat (drop_bit (12 + 9 * l) va))" by (simp add: unsigned_take_bit_eq)
  then show ?thesis by (simp add: take_bit_eq_mod)
qed

definition slot :: "u64 \<Rightarrow> nat \<Rightarrow> u64" where
  "slot pt i = pt + 8 * of_nat i"

lemma pte_slot_slot: "pte_slot pt l va = slot pt (unat (PX l va))"
  by (simp add: pte_slot_def slot_def)

lemma slot_offset: "i < 512 \<Longrightarrow> unat (8 * of_nat i + of_nat d :: u64) = 8 * i + d" if "d < 8"
proof -
  assume i: "i < 512"
  have "(8 * of_nat i + of_nat d :: u64) = of_nat (8 * i + d)" by simp
  also have "unat \<dots> = 8 * i + d" using i that by (intro unat_of_nat_small) simp
  finally show ?thesis .
qed

lemma in_slot: "x \<in> region (slot pt i) 8 \<longleftrightarrow> (\<exists>d<8. x = pt + (8 * of_nat i + of_nat d))"
  by (auto simp: in_region_iff slot_def ac_simps)

lemma slot_in_page: "i < 512 \<Longrightarrow> region (slot pt i) 8 \<subseteq> region pt 4096"
proof
  fix x assume "i < 512" "x \<in> region (slot pt i) 8"
  then obtain d where d: "d < 8" "x = pt + (8 * of_nat i + of_nat d)" by (auto simp: in_slot)
  then have "unat (x - pt) = 8 * i + d" using slot_offset [OF d(1) \<open>i < 512\<close>] by simp
  then show "x \<in> region pt 4096" using d(1) \<open>i < 512\<close> by (simp add: region_def)
qed

lemma slots_disjoint:
  assumes "i < 512" "j < 512" "i \<noteq> j"
  shows "region (slot pt i) 8 \<inter> region (slot pt j) 8 = {}"
proof (rule ccontr)
  assume "region (slot pt i) 8 \<inter> region (slot pt j) 8 \<noteq> {}"
  then obtain d e where de: "d < 8" "e < 8" "8 * of_nat i + of_nat d = (8 * of_nat j + of_nat e :: u64)"
    by (auto simp: in_slot)
  have "8 * i + d = 8 * j + e" using slot_offset [OF de(1) assms(1)] slot_offset [OF de(2) assms(2)] de(3) by simp
  then show False using de assms(3) by presburger
qed

lemma load_slot_other:
  assumes "i < 512" "j < 512" "i \<noteq> j"
  shows "load64 (store64 m (slot pt i) v) (slot pt j) = load64 m (slot pt j)"
  using slots_disjoint [OF assms] by (intro load64_cong store64_other) auto

lemma slot_nonzero:
  assumes "page_ok kend pt" "i < 512"
  shows "slot pt i \<noteq> 0"
proof -
  have p: "unat pt < 0x88000000" "pt \<noteq> 0" using assms(1) PHYSTOP_nat by (auto simp: page_ok_def word_less_nat_alt)
  have "unat (slot pt i) = unat pt + 8 * i"
    using unat_add_of_nat [of pt "8 * i"] p(1) assms(2) by (simp add: slot_def)
  then show ?thesis using p(2) by (metis add_is_0 unat_0 unat_eq_0)
qed

lemma take_bit_word_small: "unat (w :: u64) < 2 ^ n \<Longrightarrow> take_bit n w = w"
proof -
  assume "unat w < 2 ^ n"
  then have "unat (take_bit n w) = unat w" by (simp add: unsigned_take_bit_eq take_bit_nat_eq_self)
  then show ?thesis by (rule unsigned_word_eqI)
qed

lemma PTE2PA_PA2PTE:
  assumes "aligned pa" "unat pa < 2 ^ 56" "unat fl < 1024"
  shows "PTE2PA (PA2PTE pa OR fl) = pa"
proof -
  have f: "\<not> bit fl n" if "10 \<le> n" for n
  proof -
    have "take_bit 10 fl = fl" using assms(3) by (intro take_bit_word_small) simp
    then show ?thesis using that by (metis bit_take_bit_iff not_le)
  qed
  have p: "\<not> bit pa n" if "56 \<le> n" for n
  proof -
    have "take_bit 56 pa = pa" using assms(2) by (rule take_bit_word_small)
    then show ?thesis using that by (metis bit_take_bit_iff not_le)
  qed
  have a: "\<not> bit pa n" if "n < 12" for n
  proof -
    have "take_bit 12 pa = 0" using assms(1) by (simp add: aligned_def PGSIZE_def take_bit_eq_mod)
    then show ?thesis using that by (metis bit_0_eq bit_take_bit_iff bot_apply bot_bool_def)
  qed
  show ?thesis
  proof (rule bit_word_eqI)
    fix n assume "n < LENGTH(64)"
    then show "bit (PTE2PA (PA2PTE pa OR fl)) n = bit pa n"
      using f [of "10 + (n - 12)"] p [of n] a [of n]
      by (cases "n < 12") (auto simp: PTE2PA_def PA2PTE_def bit_simps)
  qed
qed

lemma valid_or: "valid (a OR PTE_V)"
proof -
  have "bit ((a OR PTE_V) AND PTE_V) 0" by (simp add: PTE_V_def bit_simps)
  then show ?thesis unfolding valid_def by (metis bit_0_eq bot_apply bot_bool_def)
qed

lemma not_valid_0 [simp]: "\<not> valid 0"
  by (simp add: valid_def)

lemma page_ok_nat: "page_ok kend p \<Longrightarrow> unat p < 2 ^ 56 \<and> aligned p \<and> p \<noteq> 0"
  using PHYSTOP_nat by (auto simp: page_ok_def word_less_nat_alt)

lemma table_entry: "page_ok kend p \<Longrightarrow> PTE2PA (PA2PTE p OR PTE_V) = p"
  using page_ok_nat [of kend p] by (intro PTE2PA_PA2PTE) (auto simp: PTE_V_def)

section \<open>Page tables as trees\<close>

text \<open>The pages of a table of \<open>l\<close> further levels, its leaf entry for an address, and that entry's slot.\<close>

primrec pt_pages :: "nat \<Rightarrow> memory \<Rightarrow> u64 \<Rightarrow> u64 list" where
  "pt_pages 0 m pt = [pt]"
| "pt_pages (Suc l) m pt =
     pt # concat (map (\<lambda>i. if valid (load64 m (slot pt i)) then pt_pages l m (PTE2PA (load64 m (slot pt i))) else []) [0..<512])"

primrec pt_get :: "nat \<Rightarrow> memory \<Rightarrow> u64 \<Rightarrow> u64 \<Rightarrow> u64" where
  "pt_get 0 m pt va = load64 m (pte_slot pt 0 va)"
| "pt_get (Suc l) m pt va =
     (if valid (load64 m (pte_slot pt (Suc l) va)) then pt_get l m (PTE2PA (load64 m (pte_slot pt (Suc l) va))) va else 0)"

primrec pt_leaf :: "nat \<Rightarrow> memory \<Rightarrow> u64 \<Rightarrow> u64 \<Rightarrow> u64 option" where
  "pt_leaf 0 m pt va = Some (pte_slot pt 0 va)"
| "pt_leaf (Suc l) m pt va =
     (if valid (load64 m (pte_slot pt (Suc l) va)) then pt_leaf l m (PTE2PA (load64 m (pte_slot pt (Suc l) va))) va else None)"

definition kids :: "nat \<Rightarrow> memory \<Rightarrow> u64 \<Rightarrow> nat \<Rightarrow> u64 list" where
  "kids l m pt i = (if valid (load64 m (slot pt i)) then pt_pages l m (PTE2PA (load64 m (slot pt i))) else [])"

lemma pt_pages_Suc: "pt_pages (Suc l) m pt = pt # concat (map (kids l m pt) [0..<512])"
  by (simp add: kids_def [abs_def])

lemma set_pt_pages_Suc: "set (pt_pages (Suc l) m pt) = insert pt (\<Union>i<512. set (kids l m pt i))"
  unfolding pt_pages_Suc by (simp add: lessThan_atLeast0)

lemma distinct_concat_upt:
  "distinct (concat (map f [0..<n])) \<longleftrightarrow>
     (\<forall>i<n. distinct (f i)) \<and> (\<forall>i<n. \<forall>j<n. i \<noteq> j \<longrightarrow> set (f i) \<inter> set (f j) = {})"
proof (induction n)
  case (Suc n)
  have a: "distinct (concat (map f [0..<Suc n])) \<longleftrightarrow>
      distinct (concat (map f [0..<n])) \<and> distinct (f n) \<and> (\<forall>i<n. set (f i) \<inter> set (f n) = {})"
    by (auto simp: disjoint_iff Bex_def)
  have b: "(\<forall>i<Suc n. \<forall>j<Suc n. i \<noteq> j \<longrightarrow> set (f i) \<inter> set (f j) = {}) \<longleftrightarrow>
      (\<forall>i<n. \<forall>j<n. i \<noteq> j \<longrightarrow> set (f i) \<inter> set (f j) = {}) \<and> (\<forall>i<n. set (f i) \<inter> set (f n) = {})"
    by (metis Int_commute less_Suc_eq less_irrefl_nat)
  have c: "(\<forall>i<Suc n. distinct (f i)) \<longleftrightarrow> distinct (f n) \<and> (\<forall>i<n. distinct (f i))" by (rule All_less_Suc)
  show ?case by (simp only: a b c Suc.IH conj_ac)
qed simp

lemma distinct_pt_pages_Suc:
  "distinct (pt_pages (Suc l) m pt) \<longleftrightarrow>
     (\<forall>i<512. pt \<notin> set (kids l m pt i)) \<and> (\<forall>i<512. distinct (kids l m pt i)) \<and>
     (\<forall>i<512. \<forall>j<512. i \<noteq> j \<longrightarrow> set (kids l m pt i) \<inter> set (kids l m pt j) = {})"
  unfolding pt_pages_Suc by (auto simp: distinct_concat_upt)

lemma pt_pages_self: "pt \<in> set (pt_pages l m pt)"
  by (cases l) auto

text \<open>The tree depends only on the memory of its pages.\<close>

lemma pt_frame:
  assumes "\<And>p x. p \<in> set (pt_pages l m pt) \<Longrightarrow> x \<in> region p 4096 \<Longrightarrow> g x = m x"
  shows "pt_pages l g pt = pt_pages l m pt \<and> pt_get l g pt va = pt_get l m pt va \<and> pt_leaf l g pt va = pt_leaf l m pt va"
  using assms
proof (induction l arbitrary: pt)
  case 0
  have "load64 g (pte_slot pt 0 va) = load64 m (pte_slot pt 0 va)"
    using 0 [of pt] slot_in_page [OF PX_less, of pt 0 va] by (intro load64_cong) (auto simp: pte_slot_slot)
  then show ?case by simp
next
  case (Suc l)
  have ld: "load64 g (slot pt i) = load64 m (slot pt i)" if "i < 512" for i
    using Suc.prems pt_pages_self slot_in_page [OF that] by (intro load64_cong) blast
  have k: "pt_pages l g (PTE2PA (load64 m (slot pt i))) = pt_pages l m (PTE2PA (load64 m (slot pt i))) \<and>
      pt_get l g (PTE2PA (load64 m (slot pt i))) va = pt_get l m (PTE2PA (load64 m (slot pt i))) va \<and>
      pt_leaf l g (PTE2PA (load64 m (slot pt i))) va = pt_leaf l m (PTE2PA (load64 m (slot pt i))) va"
    if "i < 512" "valid (load64 m (slot pt i))" for i
  proof (rule Suc.IH)
    fix p x assume p: "p \<in> set (pt_pages l m (PTE2PA (load64 m (slot pt i))))" "x \<in> region p 4096"
    then have "p \<in> set (pt_pages (Suc l) m pt)" using that unfolding set_pt_pages_Suc by (auto simp: kids_def)
    then show "g x = m x" using Suc.prems p(2) by blast
  qed
  have "map (kids l g pt) [0..<512] = map (kids l m pt) [0..<512]"
    using ld k by (auto simp: kids_def)
  then have "pt_pages (Suc l) g pt = pt_pages (Suc l) m pt" unfolding pt_pages_Suc by (rule arg_cong)
  then show ?case using ld [OF PX_less] k [OF PX_less] by (simp add: pte_slot_slot)
qed

lemma pt_zero:
  assumes "\<And>x. x \<in> region pt 4096 \<Longrightarrow> m x = 0"
  shows "pt_pages l m pt = [pt]" "pt_get l m pt va = 0"
proof -
  have z: "load64 m (slot pt i) = 0" if "i < 512" for i
    using assms slot_in_page [OF that]
    by (subst load64_cong [where m = "\<lambda>_. 0"]) (auto simp: load64_def)
  show "pt_pages l m pt = [pt]" using z by (cases l) (auto simp: pt_pages_Suc kids_def simp del: pt_pages.simps(2))
  show "pt_get l m pt va = 0" using z [OF PX_less] by (cases l) (auto simp: pte_slot_slot)
qed

definition pt_ok :: "u64 \<Rightarrow> nat \<Rightarrow> memory \<Rightarrow> u64 \<Rightarrow> bool" where
  "pt_ok kend l m pt \<longleftrightarrow> distinct (pt_pages l m pt) \<and> (\<forall>p\<in>set (pt_pages l m pt). page_ok kend p)"

text \<open>Replacing child \<open>i\<close> of a node, everything else of the node and its other children kept.\<close>

lemma kids_update:
  assumes ok: "pt_ok kend (Suc l) m pt" and i: "i < 512"
    and ent: "\<And>j. j < 512 \<Longrightarrow> j \<noteq> i \<Longrightarrow> load64 g (slot pt j) = load64 m (slot pt j)"
    and kid: "valid (load64 g (slot pt i))" "pt_ok kend l g (PTE2PA (load64 g (slot pt i)))"
    and sub: "set (pt_pages l g (PTE2PA (load64 g (slot pt i)))) = set (kids l m pt i) \<union> N"
    and new: "N \<inter> set (pt_pages (Suc l) m pt) = {}"
    and fr: "\<And>j p x. j < 512 \<Longrightarrow> j \<noteq> i \<Longrightarrow> p \<in> set (kids l m pt j) \<Longrightarrow> x \<in> region p 4096 \<Longrightarrow> g x = m x"
  shows "pt_ok kend (Suc l) g pt \<and> set (pt_pages (Suc l) g pt) = set (pt_pages (Suc l) m pt) \<union> N"
proof -
  have d: "distinct (pt_pages (Suc l) m pt)" and o: "\<forall>p\<in>set (pt_pages (Suc l) m pt). page_ok kend p"
    using ok by (auto simp: pt_ok_def simp del: pt_pages.simps)
  have kj: "kids l g pt j = kids l m pt j" if "j < 512" "j \<noteq> i" for j
    using ent [OF that] fr [OF that] pt_frame [of l m "PTE2PA (load64 m (slot pt j))" g] by (auto simp: kids_def)
  have ki: "set (kids l g pt i) = set (kids l m pt i) \<union> N" "distinct (kids l g pt i)"
    using kid sub by (auto simp: kids_def pt_ok_def)
  have new': "pt \<notin> N" "\<And>j. j < 512 \<Longrightarrow> N \<inter> set (kids l m pt j) = {}" using new unfolding set_pt_pages_Suc by auto
  have s: "set (pt_pages (Suc l) g pt) = set (pt_pages (Suc l) m pt) \<union> N"
  proof -
    have "set (kids l g pt j) = (if j = i then set (kids l m pt i) \<union> N else set (kids l m pt j))" if "j < 512" for j
      using ki kj that by auto
    then have "(\<Union>j<512. set (kids l g pt j)) = (\<Union>j<512. if j = i then set (kids l m pt i) \<union> N else set (kids l m pt j))"
      by simp
    also have "\<dots> = (\<Union>j<512. set (kids l m pt j)) \<union> N" using i by (auto split: if_splits)
    finally show ?thesis unfolding set_pt_pages_Suc by blast
  qed
  have "distinct (pt_pages (Suc l) g pt)"
    unfolding distinct_pt_pages_Suc
  proof (intro conjI allI impI)
    fix j assume j: "j < (512 :: nat)"
    have m: "pt \<notin> set (kids l m pt j)" "distinct (kids l m pt j)" using d j unfolding distinct_pt_pages_Suc by auto
    show "pt \<notin> set (kids l g pt j)" "distinct (kids l g pt j)"
      using m ki kj [OF j] new' by (cases "j = i"; auto)+
    fix k assume k: "k < (512 :: nat)" "j \<noteq> k"
    have "set (kids l m pt j) \<inter> set (kids l m pt k) = {}" using d j k unfolding distinct_pt_pages_Suc by auto
    then show "set (kids l g pt j) \<inter> set (kids l g pt k) = {}"
      using ki kj [OF j] kj [OF k(1)] new'(2) [OF j] new'(2) [OF k(1)] k(2) by (cases "j = i"; cases "k = i") auto
  qed
  moreover have "\<forall>p\<in>N. page_ok kend p" using kid(2) sub by (auto simp: pt_ok_def)
  ultimately show ?thesis using s o by (auto simp: pt_ok_def simp del: pt_pages.simps)
qed

lemma page_sep:
  assumes "x \<in> region p 4096" "page_ok kend p" "page_ok kend q" "p \<noteq> q"
  shows "x \<notin> region q 4096"
  using page_disjoint [of p q] assms by (auto simp: page_ok_def)

lemma kmem_inv_frame:
  assumes "kmem_inv kend s ps" "\<And>p x. p \<in> set ps \<Longrightarrow> x \<in> region p 4096 \<Longrightarrow> g x = pmem s x"
  shows "kmem_inv kend (s\<lparr>pmem := g\<rparr>) ps"
proof -
  have "free_chain g (freelist s) ps = free_chain (pmem s) (freelist s) ps"
  proof (rule free_chain_cong)
    fix p x assume "p \<in> set ps" "x \<in> region p 8"
    then show "g x = pmem s x" using assms(2) region_mono [of 8 4096 p] by auto
  qed
  then show ?thesis using assms(1) by (simp add: kmem_inv_def)
qed

lemma kids_update_get:
  assumes i: "i < 512" and ent: "\<And>j. j < 512 \<Longrightarrow> j \<noteq> i \<Longrightarrow> load64 g (slot pt j) = load64 m (slot pt j)"
    and fr: "\<And>j p x. j < 512 \<Longrightarrow> j \<noteq> i \<Longrightarrow> p \<in> set (kids l m pt j) \<Longrightarrow> x \<in> region p 4096 \<Longrightarrow> g x = m x"
    and v: "valid (load64 g (slot pt i))"
  shows "pt_get (Suc l) g pt w =
    (if unat (PX (Suc l) w) = i then pt_get l g (PTE2PA (load64 g (slot pt i))) w else pt_get (Suc l) m pt w)"
proof (cases "unat (PX (Suc l) w) = i")
  case True then show ?thesis using v by (simp add: pte_slot_slot)
next
  case False
  let ?j = "unat (PX (Suc l) w)"
  have "load64 g (slot pt ?j) = load64 m (slot pt ?j)" using ent [OF PX_less False] .
  moreover have "pt_get l g (PTE2PA (load64 m (slot pt ?j))) w = pt_get l m (PTE2PA (load64 m (slot pt ?j))) w"
    if "valid (load64 m (slot pt ?j))"
    using fr [OF PX_less False] that pt_frame [of l m "PTE2PA (load64 m (slot pt ?j))" g w] by (auto simp: kids_def)
  ultimately show ?thesis using False by (simp add: pte_slot_slot)
qed

text \<open>What \<open>walk\<close> with \<open>alloc\<close> promises of the table it grows.\<close>

definition grown :: "u64 \<Rightarrow> nat \<Rightarrow> kmem \<Rightarrow> u64 \<Rightarrow> u64 list \<Rightarrow> u64 list \<Rightarrow> kmem \<Rightarrow> bool" where
  "grown kend l s pt ns qs t \<longleftrightarrow>
     kmem_inv kend t qs \<and> pt_ok kend l (pmem t) pt \<and>
     set (pt_pages l (pmem t) pt) = set (pt_pages l (pmem s) pt) \<union> set ns \<and>
     (\<forall>w. pt_get l (pmem t) pt w = pt_get l (pmem s) pt w) \<and>
     (\<forall>x. (\<forall>p\<in>set (pt_pages l (pmem s) pt) \<union> set ns. x \<notin> region p 4096) \<longrightarrow> pmem t x = pmem s x)"

lemma kids_sub: "i < 512 \<Longrightarrow> set (kids l m pt i) \<subseteq> set (pt_pages (Suc l) m pt)"
  unfolding set_pt_pages_Suc by auto

lemma kids_apart:
  assumes "pt_ok kend (Suc l) m pt" "i < 512" "j < 512" "i \<noteq> j"
  shows "set (kids l m pt i) \<inter> set (kids l m pt j) = {}" "pt \<notin> set (kids l m pt i)"
  using assms unfolding pt_ok_def distinct_pt_pages_Suc by auto

lemma pt_okD: "pt_ok kend l m pt \<Longrightarrow> p \<in> set (pt_pages l m pt) \<Longrightarrow> page_ok kend p"
  by (simp add: pt_ok_def)

text \<open>A child that has grown in place: the node has grown by the same pages.\<close>

lemma grown_child:
  assumes ok: "pt_ok kend (Suc l) (pmem s) pt" and i: "i < 512"
    and fresh: "set ns \<inter> set (pt_pages (Suc l) (pmem s) pt) = {}" "\<forall>p\<in>set ns. page_ok kend p"
    and e: "load64 (pmem t) (slot pt i) = c" "valid c" and kok: "pt_ok kend l (pmem t) (PTE2PA c)"
    and sub: "set (pt_pages l (pmem t) (PTE2PA c)) = set (kids l (pmem s) pt i) \<union> set ns"
    and get: "\<And>w. unat (PX (Suc l) w) = i \<Longrightarrow> pt_get l (pmem t) (PTE2PA c) w = pt_get (Suc l) (pmem s) pt w"
    and fr: "\<And>x. (\<forall>p\<in>set (kids l (pmem s) pt i) \<union> set ns. x \<notin> region p 4096) \<Longrightarrow> x \<notin> region (slot pt i) 8 \<Longrightarrow> pmem t x = pmem s x"
    and km: "kmem_inv kend t qs"
  shows "grown kend (Suc l) s pt ns qs t"
proof -
  let ?K = "set (kids l (pmem s) pt i) \<union> set ns"
  have pK: "page_ok kend p" if "p \<in> ?K" for p using that fresh(2) pt_okD [OF ok] kids_sub [OF i] by blast
  have ptK: "pt \<notin> ?K" using kids_apart(2) [OF ok i i] distinct_pt_pages_Suc fresh(1) ok i
    unfolding pt_ok_def set_pt_pages_Suc by auto
  have ppt: "page_ok kend pt" using pt_okD [OF ok] pt_pages_self by blast
  have ent: "load64 (pmem t) (slot pt j) = load64 (pmem s) (slot pt j)" if j: "j < 512" "j \<noteq> i" for j
  proof (rule load64_cong)
    fix x assume x: "x \<in> region (slot pt j) 8"
    have "x \<in> region pt 4096" using x slot_in_page [OF j(1)] by blast
    then have "\<forall>p\<in>?K. x \<notin> region p 4096" using page_sep [OF _ ppt pK] ptK by metis
    then show "pmem t x = pmem s x" using fr x slots_disjoint [OF j(1) i j(2), of pt] by blast
  qed
  have frj: "pmem t x = pmem s x" if j: "j < 512" "j \<noteq> i" "p \<in> set (kids l (pmem s) pt j)" "x \<in> region p 4096" for j p x
  proof (rule fr)
    have pj: "page_ok kend p" "p \<in> set (pt_pages (Suc l) (pmem s) pt)" using pt_okD [OF ok] kids_sub [OF j(1)] j(3) by blast+
    have "p \<notin> ?K" using kids_apart(1) [OF ok i j(1)] j(2,3) fresh(1) pj(2) by blast
    then show "\<forall>p\<in>?K. x \<notin> region p 4096" using page_sep [OF j(4) pj(1) pK] by metis
    have "p \<noteq> pt" using kids_apart(2) [OF ok j(1) i] j by blast
    then show "x \<notin> region (slot pt i) 8" using page_sep [OF j(4) pj(1) ppt] slot_in_page [OF i, of pt] by blast
  qed
  have g: "pt_ok kend (Suc l) (pmem t) pt \<and> set (pt_pages (Suc l) (pmem t) pt) = set (pt_pages (Suc l) (pmem s) pt) \<union> set ns"
    using e kok sub ent frj fresh(1) by (intro kids_update [OF ok i]) auto
  have "pt_get (Suc l) (pmem t) pt w = pt_get (Suc l) (pmem s) pt w" for w
    using kids_update_get [of i "pmem t" pt "pmem s" l w] i ent frj e get [of w] by auto
  moreover have "pmem t x = pmem s x" if x: "\<forall>p\<in>set (pt_pages (Suc l) (pmem s) pt) \<union> set ns. x \<notin> region p 4096" for x
  proof (rule fr)
    show "\<forall>p\<in>?K. x \<notin> region p 4096" using x kids_sub [OF i] by blast
    have "x \<notin> region pt 4096" using x pt_pages_self by blast
    then show "x \<notin> region (slot pt i) 8" using slot_in_page [OF i, of pt] by blast
  qed
  ultimately show ?thesis using g km by (simp add: grown_def del: pt_pages.simps pt_get.simps)
qed

lemma grownD:
  assumes "grown kend l s pt ns qs t"
  shows "kmem_inv kend t qs" "pt_ok kend l (pmem t) pt"
    "set (pt_pages l (pmem t) pt) = set (pt_pages l (pmem s) pt) \<union> set ns"
    "pt_get l (pmem t) pt w = pt_get l (pmem s) pt w"
    "(\<And>p. p \<in> set (pt_pages l (pmem s) pt) \<union> set ns \<Longrightarrow> x \<notin> region p 4096) \<Longrightarrow> pmem t x = pmem s x"
  using assms unfolding grown_def by blast+

lemma grown_refl:
  assumes "pt_ok kend l (pmem s) pt" "kmem_inv kend s ps"
  shows "grown kend l s pt [] ps s"
  using assms by (simp add: grown_def)

text \<open>A new, zeroed table page linked into slot \<open>i\<close>.\<close>

definition link_page :: "u64 \<Rightarrow> nat \<Rightarrow> u64 \<Rightarrow> kmem \<Rightarrow> kmem" where
  "link_page pt i p t = t\<lparr>pmem := store64 (memset (pmem t) p 0 (ucast PGSIZE)) (slot pt i) (PA2PTE p OR PTE_V)\<rparr>"

lemma link_page_apply:
  assumes "page_ok kend p" "page_ok kend pt" "p \<noteq> pt" "i < 512"
  shows "x \<in> region p 4096 \<Longrightarrow> pmem (link_page pt i p t) x = 0"
    "x \<notin> region p 4096 \<Longrightarrow> x \<notin> region (slot pt i) 8 \<Longrightarrow> pmem (link_page pt i p t) x = pmem t x"
    "load64 (pmem (link_page pt i p t)) (slot pt i) = PA2PTE p OR PTE_V"
proof -
  have "region (slot pt i) 8 \<inter> region p 4096 = {}"
    using page_sep [OF _ assms(1,2,3)] slot_in_page [OF assms(4), of pt] by blast
  then show "x \<in> region p 4096 \<Longrightarrow> pmem (link_page pt i p t) x = 0"
    by (subst link_page_def) (auto simp: memset_page_apply intro!: trans [OF store64_other])
  show "x \<notin> region p 4096 \<Longrightarrow> x \<notin> region (slot pt i) 8 \<Longrightarrow> pmem (link_page pt i p t) x = pmem t x"
    by (auto simp: link_page_def store64_other memset_page_apply)
  show "load64 (pmem (link_page pt i p t)) (slot pt i) = PA2PTE p OR PTE_V"
    by (simp add: link_page_def)
qed

lemma walk_from_alloc_new:
  assumes ok: "pt_ok kend (Suc l) (pmem s) pt" and km: "kmem_inv kend s (p # ps)"
    and free: "set (p # ps) \<inter> set (pt_pages (Suc l) (pmem s) pt) = {}"
    and nv: "\<not> valid (load64 (pmem s) (slot pt i))" and i: "i < 512"
    and k: "kalloc s = (p, u)"
  shows "kmem_inv kend (link_page pt i p u) ps" "pt_ok kend l (pmem (link_page pt i p u)) p"
    "pt_pages l (pmem (link_page pt i p u)) p = [p]" "pt_get l (pmem (link_page pt i p u)) p w = 0"
    "x \<notin> region p 4096 \<Longrightarrow> x \<notin> region (slot pt i) 8 \<Longrightarrow> pmem (link_page pt i p u) x = pmem s x"
proof -
  obtain u': "kmem_inv kend u ps" "page_ok kend p" "p \<notin> set ps" "\<And>x. x \<notin> region p 4096 \<Longrightarrow> pmem u x = pmem s x"
    using kalloc_inv [OF km] k by auto
  have pt: "page_ok kend pt" "pt \<noteq> p" "pt \<notin> set ps" using pt_okD [OF ok pt_pages_self] free pt_pages_self [of pt "Suc l" "pmem s"] by auto
  note lk = link_page_apply [OF u'(2) pt(1) pt(2) [symmetric] i]
  have "kmem_inv kend (u\<lparr>pmem := pmem (link_page pt i p u)\<rparr>) ps"
  proof (rule kmem_inv_frame [OF u'(1)])
    fix q x assume q: "q \<in> set ps" "x \<in> region q 4096"
    have qo: "page_ok kend q" using u'(1) q(1) by (simp add: kmem_inv_def)
    have "x \<notin> region p 4096" "x \<notin> region pt 4096"
      using page_sep [OF q(2) qo u'(2)] page_sep [OF q(2) qo pt(1)] q(1) u'(3) pt(3) by blast+
    then show "pmem (link_page pt i p u) x = pmem u x" using lk(2) slot_in_page [OF i, of pt] by blast
  qed
  then show "kmem_inv kend (link_page pt i p u) ps" by (simp add: link_page_def)
  show pg: "pt_pages l (pmem (link_page pt i p u)) p = [p]" using pt_zero(1) lk(1) by blast
  then show "pt_ok kend l (pmem (link_page pt i p u)) p" using u'(2) by (simp add: pt_ok_def)
  show "pt_get l (pmem (link_page pt i p u)) p w = 0" using pt_zero(2) lk(1) by blast
  show "x \<notin> region p 4096 \<Longrightarrow> x \<notin> region (slot pt i) 8 \<Longrightarrow> pmem (link_page pt i p u) x = pmem s x"
    using lk(2) u'(4) by simp
qed

lemma walk_from_alloc:
  assumes "pt_ok kend l (pmem s) pt" "kmem_inv kend s ps" "set ps \<inter> set (pt_pages l (pmem s) pt) = {}"
  shows "\<exists>r t ns qs. walk_from l pt va True s = (r, t) \<and> ps = ns @ qs \<and> grown kend l s pt ns qs t \<and>
    (if r = 0 then qs = [] \<and> length ns < l else pt_leaf l (pmem t) pt va = Some r \<and> length ns \<le> l)"
  using assms
proof (induction l arbitrary: s pt ps)
  case 0
  have "slot pt (unat (PX 0 va)) \<noteq> 0" using slot_nonzero pt_okD [OF 0(1) pt_pages_self] PX_less by blast
  then show ?case using grown_refl [OF 0(1,2)] by (auto simp: pte_slot_slot)
next
  case (Suc l)
  let ?i = "unat (PX (Suc l) va)" and ?e = "load64 (pmem s) (slot pt (unat (PX (Suc l) va)))"
  note i = PX_less [of "Suc l" va]
  have fp: "\<forall>p\<in>set ps. page_ok kend p" using Suc.prems(2) by (simp add: kmem_inv_def)
  show ?case
  proof (cases "valid ?e")
    case True
    have kd: "kids l (pmem s) pt ?i = pt_pages l (pmem s) (PTE2PA ?e)" using True by (simp add: kids_def)
    have kok: "pt_ok kend l (pmem s) (PTE2PA ?e)"
      using Suc.prems(1) kids_sub [OF i, of l "pmem s" pt] i unfolding pt_ok_def distinct_pt_pages_Suc kd [symmetric] by blast
    have "set ps \<inter> set (pt_pages l (pmem s) (PTE2PA ?e)) = {}"
      using Suc.prems(3) kids_sub [OF i, of l "pmem s" pt] unfolding kd by blast
    from Suc.IH [OF kok Suc.prems(2) this] obtain r t ns qs where
      w: "walk_from l (PTE2PA ?e) va True s = (r, t)" "ps = ns @ qs" "grown kend l s (PTE2PA ?e) ns qs t"
         "if r = 0 then qs = [] \<and> length ns < l else pt_leaf l (pmem t) (PTE2PA ?e) va = Some r \<and> length ns \<le> l" by blast
    have "pt \<notin> set (kids l (pmem s) pt ?i) \<union> set ns"
      using Suc.prems(1,3) i w(2) pt_pages_self [of pt "Suc l" "pmem s"] unfolding pt_ok_def distinct_pt_pages_Suc by auto
    moreover have "page_ok kend p" if "p \<in> set (kids l (pmem s) pt ?i) \<union> set ns" for p
      using that pt_okD [OF kok] fp w(2) unfolding kd by auto
    ultimately have "x \<notin> region p 4096" if "x \<in> region pt 4096" "p \<in> set (kids l (pmem s) pt ?i) \<union> set ns" for x p
      using that page_sep [OF that(1) pt_okD [OF Suc.prems(1) pt_pages_self]] by metis
    then have e: "load64 (pmem t) (slot pt ?i) = ?e"
      using slot_in_page [OF i, of pt] grownD(5) [OF w(3)] unfolding kd by (intro load64_cong) blast
    have g: "grown kend (Suc l) s pt ns qs t"
    proof (rule grown_child [OF Suc.prems(1) i _ _ e True grownD(2) [OF w(3)]])
      show "set ns \<inter> set (pt_pages (Suc l) (pmem s) pt) = {}" using Suc.prems(3) w(2) by auto
      show "\<forall>p\<in>set ns. page_ok kend p" using fp w(2) by auto
    qed (use grownD [OF w(3)] True in \<open>auto simp: kd pte_slot_slot\<close>)
    moreover have "walk_from (Suc l) pt va True s = (r, t)" using w(1) True by (simp add: pte_slot_slot Let_def)
    moreover have "pt_leaf (Suc l) (pmem t) pt va = pt_leaf l (pmem t) (PTE2PA ?e) va" using e True by (simp add: pte_slot_slot)
    ultimately show ?thesis using w(2,4) by (intro exI [of _ r] exI [of _ t] exI [of _ ns] exI [of _ qs]) auto
  next
    case False
    show ?thesis
    proof (cases ps)
      case Nil
      then have "kalloc s = (0, s)" using kalloc_empty Suc.prems(2) by blast
      then have "walk_from (Suc l) pt va True s = (0, s)" using False by (simp add: pte_slot_slot Let_def)
      then show ?thesis using grown_refl [OF Suc.prems(1,2)] Nil by fastforce
    next
      case (Cons p ps')
      then obtain u where u: "kalloc s = (p, u)" using kalloc_inv Suc.prems(2) by blast
      have p: "page_ok kend p" "p \<noteq> 0" using fp Cons by (auto simp: page_ok_def)
      let ?s = "link_page pt ?i p u"
      note n = walk_from_alloc_new [OF Suc.prems(1) _ _ False i u]
      note n = n [OF Suc.prems(2) [unfolded Cons] Suc.prems(3) [unfolded Cons]]
      have "set ps' \<inter> set (pt_pages l (pmem ?s) p) = {}" using n(3) Suc.prems(2) Cons by (simp add: kmem_inv_def)
      from Suc.IH [OF n(2,1) this] obtain r t ns qs where
        w: "walk_from l p va True ?s = (r, t)" "ps' = ns @ qs" "grown kend l ?s p ns qs t"
           "if r = 0 then qs = [] \<and> length ns < l else pt_leaf l (pmem t) p va = Some r \<and> length ns \<le> l" by blast
      have ptn: "pt \<notin> set (p # ns)" using Suc.prems(3) Cons w(2) pt_pages_self [of pt "Suc l" "pmem s"] by auto
      have po: "page_ok kend q" if "q \<in> set (p # ns)" for q using that fp Cons w(2) by auto
      have sep: "x \<notin> region q 4096" if "x \<in> region (slot pt ?i) 8" "q \<in> set (p # ns)" for x q
        using that ptn po slot_in_page [OF i, of pt] page_sep [OF _ pt_okD [OF Suc.prems(1) pt_pages_self] po [OF that(2)], of x]
        by blast
      have "load64 (pmem t) (slot pt ?i) = load64 (pmem ?s) (slot pt ?i)"
        using grownD(5) [OF w(3)] sep n(3) by (intro load64_cong) auto
      then have e: "load64 (pmem t) (slot pt ?i) = PA2PTE p OR PTE_V" by (simp add: link_page_def)
      have te: "PTE2PA (PA2PTE p OR PTE_V) = p" using table_entry [OF p(1)] .
      have "grown kend (Suc l) s pt (p # ns) qs t"
      proof (rule grown_child [OF Suc.prems(1) i _ _ e valid_or])
        show "set (p # ns) \<inter> set (pt_pages (Suc l) (pmem s) pt) = {}" using Suc.prems(3) Cons w(2) by auto
        show "pmem t x = pmem s x" if "\<forall>q\<in>set (kids l (pmem s) pt ?i) \<union> set (p # ns). x \<notin> region q 4096"
            "x \<notin> region (slot pt ?i) 8" for x
          using that n(5) [of x] grownD(5) [OF w(3), of x] n(3) by auto
      qed (use grownD [OF w(3)] False po n(3,4) in \<open>auto simp: te kids_def pte_slot_slot\<close>)
      moreover have "walk_from (Suc l) pt va True s = (r, t)"
        using False u p(2) w(1) by (simp add: pte_slot_slot Let_def link_page_def)
      moreover have "pt_leaf (Suc l) (pmem t) pt va = pt_leaf l (pmem t) p va" using e te valid_or by (simp add: pte_slot_slot)
      ultimately show ?thesis using w(2,4) Cons by (intro exI [of _ r] exI [of _ t] exI [of _ "p # ns"] exI [of _ qs]) auto
    qed
  qed
qed

section \<open>Leaf entries\<close>

lemma walk_from_read:
  assumes "pt_ok kend l (pmem s) pt"
  shows "walk_from l pt va False s = ((case pt_leaf l (pmem s) pt va of None \<Rightarrow> 0 | Some a \<Rightarrow> a), s)"
    "pt_leaf l (pmem s) pt va = Some a \<Longrightarrow> a \<noteq> 0 \<and> pt_get l (pmem s) pt va = load64 (pmem s) a"
    "pt_leaf l (pmem s) pt va = None \<Longrightarrow> pt_get l (pmem s) pt va = 0"
  using assms
proof (induction l arbitrary: pt)
  case 0
  { case 2 then show ?case using slot_nonzero pt_okD [OF 2(2) pt_pages_self] PX_less by (auto simp: pte_slot_slot) }
next
  case (Suc l)
  let ?i = "unat (PX (Suc l) va)"
  have k: "pt_ok kend l (pmem s) (PTE2PA (load64 (pmem s) (slot pt ?i)))"
    if "pt_ok kend (Suc l) (pmem s) pt" "valid (load64 (pmem s) (slot pt ?i))" for pt
    using that kids_sub [OF PX_less, of l "pmem s" pt "Suc l" va] PX_less [of "Suc l" va]
    unfolding pt_ok_def distinct_pt_pages_Suc by (auto simp: kids_def)
  { case 1 show ?case
    proof (cases "valid (load64 (pmem s) (slot pt ?i))")
      case True then show ?thesis using Suc.IH(1) [OF k [OF 1 True]] by (simp add: pte_slot_slot Let_def)
    qed (simp add: pte_slot_slot Let_def) }
  { case 2 then show ?case using Suc.IH(2) k by (auto simp: pte_slot_slot split: if_splits) }
  { case 3 then show ?case using Suc.IH(3) k by (auto simp: pte_slot_slot split: if_splits) }
qed auto

lemma kids_eq_pages:
  assumes "\<And>i. i < 512 \<Longrightarrow> kids l g pt i = kids l m pt i"
  shows "pt_pages (Suc l) g pt = pt_pages (Suc l) m pt"
proof -
  have "map (kids l g pt) [0..<512] = map (kids l m pt) [0..<512]" using assms by simp
  then show ?thesis unfolding pt_pages_Suc by (rule arg_cong)
qed

lemma unat_eq_iff64: "unat a = unat b \<longleftrightarrow> a = (b :: u64)"
  by (metis unsigned_word_eqI)

text \<open>Storing to a leaf slot changes exactly that entry.\<close>

lemma pt_store:
  assumes "pt_ok kend l m pt" "pt_leaf l m pt va = Some a"
  shows "pt_pages l (store64 m a v) pt = pt_pages l m pt \<and> pt_leaf l (store64 m a v) pt va = Some a \<and>
    (\<forall>w. pt_get l (store64 m a v) pt w = (if \<forall>k\<le>l. PX k w = PX k va then v else pt_get l m pt w)) \<and>
    (\<exists>q\<in>set (pt_pages l m pt). region a 8 \<subseteq> region q 4096)"
  using assms
proof (induction l arbitrary: pt)
  case 0
  have a: "a = slot pt (unat (PX 0 va))" using 0(2) by (simp add: pte_slot_slot)
  have "load64 (store64 m a v) (slot pt (unat (PX 0 w))) = load64 m (slot pt (unat (PX 0 w)))" if "PX 0 w \<noteq> PX 0 va" for w
    using that unfolding a by (intro load_slot_other PX_less) (auto dest: unsigned_word_eqI)
  then show ?case using a slot_in_page [OF PX_less, of pt 0 va] by (auto simp: pte_slot_slot)
next
  case (Suc l)
  let ?i = "unat (PX (Suc l) va)" and ?g = "store64 m a v"
  let ?c = "PTE2PA (load64 m (slot pt ?i))"
  note i = PX_less [of "Suc l" va]
  have val: "valid (load64 m (slot pt ?i))" and lf: "pt_leaf l m ?c va = Some a"
    using Suc.prems(2) by (auto simp: pte_slot_slot split: if_splits)
  have kd: "kids l m pt ?i = pt_pages l m ?c" using val by (simp add: kids_def)
  have kok: "pt_ok kend l m ?c"
    using Suc.prems(1) kids_sub [OF i, of l m pt] i unfolding pt_ok_def distinct_pt_pages_Suc kd [symmetric] by blast
  note IH = Suc.IH [OF kok lf]
  then obtain q where q: "q \<in> set (kids l m pt ?i)" "region a 8 \<subseteq> region q 4096" unfolding kd by blast
  have qo: "page_ok kend q" using pt_okD [OF kok] q(1) kd by simp
  have other: "?g x = m x" if "x \<in> region p 4096" "page_ok kend p" "p \<noteq> q" for x p
    using page_sep [OF that(1,2) qo that(3)] q(2) by (intro store64_other) blast
  have "pt \<noteq> q" using Suc.prems(1) q(1) i unfolding pt_ok_def distinct_pt_pages_Suc by auto
  then have ld: "load64 ?g (slot pt j) = load64 m (slot pt j)" if "j < 512" for j
    using other pt_okD [OF Suc.prems(1) pt_pages_self] slot_in_page [OF that, of pt] by (intro load64_cong) blast
  have fr: "?g x = m x" if "j < 512" "j \<noteq> ?i" "p \<in> set (kids l m pt j)" "x \<in> region p 4096" for j p x
  proof (rule other [OF that(4)])
    show "page_ok kend p" using pt_okD [OF Suc.prems(1)] kids_sub [OF that(1)] that(3) by blast
    show "p \<noteq> q" using kids_apart(1) [OF Suc.prems(1) that(1) i that(2)] that(3) q(1) by blast
  qed
  have "kids l ?g pt j = kids l m pt j" if j: "j < 512" for j
  proof (cases "j = ?i")
    case True then show ?thesis using IH ld [OF i] by (simp add: kids_def)
  next
    case False
    then show ?thesis using ld [OF j] fr [OF j False] pt_frame [of l m "PTE2PA (load64 m (slot pt j))" ?g] by (auto simp: kids_def)
  qed
  then have pg: "pt_pages (Suc l) ?g pt = pt_pages (Suc l) m pt" by (rule kids_eq_pages)
  have "pt_get (Suc l) ?g pt w = (if \<forall>k\<le>Suc l. PX k w = PX k va then v else pt_get (Suc l) m pt w)" for w
    using kids_update_get [of ?i ?g pt m l w] i ld fr val IH by (auto simp: le_Suc_eq pte_slot_slot unat_eq_iff64)
  moreover have "pt_leaf (Suc l) ?g pt va = Some a" using ld [OF i] val IH by (simp add: pte_slot_slot)
  moreover have "q \<in> set (pt_pages (Suc l) m pt)" using kids_sub [OF i] q(1) by blast
  ultimately show ?case using pg q(2) by blast
qed

text \<open>Below \<open>MAXVA\<close> the three indices of two addresses agree exactly when their pages do.\<close>

definition pg :: "u64 \<Rightarrow> nat" where
  "pg w = unat w div 4096"

lemma unat_PX: "unat (PX l w) = unat w div 2 ^ (12 + 9 * l) mod 512"
proof -
  have "(0x1FF :: u64) = mask 9" by (simp add: mask_eq_exp_minus_1)
  then have "PX l w = take_bit 9 (drop_bit (12 + 9 * l) w)" by (simp add: PX_def take_bit_eq_mask)
  moreover have "unat w < 2 ^ LENGTH(64)" by (rule unsigned_less)
  then have "take_bit 64 (unat w) = unat w" by (simp add: take_bit_nat_eq_self)
  ultimately have "unat (PX l w) = take_bit 9 (drop_bit (12 + 9 * l) (unat w))"
    by (simp only: unsigned_take_bit_eq unsigned_drop_bit_eq) simp
  then show ?thesis by (simp add: take_bit_eq_mod drop_bit_eq_div)
qed

lemma MAXVA_nat: "unat MAXVA = 2 ^ 38"
  by (simp add: MAXVA_def)

lemma index_split:
  assumes "a < 2 ^ 26"
  shows "a = 262144 * (a div 262144 mod 512) + 512 * (a div 512 mod 512) + (a mod 512 :: nat)"
proof -
  have "a div 262144 = a div 512 div 512" by (simp flip: div_mult2_eq)
  moreover have "a div 262144 mod 512 = a div 262144" using assms by simp
  moreover have "a div 512 = 512 * (a div 512 div 512) + a div 512 mod 512" by simp
  moreover have "a = 512 * (a div 512) + a mod 512" by simp
  ultimately show ?thesis by linarith
qed

lemma PX_same_page:
  assumes "va < MAXVA" "w < MAXVA"
  shows "(\<forall>k\<le>2. PX k w = PX k va) \<longleftrightarrow> pg w = pg va"
proof -
  have b: "pg x < 2 ^ 26" if "x < MAXVA" for x
    using that MAXVA_nat by (simp add: pg_def word_less_nat_alt)
  have u: "unat (PX k x) = pg x div 512 ^ k mod 512" for k x
    unfolding unat_PX pg_def by (simp add: power_add power_mult flip: div_mult2_eq)
  have "(\<forall>k\<le>2. PX k w = PX k va) \<longleftrightarrow> (\<forall>k\<le>2. pg w div 512 ^ k mod 512 = pg va div 512 ^ k mod 512)"
    by (metis u unsigned_word_eqI)
  also have "\<dots> \<longleftrightarrow> pg w mod 512 = pg va mod 512 \<and> pg w div 512 mod 512 = pg va div 512 mod 512 \<and>
      pg w div 262144 mod 512 = pg va div 262144 mod 512"
    by (auto simp: numeral_2_eq_2 le_Suc_eq)
  also have "\<dots> \<longleftrightarrow> pg w = pg va" using index_split [OF b [OF assms(1)]] index_split [OF b [OF assms(2)]] by metis
  finally show ?thesis .
qed

section \<open>Mapping a range of pages\<close>

text \<open>A page table and the free list: well formed, and no page on both.\<close>

definition vm_ok :: "u64 \<Rightarrow> u64 \<Rightarrow> kmem \<Rightarrow> u64 list \<Rightarrow> bool" where
  "vm_ok kend pt s ps \<longleftrightarrow>
     pt_ok kend 2 (pmem s) pt \<and> kmem_inv kend s ps \<and> set ps \<inter> set (pt_pages 2 (pmem s) pt) = {}"

text \<open>
  \<open>t\<close> comes from \<open>s\<close> by moving some free pages into the page table; only pages of the table
  have been written.
\<close>

definition evolves :: "u64 \<Rightarrow> u64 \<Rightarrow> kmem \<Rightarrow> u64 list \<Rightarrow> kmem \<Rightarrow> u64 list \<Rightarrow> bool" where
  "evolves kend pt s ps t qs \<longleftrightarrow>
     vm_ok kend pt t qs \<and>
     (\<exists>ns. ps = ns @ qs \<and> set (pt_pages 2 (pmem t) pt) = set (pt_pages 2 (pmem s) pt) \<union> set ns) \<and>
     (\<forall>x. (\<forall>p\<in>set (pt_pages 2 (pmem t) pt). x \<notin> region p 4096) \<longrightarrow> pmem t x = pmem s x)"

lemma evolves_refl: "vm_ok kend pt s ps \<Longrightarrow> evolves kend pt s ps s ps"
  by (auto simp: evolves_def)

lemma evolves_trans:
  assumes "evolves kend pt s ps t qs" "evolves kend pt t qs u rs"
  shows "evolves kend pt s ps u rs"
proof -
  obtain ns ks where n: "ps = ns @ qs" "set (pt_pages 2 (pmem t) pt) = set (pt_pages 2 (pmem s) pt) \<union> set ns"
    "qs = ks @ rs" "set (pt_pages 2 (pmem u) pt) = set (pt_pages 2 (pmem t) pt) \<union> set ks"
    using assms unfolding evolves_def by blast
  have "ps = (ns @ ks) @ rs" "set (pt_pages 2 (pmem u) pt) = set (pt_pages 2 (pmem s) pt) \<union> set (ns @ ks)" using n by auto
  moreover have "pmem u x = pmem s x" if "\<forall>p\<in>set (pt_pages 2 (pmem u) pt). x \<notin> region p 4096" for x
    using assms that n(4) unfolding evolves_def by (metis UnI1)
  ultimately show ?thesis using assms(2) unfolding evolves_def by blast
qed

lemma vm_ok_store:
  assumes ok: "vm_ok kend pt u qs" and lf: "pt_leaf 2 (pmem u) pt va = Some r"
  shows "evolves kend pt u qs (u\<lparr>pmem := store64 (pmem u) r v\<rparr>) qs"
    "pt_get 2 (store64 (pmem u) r v) pt w = (if \<forall>k\<le>2. PX k w = PX k va then v else pt_get 2 (pmem u) pt w)"
proof -
  let ?g = "store64 (pmem u) r v"
  have pk: "pt_ok kend 2 (pmem u) pt" and km: "kmem_inv kend u qs" and dj: "set qs \<inter> set (pt_pages 2 (pmem u) pt) = {}"
    using ok by (auto simp: vm_ok_def)
  from pt_store [OF pk lf, of v] obtain q where
    st: "pt_pages 2 ?g pt = pt_pages 2 (pmem u) pt" "q \<in> set (pt_pages 2 (pmem u) pt)" "region r 8 \<subseteq> region q 4096"
    and get: "pt_get 2 ?g pt w = (if \<forall>k\<le>2. PX k w = PX k va then v else pt_get 2 (pmem u) pt w)" by blast
  have "kmem_inv kend (u\<lparr>pmem := ?g\<rparr>) qs"
  proof (rule kmem_inv_frame [OF km])
    fix p x assume p: "p \<in> set qs" "x \<in> region p 4096"
    have "page_ok kend p" using km p(1) by (simp add: kmem_inv_def)
    then have "x \<notin> region q 4096" using page_sep [OF p(2) _ pt_okD [OF pk st(2)]] dj p(1) st(2) by blast
    then show "?g x = pmem u x" using st(3) by (intro store64_other) blast
  qed
  moreover have "?g x = pmem u x" if "\<forall>p\<in>set (pt_pages 2 (pmem u) pt). x \<notin> region p 4096" for x
    using that st(2,3) by (intro store64_other) blast
  ultimately show "evolves kend pt u qs (u\<lparr>pmem := ?g\<rparr>) qs"
    using pk dj st(1) by (auto simp: evolves_def vm_ok_def pt_ok_def)
  show "pt_get 2 ?g pt w = (if \<forall>k\<le>2. PX k w = PX k va then v else pt_get 2 (pmem u) pt w)" by (rule get)
qed

lemma walk_alloc:
  assumes ok: "vm_ok kend pt s ps" and va: "va < MAXVA"
  shows "\<exists>r t qs. walk pt va True s = Ok (r, t) \<and> evolves kend pt s ps t qs \<and>
    (\<forall>w. pt_get 2 (pmem t) pt w = pt_get 2 (pmem s) pt w) \<and>
    length ps \<le> length qs + 2 \<and>
    (if r = 0 then qs = [] \<and> length ps < 2
     else pt_leaf 2 (pmem t) pt va = Some r \<and> load64 (pmem t) r = pt_get 2 (pmem s) pt va)"
proof -
  have pk: "pt_ok kend 2 (pmem s) pt" and km: "kmem_inv kend s ps" and dj: "set ps \<inter> set (pt_pages 2 (pmem s) pt) = {}"
    using ok by (auto simp: vm_ok_def)
  from walk_from_alloc [OF pk km dj, of va] obtain r t ns qs where
    w: "walk_from 2 pt va True s = (r, t)" "ps = ns @ qs" "grown kend 2 s pt ns qs t"
       "if r = 0 then qs = [] \<and> length ns < 2 else pt_leaf 2 (pmem t) pt va = Some r \<and> length ns \<le> 2" by blast
  note g = grownD [OF w(3)]
  have "set qs \<inter> set (pt_pages 2 (pmem t) pt) = {}" using g(3) dj w(2) km by (auto simp: kmem_inv_def)
  then have e: "evolves kend pt s ps t qs" using g(1,2,3,5) w(2) by (auto simp: evolves_def vm_ok_def)
  have "load64 (pmem t) r = pt_get 2 (pmem s) pt va" if "r \<noteq> 0"
    using walk_from_read(2) [OF g(2), of va r] w(4) that g(4) by simp
  then show ?thesis using w(1,2,4) e g(4) va by (auto simp: walk_def split: if_splits)
qed

definition range_get :: "nat \<Rightarrow> u64 \<Rightarrow> u64 \<Rightarrow> u64 \<Rightarrow> (u64 \<Rightarrow> u64) \<Rightarrow> u64 \<Rightarrow> u64" where
  "range_get n a pa perm f w =
     (if pg a \<le> pg w \<and> pg w < pg a + n then PA2PTE (pa + of_nat (pg w - pg a) * PGSIZE) OR perm OR PTE_V else f w)"

lemma pg_next:
  assumes "aligned a" "unat a + 4096 * Suc n \<le> 2 ^ 38" "0 < n"
  shows "pg (a + PGSIZE) = Suc (pg a)" "unat (a + PGSIZE) = unat a + 4096" "aligned (a + PGSIZE)"
proof -
  show u: "unat (a + PGSIZE) = unat a + 4096" using unat_add_of_nat [of a 4096] assms by (simp add: PGSIZE_def)
  then show "pg (a + PGSIZE) = Suc (pg a)" by (simp add: pg_def)
  show "aligned (a + PGSIZE)" using assms(1) u by (simp add: aligned_nat)
qed

definition map_loop :: "u64 \<Rightarrow> u64 \<Rightarrow> u64 \<Rightarrow> u64 \<times> u64 \<times> kmem \<Rightarrow> ((u64 \<times> u64 \<times> kmem), (int \<times> kmem)) ctl res" where
  "map_loop pt perm last_a = (\<lambda>(a, pa, s).
          bindR (walk pt a True s) (\<lambda>(pte, s).
          if pte = 0 then Ok (Exit (-1, s))
          else if valid (load64 (pmem s) pte) then Panic ''mappages: remap''
          else
            let s = s\<lparr>pmem := store64 (pmem s) pte (PA2PTE pa OR perm OR PTE_V)\<rparr> in
            if a = last_a then Ok (Exit (0, s)) else Ok (Next (a + PGSIZE, pa + PGSIZE, s))))"

lemma map_loop_step:
  assumes ok: "vm_ok kend pt s ps" and a: "a < MAXVA" and nv: "\<not> valid (pt_get 2 (pmem s) pt a)"
  shows "\<exists>t qs. evolves kend pt s ps t qs \<and> length ps \<le> length qs + 2 \<and>
    (map_loop pt perm la (a, pa, s) = Ok (Exit (-1, t)) \<and> qs = [] \<and> length ps < 2 \<and> (\<forall>w. pt_get 2 (pmem t) pt w = pt_get 2 (pmem s) pt w) \<or>
     map_loop pt perm la (a, pa, s) = (if a = la then Ok (Exit (0, t)) else Ok (Next (a + PGSIZE, pa + PGSIZE, t))) \<and>
     (\<forall>w<MAXVA. pt_get 2 (pmem t) pt w = (if pg w = pg a then PA2PTE pa OR perm OR PTE_V else pt_get 2 (pmem s) pt w)))"
proof -
  from walk_alloc [OF ok a] obtain r u qs where
    u: "walk pt a True s = Ok (r, u)" "evolves kend pt s ps u qs" "\<forall>w. pt_get 2 (pmem u) pt w = pt_get 2 (pmem s) pt w"
       "if r = 0 then qs = [] \<and> length ps < 2 else pt_leaf 2 (pmem u) pt a = Some r \<and> load64 (pmem u) r = pt_get 2 (pmem s) pt a"
       "length ps \<le> length qs + 2" by blast
  show ?thesis
  proof (cases "r = 0")
    case True then show ?thesis using u by (intro exI [of _ u] exI [of _ qs]) (simp add: map_loop_def)
  next
    case False
    let ?v = "PA2PTE pa OR perm OR PTE_V"
    let ?t = "u\<lparr>pmem := store64 (pmem u) r ?v\<rparr>"
    have lf: "pt_leaf 2 (pmem u) pt a = Some r" "load64 (pmem u) r = pt_get 2 (pmem s) pt a" using u(4) False by auto
    have "vm_ok kend pt u qs" using u(2) by (simp add: evolves_def)
    note st = vm_ok_store [OF this lf(1), of ?v]
    have "pt_get 2 (pmem ?t) pt w = (if pg w = pg a then ?v else pt_get 2 (pmem s) pt w)" if "w < MAXVA" for w
      using st(2) [of w] u(3) PX_same_page [OF a that] by simp
    moreover have "map_loop pt perm la (a, pa, s) = (if a = la then Ok (Exit (0, ?t)) else Ok (Next (a + PGSIZE, pa + PGSIZE, ?t)))"
      using u(1) False nv lf(2) by (simp add: map_loop_def)
    ultimately show ?thesis using evolves_trans [OF u(2) st(1)] u(5) by (intro exI [of _ ?t] exI [of _ qs]) simp
  qed
qed

lemma map_loop_spec:
  assumes "vm_ok kend pt s ps" "aligned a" "unat a + 4096 * Suc n \<le> 2 ^ 38"
    "\<And>w. w < MAXVA \<Longrightarrow> pg a \<le> pg w \<Longrightarrow> pg w < pg a + Suc n \<Longrightarrow> \<not> valid (pt_get 2 (pmem s) pt w)"
  shows "\<exists>r t qs. loopR (map_loop pt perm (a + of_nat n * PGSIZE)) (a, pa, s) = Ok (r, t) \<and> evolves kend pt s ps t qs \<and>
    (r = 0 \<and> (\<forall>w<MAXVA. pt_get 2 (pmem t) pt w = range_get (Suc n) a pa perm (pt_get 2 (pmem s) pt) w) \<or>
     r = -1 \<and> qs = [] \<and> length ps < 2 * Suc n \<and>
       (\<exists>k\<le>n. \<forall>w<MAXVA. pt_get 2 (pmem t) pt w = range_get k a pa perm (pt_get 2 (pmem s) pt) w))"
  using assms
proof (induction n arbitrary: a pa s ps)
  case 0
  have a: "a < MAXVA" using 0(3) MAXVA_nat by (simp add: word_less_nat_alt)
  from map_loop_step [OF 0(1) a 0(4) [OF a], of perm a pa] obtain t qs where
    t: "evolves kend pt s ps t qs"
       "map_loop pt perm a (a, pa, s) = Ok (Exit (-1, t)) \<and> qs = [] \<and> length ps < 2 \<and> (\<forall>w. pt_get 2 (pmem t) pt w = pt_get 2 (pmem s) pt w) \<or>
        map_loop pt perm a (a, pa, s) = Ok (Exit (0, t)) \<and>
        (\<forall>w<MAXVA. pt_get 2 (pmem t) pt w = (if pg w = pg a then PA2PTE pa OR perm OR PTE_V else pt_get 2 (pmem s) pt w))"
    by auto
  from t(2) show ?case
  proof
    assume "map_loop pt perm a (a, pa, s) = Ok (Exit (-1, t)) \<and> qs = [] \<and> length ps < 2 \<and> (\<forall>w. pt_get 2 (pmem t) pt w = pt_get 2 (pmem s) pt w)"
    then show ?thesis using t(1) by (intro exI [of _ "-1"] exI [of _ t] exI [of _ qs]) (auto simp: loopR_Exit range_get_def)
  next
    assume "map_loop pt perm a (a, pa, s) = Ok (Exit (0, t)) \<and>
        (\<forall>w<MAXVA. pt_get 2 (pmem t) pt w = (if pg w = pg a then PA2PTE pa OR perm OR PTE_V else pt_get 2 (pmem s) pt w))"
    then show ?thesis using t(1) by (intro exI [of _ 0] exI [of _ t] exI [of _ qs]) (auto simp: loopR_Exit range_get_def)
  qed
next
  case (Suc n)
  have a: "a < MAXVA" using Suc.prems(3) MAXVA_nat by (simp add: word_less_nat_alt)
  let ?la = "a + of_nat (Suc n) * PGSIZE"
  have "unat ?la = unat a + 4096 * Suc n"
    using unat_add_of_nat [of a "4096 * Suc n"] Suc.prems(3) by (simp add: PGSIZE_def algebra_simps)
  then have ne: "a \<noteq> ?la" by auto
  have la: "?la = (a + PGSIZE) + of_nat n * PGSIZE" by (simp add: algebra_simps)
  note nx = pg_next [OF Suc.prems(2), of "Suc n"]
  from map_loop_step [OF Suc.prems(1) a Suc.prems(4) [OF a], of perm ?la pa] ne obtain t qs where
    t: "evolves kend pt s ps t qs"
       "map_loop pt perm ?la (a, pa, s) = Ok (Exit (-1, t)) \<and> qs = [] \<and> length ps < 2 \<and> (\<forall>w. pt_get 2 (pmem t) pt w = pt_get 2 (pmem s) pt w) \<or>
        map_loop pt perm ?la (a, pa, s) = Ok (Next (a + PGSIZE, pa + PGSIZE, t)) \<and>
        (\<forall>w<MAXVA. pt_get 2 (pmem t) pt w = (if pg w = pg a then PA2PTE pa OR perm OR PTE_V else pt_get 2 (pmem s) pt w))"
       "length ps \<le> length qs + 2"
    by auto
  from t(2) show ?case
  proof
    assume "map_loop pt perm ?la (a, pa, s) = Ok (Exit (-1, t)) \<and> qs = [] \<and> length ps < 2 \<and> (\<forall>w. pt_get 2 (pmem t) pt w = pt_get 2 (pmem s) pt w)"
    then show ?thesis using t(1)
      by (intro exI [of _ "-1"] exI [of _ t] exI [of _ qs]) (auto simp: loopR_Exit range_get_def intro!: exI [of _ 0])
  next
    assume m: "map_loop pt perm ?la (a, pa, s) = Ok (Next (a + PGSIZE, pa + PGSIZE, t)) \<and>
        (\<forall>w<MAXVA. pt_get 2 (pmem t) pt w = (if pg w = pg a then PA2PTE pa OR perm OR PTE_V else pt_get 2 (pmem s) pt w))"
    have rg: "range_get k (a + PGSIZE) (pa + PGSIZE) perm (pt_get 2 (pmem t) pt) w = range_get (Suc k) a pa perm (pt_get 2 (pmem s) pt) w"
      if "w < MAXVA" for k w
    proof (cases "pg a < pg w")
      case True
      then have "pg w - pg a = Suc (pg w - Suc (pg a))" by simp
      then show ?thesis using True m that nx Suc.prems(3) by (auto simp: range_get_def algebra_simps)
    next
      case False then show ?thesis using m that nx Suc.prems(3) by (auto simp: range_get_def)
    qed
    have "vm_ok kend pt t qs" using t(1) by (simp add: evolves_def)
    moreover have "aligned (a + PGSIZE)" "unat (a + PGSIZE) + 4096 * Suc n \<le> 2 ^ 38" using nx Suc.prems(3) by simp_all
    moreover have "\<not> valid (pt_get 2 (pmem t) pt w)"
      if "w < MAXVA" "pg (a + PGSIZE) \<le> pg w" "pg w < pg (a + PGSIZE) + Suc n" for w
      using that m nx Suc.prems(3) Suc.prems(4) [of w] by auto
    ultimately obtain r u rs where
      u: "loopR (map_loop pt perm ?la) (a + PGSIZE, pa + PGSIZE, t) = Ok (r, u)" "evolves kend pt t qs u rs"
         "r = 0 \<and> (\<forall>w<MAXVA. pt_get 2 (pmem u) pt w = range_get (Suc n) (a + PGSIZE) (pa + PGSIZE) perm (pt_get 2 (pmem t) pt) w) \<or>
          r = -1 \<and> rs = [] \<and> length qs < 2 * Suc n \<and>
          (\<exists>k\<le>n. \<forall>w<MAXVA. pt_get 2 (pmem u) pt w = range_get k (a + PGSIZE) (pa + PGSIZE) perm (pt_get 2 (pmem t) pt) w)"
      using Suc.IH [of t qs "a + PGSIZE" "pa + PGSIZE"] unfolding la by blast
    have "loopR (map_loop pt perm ?la) (a, pa, s) = Ok (r, u)" using m u(1) by (simp add: loopR_Next)
    then show ?thesis using u(3) evolves_trans [OF t(1) u(2)] rg t(3)
      by (intro exI [of _ r] exI [of _ u] exI [of _ rs]) (auto intro: exI [of _ "Suc _"])
  qed
qed

lemma aligned_rounddown: "aligned a \<Longrightarrow> PGROUNDDOWN a = a"
proof -
  assume "aligned a"
  then have "unat (PGROUNDDOWN a) = unat a" by (auto simp: aligned_nat unat_PGROUNDDOWN)
  then show ?thesis by (rule unsigned_word_eqI)
qed

lemma last_page_nat:
  assumes "aligned va"
  shows "(unat va + 4096 * n + 4095) div 4096 * 4096 = unat va + 4096 * n"
proof -
  obtain k where k: "unat va = 4096 * k" using assms by (auto simp: aligned_nat mod_eq_0_iff_dvd elim: dvdE)
  have "(4095 + (k + n) * 4096) div 4096 = k + n" by (subst div_mult_self1) simp_all
  moreover have "unat va + 4096 * n + 4095 = 4095 + (k + n) * 4096" using k by simp
  ultimately have "(unat va + 4096 * n + 4095) div 4096 = k + n" by (simp only:)
  then show ?thesis using k by simp
qed

lemma last_page:
  assumes "aligned va" "unat va + 4096 * Suc n \<le> 2 ^ 38"
  shows "PGROUNDDOWN (va + of_nat (Suc n) * PGSIZE - 1) = va + of_nat n * PGSIZE"
proof -
  have u: "unat (va + of_nat n * PGSIZE) = unat va + 4096 * n"
    using unat_add_of_nat [of va "4096 * n"] assms(2) by (simp add: PGSIZE_def algebra_simps)
  have "va + of_nat (Suc n) * PGSIZE - 1 = va + of_nat n * PGSIZE + of_nat 4095" by (simp add: PGSIZE_def algebra_simps)
  moreover have "unat (va + of_nat n * PGSIZE + of_nat 4095) = unat va + 4096 * n + 4095"
    using unat_add_of_nat [of "va + of_nat n * PGSIZE" 4095] u assms(2) by simp
  moreover have "(unat va + 4096 * n + 4095) div 4096 * 4096 = unat va + 4096 * n" using assms(1) by (rule last_page_nat)
  ultimately have "unat (PGROUNDDOWN (va + of_nat (Suc n) * PGSIZE - 1)) = unat (va + of_nat n * PGSIZE)"
    by (simp only: unat_PGROUNDDOWN u)
  then show ?thesis by (rule unsigned_word_eqI)
qed

lemma mappages_spec:
  assumes "vm_ok kend pt s ps" "aligned va" "unat va + 4096 * Suc n \<le> 2 ^ 38"
    "\<And>w. w < MAXVA \<Longrightarrow> pg va \<le> pg w \<Longrightarrow> pg w < pg va + Suc n \<Longrightarrow> \<not> valid (pt_get 2 (pmem s) pt w)"
  shows "\<exists>r t qs. mappages pt va (of_nat (Suc n) * PGSIZE) pa perm s = Ok (r, t) \<and> evolves kend pt s ps t qs \<and>
    (r = 0 \<and> (\<forall>w<MAXVA. pt_get 2 (pmem t) pt w = range_get (Suc n) va pa perm (pt_get 2 (pmem s) pt) w) \<or>
     r = -1 \<and> qs = [] \<and> length ps < 2 * Suc n \<and>
       (\<exists>k\<le>n. \<forall>w<MAXVA. pt_get 2 (pmem t) pt w = range_get k va pa perm (pt_get 2 (pmem s) pt) w))"
proof -
  have "unat (of_nat (Suc n) * PGSIZE) = 4096 * Suc n"
    using unat_add_of_nat [of 0 "4096 * Suc n"] assms(3) by (simp add: PGSIZE_def algebra_simps)
  then have "of_nat (Suc n) * PGSIZE \<noteq> 0" by auto
  then have "mappages pt va (of_nat (Suc n) * PGSIZE) pa perm s = loopR (map_loop pt perm (va + of_nat n * PGSIZE)) (va, pa, s)"
    unfolding mappages_def map_loop_def Let_def aligned_rounddown [OF assms(2)] last_page [OF assms(2,3)]
    by (simp del: of_nat_Suc)
  then show ?thesis using map_loop_spec [OF assms, of perm pa] by simp
qed

lemma walkaddr_spec:
  assumes "pt_ok kend 2 (pmem s) pt"
  shows "walkaddr pt va s =
    Ok (if va < MAXVA \<and> valid (pt_get 2 (pmem s) pt va) \<and> pt_get 2 (pmem s) pt va AND PTE_U \<noteq> 0
        then PTE2PA (pt_get 2 (pmem s) pt va) else 0)"
proof (cases "va < MAXVA")
  case True
  then show ?thesis
    using walk_from_read [OF assms, of va] by (cases "pt_leaf 2 (pmem s) pt va") (auto simp: walkaddr_def walk_def Let_def)
next
  case False
  then show ?thesis by (auto simp: walkaddr_def)
qed

lemma flags_or_V: "unat a < 1024 \<Longrightarrow> unat (a OR PTE_V) < 1024"
proof -
  assume "unat a < 1024"
  then have "take_bit 10 a = a" by (intro take_bit_word_small) simp
  moreover have "take_bit 10 PTE_V = PTE_V" by (intro take_bit_word_small) (simp add: PTE_V_def)
  ultimately have "take_bit 10 (a OR PTE_V) = a OR PTE_V" by (simp add: take_bit_or)
  then have "unat (a OR PTE_V) = take_bit 10 (unat (a OR PTE_V))" by (metis unsigned_take_bit_eq)
  also have "\<dots> < 2 ^ 10" by (rule take_bit_nat_less_exp)
  finally show ?thesis by simp
qed

lemma walkaddr_mapped:
  assumes "pt_ok kend 2 (pmem t) pt" "w < MAXVA"
    "pt_get 2 (pmem t) pt w = PA2PTE (pa + of_nat k * PGSIZE) OR perm OR PTE_V"
    "aligned pa" "unat pa + 4096 * Suc k \<le> 2 ^ 56" "perm < 512" "perm AND PTE_U \<noteq> 0"
  shows "walkaddr pt w t = Ok (pa + of_nat k * PGSIZE)"
proof -
  let ?p = "pa + of_nat k * PGSIZE"
  have "unat ?p = unat pa + 4096 * k"
    using unat_add_of_nat [of pa "4096 * k"] assms(5) by (auto simp: PGSIZE_def algebra_simps)
  then have p: "aligned ?p" "unat ?p < 2 ^ 56" using assms(4,5) by (auto simp: aligned_nat)
  have fl: "unat (perm OR PTE_V) < 1024" using assms(6) by (intro flags_or_V) (simp add: word_less_nat_alt)
  have "PTE2PA (PA2PTE ?p OR (perm OR PTE_V)) = ?p" using PTE2PA_PA2PTE [OF p fl] .
  moreover have "(PA2PTE ?p OR perm OR PTE_V) AND PTE_U \<noteq> 0"
  proof
    assume z: "(PA2PTE ?p OR perm OR PTE_V) AND PTE_U = 0"
    have "perm AND PTE_U = perm AND ((PA2PTE ?p OR perm OR PTE_V) AND PTE_U)"
      by (rule bit_word_eqI) (auto simp: bit_simps)
    then show False using z assms(7) by simp
  qed
  ultimately show ?thesis
    using walkaddr_spec [OF assms(1), of w] assms(2,3) valid_or [of "PA2PTE ?p OR perm"] by (simp add: or.assoc)
qed

lemma free_pages_vm_ok:
  assumes "page_ok kend pt" "page_ok kend p" "page_ok kend q" "pt \<noteq> p" "pt \<noteq> q" "p \<noteq> q"
  shows "\<exists>s. vm_ok kend pt s [q, p] \<and> pt_pages 2 (pmem s) pt = [pt] \<and> (\<forall>w. \<not> valid (pt_get 2 (pmem s) pt w))"
proof -
  let ?s = "\<lparr>pmem = (\<lambda>_. 0), freelist = 0\<rparr>"
  have "kmem_inv kend ?s []" by (simp add: kmem_inv_def)
  from kfree_inv [OF this assms(2)] obtain t where t: "kmem_inv kend t [p]"
    "\<forall>x. x \<notin> region p 4096 \<longrightarrow> pmem t x = pmem ?s x" by auto
  from kfree_inv [OF t(1) assms(3)] assms(6) obtain u where u: "kmem_inv kend u [q, p]"
    "\<forall>x. x \<notin> region q 4096 \<longrightarrow> pmem u x = pmem t x" by auto
  have "region p 4096 \<inter> region pt 4096 = {}" "region q 4096 \<inter> region pt 4096 = {}"
    by (rule page_disjoint; use assms in \<open>auto simp: page_ok_def\<close>)+
  then have z: "\<forall>x\<in>region pt 4096. pmem u x = 0" using t(2) u(2) by fastforce
  show ?thesis using u(1) pt_zero [where m = "pmem u" and pt = pt and l = 2] z assms by (intro exI [of _ u]) (simp add: vm_ok_def pt_ok_def)
qed

section \<open>Properties\<close>

text \<open>
  C16.  \<open>mappages\<close> on a page-aligned range of unmapped pages below \<open>MAXVA\<close>: it never panics, takes
  page-table pages only from the free list, keeps the table well formed, writes nothing but
  page-table pages, and on success the entries of exactly the pages of the range become the
  requested ones.  It fails only when the free list is exhausted, with a prefix mapped.
\<close>

theorem mappages_correct:
  assumes "vm_ok kend pt s ps" "aligned va" "unat va + 4096 * Suc n \<le> 2 ^ 38"
    "\<And>w. w < MAXVA \<Longrightarrow> pg va \<le> pg w \<Longrightarrow> pg w < pg va + Suc n \<Longrightarrow> \<not> valid (pt_get 2 (pmem s) pt w)"
  shows "\<exists>r t qs. mappages pt va (of_nat (Suc n) * PGSIZE) pa perm s = Ok (r, t) \<and> evolves kend pt s ps t qs \<and>
    (r = 0 \<and> (\<forall>w<MAXVA. pt_get 2 (pmem t) pt w = range_get (Suc n) va pa perm (pt_get 2 (pmem s) pt) w) \<or>
     r = -1 \<and> qs = [] \<and> length ps < 2 * Suc n \<and>
       (\<exists>k\<le>n. \<forall>w<MAXVA. pt_get 2 (pmem t) pt w = range_get k va pa perm (pt_get 2 (pmem s) pt) w))"
  using assms by (rule mappages_spec)

lemma empty_vm_ok:
  assumes "page_ok kend pt"
  shows "vm_ok kend pt \<lparr>pmem = (\<lambda>_. 0), freelist = 0\<rparr> []"
  using assms pt_zero(1) [of pt "\<lambda>_. 0" 2] by (simp add: vm_ok_def pt_ok_def kmem_inv_def)

theorem mappages_correct_witness:
  "\<exists>r t. mappages 0x80001000 0x4000 (of_nat (Suc 1) * PGSIZE) 0x80002000 PTE_R \<lparr>pmem = (\<lambda>_. 0), freelist = 0\<rparr> = Ok (r, t) \<and>
     (r = 0 \<or> r = -1)"
proof -
  have "page_ok 0x80000000 0x80001000" by (simp add: page_ok_def aligned_def PGSIZE_def PHYSTOP_def KERNBASE_def)
  from mappages_correct [where va = "0x4000" and n = 1 and pa = "0x80002000" and perm = PTE_R, OF empty_vm_ok [OF this]] pt_zero(2) [of "0x80001000" "\<lambda>_. 0" 2]
  show ?thesis by (auto simp: aligned_def PGSIZE_def)
qed

text \<open>
  Mapping \<open>n + 1\<close> user pages with \<open>2 * (n + 1)\<close> free pages at hand succeeds, and afterwards
  \<open>walkaddr\<close> translates every address of the range to the physical page it was mapped to, and
  every other address as before.
\<close>

theorem mappages_walkaddr:
  assumes "vm_ok kend pt s ps" "aligned va" "unat va + 4096 * Suc n \<le> 2 ^ 38"
    "\<And>w. w < MAXVA \<Longrightarrow> pg va \<le> pg w \<Longrightarrow> pg w < pg va + Suc n \<Longrightarrow> \<not> valid (pt_get 2 (pmem s) pt w)"
    "aligned pa" "unat pa + 4096 * Suc n \<le> 2 ^ 56" "perm < 512" "perm AND PTE_U \<noteq> 0"
    "2 * Suc n \<le> length ps"
  shows "\<exists>t. mappages pt va (of_nat (Suc n) * PGSIZE) pa perm s = Ok (0, t) \<and>
    (\<forall>w<MAXVA. walkaddr pt w t =
      (if pg va \<le> pg w \<and> pg w < pg va + Suc n then Ok (pa + of_nat (pg w - pg va) * PGSIZE) else walkaddr pt w s))"
proof -
  from mappages_spec [OF assms(1-4), of pa perm] assms(9) obtain t qs where
    run: "mappages pt va (of_nat (Suc n) * PGSIZE) pa perm s = Ok (0, t)" and
    e: "evolves kend pt s ps t qs" and
    g: "\<And>w. w < MAXVA \<Longrightarrow> pt_get 2 (pmem t) pt w = range_get (Suc n) va pa perm (pt_get 2 (pmem s) pt) w"
    by auto
  have ok: "pt_ok kend 2 (pmem t) pt" "pt_ok kend 2 (pmem s) pt" using e assms(1) by (auto simp: evolves_def vm_ok_def)
  have "walkaddr pt w t = (if pg va \<le> pg w \<and> pg w < pg va + Suc n
      then Ok (pa + of_nat (pg w - pg va) * PGSIZE) else walkaddr pt w s)" if w: "w < MAXVA" for w
  proof (cases "pg va \<le> pg w \<and> pg w < pg va + Suc n")
    case True
    have "(pa + of_nat (pg w - pg va) * PGSIZE) = pa + of_nat (pg w - pg va) * PGSIZE" ..
    moreover have "walkaddr pt w t = Ok (pa + of_nat (pg w - pg va) * PGSIZE)"
      using walkaddr_mapped [OF ok(1) w _ assms(5) _ assms(7,8), of "pg w - pg va"] g [OF w] True assms(6)
      by (auto simp: range_get_def)
    ultimately show ?thesis using True by simp
  next
    case False
    then show ?thesis using g [OF w] walkaddr_spec [OF ok(1), of w] walkaddr_spec [OF ok(2), of w] by (auto simp: range_get_def)
  qed
  then show ?thesis using run by blast
qed

theorem mappages_walkaddr_witness:
  "\<exists>s t. mappages 0x80001000 0x4000 (of_nat (Suc 0) * PGSIZE) 0x80002000 (PTE_R OR PTE_U) s = Ok (0, t) \<and>
     walkaddr 0x80001000 0x4010 t = Ok 0x80002000"
proof -
  let ?k = "0x80000000" and ?s = "\<lparr>pmem = (\<lambda>_. 0), freelist = 0\<rparr>"
  have pok: "page_ok ?k 0x80001000" "page_ok ?k 0x80003000" "page_ok ?k 0x80004000"
    by (simp_all add: page_ok_def aligned_def PGSIZE_def PHYSTOP_def KERNBASE_def)
  obtain s ps where s: "vm_ok ?k 0x80001000 s ps" "length ps = 2" "\<And>w. \<not> valid (pt_get 2 (pmem s) 0x80001000 w)"
    using free_pages_vm_ok [OF pok] by fastforce
  from mappages_walkaddr [where va = "0x4000" and n = 0 and pa = "0x80002000" and perm = "PTE_R OR PTE_U", OF s(1)] s(2,3)
  obtain t where "mappages 0x80001000 0x4000 (of_nat (Suc 0) * PGSIZE) 0x80002000 (PTE_R OR PTE_U) s = Ok (0, t)"
    "\<forall>w<MAXVA. walkaddr 0x80001000 w t =
      (if pg 0x4000 \<le> pg w \<and> pg w < pg 0x4000 + Suc 0 then Ok (0x80002000 + of_nat (pg w - pg 0x4000) * PGSIZE)
       else walkaddr 0x80001000 w s)"
    by (auto simp: aligned_def PGSIZE_def PTE_R_def PTE_U_def)
  moreover have "(0x4010 :: u64) < MAXVA" "pg 0x4010 = pg 0x4000" by (simp_all add: MAXVA_def pg_def)
  ultimately show ?thesis by (intro exI [of _ s] exI [of _ t]) simp
qed

end
