(* ===== verification/UserCopy.thy ===== *)
theory UserCopy
  imports Vm
begin

text \<open>
  User memory as the kernel copies it.  \<open>copyout_bytes\<close> and \<open>copyin_bytes\<close> are \<open>copyout\<close> and
  \<open>copyin\<close> of \<open>kernel/vm.c\<close> for a kernel buffer that is a value of the model (a disk buffer, a
  local variable) instead of a range of physical memory; they are shown to agree with the
  functions of \<open>Vm\<close> when the kernel range lies outside user memory and the page table.
\<close>

definition put_bytes :: "memory \<Rightarrow> u64 \<Rightarrow> byte list \<Rightarrow> memory" where
  "put_bytes m a bs = (\<lambda>x. if unat (x - a) < length bs then bs ! unat (x - a) else m x)"

definition copyout_bytes :: "u64 \<Rightarrow> u64 \<Rightarrow> byte list \<Rightarrow> kmem \<Rightarrow> (int \<times> kmem) res" where
  "copyout_bytes pt dstva bs s =
     loopR (\<lambda>(dstva, bs, s).
       if bs \<noteq> [] then
         let va0 = PGROUNDDOWN dstva in
         bindR (walkaddr pt va0 s) (\<lambda>pa0.
         if pa0 = 0 then Ok (Exit (-1, s))
         else
           let n = min (unat (PGSIZE - (dstva - va0))) (length bs);
               s = s\<lparr>pmem := put_bytes (pmem s) (pa0 + (dstva - va0)) (take n bs)\<rparr>
           in Ok (Next (va0 + PGSIZE, drop n bs, s)))
       else Ok (Exit (0, s))) (dstva, bs, s)"

text \<open>The bytes fetched, also when the copy stops at an unmapped page.\<close>

definition copyin_bytes :: "u64 \<Rightarrow> u64 \<Rightarrow> nat \<Rightarrow> kmem \<Rightarrow> (int \<times> byte list) res" where
  "copyin_bytes pt srcva len s =
     loopR (\<lambda>(acc, srcva, len).
       if len > 0 then
         let va0 = PGROUNDDOWN srcva in
         bindR (walkaddr pt va0 s) (\<lambda>pa0.
         if pa0 = 0 then Ok (Exit (-1, acc))
         else
           let n = min (unat (PGSIZE - (srcva - va0))) len
           in Ok (Next (acc @ bytes_at (pmem s) (pa0 + (srcva - va0)) n, va0 + PGSIZE, len - n)))
       else Ok (Exit (0, acc))) ([], srcva, len)"

section \<open>Bytes in memory\<close>

lemma put_bytes_Nil [simp]: "put_bytes m a [] = m"
  by (simp add: put_bytes_def)

lemma put_bytes_other: "x \<notin> region a (length bs) \<Longrightarrow> put_bytes m a bs x = m x"
  by (simp add: put_bytes_def region_def)

lemma put_bytes_at: "i < length bs \<Longrightarrow> length bs \<le> 2 ^ 64 \<Longrightarrow> put_bytes m a bs (a + of_nat i) = bs ! i"
  by (simp add: put_bytes_def)

lemma unat_diff_of_nat: "l \<le> unat (d :: u64) \<Longrightarrow> unat (d - of_nat l) = unat d - l"
proof -
  assume l: "l \<le> unat d"
  then have "l < 2 ^ 64" using unsigned_less [of d, where ?'a = nat] by simp
  then have u: "unat (of_nat l :: u64) = l" by simp
  then have "of_nat l \<le> d" using l by (simp add: word_le_nat_alt)
  then show ?thesis using u by (simp add: unat_sub)
qed

lemma put_bytes_append:
  assumes "length as + length bs \<le> 2 ^ 64"
  shows "put_bytes m a (as @ bs) = put_bytes (put_bytes m a as) (a + of_nat (length as)) bs"
proof
  fix x :: u64
  let ?d = "unat (x - a)" and ?l = "length as"
  have e: "x - (a + of_nat ?l) = (x - a) - of_nat ?l" by simp
  have ge: "unat (x - (a + of_nat ?l)) = ?d - ?l" if "?l \<le> ?d"
    unfolding e by (rule unat_diff_of_nat [OF that])
  have "\<not> unat (x - (a + of_nat ?l)) < length bs" if "?d < ?l"
  proof
    assume q: "unat (x - (a + of_nat ?l)) < length bs"
    have "x - a = of_nat (?l + unat (x - (a + of_nat ?l)))" by simp
    also have "unat \<dots> = ?l + unat (x - (a + of_nat ?l))" using q assms by (intro unat_of_nat_small) simp
    finally show False using that by simp
  qed
  then show "put_bytes m a (as @ bs) x = put_bytes (put_bytes m a as) (a + of_nat ?l) bs x"
    using ge by (cases "?d < ?l") (auto simp: put_bytes_def nth_append)
qed

lemma bytes_at_length [simp]: "length (bytes_at m a n) = n"
  by (simp add: bytes_at_def)

lemma bytes_at_put [simp]: "length bs \<le> 2 ^ 64 \<Longrightarrow> bytes_at (put_bytes m a bs) a (length bs) = bs"
  by (rule nth_equalityI) (auto simp: nth_bytes_at put_bytes_at)

lemma bytes_at_add: "bytes_at m a (i + j) = bytes_at m a i @ bytes_at m (a + of_nat i) j"
  by (rule nth_equalityI) (auto simp: nth_bytes_at nth_append ac_simps)

lemma memmove_put:
  assumes "unat src + unat n < 2 ^ 64" "unat dst + unat n \<le> 2 ^ 64"
  shows "memmove m dst src n = put_bytes m dst (bytes_at m src (unat n))"
proof
  fix x
  show "memmove m dst src n x = put_bytes m dst (bytes_at m src (unat n)) x"
  proof (cases "x \<in> region dst (unat n)")
    case True
    then have l: "unat (x - dst) < unat n" by (simp add: region_def)
    have x: "x = dst + of_nat (unat (x - dst))" by simp
    have "memmove m dst src n (dst + of_nat (unat (x - dst))) = m (src + of_nat (unat (x - dst)))"
      by (rule memmove_content [OF assms l])
    then show ?thesis using l by (simp add: put_bytes_def nth_bytes_at)
  next
    case False
    then show ?thesis using memmove_frame [OF False] by (simp add: put_bytes_other)
  qed
qed

section \<open>Translation of user addresses\<close>

definition uaddr :: "u64 \<Rightarrow> kmem \<Rightarrow> u64 \<Rightarrow> u64 option" where
  "uaddr pt s va =
     (case walkaddr pt (PGROUNDDOWN va) s of
        Ok p \<Rightarrow> if p = 0 then None else Some (p + (va - PGROUNDDOWN va)) | _ \<Rightarrow> None)"

definition umem :: "u64 \<Rightarrow> kmem \<Rightarrow> u64 \<Rightarrow> nat \<Rightarrow> byte list" where
  "umem pt s va n = map (\<lambda>i. pmem s (the (uaddr pt s (va + of_nat i)))) [0..<n]"

lemma walkaddr_returns: "\<exists>p. walkaddr pt va s = Ok p"
  by (auto simp: walkaddr_def walk_def Let_def split: prod.splits)

definition page_rest :: "u64 \<Rightarrow> nat" where
  "page_rest va = unat (PGSIZE - (va - PGROUNDDOWN va))"

lemma page_offset: "unat (va - PGROUNDDOWN va) = unat va mod 4096" "page_rest va = 4096 - unat va mod 4096" "0 < page_rest va" "page_rest va \<le> 4096"
proof -
  have le: "PGROUNDDOWN va \<le> va" by (simp add: word_le_nat_alt unat_PGROUNDDOWN)
  show o: "unat (va - PGROUNDDOWN va) = unat va mod 4096"
    using le by (simp add: unat_sub unat_PGROUNDDOWN modulo_nat_def mult.commute)
  have "va - PGROUNDDOWN va \<le> PGSIZE" using o by (simp add: word_le_nat_alt PGSIZE_def)
  then show r: "page_rest va = 4096 - unat va mod 4096" by (simp add: page_rest_def unat_sub o PGSIZE_def)
  have "unat va mod 4096 < 4096" by simp
  then show "0 < page_rest va" "page_rest va \<le> 4096" unfolding r by auto
qed

lemma same_page:
  assumes "j < page_rest va"
  shows "PGROUNDDOWN (va + of_nat j) = PGROUNDDOWN va" "unat (va + of_nat j) = unat va + j"
proof -
  have j: "j < 4096 - unat va mod 4096" using assms page_offset(2) by simp
  have l: "unat va < 2 ^ 64" using unsigned_less [of va, where ?'a = nat] by simp
  have b: "unat va div 4096 * 4096 + 4096 \<le> 2 ^ 64"
    using l by (simp add: less_mult_imp_div_less [of _ "2 ^ 52"])
  show u: "unat (va + of_nat j) = unat va + j"
    by (rule unat_add_of_nat) (use j b div_mult_mod_eq [of "unat va" 4096] in linarith)
  have "(unat va + j) div 4096 = unat va div 4096"
  proof (rule div_nat_eqI)
    show "4096 * (unat va div 4096) \<le> unat va + j" by (rule order_trans [OF times_div_less_eq_dividend]) simp
    have "unat va + j < unat va + (4096 - unat va mod 4096)" using j by simp
    also have "\<dots> = 4096 * Suc (unat va div 4096)"
      using mod_less_divisor [of 4096 "unat va"] mult_div_mod_eq [of 4096 "unat va"] by (simp only: mult_Suc_right)
    finally show "unat va + j < 4096 * Suc (unat va div 4096)" .
  qed
  then have "unat (PGROUNDDOWN (va + of_nat j)) = unat (PGROUNDDOWN va)" by (simp add: unat_PGROUNDDOWN u)
  then show "PGROUNDDOWN (va + of_nat j) = PGROUNDDOWN va" by (rule unsigned_word_eqI)
qed

lemma next_page: "PGROUNDDOWN va + PGSIZE = va + of_nat (page_rest va)"
proof -
  have "of_nat (page_rest va) = PGSIZE - (va - PGROUNDDOWN va)" by (simp add: page_rest_def)
  then show ?thesis by simp
qed

lemma uaddr_chunk:
  assumes "walkaddr pt (PGROUNDDOWN va) s = Ok p" "p \<noteq> 0" "j < page_rest va"
  shows "uaddr pt s (va + of_nat j) = Some (p + (va - PGROUNDDOWN va) + of_nat j)"
  using assms by (simp add: uaddr_def same_page(1) algebra_simps)

lemma umem_add: "umem pt s va (i + j) = umem pt s va i @ umem pt s (va + of_nat i) j"
  by (rule nth_equalityI) (auto simp: umem_def nth_append ac_simps)

lemma umem_chunk:
  assumes "walkaddr pt (PGROUNDDOWN va) s = Ok p" "p \<noteq> 0" "n \<le> page_rest va"
  shows "umem pt s va n = bytes_at (pmem s) (p + (va - PGROUNDDOWN va)) n"
  using uaddr_chunk [OF assms(1,2)] assms(3) by (auto simp: umem_def bytes_at_def intro!: map_cong)

section \<open>What the copies do\<close>

definition copyin_loop :: "u64 \<Rightarrow> kmem \<Rightarrow> byte list \<Rightarrow> u64 \<Rightarrow> nat \<Rightarrow> (int \<times> byte list) res" where
  "copyin_loop pt s acc srcva len =
     loopR (\<lambda>(acc, srcva, len).
       if len > 0 then
         let va0 = PGROUNDDOWN srcva in
         bindR (walkaddr pt va0 s) (\<lambda>pa0.
         if pa0 = 0 then Ok (Exit (-1, acc))
         else
           let n = min (unat (PGSIZE - (srcva - va0))) len
           in Ok (Next (acc @ bytes_at (pmem s) (pa0 + (srcva - va0)) n, va0 + PGSIZE, len - n)))
       else Ok (Exit (0, acc))) (acc, srcva, len)"

lemma copyin_loop_0: "copyin_loop pt s acc va 0 = Ok (0, acc)"
  unfolding copyin_loop_def by (subst loopR_unfold) simp

lemma copyin_loop_step:
  assumes "0 < len" "walkaddr pt (PGROUNDDOWN va) s = Ok p"
  shows "copyin_loop pt s acc va len =
    (if p = 0 then Ok (-1, acc)
     else let n = min (page_rest va) len in
       copyin_loop pt s (acc @ bytes_at (pmem s) (p + (va - PGROUNDDOWN va)) n) (va + of_nat (page_rest va)) (len - n))"
  using assms unfolding copyin_loop_def
  by (subst loopR_unfold) (simp add: Let_def page_rest_def [symmetric] next_page)

text \<open>The whole range is mapped: the copy delivers it.\<close>

lemma copyin_loop_ok:
  "(\<And>i. i < len \<Longrightarrow> uaddr pt s (va + of_nat i) \<noteq> None) \<Longrightarrow> copyin_loop pt s acc va len = Ok (0, acc @ umem pt s va len)"
proof (induction len arbitrary: acc va rule: less_induct)
  case (less len)
  show ?case
  proof (cases "len = 0")
    case True then show ?thesis by (simp add: copyin_loop_0 umem_def)
  next
    case False
    obtain p where p: "walkaddr pt (PGROUNDDOWN va) s = Ok p" using walkaddr_returns by blast
    have p0: "p \<noteq> 0" using less.prems [of 0] False p by (auto simp: uaddr_def)
    let ?n = "min (page_rest va) len"
    have pr: "0 < page_rest va" by (rule page_offset(3))
    have c: "umem pt s va ?n = bytes_at (pmem s) (p + (va - PGROUNDDOWN va)) ?n" by (rule umem_chunk [OF p p0]) simp
    have "copyin_loop pt s acc va len = copyin_loop pt s (acc @ umem pt s va ?n) (va + of_nat (page_rest va)) (len - ?n)"
      using copyin_loop_step [OF _ p, of len acc] False p0 c by (simp add: Let_def)
    also have "\<dots> = Ok (0, acc @ umem pt s va ?n @ umem pt s (va + of_nat ?n) (len - ?n))"
    proof (cases "page_rest va \<le> len")
      case True
      have "copyin_loop pt s (acc @ umem pt s va ?n) (va + of_nat (page_rest va)) (len - ?n) =
        Ok (0, (acc @ umem pt s va ?n) @ umem pt s (va + of_nat (page_rest va)) (len - ?n))"
      proof (rule less.IH)
        show "len - ?n < len" using pr False by simp
        fix i assume "i < len - ?n"
        then show "uaddr pt s (va + of_nat (page_rest va) + of_nat i) \<noteq> None"
          using less.prems [of "page_rest va + i"] True by (simp add: add.assoc)
      qed
      then show ?thesis using True by simp
    next
      case f: False then show ?thesis by (simp add: copyin_loop_0 umem_def)
    qed
    also have "umem pt s va ?n @ umem pt s (va + of_nat ?n) (len - ?n) = umem pt s va len"
      using umem_add [of pt s va ?n "len - ?n"] by simp
    finally show ?thesis .
  qed
qed

lemma copyin_bytes_loop: "copyin_bytes pt va len s = copyin_loop pt s [] va len"
  by (simp add: copyin_bytes_def copyin_loop_def)

lemma copyin_bytes_ok:
  "(\<And>i. i < len \<Longrightarrow> uaddr pt s (va + of_nat i) \<noteq> None) \<Longrightarrow> copyin_bytes pt va len s = Ok (0, umem pt s va len)"
  by (simp add: copyin_bytes_loop copyin_loop_ok)

text \<open>Writing bytes of \<open>U\<close> does not change the translation.\<close>

definition stable :: "u64 \<Rightarrow> kmem \<Rightarrow> u64 set \<Rightarrow> bool" where
  "stable pt s U \<longleftrightarrow> (\<forall>m. (\<forall>x. x \<notin> U \<longrightarrow> m x = pmem s x) \<longrightarrow> (\<forall>va. walkaddr pt va (s\<lparr>pmem := m\<rparr>) = walkaddr pt va s))"

definition copyout_loop :: "u64 \<Rightarrow> u64 \<Rightarrow> byte list \<Rightarrow> kmem \<Rightarrow> (int \<times> kmem) res" where
  "copyout_loop pt dstva bs s =
     loopR (\<lambda>(dstva, bs, s).
       if bs \<noteq> [] then
         let va0 = PGROUNDDOWN dstva in
         bindR (walkaddr pt va0 s) (\<lambda>pa0.
         if pa0 = 0 then Ok (Exit (-1, s))
         else
           let n = min (unat (PGSIZE - (dstva - va0))) (length bs);
               s = s\<lparr>pmem := put_bytes (pmem s) (pa0 + (dstva - va0)) (take n bs)\<rparr>
           in Ok (Next (va0 + PGSIZE, drop n bs, s)))
       else Ok (Exit (0, s))) (dstva, bs, s)"

lemma copyout_bytes_loop: "copyout_bytes = copyout_loop"
  by (simp add: fun_eq_iff copyout_bytes_def copyout_loop_def)

lemma copyout_loop_Nil: "copyout_loop pt va [] s = Ok (0, s)"
  unfolding copyout_loop_def by (subst loopR_unfold) simp

lemma copyout_loop_step:
  assumes "bs \<noteq> []" "walkaddr pt (PGROUNDDOWN va) s = Ok p"
  shows "copyout_loop pt va bs s =
    (if p = 0 then Ok (-1, s)
     else let n = min (page_rest va) (length bs) in
       copyout_loop pt (va + of_nat (page_rest va)) (drop n bs)
         (s\<lparr>pmem := put_bytes (pmem s) (p + (va - PGROUNDDOWN va)) (take n bs)\<rparr>))"
  using assms unfolding copyout_loop_def
  by (subst loopR_unfold) (simp add: Let_def page_rest_def [symmetric] next_page)

lemma copyout_loop_ok:
  assumes "stable pt s U" "\<And>x. x \<notin> U \<Longrightarrow> m x = pmem s x"
    "\<And>i. i < length bs \<Longrightarrow> uaddr pt s (va + of_nat i) = Some (f i) \<and> f i \<in> U" "inj_on f {..<length bs}"
  shows "\<exists>m'. copyout_loop pt va bs (s\<lparr>pmem := m\<rparr>) = Ok (0, s\<lparr>pmem := m'\<rparr>) \<and>
    (\<forall>i<length bs. m' (f i) = bs ! i) \<and> (\<forall>x. x \<notin> f ` {..<length bs} \<longrightarrow> m' x = m x)"
  using assms(2-)
proof (induction "length bs" arbitrary: bs va m f rule: less_induct)
  case less
  show ?case
  proof (cases "bs = []")
    case True then show ?thesis by (intro exI [of _ m]) (simp add: copyout_loop_Nil)
  next
    case False
    let ?n = "min (page_rest va) (length bs)" and ?r = "page_rest va"
    obtain p where p: "walkaddr pt (PGROUNDDOWN va) s = Ok p" using walkaddr_returns by blast
    have p0: "p \<noteq> 0" using less.prems(2) [of 0] False p by (auto simp: uaddr_def)
    have f: "f i = p + (va - PGROUNDDOWN va) + of_nat i" if "i < ?n" for i
      using uaddr_chunk [OF p p0, of i] less.prems(2) [of i] that by simp
    let ?m = "put_bytes m (p + (va - PGROUNDDOWN va)) (take ?n bs)"
    have n64: "?n \<le> 2 ^ 64" "0 < ?n" using page_offset(3,4) [of va] False by auto
    have at: "?m (f i) = bs ! i" if "i < ?n" for i
      using f [OF that] put_bytes_at [of i "take ?n bs"] that n64 by simp
    have oth: "?m x = m x" if "x \<notin> f ` {..<?n}" for x
    proof (rule put_bytes_other)
      show "x \<notin> region (p + (va - PGROUNDDOWN va)) (length (take ?n bs))"
        using that f n64 by (auto simp: in_region_iff)
    qed
    have fU: "f i \<in> U" if "i < length bs" for i using less.prems(2) that by auto
    have mU: "?m x = pmem s x" if "x \<notin> U" for x
      using that less.prems(1) oth [of x] fU by force
    have st: "copyout_loop pt va bs (s\<lparr>pmem := m\<rparr>) = copyout_loop pt (va + of_nat ?r) (drop ?n bs) (s\<lparr>pmem := ?m\<rparr>)"
    proof -
      have "walkaddr pt (PGROUNDDOWN va) (s\<lparr>pmem := m\<rparr>) = Ok p" using assms(1) less.prems(1) p by (simp add: stable_def)
      from copyout_loop_step [OF False this] p0 show ?thesis by (simp add: Let_def)
    qed
    have "\<exists>m'. copyout_loop pt (va + of_nat ?r) (drop ?n bs) (s\<lparr>pmem := ?m\<rparr>) = Ok (0, s\<lparr>pmem := m'\<rparr>) \<and>
      (\<forall>i<length (drop ?n bs). m' (f (?n + i)) = drop ?n bs ! i) \<and>
      (\<forall>x. x \<notin> (\<lambda>i. f (?n + i)) ` {..<length (drop ?n bs)} \<longrightarrow> m' x = ?m x)"
    proof (rule less.hyps)
      show "length (drop ?n bs) < length bs" using n64(2) False by simp
      show "?m x = pmem s x" if "x \<notin> U" for x by (rule mU [OF that])
      fix i assume "i < length (drop ?n bs)"
      then have i: "?n + i < length bs" "?n = ?r" by auto
      show "uaddr pt s (va + of_nat ?r + of_nat i) = Some (f (?n + i)) \<and> f (?n + i) \<in> U"
        using less.prems(2) [OF i(1)] i(2) by (simp add: add.assoc)
    next
      show "inj_on (\<lambda>i. f (?n + i)) {..<length (drop ?n bs)}"
      proof (rule inj_onI)
        fix x y assume "x \<in> {..<length (drop ?n bs)}" "y \<in> {..<length (drop ?n bs)}" "f (?n + x) = f (?n + y)"
        then show "x = y" using inj_onD [OF less.prems(3), of "?n + x" "?n + y"] by auto
      qed
    qed
    then obtain m' where m': "copyout_loop pt (va + of_nat ?r) (drop ?n bs) (s\<lparr>pmem := ?m\<rparr>) = Ok (0, s\<lparr>pmem := m'\<rparr>)"
      "\<And>i. i < length bs - ?n \<Longrightarrow> m' (f (?n + i)) = drop ?n bs ! i"
      "\<And>x. x \<notin> (\<lambda>i. f (?n + i)) ` {..<length bs - ?n} \<Longrightarrow> m' x = ?m x" by auto
    have lo: "m' (f i) = bs ! i" if i: "i < ?n" for i
    proof -
      have "f i \<notin> (\<lambda>i. f (?n + i)) ` {..<length bs - ?n}"
      proof
        assume "f i \<in> (\<lambda>i. f (?n + i)) ` {..<length bs - ?n}"
        then obtain j where j: "j < length bs - ?n" "f i = f (?n + j)" by auto
        have "?n + j < length bs" "i < length bs" using j(1) i by linarith+
        then have "i = ?n + j" using inj_onD [OF less.prems(3) j(2)] by blast
        then show False using i by simp
      qed
      then show ?thesis using m'(3) at [OF i] by simp
    qed
    have hi: "m' (f i) = bs ! i" if "i < length bs" "?n \<le> i" for i
      using m'(2) [of "i - ?n"] that by simp
    have "m' x = m x" if x: "x \<notin> f ` {..<length bs}" for x
    proof -
      have "x \<notin> (\<lambda>i. f (?n + i)) ` {..<length bs - ?n}" "x \<notin> f ` {..<?n}" using x by auto
      then show ?thesis using m'(3) [of x] oth [of x] by simp
    qed
    then show ?thesis using st m'(1) lo hi by (intro exI [of _ m']) (metis not_le)
  qed
qed

subsection \<open>The copies of \<open>Vm\<close>\<close>

lemma PTE2PA_low: "unat (PTE2PA e) + 4096 \<le> 2 ^ 64"
proof -
  have "unat (PTE2PA e) mod 4096 = 0"
  proof -
    have "take_bit 12 (PTE2PA e) = 0" by (auto simp: PTE2PA_def bit_eq_iff bit_simps)
    then have "unat (take_bit 12 (PTE2PA e)) = 0" by simp
    then have "take_bit 12 (unat (PTE2PA e)) = 0" by (simp only: unsigned_take_bit_eq)
    then show ?thesis by (simp add: take_bit_eq_mod)
  qed
  then obtain k where "unat (PTE2PA e) = 4096 * k" by auto
  moreover have "unat (PTE2PA e) < 2 ^ 64" using unsigned_less [of "PTE2PA e", where ?'a = nat] by simp
  ultimately show ?thesis by simp
qed

lemma walkaddr_low: "walkaddr pt va s = Ok p \<Longrightarrow> unat p + 4096 \<le> 2 ^ 64"
  using PTE2PA_low by (auto simp: walkaddr_def walk_def Let_def split: prod.splits if_splits)

lemma chunk_count:
  fixes len va :: u64
  defines "n \<equiv> (if PGSIZE - (va - PGROUNDDOWN va) > len then len else PGSIZE - (va - PGROUNDDOWN va))"
  shows "unat n = min (page_rest va) (unat len)" "unat (ucast n :: u32) = min (page_rest va) (unat len)"
proof -
  show u: "unat n = min (page_rest va) (unat len)"
    by (auto simp: n_def page_rest_def word_less_nat_alt min_def)
  have "unat (ucast n :: u32) = take_bit 32 (unat n)" by (simp add: unsigned_ucast_eq)
  also have "\<dots> = unat n" using u page_offset(4) [of va] by (intro take_bit_nat_eq_self) simp
  finally show "unat (ucast n :: u32) = min (page_rest va) (unat len)" using u by simp
qed

lemma chunk_low:
  assumes "walkaddr pt (PGROUNDDOWN va) s = Ok p" "n \<le> page_rest va"
  shows "unat (p + (va - PGROUNDDOWN va)) + n \<le> 2 ^ 64" "unat p + 4096 < 2 ^ 64 \<Longrightarrow> unat (p + (va - PGROUNDDOWN va)) + n < 2 ^ 64"
proof -
  let ?o = "unat va mod 4096"
  have o: "of_nat ?o = va - PGROUNDDOWN va" using page_offset(1) [of va, symmetric] by simp
  have "unat (p + of_nat ?o) = unat p + ?o"
    by (rule unat_add_of_nat) (use walkaddr_low [OF assms(1)] mod_less_divisor [of 4096 "unat va"] in linarith)
  moreover have "?o + n \<le> 4096" using assms(2) page_offset(2) [of va] mod_less_divisor [of 4096 "unat va"] by linarith
  ultimately show "unat (p + (va - PGROUNDDOWN va)) + n \<le> 2 ^ 64"
    "unat p + 4096 < 2 ^ 64 \<Longrightarrow> unat (p + (va - PGROUNDDOWN va)) + n < 2 ^ 64"
    using walkaddr_low [OF assms(1)] unfolding o by linarith+
qed

lemma stable_user:
  assumes "pt_ok kend 2 (pmem s) pt" "\<And>p. p \<in> set (pt_pages 2 (pmem s) pt) \<Longrightarrow> U \<inter> region p 4096 = {}"
  shows "stable pt s U"
  unfolding stable_def
proof (intro allI impI)
  fix m va assume m: "\<forall>x. x \<notin> U \<longrightarrow> m x = pmem s x"
  have f: "pt_pages 2 m pt = pt_pages 2 (pmem s) pt \<and> pt_get 2 m pt va = pt_get 2 (pmem s) pt va \<and> pt_leaf 2 m pt va = pt_leaf 2 (pmem s) pt va"
  proof (rule pt_frame)
    fix p x assume "p \<in> set (pt_pages 2 (pmem s) pt)" "x \<in> region p 4096"
    then show "m x = pmem s x" using assms(2) m by blast
  qed
  then have "pt_ok kend 2 (pmem (s\<lparr>pmem := m\<rparr>)) pt" using assms(1) by (simp add: pt_ok_def)
  from walkaddr_spec [OF this, of va] walkaddr_spec [OF assms(1), of va] f
  show "walkaddr pt va (s\<lparr>pmem := m\<rparr>) = walkaddr pt va s" by simp
qed

lemma region_tail: "n \<le> unat (l :: u64) \<Longrightarrow> region (a + of_nat n) (unat l - n) \<subseteq> region a (unat l)"
proof
  fix x assume n: "n \<le> unat l" and "x \<in> region (a + of_nat n) (unat l - n)"
  then have d: "unat (x - (a + of_nat n)) < unat l - n" by (simp add: region_def)
  have "x - a = of_nat (unat (x - (a + of_nat n)) + n)" by simp
  also have "unat \<dots> = unat (x - (a + of_nat n)) + n"
    using d n unsigned_less [of l, where ?'a = nat] by (intro unat_of_nat_small) simp
  finally show "x \<in> region a (unat l)" using d by (simp add: region_def)
qed

lemma bytes_at_cong: "(\<And>x. x \<in> region a n \<Longrightarrow> g x = m x) \<Longrightarrow> n \<le> 2 ^ 64 \<Longrightarrow> bytes_at g a n = bytes_at m a n"
  by (rule nth_equalityI) (auto simp: nth_bytes_at in_region_iff)

lemma bytes_at_nonempty: "0 < n \<Longrightarrow> bytes_at m a n \<noteq> []"
  by (metis bytes_at_length length_0_conv less_irrefl_nat)

lemma chunk_in:
  assumes "walkaddr pt (PGROUNDDOWN va) s = Ok p" "p \<noteq> 0" "n \<le> page_rest va" "x \<in> region (p + (va - PGROUNDDOWN va)) n"
  shows "\<exists>w. uaddr pt s w = Some x"
proof -
  obtain i where "i < n" "x = p + (va - PGROUNDDOWN va) + of_nat i"
    using assms(3,4) page_offset(4) [of va] by (auto simp: in_region_iff)
  then show ?thesis using uaddr_chunk [OF assms(1,2), of i] assms(3) by auto
qed

lemma u64_bound: "unat (l :: u64) \<le> 2 ^ 64"
  using unsigned_less [of l, where ?'a = nat] by simp

text \<open>One turn of \<open>copyout\<close> moves \<open>chunk va l\<close> bytes.\<close>

definition chunk :: "u64 \<Rightarrow> u64 \<Rightarrow> u64" where
  "chunk va len = (let n = PGSIZE - (va - PGROUNDDOWN va) in if n > len then len else n)"

lemma chunk_facts:
  "unat (chunk va l) = min (page_rest va) (unat l)" "unat (ucast (chunk va l) :: u32) = min (page_rest va) (unat l)"
  "unat (l - chunk va l) = unat l - min (page_rest va) (unat l)" "chunk va l = of_nat (min (page_rest va) (unat l))"
proof -
  show u: "unat (chunk va l) = min (page_rest va) (unat l)" and "unat (ucast (chunk va l) :: u32) = min (page_rest va) (unat l)"
    using chunk_count [where va = va and len = l] by (simp_all add: chunk_def Let_def)
  have "chunk va l \<le> l" by (simp add: word_le_nat_alt u)
  then show "unat (l - chunk va l) = unat l - min (page_rest va) (unat l)" by (simp add: unat_sub u)
  show "chunk va l = of_nat (min (page_rest va) (unat l))" by (simp add: u [symmetric])
qed

definition copyout_turn :: "u64 \<Rightarrow> u64 \<times> u64 \<times> u64 \<times> kmem \<Rightarrow> (u64 \<times> u64 \<times> u64 \<times> kmem, int \<times> kmem) ctl res" where
  "copyout_turn pt = (\<lambda>(va, src, len, s).
     if len > 0 then
       bindR (walkaddr pt (PGROUNDDOWN va) s) (\<lambda>pa0.
       if pa0 = 0 then Ok (Exit (-1, s))
       else Ok (Next (PGROUNDDOWN va + PGSIZE, src + chunk va len, len - chunk va len,
              s\<lparr>pmem := memmove (pmem s) (pa0 + (va - PGROUNDDOWN va)) src (ucast (chunk va len))\<rparr>)))
     else Ok (Exit (0, s)))"

lemma copyout_turns: "copyout pt va src len s = loopR (copyout_turn pt) (va, src, len, s)"
  unfolding copyout_def copyout_turn_def chunk_def Let_def ..

lemma copyout_turns_bytes:
  assumes st: "stable pt s U" and u: "\<And>va pa. uaddr pt s va = Some pa \<Longrightarrow> pa \<in> U"
    and prems: "\<forall>x. x \<notin> U \<longrightarrow> m x = pmem s x" "U \<inter> region a (unat l) = {}" "unat a + unat l < 2 ^ 64"
  shows "loopR (copyout_turn pt) (va, a, l, s\<lparr>pmem := m\<rparr>) = copyout_loop pt va (bytes_at (pmem s) a (unat l)) (s\<lparr>pmem := m\<rparr>)"
  using prems
proof (induction "unat l" arbitrary: va a l m rule: less_induct)
  case less
  let ?bs = "bytes_at (pmem s) a (unat l)"
  show ?case
  proof (cases "l = 0")
    case True then show ?thesis by (subst loopR_unfold) (simp add: copyout_turn_def copyout_loop_Nil bytes_at_def)
  next
    case False
    then have l: "0 < unat l" "l > 0" by (simp_all add: unat_gt_0 word_gt_0)
    obtain p where p: "walkaddr pt (PGROUNDDOWN va) s = Ok p" using walkaddr_returns by blast
    have pm: "walkaddr pt (PGROUNDDOWN va) (s\<lparr>pmem := m\<rparr>) = Ok p" using st less.prems(1) p by (simp add: stable_def)
    note step = copyout_loop_step [OF bytes_at_nonempty [OF l(1)] pm]
    show ?thesis
    proof (cases "p = 0")
      case True then show ?thesis using l(2) pm step by (subst loopR_unfold) (simp add: copyout_turn_def)
    next
      case p0: False
      let ?k = "min (page_rest va) (unat l)" and ?d = "p + (va - PGROUNDDOWN va)"
      let ?m = "put_bytes m ?d (bytes_at (pmem s) a ?k)" and ?n = "chunk va l"
      note n = chunk_facts [where va = va and l = l]
      have "bytes_at m a ?k = bytes_at (pmem s) a ?k"
        using less.prems(1,2) region_mono [of ?k "unat l" a] u64_bound [of l] by (intro bytes_at_cong) auto
      then have mv: "memmove m ?d a (ucast ?n) = ?m"
        using memmove_put [of a "ucast ?n" ?d m] n(2) less.prems(3) chunk_low(1) [OF p, of ?k] by simp
      have "loopR (copyout_turn pt) (va, a, l, s\<lparr>pmem := m\<rparr>) =
          loopR (copyout_turn pt) (PGROUNDDOWN va + PGSIZE, a + ?n, l - ?n, s\<lparr>pmem := ?m\<rparr>)"
        by (rule loopR_Next) (use l(2) pm p0 mv in \<open>simp add: copyout_turn_def\<close>)
      also have "\<dots> = copyout_loop pt (PGROUNDDOWN va + PGSIZE) (bytes_at (pmem s) (a + ?n) (unat (l - ?n))) (s\<lparr>pmem := ?m\<rparr>)"
      proof (rule less.hyps)
        show "unat (l - ?n) < unat l" using n(3) l(1) page_offset(3) [of va] by simp
        have "unat (a + ?n) = unat a + ?k" unfolding n(4) by (rule unat_add_of_nat) (use less.prems(3) in simp)
        then show "unat (a + ?n) + unat (l - ?n) < 2 ^ 64" using n(3) less.prems(3) by simp
        show "\<forall>x. x \<notin> U \<longrightarrow> ?m x = pmem s x"
          using chunk_in [OF p p0, of ?k] u less.prems(1) put_bytes_other [of _ ?d "bytes_at (pmem s) a ?k" m] by fastforce
        show "U \<inter> region (a + ?n) (unat (l - ?n)) = {}"
          using region_tail [of ?k l a] less.prems(2) unfolding n(3) by (simp only: n(4)) auto
      qed
      also have "\<dots> = copyout_loop pt va ?bs (s\<lparr>pmem := m\<rparr>)"
      proof -
        have "?bs = bytes_at (pmem s) a ?k @ bytes_at (pmem s) (a + ?n) (unat (l - ?n))"
          using bytes_at_add [of "pmem s" a ?k "unat l - ?k"] unfolding n(3) by (simp add: n(4))
        then have "take ?k ?bs = bytes_at (pmem s) a ?k" "drop ?k ?bs = bytes_at (pmem s) (a + ?n) (unat (l - ?n))" by auto
        then show ?thesis using step p0 by (simp add: Let_def next_page)
      qed
      finally show ?thesis .
    qed
  qed
qed

definition copyin_turn :: "u64 \<Rightarrow> u64 \<times> u64 \<times> u64 \<times> kmem \<Rightarrow> (u64 \<times> u64 \<times> u64 \<times> kmem, int \<times> kmem) ctl res" where
  "copyin_turn pt = (\<lambda>(dst, va, len, s).
     if len > 0 then
       bindR (walkaddr pt (PGROUNDDOWN va) s) (\<lambda>pa0.
       if pa0 = 0 then Ok (Exit (-1, s))
       else Ok (Next (dst + chunk va len, PGROUNDDOWN va + PGSIZE, len - chunk va len,
              s\<lparr>pmem := memmove (pmem s) dst (pa0 + (va - PGROUNDDOWN va)) (ucast (chunk va len))\<rparr>)))
     else Ok (Exit (0, s)))"

lemma copyin_turns: "copyin pt dst va len s = loopR (copyin_turn pt) (dst, va, len, s)"
  unfolding copyin_def copyin_turn_def chunk_def Let_def ..

definition store_result :: "u64 \<Rightarrow> kmem \<Rightarrow> (int \<times> byte list) res \<Rightarrow> (int \<times> kmem) res" where
  "store_result dst s r = bindR r (\<lambda>(x, bs). Ok (x, s\<lparr>pmem := put_bytes (pmem s) dst bs\<rparr>))"

lemma copyin_turns_bytes:
  assumes st: "stable pt s U" and u: "\<And>va pa. uaddr pt s va = Some pa \<Longrightarrow> pa \<notin> U"
    and hi: "\<And>va p. walkaddr pt va s = Ok p \<Longrightarrow> unat p + 4096 < 2 ^ 64"
    and prems: "region dst (length acc + unat l) \<subseteq> U" "unat dst + length acc + unat l \<le> 2 ^ 64"
  shows "loopR (copyin_turn pt) (dst + of_nat (length acc), va, l, s\<lparr>pmem := put_bytes (pmem s) dst acc\<rparr>) =
    store_result dst s (copyin_loop pt s acc va (unat l))"
  using prems
proof (induction "unat l" arbitrary: va acc l rule: less_induct)
  case less
  let ?m = "put_bytes (pmem s) dst acc" and ?a = "dst + of_nat (length acc)"
  show ?case
  proof (cases "l = 0")
    case True then show ?thesis
      by (subst loopR_unfold) (simp add: copyin_turn_def copyin_loop_0 store_result_def)
  next
    case False
    then have l: "0 < unat l" "l > 0" by (simp_all add: unat_gt_0 word_gt_0)
    have mU: "?m x = pmem s x" if "x \<notin> U" for x
      using that less.prems(1) region_mono [of "length acc" "length acc + unat l" dst] by (intro put_bytes_other) auto
    obtain p where p: "walkaddr pt (PGROUNDDOWN va) s = Ok p" using walkaddr_returns by blast
    have pm: "walkaddr pt (PGROUNDDOWN va) (s\<lparr>pmem := ?m\<rparr>) = Ok p" using st mU p by (simp add: stable_def)
    note step = copyin_loop_step [OF l(1) p]
    show ?thesis
    proof (cases "p = 0")
      case True then show ?thesis using l(2) pm step by (subst loopR_unfold) (simp add: copyin_turn_def store_result_def)
    next
      case p0: False
      let ?k = "min (page_rest va) (unat l)" and ?d = "p + (va - PGROUNDDOWN va)"
      let ?bs = "bytes_at (pmem s) ?d ?k" and ?n = "chunk va l"
      note n = chunk_facts [where va = va and l = l]
      have "bytes_at ?m ?d ?k = ?bs"
        using chunk_in [OF p p0, of ?k] u mU u64_bound [of l] by (intro bytes_at_cong) auto
      moreover have "unat ?a + ?k \<le> 2 ^ 64" using unat_add_of_nat [of dst "length acc"] less.prems(2) l(1) by simp
      ultimately have mv: "memmove ?m ?a ?d (ucast ?n) = put_bytes (pmem s) dst (acc @ ?bs)"
        using memmove_put [of ?d "ucast ?n" ?a ?m] n(2) chunk_low(2) [OF p _ hi [OF p], of ?k]
          put_bytes_append [of acc ?bs "pmem s" dst] less.prems(2) by simp
      have "loopR (copyin_turn pt) (?a, va, l, s\<lparr>pmem := ?m\<rparr>) =
          loopR (copyin_turn pt) (dst + of_nat (length (acc @ ?bs)), PGROUNDDOWN va + PGSIZE, l - ?n, s\<lparr>pmem := put_bytes (pmem s) dst (acc @ ?bs)\<rparr>)"
        by (rule loopR_Next) (use l(2) pm p0 mv n(4) in \<open>simp add: copyin_turn_def add.assoc\<close>)
      also have "\<dots> = store_result dst s (copyin_loop pt s (acc @ ?bs) (PGROUNDDOWN va + PGSIZE) (unat (l - ?n)))"
      proof (rule less.hyps)
        show "unat (l - ?n) < unat l" using n(3) l(1) page_offset(3) [of va] by simp
        have "length (acc @ ?bs) + unat (l - ?n) = length acc + unat l" using n(3) by simp
        then show "region dst (length (acc @ ?bs) + unat (l - ?n)) \<subseteq> U"
          "unat dst + length (acc @ ?bs) + unat (l - ?n) \<le> 2 ^ 64" using less.prems by (simp_all only: add.assoc)
      qed
      also have "\<dots> = store_result dst s (copyin_loop pt s acc va (unat l))"
        using step p0 n(3) by (simp add: Let_def next_page)
      finally show ?thesis .
    qed
  qed
qed

text \<open>An address space with one user page, used as an example.\<close>

lemma one_page_space:
  "\<exists>t. pt_ok 0x80000000 2 (pmem t) 0x80001000 \<and>
     set (pt_pages 2 (pmem t) 0x80001000) \<subseteq> {0x80001000, 0x80003000, 0x80004000} \<and>
     (\<forall>w. walkaddr 0x80001000 w t = Ok (if w < MAXVA \<and> pg w = 4 then 0x80002000 else 0))"
proof -
  let ?k = "0x80000000 :: u64" and ?pt = "0x80001000 :: u64" and ?perm = "PTE_R OR PTE_U"
  have pok: "page_ok ?k ?pt" "page_ok ?k 0x80003000" "page_ok ?k 0x80004000"
    by (simp_all add: page_ok_def aligned_def PGSIZE_def PHYSTOP_def KERNBASE_def)
  obtain s where s: "vm_ok ?k ?pt s [0x80004000, 0x80003000]" "pt_pages 2 (pmem s) ?pt = [?pt]" "\<And>w. \<not> valid (pt_get 2 (pmem s) ?pt w)"
    using free_pages_vm_ok [OF pok] by auto
  have p4: "pg 0x4000 = 4" by (simp add: pg_def)
  have al: "aligned 0x4000" "aligned 0x80002000" by (simp_all add: aligned_def PGSIZE_def)
  have "\<exists>r t qs. mappages ?pt 0x4000 (of_nat (Suc 0) * PGSIZE) 0x80002000 ?perm s = Ok (r, t) \<and> evolves ?k ?pt s [0x80004000, 0x80003000] t qs \<and>
    (r = 0 \<and> (\<forall>w<MAXVA. pt_get 2 (pmem t) ?pt w = range_get (Suc 0) 0x4000 0x80002000 ?perm (pt_get 2 (pmem s) ?pt) w) \<or>
     r = -1 \<and> qs = [] \<and> length [0x80004000, 0x80003000 :: u64] < 2 * Suc 0 \<and>
       (\<exists>k\<le>0. \<forall>w<MAXVA. pt_get 2 (pmem t) ?pt w = range_get k 0x4000 0x80002000 ?perm (pt_get 2 (pmem s) ?pt) w))"
    by (rule mappages_spec [OF s(1) al(1)]) (use s(3) in auto)
  then obtain t qs where e: "evolves ?k ?pt s [0x80004000, 0x80003000] t qs"
    and g: "\<forall>w<MAXVA. pt_get 2 (pmem t) ?pt w = range_get (Suc 0) 0x4000 0x80002000 ?perm (pt_get 2 (pmem s) ?pt) w" by auto
  have ok: "pt_ok ?k 2 (pmem t) ?pt" using e by (simp add: evolves_def vm_ok_def)
  have "walkaddr ?pt w t = Ok (if w < MAXVA \<and> pg w = 4 then 0x80002000 else 0)" for w
  proof (cases "w < MAXVA \<and> pg w = 4")
    case True
    then have "walkaddr ?pt w t = Ok (0x80002000 + of_nat 0 * PGSIZE)"
      using g p4 al by (intro walkaddr_mapped [OF ok, where perm = ?perm]) (auto simp: range_get_def PTE_R_def PTE_U_def)
    then show ?thesis using True by simp
  next
    case False
    then show ?thesis using g s(3) [of w] p4 walkaddr_spec [OF ok, of w] by (auto simp: range_get_def)
  qed
  moreover have "set (pt_pages 2 (pmem t) ?pt) \<subseteq> {?pt, 0x80003000, 0x80004000}"
    using e s(2) by (auto simp: evolves_def append_eq_Cons_conv Cons_eq_append_conv)
  ultimately show ?thesis using ok by blast
qed

section \<open>Properties\<close>


text \<open>
  What the kernel copies out to a mapped, unshared range of user memory it reads back with
  \<open>copyin\<close>, across page boundaries, and no other byte of memory changes.
\<close>

theorem copyout_copyin:
  assumes "pt_ok kend 2 (pmem s) pt"
    and map: "\<And>i. i < length bs \<Longrightarrow> uaddr pt s (va + of_nat i) = Some (f i)"
    and inj: "inj_on f {..<length bs}"
    and split: "\<And>i p. i < length bs \<Longrightarrow> p \<in> set (pt_pages 2 (pmem s) pt) \<Longrightarrow> f i \<notin> region p 4096"
  shows "\<exists>t. copyout_bytes pt va bs s = Ok (0, t) \<and> copyin_bytes pt va (length bs) t = Ok (0, bs) \<and>
    (\<forall>x. x \<notin> f ` {..<length bs} \<longrightarrow> pmem t x = pmem s x)"
proof -
  let ?U = "f ` {..<length bs}"
  have st: "stable pt s ?U" by (rule stable_user [OF assms(1)]) (use split in auto)
  from copyout_loop_ok [OF st, of "pmem s" bs va f] map inj obtain m where
    m: "copyout_bytes pt va bs s = Ok (0, s\<lparr>pmem := m\<rparr>)" "\<forall>i<length bs. m (f i) = bs ! i"
       "\<forall>x. x \<notin> ?U \<longrightarrow> m x = pmem s x" by (auto simp: copyout_bytes_loop)
  have ua: "uaddr pt (s\<lparr>pmem := m\<rparr>) w = uaddr pt s w" for w using st m(3) by (simp add: stable_def uaddr_def)
  have "umem pt (s\<lparr>pmem := m\<rparr>) va (length bs) = bs"
    by (rule nth_equalityI) (use map m(2) in \<open>auto simp: umem_def ua\<close>)
  then show ?thesis using m map copyin_bytes_ok [of "length bs" pt "s\<lparr>pmem := m\<rparr>" va] by (auto simp: ua)
qed


lemma one_page_uaddr:
  assumes "\<forall>w. walkaddr 0x80001000 w t = Ok (if w < MAXVA \<and> pg w = 4 then 0x80002000 else 0)"
  shows "uaddr 0x80001000 t va = Some pa \<Longrightarrow> pa \<in> region 0x80002000 4096"
    "i < 4096 \<Longrightarrow> uaddr 0x80001000 t (0x4000 + of_nat i) = Some (0x80002000 + of_nat i)"
proof -
  assume "uaddr 0x80001000 t va = Some pa"
  then have "pa = 0x80002000 + (va - PGROUNDDOWN va)" using assms by (auto simp: uaddr_def split: if_splits)
  then show "pa \<in> region 0x80002000 4096" using page_offset(1) [of va] by (simp add: region_def)
next
  assume i: "i < 4096"
  have r: "page_rest 0x4000 = 4096" by (simp add: page_offset(2))
  have "PGROUNDDOWN 0x4000 = 0x4000" by (simp add: PGROUNDDOWN_def PGSIZE_def)
  then show "uaddr 0x80001000 t (0x4000 + of_nat i) = Some (0x80002000 + of_nat i)"
    using uaddr_chunk [of "0x80001000" "0x4000" t "0x80002000" i] assms i r by (simp add: pg_def MAXVA_def)
qed

lemma pages_apart:
  assumes "aligned p" "aligned q" "p \<noteq> q" "x \<in> region p 4096"
  shows "x \<notin> region q 4096"
  using page_disjoint [OF assms(1-3)] assms(4) by blast

lemma example_aligned: "aligned 0x80001000" "aligned 0x80002000" "aligned 0x80003000" "aligned 0x80004000" "aligned 0x80005000"
  by (simp_all add: aligned_def PGSIZE_def)

theorem copyout_copyin_witness:
  "\<exists>s t. copyout_bytes 0x80001000 0x4010 [1, 2, 3] s = Ok (0, t) \<and> copyin_bytes 0x80001000 0x4010 3 t = Ok (0, [1, 2, 3])"
proof -
  obtain s where s: "pt_ok 0x80000000 2 (pmem s) 0x80001000"
    "set (pt_pages 2 (pmem s) 0x80001000) \<subseteq> {0x80001000, 0x80003000, 0x80004000}"
    "\<forall>w. walkaddr 0x80001000 w s = Ok (if w < MAXVA \<and> pg w = 4 then 0x80002000 else 0)" using one_page_space by blast
  let ?f = "\<lambda>i. 0x80002000 + of_nat (16 + i) :: u64"
  have "\<exists>t. copyout_bytes 0x80001000 0x4010 [1, 2, 3] s = Ok (0, t) \<and> copyin_bytes 0x80001000 0x4010 (length [1 :: byte, 2, 3]) t = Ok (0, [1, 2, 3]) \<and>
    (\<forall>x. x \<notin> ?f ` {..<length [1 :: byte, 2, 3]} \<longrightarrow> pmem t x = pmem s x)"
  proof (rule copyout_copyin [OF s(1)])
    fix i assume "i < length [1 :: byte, 2, 3]"
    then show u: "uaddr 0x80001000 s (0x4010 + of_nat i) = Some (?f i)" using one_page_uaddr(2) [OF s(3), of "16 + i"] by simp
    fix p assume "p \<in> set (pt_pages 2 (pmem s) 0x80001000)"
    then show "?f i \<notin> region p 4096"
      using s(2) by (intro pages_apart [OF _ _ _ one_page_uaddr(1) [OF s(3) u]]) (auto simp: example_aligned)
  next
    show "inj_on ?f {..<length [1 :: byte, 2, 3]}" by (auto simp: inj_on_def numeral_3_eq_3 less_Suc_eq)
  qed
  then show ?thesis by (auto simp: numeral_3_eq_3)
qed


end
