(* ===== verification/VmFree.thy ===== *)
theory VmFree
  imports UserCopy
begin

text \<open>
  Taking user memory and page tables apart: what \<open>uvmunmap\<close>, \<open>freewalk\<close> and \<open>uvmfree\<close> of \<open>kernel/vm.c\<close> do to the
  page table and to the free list.  No page is lost and none is freed twice.
\<close>

section \<open>Tables without leaves\<close>

text \<open>
  Entries that point to the next level have none of the permission bits; the lowest level has no
  valid entry.
\<close>

primrec bare :: "nat \<Rightarrow> memory \<Rightarrow> u64 \<Rightarrow> bool" where
  "bare 0 m pt = (\<forall>i<512. \<not> valid (load64 m (slot pt i)))"
| "bare (Suc l) m pt =
     (\<forall>i<512. valid (load64 m (slot pt i)) \<longrightarrow>
        load64 m (slot pt i) AND (PTE_R OR PTE_W OR PTE_X) = 0 \<and> bare l m (PTE2PA (load64 m (slot pt i))))"

lemma bare_frame:
  assumes "\<And>p x. p \<in> set (pt_pages l m pt) \<Longrightarrow> x \<in> region p 4096 \<Longrightarrow> g x = m x"
  shows "bare l g pt = bare l m pt"
  using assms
proof (induction l arbitrary: pt)
  case 0
  have "load64 g (slot pt i) = load64 m (slot pt i)" if "i < 512" for i
    using 0 [of pt] slot_in_page [OF that] by (intro load64_cong) auto
  then show ?case by simp
next
  case (Suc l)
  have ld: "load64 g (slot pt i) = load64 m (slot pt i)" if "i < 512" for i
    using Suc.prems pt_pages_self slot_in_page [OF that] by (intro load64_cong) blast
  have "bare l g (PTE2PA (load64 m (slot pt i))) = bare l m (PTE2PA (load64 m (slot pt i)))"
    if "i < 512" "valid (load64 m (slot pt i))" for i
  proof (rule Suc.IH)
    fix p x assume p: "p \<in> set (pt_pages l m (PTE2PA (load64 m (slot pt i))))" "x \<in> region p 4096"
    then have "p \<in> set (pt_pages (Suc l) m pt)" using that unfolding set_pt_pages_Suc by (auto simp: kids_def)
    then show "g x = m x" using Suc.prems p(2) by blast
  qed
  then show ?case using ld by auto
qed

section \<open>freewalk\<close>

definition free_turn :: "nat \<Rightarrow> u64 \<Rightarrow> u64 \<Rightarrow> nat \<Rightarrow> kmem \<Rightarrow> kmem res" where
  "free_turn d kend pt i s =
     (let pte = load64 (pmem s) (slot pt i) in
      if valid pte \<and> pte AND (PTE_R OR PTE_W OR PTE_X) = 0 then
        bindR (freewalk d kend (PTE2PA pte) s) (\<lambda>s. Ok (s\<lparr>pmem := store64 (pmem s) (slot pt i) 0\<rparr>))
      else if valid pte then Panic ''freewalk: leaf''
      else Ok s)"

lemma freewalk_Suc: "freewalk (Suc d) kend pt s = bindR (forR (free_turn d kend pt) [0..<512] s) (kfree kend pt)"
  unfolding free_turn_def [abs_def] slot_def by simp

text \<open>The pages \<open>P\<close> have gone to the free list; memory outside them is as before.\<close>

definition freed :: "u64 \<Rightarrow> u64 set \<Rightarrow> kmem \<Rightarrow> u64 list \<Rightarrow> kmem \<Rightarrow> bool" where
  "freed kend P s ps t \<longleftrightarrow> (\<exists>qs. kmem_inv kend t (qs @ ps) \<and> set qs = P) \<and>
     (\<forall>x. (\<forall>p\<in>P. x \<notin> region p 4096) \<longrightarrow> pmem t x = pmem s x)"

lemma kids_ok: "pt_ok kend (Suc l) m pt \<Longrightarrow> i < 512 \<Longrightarrow> valid (load64 m (slot pt i)) \<Longrightarrow> pt_ok kend l m (PTE2PA (load64 m (slot pt i)))"
  using kids_sub [of i l m pt] unfolding pt_ok_def distinct_pt_pages_Suc by (auto simp: kids_def)

lemma root_not_kid: "pt_ok kend (Suc l) m pt \<Longrightarrow> i < 512 \<Longrightarrow> pt \<notin> set (kids l m pt i)"
  unfolding pt_ok_def distinct_pt_pages_Suc by auto

text \<open>The loop over the entries, given that the next level can be freed.\<close>

lemma free_turns:
  assumes ok: "pt_ok kend (Suc l) (pmem s) pt" and br: "bare (Suc l) (pmem s) pt"
    and inv: "kmem_inv kend s ps" "set ps \<inter> set (pt_pages (Suc l) (pmem s) pt) = {}"
    and IH: "\<And>c s qs. pt_ok kend l (pmem s) c \<Longrightarrow> bare l (pmem s) c \<Longrightarrow> kmem_inv kend s qs \<Longrightarrow> set qs \<inter> set (pt_pages l (pmem s) c) = {} \<Longrightarrow>
      \<exists>t. freewalk (Suc l) kend c s = Ok t \<and> freed kend (set (pt_pages l (pmem s) c)) s qs t"
  shows "\<exists>t qs. forR (free_turn (Suc l) kend pt) [0..<512] s = Ok t \<and> kmem_inv kend t (qs @ ps) \<and> set qs = (\<Union>j<512. set (kids l (pmem s) pt j)) \<and>
    (\<forall>x. (\<forall>p\<in>set (pt_pages (Suc l) (pmem s) pt). x \<notin> region p 4096) \<longrightarrow> pmem t x = pmem s x)"
proof -
  let ?K = "kids l (pmem s) pt"
  let ?I = "\<lambda>ds t. \<exists>qs. kmem_inv kend t (qs @ ps) \<and> set qs = (\<Union>j\<in>set ds. set (?K j)) \<and>
    (\<forall>j<512. j \<notin> set ds \<longrightarrow> load64 (pmem t) (slot pt j) = load64 (pmem s) (slot pt j)) \<and>
    (\<forall>x. x \<notin> region pt 4096 \<longrightarrow> (\<forall>j\<in>set ds. \<forall>p\<in>set (?K j). x \<notin> region p 4096) \<longrightarrow> pmem t x = pmem s x)"
  have "\<exists>t. forR (free_turn (Suc l) kend pt) [0..<512] s = Ok t \<and> ?I [0..<512] t"
  proof (rule forR_prefix_rule)
    show "?I [] s" using inv(1) by (intro exI [of _ "[]"]) simp
  next
    fix ds i es t assume js: "[0..<512] = ds @ i # es" and I: "?I ds t"
    from filter_upt_prefix [OF js] have ds: "ds = [0..<i]" "i < 512" by auto
    obtain qs where q: "kmem_inv kend t (qs @ ps)" "set qs = (\<Union>j\<in>set ds. set (?K j))"
      "\<forall>j<512. j \<notin> set ds \<longrightarrow> load64 (pmem t) (slot pt j) = load64 (pmem s) (slot pt j)"
      "\<forall>x. x \<notin> region pt 4096 \<longrightarrow> (\<forall>j\<in>set ds. \<forall>p\<in>set (?K j). x \<notin> region p 4096) \<longrightarrow> pmem t x = pmem s x" using I by blast
    have e: "load64 (pmem t) (slot pt i) = load64 (pmem s) (slot pt i)" using q(3) ds by simp
    show "\<exists>u. free_turn (Suc l) kend pt i t = Ok u \<and> ?I (ds @ [i]) u"
    proof (cases "valid (load64 (pmem s) (slot pt i))")
      case False
      then have "?K i = []" by (simp add: kids_def)
      then show ?thesis using False e q by (intro exI [of _ t]) (auto simp: free_turn_def intro!: exI [of _ qs])
    next
      case True
      let ?c = "PTE2PA (load64 (pmem s) (slot pt i))"
      have ki: "?K i = pt_pages l (pmem s) ?c" using True by (simp add: kids_def)
      have lf: "load64 (pmem s) (slot pt i) AND (PTE_R OR PTE_W OR PTE_X) = 0" "bare l (pmem s) ?c" using br True ds(2) by simp_all
      have po: "page_ok kend p" if "p \<in> set (?K j)" "j < 512" for p j using pt_okD [OF ok] kids_sub [OF that(2)] that(1) by blast
      have pto: "page_ok kend pt" using pt_okD [OF ok pt_pages_self] .
      have apart: "x \<notin> region pt 4096 \<and> (\<forall>j\<in>set ds. \<forall>p\<in>set (?K j). x \<notin> region p 4096)" if p: "p \<in> set (?K i)" "x \<in> region p 4096" for p x
      proof (intro conjI ballI)
        have "p \<noteq> pt" using root_not_kid [OF ok ds(2)] p(1) by auto
        then show "x \<notin> region pt 4096" using page_sep [OF p(2) po [OF p(1) ds(2)] pto] by blast
        fix j q assume j: "j \<in> set ds" "q \<in> set (?K j)"
        then have "j < 512" "j \<noteq> i" using ds by auto
        then have "p \<noteq> q" using kids_apart(1) [OF ok ds(2), of j] p(1) j(2) by auto
        then show "x \<notin> region q 4096" using page_sep [OF p(2) po [OF p(1) ds(2)] po [OF j(2) \<open>j < 512\<close>]] by blast
      qed
      have same: "pmem t x = pmem s x" if "p \<in> set (pt_pages l (pmem s) ?c)" "x \<in> region p 4096" for p x
        using q(4) apart [of p x] that ki by auto
      have fr: "pt_pages l (pmem t) ?c = pt_pages l (pmem s) ?c" using pt_frame [of l "pmem s" ?c "pmem t"] same by blast
      have "pt_ok kend l (pmem t) ?c" using kids_ok [OF ok ds(2) True] fr by (simp add: pt_ok_def)
      moreover have "bare l (pmem t) ?c" using bare_frame [of l "pmem s" ?c "pmem t"] same lf(2) by blast
      moreover have "set (qs @ ps) \<inter> set (pt_pages l (pmem t) ?c) = {}"
      proof -
        have "set (?K j) \<inter> set (?K i) = {}" if "j \<in> set ds" for j using kids_apart(1) [OF ok, of j i] that ds by auto
        moreover have "set ps \<inter> set (?K i) = {}" using inv(2) kids_sub [OF ds(2), of l "pmem s" pt] by blast
        ultimately show ?thesis using q(2) unfolding fr ki [symmetric] by auto
      qed
      ultimately obtain u where u: "freewalk (Suc l) kend ?c t = Ok u" "freed kend (set (?K i)) t (qs @ ps) u"
        using IH [of t ?c "qs @ ps"] q(1) unfolding fr ki by blast
      obtain rs where r: "kmem_inv kend u (rs @ qs @ ps)" "set rs = set (?K i)"
        "\<forall>x. (\<forall>p\<in>set (?K i). x \<notin> region p 4096) \<longrightarrow> pmem u x = pmem t x" using u(2) by (auto simp: freed_def)
      let ?u = "u\<lparr>pmem := store64 (pmem u) (slot pt i) 0\<rparr>"
      have run: "free_turn (Suc l) kend pt i t = Ok ?u" using u(1) e True lf(1) by (simp add: free_turn_def)
      have pts: "x \<notin> region p 4096" if "x \<in> region pt 4096" "p \<in> set (?K i)" for x p using apart that by blast
      have "kmem_inv kend ?u ((rs @ qs) @ ps)"
      proof (rule kmem_inv_frame)
        show "kmem_inv kend u ((rs @ qs) @ ps)" using r(1) by simp
        fix p x assume p: "p \<in> set ((rs @ qs) @ ps)" "x \<in> region p 4096"
        have "pt \<notin> set ps" using inv(2) pt_pages_self by blast
        moreover have "pt \<notin> set (?K j)" if "j < 512" for j by (rule root_not_kid [OF ok that])
        ultimately have "p \<noteq> pt" using p(1) r(2) q(2) ds by auto
        moreover have "page_ok kend p" using r(1) p(1) by (auto simp: kmem_inv_def)
        ultimately have "x \<notin> region pt 4096" using page_sep [OF p(2) _ pto] by blast
        then show "store64 (pmem u) (slot pt i) 0 x = pmem u x" using slot_in_page [OF ds(2), of pt] by (intro store64_other) blast
      qed
      moreover have "set (rs @ qs) = (\<Union>j\<in>set (ds @ [i]). set (?K j))" using r(2) q(2) by auto
      moreover have "load64 (pmem ?u) (slot pt j) = load64 (pmem s) (slot pt j)" if "j < 512" "j \<notin> set (ds @ [i])" for j
      proof -
        have "load64 (pmem ?u) (slot pt j) = load64 (pmem u) (slot pt j)" using load_slot_other [of i j] ds(2) that by simp
        also have "\<dots> = load64 (pmem t) (slot pt j)" using r(3) pts slot_in_page [OF that(1), of pt] by (intro load64_cong) blast
        also have "\<dots> = load64 (pmem s) (slot pt j)" using q(3) that by simp
        finally show ?thesis .
      qed
      moreover have "pmem ?u x = pmem s x" if "x \<notin> region pt 4096" "\<forall>j\<in>set (ds @ [i]). \<forall>p\<in>set (?K j). x \<notin> region p 4096" for x
      proof -
        have "pmem ?u x = pmem u x" using that(1) slot_in_page [OF ds(2), of pt] by (simp, intro store64_other) blast
        then show ?thesis using r(3) q(4) that by simp
      qed
      ultimately show ?thesis using run by (intro exI [of _ ?u] conjI exI [of _ "rs @ qs"]) auto
    qed
  qed
  then obtain t qs where t: "forR (free_turn (Suc l) kend pt) [0..<512] s = Ok t" "kmem_inv kend t (qs @ ps)" "set qs = (\<Union>j\<in>set [0..<512]. set (?K j))"
    "\<forall>x. x \<notin> region pt 4096 \<longrightarrow> (\<forall>j\<in>set [0..<512]. \<forall>p\<in>set (?K j). x \<notin> region p 4096) \<longrightarrow> pmem t x = pmem s x" by blast
  then show ?thesis unfolding set_pt_pages_Suc by (intro exI [of _ t] exI [of _ qs]) (auto simp: lessThan_atLeast0)
qed

lemma freewalk_bare:
  assumes "pt_ok kend l (pmem s) pt" "bare l (pmem s) pt" "kmem_inv kend s ps" "set ps \<inter> set (pt_pages l (pmem s) pt) = {}"
  shows "\<exists>t. freewalk (Suc l) kend pt s = Ok t \<and> freed kend (set (pt_pages l (pmem s) pt)) s ps t"
  using assms
proof (induction l arbitrary: pt s ps)
  case 0
  have "forR (free_turn 0 kend pt) is s = Ok s" if "set is \<subseteq> {..<512}" for "is"
    using that 0(2) by (induction "is") (simp_all add: free_turn_def)
  from this [of "[0..<512]"] have l: "forR (free_turn 0 kend pt) [0..<512] s = Ok s" by (simp add: lessThan_atLeast0)
  have "page_ok kend pt" "pt \<notin> set ps" using pt_okD [OF 0(1) pt_pages_self] 0(4) by auto
  from kfree_inv [OF 0(3) this] obtain t where
    "kfree kend pt s = Ok t" "kmem_inv kend t (pt # ps)" "\<forall>x. x \<notin> region pt 4096 \<longrightarrow> pmem t x = pmem s x" by blast
  then show ?case using l by (auto simp: freewalk_Suc freed_def simp del: freewalk.simps intro!: exI [of _ "[pt]"])
next
  case (Suc l)
  from free_turns [OF Suc.prems Suc.IH] obtain t qs where
    t: "forR (free_turn (Suc l) kend pt) [0..<512] s = Ok t" "kmem_inv kend t (qs @ ps)" "set qs = (\<Union>j<512. set (kids l (pmem s) pt j))"
      "\<forall>x. (\<forall>p\<in>set (pt_pages (Suc l) (pmem s) pt). x \<notin> region p 4096) \<longrightarrow> pmem t x = pmem s x" by blast
  have po: "page_ok kend pt" using pt_okD [OF Suc.prems(1) pt_pages_self] .
  have "pt \<notin> set (qs @ ps)" using t(3) root_not_kid [OF Suc.prems(1)] Suc.prems(4) pt_pages_self [of pt "Suc l" "pmem s"] by auto
  from kfree_inv [OF t(2) po this] obtain u where
    u: "kfree kend pt t = Ok u" "kmem_inv kend u (pt # qs @ ps)" "\<forall>x. x \<notin> region pt 4096 \<longrightarrow> pmem u x = pmem t x" by blast
  have "set (pt # qs) = set (pt_pages (Suc l) (pmem s) pt)" unfolding set_pt_pages_Suc using t(3) by simp
  then have "freed kend (set (pt_pages (Suc l) (pmem s) pt)) s ps u"
    unfolding freed_def using u(2,3) t(4) pt_pages_self [of pt "Suc l" "pmem s"]
    by (intro conjI exI [of _ "pt # qs"] allI impI) (simp_all del: pt_pages.simps)
  then show ?case using t(1) u(1) unfolding freewalk_Suc [of "Suc l"] by simp
qed

section \<open>uvmunmap\<close>

text \<open>The slot of a valid entry, cleared.\<close>

lemma unmap_entry:
  assumes ok: "vm_ok kend pt s ps" and va: "va < MAXVA" and v: "valid (pt_get 2 (pmem s) pt va)"
  obtains r where "walk pt va False s = Ok (r, s)" "r \<noteq> 0" "load64 (pmem s) r = pt_get 2 (pmem s) pt va"
    "evolves kend pt s ps (s\<lparr>pmem := store64 (pmem s) r 0\<rparr>) ps" "pt_leaf 2 (pmem s) pt va = Some r"
    "\<And>w. w < MAXVA \<Longrightarrow> pt_get 2 (store64 (pmem s) r 0) pt w = (if pg w = pg va then 0 else pt_get 2 (pmem s) pt w)"
proof -
  have pk: "pt_ok kend 2 (pmem s) pt" using ok by (simp add: vm_ok_def)
  obtain r where r: "pt_leaf 2 (pmem s) pt va = Some r"
    using walk_from_read(3) [OF pk, of va] v by (cases "pt_leaf 2 (pmem s) pt va") auto
  have w: "walk pt va False s = Ok (r, s)" using walk_from_read(1) [OF pk, of va] va r by (simp add: walk_def)
  show ?thesis
  proof (rule that [OF w _ _ vm_ok_store(1) [OF ok r] r])
    show "r \<noteq> 0" "load64 (pmem s) r = pt_get 2 (pmem s) pt va" using walk_from_read(2) [OF pk r] by simp_all
    fix w assume "w < MAXVA"
    then show "pt_get 2 (store64 (pmem s) r 0) pt w = (if pg w = pg va then 0 else pt_get 2 (pmem s) pt w)"
      using vm_ok_store(2) [OF ok r, of 0 w] PX_same_page [of va w] va by simp
  qed
qed

definition unmap_turn :: "u64 \<Rightarrow> u64 \<Rightarrow> u64 \<Rightarrow> bool \<Rightarrow> u64 \<times> kmem \<Rightarrow> (u64 \<times> kmem, kmem) ctl res" where
  "unmap_turn kend pt lim do_free = (\<lambda>(a, s).
     if a < lim then
       bindR (walk pt a False s) (\<lambda>(pte, s).
       if pte = 0 then Panic ''uvmunmap: walk''
       else
         let e = load64 (pmem s) pte in
         if \<not> valid e then Panic ''uvmunmap: not mapped''
         else if PTE_FLAGS e = PTE_V then Panic ''uvmunmap: not a leaf''
         else
           bindR (if do_free then kfree kend (PTE2PA e) s else Ok s) (\<lambda>s.
           Ok (Next (a + PGSIZE, s\<lparr>pmem := store64 (pmem s) pte 0\<rparr>))))
     else Ok (Exit s))"

lemma uvmunmap_turns: "aligned va \<Longrightarrow> uvmunmap kend pt va npages do_free s = loopR (unmap_turn kend pt (va + npages * PGSIZE) do_free) (va, s)"
  by (simp add: uvmunmap_def unmap_turn_def [abs_def] aligned_def)

text \<open>Freeing a page that is neither in the table nor free keeps the table.\<close>

lemma kfree_vm:
  assumes ok: "vm_ok kend pt s ps" and p: "page_ok kend p" "p \<notin> set ps" "p \<notin> set (pt_pages 2 (pmem s) pt)"
  obtains t where "kfree kend p s = Ok t" "vm_ok kend pt t (p # ps)" "pt_pages 2 (pmem t) pt = pt_pages 2 (pmem s) pt"
    "\<And>w. pt_get 2 (pmem t) pt w = pt_get 2 (pmem s) pt w" "\<And>w. pt_leaf 2 (pmem t) pt w = pt_leaf 2 (pmem s) pt w"
    "\<And>x. x \<notin> region p 4096 \<Longrightarrow> pmem t x = pmem s x"
proof -
  have pk: "pt_ok kend 2 (pmem s) pt" and km: "kmem_inv kend s ps" and dj: "set ps \<inter> set (pt_pages 2 (pmem s) pt) = {}"
    using ok by (auto simp: vm_ok_def)
  from kfree_inv [OF km p(1,2)] obtain t where
    t: "kfree kend p s = Ok t" "kmem_inv kend t (p # ps)" "\<forall>x. x \<notin> region p 4096 \<longrightarrow> pmem t x = pmem s x" by blast
  have "pmem t x = pmem s x" if "q \<in> set (pt_pages 2 (pmem s) pt)" "x \<in> region q 4096" for q x
    using t(3) page_sep [OF that(2) pt_okD [OF pk that(1)] p(1)] that(1) p(3) by blast
  then have f: "pt_pages 2 (pmem t) pt = pt_pages 2 (pmem s) pt" "pt_get 2 (pmem t) pt w = pt_get 2 (pmem s) pt w"
    "pt_leaf 2 (pmem t) pt w = pt_leaf 2 (pmem s) pt w" for w using pt_frame [of 2 "pmem s" pt "pmem t" w] by blast+
  have "vm_ok kend pt t (p # ps)" using t(2) pk dj p(3) f(1) by (auto simp: vm_ok_def pt_ok_def)
  then show ?thesis using that [OF t(1)] f t(3) by blast
qed

text \<open>The table after the entries of \<open>n\<close> pages from \<open>a\<close> on have been cleared, and the pages \<open>P\<close> have been freed.\<close>

definition unmapped :: "u64 \<Rightarrow> u64 \<Rightarrow> u64 \<Rightarrow> nat \<Rightarrow> u64 list \<Rightarrow> kmem \<Rightarrow> u64 list \<Rightarrow> kmem \<Rightarrow> bool" where
  "unmapped kend pt a n fs s ps t \<longleftrightarrow> vm_ok kend pt t (rev fs @ ps) \<and> set (pt_pages 2 (pmem t) pt) = set (pt_pages 2 (pmem s) pt) \<and>
     (\<forall>w<MAXVA. pt_get 2 (pmem t) pt w = (if pg a \<le> pg w \<and> pg w < pg a + n then 0 else pt_get 2 (pmem s) pt w)) \<and>
     (\<forall>x. (\<forall>p\<in>set (pt_pages 2 (pmem s) pt) \<union> set fs. x \<notin> region p 4096) \<longrightarrow> pmem t x = pmem s x)"

lemma unmap_one:
  assumes ok: "vm_ok kend pt s ps" and a: "a < MAXVA" "a < lim"
    and v: "valid (pt_get 2 (pmem s) pt a)" "PTE_FLAGS (pt_get 2 (pmem s) pt a) \<noteq> PTE_V"
    and pa: "do_free \<Longrightarrow> page_ok kend (PTE2PA (pt_get 2 (pmem s) pt a)) \<and> PTE2PA (pt_get 2 (pmem s) pt a) \<notin> set ps \<union> set (pt_pages 2 (pmem s) pt)"
  shows "\<exists>t. unmap_turn kend pt lim do_free (a, s) = Ok (Next (a + PGSIZE, t)) \<and>
    unmapped kend pt a 1 (if do_free then [PTE2PA (pt_get 2 (pmem s) pt a)] else []) s ps t"
proof -
  let ?e = "pt_get 2 (pmem s) pt a"
  let ?fs = "if do_free then [PTE2PA ?e] else []"
  obtain r where r: "walk pt a False s = Ok (r, s)" "r \<noteq> 0" "load64 (pmem s) r = ?e" "pt_leaf 2 (pmem s) pt a = Some r"
    using unmap_entry [OF ok a(1) v(1)] by blast
  obtain u where u: "(if do_free then kfree kend (PTE2PA ?e) s else Ok s) = Ok u" "vm_ok kend pt u (rev ?fs @ ps)"
    "pt_pages 2 (pmem u) pt = pt_pages 2 (pmem s) pt" "\<forall>w. pt_get 2 (pmem u) pt w = pt_get 2 (pmem s) pt w"
    "\<forall>w. pt_leaf 2 (pmem u) pt w = pt_leaf 2 (pmem s) pt w" "\<forall>x. (\<forall>p\<in>set ?fs. x \<notin> region p 4096) \<longrightarrow> pmem u x = pmem s x"
  proof (cases do_free)
    case True
    with pa kfree_vm [OF ok, of "PTE2PA ?e"] show ?thesis using that by auto
  qed (use ok that in auto)
  let ?t = "u\<lparr>pmem := store64 (pmem u) r 0\<rparr>"
  have lf: "pt_leaf 2 (pmem u) pt a = Some r" using u(5) r(4) by simp
  have ev: "evolves kend pt u (rev ?fs @ ps) ?t (rev ?fs @ ps)" by (rule vm_ok_store(1) [OF u(2) lf])
  have tp: "set (pt_pages 2 (pmem ?t) pt) = set (pt_pages 2 (pmem s) pt)" using ev u(3) unfolding evolves_def by auto
  have "pt_get 2 (pmem ?t) pt w = (if pg a \<le> pg w \<and> pg w < pg a + 1 then 0 else pt_get 2 (pmem s) pt w)" if "w < MAXVA" for w
    using vm_ok_store(2) [OF u(2) lf, of 0 w] PX_same_page [OF a(1) that] u(4) by auto
  moreover have "pmem ?t x = pmem s x" if "\<forall>p\<in>set (pt_pages 2 (pmem s) pt) \<union> set ?fs. x \<notin> region p 4096" for x
    using ev that tp u(6) unfolding evolves_def by auto
  ultimately have "unmapped kend pt a 1 ?fs s ps ?t" using ev tp unfolding unmapped_def evolves_def by blast
  moreover have "unmap_turn kend pt lim do_free (a, s) = Ok (Next (a + PGSIZE, ?t))"
    using r(1-3) a(2) v u(1) by (cases do_free) (simp_all add: unmap_turn_def Let_def)
  ultimately show ?thesis by blast
qed

text \<open>The entries and the frames of \<open>n\<close> pages from \<open>a\<close> on.\<close>

definition leaf_at :: "u64 \<Rightarrow> kmem \<Rightarrow> u64 \<Rightarrow> nat \<Rightarrow> u64" where
  "leaf_at pt s a k = pt_get 2 (pmem s) pt (a + of_nat k * PGSIZE)"

definition frames :: "u64 \<Rightarrow> kmem \<Rightarrow> u64 \<Rightarrow> nat \<Rightarrow> u64 list" where
  "frames pt s a n = map (\<lambda>k. PTE2PA (leaf_at pt s a k)) [0..<n]"

lemma frames_Suc: "frames pt s a (Suc n) = PTE2PA (leaf_at pt s a 0) # frames pt s (a + PGSIZE) n"
  unfolding frames_def leaf_at_def
  by (simp only: upt_conv_Cons [OF zero_less_Suc] list.simps map_Suc_upt [symmetric] map_map)
    (simp add: comp_def algebra_simps)

lemma leaf_at_0: "leaf_at pt s a 0 = pt_get 2 (pmem s) pt a"
  by (simp add: leaf_at_def)

lemma leaf_at_Suc: "leaf_at pt s a (Suc k) = leaf_at pt s (a + PGSIZE) k"
  by (simp add: leaf_at_def algebra_simps)

text \<open>What \<open>uvmunmap\<close> needs: mapped leaves, and frames that can be freed.\<close>

definition unmappable :: "u64 \<Rightarrow> u64 \<Rightarrow> kmem \<Rightarrow> u64 list \<Rightarrow> u64 \<Rightarrow> nat \<Rightarrow> bool \<Rightarrow> bool" where
  "unmappable kend pt s ps a n do_free \<longleftrightarrow>
     (\<forall>k<n. valid (leaf_at pt s a k) \<and> PTE_FLAGS (leaf_at pt s a k) \<noteq> PTE_V) \<and>
     (do_free \<longrightarrow> distinct (frames pt s a n) \<and>
        (\<forall>p\<in>set (frames pt s a n). page_ok kend p \<and> p \<notin> set ps \<union> set (pt_pages 2 (pmem s) pt)))"

lemma unmap_all:
  assumes "vm_ok kend pt s ps" "aligned a" "unat a + 4096 * n \<le> 2 ^ 38" "unmappable kend pt s ps a n do_free"
  shows "\<exists>t. loopR (unmap_turn kend pt (a + of_nat n * PGSIZE) do_free) (a, s) = Ok t \<and>
    unmapped kend pt a n (if do_free then frames pt s a n else []) s ps t"
  using assms
proof (induction n arbitrary: a s ps)
  case 0
  then show ?case by (auto simp: unmap_turn_def loopR_Exit unmapped_def frames_def)
next
  case (Suc n)
  let ?lim = "a + of_nat (Suc n) * PGSIZE" and ?fs = "\<lambda>s a n. if do_free then frames pt s a n else []"
  have a: "a < MAXVA" using Suc.prems(3) MAXVA_nat by (simp add: word_less_nat_alt)
  have "unat ?lim = unat a + 4096 * Suc n"
    using unat_add_of_nat [of a "4096 * Suc n"] Suc.prems(3) by (simp add: PGSIZE_def algebra_simps)
  then have al: "a < ?lim" by (simp add: word_less_nat_alt)
  have lim: "?lim = (a + PGSIZE) + of_nat n * PGSIZE" by (simp add: algebra_simps)
  have um: "valid (leaf_at pt s a 0)" "PTE_FLAGS (leaf_at pt s a 0) \<noteq> PTE_V"
    "do_free \<Longrightarrow> page_ok kend (PTE2PA (leaf_at pt s a 0)) \<and> PTE2PA (leaf_at pt s a 0) \<notin> set ps \<union> set (pt_pages 2 (pmem s) pt)"
    using Suc.prems(4) unfolding unmappable_def frames_Suc by auto
  obtain t where t: "unmap_turn kend pt ?lim do_free (a, s) = Ok (Next (a + PGSIZE, t))"
    "unmapped kend pt a 1 (if do_free then [PTE2PA (leaf_at pt s a 0)] else []) s ps t"
    using unmap_one [OF Suc.prems(1) a al, of do_free] um unfolding leaf_at_0 by blast
  let ?ps = "rev (if do_free then [PTE2PA (leaf_at pt s a 0)] else []) @ ps"
  note T = t(2) [unfolded unmapped_def]
  show ?case
  proof (cases "n = 0")
    case True
    then have "loopR (unmap_turn kend pt ?lim do_free) (a, s) = Ok t"
      using t(1) by (simp add: loopR_Next loopR_Exit unmap_turn_def)
    then show ?thesis using t(2) True by (auto simp: frames_def)
  next
    case False
    note nx = pg_next [OF Suc.prems(2), of "Suc n"]
    have nx': "pg (a + PGSIZE) = Suc (pg a)" "unat (a + PGSIZE) = unat a + 4096" "aligned (a + PGSIZE)"
      using pg_next [OF Suc.prems(2), of n] Suc.prems(3) False by simp_all
    have le: "leaf_at pt t (a + PGSIZE) k = leaf_at pt s (a + PGSIZE) k" if "k < n" for k
    proof -
      let ?w = "a + PGSIZE + of_nat k * PGSIZE"
      have u: "unat ?w = unat a + 4096 * Suc k"
        using unat_add_of_nat [of a "4096 * Suc k"] Suc.prems(3) that by (simp add: PGSIZE_def algebra_simps)
      then have "?w < MAXVA" "pg ?w = pg a + Suc k" using Suc.prems(3) that MAXVA_nat by (simp_all add: word_less_nat_alt pg_def)
      then show ?thesis using T unfolding leaf_at_def by simp
    qed
    then have fr: "frames pt t (a + PGSIZE) n = frames pt s (a + PGSIZE) n" by (simp add: frames_def)
    have "unmappable kend pt t ?ps (a + PGSIZE) n do_free"
      using Suc.prems(4) T le unfolding unmappable_def fr frames_Suc by (auto simp: leaf_at_Suc [symmetric])
    with Suc.IH [of t ?ps "a + PGSIZE"] T nx' Suc.prems(3) obtain u where
      u: "loopR (unmap_turn kend pt ?lim do_free) (a + PGSIZE, t) = Ok u" "unmapped kend pt (a + PGSIZE) n (?fs t (a + PGSIZE) n) t ?ps u"
      unfolding lim by auto
    note U = u(2) [unfolded unmapped_def fr]
    have "pt_get 2 (pmem u) pt w = (if pg a \<le> pg w \<and> pg w < pg a + Suc n then 0 else pt_get 2 (pmem s) pt w)" if "w < MAXVA" for w
      using T U that nx'(1) by auto
    moreover have "vm_ok kend pt u (rev (?fs s a (Suc n)) @ ps)" using U unfolding frames_Suc by (cases do_free) simp_all
    moreover have "pmem u x = pmem s x" if "\<forall>p\<in>set (pt_pages 2 (pmem s) pt) \<union> set (?fs s a (Suc n)). x \<notin> region p 4096" for x
    proof -
      have "pmem u x = pmem t x" using U T that unfolding frames_Suc by (cases do_free) auto
      also have "\<dots> = pmem s x" using T that unfolding frames_Suc by (cases do_free) auto
      finally show ?thesis .
    qed
    ultimately have "unmapped kend pt a (Suc n) (?fs s a (Suc n)) s ps u" using T U unfolding unmapped_def by blast
    then show ?thesis using t(1) u(1) by (auto simp: loopR_Next)
  qed
qed

section \<open>Properties\<close>

text \<open>
  C24.  \<open>uvmunmap\<close> of \<open>n\<close> mapped pages returns, clears exactly their entries and keeps the page table well formed.
  With \<open>do_free\<close> exactly the frames of these pages go to the free list, each once; without it the
  free list stays.  Only pages of the table and freed frames are written.
\<close>

theorem uvmunmap_correct:
  assumes "vm_ok kend pt s ps" "aligned va" "unat va + 4096 * n \<le> 2 ^ 38" "unmappable kend pt s ps va n do_free"
  shows "\<exists>t. uvmunmap kend pt va (of_nat n) do_free s = Ok t \<and>
    vm_ok kend pt t ((if do_free then rev (frames pt s va n) else []) @ ps) \<and>
    (\<forall>w<MAXVA. pt_get 2 (pmem t) pt w = (if pg va \<le> pg w \<and> pg w < pg va + n then 0 else pt_get 2 (pmem s) pt w)) \<and>
    (\<forall>x. (\<forall>p\<in>set (pt_pages 2 (pmem s) pt) \<union> (if do_free then set (frames pt s va n) else {}). x \<notin> region p 4096) \<longrightarrow> pmem t x = pmem s x)"
  using unmap_all [OF assms] assms(2) by (cases do_free) (auto simp: uvmunmap_turns unmapped_def)

lemma one_page_mapped:
  "\<exists>t qs. vm_ok 0x80000000 0x80001000 t qs \<and> set qs \<union> set (pt_pages 2 (pmem t) 0x80001000) \<subseteq> {0x80001000, 0x80003000, 0x80004000} \<and>
     pt_get 2 (pmem t) 0x80001000 0x4000 = PA2PTE 0x80002000 OR PTE_R OR PTE_U OR PTE_V"
proof -
  let ?k = "0x80000000 :: u64" and ?pt = "0x80001000 :: u64" and ?perm = "PTE_R OR PTE_U"
  have pok: "page_ok ?k ?pt" "page_ok ?k 0x80003000" "page_ok ?k 0x80004000"
    by (simp_all add: page_ok_def aligned_def PGSIZE_def PHYSTOP_def KERNBASE_def)
  obtain s where s: "vm_ok ?k ?pt s [0x80004000, 0x80003000]" "pt_pages 2 (pmem s) ?pt = [?pt]" "\<And>w. \<not> valid (pt_get 2 (pmem s) ?pt w)"
    using free_pages_vm_ok [OF pok] by auto
  have al: "aligned 0x4000" by (simp add: aligned_def PGSIZE_def)
  from mappages_spec [OF s(1) al, of 0 "0x80002000" ?perm] s(3) obtain t qs where
    e: "evolves ?k ?pt s [0x80004000, 0x80003000] t qs"
    and g: "\<forall>w<MAXVA. pt_get 2 (pmem t) ?pt w = range_get (Suc 0) 0x4000 0x80002000 ?perm (pt_get 2 (pmem s) ?pt) w" by auto
  have "(0x4000 :: u64) < MAXVA" by (simp add: MAXVA_def)
  then have "pt_get 2 (pmem t) ?pt 0x4000 = PA2PTE 0x80002000 OR PTE_R OR PTE_U OR PTE_V" using g by (simp add: range_get_def or.assoc)
  moreover have "set qs \<union> set (pt_pages 2 (pmem t) ?pt) \<subseteq> {?pt, 0x80003000, 0x80004000}"
    using e s(2) by (auto simp: evolves_def append_eq_Cons_conv Cons_eq_append_conv)
  ultimately show ?thesis using e unfolding evolves_def by blast
qed

theorem uvmunmap_correct_witness:
  "\<exists>s t qs. uvmunmap 0x80000000 0x80001000 0x4000 (of_nat 1) True s = Ok t \<and> vm_ok 0x80000000 0x80001000 t (0x80002000 # qs) \<and>
     valid (pt_get 2 (pmem s) 0x80001000 0x4000) \<and> pt_get 2 (pmem t) 0x80001000 0x4000 = 0"
proof -
  obtain s qs where s: "vm_ok 0x80000000 0x80001000 s qs" "set qs \<union> set (pt_pages 2 (pmem s) 0x80001000) \<subseteq> {0x80001000, 0x80003000, 0x80004000}"
    "pt_get 2 (pmem s) 0x80001000 0x4000 = PA2PTE 0x80002000 OR PTE_R OR PTE_U OR PTE_V" using one_page_mapped by blast
  let ?e = "PA2PTE 0x80002000 OR PTE_R OR PTE_U OR PTE_V"
  have e: "valid ?e" "PTE2PA ?e = 0x80002000" "PTE_FLAGS ?e \<noteq> PTE_V"
    by (simp_all add: valid_def PA2PTE_def PTE2PA_def PTE_R_def PTE_U_def PTE_V_def PTE_FLAGS_def)
  have l: "leaf_at 0x80001000 s 0x4000 0 = ?e" "frames 0x80001000 s 0x4000 1 = [0x80002000]"
    using s(3) e(2) by (simp_all add: leaf_at_def frames_def)
  have "page_ok 0x80000000 0x80002000" by (simp add: page_ok_def aligned_def PGSIZE_def PHYSTOP_def KERNBASE_def)
  moreover have "(0x80002000 :: u64) \<notin> set qs \<union> set (pt_pages 2 (pmem s) 0x80001000)" using s(2) by auto
  ultimately have u: "unmappable 0x80000000 0x80001000 s qs 0x4000 1 True" using l e by (simp add: unmappable_def)
  have a: "aligned 0x4000" "unat (0x4000 :: u64) + 4096 * 1 \<le> 2 ^ 38" "(0x4000 :: u64) < MAXVA" by (simp_all add: aligned_def PGSIZE_def MAXVA_def)
  from uvmunmap_correct [OF s(1) a(1,2) u] l(2) a(3) e(1) s(3) show ?thesis by fastforce
qed

text \<open>
  C25.  \<open>freewalk\<close> on a page table without leaf entries, of any number of levels, returns and puts exactly the
  pages of the table on the free list, each once; it writes only to these pages.
\<close>

theorem freewalk_correct:
  assumes "pt_ok kend l (pmem s) pt" "bare l (pmem s) pt" "kmem_inv kend s ps" "set ps \<inter> set (pt_pages l (pmem s) pt) = {}"
  shows "\<exists>t qs. freewalk (Suc l) kend pt s = Ok t \<and> kmem_inv kend t (qs @ ps) \<and> set qs = set (pt_pages l (pmem s) pt) \<and>
    (\<forall>x. (\<forall>p\<in>set (pt_pages l (pmem s) pt). x \<notin> region p 4096) \<longrightarrow> pmem t x = pmem s x)"
  using freewalk_bare [OF assms] by (auto simp: freed_def)

theorem freewalk_correct_witness:
  "\<exists>t qs. freewalk (Suc 2) 0x80000000 0x80001000 \<lparr>pmem = (\<lambda>_. 0), freelist = 0\<rparr> = Ok t \<and> kmem_inv 0x80000000 t qs \<and> set qs = {0x80001000}"
proof -
  let ?s = "\<lparr>pmem = (\<lambda>_. 0), freelist = 0\<rparr>"
  have z: "load64 (\<lambda>_. 0) a = 0" for a by (simp add: load64_def)
  have p: "pt_pages 2 (pmem ?s) 0x80001000 = [0x80001000]" by (simp add: pt_zero(1))
  have b: "bare 2 (pmem ?s) 0x80001000" by (simp add: numeral_2_eq_2 z)
  have "page_ok 0x80000000 0x80001000" by (simp add: page_ok_def aligned_def PGSIZE_def PHYSTOP_def KERNBASE_def)
  then have "pt_ok 0x80000000 2 (pmem ?s) 0x80001000" using p by (simp add: pt_ok_def)
  from freewalk_correct [OF this b, of "[]"] show ?thesis unfolding p by (auto simp: kmem_inv_def)
qed

end
