(* ===== verification/Encode.thy ===== *)
theory Encode
  imports CMem
begin

text \<open>
  Little-endian 16- and 32-bit numbers inside disk blocks, the way C reads and writes the
  fields of structures laid over a block's bytes.
\<close>

definition rd16 :: "byte list \<Rightarrow> nat \<Rightarrow> 16 word" where
  "rd16 bs i = ucast (bs ! i) OR push_bit 8 (ucast (bs ! (i + 1)))"

definition wr16 :: "byte list \<Rightarrow> nat \<Rightarrow> 16 word \<Rightarrow> byte list" where
  "wr16 bs i v = bs[i := ucast v, i + 1 := ucast (drop_bit 8 v)]"

definition rd32 :: "byte list \<Rightarrow> nat \<Rightarrow> u32" where
  "rd32 bs i = ucast (bs ! i) OR push_bit 8 (ucast (bs ! (i + 1))) OR push_bit 16 (ucast (bs ! (i + 2))) OR
     push_bit 24 (ucast (bs ! (i + 3)))"

definition wr32 :: "byte list \<Rightarrow> nat \<Rightarrow> u32 \<Rightarrow> byte list" where
  "wr32 bs i v = bs[i := ucast v, i + 1 := ucast (drop_bit 8 v), i + 2 := ucast (drop_bit 16 v), i + 3 := ucast (drop_bit 24 v)]"

lemma wr_length [simp]: "length (wr16 bs i v) = length bs" "length (wr32 bs i w) = length bs"
  by (simp_all add: wr16_def wr32_def)

lemma bytes_of_word16:
  "ucast (ucast v :: byte) OR push_bit 8 (ucast (ucast (drop_bit 8 v) :: byte)) = (v :: 16 word)"
  by (rule bit_word_eqI) (auto simp: bit_simps)

lemma bytes_of_word32:
  "ucast (ucast v :: byte) OR push_bit 8 (ucast (ucast (drop_bit 8 v) :: byte)) OR
   push_bit 16 (ucast (ucast (drop_bit 16 v) :: byte)) OR push_bit 24 (ucast (ucast (drop_bit 24 v) :: byte)) = (v :: u32)"
proof (rule bit_word_eqI)
  fix n assume "n < LENGTH(32)"
  then have "n < 8 \<or> 8 \<le> n \<and> n < 16 \<or> 16 \<le> n \<and> n < 24 \<or> 24 \<le> n \<and> n < 32" by auto
  then show "bit (ucast (ucast v :: byte) OR push_bit 8 (ucast (ucast (drop_bit 8 v) :: byte)) OR
   push_bit 16 (ucast (ucast (drop_bit 16 v) :: byte)) OR push_bit 24 (ucast (ucast (drop_bit 24 v) :: byte)) :: u32) n = bit v n"
    by (elim disjE) (auto simp: bit_simps)
qed

lemma rd_wr16 [simp]: "i + 1 < length bs \<Longrightarrow> rd16 (wr16 bs i v) i = v"
  by (simp add: rd16_def wr16_def bytes_of_word16)

lemma rd_wr32 [simp]: "i + 3 < length bs \<Longrightarrow> rd32 (wr32 bs i v) i = v"
  by (simp add: rd32_def wr32_def bytes_of_word32)

lemma wr_other: "j < i \<or> i + 1 < j \<Longrightarrow> wr16 bs i v ! j = bs ! j" "j < i \<or> i + 3 < j \<Longrightarrow> wr32 bs i w ! j = bs ! j"
  by (auto simp: wr16_def wr32_def nth_list_update)

lemma rd32_wr32_other: "j + 3 < i \<or> i + 3 < j \<Longrightarrow> rd32 (wr32 bs i v) j = rd32 bs j"
  by (auto simp: rd32_def wr_other)

lemma rd16_wr16_other: "j + 1 < i \<or> i + 1 < j \<Longrightarrow> rd16 (wr16 bs i v) j = rd16 bs j"
  by (auto simp: rd16_def wr_other)

lemma rd16_wr32_other: "j + 1 < i \<or> i + 3 < j \<Longrightarrow> rd16 (wr32 bs i v) j = rd16 bs j"
  by (auto simp: rd16_def wr_other)

lemma rd32_wr16_other: "j + 3 < i \<or> i + 1 < j \<Longrightarrow> rd32 (wr16 bs i v) j = rd32 bs j"
  by (auto simp: rd32_def wr_other)

lemmas rd_wr_other = rd32_wr32_other rd16_wr16_other rd16_wr32_other rd32_wr16_other

text \<open>An array of 32-bit numbers.\<close>

primrec wr32s :: "byte list \<Rightarrow> nat \<Rightarrow> u32 list \<Rightarrow> byte list" where
  "wr32s bs i [] = bs"
| "wr32s bs i (v # vs) = wr32s (wr32 bs i v) (i + 4) vs"

lemma wr32s_length [simp]: "length (wr32s bs i vs) = length bs"
  by (induction vs arbitrary: bs i) auto

lemma wr32s_other: "j + 3 < i \<or> i + 4 * length vs \<le> j \<Longrightarrow> rd32 (wr32s bs i vs) j = rd32 bs j"
  by (induction vs arbitrary: bs i) (auto simp: rd32_wr32_other)

lemma rd_wr32s: "k < length vs \<Longrightarrow> i + 4 * length vs \<le> length bs \<Longrightarrow> rd32 (wr32s bs i vs) (i + 4 * k) = vs ! k"
proof (induction vs arbitrary: bs i k)
  case (Cons v vs)
  show ?case
  proof (cases k)
    case 0 then show ?thesis using Cons.prems by (simp add: wr32s_other)
  next
    case (Suc m) then show ?thesis using Cons.IH [of m "i + 4" "wr32 bs i v"] Cons.prems by (simp add: add.assoc)
  qed
qed simp

lemma wr32s_append: "wr32s bs i (vs @ ws) = wr32s (wr32s bs i vs) (i + 4 * length vs) ws"
  by (induction vs arbitrary: bs i) (auto simp: algebra_simps)

end
