(* ===== verification/KState.thy ===== *)
theory KState
  imports UserCopy Spinlock Encode
begin

text \<open>
  The state shared by the kernel components above the process table and the page allocator:
  the buffer cache, the disk, the log, the in-memory inodes, open files and pipes, with the
  types of \<open>kernel/buf.h\<close>, \<open>kernel/fs.h\<close>, \<open>kernel/file.h\<close>, \<open>kernel/log.c\<close>, \<open>kernel/pipe.c\<close>,
  \<open>kernel/console.c\<close> and \<open>kernel/uart.c\<close>.
  Array elements are named by their index.

  An operation is run for the current process.  Where the code would sleep until another
  process has done something (a sleep lock that is taken, a full log), the call ends with
  \<open>Wait\<close>, unless the component cuts its operations there.
\<close>

section \<open>Parameters\<close>

definition BSIZE :: nat where "BSIZE = 1024"
definition MAXOPBLOCKS :: nat where "MAXOPBLOCKS = 10"
definition LOGSIZE :: nat where "LOGSIZE = MAXOPBLOCKS * 3"
definition NBUF :: nat where "NBUF = MAXOPBLOCKS * 3"
definition NINODE :: nat where "NINODE = 50"
definition NFILE :: nat where "NFILE = 100"
definition NDEV :: int where "NDEV = 10"
definition ROOTDEV :: u32 where "ROOTDEV = 1"
definition ROOTINO :: u32 where "ROOTINO = 1"
definition NDIRECT :: nat where "NDIRECT = 12"
definition NINDIRECT :: nat where "NINDIRECT = BSIZE div 4"
definition MAXFILE :: nat where "MAXFILE = NDIRECT + NINDIRECT"
definition DIRSIZ :: nat where "DIRSIZ = 14"
definition FSMAGIC :: u32 where "FSMAGIC = 0x10203040"
definition PIPESIZE :: nat where "PIPESIZE = 512"

section \<open>Data\<close>

text \<open>A buffer, or the head of the list of buffers.  The links are part of the state below.\<close>

datatype bref = BHead | BBuf nat

record buf =
  bvalid :: bool
  bdev :: u32
  bblockno :: u32
  brefcnt :: u32
  bdata :: "byte list"

record superblock =
  sb_magic :: u32
  sb_size :: u32
  sb_nblocks :: u32
  sb_ninodes :: u32
  sb_nlog :: u32
  sb_logstart :: u32
  sb_inodestart :: u32
  sb_bmapstart :: u32

record logst =
  lg_start :: u32
  lg_size :: int
  outstanding :: int
  committing :: bool
  lg_dev :: u32
  lh_n :: int
  lh_block :: "u32 list"

record inode =
  i_dev :: u32
  i_num :: u32
  i_ref :: int
  i_valid :: bool
  i_type :: "16 word"
  i_major :: "16 word"
  i_minor :: "16 word"
  i_nlink :: "16 word"
  i_size :: u32
  i_addrs :: "u32 list"

datatype ftype = FD_NONE | FD_PIPE | FD_INODE | FD_DEVICE

record cfile =
  f_type :: ftype
  f_ref :: int
  f_readable :: bool
  f_writable :: bool
  f_pipe :: u64
  f_ip :: "nat option"
  f_off :: u32
  f_major :: "16 word"
  f_minor :: "16 word"

record pipe =
  p_data :: "byte list"
  nread :: u32
  nwrite :: u32
  readopen :: bool
  writeopen :: bool

text \<open>A console and its ring of input characters: read, write and edit index (\<open>kernel/console.c\<close>).\<close>

record console =
  c_buf :: "byte list"
  c_r :: u32
  c_w :: u32
  c_e :: u32

text \<open>
  The transmit buffer of \<open>kernel/uart.c\<close> and the device: \<open>thr_room\<close> is how many more bytes it takes
  before \<open>LSR_TX_IDLE\<close> reads as 0, \<open>thr_out\<close> what was written to \<open>THR\<close> so far, \<open>rhr\<close> the input
  that waits to be read.
\<close>

record uartst =
  tx_buf :: "byte list"
  tx_w :: u64
  tx_r :: u64
  thr_room :: nat
  thr_out :: "byte list"
  rhr :: "byte list"

text \<open>
  \<open>disk d b\<close> is block \<open>b\<close> of device \<open>d\<close>; \<open>dwrites\<close> records the block writes that reached
  the disk, in order.
\<close>

record kst =
  sch :: sst
  km :: kmem
  sl :: slocks
  bufs :: "nat \<Rightarrow> buf"
  bnext :: "bref \<Rightarrow> bref"
  bprev :: "bref \<Rightarrow> bref"
  disk :: "u32 \<Rightarrow> u32 \<Rightarrow> byte list"
  dwrites :: "(u32 \<times> u32 \<times> byte list) list"
  lg :: logst
  sb :: superblock
  inodes :: "nat \<Rightarrow> inode"
  files :: "nat \<Rightarrow> cfile"
  pipes :: "u64 \<Rightarrow> pipe"
  consoles :: "nat \<Rightarrow> console"
  conscur :: int
  uart :: uartst
  pr_locking :: bool

definition upd_buf :: "nat \<Rightarrow> (buf \<Rightarrow> buf) \<Rightarrow> kst \<Rightarrow> kst" where
  "upd_buf b f s = s\<lparr>bufs := (bufs s)(b := f (bufs s b))\<rparr>"

definition upd_log :: "(logst \<Rightarrow> logst) \<Rightarrow> kst \<Rightarrow> kst" where
  "upd_log f s = s\<lparr>lg := f (lg s)\<rparr>"

definition upd_inode :: "nat \<Rightarrow> (inode \<Rightarrow> inode) \<Rightarrow> kst \<Rightarrow> kst" where
  "upd_inode i f s = s\<lparr>inodes := (inodes s)(i := f (inodes s i))\<rparr>"

definition upd_file :: "nat \<Rightarrow> (cfile \<Rightarrow> cfile) \<Rightarrow> kst \<Rightarrow> kst" where
  "upd_file i f s = s\<lparr>files := (files s)(i := f (files s i))\<rparr>"

definition upd_pipe :: "u64 \<Rightarrow> (pipe \<Rightarrow> pipe) \<Rightarrow> kst \<Rightarrow> kst" where
  "upd_pipe a f s = s\<lparr>pipes := (pipes s)(a := f (pipes s a))\<rparr>"

section \<open>Locks and processes from this state\<close>

definition onS :: "(sst \<Rightarrow> sst res) \<Rightarrow> kst \<Rightarrow> kst res" where
  "onS f s = bindR (f (sch s)) (\<lambda>t. Ok (s\<lparr>sch := t\<rparr>))"

definition kacquire :: "lockid \<Rightarrow> kst \<Rightarrow> kst res" where "kacquire l = onS (acquire l)"
definition krelease :: "lockid \<Rightarrow> kst \<Rightarrow> kst res" where "krelease l = onS (release l)"
definition kwakeup :: "chan \<Rightarrow> kst \<Rightarrow> kst res" where "kwakeup c = onS (wakeup (Some c))"

definition kacquiresleep :: "chan \<Rightarrow> kst \<Rightarrow> kst res" where
  "kacquiresleep lk s =
     bindR (acquiresleep lk (sl s) (sch s)) (\<lambda>(got, l, t).
     if got then Ok (s\<lparr>sl := l, sch := t\<rparr>) else Wait)"

definition kreleasesleep :: "chan \<Rightarrow> kst \<Rightarrow> kst res" where
  "kreleasesleep lk s = bindR (releasesleep lk (sl s) (sch s)) (\<lambda>(l, t). Ok (s\<lparr>sl := l, sch := t\<rparr>))"

definition kholdingsleep :: "chan \<Rightarrow> kst \<Rightarrow> (bool \<times> kst) res" where
  "kholdingsleep lk s = bindR (holdingsleep lk (sl s) (sch s)) (\<lambda>(r, t). Ok (r, s\<lparr>sch := t\<rparr>))"

text \<open>
  \<open>woken s t\<close>: the process table of \<open>t\<close> differs from \<open>s\<close> only in processes that have been
  made runnable, and in the queues; the current process is as it was.
\<close>

definition woken :: "sst \<Rightarrow> sst \<Rightarrow> bool" where
  "woken s t \<longleftrightarrow>
     (\<exists>P h. t = s\<lparr>procs := P, lh := h\<rparr> \<and> (\<forall>i. \<exists>x. P i = (procs s i)\<lparr>state := x\<rparr>) \<and>
        (\<forall>p. curproc s = Some p \<longrightarrow> P p = procs s p))"

text \<open>The CPU runs process \<open>p\<close> in the kernel.\<close>

definition runs :: "sst \<Rightarrow> nat \<Rightarrow> bool" where
  "runs s p \<longleftrightarrow> (\<exists>v. sched_inv s v) \<and> curproc s = Some p \<and> p < NPROC \<and> state (procs s p) = RUNNING"

lemma same_state [simp]: "\<exists>x. r = r\<lparr>state := x\<rparr>"
  by (rule exI [of _ "state r"]) simp

lemma woken_refl [simp]: "woken s s"
  unfolding woken_def by (intro exI [of _ "procs s"] exI [of _ "lh s"]) simp

lemma woken_sel:
  assumes "woken s t"
  shows "curproc t = curproc s" "held t = held s" "conts t = conts s" "cont_root t = cont_root s" "initproc t = initproc s"
    "cont_init t = cont_init s" "ticks t = ticks s" "curproc s = Some p \<Longrightarrow> procs t p = procs s p"
    "pid (procs t i) = pid (procs s i)" "pagetable (procs t i) = pagetable (procs s i)"
    "chan (procs t i) = chan (procs s i)" "killed_flag (procs t i) = killed_flag (procs s i)"
    "parent (procs t i) = parent (procs s i)" "contp (procs t i) = contp (procs s i)"
    "ofile (procs t i) = ofile (procs s i)" "cwd (procs t i) = cwd (procs s i)"
  using assms unfolding woken_def by (auto dest!: spec [of _ i])

lemma woken_trans: "woken s t \<Longrightarrow> woken t u \<Longrightarrow> woken s u"
proof -
  assume "woken s t" "woken t u"
  then obtain P h Q g where t: "t = s\<lparr>procs := P, lh := h\<rparr>" "\<forall>i. \<exists>x. P i = (procs s i)\<lparr>state := x\<rparr>" "\<forall>p. curproc s = Some p \<longrightarrow> P p = procs s p"
    and u: "u = t\<lparr>procs := Q, lh := g\<rparr>" "\<forall>i. \<exists>x. Q i = (procs t i)\<lparr>state := x\<rparr>" "\<forall>p. curproc t = Some p \<longrightarrow> Q p = procs t p"
    unfolding woken_def by blast
  have "\<exists>x. Q i = (procs s i)\<lparr>state := x\<rparr>" for i
    using spec [OF t(2), of i] spec [OF u(2), of i] by (auto simp: t(1))
  moreover have "u = s\<lparr>procs := Q, lh := g\<rparr>" using t(1) u(1) by simp
  ultimately show "woken s u" using t u unfolding woken_def by (intro exI [of _ Q] exI [of _ g]) auto
qed

lemma runs_woken: "runs s p \<Longrightarrow> woken s t \<Longrightarrow> \<exists>v. sched_inv t v \<Longrightarrow> runs t p"
  using woken_sel(1,8) by (auto simp: runs_def)

lemma wakeup_runs:
  assumes "runs s p" "no_table_locks s"
  shows "\<exists>t. wakeup ch s = Ok t \<and> runs t p \<and> woken s t"
proof -
  obtain v where v: "sched_inv s v" using assms(1) by (auto simp: runs_def)
  from wakeup_spec [OF v assms(2), of ch] obtain h where
    h: "wakeup ch s = Ok (make_runnable (sleepers ch s) s\<lparr>lh := h\<rparr>)"
      "\<exists>v. sched_inv (make_runnable (sleepers ch s) s\<lparr>lh := h\<rparr>) v" by blast
  have "woken s (make_runnable (sleepers ch s) s\<lparr>lh := h\<rparr>)"
    unfolding woken_def make_runnable_def
    by (intro exI [of _ "\<lambda>i. if i \<in> sleepers ch s then (procs s i)\<lparr>state := RUNNABLE\<rparr> else procs s i"] exI [of _ h])
      (auto simp: sleepers_def)
  with h assms(1) show ?thesis using runs_woken by blast
qed

lemma runs_held [simp]: "runs (s\<lparr>held := x\<rparr>) p = runs s p"
  by (simp add: runs_def)

lemma woken_held: "woken (s\<lparr>held := x\<rparr>) t \<Longrightarrow> woken s (t\<lparr>held := held s\<rparr>)"
proof -
  assume "woken (s\<lparr>held := x\<rparr>) t"
  then obtain P h where "t = s\<lparr>held := x, procs := P, lh := h\<rparr>" "\<forall>i. \<exists>x. P i = (procs s i)\<lparr>state := x\<rparr>"
    "\<forall>p. curproc s = Some p \<longrightarrow> P p = procs s p" unfolding woken_def by auto
  then show "woken s (t\<lparr>held := held s\<rparr>)" unfolding woken_def by (intro exI [of _ P] exI [of _ h]) simp
qed

lemma no_table_locks_Nil [simp]: "held s = [] \<Longrightarrow> no_table_locks s"
  by (simp add: no_table_locks_def)

section \<open>The lifted operations\<close>

lemma kacquire_ok [simp]: "l \<notin> set (held (sch s)) \<Longrightarrow> kacquire l s = Ok (s\<lparr>sch := (sch s)\<lparr>held := l # held (sch s)\<rparr>\<rparr>)"
  by (simp add: kacquire_def onS_def)

lemma krelease_first [simp]: "held (sch s) = l # ls \<Longrightarrow> krelease l s = Ok (s\<lparr>sch := (sch s)\<lparr>held := ls\<rparr>\<rparr>)"
  by (simp add: krelease_def onS_def)

lemma kwakeup_runs:
  assumes "runs (sch s) p" "no_table_locks (sch s)"
  shows "\<exists>t. kwakeup c s = Ok (s\<lparr>sch := t\<rparr>) \<and> runs t p \<and> woken (sch s) t"
  using wakeup_runs [OF assms, of "Some c"] by (auto simp: kwakeup_def onS_def)

text \<open>\<open>wakeup\<close> while a spinlock is held, with the lock dropped afterwards.\<close>

lemma locked_wakeup:
  assumes "runs s p" "held s = []" "\<not> table_lock l"
  shows "\<exists>t. wakeup c (s\<lparr>held := [l]\<rparr>) = Ok (t\<lparr>held := [l]\<rparr>) \<and> runs t p \<and> woken s t \<and> held t = []"
proof -
  have "no_table_locks (s\<lparr>held := [l]\<rparr>)" using assms(3) by (auto simp: no_table_locks_def)
  then obtain u where u: "wakeup c (s\<lparr>held := [l]\<rparr>) = Ok u" "runs u p" "woken (s\<lparr>held := [l]\<rparr>) u"
    using wakeup_runs [of "s\<lparr>held := [l]\<rparr>" p c] assms(1) by auto
  then have "held u = [l]" using woken_sel(2) [OF u(3)] by simp
  then have "u = (u\<lparr>held := []\<rparr>)\<lparr>held := [l]\<rparr>" by simp
  then show ?thesis using u woken_held [OF u(3)] assms(2) by (intro exI [of _ "u\<lparr>held := []\<rparr>"]) auto
qed

definition own_sleeplock :: "chan \<Rightarrow> kst \<Rightarrow> bool" where
  "own_sleeplock lk s \<longleftrightarrow> (\<exists>p. curproc (sch s) = Some p \<and> sl s lk = \<lparr>slocked = True, spid = pid (procs (sch s) p)\<rparr>)"

lemma kacquiresleep_free:
  assumes "\<not> slocked (sl s lk)" "curproc (sch s) = Some p" "held (sch s) = []"
  shows "kacquiresleep lk s = Ok (s\<lparr>sl := (sl s)(lk := \<lparr>slocked = True, spid = pid (procs (sch s) p)\<rparr>)\<rparr>)"
  using acquiresleep_free [of "sl s" lk "sch s" p] assms by (simp add: kacquiresleep_def)

lemma kholdingsleep_own:
  assumes "own_sleeplock lk s" "held (sch s) = []"
  shows "kholdingsleep lk s = Ok (True, s)"
  using assms by (auto simp: own_sleeplock_def kholdingsleep_def holdingsleep_def myproc_def deref_def)

lemma kreleasesleep_runs:
  assumes "runs (sch s) p" "held (sch s) = []"
  shows "\<exists>t. kreleasesleep lk s = Ok (s\<lparr>sl := (sl s)(lk := \<lparr>slocked = False, spid = 0\<rparr>), sch := t\<rparr>) \<and>
    runs t p \<and> woken (sch s) t \<and> held t = []"
proof -
  obtain t where "wakeup (Some lk) ((sch s)\<lparr>held := [LkSleep lk]\<rparr>) = Ok (t\<lparr>held := [LkSleep lk]\<rparr>)"
    "runs t p" "woken (sch s) t" "held t = []"
    using locked_wakeup [OF assms, of "LkSleep lk" "Some lk"] by auto
  moreover from this have "t\<lparr>held := []\<rparr> = t" by simp
  ultimately show ?thesis using assms(2) by (intro exI [of _ t]) (simp add: kreleasesleep_def releasesleep_def)
qed

section \<open>An example state\<close>

text \<open>
  Process 0 runs, nothing is cached, block \<open>n\<close> of every device is filled with \<open>n\<close>, except
  block 2, an empty log header.
\<close>

definition sample_inode :: inode where
  "sample_inode = \<lparr>i_dev = 0, i_num = 0, i_ref = 0, i_valid = False, i_type = 0, i_major = 0, i_minor = 0, i_nlink = 0,
     i_size = 0, i_addrs = replicate 13 0\<rparr>"

definition sample_file :: cfile where
  "sample_file = \<lparr>f_type = FD_NONE, f_ref = 0, f_readable = False, f_writable = False, f_pipe = 0, f_ip = None, f_off = 0,
     f_major = 0, f_minor = 0\<rparr>"

definition sample_kst :: "laddr lheap \<Rightarrow> kst" where
  "sample_kst h = \<lparr>sch = sample_sst h, km = \<lparr>pmem = (\<lambda>_. 0), freelist = 0\<rparr>, sl = (\<lambda>_. \<lparr>slocked = False, spid = 0\<rparr>),
     bufs = (\<lambda>_. \<lparr>bvalid = False, bdev = 0, bblockno = 0, brefcnt = 0, bdata = replicate BSIZE 0\<rparr>),
     bnext = (\<lambda>_. BHead), bprev = (\<lambda>_. BHead), disk = (\<lambda>_ n. replicate BSIZE (if n = 2 then 0 else ucast n)), dwrites = [],
     lg = \<lparr>lg_start = 2, lg_size = 30, outstanding = 0, committing = False, lg_dev = 1, lh_n = 0, lh_block = replicate 30 0\<rparr>,
     sb = \<lparr>sb_magic = FSMAGIC, sb_size = 2000, sb_nblocks = 1954, sb_ninodes = 200, sb_nlog = 30, sb_logstart = 2,
           sb_inodestart = 32, sb_bmapstart = 45\<rparr>,
     inodes = (\<lambda>_. sample_inode), files = (\<lambda>_. sample_file),
     pipes = (\<lambda>_. \<lparr>p_data = replicate 512 0, nread = 0, nwrite = 0, readopen = True, writeopen = True\<rparr>),
     consoles = (\<lambda>_. \<lparr>c_buf = replicate 512 0, c_r = 0, c_w = 0, c_e = 0\<rparr>), conscur = 0,
     uart = \<lparr>tx_buf = replicate 32 0, tx_w = 0, tx_r = 0, thr_room = 0, thr_out = [], rhr = []\<rparr>, pr_locking = True\<rparr>"

lemma sample_runs: "\<exists>h. runs (sample_sst h) 0"
  using sample_inv by (auto simp: runs_def sample_procs NPROC_def)

end
