(* ===== verification/Bio.thy ===== *)
theory Bio
  imports KState
begin

text \<open>
  The buffer cache \<open>kernel/bio.c\<close>.  The least-recently-used list is kept with its pointers:
  \<open>bnext\<close> and \<open>bprev\<close> of the buffers and of the head.  \<open>virtio_disk_rw\<close> is used through its
  effect: it sleeps until the device has moved the block, so it may only be called with no
  spinlock held.
\<close>

definition virtio_disk_rw :: "nat \<Rightarrow> bool \<Rightarrow> kst \<Rightarrow> kst res" where
  "virtio_disk_rw b wr s =
     bindR (kacquire LkVdisk s) (\<lambda>s.
     bindR (sleep (ChBuf b) LkVdisk (sch s)) (\<lambda>_.
     krelease LkVdisk
       (let d = bdev (bufs s b); n = bblockno (bufs s b) in
        if wr then s\<lparr>disk := (disk s)(d := (disk s d)(n := bdata (bufs s b))), dwrites := dwrites s @ [(d, n, bdata (bufs s b))]\<rparr>
        else upd_buf b (\<lambda>r. r\<lparr>bdata := disk s d n\<rparr>) s)))"

section \<open>Operations\<close>

text \<open>The insertion after the head that \<open>binit\<close> and \<open>brelse\<close> share.\<close>

definition link_first :: "nat \<Rightarrow> kst \<Rightarrow> kst" where
  "link_first b s =
     (let s = s\<lparr>bnext := (bnext s)(BBuf b := bnext s BHead)\<rparr>;
          s = s\<lparr>bprev := (bprev s)(BBuf b := BHead)\<rparr>;
          s = s\<lparr>bprev := (bprev s)(bnext s BHead := BBuf b)\<rparr>
      in s\<lparr>bnext := (bnext s)(BHead := BBuf b)\<rparr>)"

definition unlink :: "nat \<Rightarrow> kst \<Rightarrow> kst" where
  "unlink b s =
     (let s = s\<lparr>bprev := (bprev s)(bnext s (BBuf b) := bprev s (BBuf b))\<rparr>
      in s\<lparr>bnext := (bnext s)(bprev s (BBuf b) := bnext s (BBuf b))\<rparr>)"

definition binit :: "kst \<Rightarrow> kst" where
  "binit s =
     (let s = s\<lparr>bprev := (bprev s)(BHead := BHead), bnext := (bnext s)(BHead := BHead)\<rparr>
      in fold (\<lambda>b s. link_first b (s\<lparr>sl := initsleeplock (ChSleepBuf b) (sl s)\<rparr>)) [0..<NBUF] s)"

text \<open>The two searches of \<open>bget\<close>.\<close>

definition find_cached :: "u32 \<Rightarrow> u32 \<Rightarrow> kst \<Rightarrow> nat option res" where
  "find_cached dev n s =
     loopR (\<lambda>b. case b of BHead \<Rightarrow> Ok (Exit None)
       | BBuf i \<Rightarrow> if bdev (bufs s i) = dev \<and> bblockno (bufs s i) = n then Ok (Exit (Some i)) else Ok (Next (bnext s b)))
       (bnext s BHead)"

definition find_unused :: "kst \<Rightarrow> nat option res" where
  "find_unused s =
     loopR (\<lambda>b. case b of BHead \<Rightarrow> Ok (Exit None)
       | BBuf i \<Rightarrow> if brefcnt (bufs s i) = 0 then Ok (Exit (Some i)) else Ok (Next (bprev s b)))
       (bprev s BHead)"

definition bget :: "u32 \<Rightarrow> u32 \<Rightarrow> kst \<Rightarrow> (nat \<times> kst) res" where
  "bget dev n s =
     bindR (kacquire LkBcache s) (\<lambda>s.
     bindR (find_cached dev n s) (\<lambda>r.
     case r of
       Some b \<Rightarrow>
         bindR (krelease LkBcache (upd_buf b (\<lambda>r. r\<lparr>brefcnt := brefcnt r + 1\<rparr>) s)) (\<lambda>s.
         bindR (kacquiresleep (ChSleepBuf b) s) (\<lambda>s. Ok (b, s)))
     | None \<Rightarrow>
         bindR (find_unused s) (\<lambda>r.
         case r of
           Some b \<Rightarrow>
             bindR (krelease LkBcache
               (upd_buf b (\<lambda>r. r\<lparr>bdev := dev, bblockno := n, bvalid := False, brefcnt := 1\<rparr>) s)) (\<lambda>s.
             bindR (kacquiresleep (ChSleepBuf b) s) (\<lambda>s. Ok (b, s)))
         | None \<Rightarrow> Panic ''bget: no buffers'')))"

definition bread :: "u32 \<Rightarrow> u32 \<Rightarrow> kst \<Rightarrow> (nat \<times> kst) res" where
  "bread dev n s =
     bindR (bget dev n s) (\<lambda>(b, s).
     if \<not> bvalid (bufs s b)
     then bindR (virtio_disk_rw b False s) (\<lambda>s. Ok (b, upd_buf b (\<lambda>r. r\<lparr>bvalid := True\<rparr>) s))
     else Ok (b, s))"

definition bwrite :: "nat \<Rightarrow> kst \<Rightarrow> kst res" where
  "bwrite b s =
     bindR (kholdingsleep (ChSleepBuf b) s) (\<lambda>(h, s).
     if \<not> h then Panic ''bwrite'' else virtio_disk_rw b True s)"

definition brelse :: "nat \<Rightarrow> kst \<Rightarrow> kst res" where
  "brelse b s =
     bindR (kholdingsleep (ChSleepBuf b) s) (\<lambda>(h, s).
     if \<not> h then Panic ''brelse''
     else
       bindR (kreleasesleep (ChSleepBuf b) s) (\<lambda>s.
       bindR (kacquire LkBcache s) (\<lambda>s.
       let s = upd_buf b (\<lambda>r. r\<lparr>brefcnt := brefcnt r - 1\<rparr>) s;
           s = (if brefcnt (bufs s b) = 0 then link_first b (unlink b s) else s)
       in krelease LkBcache s)))"

definition bpin :: "nat \<Rightarrow> kst \<Rightarrow> kst res" where
  "bpin b s =
     bindR (kacquire LkBcache s) (\<lambda>s.
     krelease LkBcache (upd_buf b (\<lambda>r. r\<lparr>brefcnt := brefcnt r + 1\<rparr>) s))"

definition bunpin :: "nat \<Rightarrow> kst \<Rightarrow> kst res" where
  "bunpin b s =
     bindR (kacquire LkBcache s) (\<lambda>s.
     krelease LkBcache (upd_buf b (\<lambda>r. r\<lparr>brefcnt := brefcnt r - 1\<rparr>) s))"

section \<open>The list of buffers\<close>

text \<open>\<open>chain nx pv a xs b\<close>: the links lead from \<open>a\<close> over the buffers \<open>xs\<close> to \<open>b\<close>, and back.\<close>

primrec chain :: "(bref \<Rightarrow> bref) \<Rightarrow> (bref \<Rightarrow> bref) \<Rightarrow> bref \<Rightarrow> nat list \<Rightarrow> bref \<Rightarrow> bool" where
  "chain nx pv a [] b \<longleftrightarrow> nx a = b \<and> pv b = a"
| "chain nx pv a (x # xs) b \<longleftrightarrow> nx a = BBuf x \<and> pv (BBuf x) = a \<and> chain nx pv (BBuf x) xs b"

definition lru :: "kst \<Rightarrow> nat list \<Rightarrow> bool" where
  "lru s xs \<longleftrightarrow> distinct xs \<and> chain (bnext s) (bprev s) BHead xs BHead"

lemma chain_append: "chain nx pv a (xs @ y # ys) b \<longleftrightarrow> chain nx pv a xs (BBuf y) \<and> chain nx pv (BBuf y) ys b"
  by (induction xs arbitrary: a) auto

lemma chain_snoc: "chain nx pv a (xs @ [y]) b \<longleftrightarrow> chain nx pv a xs (BBuf y) \<and> nx (BBuf y) = b \<and> pv b = BBuf y"
  by (simp add: chain_append)

lemma bref_chain_ends:
  assumes "chain nx pv a xs b"
  shows "nx a = (case xs of [] \<Rightarrow> b | x # _ \<Rightarrow> BBuf x)" "pv b = (if xs = [] then a else BBuf (last xs))"
proof -
  show "nx a = (case xs of [] \<Rightarrow> b | x # _ \<Rightarrow> BBuf x)" using assms by (cases xs) auto
  show "pv b = (if xs = [] then a else BBuf (last xs))"
  proof (cases xs rule: rev_cases)
    case (snoc ys y) with assms show ?thesis unfolding snoc chain_snoc by simp
  qed (use assms in simp)
qed

lemma chain_cong:
  assumes "\<And>x. x = a \<or> x \<in> BBuf ` set xs \<Longrightarrow> nx' x = nx x" "\<And>x. x = b \<or> x \<in> BBuf ` set xs \<Longrightarrow> pv' x = pv x"
  shows "chain nx' pv' a xs b = chain nx pv a xs b"
  using assms
proof (induction xs arbitrary: a)
  case (Cons x xs)
  have "chain nx' pv' (BBuf x) xs b = chain nx pv (BBuf x) xs b" by (rule Cons.IH) (use Cons.prems in auto)
  then show ?case using Cons.prems by simp
qed simp

lemma chain_join:
  assumes "chain nx pv a as x" "chain nx pv y bs h" "distinct (as @ bs)" "a \<notin> BBuf ` set (as @ bs)" "h \<notin> BBuf ` set (as @ bs)"
  defines "p \<equiv> (if as = [] then a else BBuf (last as))" and "q \<equiv> (case bs of [] \<Rightarrow> h | b # _ \<Rightarrow> BBuf b)"
  shows "chain (nx(p := q)) (pv(q := p)) a (as @ bs) h"
  using assms(1-5) unfolding p_def q_def
proof (induction as arbitrary: a)
  case Nil
  show ?case
  proof (cases bs)
    case (Cons c cs)
    have "chain (nx(a := BBuf c)) (pv(BBuf c := a)) (BBuf c) cs h = chain nx pv (BBuf c) cs h"
      using Nil Cons by (intro chain_cong) auto
    then have "chain (nx(a := BBuf c)) (pv(BBuf c := a)) (BBuf c) cs h" using Nil Cons by simp
    then show ?thesis using Cons by (simp del: fun_upd_apply add: fun_upd_same)
  qed simp
next
  case (Cons z zs)
  let ?p = "if z # zs = [] then a else BBuf (last (z # zs))" and ?q = "case bs of [] \<Rightarrow> h | b # _ \<Rightarrow> BBuf b"
  have q: "?q \<noteq> BBuf z" using Cons.prems by (auto split: list.splits)
  have p: "?p = (if zs = [] then BBuf z else BBuf (last zs))" by simp
  have "(nx(?p := ?q)) a = BBuf z" "(pv(?q := ?p)) (BBuf z) = a" using Cons.prems(1,4) q by auto
  moreover have "chain (nx(?p := ?q)) (pv(?q := ?p)) (BBuf z) (zs @ bs) h"
    unfolding p by (rule Cons.IH) (use Cons.prems in auto)
  ultimately show ?case unfolding append_Cons chain.simps by blast
qed

lemma lru_unlink:
  assumes "lru s (as @ b # bs)"
  shows "lru (unlink b s) (as @ bs)" 
proof -
  have c: "chain (bnext s) (bprev s) BHead as (BBuf b)" "chain (bnext s) (bprev s) (BBuf b) bs BHead" "distinct (as @ bs)"
    using assms by (auto simp: lru_def chain_append)
  have n: "bnext s (BBuf b) = (case bs of [] \<Rightarrow> BHead | x # _ \<Rightarrow> BBuf x)" by (rule bref_chain_ends(1) [OF c(2)])
  have p: "bprev s (BBuf b) = (if as = [] then BHead else BBuf (last as))" by (rule bref_chain_ends(2) [OF c(1)])
  have ne: "bnext s (BBuf b) \<noteq> BBuf b" using n assms by (auto simp: lru_def split: list.splits)
  have "chain ((bnext s)(bprev s (BBuf b) := bnext s (BBuf b))) ((bprev s)(bnext s (BBuf b) := bprev s (BBuf b))) BHead (as @ bs) BHead"
    unfolding n p by (rule chain_join [OF c]) auto
  then show ?thesis using c(3) ne by (simp add: lru_def unlink_def)
qed

lemma lru_link:
  assumes "lru s xs" "b \<notin> set xs"
  shows "lru (link_first b s) (b # xs)"
proof -
  let ?n = "bnext s BHead"
  have n: "?n = (case xs of [] \<Rightarrow> BHead | x # _ \<Rightarrow> BBuf x)" using assms(1) by (auto simp: lru_def dest: bref_chain_ends(1))
  have ne: "?n \<noteq> BBuf b" using n assms(2) by (auto split: list.splits)
  let ?nx = "(bnext s)(BBuf b := ?n, BHead := BBuf b)" and ?pv = "(bprev s)(BBuf b := BHead, ?n := BBuf b)"
  have l: "bnext (link_first b s) = ?nx" "bprev (link_first b s) = ?pv" by (simp_all add: link_first_def)
  have "chain ?nx ?pv (BBuf b) xs BHead"
  proof (cases xs)
    case (Cons c cs)
    have "chain ?nx ?pv (BBuf c) cs BHead = chain (bnext s) (bprev s) (BBuf c) cs BHead"
      using assms Cons n by (intro chain_cong) (auto simp: lru_def)
    then show ?thesis using assms(1) Cons n by (auto simp: lru_def)
  qed (use n in simp)
  then show ?thesis using assms ne by (simp add: lru_def l)
qed

lemma lru_sel [simp]:
  "lru (s\<lparr>sch := a\<rparr>) xs = lru s xs" "lru (s\<lparr>sl := b\<rparr>) xs = lru s xs" "lru (s\<lparr>bufs := c\<rparr>) xs = lru s xs"
  "lru (s\<lparr>disk := d\<rparr>) xs = lru s xs" "lru (s\<lparr>dwrites := e\<rparr>) xs = lru s xs" "lru (s\<lparr>lg := g\<rparr>) xs = lru s xs"
  by (simp_all add: lru_def)

lemma binit_lru: "lru (binit s) (rev [0..<NBUF])"
proof -
  let ?f = "\<lambda>b s. link_first b (s\<lparr>sl := initsleeplock (ChSleepBuf b) (sl s)\<rparr>)"
  have "lru (fold ?f [0..<n] s) (rev [0..<n])" if "lru s []" for n s
  proof (induction n)
    case (Suc n)
    have "lru (?f n (fold ?f [0..<n] s)) (n # rev [0..<n])" using Suc by (intro lru_link) auto
    then show ?case by simp
  qed (use that in simp)
  then show ?thesis by (simp add: binit_def lru_def)
qed

lemma find_forward:
  assumes "chain nx pv a xs BHead"
  shows "loopR (\<lambda>b. case b of BHead \<Rightarrow> Ok (Exit None) | BBuf i \<Rightarrow> if P i then Ok (Exit (Some i)) else Ok (Next (nx b))) (nx a) = Ok (find P xs)"
  using assms
proof (induction xs arbitrary: a)
  case Nil then show ?case by (subst loopR_unfold) simp
next
  case (Cons x xs)
  then show ?case by (subst loopR_unfold) (auto simp: Cons.IH)
qed

lemma find_backward:
  assumes "chain nx pv BHead xs b"
  shows "loopR (\<lambda>b. case b of BHead \<Rightarrow> Ok (Exit None) | BBuf i \<Rightarrow> if P i then Ok (Exit (Some i)) else Ok (Next (pv b))) (pv b) = Ok (find P (rev xs))"
  using assms
proof (induction xs arbitrary: b rule: rev_induct)
  case Nil then show ?case by (subst loopR_unfold) simp
next
  case (snoc x xs)
  then have c: "chain nx pv BHead xs (BBuf x)" "pv b = BBuf x" by (simp_all add: chain_snoc)
  show ?case unfolding c(2) by (subst loopR_unfold) (auto simp: snoc.IH [OF c(1)])
qed

lemma find_cached_spec: "lru s xs \<Longrightarrow> find_cached d n s = Ok (find (\<lambda>i. bdev (bufs s i) = d \<and> bblockno (bufs s i) = n) xs)"
  unfolding find_cached_def lru_def by (rule find_forward) blast

lemma find_unused_spec: "lru s xs \<Longrightarrow> find_unused s = Ok (find (\<lambda>i. brefcnt (bufs s i) = 0) (rev xs))"
  unfolding find_unused_def lru_def by (rule find_backward) blast

lemma find_first: "(\<And>j. j \<in> set as \<Longrightarrow> \<not> Q j) \<Longrightarrow> Q i \<Longrightarrow> find Q (as @ i # bs) = Some i"
  by (induction as) auto

section \<open>The cache as a view of the disk\<close>

text \<open>The current contents of a block: its buffer's data when it is cached, else the disk's.\<close>

definition has_blk :: "kst \<Rightarrow> nat \<Rightarrow> u32 \<Rightarrow> u32 \<Rightarrow> bool" where
  "has_blk s i d n \<longleftrightarrow> bvalid (bufs s i) \<and> bdev (bufs s i) = d \<and> bblockno (bufs s i) = n"

definition blk :: "kst \<Rightarrow> u32 \<Rightarrow> u32 \<Rightarrow> byte list" where
  "blk s d n = (case find (\<lambda>i. has_blk s i d n) [0..<NBUF] of Some i \<Rightarrow> bdata (bufs s i) | None \<Rightarrow> disk s d n)"

text \<open>
  \<open>bc_inv p s H P\<close>: process \<open>p\<close> runs with no spinlock, has locked exactly the buffers \<open>H\<close>,
  and the buffers \<open>P\<close> are pinned once.  Buffers of a real device have distinct blocks, and a
  buffer that may be recycled agrees with the disk.
\<close>

definition bc_inv :: "nat \<Rightarrow> kst \<Rightarrow> nat set \<Rightarrow> nat set \<Rightarrow> bool" where
  "bc_inv p s H P \<longleftrightarrow>
     runs (sch s) p \<and> held (sch s) = [] \<and> H \<subseteq> {..<NBUF} \<and> P \<subseteq> {..<NBUF} \<and>
     (\<exists>xs. lru s xs \<and> set xs = {..<NBUF}) \<and>
     (\<forall>i<NBUF. length (bdata (bufs s i)) = BSIZE) \<and> (\<forall>d n. length (disk s d n) = BSIZE) \<and>
     (\<forall>i<NBUF. \<forall>j<NBUF. i \<noteq> j \<longrightarrow> bdev (bufs s i) \<noteq> 0 \<longrightarrow>
        (bdev (bufs s i), bblockno (bufs s i)) \<noteq> (bdev (bufs s j), bblockno (bufs s j))) \<and>
     (\<forall>i<NBUF. brefcnt (bufs s i) = (if i \<in> H then 1 else 0) + (if i \<in> P then 1 else 0)) \<and>
     (\<forall>i<NBUF. slocked (sl s (ChSleepBuf i)) = (i \<in> H)) \<and> (\<forall>i\<in>H. own_sleeplock (ChSleepBuf i) s) \<and>
     (\<forall>i\<in>H \<union> P. bvalid (bufs s i) \<and> bdev (bufs s i) \<noteq> 0) \<and>
     (\<forall>i<NBUF. bvalid (bufs s i) \<longrightarrow> i \<notin> H \<union> P \<longrightarrow> bdata (bufs s i) = disk s (bdev (bufs s i)) (bblockno (bufs s i)))"

text \<open>What operations of the cache may change.\<close>

definition cache_step :: "kst \<Rightarrow> kst \<Rightarrow> bool" where
  "cache_step s t \<longleftrightarrow>
     (\<exists>B N Q L c. t = s\<lparr>bufs := B, bnext := N, bprev := Q, sl := L, sch := c\<rparr> \<and> woken (sch s) c \<and>
        (\<forall>x. (\<forall>i. x \<noteq> ChSleepBuf i) \<longrightarrow> L x = sl s x))"

lemma cache_step_refl [simp]: "cache_step s s"
  unfolding cache_step_def
  by (intro exI [of _ "bufs s"] exI [of _ "bnext s"] exI [of _ "bprev s"] exI [of _ "sl s"] exI [of _ "sch s"]) simp

lemma cache_step_trans: "cache_step s t \<Longrightarrow> cache_step t u \<Longrightarrow> cache_step s u"
proof -
  assume "cache_step s t" "cache_step t u"
  then obtain B N Q L c B' N' Q' L' c' where
    "t = s\<lparr>bufs := B, bnext := N, bprev := Q, sl := L, sch := c\<rparr>" "woken (sch s) c" "\<forall>x. (\<forall>i. x \<noteq> ChSleepBuf i) \<longrightarrow> L x = sl s x"
    "u = t\<lparr>bufs := B', bnext := N', bprev := Q', sl := L', sch := c'\<rparr>" "woken (sch t) c'" "\<forall>x. (\<forall>i. x \<noteq> ChSleepBuf i) \<longrightarrow> L' x = sl t x"
    unfolding cache_step_def by blast
  then show "cache_step s u" unfolding cache_step_def using woken_trans
    by (intro exI [of _ B'] exI [of _ N'] exI [of _ Q'] exI [of _ L'] exI [of _ c']) auto
qed

lemma cache_step_sel:
  assumes "cache_step s t"
  shows "km t = km s" "disk t = disk s" "dwrites t = dwrites s" "lg t = lg s" "sb t = sb s" "inodes t = inodes s"
    "files t = files s" "pipes t = pipes s" "woken (sch s) (sch t)" "sl t (ChSleepInode i) = sl s (ChSleepInode i)"
  using assms unfolding cache_step_def by auto

lemma bc_invD:
  assumes "bc_inv p s H P"
  shows "runs (sch s) p" "held (sch s) = []" "i \<in> H \<Longrightarrow> i < NBUF" "i \<in> P \<Longrightarrow> i < NBUF"
    "i < NBUF \<Longrightarrow> length (bdata (bufs s i)) = BSIZE" "length (disk s d n) = BSIZE"
    "i < NBUF \<Longrightarrow> j < NBUF \<Longrightarrow> bdev (bufs s i) \<noteq> 0 \<Longrightarrow> bdev (bufs s i) = bdev (bufs s j) \<Longrightarrow> bblockno (bufs s i) = bblockno (bufs s j) \<Longrightarrow> i = j"
    "i < NBUF \<Longrightarrow> brefcnt (bufs s i) = (if i \<in> H then 1 else 0) + (if i \<in> P then 1 else 0)"
    "i < NBUF \<Longrightarrow> slocked (sl s (ChSleepBuf i)) = (i \<in> H)"
    "i \<in> H \<Longrightarrow> own_sleeplock (ChSleepBuf i) s"
    "i \<in> H \<union> P \<Longrightarrow> bvalid (bufs s i)" "i \<in> H \<union> P \<Longrightarrow> bdev (bufs s i) \<noteq> 0"
    "i < NBUF \<Longrightarrow> bvalid (bufs s i) \<Longrightarrow> i \<notin> H \<Longrightarrow> i \<notin> P \<Longrightarrow> bdata (bufs s i) = disk s (bdev (bufs s i)) (bblockno (bufs s i))"
    "\<exists>xs. lru s xs \<and> set xs = {..<NBUF}"
  using assms unfolding bc_inv_def by - (elim conjE, blast)+

lemma bc_invI:
  assumes "runs (sch s) p" "held (sch s) = []" "H \<subseteq> {..<NBUF}" "P \<subseteq> {..<NBUF}" "lru s xs" "set xs = {..<NBUF}"
    "\<And>i. i < NBUF \<Longrightarrow> length (bdata (bufs s i)) = BSIZE" "\<And>d n. length (disk s d n) = BSIZE"
    "\<And>i j. i < NBUF \<Longrightarrow> j < NBUF \<Longrightarrow> bdev (bufs s i) \<noteq> 0 \<Longrightarrow> bdev (bufs s i) = bdev (bufs s j) \<Longrightarrow> bblockno (bufs s i) = bblockno (bufs s j) \<Longrightarrow> i = j"
    "\<And>i. i < NBUF \<Longrightarrow> brefcnt (bufs s i) = (if i \<in> H then 1 else 0) + (if i \<in> P then 1 else 0)"
    "\<And>i. i < NBUF \<Longrightarrow> slocked (sl s (ChSleepBuf i)) = (i \<in> H)" "\<And>i. i \<in> H \<Longrightarrow> own_sleeplock (ChSleepBuf i) s"
    "\<And>i. i \<in> H \<union> P \<Longrightarrow> bvalid (bufs s i) \<and> bdev (bufs s i) \<noteq> 0"
    "\<And>i. i < NBUF \<Longrightarrow> bvalid (bufs s i) \<Longrightarrow> i \<notin> H \<Longrightarrow> i \<notin> P \<Longrightarrow> bdata (bufs s i) = disk s (bdev (bufs s i)) (bblockno (bufs s i))"
  shows "bc_inv p s H P"
  using assms unfolding bc_inv_def by blast

lemma blk_cached:
  assumes "bc_inv p s H P" "i < NBUF" "has_blk s i d n" "d \<noteq> 0"
  shows "blk s d n = bdata (bufs s i)"
proof -
  have "find (\<lambda>i. has_blk s i d n) [0..<NBUF] = Some i"
  proof (cases "find (\<lambda>i. has_blk s i d n) [0..<NBUF]")
    case None then show ?thesis using assms(2,3) by (auto simp: find_None_iff)
  next
    case (Some j)
    then have "has_blk s j d n" "j < NBUF" by (auto simp: find_Some_iff)
    then have "j = i" using bc_invD(7) [OF assms(1), of j i] assms(2-4) by (auto simp: has_blk_def)
    then show ?thesis using Some by simp
  qed
  then show ?thesis by (simp add: blk_def)
qed

lemma blk_uncached: "(\<And>i. i < NBUF \<Longrightarrow> \<not> has_blk s i d n) \<Longrightarrow> blk s d n = disk s d n"
proof -
  assume "\<And>i. i < NBUF \<Longrightarrow> \<not> has_blk s i d n"
  then have "find (\<lambda>i. has_blk s i d n) [0..<NBUF] = None" by (simp add: find_None_iff)
  then show "blk s d n = disk s d n" by (simp add: blk_def)
qed

lemma blk_length: "bc_inv p s H P \<Longrightarrow> d \<noteq> 0 \<Longrightarrow> length (blk s d n) = BSIZE"
  using blk_cached [of p s H P _ d n] blk_uncached [of s d n] bc_invD(5,6) [of p s H P] by metis

text \<open>Blocks that keep their buffer, or have none before and after, keep their contents.\<close>

lemma blk_cong:
  assumes "\<And>i. i < NBUF \<Longrightarrow> has_blk t i d n = has_blk s i d n" "\<And>i. i < NBUF \<Longrightarrow> has_blk s i d n \<Longrightarrow> bdata (bufs t i) = bdata (bufs s i)"
    "disk t d n = disk s d n"
  shows "blk t d n = blk s d n"
proof -
  have "find (\<lambda>i. has_blk t i d n) [0..<NBUF] = find (\<lambda>i. has_blk s i d n) [0..<NBUF]"
    by (rule find_cong) (use assms(1) in auto)
  moreover have "i < NBUF \<and> has_blk s i d n" if "find (\<lambda>i. has_blk s i d n) [0..<NBUF] = Some i" for i
    using that by (auto simp: find_Some_iff)
  ultimately show ?thesis using assms(2,3) by (auto simp: blk_def split: option.splits)
qed

subsection \<open>Disk transfers\<close>

lemma virtio_disk_rw_ok:
  assumes "runs (sch s) p" "held (sch s) = []"
  shows "virtio_disk_rw b wr s = Ok
    (if wr then s\<lparr>disk := (disk s)(bdev (bufs s b) := (disk s (bdev (bufs s b)))(bblockno (bufs s b) := bdata (bufs s b))),
                 dwrites := dwrites s @ [(bdev (bufs s b), bblockno (bufs s b), bdata (bufs s b))]\<rparr>
     else upd_buf b (\<lambda>r. r\<lparr>bdata := disk s (bdev (bufs s b)) (bblockno (bufs s b))\<rparr>) s)"
proof -
  obtain v where v: "sched_inv ((sch s)\<lparr>held := [LkVdisk]\<rparr>) v" using assms(1) by (auto simp: runs_def)
  have "\<exists>t. sleep (ChBuf b) LkVdisk ((sch s)\<lparr>held := [LkVdisk]\<rparr>) = Ok t"
    using sleep_spec(1) [OF v, of p LkVdisk "ChBuf b"] assms(1) by (auto simp: runs_def)
  moreover have "(sch s)\<lparr>held := []\<rparr> = sch s" using assms(2) by simp
  ultimately show ?thesis using assms(2) by (auto simp: virtio_disk_rw_def Let_def upd_buf_def)
qed

text \<open>A second lock would make the sleep panic.\<close>

lemma virtio_disk_rw_locked:
  assumes "curproc (sch s) = Some p" "held (sch s) = [l]" "l \<noteq> LkVdisk" "l \<noteq> LkProc p"
  shows "virtio_disk_rw b wr s = Panic ''sched locks''"
  using sleep_extra_lock [of "(sch s)\<lparr>held := [LkVdisk, l]\<rparr>" p LkVdisk l "ChBuf b"] assms
  by (simp add: virtio_disk_rw_def)

subsection \<open>What each operation does\<close>

lemma upd_buf_sel [simp]:
  "bufs (upd_buf b f s) = (bufs s)(b := f (bufs s b))" "sch (upd_buf b f s) = sch s" "sl (upd_buf b f s) = sl s"
  "bnext (upd_buf b f s) = bnext s" "bprev (upd_buf b f s) = bprev s" "disk (upd_buf b f s) = disk s"
  "dwrites (upd_buf b f s) = dwrites s" "lg (upd_buf b f s) = lg s" "sb (upd_buf b f s) = sb s"
  "inodes (upd_buf b f s) = inodes s" "files (upd_buf b f s) = files s" "pipes (upd_buf b f s) = pipes s"
  "km (upd_buf b f s) = km s" "lru (upd_buf b f s) xs = lru s xs" "own_sleeplock lk (upd_buf b f s) = own_sleeplock lk s"
  by (simp_all add: upd_buf_def own_sleeplock_def)

lemma upd_buf_sch [simp]: "upd_buf b f (s\<lparr>sch := c\<rparr>) = (upd_buf b f s)\<lparr>sch := c\<rparr>"
  by (simp add: upd_buf_def)

lemma upd_buf_sl [simp]: "upd_buf b f (s\<lparr>sl := c\<rparr>) = (upd_buf b f s)\<lparr>sl := c\<rparr>"
  by (simp add: upd_buf_def)

lemma upd_buf_same [simp]: "(upd_buf b f s)\<lparr>sch := sch s\<rparr> = upd_buf b f s"
  by (simp add: upd_buf_def)

definition lock_buf :: "nat \<Rightarrow> nat \<Rightarrow> kst \<Rightarrow> kst" where
  "lock_buf p i s = s\<lparr>sl := (sl s)(ChSleepBuf i := \<lparr>slocked = True, spid = pid (procs (sch s) p)\<rparr>)\<rparr>"

lemma bget_hit:
  assumes "bc_inv p s H P" "i < NBUF" "bdev (bufs s i) = d" "bblockno (bufs s i) = n" "d \<noteq> 0" "i \<notin> H"
  shows "bget d n s = Ok (i, lock_buf p i (upd_buf i (\<lambda>r. r\<lparr>brefcnt := brefcnt r + 1\<rparr>) s))"
proof -
  obtain xs where xs: "lru s xs" "set xs = {..<NBUF}" using bc_invD(14) [OF assms(1)] by blast
  have h: "held (sch s) = []" "(sch s)\<lparr>held := []\<rparr> = sch s" using bc_invD(2) [OF assms(1)] by auto
  have cp: "curproc (sch s) = Some p" using bc_invD(1) [OF assms(1)] by (simp add: runs_def)
  have "find (\<lambda>i. bdev (bufs s i) = d \<and> bblockno (bufs s i) = n) xs = Some i"
  proof (cases "find (\<lambda>i. bdev (bufs s i) = d \<and> bblockno (bufs s i) = n) xs")
    case None then show ?thesis using assms(2-4) xs(2) by (auto simp: find_None_iff)
  next
    case (Some j)
    then have "j < NBUF" "bdev (bufs s j) = d" "bblockno (bufs s j) = n" using xs(2) by (auto simp: find_Some_iff)
    then have "j = i" using bc_invD(7) [OF assms(1), of j i] assms(2-5) by auto
    then show ?thesis using Some by simp
  qed
  then have f: "find_cached d n (s\<lparr>sch := (sch s)\<lparr>held := [LkBcache]\<rparr>\<rparr>) = Ok (Some i)"
    using find_cached_spec [of "s\<lparr>sch := (sch s)\<lparr>held := [LkBcache]\<rparr>\<rparr>" xs d n] xs(1) by simp
  have "\<not> slocked (sl s (ChSleepBuf i))" using bc_invD(9) [OF assms(1,2)] assms(6) by simp
  then show ?thesis using f h cp
      kacquiresleep_free [of "upd_buf i (\<lambda>r. r\<lparr>brefcnt := brefcnt r + 1\<rparr>) s" "ChSleepBuf i" p]
    by (simp add: bget_def lock_buf_def)
qed

lemma bget_miss:
  assumes "bc_inv p s H P" "\<And>i. i < NBUF \<Longrightarrow> \<not> (bdev (bufs s i) = d \<and> bblockno (bufs s i) = n)" "card (H \<union> P) < NBUF"
  shows "\<exists>i<NBUF. i \<notin> H \<union> P \<and>
    bget d n s = Ok (i, lock_buf p i (upd_buf i (\<lambda>r. r\<lparr>bdev := d, bblockno := n, bvalid := False, brefcnt := 1\<rparr>) s))"
proof -
  obtain xs where xs: "lru s xs" "set xs = {..<NBUF}" using bc_invD(14) [OF assms(1)] by blast
  have h: "held (sch s) = []" "(sch s)\<lparr>held := []\<rparr> = sch s" using bc_invD(2) [OF assms(1)] by auto
  have cp: "curproc (sch s) = Some p" using bc_invD(1) [OF assms(1)] by (simp add: runs_def)
  let ?s = "s\<lparr>sch := (sch s)\<lparr>held := [LkBcache]\<rparr>\<rparr>"
  have "find (\<lambda>i. bdev (bufs s i) = d \<and> bblockno (bufs s i) = n) xs = None" using assms(2) xs(2) by (auto simp: find_None_iff)
  then have f: "find_cached d n ?s = Ok None" using find_cached_spec [of ?s xs d n] xs(1) by simp
  have "{..<NBUF} - (H \<union> P) \<noteq> {}"
  proof
    assume "{..<NBUF} - (H \<union> P) = {}"
    then have sub: "{..<NBUF} \<subseteq> H \<union> P" by blast
    have "H \<union> P \<subseteq> {..<NBUF}" using bc_invD(3,4) [OF assms(1)] by blast
    then have "card {..<NBUF} \<le> card (H \<union> P)" using sub by (intro card_mono) (auto intro: finite_subset)
    then show False using assms(3) by simp
  qed
  then obtain k where k: "k < NBUF" "k \<notin> H" "k \<notin> P" by auto
  then have "brefcnt (bufs s k) = 0" using bc_invD(8) [OF assms(1), of k] by simp
  then obtain i where i: "find (\<lambda>i. brefcnt (bufs s i) = 0) (rev xs) = Some i"
    using k(1) xs(2) by (cases "find (\<lambda>i. brefcnt (bufs s i) = 0) (rev xs)") (auto simp: find_None_iff)
  then have "i < NBUF \<and> brefcnt (bufs s i) = 0" using xs(2) nth_mem [of _ "rev xs"] by (auto simp: find_Some_iff)
  then have j: "i < NBUF" "i \<notin> H" "i \<notin> P" using bc_invD(8) [OF assms(1), of i] by (auto split: if_splits)
  have u: "find_unused ?s = Ok (Some i)" using find_unused_spec [of ?s xs] xs(1) i by simp
  have "\<not> slocked (sl s (ChSleepBuf i))" using bc_invD(9) [OF assms(1) j(1)] j(2) by simp
  then have "bget d n s = Ok (i, lock_buf p i (upd_buf i (\<lambda>r. r\<lparr>bdev := d, bblockno := n, bvalid := False, brefcnt := 1\<rparr>) s))"
    using f u h cp kacquiresleep_free [of "upd_buf i (\<lambda>r. r\<lparr>bdev := d, bblockno := n, bvalid := False, brefcnt := 1\<rparr>) s" "ChSleepBuf i" p]
    by (simp add: bget_def lock_buf_def)
  then show ?thesis using j by blast
qed

lemma lock_buf_sel [simp]:
  "bufs (lock_buf p i s) = bufs s" "sch (lock_buf p i s) = sch s" "disk (lock_buf p i s) = disk s" "lru (lock_buf p i s) xs = lru s xs"
  "sl (lock_buf p i s) = (sl s)(ChSleepBuf i := \<lparr>slocked = True, spid = pid (procs (sch s) p)\<rparr>)"
  by (simp_all add: lock_buf_def)

lemma lock_buf_upd: "upd_buf i f (lock_buf p j s) = lock_buf p j (upd_buf i f s)"
  by (simp add: lock_buf_def upd_buf_def)

lemma upd_buf_twice: "upd_buf i f (upd_buf i g s) = upd_buf i (\<lambda>r. f (g r)) s"
  by (simp add: upd_buf_def)

definition grab :: "nat \<Rightarrow> nat \<Rightarrow> nat set \<Rightarrow> u32 \<Rightarrow> u32 \<Rightarrow> kst \<Rightarrow> kst" where
  "grab p i P d n s = lock_buf p i (upd_buf i (\<lambda>r. r\<lparr>bvalid := True, bdev := d, bblockno := n,
      brefcnt := 1 + (if i \<in> P then 1 else 0), bdata := blk s d n\<rparr>) s)"

lemma bread_grab:
  assumes inv: "bc_inv p s H P" and d: "d \<noteq> 0" and room: "card (H \<union> P) < NBUF \<or> (\<exists>i<NBUF. bdev (bufs s i) = d \<and> bblockno (bufs s i) = n)"
    and ne: "\<And>i. i \<in> H \<Longrightarrow> \<not> (bdev (bufs s i) = d \<and> bblockno (bufs s i) = n)"
  shows "\<exists>i<NBUF. i \<notin> H \<and> (\<forall>j<NBUF. j \<noteq> i \<longrightarrow> \<not> (bdev (bufs s j) = d \<and> bblockno (bufs s j) = n)) \<and>
    (i \<in> P \<longrightarrow> bdev (bufs s i) = d \<and> bblockno (bufs s i) = n) \<and> bread d n s = Ok (i, grab p i P d n s)"
proof (cases "\<exists>i<NBUF. bdev (bufs s i) = d \<and> bblockno (bufs s i) = n")
  case True
  then obtain i where i: "i < NBUF" "bdev (bufs s i) = d" "bblockno (bufs s i) = n" by blast
  have iH: "i \<notin> H" using ne [of i] i by blast
  note g = bget_hit [OF inv i d iH]
  have rc: "brefcnt (bufs s i) + 1 = 1 + (if i \<in> P then 1 else 0)" using bc_invD(8) [OF inv i(1)] iH by simp
  have others: "\<forall>j<NBUF. j \<noteq> i \<longrightarrow> \<not> (bdev (bufs s j) = d \<and> bblockno (bufs s j) = n)"
    using bc_invD(7) [OF inv i(1)] i d by metis
  have "bread d n s = Ok (i, grab p i P d n s)"
  proof (cases "bvalid (bufs s i)")
    case True
    have b: "blk s d n = bdata (bufs s i)" using blk_cached [OF inv i(1)] True i d by (simp add: has_blk_def)
    have "(bufs s i)\<lparr>brefcnt := 1 + (if i \<in> P then 1 else 0)\<rparr> =
        (bufs s i)\<lparr>bvalid := True, bdev := d, bblockno := n, brefcnt := 1 + (if i \<in> P then 1 else 0), bdata := blk s d n\<rparr>"
      using i True b by (cases "bufs s i") auto
    then show ?thesis using g True rc by (simp add: bread_def grab_def upd_buf_def)
  next
    case False
    have b: "blk s d n = disk s d n" using others False by (intro blk_uncached) (auto simp: has_blk_def)
    let ?u = "lock_buf p i (upd_buf i (\<lambda>r. r\<lparr>brefcnt := brefcnt r + 1\<rparr>) s)"
    have "virtio_disk_rw i False ?u = Ok (upd_buf i (\<lambda>r. r\<lparr>bdata := disk s d n\<rparr>) ?u)"
      using virtio_disk_rw_ok [of ?u p i False] bc_invD(1,2) [OF inv] i by simp
    moreover have "(bufs s i)\<lparr>brefcnt := brefcnt (bufs s i) + 1, bdata := disk s d n, bvalid := True\<rparr> =
        (bufs s i)\<lparr>bvalid := True, bdev := d, bblockno := n, brefcnt := 1 + (if i \<in> P then 1 else 0), bdata := blk s d n\<rparr>"
      using i b rc by (cases "bufs s i") auto
    ultimately show ?thesis using g False
      by (simp add: bread_def grab_def lock_buf_upd upd_buf_twice) (simp add: upd_buf_def)
  qed
  then show ?thesis using i iH others by blast
next
  case False
  then have none: "\<not> (bdev (bufs s i) = d \<and> bblockno (bufs s i) = n)" if "i < NBUF" for i using that by blast
  from bget_miss [OF inv none] room False obtain i where i: "i < NBUF" "i \<notin> H" "i \<notin> P"
    "bget d n s = Ok (i, lock_buf p i (upd_buf i (\<lambda>r. r\<lparr>bdev := d, bblockno := n, bvalid := False, brefcnt := 1\<rparr>) s))" by blast
  let ?u = "lock_buf p i (upd_buf i (\<lambda>r. r\<lparr>bdev := d, bblockno := n, bvalid := False, brefcnt := 1\<rparr>) s)"
  have "virtio_disk_rw i False ?u = Ok (upd_buf i (\<lambda>r. r\<lparr>bdata := disk s d n\<rparr>) ?u)"
    using virtio_disk_rw_ok [of ?u p i False] bc_invD(1,2) [OF inv] by simp
  moreover have "blk s d n = disk s d n" using none by (intro blk_uncached) (auto simp: has_blk_def)
  moreover have e: "(bufs s i)\<lparr>bdev := d, bblockno := n, brefcnt := 1, bdata := disk s d n, bvalid := True\<rparr> =
      (bufs s i)\<lparr>bvalid := True, bdev := d, bblockno := n, brefcnt := 1, bdata := disk s d n\<rparr>" by (cases "bufs s i") auto
  ultimately have "bread d n s = Ok (i, grab p i P d n s)" using i
    by (simp add: bread_def grab_def lock_buf_upd upd_buf_twice) (simp add: upd_buf_def e)
  then show ?thesis using i none by blast
qed

lemma own_sleeplock_frame:
  assumes "own_sleeplock lk s" "curproc (sch t) = curproc (sch s)" "sl t lk = sl s lk" "\<And>i. pid (procs (sch t) i) = pid (procs (sch s) i)"
  shows "own_sleeplock lk t"
  using assms by (simp add: own_sleeplock_def)

lemma grab_sel [simp]:
  "bufs (grab p i P d n s) = (bufs s)(i := (bufs s i)\<lparr>bvalid := True, bdev := d, bblockno := n,
      brefcnt := 1 + (if i \<in> P then 1 else 0), bdata := blk s d n\<rparr>)"
  "sch (grab p i P d n s) = sch s" "disk (grab p i P d n s) = disk s" "lru (grab p i P d n s) xs = lru s xs"
  "sl (grab p i P d n s) = (sl s)(ChSleepBuf i := \<lparr>slocked = True, spid = pid (procs (sch s) p)\<rparr>)"
  by (simp_all add: grab_def)

lemma grab_step: "cache_step s (grab p i P d n s)"
  unfolding cache_step_def
  by (intro exI [of _ "bufs (grab p i P d n s)"] exI [of _ "bnext s"] exI [of _ "bprev s"] exI [of _ "sl (grab p i P d n s)"] exI [of _ "sch s"])
    (simp add: grab_def lock_buf_def upd_buf_def)

lemma grab_inv:
  assumes inv: "bc_inv p s H P" and i: "i < NBUF" "i \<notin> H" and d: "d \<noteq> 0"
    and others: "\<forall>j<NBUF. j \<noteq> i \<longrightarrow> \<not> (bdev (bufs s j) = d \<and> bblockno (bufs s j) = n)"
  shows "bc_inv p (grab p i P d n s) (insert i H) P"
proof -
  obtain xs where xs: "lru s xs" "set xs = {..<NBUF}" using bc_invD(14) [OF inv] by blast
  note D = bc_invD [OF inv]
  show ?thesis
  proof (rule bc_invI [where xs = xs])
    fix j assume "j \<in> insert i H"
    then show "own_sleeplock (ChSleepBuf j) (grab p i P d n s)"
      using D(10) [of j] D(1) i by (cases "j = i") (auto simp: own_sleeplock_def runs_def)
  next
    fix j k assume jk: "j < NBUF" "k < NBUF" "bdev (bufs (grab p i P d n s) j) \<noteq> 0"
      "bdev (bufs (grab p i P d n s) j) = bdev (bufs (grab p i P d n s) k)" "bblockno (bufs (grab p i P d n s) j) = bblockno (bufs (grab p i P d n s) k)"
    show "j = k"
    proof (cases "j = i \<or> k = i")
      case True then show ?thesis using jk others by (auto split: if_splits)
    next
      case False then show ?thesis using jk D(7) [of j k] by simp
    qed
  next
    fix j assume j: "j < NBUF" "bvalid (bufs (grab p i P d n s) j)" "j \<notin> insert i H" "j \<notin> P"
    then show "bdata (bufs (grab p i P d n s) j) = disk (grab p i P d n s) (bdev (bufs (grab p i P d n s) j)) (bblockno (bufs (grab p i P d n s) j))"
      using D(13) [of j] by simp
  next
    fix j assume "j < NBUF" then show "length (bdata (bufs (grab p i P d n s) j)) = BSIZE"
      using D(5) [of j] blk_length [OF inv d] by simp
  qed (use D(1-4,6,8,9,11,12) xs i d in \<open>auto\<close>)
qed

lemma grab_blk:
  assumes inv: "bc_inv p s H P" and i: "i < NBUF" "i \<notin> H" "i \<in> P \<longrightarrow> bdev (bufs s i) = d \<and> bblockno (bufs s i) = n" and d: "d \<noteq> 0" "e \<noteq> 0"
    and others: "\<forall>j<NBUF. j \<noteq> i \<longrightarrow> \<not> (bdev (bufs s j) = d \<and> bblockno (bufs s j) = n)"
  shows "blk (grab p i P d n s) e m = blk s e m"
proof (cases "(e, m) = (d, n)")
  case True
  then show ?thesis
    using blk_cached [OF grab_inv [OF inv i(1,2) d(1) others] i(1), of d n] d by (simp add: has_blk_def)
next
  case False
  show ?thesis
  proof (cases "has_blk s i e m")
    case True
    then have id: "bdev (bufs s i) = e" "bblockno (bufs s i) = m" "bvalid (bufs s i)" by (auto simp: has_blk_def)
    then have "i \<notin> P" using i(3) False by auto
    then have "blk s e m = disk s e m" using blk_cached [OF inv i(1) True d(2)] bc_invD(13) [OF inv i(1)] id i(2) by simp
    moreover have "blk (grab p i P d n s) e m = disk s e m"
    proof -
      have "\<not> has_blk (grab p i P d n s) j e m" if j: "j < NBUF" for j
      proof
        assume h: "has_blk (grab p i P d n s) j e m"
        then have "j \<noteq> i" using False by (auto simp: has_blk_def)
        moreover have "bdev (bufs s j) = e" "bblockno (bufs s j) = m" using h \<open>j \<noteq> i\<close> by (auto simp: has_blk_def)
        ultimately show False using bc_invD(7) [OF inv i(1) j] id d(2) by simp
      qed
      then show ?thesis using blk_uncached [of "grab p i P d n s" e m] by simp
    qed
    ultimately show ?thesis by simp
  next
    case f: False
    show ?thesis by (rule blk_cong) (use False f in \<open>auto simp: has_blk_def split: if_splits\<close>)
  qed
qed

lemma grab_clean:
  assumes inv: "bc_inv p s H P" and i: "i < NBUF" "i \<notin> H" "i \<notin> P" and d: "d \<noteq> 0"
    and others: "\<forall>j<NBUF. j \<noteq> i \<longrightarrow> \<not> (bdev (bufs s j) = d \<and> bblockno (bufs s j) = n)"
  shows "blk s d n = disk s d n"
proof (cases "has_blk s i d n")
  case True
  then show ?thesis using blk_cached [OF inv i(1) True d] bc_invD(13) [OF inv i(1) _ i(2,3)] by (simp add: has_blk_def)
next
  case False
  show ?thesis by (rule blk_uncached) (use others False in \<open>auto simp: has_blk_def\<close>)
qed

text \<open>\<open>bread\<close> returns a locked buffer with the current contents of the block.\<close>

lemma bread_spec:
  assumes inv: "bc_inv p s H P" and d: "d \<noteq> 0" and room: "card (H \<union> P) < NBUF \<or> (\<exists>i<NBUF. bdev (bufs s i) = d \<and> bblockno (bufs s i) = n)"
    and ne: "\<And>i. i \<in> H \<Longrightarrow> \<not> (bdev (bufs s i) = d \<and> bblockno (bufs s i) = n)"
  shows "\<exists>i t. bread d n s = Ok (i, t) \<and> i < NBUF \<and> i \<notin> H \<and> bc_inv p t (insert i H) P \<and> cache_step s t \<and>
    bdev (bufs t i) = d \<and> bblockno (bufs t i) = n \<and> bdata (bufs t i) = blk s d n \<and>
    (\<forall>e m. e \<noteq> 0 \<longrightarrow> blk t e m = blk s e m) \<and>
    (\<forall>j. j \<noteq> i \<longrightarrow> bufs t j = bufs s j) \<and> (i \<in> P \<longrightarrow> bdev (bufs s i) = d \<and> bblockno (bufs s i) = n) \<and>
    (i \<in> P \<or> blk s d n = disk s d n)"
proof -
  from bread_grab [OF inv d room ne] obtain i where i: "i < NBUF" "i \<notin> H"
    "\<forall>j<NBUF. j \<noteq> i \<longrightarrow> \<not> (bdev (bufs s j) = d \<and> bblockno (bufs s j) = n)"
    "i \<in> P \<longrightarrow> bdev (bufs s i) = d \<and> bblockno (bufs s i) = n" "bread d n s = Ok (i, grab p i P d n s)" by blast
  show ?thesis
    using i grab_inv [OF inv i(1,2) d i(3)] grab_blk [OF inv i(1,2,4) d _ i(3)] grab_clean [OF inv i(1,2) _ d i(3)]
    by (intro exI [of _ i] exI [of _ "grab p i P d n s"]) (auto simp: grab_step)
qed

lemma links_sel [simp]:
  "bufs (unlink b s) = bufs s" "sch (unlink b s) = sch s" "sl (unlink b s) = sl s" "disk (unlink b s) = disk s"
  "bufs (link_first b s) = bufs s" "sch (link_first b s) = sch s" "sl (link_first b s) = sl s" "disk (link_first b s) = disk s"
  by (simp_all add: unlink_def link_first_def Let_def)

lemma links_step: "cache_step s (link_first b (unlink b s))"
  unfolding cache_step_def
  by (intro exI [of _ "bufs s"] exI [of _ "bnext (link_first b (unlink b s))"] exI [of _ "bprev (link_first b (unlink b s))"]
      exI [of _ "sl s"] exI [of _ "sch s"]) (simp add: unlink_def link_first_def Let_def)

definition drop_buf :: "nat \<Rightarrow> sst \<Rightarrow> kst \<Rightarrow> kst" where
  "drop_buf i c s =
     (let u = (upd_buf i (\<lambda>r. r\<lparr>brefcnt := brefcnt r - 1\<rparr>) s)\<lparr>sl := (sl s)(ChSleepBuf i := \<lparr>slocked = False, spid = 0\<rparr>), sch := c\<rparr>
      in if brefcnt (bufs s i) = 1 then link_first i (unlink i u) else u)"

lemma drop_buf_sel [simp]:
  "bufs (drop_buf i c s) = (bufs s)(i := (bufs s i)\<lparr>brefcnt := brefcnt (bufs s i) - 1\<rparr>)" "sch (drop_buf i c s) = c"
  "sl (drop_buf i c s) = (sl s)(ChSleepBuf i := \<lparr>slocked = False, spid = 0\<rparr>)" "disk (drop_buf i c s) = disk s"
  by (simp_all add: drop_buf_def Let_def)

lemma drop_buf_step:
  assumes "woken (sch s) c"
  shows "cache_step s (drop_buf i c s)"
proof -
  let ?u = "(upd_buf i (\<lambda>r. r\<lparr>brefcnt := brefcnt r - 1\<rparr>) s)\<lparr>sl := (sl s)(ChSleepBuf i := \<lparr>slocked = False, spid = 0\<rparr>), sch := c\<rparr>"
  have "cache_step s ?u" unfolding cache_step_def
    by (intro exI [of _ "bufs ?u"] exI [of _ "bnext s"] exI [of _ "bprev s"] exI [of _ "sl ?u"] exI [of _ c])
      (use assms in \<open>simp add: upd_buf_def\<close>)
  then show ?thesis using cache_step_trans [OF _ links_step] by (simp add: drop_buf_def Let_def)
qed

lemma sch_same: "held c = [] \<Longrightarrow> s\<lparr>sch := c\<lparr>held := []\<rparr>\<rparr> = s\<lparr>sch := c\<rparr>"
  by simp

lemma brelse_drop:
  assumes inv: "bc_inv p s H P" and i: "i \<in> H"
  shows "\<exists>c. brelse i s = Ok (drop_buf i c s) \<and> runs c p \<and> woken (sch s) c \<and> held c = []"
proof -
  note D = bc_invD [OF inv]
  from kreleasesleep_runs [OF D(1,2), of "ChSleepBuf i"] obtain c where
    c: "kreleasesleep (ChSleepBuf i) s = Ok (s\<lparr>sl := (sl s)(ChSleepBuf i := \<lparr>slocked = False, spid = 0\<rparr>), sch := c\<rparr>)"
      "runs c p" "woken (sch s) c" "held c = []" by blast
  have rc: "brefcnt (bufs s i) - 1 = 0 \<longleftrightarrow> brefcnt (bufs s i) = 1" by simp
  let ?v = "\<lambda>x. (upd_buf i (\<lambda>r. r\<lparr>brefcnt := brefcnt r - 1\<rparr>) s)\<lparr>sl := (sl s)(ChSleepBuf i := \<lparr>slocked = False, spid = 0\<rparr>), sch := x\<rparr>"
  have lk: "krelease LkBcache (link_first i (unlink i (?v (c\<lparr>held := [LkBcache]\<rparr>)))) = Ok (link_first i (unlink i (?v c)))"
    using c(4) by (simp add: krelease_first [where ls = "[]"]) (simp add: unlink_def link_first_def Let_def)
  have "brelse i s = Ok (drop_buf i c s)"
    using kholdingsleep_own [OF D(10) [OF i] D(2)] c(1,4) lk by (simp add: brelse_def drop_buf_def Let_def rc)
  then show ?thesis using c by blast
qed

text \<open>\<open>brelse\<close> of a buffer that is pinned or agrees with the disk.\<close>

lemma brelse_spec:
  assumes inv: "bc_inv p s H P" and i: "i \<in> H"
    and clean: "i \<in> P \<or> bdata (bufs s i) = disk s (bdev (bufs s i)) (bblockno (bufs s i))"
  shows "\<exists>t. brelse i s = Ok t \<and> bc_inv p t (H - {i}) P \<and> cache_step s t \<and> (\<forall>d n. blk t d n = blk s d n) \<and>
    (\<forall>j. j \<noteq> i \<longrightarrow> bufs t j = bufs s j) \<and> bdev (bufs t i) = bdev (bufs s i) \<and> bblockno (bufs t i) = bblockno (bufs s i)"
proof -
  note D = bc_invD [OF inv]
  have ib: "i < NBUF" by (rule D(3) [OF i])
  from brelse_drop [OF inv i] obtain c where c: "brelse i s = Ok (drop_buf i c s)" "runs c p" "woken (sch s) c" "held c = []" by blast
  let ?t = "drop_buf i c s"
  obtain xs where xs: "lru s xs" "set xs = {..<NBUF}" using D(14) by blast
  have "\<exists>ys. lru ?t ys \<and> set ys = {..<NBUF}"
  proof -
    obtain as bs where ab: "xs = as @ i # bs" using ib xs(2) by (metis lessThan_iff split_list)
    have ni: "i \<notin> set (as @ bs)" and "set (i # as @ bs) = {..<NBUF}" using xs ab by (auto simp: lru_def)
    moreover have "lru (link_first i (unlink i u)) (i # as @ bs)" if "lru u (as @ i # bs)" for u
      by (rule lru_link [OF lru_unlink [OF that] ni])
    moreover have "lru ?t (if brefcnt (bufs s i) = 1 then i # as @ bs else as @ i # bs)"
      using calculation(3) xs ab by (simp add: drop_buf_def Let_def)
    ultimately show ?thesis by (intro exI [of _ "if brefcnt (bufs s i) = 1 then i # as @ bs else as @ i # bs"]) auto
  qed
  then obtain ys where ys: "lru ?t ys" "set ys = {..<NBUF}" by blast
  have own: "own_sleeplock (ChSleepBuf j) ?t" if "j \<in> H - {i}" for j
    using that woken_sel(1) [OF c(3)] woken_sel(9) [OF c(3)]
    by (intro own_sleeplock_frame [OF D(10) [of j]]) simp_all
  have "bc_inv p ?t (H - {i}) P"
  proof (rule bc_invI [OF _ _ _ _ ys])
    fix j assume "j < NBUF" "bvalid (bufs ?t j)" "j \<notin> H - {i}" "j \<notin> P"
    then show "bdata (bufs ?t j) = disk ?t (bdev (bufs ?t j)) (bblockno (bufs ?t j))" using D(13) [of j] clean by auto
  next
    fix j k assume "j < NBUF" "k < NBUF" "bdev (bufs ?t j) \<noteq> 0" "bdev (bufs ?t j) = bdev (bufs ?t k)" "bblockno (bufs ?t j) = bblockno (bufs ?t k)"
    then show "j = k" using D(7) [of j k] by (auto split: if_splits)
  next
    fix j assume "j < NBUF"
    then show "brefcnt (bufs ?t j) = (if j \<in> H - {i} then 1 else 0) + (if j \<in> P then 1 else 0)" using D(8) [of j] i by auto
  next
    fix j assume "j \<in> H - {i}" then show "own_sleeplock (ChSleepBuf j) ?t" by (rule own)
  qed (use D(3-6,9,11,12) c in auto)
  moreover have "blk ?t d n = blk s d n" for d n by (rule blk_cong) (auto simp: has_blk_def)
  ultimately show ?thesis using c drop_buf_step [OF c(3), of i] by (intro exI [of _ ?t]) auto
qed

text \<open>Changing the data of a locked buffer, writing it to disk, pinning and unpinning it.\<close>

lemma set_data_spec:
  assumes inv: "bc_inv p s H P" and i: "i \<in> H" and len: "length x = BSIZE"
  shows "bc_inv p (upd_buf i (\<lambda>r. r\<lparr>bdata := x\<rparr>) s) H P"
    "e \<noteq> 0 \<Longrightarrow> blk (upd_buf i (\<lambda>r. r\<lparr>bdata := x\<rparr>) s) e m =
      (if e = bdev (bufs s i) \<and> m = bblockno (bufs s i) then x else blk s e m)"
proof -
  note D = bc_invD [OF inv]
  let ?t = "upd_buf i (\<lambda>r. r\<lparr>bdata := x\<rparr>) s"
  obtain xs where xs: "lru s xs" "set xs = {..<NBUF}" using D(14) by blast
  show t: "bc_inv p ?t H P"
  proof (rule bc_invI [where xs = xs])
    fix j k assume "j < NBUF" "k < NBUF" "bdev (bufs ?t j) \<noteq> 0" "bdev (bufs ?t j) = bdev (bufs ?t k)" "bblockno (bufs ?t j) = bblockno (bufs ?t k)"
    then show "j = k" using D(7) [of j k] by (auto split: if_splits)
  next
    fix j assume "j < NBUF" "bvalid (bufs ?t j)" "j \<notin> H" "j \<notin> P"
    then show "bdata (bufs ?t j) = disk ?t (bdev (bufs ?t j)) (bblockno (bufs ?t j))" using D(13) [of j] i by auto
  qed (use D(1-6,8-12) xs i len in auto)
  assume e: "e \<noteq> 0"
  show "blk ?t e m = (if e = bdev (bufs s i) \<and> m = bblockno (bufs s i) then x else blk s e m)"
  proof (cases "e = bdev (bufs s i) \<and> m = bblockno (bufs s i)")
    case True
    then show ?thesis using blk_cached [OF t D(3) [OF i], of e m] D(11) [of i] i e by (simp add: has_blk_def)
  next
    case False
    then have "blk ?t e m = blk s e m" by (intro blk_cong) (auto simp: has_blk_def split: if_splits)
    then show ?thesis using False by auto
  qed
qed

definition disk_write :: "nat \<Rightarrow> kst \<Rightarrow> kst" where
  "disk_write b s = s\<lparr>disk := (disk s)(bdev (bufs s b) := (disk s (bdev (bufs s b)))(bblockno (bufs s b) := bdata (bufs s b))),
     dwrites := dwrites s @ [(bdev (bufs s b), bblockno (bufs s b), bdata (bufs s b))]\<rparr>"

lemma bwrite_spec:
  assumes inv: "bc_inv p s H P" and i: "i \<in> H"
  shows "bwrite i s = Ok (disk_write i s)" "bc_inv p (disk_write i s) H P" "e \<noteq> 0 \<Longrightarrow> blk (disk_write i s) e m = blk s e m"
proof -
  note D = bc_invD [OF inv]
  show "bwrite i s = Ok (disk_write i s)"
    using kholdingsleep_own [OF D(10) [OF i] D(2)] virtio_disk_rw_ok [OF D(1,2), of i True] by (simp add: bwrite_def disk_write_def)
  obtain xs where xs: "lru s xs" "set xs = {..<NBUF}" using D(14) by blast
  let ?t = "disk_write i s"
  show "bc_inv p ?t H P"
  proof (rule bc_invI [where xs = xs])
    fix j assume j: "j < NBUF" "bvalid (bufs ?t j)" "j \<notin> H" "j \<notin> P"
    then have "j \<noteq> i" using i by blast
    then have "\<not> (bdev (bufs s j) = bdev (bufs s i) \<and> bblockno (bufs s j) = bblockno (bufs s i))"
      using D(7) [OF D(3) [OF i] j(1)] D(12) [of i] i by (metis UnI1)
    then show "bdata (bufs ?t j) = disk ?t (bdev (bufs ?t j)) (bblockno (bufs ?t j))" using D(13) [of j] j by (auto simp: disk_write_def)
  next
    fix j k assume "j < NBUF" "k < NBUF" "bdev (bufs ?t j) \<noteq> 0" "bdev (bufs ?t j) = bdev (bufs ?t k)" "bblockno (bufs ?t j) = bblockno (bufs ?t k)"
    then show "j = k" using D(7) [of j k] by (simp add: disk_write_def)
  next
    fix j assume "j \<in> H" then show "own_sleeplock (ChSleepBuf j) ?t" using D(10) [of j] by (simp add: own_sleeplock_def disk_write_def)
  qed (use D(1-6,8,9,11,12) xs i in \<open>auto simp: disk_write_def\<close>)
  assume e: "e \<noteq> 0"
  show "blk ?t e m = blk s e m"
  proof (cases "e = bdev (bufs s i) \<and> m = bblockno (bufs s i)")
    case True
    have h: "has_blk s i e m" using True D(11) [of i] i by (simp add: has_blk_def)
    then have "has_blk ?t i e m" by (simp add: has_blk_def disk_write_def)
    then show ?thesis using blk_cached [OF inv D(3) [OF i] h e] blk_cached [OF \<open>bc_inv p ?t H P\<close> D(3) [OF i] _ e] by (simp add: disk_write_def)
  next
    case False then show ?thesis by (intro blk_cong) (auto simp: has_blk_def disk_write_def)
  qed
qed

lemma pin_spec:
  assumes inv: "bc_inv p s H P" and i: "i \<in> H"
  shows "i \<notin> P \<Longrightarrow> bpin i s = Ok (upd_buf i (\<lambda>r. r\<lparr>brefcnt := brefcnt r + 1\<rparr>) s) \<and>
      bc_inv p (upd_buf i (\<lambda>r. r\<lparr>brefcnt := brefcnt r + 1\<rparr>) s) H (insert i P)"
    "i \<in> P \<Longrightarrow> bunpin i s = Ok (upd_buf i (\<lambda>r. r\<lparr>brefcnt := brefcnt r - 1\<rparr>) s) \<and>
      bc_inv p (upd_buf i (\<lambda>r. r\<lparr>brefcnt := brefcnt r - 1\<rparr>) s) H (P - {i})"
proof -
  note D = bc_invD [OF inv]
  obtain xs where xs: "lru s xs" "set xs = {..<NBUF}" using D(14) by blast
  have sch: "(sch s)\<lparr>held := []\<rparr> = sch s" using D(2) by simp
  have gen: "bc_inv p (upd_buf i (\<lambda>r. r\<lparr>brefcnt := f r\<rparr>) s) H Q"
    if "f (bufs s i) = 1 + (if i \<in> Q then 1 else 0)" "Q - {i} = P - {i}" for f Q
  proof (rule bc_invI [where xs = xs])
    let ?t = "upd_buf i (\<lambda>r. r\<lparr>brefcnt := f r\<rparr>) s"
    have q: "j \<in> Q \<longleftrightarrow> j \<in> P" if "j \<noteq> i" for j using \<open>Q - {i} = P - {i}\<close> that by blast
    fix j k
    show "j < NBUF \<Longrightarrow> k < NBUF \<Longrightarrow> bdev (bufs ?t j) \<noteq> 0 \<Longrightarrow> bdev (bufs ?t j) = bdev (bufs ?t k) \<Longrightarrow> bblockno (bufs ?t j) = bblockno (bufs ?t k) \<Longrightarrow> j = k"
      using D(7) [of j k] by (auto split: if_splits)
    show "j < NBUF \<Longrightarrow> brefcnt (bufs ?t j) = (if j \<in> H then 1 else 0) + (if j \<in> Q then 1 else 0)"
      using D(8) [of j] that(1) i q [of j] by auto
    show "j < NBUF \<Longrightarrow> bvalid (bufs ?t j) \<Longrightarrow> j \<notin> H \<Longrightarrow> j \<notin> Q \<Longrightarrow> bdata (bufs ?t j) = disk ?t (bdev (bufs ?t j)) (bblockno (bufs ?t j))"
      using D(13) [of j] i q [of j] by auto
    show "j \<in> H \<union> Q \<Longrightarrow> bvalid (bufs ?t j) \<and> bdev (bufs ?t j) \<noteq> 0" using D(11,12) [of j] i q [of j] by (cases "j = i") auto
  next
    have "Q \<subseteq> insert i P" using that(2) by blast
    then show "Q \<subseteq> {..<NBUF}" using D(3) [OF i] D(4) by auto
  qed (use D(1-6,9,10) xs in auto)
  have rc: "brefcnt (bufs s i) = 1 + (if i \<in> P then 1 else 0)" using D(8) [OF D(3) [OF i]] i by simp
  show "i \<notin> P \<Longrightarrow> bpin i s = Ok (upd_buf i (\<lambda>r. r\<lparr>brefcnt := brefcnt r + 1\<rparr>) s) \<and>
      bc_inv p (upd_buf i (\<lambda>r. r\<lparr>brefcnt := brefcnt r + 1\<rparr>) s) H (insert i P)"
    using gen [of "\<lambda>r. brefcnt r + 1" "insert i P"] rc D(2) sch by (simp add: bpin_def)
  show "i \<in> P \<Longrightarrow> bunpin i s = Ok (upd_buf i (\<lambda>r. r\<lparr>brefcnt := brefcnt r - 1\<rparr>) s) \<and>
      bc_inv p (upd_buf i (\<lambda>r. r\<lparr>brefcnt := brefcnt r - 1\<rparr>) s) H (P - {i})"
    using gen [of "\<lambda>r. brefcnt r - 1" "P - {i}"] rc D(2) sch by (simp add: bunpin_def)
qed

lemma blk_refcnt: "blk (upd_buf i (\<lambda>r. r\<lparr>brefcnt := f r\<rparr>) s) d n = blk s d n"
  by (rule blk_cong) (auto simp: has_blk_def split: if_splits)

lemma binit_sel [simp]: "bufs (binit s) = bufs s" "sch (binit s) = sch s" "disk (binit s) = disk s"
  "slocked (sl (binit s) (ChSleepBuf i)) = (if i < NBUF then False else slocked (sl s (ChSleepBuf i)))"
proof -
  let ?f = "\<lambda>b s. link_first b (s\<lparr>sl := initsleeplock (ChSleepBuf b) (sl s)\<rparr>)"
  have g: "bufs (fold ?f [0..<n] u) = bufs u \<and> sch (fold ?f [0..<n] u) = sch u \<and> disk (fold ?f [0..<n] u) = disk u \<and>
    (\<forall>i. slocked (sl (fold ?f [0..<n] u) (ChSleepBuf i)) = (if i < n then False else slocked (sl u (ChSleepBuf i))))" for n u
    by (induction n) (auto simp: initsleeplock_def)
  show "bufs (binit s) = bufs s" "sch (binit s) = sch s" "disk (binit s) = disk s"
    "slocked (sl (binit s) (ChSleepBuf i)) = (if i < NBUF then False else slocked (sl s (ChSleepBuf i)))"
    using g [of NBUF "s\<lparr>bprev := (bprev s)(BHead := BHead), bnext := (bnext s)(BHead := BHead)\<rparr>"] by (auto simp: binit_def Let_def)
qed

lemma binit_inv:
  assumes "runs (sch s) p" "held (sch s) = []" "\<And>d n. length (disk s d n) = BSIZE"
    and zero: "\<And>i. i < NBUF \<Longrightarrow> bufs s i = \<lparr>bvalid = False, bdev = 0, bblockno = 0, brefcnt = 0, bdata = replicate BSIZE 0\<rparr>"
  shows "bc_inv p (binit s) {} {}" "blk (binit s) d n = disk s d n"
proof -
  show "bc_inv p (binit s) {} {}"
    by (rule bc_invI [OF _ _ _ _ binit_lru]) (use assms in auto)
  show "blk (binit s) d n = disk s d n" using blk_uncached [of "binit s" d n] zero by (simp add: has_blk_def)
qed

section \<open>Properties\<close>

text \<open>
  C18.  The buffer cache is transparent: \<open>bread\<close> finds a buffer whenever fewer than \<open>NBUF\<close> are in
  use, delivers the current contents of the block in it, and \<open>brelse\<close> gives it back; no block
  changes its contents, whichever buffer had to be recycled, and the cache stays consistent.
\<close>

theorem bread_brelse_transparent:
  assumes inv: "bc_inv p s H P" and d: "d \<noteq> 0" and room: "card (H \<union> P) < NBUF \<or> (\<exists>i<NBUF. bdev (bufs s i) = d \<and> bblockno (bufs s i) = n)"
    and ne: "\<And>i. i \<in> H \<Longrightarrow> \<not> (bdev (bufs s i) = d \<and> bblockno (bufs s i) = n)"
  shows "\<exists>i t u. bread d n s = Ok (i, t) \<and> i \<notin> H \<and> bdata (bufs t i) = blk s d n \<and> brelse i t = Ok u \<and>
    bc_inv p u H P \<and> (\<forall>e m. e \<noteq> 0 \<longrightarrow> blk u e m = blk s e m) \<and> disk u = disk s"
proof -
  from bread_spec [OF assms] obtain i t where t: "bread d n s = Ok (i, t)" "i \<notin> H" "bc_inv p t (insert i H) P" "cache_step s t"
    "bdev (bufs t i) = d" "bblockno (bufs t i) = n" "bdata (bufs t i) = blk s d n" "\<forall>e m. e \<noteq> 0 \<longrightarrow> blk t e m = blk s e m"
    "i \<in> P \<or> blk s d n = disk s d n" by blast
  have "i \<in> P \<or> bdata (bufs t i) = disk t (bdev (bufs t i)) (bblockno (bufs t i))"
    using t(5-7,9) cache_step_sel(2) [OF t(4)] by auto
  from brelse_spec [OF t(3) _ this] obtain u where u: "brelse i t = Ok u" "bc_inv p u (insert i H - {i}) P" "cache_step t u"
    "\<forall>d n. blk u d n = blk t d n" by blast
  have "insert i H - {i} = H" using t(2) by blast
  then show ?thesis using t u cache_step_sel(2) [OF t(4)] cache_step_sel(2) [OF u(3)] by (intro exI [of _ i] exI [of _ t] exI [of _ u]) auto
qed

theorem bread_brelse_transparent_witness:
  "\<exists>h i t. bread 1 7 (binit (sample_kst h)) = Ok (i, t) \<and> bdata (bufs t i) = replicate BSIZE 7"
proof -
  obtain h where h: "runs (sample_sst h) 0" using sample_runs by blast
  have "bc_inv 0 (binit (sample_kst h)) {} {}" "blk (binit (sample_kst h)) 1 7 = replicate BSIZE 7"
    using binit_inv(1) [of "sample_kst h" 0] binit_inv(2) [of "sample_kst h" 0 1 7] h by (auto simp: sample_kst_def)
  from bread_brelse_transparent [OF this(1), of 1 7] this(2) show ?thesis by (auto simp: NBUF_def MAXOPBLOCKS_def)
qed

text \<open>
  Replacement policy: when the block is not cached, the buffer that is recycled is the least
  recently released one among those not in use, and a released buffer becomes the most recently
  used one.
\<close>

theorem bget_recycles_lru:
  assumes inv: "bc_inv p s H P" and xs: "lru s (xs @ i # ys)" "set (xs @ i # ys) = {..<NBUF}"
    and i: "i \<notin> H \<union> P" "set ys \<subseteq> H \<union> P"
    and miss: "\<And>j. j < NBUF \<Longrightarrow> \<not> (bdev (bufs s j) = d \<and> bblockno (bufs s j) = n)"
  shows "\<exists>t. bget d n s = Ok (i, t) \<and>
    (\<forall>j u. bc_inv p u {j} {} \<longrightarrow> (\<forall>as bs. lru u (as @ j # bs) \<longrightarrow> (\<exists>w. brelse j u = Ok w \<and> lru w (j # as @ bs))))"
proof -
  note D = bc_invD [OF inv]
  have ib: "i < NBUF" using xs(2) by auto
  have "find (\<lambda>i. brefcnt (bufs s i) = 0) (rev (xs @ i # ys)) = Some i"
  proof -
    have "brefcnt (bufs s j) \<noteq> 0" if "j \<in> set ys" for j
    proof -
      have "j \<in> H \<union> P" "j < NBUF" using that i(2) xs(2) by auto
      then show ?thesis using D(8) [of j] by (auto split: if_splits)
    qed
    moreover have "brefcnt (bufs s i) = 0" using D(8) [OF ib] i(1) by simp
    ultimately show ?thesis using find_first [of "rev ys" "\<lambda>i. brefcnt (bufs s i) = 0" i "rev xs"] by simp
  qed
  then have "find_unused (s\<lparr>sch := (sch s)\<lparr>held := [LkBcache]\<rparr>\<rparr>) = Ok (Some i)"
    using find_unused_spec [of "s\<lparr>sch := (sch s)\<lparr>held := [LkBcache]\<rparr>\<rparr>"] xs(1) by simp
  moreover have "find (\<lambda>i. bdev (bufs s i) = d \<and> bblockno (bufs s i) = n) (xs @ i # ys) = None"
    using miss xs(2) by (auto simp: find_None_iff)
  then have "find_cached d n (s\<lparr>sch := (sch s)\<lparr>held := [LkBcache]\<rparr>\<rparr>) = Ok None"
    using find_cached_spec [of "s\<lparr>sch := (sch s)\<lparr>held := [LkBcache]\<rparr>\<rparr>"] xs(1) by simp
  ultimately have "\<exists>t. bget d n s = Ok (i, t)"
    using D(2) D(9) [OF ib] i(1) D(1) kacquiresleep_free [of "upd_buf i (\<lambda>r. r\<lparr>bdev := d, bblockno := n, bvalid := False, brefcnt := 1\<rparr>) s" "ChSleepBuf i" p]
    by (auto simp: bget_def runs_def)
  moreover have "\<exists>w. brelse j u = Ok w \<and> lru w (j # as @ bs)" if u: "bc_inv p u {j} {}" and l: "lru u (as @ j # bs)" for j u as bs
  proof -
    obtain c where c: "brelse j u = Ok (drop_buf j c u)" using brelse_drop [OF u] by blast
    have "brefcnt (bufs u j) = 1" using bc_invD(8) [OF u] bc_invD(3) [OF u, of j] by simp
    moreover have "j \<notin> set (as @ bs)" using l by (auto simp: lru_def)
    ultimately have "lru (drop_buf j c u) (j # as @ bs)"
      unfolding drop_buf_def Let_def using lru_link [OF lru_unlink] l by simp
    then show ?thesis using c by blast
  qed
  ultimately show ?thesis by blast
qed

theorem bget_recycles_lru_witness:
  "\<exists>h t. bget 1 7 (binit (sample_kst h)) = Ok (0, t)"
proof -
  obtain h where h: "runs (sample_sst h) 0" using sample_runs by blast
  have inv: "bc_inv 0 (binit (sample_kst h)) {} {}" using binit_inv(1) [of "sample_kst h" 0] h by (auto simp: sample_kst_def)
  have n: "[0..<NBUF] = 0 # [1..<NBUF]" by (simp add: NBUF_def MAXOPBLOCKS_def upt_conv_Cons)
  have l: "lru (binit (sample_kst h)) (rev [1..<NBUF] @ 0 # [])" using binit_lru [of "sample_kst h"] unfolding n by simp
  have "set (rev [1..<NBUF] @ [0]) = insert 0 {1..<NBUF}" by simp
  also have "\<dots> = {..<NBUF}" by (auto simp: NBUF_def MAXOPBLOCKS_def)
  finally have st: "set (rev [1..<NBUF] @ [0]) = {..<NBUF}" .
  have b: "bdev (bufs (sample_kst h) j) = 0" for j by (simp add: sample_kst_def)
  have "\<exists>t. bget 1 7 (binit (sample_kst h)) = Ok (0, t)" using bget_recycles_lru [where i = 0, OF inv l st, of 1 7] by (auto simp: b)
  then show ?thesis by blast
qed

end
