(* ===== verification/Log.thy ===== *)
theory Log
  imports Bio
begin

text \<open>
  The write-ahead log \<open>kernel/log.c\<close>.  \<open>begin_op\<close> ends with \<open>Wait\<close> where the code sleeps for a
  commit or for log space.  A block write of the device is atomic; a crash loses the cache and
  keeps the writes that have reached the disk.
\<close>

section \<open>Operations\<close>

definition install_one :: "bool \<Rightarrow> nat \<Rightarrow> kst \<Rightarrow> kst res" where
  "install_one recovering k s =
     bindR (bread (lg_dev (lg s)) (lg_start (lg s) + of_nat k + 1) s) (\<lambda>(lbuf, s).
     bindR (bread (lg_dev (lg s)) (lh_block (lg s) ! k) s) (\<lambda>(dbuf, s).
     let s = upd_buf dbuf (\<lambda>r. r\<lparr>bdata := bdata (bufs s lbuf)\<rparr>) s in
     bindR (bwrite dbuf s) (\<lambda>s.
     bindR (if \<not> recovering then bunpin dbuf s else Ok s) (\<lambda>s.
     bindR (brelse lbuf s) (\<lambda>s.
     brelse dbuf s)))))"

definition install_trans :: "bool \<Rightarrow> kst \<Rightarrow> kst res" where
  "install_trans recovering s = forR (install_one recovering) [0..<nat (lh_n (lg s))] s"

text \<open>A count beyond the array is an access outside \<open>log.lh.block\<close>.\<close>

definition read_head :: "kst \<Rightarrow> kst res" where
  "read_head s =
     bindR (bread (lg_dev (lg s)) (lg_start (lg s)) s) (\<lambda>(b, s).
     let n = sint (rd32 (bdata (bufs s b)) 0); s = upd_log (\<lambda>l. l\<lparr>lh_n := n\<rparr>) s in
     bindR (forR (\<lambda>i s. if i < LOGSIZE
                then Ok (upd_log (\<lambda>l. l\<lparr>lh_block := (lh_block l)[i := rd32 (bdata (bufs s b)) (4 + 4 * i)]\<rparr>) s)
                else Fault) [0..<nat n] s) (\<lambda>s.
     brelse b s))"

definition write_head :: "kst \<Rightarrow> kst res" where
  "write_head s =
     bindR (bread (lg_dev (lg s)) (lg_start (lg s)) s) (\<lambda>(b, s).
     if nat (lh_n (lg s)) > LOGSIZE then Fault
     else
       let s = upd_buf b (\<lambda>r. r\<lparr>bdata := wr32s (wr32 (bdata r) 0 (word_of_int (lh_n (lg s)))) 4
                                            (take (nat (lh_n (lg s))) (lh_block (lg s)))\<rparr>) s in
       bindR (bwrite b s) (\<lambda>s.
       brelse b s))"

definition recover_from_log :: "kst \<Rightarrow> kst res" where
  "recover_from_log s =
     bindR (read_head s) (\<lambda>s.
     bindR (install_trans True s) (\<lambda>s.
     write_head (upd_log (\<lambda>l. l\<lparr>lh_n := 0\<rparr>) s)))"

definition initlog :: "u32 \<Rightarrow> kst \<Rightarrow> kst res" where
  "initlog dev s =
     (if 4 + 4 * LOGSIZE \<ge> BSIZE then Panic ''initlog: too big logheader''
      else recover_from_log
        (upd_log (\<lambda>l. l\<lparr>lg_start := sb_logstart (sb s), lg_size := sint (sb_nlog (sb s)), lg_dev := dev\<rparr>) s))"

definition begin_op :: "kst \<Rightarrow> kst res" where
  "begin_op s =
     bindR (kacquire LkLog s) (\<lambda>s.
     if committing (lg s) then bindR (sleep ChLog LkLog (sch s)) (\<lambda>_. Wait)
     else if lh_n (lg s) + (outstanding (lg s) + 1) * int MAXOPBLOCKS > int LOGSIZE
     then bindR (sleep ChLog LkLog (sch s)) (\<lambda>_. Wait)
     else krelease LkLog (upd_log (\<lambda>l. l\<lparr>outstanding := outstanding l + 1\<rparr>) s))"

definition write_log_one :: "nat \<Rightarrow> kst \<Rightarrow> kst res" where
  "write_log_one k s =
     bindR (bread (lg_dev (lg s)) (lg_start (lg s) + of_nat k + 1) s) (\<lambda>(to, s).
     bindR (bread (lg_dev (lg s)) (lh_block (lg s) ! k) s) (\<lambda>(from, s).
     let s = upd_buf to (\<lambda>r. r\<lparr>bdata := bdata (bufs s from)\<rparr>) s in
     bindR (bwrite to s) (\<lambda>s.
     bindR (brelse from s) (\<lambda>s.
     brelse to s))))"

definition write_log :: "kst \<Rightarrow> kst res" where
  "write_log s = forR write_log_one [0..<nat (lh_n (lg s))] s"

definition commit :: "kst \<Rightarrow> kst res" where
  "commit s =
     (if lh_n (lg s) > 0 then
        bindR (write_log s) (\<lambda>s.
        bindR (write_head s) (\<lambda>s.
        bindR (install_trans False s) (\<lambda>s.
        write_head (upd_log (\<lambda>l. l\<lparr>lh_n := 0\<rparr>) s))))
      else Ok s)"

definition end_op :: "kst \<Rightarrow> kst res" where
  "end_op s =
     bindR (kacquire LkLog s) (\<lambda>s.
     let s = upd_log (\<lambda>l. l\<lparr>outstanding := outstanding l - 1\<rparr>) s in
     if committing (lg s) then Panic ''log.committing''
     else
       bindR (if outstanding (lg s) = 0 then Ok (True, upd_log (\<lambda>l. l\<lparr>committing := True\<rparr>) s)
              else bindR (kwakeup ChLog s) (\<lambda>s. Ok (False, s))) (\<lambda>(do_commit, s).
       bindR (krelease LkLog s) (\<lambda>s.
       if do_commit then
         bindR (commit s) (\<lambda>s.
         bindR (kacquire LkLog s) (\<lambda>s.
         bindR (kwakeup ChLog (upd_log (\<lambda>l. l\<lparr>committing := False\<rparr>) s)) (\<lambda>s.
         krelease LkLog s)))
       else Ok s)))"

text \<open>The position that the loop of \<open>log_write\<close> finds: the block's entry, or the first free one.\<close>

definition log_slot :: "logst \<Rightarrow> u32 \<Rightarrow> nat" where
  "log_slot l n = length (takeWhile (\<lambda>x. x \<noteq> n) (take (nat (lh_n l)) (lh_block l)))"

definition log_write :: "nat \<Rightarrow> kst \<Rightarrow> kst res" where
  "log_write b s =
     bindR (kacquire LkLog s) (\<lambda>s.
     if lh_n (lg s) \<ge> int LOGSIZE \<or> lh_n (lg s) \<ge> lg_size (lg s) - 1 then Panic ''too big a transaction''
     else if outstanding (lg s) < 1 then Panic ''log_write outside of trans''
     else
       let i = log_slot (lg s) (bblockno (bufs s b));
           s = upd_log (\<lambda>l. l\<lparr>lh_block := (lh_block l)[i := bblockno (bufs s b)]\<rparr>) s in
       bindR (if int i = lh_n (lg s)
              then bindR (bpin b s) (\<lambda>s. Ok (upd_log (\<lambda>l. l\<lparr>lh_n := lh_n l + 1\<rparr>) s))
              else Ok s) (\<lambda>s.
       krelease LkLog s))"

section \<open>Two blocks at a time\<close>

text \<open>What operations of the log may change, apart from the log itself.\<close>

definition io_step :: "kst \<Rightarrow> kst \<Rightarrow> bool" where
  "io_step s t \<longleftrightarrow> (\<exists>D W. cache_step (s\<lparr>disk := D, dwrites := W\<rparr>) t)"

lemma io_step_cache: "cache_step s t \<Longrightarrow> io_step s t"
  unfolding io_step_def by (intro exI [of _ "disk s"] exI [of _ "dwrites s"]) simp

lemma io_step_refl [simp]: "io_step s s"
  by (rule io_step_cache) simp

lemma io_step_trans: "io_step s t \<Longrightarrow> io_step t u \<Longrightarrow> io_step s u"
proof -
  assume "io_step s t" "io_step t u"
  then obtain D W E X where st: "cache_step (s\<lparr>disk := D, dwrites := W\<rparr>) t" "cache_step (t\<lparr>disk := E, dwrites := X\<rparr>) u"
    unfolding io_step_def by blast
  have "cache_step (s\<lparr>disk := E, dwrites := X\<rparr>) (t\<lparr>disk := E, dwrites := X\<rparr>)"
  proof -
    from st(1) obtain B N Q L c where "t = s\<lparr>disk := D, dwrites := W, bufs := B, bnext := N, bprev := Q, sl := L, sch := c\<rparr>"
      "woken (sch s) c" "\<forall>x. (\<forall>i. x \<noteq> ChSleepBuf i) \<longrightarrow> L x = sl s x" unfolding cache_step_def by auto
    then show ?thesis unfolding cache_step_def
      by (intro exI [of _ B] exI [of _ N] exI [of _ Q] exI [of _ L] exI [of _ c]) simp
  qed
  then show "io_step s u" using cache_step_trans st(2) unfolding io_step_def by blast
qed

lemma io_step_sel:
  assumes "io_step s t"
  shows "km t = km s" "lg t = lg s" "sb t = sb s" "inodes t = inodes s" "files t = files s" "pipes t = pipes s"
    "woken (sch s) (sch t)" "sl t (ChSleepInode i) = sl s (ChSleepInode i)"
  using assms unfolding io_step_def by (auto dest: cache_step_sel)

lemma io_step_buf: "io_step s (upd_buf b f s)"
proof (rule io_step_cache)
  show "cache_step s (upd_buf b f s)" unfolding cache_step_def
    by (intro exI [of _ "bufs (upd_buf b f s)"] exI [of _ "bnext s"] exI [of _ "bprev s"] exI [of _ "sl s"] exI [of _ "sch s"])
      (simp add: upd_buf_def)
qed

lemma io_step_write: "io_step s (disk_write b s)"
  unfolding io_step_def disk_write_def by (intro exI) (rule cache_step_refl)

lemma bread_two:
  assumes inv: "bc_inv p s {} P" and d: "d \<noteq> 0" and xy: "x \<noteq> y" and room: "card P < NBUF"
    and room2: "Suc (card P) < NBUF \<or> (\<exists>i\<in>P. bdev (bufs s i) = d \<and> bblockno (bufs s i) = y)"
    and nx: "\<And>i. i \<in> P \<Longrightarrow> \<not> (bdev (bufs s i) = d \<and> bblockno (bufs s i) = x)"
  shows "\<exists>a s1 b t. bread d x s = Ok (a, s1) \<and> lg s1 = lg s \<and> bread d y s1 = Ok (b, t) \<and> bc_inv p t {a, b} P \<and> a \<noteq> b \<and> a \<notin> P \<and>
    cache_step s t \<and> bdev (bufs t a) = d \<and> bblockno (bufs t a) = x \<and> bdev (bufs t b) = d \<and> bblockno (bufs t b) = y \<and>
    bdata (bufs t a) = disk s d x \<and> blk s d x = disk s d x \<and> bdata (bufs t b) = blk s d y \<and>
    (\<forall>e m. e \<noteq> 0 \<longrightarrow> blk t e m = blk s e m) \<and>
    (\<forall>i\<in>P. bdev (bufs t i) = bdev (bufs s i) \<and> bblockno (bufs t i) = bblockno (bufs s i)) \<and>
    (b \<in> P \<longleftrightarrow> (\<exists>i\<in>P. bdev (bufs s i) = d \<and> bblockno (bufs s i) = y))"
proof -
  from bread_spec [OF inv d, of x] room obtain a s1 where a: "bread d x s = Ok (a, s1)" "a < NBUF" "bc_inv p s1 {a} P" "cache_step s s1"
    "bdev (bufs s1 a) = d" "bblockno (bufs s1 a) = x" "bdata (bufs s1 a) = blk s d x" "\<And>e m. e \<noteq> 0 \<Longrightarrow> blk s1 e m = blk s e m"
    "\<And>j. j \<noteq> a \<Longrightarrow> bufs s1 j = bufs s j" "a \<in> P \<longrightarrow> bdev (bufs s a) = d \<and> bblockno (bufs s a) = x" "a \<in> P \<or> blk s d x = disk s d x" by auto
  have aP: "a \<notin> P" using a(10) nx by blast
  have finP: "finite P" using bc_invD(4) [OF inv] by (meson finite_lessThan finite_subset lessThan_iff subsetI)
  have r2: "card ({a} \<union> P) < NBUF \<or> (\<exists>i<NBUF. bdev (bufs s1 i) = d \<and> bblockno (bufs s1 i) = y)"
    using room2
  proof
    assume "\<exists>i\<in>P. bdev (bufs s i) = d \<and> bblockno (bufs s i) = y"
    then obtain i where "i \<in> P" "bdev (bufs s i) = d" "bblockno (bufs s i) = y" by blast
    then have "i < NBUF" "bufs s1 i = bufs s i" using a(9) aP bc_invD(4) [OF inv] by metis+
    then show ?thesis using \<open>bdev (bufs s i) = d\<close> \<open>bblockno (bufs s i) = y\<close> by auto
  qed (use aP finP in simp)
  have ne: "\<not> (bdev (bufs s1 i) = d \<and> bblockno (bufs s1 i) = y)" if "i \<in> {a}" for i using that a(6) xy by auto
  from bread_spec [OF a(3) d r2 ne] obtain b t where b: "bread d y s1 = Ok (b, t)" "b < NBUF" "b \<notin> {a}" "bc_inv p t (insert b {a}) P" "cache_step s1 t"
    "bdev (bufs t b) = d" "bblockno (bufs t b) = y" "bdata (bufs t b) = blk s1 d y" "\<And>e m. e \<noteq> 0 \<Longrightarrow> blk t e m = blk s1 e m"
    "\<And>j. j \<noteq> b \<Longrightarrow> bufs t j = bufs s1 j" "b \<in> P \<longrightarrow> bdev (bufs s1 b) = d \<and> bblockno (bufs s1 b) = y" by auto
  have ab: "insert b {a} = {a, b}" "bufs t a = bufs s1 a" using b(3,10) by auto
  have ids: "bdev (bufs t i) = bdev (bufs s i) \<and> bblockno (bufs t i) = bblockno (bufs s i)" if "i \<in> P" for i
  proof (cases "i = b")
    case True then show ?thesis using b(3,6,7,11) that a(9) [of b] by auto
  next
    case False
    moreover have "i \<noteq> a" using aP that by blast
    ultimately show ?thesis using b(10) [of i] a(9) [of i] by simp
  qed
  have "b \<in> P \<longleftrightarrow> (\<exists>i\<in>P. bdev (bufs s i) = d \<and> bblockno (bufs s i) = y)"
  proof
    assume "\<exists>i\<in>P. bdev (bufs s i) = d \<and> bblockno (bufs s i) = y"
    then obtain i where i: "i \<in> P" "bdev (bufs s i) = d" "bblockno (bufs s i) = y" by blast
    have "i = b" using bc_invD(7) [OF b(4) _ b(2), of i] ids [OF i(1)] i b(6,7) d bc_invD(4) [OF inv i(1)] by simp
    then show "b \<in> P" using i by simp
  qed (use ids b(6,7) in metis)
  then show ?thesis
    using a(1,4-7,11) aP b(1,4-9) ab b(3) ids cache_step_sel(4) [OF a(4)] cache_step_trans [OF a(4) b(5)] a(8) d
    by (intro exI [of _ a] exI [of _ s1] exI [of _ b] exI [of _ t]) auto
qed

definition put_blk :: "(u32 \<Rightarrow> u32 \<Rightarrow> byte list) \<Rightarrow> u32 \<Rightarrow> u32 \<Rightarrow> byte list \<Rightarrow> u32 \<Rightarrow> u32 \<Rightarrow> byte list" where
  "put_blk D d n x = D(d := (D d)(n := x))"

lemma put_blk_apply: "put_blk D d n x e m = (if e = d \<and> m = n then x else D e m)"
  by (simp add: put_blk_def)

lemma disk_write_sel [simp]:
  "disk (disk_write b s) = put_blk (disk s) (bdev (bufs s b)) (bblockno (bufs s b)) (bdata (bufs s b))"
  "dwrites (disk_write b s) = dwrites s @ [(bdev (bufs s b), bblockno (bufs s b), bdata (bufs s b))]"
  "bufs (disk_write b s) = bufs s" "sch (disk_write b s) = sch s" "lg (disk_write b s) = lg s"
  by (simp_all add: disk_write_def put_blk_def)

definition same_ids :: "nat set \<Rightarrow> kst \<Rightarrow> kst \<Rightarrow> bool" where
  "same_ids P s t \<longleftrightarrow> (\<forall>i\<in>P. bdev (bufs t i) = bdev (bufs s i) \<and> bblockno (bufs t i) = bblockno (bufs s i))"

lemma write_log_one_spec:
  assumes inv: "bc_inv p s {} P" and d: "lg_dev (lg s) = d" "d \<noteq> 0" and room: "card P < NBUF"
    and y: "lh_block (lg s) ! k = y" "\<exists>i\<in>P. bdev (bufs s i) = d \<and> bblockno (bufs s i) = y"
    and x: "x = lg_start (lg s) + of_nat k + 1" "x \<noteq> y" "\<And>i. i \<in> P \<Longrightarrow> \<not> (bdev (bufs s i) = d \<and> bblockno (bufs s i) = x)"
  shows "\<exists>t. write_log_one k s = Ok t \<and> bc_inv p t {} P \<and> io_step s t \<and> disk t = put_blk (disk s) d x (blk s d y) \<and>
    dwrites t = dwrites s @ [(d, x, blk s d y)] \<and> same_ids P s t \<and>
    (\<forall>e m. e \<noteq> 0 \<longrightarrow> (e, m) \<noteq> (d, x) \<longrightarrow> blk t e m = blk s e m)"
proof -
  from bread_two [OF inv d(2) x(2) room _ x(3)] y(2) obtain a s1 b s2 where
    ab: "bread d x s = Ok (a, s1)" "lg s1 = lg s" "bread d y s1 = Ok (b, s2)" "bc_inv p s2 {a, b} P" "a \<noteq> b" "a \<notin> P"
      "cache_step s s2" "bdev (bufs s2 a) = d" "bblockno (bufs s2 a) = x" "bdata (bufs s2 b) = blk s d y"
      "\<forall>e m. e \<noteq> 0 \<longrightarrow> blk s2 e m = blk s e m" "b \<in> P"
      "\<forall>i\<in>P. bdev (bufs s2 i) = bdev (bufs s i) \<and> bblockno (bufs s2 i) = bblockno (bufs s i)" by metis
  let ?s3 = "upd_buf a (\<lambda>r. r\<lparr>bdata := bdata (bufs s2 b)\<rparr>) s2"
  have len: "length (bdata (bufs s2 b)) = BSIZE" using bc_invD(5) [OF ab(4)] bc_invD(3) [OF ab(4), of b] by simp
  note s3 = set_data_spec [OF ab(4) _ len, of a]
  note s4 = bwrite_spec [OF s3(1), of a]
  let ?s4 = "disk_write a ?s3"
  have i4: "bc_inv p ?s4 {a, b} P" using s4(2) by simp
  from brelse_spec [OF i4, of b] ab(12) obtain s5 where s5: "brelse b ?s4 = Ok s5" "bc_inv p s5 ({a, b} - {b}) P" "cache_step ?s4 s5"
    "\<forall>d n. blk s5 d n = blk ?s4 d n" "\<forall>j. j \<noteq> b \<longrightarrow> bufs s5 j = bufs ?s4 j"
    "bdev (bufs s5 b) = bdev (bufs ?s4 b)" "bblockno (bufs s5 b) = bblockno (bufs ?s4 b)" by auto
  have i5: "bc_inv p s5 {a} P" using s5(2) ab(5) by (simp add: insert_Diff_if)
  have da: "bdata (bufs s5 a) = disk s5 (bdev (bufs s5 a)) (bblockno (bufs s5 a))"
    using s5(5) ab(5) cache_step_sel(2) [OF s5(3)] by (simp add: put_blk_apply)
  from brelse_spec [OF i5, of a] da obtain t where t: "brelse a s5 = Ok t" "bc_inv p t ({a} - {a}) P" "cache_step s5 t"
    "\<forall>d n. blk t d n = blk s5 d n" "\<forall>j. j \<noteq> a \<longrightarrow> bufs t j = bufs s5 j" by auto
  have run: "write_log_one k s = Ok t"
    using ab(1,2,3) d(1) y(1) x(1) s4(1) s5(1) t(1) by (simp add: write_log_one_def)
  have "io_step s t"
    using io_step_cache [OF ab(7)] io_step_buf [of s2 a] io_step_write [of ?s3 a] io_step_cache [OF s5(3)] io_step_cache [OF t(3)]
    by (meson io_step_trans)
  moreover have "disk t = put_blk (disk s) d x (blk s d y)" "dwrites t = dwrites s @ [(d, x, blk s d y)]"
    using cache_step_sel(2,3) [OF t(3)] cache_step_sel(2,3) [OF s5(3)] cache_step_sel(2,3) [OF ab(7)] ab(8-10) by simp_all
  moreover have "blk t e m = blk s e m" if "e \<noteq> 0" "(e, m) \<noteq> (d, x)" for e m
    using t(4) s5(4) s4(3) [of e m] s3(2) [of e m] ab(8,9,11) that by auto
  moreover have "same_ids P s t" unfolding same_ids_def
  proof
    fix i assume i: "i \<in> P"
    then have "i \<noteq> a" using ab(6) by blast
    then have "bdev (bufs t i) = bdev (bufs s2 i) \<and> bblockno (bufs t i) = bblockno (bufs s2 i)"
      using t(5) s5(5-7) by (cases "i = b") auto
    then show "bdev (bufs t i) = bdev (bufs s i) \<and> bblockno (bufs t i) = bblockno (bufs s i)" using ab(13) i by simp
  qed
  ultimately show ?thesis using run t(2) by auto
qed

lemma install_one_spec:
  assumes inv: "bc_inv p s {} P" and d: "lg_dev (lg s) = d" "d \<noteq> 0" and room: "card P < NBUF"
    and y: "lh_block (lg s) ! k = y" "if r then P = {} else (\<exists>i\<in>P. bdev (bufs s i) = d \<and> bblockno (bufs s i) = y)"
    and x: "x = lg_start (lg s) + of_nat k + 1" "x \<noteq> y" "\<And>i. i \<in> P \<Longrightarrow> \<not> (bdev (bufs s i) = d \<and> bblockno (bufs s i) = x)"
  defines "Q \<equiv> {i \<in> P. \<not> (bdev (bufs s i) = d \<and> bblockno (bufs s i) = y)}"
  shows "\<exists>t. install_one r k s = Ok t \<and> bc_inv p t {} Q \<and> io_step s t \<and> disk t = put_blk (disk s) d y (disk s d x) \<and>
    dwrites t = dwrites s @ [(d, y, disk s d x)] \<and> same_ids Q s t \<and>
    (\<forall>e m. e \<noteq> 0 \<longrightarrow> blk t e m = (if (e, m) = (d, y) then disk s d x else blk s e m))"
proof -
  have r2: "Suc (card P) < NBUF \<or> (\<exists>i\<in>P. bdev (bufs s i) = d \<and> bblockno (bufs s i) = y)"
    using y(2) by (auto simp: NBUF_def MAXOPBLOCKS_def split: if_splits)
  from bread_two [OF inv d(2) x(2) room r2 x(3)] obtain a s1 b s2 where
    ab: "bread d x s = Ok (a, s1)" "lg s1 = lg s" "bread d y s1 = Ok (b, s2)" "bc_inv p s2 {a, b} P" "a \<noteq> b" "a \<notin> P"
      "cache_step s s2" "bdev (bufs s2 a) = d" "bblockno (bufs s2 a) = x" "bdev (bufs s2 b) = d" "bblockno (bufs s2 b) = y"
      "bdata (bufs s2 a) = disk s d x" "\<forall>e m. e \<noteq> 0 \<longrightarrow> blk s2 e m = blk s e m"
      "\<forall>i\<in>P. bdev (bufs s2 i) = bdev (bufs s i) \<and> bblockno (bufs s2 i) = bblockno (bufs s i)"
      "b \<in> P \<longleftrightarrow> (\<exists>i\<in>P. bdev (bufs s i) = d \<and> bblockno (bufs s i) = y)" by metis
  have Q: "Q = P - {b}"
  proof -
    have "i = b" if "i \<in> P" "bdev (bufs s i) = d" "bblockno (bufs s i) = y" for i
      using bc_invD(7) [OF ab(4), of i b] ab(10,11,14) that d(2) bc_invD(3,4) [OF ab(4)] by auto
    then show ?thesis using ab(10,11,14) unfolding Q_def by auto
  qed
  let ?s3 = "upd_buf b (\<lambda>q. q\<lparr>bdata := bdata (bufs s2 a)\<rparr>) s2"
  have len: "length (bdata (bufs s2 a)) = BSIZE" using bc_invD(5) [OF ab(4)] bc_invD(3) [OF ab(4), of a] by simp
  note s3 = set_data_spec [OF ab(4) _ len, of b]
  note s4 = bwrite_spec [OF s3(1), of b]
  let ?s4 = "disk_write b ?s3"
  have i4: "bc_inv p ?s4 {a, b} P" using s4(2) by simp
  have "\<exists>s5. (if \<not> r then bunpin b ?s4 else Ok ?s4) = Ok s5 \<and> bc_inv p s5 {a, b} Q \<and> io_step ?s4 s5 \<and> disk s5 = disk ?s4 \<and> dwrites s5 = dwrites ?s4 \<and>
     (\<forall>e m. blk s5 e m = blk ?s4 e m) \<and> (\<forall>i. bdev (bufs s5 i) = bdev (bufs ?s4 i) \<and> bblockno (bufs s5 i) = bblockno (bufs ?s4 i) \<and> bdata (bufs s5 i) = bdata (bufs ?s4 i))"
  proof (cases r)
    case True then show ?thesis using i4 y(2) Q by (intro exI [of _ ?s4]) simp
  next
    case False
    then have "b \<in> P" using y(2) ab(15) by simp
    then show ?thesis using False pin_spec(2) [OF i4, of b] Q io_step_buf [of ?s4 b]
      by (intro exI [of _ "upd_buf b (\<lambda>r. r\<lparr>brefcnt := brefcnt r - 1\<rparr>) ?s4"]) (auto simp: blk_refcnt)
  qed
  then obtain s5 where s5: "(if \<not> r then bunpin b ?s4 else Ok ?s4) = Ok s5" "bc_inv p s5 {a, b} Q" "io_step ?s4 s5" "disk s5 = disk ?s4"
    "dwrites s5 = dwrites ?s4" "\<And>e m. blk s5 e m = blk ?s4 e m"
    "\<And>i. bdev (bufs s5 i) = bdev (bufs ?s4 i) \<and> bblockno (bufs s5 i) = bblockno (bufs ?s4 i) \<and> bdata (bufs s5 i) = bdata (bufs ?s4 i)" by blast
  have ca: "bdata (bufs s5 a) = disk s5 (bdev (bufs s5 a)) (bblockno (bufs s5 a))"
    using s5(4,7) ab(5,8-12) x(2) cache_step_sel(2) [OF ab(7)] by (simp add: put_blk_apply)
  from brelse_spec [OF s5(2), of a] ca obtain s6 where s6: "brelse a s5 = Ok s6" "bc_inv p s6 ({a, b} - {a}) Q" "cache_step s5 s6"
    "\<forall>d n. blk s6 d n = blk s5 d n" "\<forall>j. j \<noteq> a \<longrightarrow> bufs s6 j = bufs s5 j"
    "bdev (bufs s6 a) = bdev (bufs s5 a)" "bblockno (bufs s6 a) = bblockno (bufs s5 a)" by auto
  have i6: "bc_inv p s6 {b} Q" using s6(2) ab(5) by (simp add: insert_Diff_if)
  have cb: "bdata (bufs s6 b) = disk s6 (bdev (bufs s6 b)) (bblockno (bufs s6 b))"
    using s6(5) s5(4,7) ab(5) cache_step_sel(2) [OF s6(3)] by (simp add: put_blk_apply)
  from brelse_spec [OF i6, of b] cb obtain t where t: "brelse b s6 = Ok t" "bc_inv p t ({b} - {b}) Q" "cache_step s6 t"
    "\<forall>d n. blk t d n = blk s6 d n" "\<forall>j. j \<noteq> b \<longrightarrow> bufs t j = bufs s6 j" by auto
  have run: "install_one r k s = Ok t"
    using ab(1,2,3) d(1) y(1) x(1) s4(1) s5(1) s6(1) t(1) by (simp add: install_one_def)
  have "io_step s t"
    using io_step_cache [OF ab(7)] io_step_buf [of s2 b] io_step_write [of ?s3 b] s5(3) io_step_cache [OF s6(3)] io_step_cache [OF t(3)]
    by (meson io_step_trans)
  moreover have "disk t = put_blk (disk s) d y (disk s d x)" "dwrites t = dwrites s @ [(d, y, disk s d x)]"
    using cache_step_sel(2,3) [OF t(3)] cache_step_sel(2,3) [OF s6(3)] cache_step_sel(2,3) [OF ab(7)] s5(4,5) ab(10-12) by simp_all
  moreover have "blk t e m = (if (e, m) = (d, y) then disk s d x else blk s e m)" if "e \<noteq> 0" for e m
    using t(4) s6(4) s5(6) s4(3) [of e m] s3(2) [of e m] ab(10-13) that by auto
  moreover have "same_ids Q s t" unfolding same_ids_def
  proof
    fix i assume i: "i \<in> Q"
    then have ne: "i \<noteq> a" "i \<noteq> b" "i \<in> P" using ab(6) Q by auto
    then show "bdev (bufs t i) = bdev (bufs s i) \<and> bblockno (bufs t i) = bblockno (bufs s i)" using t(5) s6(5) s5(7) [of i] ab(14) by simp
  qed
  ultimately show ?thesis using run t(2) by auto
qed

section \<open>Sequences of block writes\<close>

type_synonym blkwrite = "u32 \<times> u32 \<times> byte list"

definition apply_writes :: "(u32 \<Rightarrow> u32 \<Rightarrow> byte list) \<Rightarrow> blkwrite list \<Rightarrow> u32 \<Rightarrow> u32 \<Rightarrow> byte list" where
  "apply_writes D ws = foldl (\<lambda>D (d, n, x). put_blk D d n x) D ws"

lemma apply_writes_simps [simp]:
  "apply_writes D [] = D" "apply_writes D [(d, n, x)] = put_blk D d n x"
  "apply_writes D (ws @ vs) = apply_writes (apply_writes D ws) vs"
  by (simp_all add: apply_writes_def)

lemma apply_writes_Cons: "apply_writes D ((d, n, x) # ws) = apply_writes (put_blk D d n x) ws"
  by (simp add: apply_writes_def)

lemma apply_writes_other: "(\<And>x. (d, n, x) \<notin> set ws) \<Longrightarrow> apply_writes D ws d n = D d n"
proof (induction ws rule: rev_induct)
  case (snoc w ws)
  obtain e m x where w: "w = (e, m, x)" by (cases w)
  have "\<not> (e = d \<and> m = n)" using snoc.prems [of x] w by auto
  then show ?case using snoc unfolding w by (auto simp: put_blk_apply)
qed simp

text \<open>Writes of the blocks \<open>f 0\<close>, \<open>f 1\<close>, ... of one device.\<close>

lemma apply_writes_map:
  assumes "\<And>j. j < n \<Longrightarrow> f j \<noteq> m"
  shows "apply_writes D (map (\<lambda>j. (d, f j, g j)) [0..<n]) d m = D d m"
  by (rule apply_writes_other) (use assms in fastforce)

lemma apply_writes_at:
  assumes "inj_on f {..<n}" "j < n"
  shows "apply_writes D (map (\<lambda>j. (d, f j, g j)) [0..<n]) d (f j) = g j"
  using assms
proof (induction n)
  case (Suc n)
  then show ?case by (cases "j = n") (auto simp: put_blk_apply inj_on_def)
qed simp

section \<open>The log area\<close>

definition logged :: "logst \<Rightarrow> u32 list" where
  "logged l = take (nat (lh_n l)) (lh_block l)"

definition logblk :: "logst \<Rightarrow> nat \<Rightarrow> u32" where
  "logblk l k = lg_start l + of_nat k + 1"

definition log_area :: "logst \<Rightarrow> u32 \<Rightarrow> bool" where
  "log_area l b \<longleftrightarrow> unat (lg_start l) \<le> unat b \<and> unat b < unat (lg_start l) + nat (lg_size l)"

definition log_ok :: "logst \<Rightarrow> bool" where
  "log_ok l \<longleftrightarrow> lg_dev l \<noteq> 0 \<and> 0 \<le> lh_n l \<and> lh_n l \<le> int LOGSIZE \<and> lh_n l < lg_size l \<and> length (lh_block l) = LOGSIZE \<and>
     unat (lg_start l) + nat (lg_size l) < 2 ^ 32 \<and> distinct (logged l) \<and> (\<forall>b\<in>set (logged l). \<not> log_area l b)"

lemma logged_length: "log_ok l \<Longrightarrow> length (logged l) = nat (lh_n l)"
  by (auto simp: log_ok_def logged_def)

lemma unat_of_nat32: "m < 2 ^ 32 \<Longrightarrow> unat (of_nat m :: u32) = m"
  by (simp add: unsigned_of_nat take_bit_nat_eq_self)

lemma upt_prefix: "[0..<n] = ds @ k # es \<Longrightarrow> k = length ds \<and> k < n"
proof -
  assume js: "[0..<n] = ds @ k # es"
  have l: "length ds < n" using arg_cong [OF js, of length] by simp
  have "k = [0..<n] ! length ds" unfolding js by simp
  then show ?thesis using l by simp
qed

lemma unat_logblk: "log_ok l \<Longrightarrow> k < nat (lh_n l) \<Longrightarrow> unat (logblk l k) = unat (lg_start l) + k + 1"
proof -
  assume "log_ok l" "k < nat (lh_n l)"
  then have b: "unat (lg_start l) + (k + 1) < 2 ^ 32" by (auto simp: log_ok_def)
  have "logblk l k = lg_start l + of_nat (k + 1)" by (simp add: logblk_def)
  also have "unat \<dots> = (unat (lg_start l) + unat (of_nat (k + 1) :: u32)) mod 2 ^ 32" by (simp add: unat_word_ariths)
  also have "unat (of_nat (k + 1) :: u32) = k + 1" by (rule unat_of_nat32) (use b in simp)
  finally show ?thesis using b by simp
qed

lemma logblk_facts:
  assumes "log_ok l" "k < nat (lh_n l)"
  shows "log_area l (logblk l k)" "logblk l k \<noteq> lg_start l" "logblk l k \<notin> set (logged l)" "inj_on (logblk l) {..<nat (lh_n l)}"
proof -
  show a: "log_area l (logblk l k)" using unat_logblk [OF assms] assms by (auto simp: log_area_def log_ok_def)
  show "logblk l k \<noteq> lg_start l"
  proof
    assume "logblk l k = lg_start l"
    then show False using unat_logblk [OF assms] by simp
  qed
  show "logblk l k \<notin> set (logged l)" using a assms(1) by (auto simp: log_ok_def)
  show "inj_on (logblk l) {..<nat (lh_n l)}"
  proof (rule inj_onI)
    fix i j assume ij: "i \<in> {..<nat (lh_n l)}" "j \<in> {..<nat (lh_n l)}" and e: "logblk l i = logblk l j"
    have "unat (logblk l i) = unat (logblk l j)" by (simp only: e)
    then have "unat (lg_start l) + i + 1 = unat (lg_start l) + j + 1"
      using ij by (simp only: unat_logblk [OF assms(1)] lessThan_iff)
    then show "i = j" by simp
  qed
qed

lemma start_in_area: "log_ok l \<Longrightarrow> log_area l (lg_start l)" "log_ok l \<Longrightarrow> lg_start l \<notin> set (logged l)"
proof -
  show a: "log_area l (lg_start l)" if "log_ok l" using that by (auto simp: log_area_def log_ok_def)
  show "lg_start l \<notin> set (logged l)" if "log_ok l" using a [OF that] that by (auto simp: log_ok_def)
qed

lemma logged_inj: "log_ok l \<Longrightarrow> inj_on (\<lambda>j. logged l ! j) {..<nat (lh_n l)}"
  using logged_length [of l] by (auto simp: inj_on_def nth_eq_iff_index_eq log_ok_def)

section \<open>The loops\<close>

lemma io_bc_sel: "io_step s t \<Longrightarrow> lg t = lg s"
  by (rule io_step_sel(2))

definition log_pins :: "logst \<Rightarrow> kst \<Rightarrow> nat set" where
  "log_pins l s = {i. i < NBUF \<and> bdev (bufs s i) = lg_dev l \<and> bblockno (bufs s i) \<in> set (logged l)}"

definition all_cached :: "logst \<Rightarrow> kst \<Rightarrow> bool" where
  "all_cached l s \<longleftrightarrow> (\<forall>b\<in>set (logged l). \<exists>i<NBUF. bdev (bufs s i) = lg_dev l \<and> bblockno (bufs s i) = b)"

lemma same_ids_trans: "same_ids P s t \<Longrightarrow> same_ids P t u \<Longrightarrow> same_ids P s u"
  by (simp add: same_ids_def)

lemma write_log_spec:
  assumes inv: "bc_inv p s {} P" and P: "P = log_pins (lg s) s" and l: "log_ok (lg s)" and c: "all_cached (lg s) s" and room: "card P < NBUF"
  defines "d \<equiv> lg_dev (lg s)" and "bs \<equiv> logged (lg s)" and "n \<equiv> nat (lh_n (lg s))"
  defines "ws \<equiv> \<lambda>k. map (\<lambda>j. (d, logblk (lg s) j, blk s d (bs ! j))) [0..<k]"
  shows "\<exists>t. write_log s = Ok t \<and> bc_inv p t {} P \<and> io_step s t \<and> same_ids P s t \<and> dwrites t = dwrites s @ ws n \<and>
    disk t = apply_writes (disk s) (ws n) \<and> (\<forall>e m. e \<noteq> 0 \<longrightarrow> \<not> (e = d \<and> log_area (lg s) m) \<longrightarrow> blk t e m = blk s e m)"
proof -
  let ?I = "\<lambda>ds t. bc_inv p t {} P \<and> io_step s t \<and> same_ids P s t \<and> dwrites t = dwrites s @ ws (length ds) \<and>
    disk t = apply_writes (disk s) (ws (length ds)) \<and> (\<forall>e m. e \<noteq> 0 \<longrightarrow> \<not> (e = d \<and> log_area (lg s) m) \<longrightarrow> blk t e m = blk s e m)"
  have "\<exists>t. forR write_log_one [0..<n] s = Ok t \<and> ?I [0..<n] t"
  proof (rule forR_prefix_rule)
    show "?I [] s" using inv by (simp add: ws_def same_ids_def)
  next
    fix ds k es t assume js: "[0..<n] = ds @ k # es" and I: "?I ds t"
    have kn: "k = length ds" "k < n" using upt_prefix [OF js] by auto
    have bk: "lh_block (lg t) ! k = bs ! k" "bs ! k \<in> set bs"
      using kn(2) logged_length [OF l] io_step_sel(2) [of s t] I nth_mem [of k bs] by (simp_all add: bs_def n_def logged_def)
    have P1: "bdev (bufs t i) = d \<and> bblockno (bufs t i) \<in> set bs" if "i \<in> P" for i
      using I that by (auto simp: same_ids_def P log_pins_def d_def bs_def)
    have P2: "\<exists>i\<in>P. bdev (bufs t i) = d \<and> bblockno (bufs t i) = bs ! k"
    proof -
      obtain i where "i < NBUF" "bdev (bufs s i) = d" "bblockno (bufs s i) = bs ! k"
        using c bk(2) unfolding all_cached_def d_def bs_def by blast
      moreover from this have "i \<in> P" using bk(2) by (auto simp: P log_pins_def d_def bs_def)
      ultimately show ?thesis using I by (auto simp: same_ids_def)
    qed
    note lf = logblk_facts [OF l, of k, folded n_def]
    have "\<exists>u. write_log_one k t = Ok u \<and> bc_inv p u {} P \<and> io_step t u \<and> disk u = put_blk (disk t) d (logblk (lg s) k) (blk t d (bs ! k)) \<and>
      dwrites u = dwrites t @ [(d, logblk (lg s) k, blk t d (bs ! k))] \<and> same_ids P t u \<and>
      (\<forall>e m. e \<noteq> 0 \<longrightarrow> (e, m) \<noteq> (d, logblk (lg s) k) \<longrightarrow> blk u e m = blk t e m)"
    proof (rule write_log_one_spec [OF _ _ _ room bk(1) P2])
      show "logblk (lg s) k \<noteq> bs ! k" using lf(3) kn(2) bk(2) by (auto simp: bs_def)
      show "\<not> (bdev (bufs t i) = d \<and> bblockno (bufs t i) = logblk (lg s) k)" if "i \<in> P" for i
        using P1 [OF that] lf(3) kn(2) by (auto simp: bs_def)
    qed (use I io_step_sel(2) [of s t] l in \<open>auto simp: d_def log_ok_def logblk_def\<close>)
    then obtain u where u: "write_log_one k t = Ok u" "bc_inv p u {} P" "io_step t u" "disk u = put_blk (disk t) d (logblk (lg s) k) (blk t d (bs ! k))"
      "dwrites u = dwrites t @ [(d, logblk (lg s) k, blk t d (bs ! k))]" "same_ids P t u"
      "\<forall>e m. e \<noteq> 0 \<longrightarrow> (e, m) \<noteq> (d, logblk (lg s) k) \<longrightarrow> blk u e m = blk t e m" by blast
    have b: "blk t d (bs ! k) = blk s d (bs ! k)" using I bk(2) l by (auto simp: d_def bs_def log_ok_def)
    have "blk u e m = blk s e m" if "e \<noteq> 0" "\<not> (e = d \<and> log_area (lg s) m)" for e m
    proof -
      have "(e, m) \<noteq> (d, logblk (lg s) k)" using that(2) lf(1) kn(2) by auto
      then show ?thesis using u(7) I that by auto
    qed
    then have "?I (ds @ [k]) u"
      using u(2-6) I io_step_trans [of s t u] same_ids_trans [of P s t u] b kn by (simp add: ws_def)
    then show "\<exists>u. write_log_one k t = Ok u \<and> ?I (ds @ [k]) u" using u(1) by blast
  qed
  then show ?thesis by (simp add: write_log_def n_def)
qed

lemma install_trans_spec:
  assumes inv: "bc_inv p s {} P" and P: "if r then P = {} else P = log_pins (lg s) s \<and> all_cached (lg s) s"
    and l: "log_ok (lg s)" and room: "card P < NBUF"
  defines "d \<equiv> lg_dev (lg s)" and "bs \<equiv> logged (lg s)" and "n \<equiv> nat (lh_n (lg s))"
  defines "ws \<equiv> \<lambda>k. map (\<lambda>j. (d, bs ! j, disk s d (logblk (lg s) j))) [0..<k]"
  shows "\<exists>t. install_trans r s = Ok t \<and> bc_inv p t {} {} \<and> io_step s t \<and> dwrites t = dwrites s @ ws n \<and>
    disk t = apply_writes (disk s) (ws n) \<and>
    (\<forall>e m. e \<noteq> 0 \<longrightarrow> \<not> (e = d \<and> m \<in> set bs) \<longrightarrow> blk t e m = blk s e m)"
proof -
  let ?P = "\<lambda>k. {i \<in> P. bblockno (bufs s i) \<notin> set (take k bs)}"
  let ?I = "\<lambda>ds t. bc_inv p t {} (?P (length ds)) \<and> io_step s t \<and> same_ids (?P (length ds)) s t \<and> dwrites t = dwrites s @ ws (length ds) \<and>
    disk t = apply_writes (disk s) (ws (length ds)) \<and> (\<forall>e m. e \<noteq> 0 \<longrightarrow> \<not> (e = d \<and> m \<in> set bs) \<longrightarrow> blk t e m = blk s e m)"
  have finP: "finite P" using bc_invD(4) [OF inv] by (meson finite_lessThan finite_subset lessThan_iff subsetI)
  have len: "length bs = n" using logged_length [OF l] by (simp add: bs_def n_def)
  have Pd: "bdev (bufs s i) = d \<and> bblockno (bufs s i) \<in> set bs" if "i \<in> P" for i
    using that P by (auto simp: log_pins_def d_def bs_def split: if_splits)
  have "\<exists>t. forR (install_one r) [0..<n] s = Ok t \<and> ?I [0..<n] t"
  proof (rule forR_prefix_rule)
    show "?I [] s" using inv by (simp add: ws_def same_ids_def)
  next
    fix ds k es t assume js: "[0..<n] = ds @ k # es" and I: "?I ds t"
    have kn: "k = length ds" "k < n" using upt_prefix [OF js] by auto
    have lt: "lg t = lg s" using I io_step_sel(2) by blast
    have bk: "lh_block (lg t) ! k = bs ! k" "bs ! k \<in> set bs" using kn(2) len lt nth_mem [of k bs] by (simp_all add: bs_def n_def logged_def)
    have ids: "bdev (bufs t i) = d \<and> bblockno (bufs t i) = bblockno (bufs s i) \<and> bblockno (bufs t i) \<in> set bs" if "i \<in> ?P k" for i
      using I that Pd kn by (auto simp: same_ids_def)
    have dist: "bs ! k \<notin> set (take k bs)"
      using l kn(2) len by (auto simp: in_set_conv_nth nth_eq_iff_index_eq log_ok_def bs_def)
    have y: "if r then ?P k = {} else (\<exists>i\<in>?P k. bdev (bufs t i) = d \<and> bblockno (bufs t i) = bs ! k)"
    proof (cases r)
      case False
      then have "all_cached (lg s) s" "P = log_pins (lg s) s" using P by auto
      then obtain i where "i \<in> P" "bdev (bufs s i) = d" "bblockno (bufs s i) = bs ! k"
        using bk(2) unfolding all_cached_def log_pins_def d_def bs_def by fastforce
      then have "i \<in> ?P k" "bdev (bufs t i) = d" "bblockno (bufs t i) = bs ! k" using dist ids [of i] by auto
      then show ?thesis using False by auto
    qed (use P in simp)
    note lf = logblk_facts [OF l, of k, folded n_def]
    let ?Q = "{i \<in> ?P k. \<not> (bdev (bufs t i) = d \<and> bblockno (bufs t i) = bs ! k)}"
    have "\<exists>u. install_one r k t = Ok u \<and> bc_inv p u {} ?Q \<and> io_step t u \<and> disk u = put_blk (disk t) d (bs ! k) (disk t d (logblk (lg s) k)) \<and>
      dwrites u = dwrites t @ [(d, bs ! k, disk t d (logblk (lg s) k))] \<and> same_ids ?Q t u \<and>
      (\<forall>e m. e \<noteq> 0 \<longrightarrow> blk u e m = (if (e, m) = (d, bs ! k) then disk t d (logblk (lg s) k) else blk t e m))"
    proof (rule install_one_spec [OF _ _ _ _ bk(1) y])
      show "bc_inv p t {} (?P k)" using I kn by simp
      show "card (?P k) < NBUF" using card_mono [OF finP, of "?P k"] room by auto
      show "logblk (lg s) k \<noteq> bs ! k" using lf(3) kn(2) bk(2) by (auto simp: bs_def)
      show "\<not> (bdev (bufs t i) = d \<and> bblockno (bufs t i) = logblk (lg s) k)" if "i \<in> ?P k" for i
        using ids [OF that] lf(3) kn(2) by (auto simp: bs_def)
    qed (use lt l in \<open>auto simp: d_def log_ok_def logblk_def\<close>)
    then obtain u where u: "install_one r k t = Ok u" "bc_inv p u {} ?Q" "io_step t u" "disk u = put_blk (disk t) d (bs ! k) (disk t d (logblk (lg s) k))"
      "dwrites u = dwrites t @ [(d, bs ! k, disk t d (logblk (lg s) k))]" "same_ids ?Q t u"
      "\<forall>e m. e \<noteq> 0 \<longrightarrow> blk u e m = (if (e, m) = (d, bs ! k) then disk t d (logblk (lg s) k) else blk t e m)" by blast
    have "bdev (bufs t i) = d \<and> bblockno (bufs t i) = bs ! k \<longleftrightarrow> bblockno (bufs s i) = bs ! k" if "i \<in> ?P k" for i
      using ids [OF that] by simp
    then have "?Q = {i \<in> ?P k. bblockno (bufs s i) \<noteq> bs ! k}" by blast
    also have "\<dots> = ?P (Suc k)" using kn(2) len by (auto simp: take_Suc_conv_app_nth)
    finally have Q: "?Q = ?P (Suc k)" .
    have "disk t d (logblk (lg s) k) = disk s d (logblk (lg s) k)"
    proof -
      have "bs ! j \<noteq> logblk (lg s) k" if "j < length ds" for j
      proof -
        have "bs ! j \<in> set bs" using that kn len by simp
        then show ?thesis using lf(3) kn(2) by (auto simp: bs_def)
      qed
      then show ?thesis using I apply_writes_map [of "length ds" "\<lambda>j. bs ! j"] by (simp add: ws_def)
    qed
    moreover have "same_ids (?P (Suc k)) s u"
      using u(6) I kn unfolding Q same_ids_def by (auto simp: take_Suc_conv_app_nth len)
    moreover have "blk u e m = blk s e m" if "e \<noteq> 0" "\<not> (e = d \<and> m \<in> set bs)" for e m
      using u(7) I that bk(2) by auto
    ultimately have "?I (ds @ [k]) u"
      using u(2-5) I io_step_trans [of s t u] kn unfolding Q by (simp add: ws_def)
    then show "\<exists>u. install_one r k t = Ok u \<and> ?I (ds @ [k]) u" using u(1) by blast
  qed
  then obtain t where t: "forR (install_one r) [0..<n] s = Ok t" "?I [0..<n] t" by blast
  have e: "?P n = {}" using Pd len by auto
  show ?thesis using t unfolding length_upt diff_zero e by (auto simp: install_trans_def n_def)
qed

text \<open>The header block: a count and the block numbers.\<close>

definition head_bytes :: "byte list \<Rightarrow> u32 list \<Rightarrow> byte list" where
  "head_bytes x bs = wr32s (wr32 x 0 (of_nat (length bs))) 4 bs"

definition head_blocks :: "byte list \<Rightarrow> u32 list" where
  "head_blocks x = map (\<lambda>i. rd32 x (4 + 4 * i)) [0..<nat (sint (rd32 x 0))]"

lemma head_count: "length bs \<le> LOGSIZE \<Longrightarrow> length x = BSIZE \<Longrightarrow> sint (rd32 (head_bytes x bs) 0) = int (length bs)"
proof -
  assume a: "length bs \<le> LOGSIZE" "length x = BSIZE"
  then have "rd32 (head_bytes x bs) 0 = of_nat (length bs)" by (simp add: head_bytes_def wr32s_other BSIZE_def)
  moreover have "sint (of_nat (length bs) :: u32) = int (length bs)"
    using a(1) by (simp add: signed_of_nat signed_take_bit_int_eq_self LOGSIZE_def MAXOPBLOCKS_def)
  ultimately show ?thesis by simp
qed

lemma head_blocks_bytes: "length bs \<le> LOGSIZE \<Longrightarrow> length x = BSIZE \<Longrightarrow> head_blocks (head_bytes x bs) = bs"
proof (rule nth_equalityI)
  assume a: "length bs \<le> LOGSIZE" "length x = BSIZE"
  show l: "length (head_blocks (head_bytes x bs)) = length bs" using head_count [OF a] by (simp add: head_blocks_def)
  fix i assume "i < length (head_blocks (head_bytes x bs))"
  then show "head_blocks (head_bytes x bs) ! i = bs ! i"
    using l a head_count [OF a] rd_wr32s [of i bs 4 "wr32 x 0 (of_nat (length bs))"]
    by (simp add: head_blocks_def head_bytes_def LOGSIZE_def MAXOPBLOCKS_def BSIZE_def)
qed

lemma head_bytes_length [simp]: "length (head_bytes x bs) = length x"
  by (simp add: head_bytes_def)

lemma write_head_spec:
  assumes inv: "bc_inv p s {} P" and l: "log_ok (lg s)" and room: "card P < NBUF"
    and P: "\<And>i. i \<in> P \<Longrightarrow> \<not> (bdev (bufs s i) = lg_dev (lg s) \<and> bblockno (bufs s i) = lg_start (lg s))"
  defines "d \<equiv> lg_dev (lg s)" and "x \<equiv> head_bytes (disk s (lg_dev (lg s)) (lg_start (lg s))) (logged (lg s))"
  shows "\<exists>t. write_head s = Ok t \<and> bc_inv p t {} P \<and> io_step s t \<and> disk t = put_blk (disk s) d (lg_start (lg s)) x \<and>
    dwrites t = dwrites s @ [(d, lg_start (lg s), x)] \<and> same_ids P s t \<and>
    (\<forall>e m. e \<noteq> 0 \<longrightarrow> (e, m) \<noteq> (d, lg_start (lg s)) \<longrightarrow> blk t e m = blk s e m)"
proof -
  have d0: "d \<noteq> 0" using l by (simp add: log_ok_def d_def)
  from bread_spec [OF inv d0, of "lg_start (lg s)"] room obtain b s1 where
    b: "bread d (lg_start (lg s)) s = Ok (b, s1)" "bc_inv p s1 {b} P" "cache_step s s1" "bdev (bufs s1 b) = d"
      "bblockno (bufs s1 b) = lg_start (lg s)" "bdata (bufs s1 b) = blk s d (lg_start (lg s))" "\<forall>e m. e \<noteq> 0 \<longrightarrow> blk s1 e m = blk s e m"
      "\<forall>j. j \<noteq> b \<longrightarrow> bufs s1 j = bufs s j" "b \<in> P \<longrightarrow> bdev (bufs s b) = d \<and> bblockno (bufs s b) = lg_start (lg s)"
      "b \<in> P \<or> blk s d (lg_start (lg s)) = disk s d (lg_start (lg s))" by auto
  have bP: "b \<notin> P" using b(9) P [of b] by (auto simp: d_def)
  have lg1: "lg s1 = lg s" using cache_step_sel(4) [OF b(3)] .
  have n: "of_nat (length (logged (lg s))) = (word_of_int (lh_n (lg s)) :: u32)" "nat (lh_n (lg s)) \<le> LOGSIZE"
    using logged_length [OF l] l by (auto simp: log_ok_def)
  let ?s2 = "upd_buf b (\<lambda>r. r\<lparr>bdata := x\<rparr>) s1"
  have e2: "upd_buf b (\<lambda>r. r\<lparr>bdata := wr32s (wr32 (bdata r) 0 (word_of_int (lh_n (lg s)))) 4 (take (nat (lh_n (lg s))) (lh_block (lg s)))\<rparr>) s1 = ?s2"
    using b(6,10) bP n(1) by (simp add: upd_buf_def x_def d_def head_bytes_def logged_def)
  have len: "length x = BSIZE" using bc_invD(6) [OF inv] by (simp add: x_def)
  note s2 = set_data_spec [OF b(2) _ len, of b]
  note s3 = bwrite_spec [OF s2(1), of b]
  have i3: "bc_inv p (disk_write b ?s2) {b} P" using s3(2) by simp
  from brelse_spec [OF i3, of b] obtain t where t: "brelse b (disk_write b ?s2) = Ok t" "bc_inv p t ({b} - {b}) P" "cache_step (disk_write b ?s2) t"
    "\<forall>d n. blk t d n = blk (disk_write b ?s2) d n" "\<forall>j. j \<noteq> b \<longrightarrow> bufs t j = bufs (disk_write b ?s2) j" by (auto simp: put_blk_apply)
  have "write_head s = Ok t" using b(1) lg1 n(2) e2 s3(1) t(1) by (simp add: write_head_def d_def not_less)
  moreover have "io_step s t"
    using io_step_cache [OF b(3)] io_step_buf [of s1 b] io_step_write [of ?s2 b] io_step_cache [OF t(3)] by (meson io_step_trans)
  moreover have "disk t = put_blk (disk s) d (lg_start (lg s)) x" "dwrites t = dwrites s @ [(d, lg_start (lg s), x)]"
    using cache_step_sel(2,3) [OF t(3)] cache_step_sel(2,3) [OF b(3)] b(4,5) by simp_all
  moreover have "blk t e m = blk s e m" if "e \<noteq> 0" "(e, m) \<noteq> (d, lg_start (lg s))" for e m
    using t(4) s3(3) [of e m] s2(2) [of e m] b(4,5,7) that by auto
  moreover have "bufs t i = bufs s i" if "i \<in> P" for i
  proof -
    have "i \<noteq> b" using bP that by blast
    then show ?thesis using t(5) b(8) by simp
  qed
  then have "same_ids P s t" by (simp add: same_ids_def)
  ultimately show ?thesis using t(2) by auto
qed

section \<open>Commit\<close>

lemma upd_log_sel [simp]:
  "lg (upd_log f s) = f (lg s)" "bufs (upd_log f s) = bufs s" "sch (upd_log f s) = sch s" "sl (upd_log f s) = sl s"
  "disk (upd_log f s) = disk s" "dwrites (upd_log f s) = dwrites s" "lru (upd_log f s) xs = lru s xs"
  "own_sleeplock lk (upd_log f s) = own_sleeplock lk s" "bc_inv p (upd_log f s) H P = bc_inv p s H P" "sb (upd_log f s) = sb s"
  "inodes (upd_log f s) = inodes s" "files (upd_log f s) = files s" "pipes (upd_log f s) = pipes s" "km (upd_log f s) = km s"
  by (simp_all add: upd_log_def own_sleeplock_def bc_inv_def)

lemma blk_upd_log [simp]: "blk (upd_log f s) d n = blk s d n"
  by (rule blk_cong) (simp_all add: has_blk_def)

text \<open>The blocks a transaction writes: log, header, home locations, cleared header.\<close>

definition commit_writes :: "logst \<Rightarrow> (u32 \<Rightarrow> u32 \<Rightarrow> byte list) \<Rightarrow> byte list \<Rightarrow> blkwrite list" where
  "commit_writes l v h =
     (let d = lg_dev l; bs = logged l; n = length bs; h' = head_bytes h bs in
      map (\<lambda>j. (d, logblk l j, v d (bs ! j))) [0..<n] @ [(d, lg_start l, h')] @
      map (\<lambda>j. (d, bs ! j, v d (bs ! j))) [0..<n] @ [(d, lg_start l, head_bytes h' [])])"

lemma io_step_log: "io_step s t \<Longrightarrow> io_step (s\<lparr>lg := x\<rparr>) (t\<lparr>lg := x\<rparr>)"
proof -
  assume "io_step s t"
  then obtain D W B N Q L c where "t = s\<lparr>disk := D, dwrites := W, bufs := B, bnext := N, bprev := Q, sl := L, sch := c\<rparr>"
    "woken (sch s) c" "\<forall>x. (\<forall>i. x \<noteq> ChSleepBuf i) \<longrightarrow> L x = sl s x" unfolding io_step_def cache_step_def by auto
  then show ?thesis unfolding io_step_def cache_step_def
    by (intro exI [of _ D] exI [of _ W] exI [of _ B] exI [of _ N] exI [of _ Q] exI [of _ L] exI [of _ c]) simp
qed

lemma clean_blk:
  assumes "bc_inv p s {} P" "d \<noteq> 0" "\<And>i. i \<in> P \<Longrightarrow> \<not> (bdev (bufs s i) = d \<and> bblockno (bufs s i) = n)"
  shows "blk s d n = disk s d n"
proof (cases "\<exists>i<NBUF. has_blk s i d n")
  case True
  then obtain i where i: "i < NBUF" "has_blk s i d n" by blast
  then have "i \<notin> P" using assms(3) by (auto simp: has_blk_def)
  then show ?thesis using blk_cached [OF assms(1) i assms(2)] bc_invD(13) [OF assms(1) i(1)] i(2) by (simp add: has_blk_def)
qed (use blk_uncached in blast)

lemma log_pins_same_ids: "same_ids (log_pins l s) s t \<Longrightarrow> bc_inv p s H (log_pins l s) \<Longrightarrow> bc_inv p t K Q \<Longrightarrow> all_cached l s \<Longrightarrow> log_ok l \<Longrightarrow>
    log_pins l t = log_pins l s \<and> all_cached l t"
proof -
  assume a: "same_ids (log_pins l s) s t" "bc_inv p s H (log_pins l s)" "bc_inv p t K Q" "all_cached l s" "log_ok l"
  have d: "lg_dev l \<noteq> 0" using a(5) by (simp add: log_ok_def)
  have ids: "bdev (bufs t i) = lg_dev l \<and> bblockno (bufs t i) = bblockno (bufs s i)" if "i \<in> log_pins l s" for i
    using a(1) that by (auto simp: same_ids_def log_pins_def)
  have c: "\<exists>i\<in>log_pins l s. bblockno (bufs s i) = b" if "b \<in> set (logged l)" for b
    using a(4) that by (auto simp: all_cached_def log_pins_def)
  have "i \<in> log_pins l s" if i: "i \<in> log_pins l t" for i
  proof -
    obtain j where j: "j \<in> log_pins l s" "bblockno (bufs s j) = bblockno (bufs t i)" using c [of "bblockno (bufs t i)"] i by (auto simp: log_pins_def)
    have "i = j" using bc_invD(7) [OF a(3), of i j] ids [OF j(1)] j i d by (auto simp: log_pins_def)
    then show ?thesis using j by simp
  qed
  moreover have "i \<in> log_pins l t" if "i \<in> log_pins l s" for i using ids [OF that] that by (auto simp: log_pins_def)
  ultimately have e: "log_pins l t = log_pins l s" by blast
  have "all_cached l t" unfolding all_cached_def
  proof
    fix b assume "b \<in> set (logged l)"
    then obtain i where "i \<in> log_pins l s" "bblockno (bufs s i) = b" using c by blast
    then show "\<exists>i<NBUF. bdev (bufs t i) = lg_dev l \<and> bblockno (bufs t i) = b" using ids [of i] by (auto simp: log_pins_def)
  qed
  with e show ?thesis by blast
qed

lemma commit_spec:
  assumes inv: "bc_inv p s {} (log_pins (lg s) s)" and l: "log_ok (lg s)" and c: "all_cached (lg s) s"
    and room: "card (log_pins (lg s) s) < NBUF" and n: "0 < lh_n (lg s)"
  defines "d \<equiv> lg_dev (lg s)" and "L \<equiv> (lg s)\<lparr>lh_n := 0\<rparr>"
  defines "ws \<equiv> commit_writes (lg s) (blk s) (disk s (lg_dev (lg s)) (lg_start (lg s)))"
  shows "\<exists>t. commit s = Ok t \<and> bc_inv p t {} {} \<and> io_step (s\<lparr>lg := L\<rparr>) t \<and> dwrites t = dwrites s @ ws \<and> disk t = apply_writes (disk s) ws"
proof -
  let ?P = "log_pins (lg s) s" and ?bs = "logged (lg s)" and ?st = "lg_start (lg s)"
  have len: "length ?bs = nat (lh_n (lg s))" by (rule logged_length [OF l])
  let ?w1 = "map (\<lambda>j. (d, logblk (lg s) j, blk s d (?bs ! j))) [0..<length ?bs]"
  obtain s1 where s1: "write_log s = Ok s1" "bc_inv p s1 {} ?P" "io_step s s1" "same_ids ?P s s1" "dwrites s1 = dwrites s @ ?w1"
    "disk s1 = apply_writes (disk s) ?w1" "\<forall>e m. e \<noteq> 0 \<longrightarrow> \<not> (e = d \<and> log_area (lg s) m) \<longrightarrow> blk s1 e m = blk s e m"
    using write_log_spec [OF inv refl l c room] unfolding d_def len by blast
  have lg1: "lg s1 = lg s" by (rule io_step_sel(2) [OF s1(3)])
  note p1 = log_pins_same_ids [OF s1(4) inv s1(2) c l]
  have h1: "disk s1 d ?st = disk s d ?st" unfolding s1(6)
    by (rule apply_writes_map) (use logblk_facts(2) [OF l] len in auto)
  let ?h = "head_bytes (disk s d ?st) ?bs"
  have np: "\<not> (bdev (bufs t i) = lg_dev (lg s) \<and> bblockno (bufs t i) = ?st)" if "i \<in> ?P" "same_ids ?P s t" for i t
    using that start_in_area(2) [OF l] by (auto simp: same_ids_def log_pins_def)
  obtain s2 where s2: "write_head s1 = Ok s2" "bc_inv p s2 {} ?P" "io_step s1 s2" "disk s2 = put_blk (disk s1) d ?st ?h"
    "dwrites s2 = dwrites s1 @ [(d, ?st, ?h)]" "same_ids ?P s1 s2"
    using write_head_spec [OF s1(2), unfolded lg1, OF l room] np [OF _ s1(4)] unfolding d_def [symmetric] h1 by auto
  have lg2: "lg s2 = lg s" using io_step_sel(2) [OF s2(3)] lg1 by simp
  have P2: "log_pins (lg s) s2 = ?P" "all_cached (lg s) s2"
    using log_pins_same_ids [OF same_ids_trans [OF s1(4) s2(6)] inv s2(2) c l] by auto
  have lb: "disk s2 d (logblk (lg s) j) = blk s d (?bs ! j)" if "j < length ?bs" for j
  proof -
    have j: "j < nat (lh_n (lg s))" using that len by simp
    have "disk s2 d (logblk (lg s) j) = disk s1 d (logblk (lg s) j)"
      using logblk_facts(2) [OF l j] by (simp add: s2(4) put_blk_apply)
    also have "\<dots> = blk s d (?bs ! j)" unfolding s1(6)
      using that logblk_facts(4) [OF l j] by (intro apply_writes_at) (simp_all add: len)
    finally show ?thesis .
  qed
  let ?w3 = "map (\<lambda>j. (d, ?bs ! j, blk s d (?bs ! j))) [0..<length ?bs]"
  have w3: "map (\<lambda>j. (d, ?bs ! j, disk s2 d (logblk (lg s) j))) [0..<length ?bs] = ?w3" using lb by simp
  obtain s3 where s3: "install_trans False s2 = Ok s3" "bc_inv p s3 {} {}" "io_step s2 s3" "dwrites s3 = dwrites s2 @ ?w3"
    "disk s3 = apply_writes (disk s2) ?w3"
    using install_trans_spec [OF s2(2), of False, unfolded lg2] P2 l room unfolding d_def [symmetric] len [symmetric] w3 by auto
  have lg3: "lg s3 = lg s" using io_step_sel(2) [OF s3(3)] lg2 by simp
  have h3: "disk s3 d ?st = ?h"
  proof -
    have "?bs ! j \<noteq> ?st" if "j < length ?bs" for j using start_in_area(2) [OF l] nth_mem [OF that] by auto
    then have "disk s3 d ?st = disk s2 d ?st" unfolding s3(5) by (intro apply_writes_map) auto
    then show ?thesis by (simp add: s2(4) put_blk_apply)
  qed
  let ?s3 = "upd_log (\<lambda>l. l\<lparr>lh_n := 0\<rparr>) s3"
  have L: "lg ?s3 = L" by (simp add: lg3 L_def)
  have Lok: "log_ok L" "logged L = []" "lg_dev L = d" "lg_start L = ?st" using l by (auto simp: L_def log_ok_def logged_def d_def)
  have i3: "bc_inv p ?s3 {} {}" using s3(2) by simp
  obtain t where t: "write_head ?s3 = Ok t" "bc_inv p t {} {}" "io_step ?s3 t" "disk t = put_blk (disk s3) d ?st (head_bytes ?h [])"
    "dwrites t = dwrites s3 @ [(d, ?st, head_bytes ?h [])]"
    using write_head_spec [OF i3, unfolded L, OF Lok(1)] unfolding Lok by (auto simp: h3 NBUF_def MAXOPBLOCKS_def)
  have run: "commit s = Ok t" using n s1(1) s2(1) s3(1) t(1) by (simp add: commit_def)
  have "io_step (s\<lparr>lg := L\<rparr>) (s3\<lparr>lg := L\<rparr>)" using io_step_log [OF io_step_trans [OF s1(3) io_step_trans [OF s2(3) s3(3)]]] .
  moreover have "s3\<lparr>lg := L\<rparr> = ?s3" using L by (simp add: upd_log_def lg3 L_def)
  ultimately have "io_step (s\<lparr>lg := L\<rparr>) t" using t(3) io_step_trans by simp
  moreover have "ws = ?w1 @ [(d, ?st, ?h)] @ ?w3 @ [(d, ?st, head_bytes ?h [])]"
    by (simp add: ws_def commit_writes_def Let_def d_def)
  ultimately show ?thesis using run t s1(5,6) s2(4,5) s3(4,5) by (intro exI [of _ t]) (simp add: apply_writes_Cons)
qed

section \<open>Recovery\<close>

text \<open>What the disk means after a crash: the blocks listed in the header come from the log.\<close>

definition recover_writes :: "u32 \<Rightarrow> u32 \<Rightarrow> (u32 \<Rightarrow> u32 \<Rightarrow> byte list) \<Rightarrow> blkwrite list" where
  "recover_writes d st D =
     (let bs = head_blocks (D d st) in map (\<lambda>j. (d, bs ! j, D d (st + of_nat j + 1))) [0..<length bs])"

definition recover_disk :: "u32 \<Rightarrow> u32 \<Rightarrow> (u32 \<Rightarrow> u32 \<Rightarrow> byte list) \<Rightarrow> u32 \<Rightarrow> u32 \<Rightarrow> byte list" where
  "recover_disk d st D = apply_writes D (recover_writes d st D)"

lemma recover_none: "head_blocks (D d st) = [] \<Longrightarrow> recover_disk d st D = D"
  by (simp add: recover_disk_def recover_writes_def)

text \<open>A disk whose header lists the transaction \<open>l\<close>, whose log holds the new contents \<open>v\<close>.\<close>

definition committed :: "logst \<Rightarrow> (u32 \<Rightarrow> byte list) \<Rightarrow> (u32 \<Rightarrow> u32 \<Rightarrow> byte list) \<Rightarrow> bool" where
  "committed l v E \<longleftrightarrow> head_blocks (E (lg_dev l) (lg_start l)) = logged l \<and>
     (\<forall>j<length (logged l). E (lg_dev l) (logblk l j) = v (logged l ! j))"

lemma recover_committed:
  assumes l: "log_ok l" and c: "committed l v E"
  shows "recover_disk (lg_dev l) (lg_start l) E e m = (if e = lg_dev l \<and> m \<in> set (logged l) then v m else E e m)"
proof -
  let ?d = "lg_dev l" and ?bs = "logged l"
  have w: "recover_writes ?d (lg_start l) E = map (\<lambda>j. (?d, ?bs ! j, v (?bs ! j))) [0..<length ?bs]"
    using c by (auto simp: recover_writes_def committed_def Let_def logblk_def)
  show ?thesis
  proof (cases "e = ?d \<and> m \<in> set ?bs")
    case True
    then obtain j where "j < length ?bs" "m = ?bs ! j" by (auto simp: in_set_conv_nth)
    then show ?thesis using True logged_inj [OF l] logged_length [OF l]
      by (simp add: recover_disk_def w apply_writes_at [where f = "\<lambda>j. ?bs ! j"])
  next
    case False
    then show ?thesis unfolding recover_disk_def w by (subst apply_writes_other) auto
  qed
qed

text \<open>Writing home blocks, in any number and order, does not disturb a committed log.\<close>

lemma committed_home:
  assumes "log_ok l" "committed l v E" "\<And>e m x. (e, m, x) \<in> set ws \<Longrightarrow> e = lg_dev l \<and> m \<in> set (logged l)"
  shows "committed l v (apply_writes E ws)"
proof -
  have "apply_writes E ws (lg_dev l) m = E (lg_dev l) m" if "log_area l m" for m
  proof (rule apply_writes_other)
    show "(lg_dev l, m, x) \<notin> set ws" for x using assms(1,3) that by (auto simp: log_ok_def)
  qed
  then show ?thesis
    using assms(1,2) start_in_area(1) [OF assms(1)] logblk_facts(1) [OF assms(1)] logged_length [OF assms(1)]
    by (simp add: committed_def)
qed

lemma take_map_upt: "take k (map f [0..<n]) = map f [0..<min k n]"
  by (simp add: take_map min_def)

lemma commit_prefix:
  fixes v :: "u32 \<Rightarrow> u32 \<Rightarrow> byte list"
  assumes l: "log_ok l" and h: "length (D (lg_dev l) (lg_start l)) = BSIZE" "head_blocks (D (lg_dev l) (lg_start l)) = []"
  defines "d \<equiv> lg_dev l" and "ws \<equiv> commit_writes l v (D (lg_dev l) (lg_start l))"
  defines "E \<equiv> \<lambda>k. apply_writes D (take k ws)"
  shows "(\<forall>e m. \<not> (e = d \<and> log_area l m) \<longrightarrow> recover_disk d (lg_start l) (E k) e m = D e m) \<or>
    (\<forall>e m. \<not> (e = d \<and> log_area l m) \<longrightarrow> recover_disk d (lg_start l) (E k) e m = (if e = d \<and> m \<in> set (logged l) then v d m else D e m))"
proof -
  let ?bs = "logged l" and ?st = "lg_start l" and ?n = "length (logged l)"
  let ?h = "head_bytes (D d ?st) ?bs"
  let ?w1 = "map (\<lambda>j. (d, logblk l j, v d (?bs ! j))) [0..<?n]" and ?w3 = "map (\<lambda>j. (d, ?bs ! j, v d (?bs ! j))) [0..<?n]"
  have ws: "ws = ?w1 @ (d, ?st, ?h) # ?w3 @ [(d, ?st, head_bytes ?h [])]" by (simp add: ws_def commit_writes_def Let_def d_def)
  have n: "?n = nat (lh_n l)" "?n \<le> LOGSIZE" using logged_length [OF l] l by (auto simp: log_ok_def)
  have area: "log_area l (logblk l j)" "logblk l j \<noteq> ?st" if "j < ?n" for j using logblk_facts(1,2) [OF l] that n by auto
  have home: "\<not> log_area l (?bs ! j)" "?bs ! j \<noteq> ?st" if "j < ?n" for j
    using l nth_mem [OF that] start_in_area(2) [OF l] by (auto simp: log_ok_def)
  have len: "length (D d ?st) = BSIZE" using h by (simp add: d_def)
  have w1_st: "apply_writes D (map (\<lambda>j. (d, logblk l j, v d (?bs ! j))) [0..<j]) d ?st = D d ?st" if "j \<le> ?n" for j
    using area(2) that by (intro apply_writes_map) auto
  have w1_other: "apply_writes D (map (\<lambda>j. (d, logblk l j, v d (?bs ! j))) [0..<j]) e m = D e m"
    if "j \<le> ?n" "\<not> (e = d \<and> log_area l m)" for j e m
    using area(1) that by (intro apply_writes_other) auto
  let ?C = "put_blk (apply_writes D ?w1) d ?st ?h"
  have C: "committed l (v d) ?C"
  proof -
    have "apply_writes D ?w1 d (logblk l j) = v d (?bs ! j)" if "j < ?n" for j
      using logblk_facts(4) [OF l, of j] that n by (intro apply_writes_at) auto
    then show ?thesis using area(2) head_blocks_bytes [OF n(2) len] by (simp add: committed_def put_blk_apply d_def)
  qed
  have C_other: "?C e m = D e m" if "\<not> (e = d \<and> log_area l m)" for e m
    using w1_other [OF order_refl that] that start_in_area(1) [OF l] by (auto simp: put_blk_apply)
  consider (log) "k \<le> ?n" | (home) "?n < k" "k \<le> 2 * ?n + 1" | (all) "2 * ?n + 1 < k" by linarith
  then show ?thesis
  proof cases
    case log
    then have e: "E k = apply_writes D (map (\<lambda>j. (d, logblk l j, v d (?bs ! j))) [0..<k])"
      by (simp add: E_def ws take_map min_def)
    then have "recover_disk d ?st (E k) = E k" using w1_st [OF log] h(2) by (intro recover_none) (simp add: d_def)
    then show ?thesis using w1_other [OF log] e by simp
  next
    case home
    have e: "E k = apply_writes ?C (take (k - Suc ?n) ?w3)"
    proof -
      have "k = ?n + Suc (k - Suc ?n)" using home by simp
      then have "take k ws = ?w1 @ (d, ?st, ?h) # take (k - Suc ?n) ?w3" using home by (subst ws) (simp add: take_Cons')
      then show ?thesis by (simp add: E_def apply_writes_Cons)
    qed
    have w: "e = lg_dev l \<and> m \<in> set ?bs" if "(e, m, x) \<in> set (take (k - Suc ?n) ?w3)" for e m x
      using that by (auto simp: d_def dest!: in_set_takeD)
    have "committed l (v d) (E k)" unfolding e by (rule committed_home [OF l C]) (rule w)
    note rc = recover_committed [OF l this, folded d_def]
    have "recover_disk d ?st (E k) e m = (if e = d \<and> m \<in> set ?bs then v d m else D e m)" if m: "\<not> (e = d \<and> log_area l m)" for e m
    proof (cases "e = d \<and> m \<in> set ?bs")
      case True then show ?thesis using rc by simp
    next
      case False
      then have "(e, m, x) \<notin> set (take (k - Suc ?n) ?w3)" for x using w [of e m x] unfolding d_def by blast
      then have "E k e m = ?C e m" unfolding e by (rule apply_writes_other)
      then show ?thesis using rc [of e m] False C_other [OF m] by auto
    qed
    then show ?thesis by blast
  next
    case all
    have e: "E k = put_blk (apply_writes ?C ?w3) d ?st (head_bytes ?h [])"
      using all by (simp add: E_def ws apply_writes_Cons)
    have "head_blocks (head_bytes ?h []) = []" using head_blocks_bytes [of "[]" ?h] len by simp
    then have r: "recover_disk d ?st (E k) = E k" using e by (intro recover_none) (simp add: put_blk_apply)
    have "E k e m = (if e = d \<and> m \<in> set ?bs then v d m else D e m)" if m: "\<not> (e = d \<and> log_area l m)" for e m
    proof -
      have "E k e m = apply_writes ?C ?w3 e m" using m start_in_area(1) [OF l] e by (auto simp: put_blk_apply)
      also have "\<dots> = (if e = d \<and> m \<in> set ?bs then v d m else D e m)"
      proof (cases "e = d \<and> m \<in> set ?bs")
        case True
        then obtain j where "j < ?n" "m = ?bs ! j" by (auto simp: in_set_conv_nth)
        then show ?thesis using True logged_inj [OF l] n(1) by (simp add: apply_writes_at [where f = "\<lambda>j. ?bs ! j"])
      next
        case False then show ?thesis using C_other [OF m] by (subst apply_writes_other) auto
      qed
      finally show ?thesis .
    qed
    then show ?thesis using r by simp
  qed
qed

lemma upd_log_twice: "upd_log f (upd_log g s) = upd_log (\<lambda>l. f (g l)) s"
  by (simp add: upd_log_def)

lemma io_step_upd_log: "io_step s t \<Longrightarrow> io_step (upd_log f s) (upd_log f t)"
  using io_step_log [of s t "f (lg s)"] io_step_sel(2) [of s t] by (simp add: upd_log_def)

lemma read_blocks_loop:
  assumes len: "length hb \<le> LOGSIZE" "length (lh_block (lg s)) = LOGSIZE" and hb: "\<And>i. i < length hb \<Longrightarrow> rd32 (bdata (bufs s b)) (4 + 4 * i) = hb ! i"
  shows "forR (\<lambda>i s. if i < LOGSIZE
      then Ok (upd_log (\<lambda>l. l\<lparr>lh_block := (lh_block l)[i := rd32 (bdata (bufs s b)) (4 + 4 * i)]\<rparr>) s) else Fault) [0..<length hb] s =
    Ok (upd_log (\<lambda>l. l\<lparr>lh_block := hb @ drop (length hb) (lh_block l)\<rparr>) s)"
proof -
  let ?f = "\<lambda>i s. if i < LOGSIZE
      then Ok (upd_log (\<lambda>l. l\<lparr>lh_block := (lh_block l)[i := rd32 (bdata (bufs s b)) (4 + 4 * i)]\<rparr>) s) else Fault"
  let ?g = "\<lambda>k. upd_log (\<lambda>l. l\<lparr>lh_block := take k hb @ drop k (lh_block (lg s))\<rparr>) s"
  have "\<exists>t. forR ?f [0..<length hb] s = Ok t \<and> t = ?g (length [0..<length hb])"
  proof (rule forR_prefix_rule)
    show "s = ?g (length [])" by (simp add: upd_log_def)
  next
    fix ds k es t assume js: "[0..<length hb] = ds @ k # es" and t: "t = ?g (length ds)"
    have kn: "k = length ds" "k < length hb" using upt_prefix [OF js] by auto
    have l: "lh_block (lg t) = take k hb @ drop k (lh_block (lg s))" by (simp add: t kn)
    have "(take k hb @ drop k (lh_block (lg s)))[k := hb ! k] = take (Suc k) hb @ drop (Suc k) (lh_block (lg s))"
      using kn(2) len by (simp add: list_update_append take_Suc_conv_app_nth Cons_nth_drop_Suc [symmetric])
    then have "?f k t = Ok (?g (Suc k))" using kn len hb [OF kn(2)] by (simp add: t upd_log_twice)
    then show "\<exists>u. ?f k t = Ok u \<and> u = ?g (length (ds @ [k]))" using kn by simp
  qed
  then show ?thesis by (simp add: upd_log_def)
qed

definition read_log :: "logst \<Rightarrow> byte list \<Rightarrow> logst" where
  "read_log l h = l\<lparr>lh_n := int (length (head_blocks h)), lh_block := head_blocks h @ drop (length (head_blocks h)) (lh_block l)\<rparr>"

lemma read_head_spec:
  assumes inv: "bc_inv p s {} {}" and d: "lg_dev (lg s) \<noteq> 0"
    and h: "h = disk s (lg_dev (lg s)) (lg_start (lg s))" "0 \<le> sint (rd32 h 0)" "length (head_blocks h) \<le> LOGSIZE" "length (lh_block (lg s)) = LOGSIZE"
  shows "\<exists>t. read_head s = Ok t \<and> bc_inv p t {} {} \<and> lg t = read_log (lg s) h \<and> disk t = disk s \<and> dwrites t = dwrites s \<and>
    io_step (s\<lparr>lg := read_log (lg s) h\<rparr>) t"
proof -
  let ?d = "lg_dev (lg s)" and ?st = "lg_start (lg s)" and ?hb = "head_blocks h" and ?f = "\<lambda>l. read_log l h"
  from bread_spec [OF inv d, of ?st] obtain b s1 where b: "bread ?d ?st s = Ok (b, s1)" "bc_inv p s1 {b} {}" "cache_step s s1"
    "bdev (bufs s1 b) = ?d" "bblockno (bufs s1 b) = ?st" "bdata (bufs s1 b) = h"
    by (auto simp: NBUF_def MAXOPBLOCKS_def h(1))
  have n: "nat (sint (rd32 h 0)) = length ?hb" "sint (rd32 h 0) = int (length ?hb)" using h(2) by (simp_all add: head_blocks_def)
  have lg1: "lg s1 = lg s" "disk s1 = disk s" "dwrites s1 = dwrites s" using cache_step_sel [OF b(3)] by auto
  have hb: "rd32 h (4 + 4 * i) = ?hb ! i" if "i < length ?hb" for i using that by (simp add: head_blocks_def)
  let ?s2 = "upd_log (\<lambda>l. l\<lparr>lh_n := int (length ?hb)\<rparr>) s1"
  have loop: "forR (\<lambda>i s. if i < LOGSIZE then Ok (upd_log (\<lambda>l. l\<lparr>lh_block := (lh_block l)[i := rd32 (bdata (bufs s b)) (4 + 4 * i)]\<rparr>) s) else Fault)
      [0..<length ?hb] ?s2 = Ok (upd_log ?f s1)"
    using read_blocks_loop [of ?hb ?s2 b] h(3,4) hb b(6) lg1 by (simp add: upd_log_twice read_log_def)
  have i2: "bc_inv p (upd_log ?f s1) {b} {}" using b(2) by simp
  have "bdata (bufs (upd_log ?f s1) b) = disk (upd_log ?f s1) (bdev (bufs (upd_log ?f s1) b)) (bblockno (bufs (upd_log ?f s1) b))"
    using b(4-6) lg1 h(1) by simp
  then obtain t where t: "brelse b (upd_log ?f s1) = Ok t" "bc_inv p t {} {}" "cache_step (upd_log ?f s1) t"
    using brelse_spec [OF i2, of b] by (metis Diff_cancel insertI1)
  have run: "read_head s = Ok t" using b(1,6) n loop t(1) by (simp add: read_head_def Let_def)
  have "io_step (upd_log ?f s) t" using io_step_upd_log [OF io_step_cache [OF b(3)]] io_step_cache [OF t(3)] io_step_trans by blast
  then show ?thesis using run t(2) cache_step_sel(2,3,4) [OF t(3)] lg1 by (intro exI [of _ t]) (simp add: upd_log_def)
qed

lemma recover_from_log_spec:
  assumes inv: "bc_inv p s {} {}" and h: "h = disk s (lg_dev (lg s)) (lg_start (lg s))" "0 \<le> sint (rd32 h 0)"
    and l: "log_ok (read_log (lg s) h)" and len: "length (lh_block (lg s)) = LOGSIZE" "length (head_blocks h) \<le> LOGSIZE"
  defines "d \<equiv> lg_dev (lg s)" and "st \<equiv> lg_start (lg s)"
  defines "ws \<equiv> recover_writes d st (disk s) @ [(d, st, head_bytes h [])]"
  shows "\<exists>t. recover_from_log s = Ok t \<and> bc_inv p t {} {} \<and> lh_n (lg t) = 0 \<and> log_ok (lg t) \<and> dwrites t = dwrites s @ ws \<and>
    disk t = apply_writes (disk s) ws \<and> io_step (s\<lparr>lg := lg t\<rparr>) t"
proof -
  have d0: "lg_dev (lg s) \<noteq> 0" using l by (simp add: log_ok_def read_log_def)
  obtain s1 where s1: "read_head s = Ok s1" "bc_inv p s1 {} {}" "lg s1 = read_log (lg s) h" "disk s1 = disk s" "dwrites s1 = dwrites s"
    "io_step (s\<lparr>lg := read_log (lg s) h\<rparr>) s1" using read_head_spec [OF inv d0 h len(2,1)] by blast
  have sel: "lg_dev (lg s1) = d" "lg_start (lg s1) = st" "logged (lg s1) = head_blocks h" "nat (lh_n (lg s1)) = length (head_blocks h)"
    using len by (simp_all add: s1(3) read_log_def d_def st_def logged_def)
  obtain s2 where s2: "install_trans True s1 = Ok s2" "bc_inv p s2 {} {}" "io_step s1 s2" "dwrites s2 = dwrites s1 @ recover_writes d st (disk s)"
    "disk s2 = apply_writes (disk s) (recover_writes d st (disk s))"
    using install_trans_spec [OF s1(2), of True] l unfolding sel s1(4)
    by (auto simp: s1(3) NBUF_def MAXOPBLOCKS_def recover_writes_def Let_def h(1) d_def st_def logblk_def read_log_def)
  let ?s3 = "upd_log (\<lambda>l. l\<lparr>lh_n := 0\<rparr>) s2"
  have lg2: "lg s2 = lg s1" by (rule io_step_sel(2) [OF s2(3)])
  have l3: "log_ok (lg ?s3)" "logged (lg ?s3) = []" using l by (auto simp: lg2 s1(3) log_ok_def logged_def)
  have st: "disk s2 d st = h"
  proof -
    have "\<not> log_area (lg s1) b" if "b \<in> set (head_blocks h)" for b using l sel(3) that by (auto simp: s1(3) log_ok_def)
    moreover have "log_area (lg s1) st" using start_in_area(1) [of "lg s1"] l sel(2) s1(3) by simp
    ultimately have "st \<notin> set (head_blocks h)" by blast
    then have "(d, st, x) \<notin> set (recover_writes d st (disk s))" for x
      by (auto simp: recover_writes_def Let_def h(1) d_def [symmetric] st_def [symmetric] in_set_conv_nth)
    then show ?thesis unfolding s2(5) by (simp add: apply_writes_other h(1) d_def st_def)
  qed
  have i3: "bc_inv p ?s3 {} {}" using s2(2) by simp
  obtain t where t: "write_head ?s3 = Ok t" "bc_inv p t {} {}" "io_step ?s3 t" "disk t = put_blk (disk s2) d st (head_bytes h [])"
    "dwrites t = dwrites s2 @ [(d, st, head_bytes h [])]"
    using write_head_spec [OF i3 l3(1)] l3(2) sel st by (auto simp: NBUF_def MAXOPBLOCKS_def lg2)
  have lgt: "lg t = lg ?s3" by (rule io_step_sel(2) [OF t(3)])
  have "io_step (upd_log (\<lambda>l. l\<lparr>lh_n := 0\<rparr>) (s\<lparr>lg := read_log (lg s) h\<rparr>)) t"
    using io_step_trans [OF io_step_upd_log [OF io_step_trans [OF s1(6) s2(3)]] t(3)] .
  then have "io_step (s\<lparr>lg := lg t\<rparr>) t" by (simp add: lgt lg2 s1(3) upd_log_def)
  then show ?thesis using s1(1,5) s2(1,4,5) t(1,2,4,5) l3(1) lgt
    by (intro exI [of _ t]) (simp add: recover_from_log_def ws_def)
qed

lemma commit_prefix_head:
  fixes v D :: "u32 \<Rightarrow> u32 \<Rightarrow> byte list"
  assumes l: "log_ok l"
  defines "d \<equiv> lg_dev l" and "ws \<equiv> commit_writes l v (D (lg_dev l) (lg_start l))" and "h \<equiv> D (lg_dev l) (lg_start l)"
  shows "apply_writes D (take k ws) d (lg_start l) \<in> {h, head_bytes h (logged l), head_bytes (head_bytes h (logged l)) []}"
proof -
  have all: "x \<in> {head_bytes h (logged l), head_bytes (head_bytes h (logged l)) []}" if "(d, lg_start l, x) \<in> set ws" for x
  proof -
    have "(d, lg_start l, x) \<notin> set (map (\<lambda>j. (d, logblk l j, v d (logged l ! j))) [0..<length (logged l)])"
      using logblk_facts(2) [OF l] logged_length [OF l] by fastforce
    moreover have "(d, lg_start l, x) \<notin> set (map (\<lambda>j. (d, logged l ! j, v d (logged l ! j))) [0..<length (logged l)])"
      using start_in_area(2) [OF l] by (auto simp: in_set_conv_nth)
    ultimately show ?thesis using that by (simp add: ws_def commit_writes_def Let_def d_def h_def)
  qed
  have w: "x \<in> {head_bytes h (logged l), head_bytes (head_bytes h (logged l)) []}" if "(d, lg_start l, x) \<in> set (take k ws)" for x k
    by (rule all [OF in_set_takeD [OF that]])
  have "apply_writes D vs d (lg_start l) = D d (lg_start l) \<or> (d, lg_start l, apply_writes D vs d (lg_start l)) \<in> set vs" for vs
  proof (induction vs rule: rev_induct)
    case (snoc w vs)
    obtain e m x where "w = (e, m, x)" by (cases w)
    then show ?case using snoc by (auto simp: put_blk_apply)
  qed simp
  then show ?thesis using w unfolding h_def d_def by blast
qed

lemma crash_header_ok:
  assumes l: "log_ok l" and hb: "head_blocks h = [] \<and> rd32 h 0 = 0 \<or> head_blocks h = logged l \<and> sint (rd32 h 0) = int (length (logged l))"
    and u: "lg_dev lu = lg_dev l" "lg_start lu = lg_start l" "lg_size lu = lg_size l" "length (lh_block lu) = LOGSIZE"
  shows "0 \<le> sint (rd32 h 0)" "length (head_blocks h) \<le> LOGSIZE" "log_ok (read_log lu h)"
proof -
  have n: "length (logged l) = nat (lh_n l)" by (rule logged_length [OF l])
  show "0 \<le> sint (rd32 h 0)" using hb by auto
  show h: "length (head_blocks h) \<le> LOGSIZE" using hb n l by (auto simp: log_ok_def)
  have "logged (read_log lu h) = head_blocks h" by (simp add: logged_def read_log_def)
  moreover have "int (length (head_blocks h)) < lg_size l" using hb n l by (auto simp: log_ok_def)
  ultimately show "log_ok (read_log lu h)"
    using hb l u h n by (auto simp: log_ok_def read_log_def log_area_def)
qed

definition boots :: "nat \<Rightarrow> logst \<Rightarrow> (u32 \<Rightarrow> u32 \<Rightarrow> byte list) \<Rightarrow> kst \<Rightarrow> bool" where
  "boots q l E u \<longleftrightarrow> bc_inv q u {} {} \<and> disk u = E \<and> lg_dev (lg u) = lg_dev l \<and> lg_start (lg u) = lg_start l \<and>
     lg_size (lg u) = lg_size l \<and> length (lh_block (lg u)) = LOGSIZE"

lemma boot_recovers:
  assumes b: "boots q l E u" and l: "log_ok l"
    and hb: "head_blocks (E (lg_dev l) (lg_start l)) = [] \<and> rd32 (E (lg_dev l) (lg_start l)) 0 = 0 \<or>
      head_blocks (E (lg_dev l) (lg_start l)) = logged l \<and> sint (rd32 (E (lg_dev l) (lg_start l)) 0) = int (length (logged l))"
  shows "\<exists>w. recover_from_log u = Ok w \<and> bc_inv q w {} {} \<and> lh_n (lg w) = 0 \<and> log_ok (lg w) \<and>
    dwrites w = dwrites u @ recover_writes (lg_dev l) (lg_start l) E @
      [(lg_dev l, lg_start l, head_bytes (E (lg_dev l) (lg_start l)) [])] \<and>
    (\<forall>e m. \<not> (e = lg_dev l \<and> log_area l m) \<longrightarrow> disk w e m = recover_disk (lg_dev l) (lg_start l) E e m)"
proof -
  note u = b [unfolded boots_def]
  let ?h = "E (lg_dev l) (lg_start l)"
  have ok: "0 \<le> sint (rd32 ?h 0)" "length (head_blocks ?h) \<le> LOGSIZE" "log_ok (read_log (lg u) ?h)"
    using crash_header_ok [OF l hb] u by auto
  have h: "?h = disk u (lg_dev (lg u)) (lg_start (lg u))" using u by simp
  obtain w where w: "recover_from_log u = Ok w" "bc_inv q w {} {}" "lh_n (lg w) = 0" "log_ok (lg w)"
    "dwrites w = dwrites u @ recover_writes (lg_dev l) (lg_start l) E @ [(lg_dev l, lg_start l, head_bytes ?h [])]"
    "disk w = apply_writes E (recover_writes (lg_dev l) (lg_start l) E @ [(lg_dev l, lg_start l, head_bytes ?h [])])"
    using recover_from_log_spec [OF _ h ok(1,3) _ ok(2)] u by auto
  have "disk w e m = recover_disk (lg_dev l) (lg_start l) E e m" if "\<not> (e = lg_dev l \<and> log_area l m)" for e m
    using that start_in_area(1) [OF l] by (auto simp: w(6) put_blk_apply recover_disk_def)
  then show ?thesis using w(1-5) by blast
qed

section \<open>Transactions\<close>

text \<open>The state between two operations of a transaction: \<open>H\<close> are the buffers locked at the moment.\<close>

definition log_inv :: "nat \<Rightarrow> kst \<Rightarrow> nat set \<Rightarrow> bool" where
  "log_inv p s H \<longleftrightarrow> bc_inv p s H (log_pins (lg s) s) \<and> log_ok (lg s) \<and> all_cached (lg s) s"

lemma log_pins_card:
  assumes "bc_inv p s H P" "log_ok (lg s)"
  shows "card (log_pins (lg s) s) \<le> nat (lh_n (lg s))"
proof -
  have d: "lg_dev (lg s) \<noteq> 0" using assms(2) by (simp add: log_ok_def)
  have "inj_on (\<lambda>i. bblockno (bufs s i)) (log_pins (lg s) s)"
  proof (rule inj_onI)
    fix i j assume "i \<in> log_pins (lg s) s" "j \<in> log_pins (lg s) s" "bblockno (bufs s i) = bblockno (bufs s j)"
    then show "i = j" using bc_invD(7) [OF assms(1), of i j] d by (simp add: log_pins_def)
  qed
  then have "card (log_pins (lg s) s) = card ((\<lambda>i. bblockno (bufs s i)) ` log_pins (lg s) s)" by (simp add: card_image)
  also have "\<dots> \<le> card (set (logged (lg s)))" by (intro card_mono) (auto simp: log_pins_def)
  also have "\<dots> \<le> length (logged (lg s))" by (rule card_length)
  finally show ?thesis using logged_length [OF assms(2)] by simp
qed

lemma logged_snoc:
  assumes "length (lh_block l) = LOGSIZE" "0 \<le> lh_n l" "lh_n l < int LOGSIZE"
  shows "logged (l\<lparr>lh_block := (lh_block l)[nat (lh_n l) := n], lh_n := lh_n l + 1\<rparr>) = logged l @ [n]"
proof -
  have "nat (lh_n l + 1) = Suc (nat (lh_n l))" "nat (lh_n l) < length (lh_block l)" using assms by auto
  then show ?thesis by (simp add: logged_def take_Suc_conv_app_nth)
qed

lemma takeWhile_short: "x \<in> set xs \<Longrightarrow> \<not> Q x \<Longrightarrow> length (takeWhile Q xs) < length xs"
  by (induction xs) auto

lemma log_slot_cases:
  assumes "length (lh_block l) = LOGSIZE" "0 \<le> lh_n l" "lh_n l \<le> int LOGSIZE"
  shows "n \<notin> set (logged l) \<Longrightarrow> log_slot l n = nat (lh_n l)"
    "n \<in> set (logged l) \<Longrightarrow> log_slot l n < nat (lh_n l) \<and> (lh_block l)[log_slot l n := n] = lh_block l"
proof -
  have len: "length (logged l) = nat (lh_n l)" using assms by (simp add: logged_def)
  show "log_slot l n = nat (lh_n l)" if "n \<notin> set (logged l)"
  proof -
    have "takeWhile (\<lambda>x. x \<noteq> n) (logged l) = logged l" using that by (auto simp: takeWhile_eq_all_conv)
    then have "length (takeWhile (\<lambda>x. x \<noteq> n) (logged l)) = length (logged l)" by (rule arg_cong)
    then show ?thesis using len by (simp add: log_slot_def logged_def [symmetric])
  qed
  assume "n \<in> set (logged l)"
  then have s: "log_slot l n < length (logged l)" unfolding log_slot_def logged_def [symmetric]
    by (rule takeWhile_short) simp
  then have "logged l ! log_slot l n = n" using nth_length_takeWhile [of "\<lambda>x. x \<noteq> n" "logged l"]
    by (simp add: log_slot_def logged_def [symmetric])
  then have "lh_block l ! log_slot l n = n" using s len by (simp add: logged_def)
  then show "log_slot l n < nat (lh_n l) \<and> (lh_block l)[log_slot l n := n] = lh_block l"
    using s len by (metis list_update_id)
qed

text \<open>\<open>log_write\<close> of a locked buffer inside a transaction with room in the log.\<close>

definition log_add :: "logst \<Rightarrow> u32 \<Rightarrow> logst" where
  "log_add l n = (if n \<in> set (logged l) then l
     else l\<lparr>lh_block := (lh_block l)[nat (lh_n l) := n], lh_n := lh_n l + 1\<rparr>)"

lemma logged_add:
  assumes "log_ok l" "lh_n l < int LOGSIZE"
  shows "set (logged (log_add l n)) = insert n (set (logged l))" "lh_n (log_add l n) \<le> lh_n l + 1"
    "lg_dev (log_add l n) = lg_dev l" "lg_start (log_add l n) = lg_start l" "lg_size (log_add l n) = lg_size l"
    "outstanding (log_add l n) = outstanding l" "committing (log_add l n) = committing l" "lh_n l \<le> lh_n (log_add l n)"
  using logged_snoc [of l n] assms by (auto simp: log_add_def log_ok_def)

lemma log_ok_add:
  assumes "log_ok l" "lh_n l < int LOGSIZE" "lh_n l < lg_size l - 1" "\<not> log_area l n"
  shows "log_ok (log_add l n)"
proof (cases "n \<in> set (logged l)")
  case False
  then show ?thesis using assms logged_snoc [of l n] by (auto simp: log_add_def log_ok_def log_area_def)
qed (use assms in \<open>simp add: log_add_def\<close>)

lemma bpin_locked:
  assumes "held (sch s) = [LkLog]"
  shows "bpin b s = Ok (upd_buf b (\<lambda>r. r\<lparr>brefcnt := brefcnt r + 1\<rparr>) s)"
proof -
  have "(sch s)\<lparr>held := [LkLog]\<rparr> = sch s" using assms by simp
  then show ?thesis using assms by (simp add: bpin_def)
qed

lemma log_write_spec:
  assumes inv: "log_inv p s H" and b: "b \<in> H" "bdev (bufs s b) = lg_dev (lg s)" "\<not> log_area (lg s) (bblockno (bufs s b))"
    and room: "lh_n (lg s) < int LOGSIZE" "lh_n (lg s) < lg_size (lg s) - 1" "1 \<le> outstanding (lg s)"
  defines "n \<equiv> bblockno (bufs s b)"
  shows "\<exists>t. log_write b s = Ok t \<and> log_inv p t H \<and> lg t = log_add (lg s) n \<and> io_step (s\<lparr>lg := log_add (lg s) n\<rparr>) t \<and>
    disk t = disk s \<and> dwrites t = dwrites s \<and> (\<forall>d m. blk t d m = blk s d m) \<and> b \<in> log_pins (lg t) t \<and>
    (\<forall>i. bdev (bufs t i) = bdev (bufs s i) \<and> bblockno (bufs t i) = bblockno (bufs s i) \<and> bdata (bufs t i) = bdata (bufs s i))"
proof -
  let ?l = "lg s" and ?P = "log_pins (lg s) s"
  have I: "bc_inv p s H ?P" "log_ok ?l" "all_cached ?l s" using inv by (auto simp: log_inv_def)
  note D = bc_invD [OF I(1)]
  have L: "length (lh_block ?l) = LOGSIZE" "0 \<le> lh_n ?l" "lh_n ?l \<le> int LOGSIZE" using I(2) by (auto simp: log_ok_def)
  have h: "held (sch s) = []" "(sch s)\<lparr>held := []\<rparr> = sch s" using D(2) by simp_all
  have bN: "b < NBUF" by (rule D(3) [OF b(1)])
  have okadd: "log_ok (log_add ?l n)" by (rule log_ok_add [OF I(2) room(1,2)]) (use b(3) in \<open>simp add: n_def\<close>)
  show ?thesis
  proof (cases "n \<in> set (logged ?l)")
    case True
    note sl = log_slot_cases(2) [OF L True]
    have e: "upd_log (\<lambda>l. l\<lparr>lh_block := (lh_block l)[log_slot ?l n := n]\<rparr>) s = s" using sl by (simp add: upd_log_def)
    have "int (log_slot ?l n) \<noteq> lh_n ?l" using sl by linarith
    then have "log_write b s = Ok s"
      using h room sl e by (simp add: log_write_def n_def [symmetric] Let_def upd_log_def)
    moreover have "b \<in> ?P" using True bN b(2) by (simp add: log_pins_def n_def)
    ultimately show ?thesis using inv True by (intro exI [of _ s]) (simp add: log_add_def)
  next
    case False
    have bP: "b \<notin> ?P" using False by (simp add: log_pins_def n_def)
    let ?t = "upd_log (\<lambda>_. log_add ?l n) (upd_buf b (\<lambda>r. r\<lparr>brefcnt := brefcnt r + 1\<rparr>) s)"
    have sl: "log_slot ?l n = nat (lh_n ?l)" by (rule log_slot_cases(1) [OF L False])
    have run: "log_write b s = Ok ?t"
      using h room False L(2) bpin_locked [of "s\<lparr>sch := (sch s)\<lparr>held := [LkLog]\<rparr>, lg := ?l\<lparr>lh_block := (lh_block ?l)[nat (lh_n ?l) := n]\<rparr>\<rparr>"]
      by (simp add: log_write_def n_def [symmetric] sl Let_def log_add_def) (simp add: upd_log_def upd_buf_def)
    have pins: "log_pins (log_add ?l n) ?t = insert b ?P"
    proof -
      have "i = b" if "i < NBUF" "bdev (bufs s i) = lg_dev ?l" "bblockno (bufs s i) = n" for i
        using D(7) [OF that(1) bN] that b(2) I(2) by (simp add: n_def log_ok_def)
      then show ?thesis using logged_add [OF I(2) room(1), of n] bN b(2) by (auto simp: log_pins_def n_def)
    qed
    have "bc_inv p (upd_buf b (\<lambda>r. r\<lparr>brefcnt := brefcnt r + 1\<rparr>) s) H (insert b ?P)" using pin_spec(1) [OF I(1) b(1) bP] by blast
    then have "bc_inv p ?t H (log_pins (lg ?t) ?t)" using pins by simp
    moreover have "all_cached (log_add ?l n) ?t"
      using I(3) logged_add [OF I(2) room(1), of n] bN b(2) by (auto simp: all_cached_def n_def)
    moreover have "io_step (s\<lparr>lg := log_add ?l n\<rparr>) ?t"
      using io_step_upd_log [OF io_step_buf, of "\<lambda>_. log_add ?l n" s b] by (simp add: upd_log_def)
    ultimately show ?thesis using run okadd pins by (intro exI [of _ ?t]) (simp add: log_inv_def blk_refcnt)
  qed
qed

lemma bc_inv_woken:
  assumes "bc_inv p s H P" "woken (sch s) c" "runs c p" "held c = []"
  shows "bc_inv p (s\<lparr>sch := c\<rparr>) H P"
proof -
  obtain xs where xs: "lru s xs" "set xs = {..<NBUF}" using bc_invD(14) [OF assms(1)] by blast
  have own: "own_sleeplock (ChSleepBuf i) (s\<lparr>sch := c\<rparr>)" if "i \<in> H" for i
    using woken_sel(1) [OF assms(2)] woken_sel(9) [OF assms(2)]
    by (intro own_sleeplock_frame [OF bc_invD(10) [OF assms(1) that]]) simp_all
  show ?thesis
  proof (rule bc_invI [where xs = xs])
    fix i j show "i < NBUF \<Longrightarrow> j < NBUF \<Longrightarrow> bdev (bufs (s\<lparr>sch := c\<rparr>) i) \<noteq> 0 \<Longrightarrow> bdev (bufs (s\<lparr>sch := c\<rparr>) i) = bdev (bufs (s\<lparr>sch := c\<rparr>) j) \<Longrightarrow>
      bblockno (bufs (s\<lparr>sch := c\<rparr>) i) = bblockno (bufs (s\<lparr>sch := c\<rparr>) j) \<Longrightarrow> i = j" using bc_invD(7) [OF assms(1), of i j] by simp
    show "i \<in> H \<Longrightarrow> own_sleeplock (ChSleepBuf i) (s\<lparr>sch := c\<rparr>)" by (rule own)
  qed (use bc_invD(3-6,8,9,11-13) [OF assms(1)] xs assms(3,4) in auto)
qed

lemma blk_sch [simp]: "blk (s\<lparr>sch := c\<rparr>) d n = blk s d n"
  by (rule blk_cong) (simp_all add: has_blk_def)

lemma begin_op_ok:
  assumes "held (sch s) = []" "\<not> committing (lg s)" "lh_n (lg s) + (outstanding (lg s) + 1) * int MAXOPBLOCKS \<le> int LOGSIZE"
  shows "begin_op s = Ok (upd_log (\<lambda>l. l\<lparr>outstanding := outstanding l + 1\<rparr>) s)"
proof -
  have "(sch s)\<lparr>held := []\<rparr> = sch s" using assms(1) by simp
  then show ?thesis using assms by (simp add: begin_op_def upd_log_def)
qed

text \<open>Otherwise the caller sleeps until an operation ends.\<close>

lemma begin_op_waits:
  assumes "runs (sch s) p" "held (sch s) = []"
    "committing (lg s) \<or> lh_n (lg s) + (outstanding (lg s) + 1) * int MAXOPBLOCKS > int LOGSIZE"
  shows "begin_op s = Wait"
proof -
  obtain v where v: "sched_inv ((sch s)\<lparr>held := [LkLog]\<rparr>) v" using assms(1) by (auto simp: runs_def)
  have "\<exists>t. sleep ChLog LkLog ((sch s)\<lparr>held := [LkLog]\<rparr>) = Ok t"
    using sleep_spec(1) [OF v, of p LkLog ChLog] assms(1) by (auto simp: runs_def)
  then show ?thesis using assms(2,3) by (auto simp: begin_op_def)
qed

lemma finish_commit:
  assumes "bc_inv p s {} P"
  shows "\<exists>c. bindR (kacquire LkLog s) (\<lambda>s. bindR (kwakeup ChLog (upd_log f s)) (krelease LkLog)) = Ok (upd_log f (s\<lparr>sch := c\<rparr>)) \<and>
    bc_inv p (s\<lparr>sch := c\<rparr>) {} P \<and> woken (sch s) c"
proof -
  note D = bc_invD(1,2) [OF assms]
  obtain c where c: "wakeup (Some ChLog) ((sch s)\<lparr>held := [LkLog]\<rparr>) = Ok (c\<lparr>held := [LkLog]\<rparr>)" "runs c p" "woken (sch s) c" "held c = []"
    using locked_wakeup [OF D, of LkLog "Some ChLog"] by auto
  have "c\<lparr>held := []\<rparr> = c" using c(4) by simp
  then show ?thesis using c D(2) bc_inv_woken [OF assms c(3,2,4)]
    by (intro exI [of _ c]) (simp add: kwakeup_def onS_def upd_log_def)
qed

lemma log_inv_cleared:
  assumes "bc_inv p t {} {}" "log_ok l" "lg t = l" "lh_n l = 0"
  shows "log_inv p t {}"
  using assms by (simp add: log_inv_def log_pins_def all_cached_def logged_def)

lemma commit_writes_result:
  fixes v D :: "u32 \<Rightarrow> u32 \<Rightarrow> byte list"
  assumes l: "log_ok l" and h: "length h = BSIZE"
  shows "\<not> (e = lg_dev l \<and> log_area l m) \<Longrightarrow> apply_writes D (commit_writes l v h) e m =
      (if e = lg_dev l \<and> m \<in> set (logged l) then v (lg_dev l) m else D e m)"
    "rd32 (apply_writes D (commit_writes l v h) (lg_dev l) (lg_start l)) 0 = 0"
proof -
  let ?d = "lg_dev l" and ?st = "lg_start l" and ?bs = "logged l"
  have w: "commit_writes l v h = map (\<lambda>j. (?d, logblk l j, v ?d (?bs ! j))) [0..<length ?bs] @ (?d, ?st, head_bytes h ?bs) #
     map (\<lambda>j. (?d, ?bs ! j, v ?d (?bs ! j))) [0..<length ?bs] @ [(?d, ?st, head_bytes (head_bytes h ?bs) [])]"
    by (simp add: commit_writes_def Let_def)
  have "rd32 (head_bytes (head_bytes h ?bs) []) 0 = 0" using h by (simp add: head_bytes_def BSIZE_def)
  then show "rd32 (apply_writes D (commit_writes l v h) ?d ?st) 0 = 0" unfolding w by (simp add: apply_writes_Cons put_blk_apply)
  assume m: "\<not> (e = ?d \<and> log_area l m)"
  show "apply_writes D (commit_writes l v h) e m = (if e = ?d \<and> m \<in> set ?bs then v ?d m else D e m)"
  proof (cases "e = ?d \<and> m \<in> set ?bs")
    case True
    then obtain j where j: "j < length ?bs" "m = ?bs ! j" by (auto simp: in_set_conv_nth)
    have "m \<noteq> ?st" using start_in_area(2) [OF l] True by auto
    then show ?thesis using True j logged_inj [OF l] logged_length [OF l] unfolding w
      by (simp add: apply_writes_Cons put_blk_apply apply_writes_at [where f = "\<lambda>j. ?bs ! j"])
  next
    case False
    have "(e, m, x) \<notin> set (commit_writes l v h)" for x
      using False m logblk_facts(1) [OF l] start_in_area(1) [OF l] logged_length [OF l] unfolding w by auto
    then show ?thesis using False by (auto simp: apply_writes_other)
  qed
qed

lemma commit_effect:
  assumes inv: "log_inv p s {}" and n: "lh_n (lg s) < int NBUF" and h: "rd32 (disk s (lg_dev (lg s)) (lg_start (lg s))) 0 = 0"
  shows "\<exists>t. commit s = Ok t \<and> bc_inv p t {} {} \<and> io_step (s\<lparr>lg := (lg s)\<lparr>lh_n := 0\<rparr>\<rparr>) t \<and>
    (\<forall>e m. e \<noteq> 0 \<longrightarrow> \<not> (e = lg_dev (lg s) \<and> log_area (lg s) m) \<longrightarrow> disk t e m = blk s e m) \<and>
    rd32 (disk t (lg_dev (lg s)) (lg_start (lg s))) 0 = 0"
proof -
  have I: "bc_inv p s {} (log_pins (lg s) s)" "log_ok (lg s)" "all_cached (lg s) s" using inv by (auto simp: log_inv_def)
  show ?thesis
  proof (cases "lh_n (lg s) = 0")
    case True
    then have e: "log_pins (lg s) s = {}" "commit s = Ok s" "s\<lparr>lg := (lg s)\<lparr>lh_n := 0\<rparr>\<rparr> = s"
      by (simp_all add: log_pins_def logged_def commit_def)
    then show ?thesis using I(1) h clean_blk [of p s "{}"] by (intro exI [of _ s]) simp
  next
    case False
    then have pos: "0 < lh_n (lg s)" using I(2) by (simp add: log_ok_def)
    let ?d = "lg_dev (lg s)"
    let ?ws = "commit_writes (lg s) (blk s) (disk s ?d (lg_start (lg s)))"
    have "nat (lh_n (lg s)) < NBUF" using n by (simp add: NBUF_def MAXOPBLOCKS_def)
    then have room: "card (log_pins (lg s) s) < NBUF" using log_pins_card [OF I(1,2)] by linarith
    obtain t where t: "commit s = Ok t" "bc_inv p t {} {}" "io_step (s\<lparr>lg := (lg s)\<lparr>lh_n := 0\<rparr>\<rparr>) t" "disk t = apply_writes (disk s) ?ws"
      using commit_spec [OF I room pos] by blast
    note r = commit_writes_result [OF I(2) bc_invD(6) [OF I(1), of ?d "lg_start (lg s)"]]
    have "disk t e m = blk s e m" if "e \<noteq> 0" "\<not> (e = ?d \<and> log_area (lg s) m)" for e m
    proof -
      have "blk s e m = disk s e m" if "\<not> (e = ?d \<and> m \<in> set (logged (lg s)))"
        by (rule clean_blk [OF I(1) \<open>e \<noteq> 0\<close>]) (use that in \<open>auto simp: log_pins_def\<close>)
      then show ?thesis using r(1) [OF that(2)] unfolding t(4) by auto
    qed
    then show ?thesis using t r(2) by auto
  qed
qed

text \<open>The last \<open>end_op\<close> of a transaction commits it.\<close>

lemma end_op_commits:
  assumes inv: "log_inv p s {}" and o: "outstanding (lg s) = 1" "\<not> committing (lg s)" and n: "lh_n (lg s) < int NBUF"
    and h: "rd32 (disk s (lg_dev (lg s)) (lg_start (lg s))) 0 = 0"
  shows "\<exists>t. end_op s = Ok t \<and> log_inv p t {} \<and> lg t = (lg s)\<lparr>lh_n := 0, outstanding := 0\<rparr> \<and>
    (\<forall>e m. e \<noteq> 0 \<longrightarrow> \<not> (e = lg_dev (lg s) \<and> log_area (lg s) m) \<longrightarrow> disk t e m = blk s e m \<and> blk t e m = blk s e m) \<and>
    rd32 (disk t (lg_dev (lg s)) (lg_start (lg s))) 0 = 0 \<and> io_step (s\<lparr>lg := (lg s)\<lparr>lh_n := 0, outstanding := 0\<rparr>\<rparr>) t"
proof -
  have I: "bc_inv p s {} (log_pins (lg s) s)" "log_ok (lg s)" "all_cached (lg s) s" using inv by (auto simp: log_inv_def)
  let ?l1 = "(lg s)\<lparr>outstanding := 0, committing := True\<rparr>" and ?d = "lg_dev (lg s)"
  let ?s1 = "upd_log (\<lambda>_. ?l1) s"
  have h1: "held (sch s) = []" "(sch s)\<lparr>held := []\<rparr> = sch s" using bc_invD(2) [OF I(1)] by simp_all
  have i1: "log_inv p ?s1 {}" using I by (auto simp: log_inv_def log_ok_def log_pins_def all_cached_def logged_def log_area_def)
  from commit_effect [OF i1] n h obtain t where t: "commit ?s1 = Ok t" "bc_inv p t {} {}" "io_step (?s1\<lparr>lg := ?l1\<lparr>lh_n := 0\<rparr>\<rparr>) t"
    "\<And>e m. e \<noteq> 0 \<Longrightarrow> \<not> (e = ?d \<and> log_area (lg s) m) \<Longrightarrow> disk t e m = blk s e m" "rd32 (disk t ?d (lg_start (lg s))) 0 = 0"
    by (auto simp: log_area_def)
  have lgt: "lg t = ?l1\<lparr>lh_n := 0\<rparr>" using io_step_sel(2) [OF t(3)] by simp
  let ?l2 = "(lg s)\<lparr>lh_n := 0, outstanding := 0\<rparr>"
  from finish_commit [OF t(2), of "\<lambda>l. l\<lparr>committing := False\<rparr>"] obtain c where
    c: "bindR (kacquire LkLog t) (\<lambda>s. bindR (kwakeup ChLog (upd_log (\<lambda>l. l\<lparr>committing := False\<rparr>) s)) (krelease LkLog)) =
        Ok (upd_log (\<lambda>l. l\<lparr>committing := False\<rparr>) (t\<lparr>sch := c\<rparr>))" "bc_inv p (t\<lparr>sch := c\<rparr>) {} {}" "woken (sch t) c" by blast
  let ?u = "upd_log (\<lambda>l. l\<lparr>committing := False\<rparr>) (t\<lparr>sch := c\<rparr>)"
  have lgu: "lg ?u = ?l2" using o(2) by (simp add: lgt)
  have run: "end_op s = Ok ?u"
  proof -
    have e: "upd_log (\<lambda>l. l\<lparr>outstanding := outstanding l - 1, committing := True\<rparr>) s = ?s1" using o by (simp add: upd_log_def)
    then show ?thesis using h1 o t(1) c(1) by (simp add: end_op_def Let_def upd_log_def)
  qed
  have iu: "bc_inv p ?u {} {}" using c(2) by simp
  have lok: "log_ok ?l2" using I(2) by (auto simp: log_ok_def logged_def)
  have "blk ?u e m = disk t e m" if "e \<noteq> 0" for e m using clean_blk [OF iu that, of m] by simp
  moreover have "io_step (s\<lparr>lg := ?l2\<rparr>) ?u"
  proof -
    have "io_step t (t\<lparr>sch := c\<rparr>)" using c(3) unfolding io_step_def cache_step_def
      by (intro exI [of _ "disk t"] exI [of _ "dwrites t"] exI [of _ "bufs t"] exI [of _ "bnext t"] exI [of _ "bprev t"] exI [of _ "sl t"] exI [of _ c]) simp
    from io_step_upd_log [OF io_step_trans [OF t(3) this], of "\<lambda>l. l\<lparr>committing := False\<rparr>"]
    moreover have "(lg s)\<lparr>outstanding := 0, lh_n := 0, committing := False\<rparr> = ?l2" using o(2) by (cases "lg s") simp
    ultimately show ?thesis by (simp add: upd_log_def)
  qed
  ultimately show ?thesis using run log_inv_cleared [OF iu lok lgu] lgu t(4,5) by (intro exI [of _ ?u]) auto
qed

subsection \<open>Reading and writing a block in a transaction\<close>

lemma tx_read:
  assumes inv: "log_inv p s H" and d: "d \<noteq> 0" and room: "card H + nat (lh_n (lg s)) < NBUF"
    and ne: "\<And>i. i \<in> H \<Longrightarrow> \<not> (bdev (bufs s i) = d \<and> bblockno (bufs s i) = n)"
  shows "\<exists>b t. bread d n s = Ok (b, t) \<and> log_inv p t (insert b H) \<and> b \<notin> H \<and> cache_step s t \<and>
    bdev (bufs t b) = d \<and> bblockno (bufs t b) = n \<and> bdata (bufs t b) = blk s d n \<and> (\<forall>e m. e \<noteq> 0 \<longrightarrow> blk t e m = blk s e m) \<and>
    (\<forall>j. j \<noteq> b \<longrightarrow> bufs t j = bufs s j) \<and> (b \<in> log_pins (lg t) t \<or> blk s d n = disk s d n)"
proof -
  let ?P = "log_pins (lg s) s"
  have I: "bc_inv p s H ?P" "log_ok (lg s)" "all_cached (lg s) s" using inv by (auto simp: log_inv_def)
  have "card (H \<union> ?P) < NBUF"
    using card_Un_le [of H ?P] log_pins_card [OF I(1,2)] room by linarith
  from bread_spec [OF I(1) d disjI1 [OF this] ne] obtain b t where b: "bread d n s = Ok (b, t)" "b \<notin> H" "bc_inv p t (insert b H) ?P" "cache_step s t"
    "bdev (bufs t b) = d" "bblockno (bufs t b) = n" "bdata (bufs t b) = blk s d n" "\<forall>e m. e \<noteq> 0 \<longrightarrow> blk t e m = blk s e m"
    "\<forall>j. j \<noteq> b \<longrightarrow> bufs t j = bufs s j" "b \<in> ?P \<longrightarrow> bdev (bufs s b) = d \<and> bblockno (bufs s b) = n" "b \<in> ?P \<or> blk s d n = disk s d n" by blast
  have "same_ids ?P s t" unfolding same_ids_def using b(5,6,9,10) by metis
  from log_pins_same_ids [OF this I(1) b(3) I(3,2)] have "log_pins (lg s) t = ?P" "all_cached (lg s) t" by auto
  then show ?thesis using b I(2) cache_step_sel(4) [OF b(4)] by (intro exI [of _ b] exI [of _ t]) (simp add: log_inv_def)
qed

lemma tx_release:
  assumes inv: "log_inv p s H" and b: "b \<in> H" "b \<in> log_pins (lg s) s \<or> bdata (bufs s b) = disk s (bdev (bufs s b)) (bblockno (bufs s b))"
  shows "\<exists>t. brelse b s = Ok t \<and> log_inv p t (H - {b}) \<and> cache_step s t \<and> (\<forall>d n. blk t d n = blk s d n) \<and> (\<forall>j. j \<noteq> b \<longrightarrow> bufs t j = bufs s j)"
proof -
  let ?P = "log_pins (lg s) s"
  have I: "bc_inv p s H ?P" "log_ok (lg s)" "all_cached (lg s) s" using inv by (auto simp: log_inv_def)
  from brelse_spec [OF I(1) b] obtain t where t: "brelse b s = Ok t" "bc_inv p t (H - {b}) ?P" "cache_step s t" "\<forall>d n. blk t d n = blk s d n"
    "\<forall>j. j \<noteq> b \<longrightarrow> bufs t j = bufs s j" "bdev (bufs t b) = bdev (bufs s b)" "bblockno (bufs t b) = bblockno (bufs s b)" by blast
  have "same_ids ?P s t" unfolding same_ids_def using t(5-7) by metis
  from log_pins_same_ids [OF this I(1) t(2) I(3,2)] have "log_pins (lg s) t = ?P" "all_cached (lg s) t" by auto
  then show ?thesis using t I(2) cache_step_sel(4) [OF t(3)] by (intro exI [of _ t]) (simp add: log_inv_def)
qed

lemma tx_set:
  assumes "log_inv p s H" "b \<in> H" "length x = BSIZE"
  shows "log_inv p (upd_buf b (\<lambda>r. r\<lparr>bdata := x\<rparr>) s) H"
proof -
  have "log_pins (lg s) (upd_buf b (\<lambda>r. r\<lparr>bdata := x\<rparr>) s) = log_pins (lg s) s"
    "all_cached (lg s) (upd_buf b (\<lambda>r. r\<lparr>bdata := x\<rparr>) s) = all_cached (lg s) s"
    by (auto simp: log_pins_def all_cached_def)
  then show ?thesis using assms set_data_spec(1) [of p s H _ b x] by (simp add: log_inv_def)
qed

text \<open>Modify a block that has been read: change the data, \<open>log_write\<close>, \<open>brelse\<close>.\<close>

lemma tx_write:
  assumes inv: "log_inv p s H" and b: "b \<in> H" "bdev (bufs s b) = lg_dev (lg s)" "bblockno (bufs s b) = n" "\<not> log_area (lg s) n"
    and room: "lh_n (lg s) < int LOGSIZE" "lh_n (lg s) < lg_size (lg s) - 1" "1 \<le> outstanding (lg s)" and x: "length x = BSIZE"
  shows "\<exists>t u. log_write b (upd_buf b (\<lambda>r. r\<lparr>bdata := x\<rparr>) s) = Ok t \<and> brelse b t = Ok u \<and> log_inv p u (H - {b}) \<and> lg u = log_add (lg s) n \<and>
    io_step (s\<lparr>lg := log_add (lg s) n\<rparr>) u \<and> disk u = disk s \<and> dwrites u = dwrites s \<and>
    (\<forall>e m. e \<noteq> 0 \<longrightarrow> blk u e m = (if e = lg_dev (lg s) \<and> m = n then x else blk s e m)) \<and>
    (\<forall>j. j \<noteq> b \<longrightarrow> bdev (bufs u j) = bdev (bufs s j) \<and> bblockno (bufs u j) = bblockno (bufs s j) \<and> bdata (bufs u j) = bdata (bufs s j))"
proof -
  let ?s = "upd_buf b (\<lambda>r. r\<lparr>bdata := x\<rparr>) s"
  have I: "bc_inv p s H (log_pins (lg s) s)" using inv by (simp add: log_inv_def)
  from log_write_spec [OF tx_set [OF inv b(1) x] b(1)] b(2,3,4) room obtain t where
    t: "log_write b ?s = Ok t" "log_inv p t H" "lg t = log_add (lg s) n" "io_step (?s\<lparr>lg := log_add (lg s) n\<rparr>) t"
      "disk t = disk s" "dwrites t = dwrites s" "\<And>d m. blk t d m = blk ?s d m" "b \<in> log_pins (lg t) t"
      "\<And>i. bdev (bufs t i) = bdev (bufs ?s i) \<and> bblockno (bufs t i) = bblockno (bufs ?s i) \<and> bdata (bufs t i) = bdata (bufs ?s i)" by auto
  from tx_release [OF t(2) b(1)] t(8) obtain u where
    u: "brelse b t = Ok u" "log_inv p u (H - {b})" "cache_step t u" "\<forall>d n. blk u d n = blk t d n" "\<forall>j. j \<noteq> b \<longrightarrow> bufs u j = bufs t j" by blast
  have "io_step (s\<lparr>lg := log_add (lg s) n\<rparr>) (?s\<lparr>lg := log_add (lg s) n\<rparr>)" by (rule io_step_log [OF io_step_buf])
  from io_step_trans [OF this io_step_trans [OF t(4) io_step_cache [OF u(3)]]]
  have st: "io_step (s\<lparr>lg := log_add (lg s) n\<rparr>) u" .
  have "blk u e m = (if e = lg_dev (lg s) \<and> m = n then x else blk s e m)" if "e \<noteq> 0" for e m
    using u(4) t(7) set_data_spec(2) [OF I b(1) x that, of m] b(2,3) by simp
  then show ?thesis using t u st t(9) cache_step_sel(2,3,4) [OF u(3)] by (intro exI [of _ t] exI [of _ u]) auto
qed

section \<open>Properties\<close>


text \<open>A transaction with one modified block, used as an example.\<close>

lemma binit_lg [simp]: "lg (binit s) = lg s"
proof -
  let ?f = "\<lambda>b s. link_first b (s\<lparr>sl := initsleeplock (ChSleepBuf b) (sl s)\<rparr>)"
  have "lg (fold ?f xs u) = lg u" for xs u by (induction xs arbitrary: u) (auto simp: link_first_def Let_def)
  then show ?thesis by (simp add: binit_def)
qed

lemma sample_lg: "lg (sample_kst h) = \<lparr>lg_start = 2, lg_size = 30, outstanding = 0, committing = False, lg_dev = 1, lh_n = 0, lh_block = replicate 30 0\<rparr>"
  "disk (sample_kst h) d n = replicate BSIZE (if n = 2 then 0 else ucast n)" "held (sch (sample_kst h)) = held (sample_sst h)"
  by (simp_all add: sample_kst_def)

lemma one_write_example:
  "\<exists>s. log_inv 0 s {} \<and> lh_n (lg s) = 1 \<and> outstanding (lg s) = 1 \<and> \<not> committing (lg s) \<and> lg_dev (lg s) = 1 \<and> lg_start (lg s) = 2 \<and>
     lg_size (lg s) = 30 \<and> rd32 (disk s 1 2) 0 = 0 \<and> blk s 1 100 = replicate BSIZE 9 \<and> disk s 1 100 = replicate BSIZE 100"
proof -
  obtain h where h: "runs (sample_sst h) 0" using sample_runs by blast
  let ?s = "binit (sample_kst h)"
  have b: "bc_inv 0 ?s {} {}" "blk ?s 1 100 = replicate BSIZE 100" "disk ?s 1 100 = replicate BSIZE 100"
    using binit_inv(1) [of "sample_kst h" 0] binit_inv(2) [of "sample_kst h" 0 1 100] h by (auto simp: sample_kst_def)
  have ok: "log_ok (lg ?s)" by (simp add: log_ok_def sample_lg logged_def LOGSIZE_def MAXOPBLOCKS_def)
  have i: "log_inv 0 ?s {}" by (rule log_inv_cleared [OF b(1) ok refl]) (simp add: sample_lg)
  let ?s1 = "upd_log (\<lambda>l. l\<lparr>outstanding := outstanding l + 1\<rparr>) ?s"
  have i1: "log_inv 0 ?s1 {}" using i by (auto simp: log_inv_def log_ok_def log_pins_def all_cached_def logged_def log_area_def)
  have l1: "lg ?s1 = (lg (sample_kst h))\<lparr>outstanding := 1\<rparr>" by (simp add: sample_lg)
  obtain c s2 where c: "bread 1 100 ?s1 = Ok (c, s2)" "log_inv 0 s2 {c}" "cache_step ?s1 s2" "bdev (bufs s2 c) = 1" "bblockno (bufs s2 c) = 100"
    using tx_read [OF i1, of 1 100] by (auto simp: l1 sample_lg NBUF_def MAXOPBLOCKS_def)
  have l2: "lg s2 = (lg (sample_kst h))\<lparr>outstanding := 1\<rparr>" "disk s2 = disk ?s" using cache_step_sel(2,4) [OF c(3)] l1 by simp_all
  have "\<not> log_area (lg s2) 100" by (simp add: l2 log_area_def sample_lg)
  from tx_write [where b = c and x = "replicate BSIZE 9", OF c(2) _ _ c(5) this] c(4) obtain u where
    u: "log_inv 0 u {}" "lg u = log_add (lg s2) 100" "disk u = disk s2" "\<And>e m. e \<noteq> 0 \<Longrightarrow> blk u e m = (if e = 1 \<and> m = 100 then replicate BSIZE 9 else blk s2 e m)"
    by (auto simp: l2 sample_lg LOGSIZE_def MAXOPBLOCKS_def)
  have "rd32 (disk ?s 1 2) 0 = 0" by (simp add: sample_lg rd32_def BSIZE_def)
  then show ?thesis using u b(3) by (intro exI [of _ u]) (simp add: l2 log_add_def logged_def sample_lg LOGSIZE_def MAXOPBLOCKS_def)
qed


text \<open>
  C19.  A crash during recovery is harmless: recovery writes the home blocks and then clears the
  header, and from the disk after any number of these writes a second recovery produces the
  same contents outside the log area.
\<close>

theorem recovery_crash_safe:
  assumes l: "log_ok l" and c: "committed l v E" and u: "boots q l E u"
    and len: "length (E (lg_dev l) (lg_start l)) = BSIZE" "sint (rd32 (E (lg_dev l) (lg_start l)) 0) = int (length (logged l))"
  shows "\<exists>w ws. recover_from_log u = Ok w \<and> dwrites w = dwrites u @ ws \<and>
    (\<forall>e m. \<not> (e = lg_dev l \<and> log_area l m) \<longrightarrow> disk w e m = (if e = lg_dev l \<and> m \<in> set (logged l) then v m else E e m)) \<and>
    (\<forall>k r x. boots r l (apply_writes E (take k ws)) x \<longrightarrow>
      (\<exists>y. recover_from_log x = Ok y \<and>
        (\<forall>e m. \<not> (e = lg_dev l \<and> log_area l m) \<longrightarrow> disk y e m = disk w e m)))"
proof -
  let ?d = "lg_dev l" and ?st = "lg_start l" and ?bs = "logged l" and ?h = "E (lg_dev l) (lg_start l)"
  have hb: "head_blocks ?h = ?bs" using c by (simp add: committed_def)
  obtain w where w: "recover_from_log u = Ok w" "dwrites w = dwrites u @ recover_writes ?d ?st E @ [(?d, ?st, head_bytes ?h [])]"
    "\<forall>e m. \<not> (e = ?d \<and> log_area l m) \<longrightarrow> disk w e m = recover_disk ?d ?st E e m"
    using boot_recovers [OF u l] hb len(2) by auto
  let ?ws = "recover_writes ?d ?st E @ [(?d, ?st, head_bytes ?h [])]"
  have home: "e = ?d \<and> m \<in> set ?bs" if "(e, m, x) \<in> set (take k (recover_writes ?d ?st E))" for e m x k
    using in_set_takeD [OF that] hb by (auto simp: recover_writes_def Let_def)
  have again: "\<exists>y. recover_from_log x = Ok y \<and> (\<forall>e m. \<not> (e = ?d \<and> log_area l m) \<longrightarrow> disk y e m = disk w e m)"
    if x: "boots r l (apply_writes E (take k ?ws)) x" for k r x
  proof (cases "k \<le> length (recover_writes ?d ?st E)")
    case True
    let ?F = "apply_writes E (take k (recover_writes ?d ?st E))"
    have F: "take k ?ws = take k (recover_writes ?d ?st E)" using True by simp
    have cF: "committed l v ?F" by (rule committed_home [OF l c]) (rule home)
    have st: "?F ?d ?st = ?h"
    proof (rule apply_writes_other)
      show "(?d, ?st, z) \<notin> set (take k (recover_writes ?d ?st E))" for z using home [of ?d ?st z k] start_in_area(2) [OF l] by blast
    qed
    obtain y where y: "recover_from_log x = Ok y" "\<forall>e m. \<not> (e = ?d \<and> log_area l m) \<longrightarrow> disk y e m = recover_disk ?d ?st ?F e m"
      using boot_recovers [OF x [unfolded F] l] hb len(2) st by auto
    have "?F e m = E e m" if "\<not> (e = ?d \<and> m \<in> set ?bs)" for e m
      by (rule apply_writes_other) (use home that in blast)
    then show ?thesis using y w(3) recover_committed [OF l c] recover_committed [OF l cF] by (intro exI [of _ y]) auto
  next
    case False
    then have F: "take k ?ws = ?ws" by simp
    let ?F = "apply_writes E ?ws"
    have z: "head_blocks (?F ?d ?st) = [] \<and> rd32 (?F ?d ?st) 0 = 0"
      using head_blocks_bytes [of "[]" ?h] len(1) by (simp add: put_blk_apply head_bytes_def BSIZE_def)
    obtain y where y: "recover_from_log x = Ok y" "\<forall>e m. \<not> (e = ?d \<and> log_area l m) \<longrightarrow> disk y e m = recover_disk ?d ?st ?F e m"
      using boot_recovers [OF x [unfolded F] l] z by auto
    have "recover_disk ?d ?st ?F e m = recover_disk ?d ?st E e m" if "\<not> (e = ?d \<and> log_area l m)" for e m
      using that start_in_area(1) [OF l] recover_none [of ?F ?d ?st] z by (auto simp: recover_disk_def put_blk_apply)
    then show ?thesis using y w(3) by (intro exI [of _ y]) auto
  qed
  show ?thesis using w recover_committed [OF l c] again by (intro exI [of _ w] exI [of _ ?ws]) auto
qed

theorem recovery_crash_safe_witness:
  "\<exists>u w. recover_from_log u = Ok w \<and> disk u 1 100 = replicate BSIZE 100 \<and> disk w 1 100 = replicate BSIZE 3"
proof -
  obtain h where h: "runs (sample_sst h) 0" using sample_runs by blast
  let ?s = "sample_kst h" and ?x = "replicate BSIZE (0::byte)"
  let ?E = "put_blk (disk ?s) 1 2 (head_bytes ?x [100])" and ?l = "(lg ?s)\<lparr>lh_n := 1, lh_block := 100 # replicate 29 0\<rparr>"
  let ?u = "binit (?s\<lparr>disk := ?E\<rparr>)"
  have l: "log_ok ?l" "logged ?l = [100]" "\<not> log_area ?l 100"
    by (auto simp: log_ok_def sample_lg logged_def LOGSIZE_def MAXOPBLOCKS_def log_area_def)
  have E: "?E 1 2 = head_bytes ?x [100]" "?E 1 3 = replicate BSIZE 3" "?E 1 100 = replicate BSIZE 100" by (simp_all add: put_blk_def sample_lg)
  have hb: "head_blocks (head_bytes ?x [100]) = [100]" "sint (rd32 (head_bytes ?x [100]) 0) = 1"
    using head_blocks_bytes [of "[100]" ?x] head_count [of "[100]" ?x] by (simp_all add: LOGSIZE_def MAXOPBLOCKS_def)
  have len: "length (?E d n) = BSIZE" for d n by (simp add: put_blk_def sample_lg)
  have "bc_inv 0 ?u {} {}" using binit_inv(1) [of "?s\<lparr>disk := ?E\<rparr>" 0] h len by (simp add: sample_kst_def)
  then have b: "boots 0 ?l ?E ?u" by (simp add: boots_def sample_lg LOGSIZE_def MAXOPBLOCKS_def)
  have c: "committed ?l (\<lambda>_. replicate BSIZE 3) ?E" using E hb(1) l(2) by (simp add: committed_def sample_lg logblk_def)
  obtain w where "recover_from_log ?u = Ok w" "disk w 1 100 = replicate BSIZE 3"
    using recovery_crash_safe [OF l(1) c b] E hb(2) l by (fastforce simp: sample_lg)
  then show ?thesis using E(3) by (intro exI [of _ ?u] exI [of _ w]) simp
qed

text \<open>
  Transactions: the last \<open>end_op\<close> puts every block written in the transaction on the disk,
  leaves an empty log and no operation outstanding, and keeps the invariant of log and cache.
\<close>

theorem end_op_durable:
  assumes inv: "log_inv p s {}" and o: "outstanding (lg s) = 1" "\<not> committing (lg s)" and n: "lh_n (lg s) < int NBUF"
    and h: "rd32 (disk s (lg_dev (lg s)) (lg_start (lg s))) 0 = 0"
  shows "\<exists>t. end_op s = Ok t \<and> log_inv p t {} \<and> lh_n (lg t) = 0 \<and> outstanding (lg t) = 0 \<and>
    (\<forall>e m. e \<noteq> 0 \<longrightarrow> \<not> (e = lg_dev (lg s) \<and> log_area (lg s) m) \<longrightarrow> disk t e m = blk s e m \<and> blk t e m = blk s e m)"
  using end_op_commits [OF assms] by auto

theorem end_op_durable_witness:
  "\<exists>s t. end_op s = Ok t \<and> disk s 1 100 = replicate BSIZE 100 \<and> disk t 1 100 = replicate BSIZE 9"
proof -
  obtain s where s: "log_inv 0 s {}" "lh_n (lg s) = 1" "outstanding (lg s) = 1" "\<not> committing (lg s)" "lg_dev (lg s) = 1" "lg_start (lg s) = 2" "lg_size (lg s) = 30"
    "rd32 (disk s 1 2) 0 = 0" "blk s 1 100 = replicate BSIZE 9" "disk s 1 100 = replicate BSIZE 100" using one_write_example by blast
  have "\<not> log_area (lg s) 100" using s by (simp add: log_area_def)
  then obtain t where "end_op s = Ok t" "disk t 1 100 = blk s 1 100"
    using end_op_durable [OF s(1)] s by (fastforce simp: NBUF_def MAXOPBLOCKS_def)
  then show ?thesis using s by metis
qed

end
