(* ===== verification/Pipe.thy ===== *)
theory Pipe
  imports Log
begin

text \<open>
  Pipes (\<open>kernel/pipe.c\<close>) and the ring buffers they are made of.  The counters of a ring
  buffer are words that wrap; the capacity divides the number of words, so that the position
  of a byte is its counter modulo the capacity.  \<open>piperead\<close> and \<open>pipewrite\<close> are cut where they
  sleep: they return \<open>Slept\<close> with the number of bytes moved, and are taken up again by
  \<open>piperead_resume\<close> and \<open>pipewrite_resume\<close>.  The fields of a pipe are kept apart from the
  page that holds them.
\<close>

section \<open>Ring buffers\<close>

definition ring_items :: "nat \<Rightarrow> 'a list \<Rightarrow> 'w::len word \<Rightarrow> 'w word \<Rightarrow> 'a list" where
  "ring_items cap d r w = map (\<lambda>k. d ! (unat (r + of_nat k) mod cap)) [0..<unat (w - r)]"

locale ring =
  fixes cap :: nat and ty :: "'w::len itself"
  assumes cap_pos: "0 < cap" and cap_dvd: "cap dvd 2 ^ LENGTH('w)" and cap_less: "cap < 2 ^ LENGTH('w)"
begin

lemma position: "unat (r + of_nat k :: 'w word) mod cap = (unat r + k) mod cap"
proof -
  have "unat (r + of_nat k) = (unat r + k) mod 2 ^ LENGTH('w)"
    by (simp add: unat_word_ariths(1) unsigned_of_nat take_bit_eq_mod mod_simps)
  then show ?thesis using mod_mod_cancel [OF cap_dvd] by simp
qed

lemma position_inj: "j < cap \<Longrightarrow> k < cap \<Longrightarrow> (m + j) mod cap = (m + k) mod cap \<Longrightarrow> j = k"
proof (induction j k rule: linorder_wlog)
  case (le j k)
  then have "cap dvd (m + k) - (m + j)" using mod_eq_dvd_iff_nat [of "m + j" "m + k" cap] by simp
  then have "cap dvd k - j" by simp
  then show ?case using le nat_dvd_not_less [of "k - j" cap] by force
qed simp

lemma count_put: "unat (w - r :: 'w word) < cap \<Longrightarrow> unat (w + 1 - r) = Suc (unat (w - r))"
proof -
  assume "unat (w - r) < cap"
  then have "Suc (unat (w - r)) < 2 ^ LENGTH('w)" using cap_less by linarith
  then have "unat (w - r + 1) = Suc (unat (w - r))" by (simp add: unat_word_ariths(1))
  then show ?thesis by (simp add: algebra_simps)
qed

lemma count_get: "(r :: 'w word) \<noteq> w \<Longrightarrow> Suc (unat (w - (r + 1))) = unat (w - r)"
proof -
  assume "r \<noteq> w"
  then have "w - r \<noteq> 0" by simp
  then have "0 < unat (w - r)" "unat (w - r - 1) = unat (w - r) - 1" by (simp_all add: unat_gt_0 unat_minus_one)
  then have "unat (w - r) = Suc (unat (w - r - 1))" by linarith
  then show ?thesis by (simp add: algebra_simps)
qed

lemma full_iff: "unat (w - r :: 'w word) \<le> cap \<Longrightarrow> w = r + of_nat cap \<longleftrightarrow> unat (w - r) = cap"
proof -
  have "unat (of_nat cap :: 'w word) = cap" using cap_less by (simp add: unsigned_of_nat take_bit_nat_eq_self)
  then have "w - r = of_nat cap \<longleftrightarrow> unat (w - r) = cap" by (metis word_unat_eq_iff)
  moreover have "w = r + of_nat cap \<longleftrightarrow> w - r = of_nat cap" by (auto simp: algebra_simps)
  ultimately show ?thesis by simp
qed

lemma items_length [simp]: "length (ring_items cap d r (w :: 'w word)) = unat (w - r)"
  by (simp add: ring_items_def)

lemma items_put:
  assumes "length d = cap" "unat (w - r :: 'w word) < cap"
  shows "ring_items cap (d[unat w mod cap := x]) r (w + 1) = ring_items cap d r w @ [x]"
proof -
  let ?n = "unat (w - r)"
  have w: "unat w mod cap = (unat r + ?n) mod cap" using position [of r ?n] by simp
  have "d[unat w mod cap := x] ! (unat (r + of_nat k) mod cap) = d ! (unat (r + of_nat k) mod cap)" if "k < ?n" for k
  proof -
    have "(unat r + ?n) mod cap \<noteq> (unat r + k) mod cap" using position_inj [of k ?n "unat r"] that assms(2) by auto
    then show ?thesis unfolding w position by (rule nth_list_update_neq)
  qed
  moreover have "d[unat w mod cap := x] ! (unat (r + of_nat ?n) mod cap) = x"
    using assms(1) cap_pos by (simp add: w)
  ultimately show ?thesis by (simp add: ring_items_def count_put [OF assms(2)])
qed

lemma items_get:
  assumes "(r :: 'w word) \<noteq> w"
  shows "ring_items cap d r w = d ! (unat r mod cap) # ring_items cap d (r + 1) w"
proof -
  have n: "unat (w - r) = Suc (unat (w - (r + 1)))" using count_get [OF assms] by simp
  show ?thesis unfolding ring_items_def n
    by (simp only: upt_conv_Cons [OF zero_less_Suc] list.simps map_Suc_upt [symmetric] map_map)
      (simp add: comp_def algebra_simps)
qed

end

interpretation pipe_ring: ring PIPESIZE "TYPE(32)"
  by unfold_locales (simp_all add: PIPESIZE_def)

section \<open>Pipes\<close>

datatype iocall = Done int | Slept int

definition kkilled :: "nat \<Rightarrow> kst \<Rightarrow> (bool \<times> kst) res" where
  "kkilled p s = bindR (killed p (sch s)) (\<lambda>(k, t). Ok (k \<noteq> 0, s\<lparr>sch := t\<rparr>))"

definition pipeclose :: "u64 \<Rightarrow> u64 \<Rightarrow> bool \<Rightarrow> kst \<Rightarrow> kst res" where
  "pipeclose kend pi writable s =
     bindR (kacquire (LkPipe pi) s) (\<lambda>s.
     bindR (if writable then kwakeup (ChPipeRead pi) (upd_pipe pi (\<lambda>q. q\<lparr>writeopen := False\<rparr>) s)
            else kwakeup (ChPipeWrite pi) (upd_pipe pi (\<lambda>q. q\<lparr>readopen := False\<rparr>) s)) (\<lambda>s.
     if \<not> readopen (pipes s pi) \<and> \<not> writeopen (pipes s pi)
     then bindR (krelease (LkPipe pi) s) (\<lambda>s.
          bindR (kfree kend pi (km s)) (\<lambda>m. Ok (s\<lparr>km := m\<rparr>)))
     else krelease (LkPipe pi) s))"

definition put_byte :: "byte \<Rightarrow> pipe \<Rightarrow> pipe" where
  "put_byte ch q = q\<lparr>p_data := (p_data q)[unat (nwrite q) mod PIPESIZE := ch], nwrite := nwrite q + 1\<rparr>"

text \<open>
  One turn of the loop of \<open>pipewrite\<close>.  The loop is left with \<open>Some r\<close> by a return or a sleep
  and with \<open>None\<close> at its end.
\<close>

definition pipewrite_turn ::
  "u64 \<Rightarrow> nat \<Rightarrow> u64 \<Rightarrow> int \<Rightarrow> int \<times> kst \<Rightarrow> (int \<times> kst, iocall option \<times> int \<times> kst) ctl res" where
  "pipewrite_turn pi pr addr n = (\<lambda>(i, s).
     if i < n then
       bindR (if \<not> readopen (pipes s pi) then Ok (True, s) else kkilled pr s) (\<lambda>(stop, s).
       if stop then bindR (krelease (LkPipe pi) s) (\<lambda>s. Ok (Exit (Some (Done (-1)), i, s)))
       else if nwrite (pipes s pi) = nread (pipes s pi) + of_nat PIPESIZE then
         bindR (kwakeup (ChPipeRead pi) s) (\<lambda>s.
         bindR (onS (sleep (ChPipeWrite pi) (LkPipe pi)) s) (\<lambda>s.
         Ok (Exit (Some (Slept i), i, s))))
       else
         bindR (copyin_bytes (pagetable (procs (sch s) pr)) (addr + of_int i) 1 (km s)) (\<lambda>(r, ch).
         if r = -1 then Ok (Exit (None, i, s))
         else Ok (Next (i + 1, upd_pipe pi (put_byte (hd ch)) s))))
     else Ok (Exit (None, i, s)))"

definition pipewrite_loop :: "u64 \<Rightarrow> nat \<Rightarrow> u64 \<Rightarrow> int \<Rightarrow> int \<Rightarrow> kst \<Rightarrow> (iocall \<times> kst) res" where
  "pipewrite_loop pi pr addr n i s =
     bindR (loopR (pipewrite_turn pi pr addr n) (i, s)) (\<lambda>(r, i, s).
     case r of Some c \<Rightarrow> Ok (c, s)
     | None \<Rightarrow>
         bindR (kwakeup (ChPipeRead pi) s) (\<lambda>s.
         bindR (krelease (LkPipe pi) s) (\<lambda>s. Ok (Done i, s))))"

definition pipewrite :: "u64 \<Rightarrow> u64 \<Rightarrow> int \<Rightarrow> kst \<Rightarrow> (iocall \<times> kst) res" where
  "pipewrite pi addr n s =
     bindR (deref (myproc (sch s))) (\<lambda>pr.
     bindR (kacquire (LkPipe pi) s) (pipewrite_loop pi pr addr n 0))"

definition pipewrite_resume :: "u64 \<Rightarrow> u64 \<Rightarrow> int \<Rightarrow> int \<Rightarrow> kst \<Rightarrow> (iocall \<times> kst) res" where
  "pipewrite_resume pi addr n i s =
     bindR (deref (myproc (sch s))) (\<lambda>pr.
     bindR (onS (sleep_resume (LkPipe pi)) s) (pipewrite_loop pi pr addr n i))"

definition piperead_turn ::
  "u64 \<Rightarrow> nat \<Rightarrow> u64 \<Rightarrow> int \<Rightarrow> int \<times> kst \<Rightarrow> (int \<times> kst, int \<times> kst) ctl res" where
  "piperead_turn pi pr addr n = (\<lambda>(i, s).
     if i < n then
       if nread (pipes s pi) = nwrite (pipes s pi) then Ok (Exit (i, s))
       else
         let ch = p_data (pipes s pi) ! (unat (nread (pipes s pi)) mod PIPESIZE);
             s = upd_pipe pi (\<lambda>q. q\<lparr>nread := nread q + 1\<rparr>) s
         in
         bindR (copyout_bytes (pagetable (procs (sch s) pr)) (addr + of_int i) [ch] (km s)) (\<lambda>(r, m).
         let s = s\<lparr>km := m\<rparr> in
         if r = -1 then Ok (Exit (i, s)) else Ok (Next (i + 1, s)))
     else Ok (Exit (i, s)))"

definition piperead_loop :: "u64 \<Rightarrow> nat \<Rightarrow> u64 \<Rightarrow> int \<Rightarrow> kst \<Rightarrow> (iocall \<times> kst) res" where
  "piperead_loop pi pr addr n s =
     (if nread (pipes s pi) = nwrite (pipes s pi) \<and> writeopen (pipes s pi) then
        bindR (kkilled pr s) (\<lambda>(k, s).
        if k then bindR (krelease (LkPipe pi) s) (\<lambda>s. Ok (Done (-1), s))
        else bindR (onS (sleep (ChPipeRead pi) (LkPipe pi)) s) (\<lambda>s. Ok (Slept 0, s)))
      else
        bindR (loopR (piperead_turn pi pr addr n) (0, s)) (\<lambda>(i, s).
        bindR (kwakeup (ChPipeWrite pi) s) (\<lambda>s.
        bindR (krelease (LkPipe pi) s) (\<lambda>s. Ok (Done i, s)))))"

definition piperead :: "u64 \<Rightarrow> u64 \<Rightarrow> int \<Rightarrow> kst \<Rightarrow> (iocall \<times> kst) res" where
  "piperead pi addr n s =
     bindR (deref (myproc (sch s))) (\<lambda>pr.
     bindR (kacquire (LkPipe pi) s) (piperead_loop pi pr addr n))"

definition piperead_resume :: "u64 \<Rightarrow> u64 \<Rightarrow> int \<Rightarrow> kst \<Rightarrow> (iocall \<times> kst) res" where
  "piperead_resume pi addr n s =
     bindR (deref (myproc (sch s))) (\<lambda>pr.
     bindR (onS (sleep_resume (LkPipe pi)) s) (piperead_loop pi pr addr n))"

definition pipecount :: "u64 \<Rightarrow> kst \<Rightarrow> int" where
  "pipecount pi s = sint (nread (pipes s pi))"

section \<open>The bytes in a pipe\<close>

definition pipe_items :: "pipe \<Rightarrow> byte list" where
  "pipe_items q = ring_items PIPESIZE (p_data q) (nread q) (nwrite q)"

definition pipe_ok :: "pipe \<Rightarrow> bool" where
  "pipe_ok q \<longleftrightarrow> length (p_data q) = PIPESIZE \<and> unat (nwrite q - nread q) \<le> PIPESIZE"

lemma pipe_length: "pipe_ok q \<Longrightarrow> length (pipe_items q) \<le> PIPESIZE"
  by (simp add: pipe_ok_def pipe_items_def)

lemma pipe_empty: "nread q = nwrite q \<longleftrightarrow> pipe_items q = []"
proof -
  have "nread q = nwrite q \<longleftrightarrow> unat (nwrite q - nread q) = 0" by (auto simp: unat_eq_0)
  then show ?thesis using pipe_ring.items_length [of "p_data q" "nread q" "nwrite q"] by (metis length_0_conv pipe_items_def)
qed

lemma pipe_full: "pipe_ok q \<Longrightarrow> nwrite q = nread q + of_nat PIPESIZE \<longleftrightarrow> length (pipe_items q) = PIPESIZE"
  unfolding pipe_ok_def pipe_items_def using pipe_ring.full_iff by simp

lemma put_byte_items:
  assumes "pipe_ok q" "length (pipe_items q) < PIPESIZE"
  shows "pipe_ok (put_byte b q)" "pipe_items (put_byte b q) = pipe_items q @ [b]"
proof -
  have a: "length (p_data q) = PIPESIZE" "unat (nwrite q - nread q) < PIPESIZE" using assms by (simp_all add: pipe_ok_def pipe_items_def)
  show "pipe_items (put_byte b q) = pipe_items q @ [b]"
    using pipe_ring.items_put [OF a] by (simp add: pipe_items_def put_byte_def)
  show "pipe_ok (put_byte b q)" using a pipe_ring.count_put [OF a(2)] by (simp add: pipe_ok_def put_byte_def)
qed

lemma get_byte_items:
  assumes "pipe_ok q" "pipe_items q \<noteq> []"
  shows "pipe_ok (q\<lparr>nread := nread q + 1\<rparr>)" "pipe_items q = p_data q ! (unat (nread q) mod PIPESIZE) # pipe_items (q\<lparr>nread := nread q + 1\<rparr>)"
proof -
  have ne: "nread q \<noteq> nwrite q" using assms(2) pipe_empty by blast
  show "pipe_items q = p_data q ! (unat (nread q) mod PIPESIZE) # pipe_items (q\<lparr>nread := nread q + 1\<rparr>)"
    using pipe_ring.items_get [OF ne] by (simp add: pipe_items_def)
  show "pipe_ok (q\<lparr>nread := nread q + 1\<rparr>)" using assms(1) pipe_ring.count_get [OF ne] by (simp add: pipe_ok_def)
qed

lemma fill_items:
  assumes "pipe_ok q" "length (pipe_items q) + length bs \<le> PIPESIZE"
  shows "pipe_ok (fold put_byte bs q) \<and> pipe_items (fold put_byte bs q) = pipe_items q @ bs"
  using assms
proof (induction bs arbitrary: q)
  case (Cons b bs)
  have "pipe_ok (put_byte b q)" "pipe_items (put_byte b q) = pipe_items q @ [b]" using put_byte_items [of q b] Cons.prems by auto
  then show ?case using Cons.IH [of "put_byte b q"] Cons.prems by simp
qed simp

lemma fill_sel [simp]: "readopen (fold put_byte bs q) = readopen q" "writeopen (fold put_byte bs q) = writeopen q"
  by (induction bs arbitrary: q) (auto simp: put_byte_def)

lemma drain_items:
  assumes "pipe_ok q" "k \<le> length (pipe_items q)"
  shows "pipe_ok (q\<lparr>nread := nread q + of_nat k\<rparr>) \<and> pipe_items (q\<lparr>nread := nread q + of_nat k\<rparr>) = drop k (pipe_items q)"
  using assms(2)
proof (induction k)
  case (Suc k)
  let ?q = "q\<lparr>nread := nread q + of_nat k\<rparr>"
  have I: "pipe_ok ?q" "pipe_items ?q = drop k (pipe_items q)" using Suc by auto
  then have "pipe_items ?q \<noteq> []" using Suc.prems by simp
  from get_byte_items [OF I(1) this] I(2) Suc.prems show ?case
    by (auto simp: ac_simps drop_Suc tl_drop [symmetric])
qed (use assms in simp)

lemma upd_pipe_sel [simp]:
  "pipes (upd_pipe a f s) = (pipes s)(a := f (pipes s a))" "sch (upd_pipe a f s) = sch s" "km (upd_pipe a f s) = km s"
  "upd_pipe a f (upd_pipe a g s) = upd_pipe a (\<lambda>q. f (g q)) s"
  by (simp_all add: upd_pipe_def)

lemma upd_pipe_id: "upd_pipe a (\<lambda>q. q) s = s" "upd_pipe a id s = s"
  by (simp_all add: upd_pipe_def)

lemma kkilled_no: "LkProc p \<notin> set (held (sch s)) \<Longrightarrow> kkilled p s = Ok (killed_flag (procs (sch s) p) \<noteq> 0, s)"
  by (simp add: kkilled_def killed_spec)

section \<open>Waking up with the pipe lock held\<close>

lemma wakeup_clears:
  assumes "sched_inv s v" "no_table_locks s" "wakeup ch s = Ok t"
  shows "sleepers ch t = {}"
proof -
  obtain h where "t = make_runnable (sleepers ch s) s\<lparr>lh := h\<rparr>" using wakeup_spec [OF assms(1,2), of ch] assms(3) by auto
  then show ?thesis by (auto simp: sleepers_def make_runnable_def split: if_splits)
qed

lemma pipe_wakeup:
  assumes "runs (sch s) p" "held (sch s) = [l]" "\<not> table_lock l"
  shows "\<exists>t. kwakeup c s = Ok (s\<lparr>sch := t\<rparr>) \<and> runs t p \<and> woken (sch s) t \<and> held t = [l] \<and> sleepers (Some c) t = {}"
proof -
  have n: "no_table_locks (sch s)" using assms(2,3) by (auto simp: no_table_locks_def)
  obtain v where v: "sched_inv (sch s) v" using assms(1) by (auto simp: runs_def)
  from wakeup_runs [OF assms(1) n, of "Some c"] obtain t where t: "wakeup (Some c) (sch s) = Ok t" "runs t p" "woken (sch s) t" by blast
  then show ?thesis using wakeup_clears [OF v n t(1)] woken_sel(2) [OF t(3)] assms(2)
    by (intro exI [of _ t]) (simp add: kwakeup_def onS_def)
qed

text \<open>The current process goes to sleep on a pipe and gives up the pipe lock.\<close>

definition asleep :: "nat \<Rightarrow> chan \<Rightarrow> sst \<Rightarrow> bool" where
  "asleep p c s \<longleftrightarrow> (\<exists>v. sched_inv s v) \<and> curproc s = Some p \<and> held s = [LkProc p] \<and> state (procs s p) = SLEEPING \<and> chan (procs s p) = Some c"

lemma pipe_sleep:
  assumes "runs (sch s) p" "held (sch s) = [l]" "\<not> table_lock l"
  shows "\<exists>t. onS (sleep c l) s = Ok (s\<lparr>sch := t\<rparr>) \<and> asleep p c t \<and> (\<forall>d. sleepers d t = sleepers d (sch s)) \<and> pagetable (procs t p) = pagetable (procs (sch s) p)"
proof -
  obtain v where v: "sched_inv (sch s) v" "curproc (sch s) = Some p" "p < NPROC" "state (procs (sch s) p) = RUNNING"
    using assms(1) by (auto simp: runs_def)
  have l: "l \<noteq> LkProc p" using assms(3) by auto
  let ?t = "upd_proc p (\<lambda>r. r\<lparr>chan := Some c, state := SLEEPING\<rparr>) (sch s)\<lparr>held := [LkProc p]\<rparr>"
  have "onS (sleep c l) s = Ok (s\<lparr>sch := ?t\<rparr>)" "asleep p c ?t" "pagetable (procs ?t p) = pagetable (procs (sch s) p)"
    using sleep_spec [OF v assms(2) l, of c] v(2) by (auto simp: onS_def asleep_def)
  moreover have "sleepers d ?t = sleepers d (sch s)" for d using v(2) by (auto simp: sleepers_def)
  ultimately show ?thesis by blast
qed

section \<open>The loops\<close>

lemma write_turn_byte:
  assumes "i < n" "readopen (pipes s pi)" "killed_flag (procs (sch s) p) = 0" "LkProc p \<notin> set (held (sch s))"
    "pipe_ok (pipes s pi)" "length (pipe_items (pipes s pi)) < PIPESIZE"
    "uaddr (pagetable (procs (sch s) p)) (km s) (addr + of_int i) = Some a"
  shows "pipewrite_turn pi p addr n (i, s) = Ok (Next (i + 1, upd_pipe pi (put_byte (pmem (km s) a)) s))"
proof -
  have "copyin_bytes (pagetable (procs (sch s) p)) (addr + of_int i) 1 (km s) = Ok (0, [pmem (km s) a])"
    using copyin_bytes_ok [of 1 _ "km s" "addr + of_int i"] assms(7) by (simp add: umem_def)
  then show ?thesis using assms pipe_full [OF assms(5)] by (simp add: pipewrite_turn_def kkilled_no)
qed

lemma umem_Suc: "umem pt s va (Suc k) = umem pt s va k @ [pmem s (the (uaddr pt s (va + of_nat k)))]"
  by (simp add: umem_def)

lemma write_loop:
  assumes "readopen (pipes s pi)" "killed_flag (procs (sch s) p) = 0" "LkProc p \<notin> set (held (sch s))" "pipe_ok (pipes s pi)"
    and map: "\<And>j. j < k \<Longrightarrow> uaddr (pagetable (procs (sch s) p)) (km s) (addr + of_int i + of_nat j) \<noteq> None"
    and k: "i + int k \<le> n" "length (pipe_items (pipes s pi)) + k \<le> PIPESIZE"
  shows "loopR (pipewrite_turn pi p addr n) (i, s) = loopR (pipewrite_turn pi p addr n)
    (i + int k, upd_pipe pi (fold put_byte (umem (pagetable (procs (sch s) p)) (km s) (addr + of_int i) k)) s)"
  using map k
proof (induction k)
  case (Suc k)
  let ?pt = "pagetable (procs (sch s) p)"
  let ?bs = "umem ?pt (km s) (addr + of_int i) k"
  let ?t = "upd_pipe pi (fold put_byte ?bs) s"
  obtain a where a: "uaddr ?pt (km s) (addr + of_int i + of_nat k) = Some a" using Suc.prems(1) [of k] by auto
  have l: "length ?bs = k" by (simp add: umem_def)
  have ok: "pipe_ok (pipes ?t pi)" "length (pipe_items (pipes ?t pi)) < PIPESIZE"
    using fill_items [OF assms(4), of ?bs] Suc.prems(3) l by auto
  have "pipewrite_turn pi p addr n (i + int k, ?t) = Ok (Next (i + int k + 1, upd_pipe pi (put_byte (pmem (km ?t) a)) ?t))"
    by (rule write_turn_byte) (use assms ok a Suc.prems(2) in \<open>auto simp: ac_simps\<close>)
  moreover have "uaddr ?pt (km s) (addr + (of_int i + of_nat k)) = Some a" using a by (simp add: add.assoc)
  ultimately show ?case using loopR_Next [of "pipewrite_turn pi p addr n" "(i + int k, ?t)"] Suc
    by (simp add: umem_Suc algebra_simps)
qed (simp add: umem_def upd_pipe_id)

lemma read_turn_byte:
  assumes "i < n" "pipe_ok (pipes s pi)" "pipe_items (pipes s pi) = b # bs"
    "copyout_bytes (pagetable (procs (sch s) p)) (addr + of_int i) [b] (km s) = Ok (0, m)"
  shows "piperead_turn pi p addr n (i, s) = Ok (Next (i + 1, upd_pipe pi (\<lambda>q. q\<lparr>nread := nread q + 1\<rparr>) (s\<lparr>km := m\<rparr>)))"
proof -
  have "nread (pipes s pi) \<noteq> nwrite (pipes s pi)" using assms(3) pipe_empty [of "pipes s pi"] by simp
  moreover have "p_data (pipes s pi) ! (unat (nread (pipes s pi)) mod PIPESIZE) = b"
    using get_byte_items(2) [OF assms(2)] assms(3) by simp
  ultimately show ?thesis using assms by (simp add: piperead_turn_def upd_pipe_def)
qed

lemma read_loop:
  assumes q: "pipe_ok (pipes s pi)" and st: "stable pt (km s) U" and pt: "pt = pagetable (procs (sch s) p)"
    and map: "\<And>j. j < k \<Longrightarrow> uaddr pt (km s) (addr + of_nat j) = Some (f j) \<and> f j \<in> U" and inj: "inj_on f {..<k}"
    and k: "int k \<le> n" "k \<le> length (pipe_items (pipes s pi))"
  shows "\<exists>m. loopR (piperead_turn pi p addr n) (0, s) =
      loopR (piperead_turn pi p addr n) (int k, upd_pipe pi (\<lambda>q. q\<lparr>nread := nread q + of_nat k\<rparr>) (s\<lparr>km := (km s)\<lparr>pmem := m\<rparr>\<rparr>)) \<and>
    (\<forall>j<k. m (f j) = pipe_items (pipes s pi) ! j) \<and> (\<forall>x. x \<notin> f ` {..<k} \<longrightarrow> m x = pmem (km s) x)"
  using map inj k
proof (induction k)
  case 0 then show ?case by (intro exI [of _ "pmem (km s)"]) (simp add: upd_pipe_def)
next
  case (Suc k)
  have pre: "\<And>j. j < k \<Longrightarrow> uaddr pt (km s) (addr + of_nat j) = Some (f j) \<and> f j \<in> U" "inj_on f {..<k}" "int k \<le> n" "k \<le> length (pipe_items (pipes s pi))"
    using Suc.prems by (auto intro: inj_on_subset [of f "{..<Suc k}"])
  from Suc.IH [OF pre] obtain m where m: "loopR (piperead_turn pi p addr n) (0, s) =
      loopR (piperead_turn pi p addr n) (int k, upd_pipe pi (\<lambda>q. q\<lparr>nread := nread q + of_nat k\<rparr>) (s\<lparr>km := (km s)\<lparr>pmem := m\<rparr>\<rparr>))"
    "\<forall>j<k. m (f j) = pipe_items (pipes s pi) ! j" "\<forall>x. x \<notin> f ` {..<k} \<longrightarrow> m x = pmem (km s) x" by blast
  let ?t = "upd_pipe pi (\<lambda>q. q\<lparr>nread := nread q + of_nat k\<rparr>) (s\<lparr>km := (km s)\<lparr>pmem := m\<rparr>\<rparr>)"
  let ?b = "pipe_items (pipes s pi) ! k"
  have ok: "pipe_ok (pipes ?t pi)" "pipe_items (pipes ?t pi) = ?b # drop (Suc k) (pipe_items (pipes s pi))"
    using drain_items [OF q, of k] Suc.prems(4) by (auto simp: Cons_nth_drop_Suc)
  have mU: "m x = pmem (km s) x" if "x \<notin> U" for x using that m(3) pre(1) by (metis (no_types, lifting) imageE lessThan_iff)
  have "\<exists>m'. copyout_loop pt (addr + of_nat k) [?b] ((km s)\<lparr>pmem := m\<rparr>) = Ok (0, (km s)\<lparr>pmem := m'\<rparr>) \<and>
      (\<forall>i<length [?b]. m' (f k) = [?b] ! i) \<and> (\<forall>x. x \<notin> (\<lambda>_. f k) ` {..<length [?b]} \<longrightarrow> m' x = m x)"
    by (rule copyout_loop_ok [OF st mU]) (use Suc.prems(1) [of k] in \<open>auto simp: inj_on_def\<close>)
  then obtain m' where m': "copyout_bytes pt (addr + of_nat k) [?b] ((km s)\<lparr>pmem := m\<rparr>) = Ok (0, (km s)\<lparr>pmem := m'\<rparr>)"
    "m' (f k) = ?b" "\<forall>x. x \<noteq> f k \<longrightarrow> m' x = m x" by (auto simp: copyout_bytes_loop)
  have "piperead_turn pi p addr n (int k, ?t) = Ok (Next (int k + 1, upd_pipe pi (\<lambda>q. q\<lparr>nread := nread q + 1\<rparr>) (?t\<lparr>km := (km s)\<lparr>pmem := m'\<rparr>\<rparr>)))"
    by (rule read_turn_byte [OF _ ok]) (use Suc.prems(3) m'(1) pt in auto)
  moreover have "upd_pipe pi (\<lambda>q. q\<lparr>nread := nread q + 1\<rparr>) (?t\<lparr>km := (km s)\<lparr>pmem := m'\<rparr>\<rparr>) =
      upd_pipe pi (\<lambda>q. q\<lparr>nread := nread q + of_nat (Suc k)\<rparr>) (s\<lparr>km := (km s)\<lparr>pmem := m'\<rparr>\<rparr>)"
    by (simp add: upd_pipe_def ac_simps)
  ultimately have "loopR (piperead_turn pi p addr n) (0, s) =
      loopR (piperead_turn pi p addr n) (int (Suc k), upd_pipe pi (\<lambda>q. q\<lparr>nread := nread q + of_nat (Suc k)\<rparr>) (s\<lparr>km := (km s)\<lparr>pmem := m'\<rparr>\<rparr>))"
    using m(1) loopR_Next [of "piperead_turn pi p addr n" "(int k, ?t)"] by (simp add: ac_simps)
  moreover have "m' (f j) = pipe_items (pipes s pi) ! j" if "j < Suc k" for j
  proof (cases "j = k")
    case False
    then have "f j \<noteq> f k" using inj_onD [OF Suc.prems(2), of j k] that by auto
    then show ?thesis using m'(3) m(2) that False by auto
  qed (use m' in simp)
  moreover have "m' x = pmem (km s) x" if "x \<notin> f ` {..<Suc k}" for x
    using that m'(3) m(3) by (auto simp: lessThan_Suc)
  ultimately show ?case by blast
qed

section \<open>Properties\<close>

lemma pipewrite_loop_spec:
  fixes s :: kst and pi addr :: u64 and p :: nat and n i :: int
  defines "q \<equiv> pipes s pi" and "pt \<equiv> pagetable (procs (sch s) p)"
  assumes run: "runs (sch s) p" "held (sch s) = [LkPipe pi]" and q: "pipe_ok q" "readopen q" "killed_flag (procs (sch s) p) = 0"
    and i: "i \<le> n" and map: "\<And>j. j < nat (n - i) \<Longrightarrow> uaddr pt (km s) (addr + of_int i + of_nat j) \<noteq> None"
  shows "\<exists>t. pipewrite_loop pi p addr n i s =
      Ok (if nat (n - i) \<le> PIPESIZE - length (pipe_items q) then Done n else Slept (i + int (PIPESIZE - length (pipe_items q))), t) \<and>
    pipe_ok (pipes t pi) \<and> readopen (pipes t pi) \<and>
    pipe_items (pipes t pi) = pipe_items q @ umem pt (km s) (addr + of_int i) (min (nat (n - i)) (PIPESIZE - length (pipe_items q))) \<and>
    (\<forall>a. a \<noteq> pi \<longrightarrow> pipes t a = pipes s a) \<and> km t = km s \<and> sleepers (Some (ChPipeRead pi)) (sch t) = {} \<and>
    (if nat (n - i) \<le> PIPESIZE - length (pipe_items q) then runs (sch t) p \<and> held (sch t) = [] else asleep p (ChPipeWrite pi) (sch t))"
proof -
  let ?room = "PIPESIZE - length (pipe_items q)"
  let ?k = "min (nat (n - i)) ?room"
  let ?bs = "umem pt (km s) (addr + of_int i) ?k"
  let ?u = "upd_pipe pi (fold put_byte ?bs) s"
  have len: "length ?bs = ?k" "length (pipe_items q) \<le> PIPESIZE" using pipe_length [OF q(1)] by (auto simp: umem_def)
  have lk: "LkProc p \<notin> set (held (sch s))" using run by simp
  have ok: "pipe_ok (pipes ?u pi)" "pipe_items (pipes ?u pi) = pipe_items q @ ?bs"
    using fill_items [of q ?bs] q(1) len by (auto simp: q_def)
  have loop: "loopR (pipewrite_turn pi p addr n) (i, s) = loopR (pipewrite_turn pi p addr n) (i + int ?k, ?u)"
    unfolding pt_def by (rule write_loop) (use q lk map i len in \<open>auto simp: q_def pt_def\<close>)
  have r: "runs (sch ?u) p" "held (sch ?u) = [LkPipe pi]" "\<not> table_lock (LkPipe pi)" using run by simp_all
  from pipe_wakeup [OF r, of "ChPipeRead pi"] obtain w where
    w: "kwakeup (ChPipeRead pi) ?u = Ok (?u\<lparr>sch := w\<rparr>)" "runs w p" "held w = [LkPipe pi]" "sleepers (Some (ChPipeRead pi)) w = {}" by auto
  show ?thesis
  proof (cases "nat (n - i) \<le> ?room")
    case True
    then have "i + int ?k = n" using i by simp
    then have "pipewrite_turn pi p addr n (i + int ?k, ?u) = Ok (Exit (None, n, ?u))" by (simp add: pipewrite_turn_def)
    from loopR_Exit [of "pipewrite_turn pi p addr n", OF this] loop
    have "pipewrite_loop pi p addr n i s = Ok (Done n, ?u\<lparr>sch := w\<lparr>held := []\<rparr>\<rparr>)"
      using w by (simp add: pipewrite_loop_def)
    then show ?thesis using True w ok q(2)
      by (intro exI [of _ "?u\<lparr>sch := w\<lparr>held := []\<rparr>\<rparr>"]) (auto simp: q_def sleepers_def)
  next
    case False
    then have k: "?k = ?room" "i + int ?k < n" by auto
    have full: "nwrite (pipes ?u pi) = nread (pipes ?u pi) + of_nat PIPESIZE"
      using pipe_full [OF ok(1)] ok(2) len k(1) by simp
    have ws: "runs (sch (?u\<lparr>sch := w\<rparr>)) p" "held (sch (?u\<lparr>sch := w\<rparr>)) = [LkPipe pi]" using w by simp_all
    from pipe_sleep [OF ws r(3), of "ChPipeWrite pi"] obtain z where
      z: "onS (sleep (ChPipeWrite pi) (LkPipe pi)) (?u\<lparr>sch := w\<rparr>) = Ok (?u\<lparr>sch := z\<rparr>)" "asleep p (ChPipeWrite pi) z" "\<forall>d. sleepers d z = sleepers d w" by auto
    have "pipewrite_turn pi p addr n (i + int ?k, ?u) = Ok (Exit (Some (Slept (i + int ?k)), i + int ?k, ?u\<lparr>sch := z\<rparr>))"
      using k(2) q(2,3) lk full w(1) z(1) by (simp add: pipewrite_turn_def kkilled_no q_def)
    from loopR_Exit [of "pipewrite_turn pi p addr n", OF this] loop
    have "pipewrite_loop pi p addr n i s = Ok (Slept (i + int ?k), ?u\<lparr>sch := z\<rparr>)" by (simp add: pipewrite_loop_def)
    then show ?thesis using False w z ok q(2) k(1) by (intro exI [of _ "?u\<lparr>sch := z\<rparr>"]) (auto simp: q_def)
  qed
qed

text \<open>
  C4.  \<open>pipewrite\<close> appends to the bytes in the pipe: as many of the user's bytes as fit are
  added behind those that are there, in order; when all fit the call returns their number,
  otherwise the writer sleeps on a full pipe.  In both cases no reader of the pipe is left
  asleep, and nothing else changes.
\<close>

theorem pipewrite_appends:
  fixes s :: kst and pi addr :: u64 and p :: nat and n :: int
  defines "q \<equiv> pipes s pi" and "pt \<equiv> pagetable (procs (sch s) p)"
  assumes run: "runs (sch s) p" "held (sch s) = []" and q: "pipe_ok q" "readopen q" "killed_flag (procs (sch s) p) = 0"
    and n: "0 \<le> n" and map: "\<And>j. j < nat n \<Longrightarrow> uaddr pt (km s) (addr + of_nat j) \<noteq> None"
  shows "\<exists>t. pipewrite pi addr n s =
      Ok (if nat n \<le> PIPESIZE - length (pipe_items q) then Done n else Slept (int (PIPESIZE - length (pipe_items q))), t) \<and>
    pipe_ok (pipes t pi) \<and> readopen (pipes t pi) \<and>
    pipe_items (pipes t pi) = pipe_items q @ umem pt (km s) addr (min (nat n) (PIPESIZE - length (pipe_items q))) \<and>
    (\<forall>a. a \<noteq> pi \<longrightarrow> pipes t a = pipes s a) \<and> km t = km s \<and> sleepers (Some (ChPipeRead pi)) (sch t) = {} \<and>
    (if nat n \<le> PIPESIZE - length (pipe_items q) then runs (sch t) p \<and> held (sch t) = [] else asleep p (ChPipeWrite pi) (sch t))"
proof -
  let ?s = "s\<lparr>sch := (sch s)\<lparr>held := [LkPipe pi]\<rparr>\<rparr>"
  have "curproc (sch s) = Some p" using run(1) by (simp add: runs_def)
  then have "pipewrite pi addr n s = pipewrite_loop pi p addr n 0 ?s" using run(2) by (simp add: pipewrite_def myproc_def deref_def)
  then show ?thesis using pipewrite_loop_spec [where s = ?s and p = p and pi = pi and i = 0 and n = n and addr = addr] run q n map by (simp add: q_def pt_def split del: if_split cong: if_cong)
qed

text \<open>
  C10.  \<open>piperead\<close> takes the oldest bytes out of the pipe: it copies as many as there are, at most
  \<open>n\<close>, to user memory in order, removes exactly these, and leaves no writer of the pipe asleep.
  On an empty pipe it sleeps while a writer has the pipe open and returns 0 otherwise.
\<close>

theorem piperead_takes:
  fixes s :: kst and pi addr :: u64 and p :: nat and n :: int
  defines "q \<equiv> pipes s pi" and "pt \<equiv> pagetable (procs (sch s) p)"
  defines "k \<equiv> min (nat n) (length (pipe_items q))"
  assumes run: "runs (sch s) p" "held (sch s) = []" and q: "pipe_ok q" "killed_flag (procs (sch s) p) = 0" and n: "0 \<le> n"
    and pt: "pt_ok kend 2 (pmem (km s)) pt" and map: "\<And>j. j < k \<Longrightarrow> uaddr pt (km s) (addr + of_nat j) = Some (f j)" and inj: "inj_on f {..<k}"
    and sep: "\<And>j x. j < k \<Longrightarrow> x \<in> set (pt_pages 2 (pmem (km s)) pt) \<Longrightarrow> f j \<notin> region x 4096"
  shows "if pipe_items q = [] \<and> writeopen q
    then \<exists>t. piperead pi addr n s = Ok (Slept 0, s\<lparr>sch := t\<rparr>) \<and> asleep p (ChPipeRead pi) t
    else \<exists>t. piperead pi addr n s = Ok (Done (int k), t) \<and> pipe_ok (pipes t pi) \<and> pipe_items (pipes t pi) = drop k (pipe_items q) \<and>
      umem pt (km t) addr k = take k (pipe_items q) \<and> (\<forall>x. x \<notin> f ` {..<k} \<longrightarrow> pmem (km t) x = pmem (km s) x) \<and>
      (\<forall>a. a \<noteq> pi \<longrightarrow> pipes t a = pipes s a) \<and> sleepers (Some (ChPipeWrite pi)) (sch t) = {} \<and> runs (sch t) p \<and> held (sch t) = []"
proof -
  let ?s = "s\<lparr>sch := (sch s)\<lparr>held := [LkPipe pi]\<rparr>\<rparr>"
  have c: "curproc (sch s) = Some p" using run(1) by (simp add: runs_def)
  have start: "piperead pi addr n s = piperead_loop pi p addr n ?s" using run(2) c by (simp add: piperead_def myproc_def deref_def)
  have r: "runs (sch ?s) p" "held (sch ?s) = [LkPipe pi]" "\<not> table_lock (LkPipe pi)" using run by simp_all
  show ?thesis
  proof (cases "pipe_items q = [] \<and> writeopen q")
    case True
    from pipe_sleep [OF r, of "ChPipeRead pi"] obtain z where
      z: "onS (sleep (ChPipeRead pi) (LkPipe pi)) ?s = Ok (?s\<lparr>sch := z\<rparr>)" "asleep p (ChPipeRead pi) z" by auto
    then show ?thesis using True start q pipe_empty [of q] by (auto simp: piperead_loop_def q_def kkilled_no)
  next
    case False
    let ?U = "f ` {..<k}"
    have st: "stable pt (km s) ?U" by (rule stable_user [OF pt]) (use sep in auto)
    have "\<exists>m. loopR (piperead_turn pi p addr n) (0, ?s) =
        loopR (piperead_turn pi p addr n) (int k, upd_pipe pi (\<lambda>q. q\<lparr>nread := nread q + of_nat k\<rparr>) (?s\<lparr>km := (km ?s)\<lparr>pmem := m\<rparr>\<rparr>)) \<and>
      (\<forall>j<k. m (f j) = pipe_items (pipes ?s pi) ! j) \<and> (\<forall>x. x \<notin> f ` {..<k} \<longrightarrow> m x = pmem (km ?s) x)"
      by (rule read_loop [where U = ?U and pt = pt]) (use q(1) st map inj n in \<open>auto simp: q_def pt_def k_def\<close>)
    then obtain m where m: "loopR (piperead_turn pi p addr n) (0, ?s) =
        loopR (piperead_turn pi p addr n) (int k, upd_pipe pi (\<lambda>q. q\<lparr>nread := nread q + of_nat k\<rparr>) (?s\<lparr>km := (km s)\<lparr>pmem := m\<rparr>\<rparr>))"
      "\<forall>j<k. m (f j) = pipe_items q ! j" "\<forall>x. x \<notin> ?U \<longrightarrow> m x = pmem (km s) x" by (auto simp: q_def)
    let ?u = "upd_pipe pi (\<lambda>q. q\<lparr>nread := nread q + of_nat k\<rparr>) (?s\<lparr>km := (km s)\<lparr>pmem := m\<rparr>\<rparr>)"
    have ok: "pipe_ok (pipes ?u pi)" "pipe_items (pipes ?u pi) = drop k (pipe_items q)"
      using drain_items [OF q(1), of k] by (auto simp: q_def k_def)
    have "piperead_turn pi p addr n (int k, ?u) = Ok (Exit (int k, ?u))"
      using n ok(2) pipe_empty [of "pipes ?u pi"] by (auto simp: piperead_turn_def k_def min_def)
    from loopR_Exit [of "piperead_turn pi p addr n", OF this] m(1)
    have l: "loopR (piperead_turn pi p addr n) (0, ?s) = Ok (int k, ?u)" by simp
    have ru: "runs (sch ?u) p" "held (sch ?u) = [LkPipe pi]" using run by simp_all
    from pipe_wakeup [OF ru r(3), of "ChPipeWrite pi"] obtain w where
      w: "kwakeup (ChPipeWrite pi) ?u = Ok (?u\<lparr>sch := w\<rparr>)" "runs w p" "held w = [LkPipe pi]" "sleepers (Some (ChPipeWrite pi)) w = {}" by auto
    have run: "piperead pi addr n s = Ok (Done (int k), ?u\<lparr>sch := w\<lparr>held := []\<rparr>\<rparr>)"
      using start False pipe_empty [of q] l w by (auto simp: piperead_loop_def q_def)
    have ua: "uaddr pt ((km s)\<lparr>pmem := m\<rparr>) x = uaddr pt (km s) x" for x using st m(3) by (simp add: stable_def uaddr_def)
    have "umem pt ((km s)\<lparr>pmem := m\<rparr>) addr k = take k (pipe_items q)"
      by (rule nth_equalityI) (use map m(2) in \<open>auto simp: umem_def ua k_def\<close>)
    then have "\<exists>t. piperead pi addr n s = Ok (Done (int k), t) \<and> pipe_ok (pipes t pi) \<and> pipe_items (pipes t pi) = drop k (pipe_items q) \<and>
      umem pt (km t) addr k = take k (pipe_items q) \<and> (\<forall>x. x \<notin> ?U \<longrightarrow> pmem (km t) x = pmem (km s) x) \<and>
      (\<forall>a. a \<noteq> pi \<longrightarrow> pipes t a = pipes s a) \<and> sleepers (Some (ChPipeWrite pi)) (sch t) = {} \<and> runs (sch t) p \<and> held (sch t) = []"
      using run w ok m(3) by (intro exI [of _ "?u\<lparr>sch := w\<lparr>held := []\<rparr>\<rparr>"]) (auto simp: sleepers_def)
    then show ?thesis using False by (simp only: if_False)
  qed
qed

text \<open>A process with one page of user memory at \<open>0x4000\<close>, used in examples.\<close>

lemma sample_user:
  "\<exists>s::kst. runs (sch s) 0 \<and> held (sch s) = [] \<and> killed_flag (procs (sch s) 0) = 0 \<and> pagetable (procs (sch s) 0) = 0x80001000 \<and>
     pt_ok 0x80000000 2 (pmem (km s)) 0x80001000 \<and> set (pt_pages 2 (pmem (km s)) 0x80001000) \<subseteq> {0x80001000, 0x80003000, 0x80004000} \<and>
     (\<forall>w. walkaddr 0x80001000 w (km s) = Ok (if w < MAXVA \<and> pg w = 4 then 0x80002000 else 0)) \<and> pipes s = pipes0"
proof -
  obtain h where h: "runs (sample_sst h) 0" using sample_runs by blast
  obtain m where m: "pt_ok 0x80000000 2 (pmem m) 0x80001000" "set (pt_pages 2 (pmem m) 0x80001000) \<subseteq> {0x80001000, 0x80003000, 0x80004000}"
    "\<forall>w. walkaddr 0x80001000 w m = Ok (if w < MAXVA \<and> pg w = 4 then 0x80002000 else 0)" using one_page_space by blast
  let ?t = "upd_proc 0 (\<lambda>r. r\<lparr>pagetable := 0x80001000\<rparr>) (sample_sst h)"
  obtain v where v: "sched_inv (sample_sst h) v" using h by (auto simp: runs_def)
  have "sched_inv ?t v" by (rule sched_inv_cong [OF v]) auto
  then have r: "runs ?t 0" using h by (auto simp: runs_def)
  have "killed_flag (procs ?t 0) = 0" by (simp add: sample_sst_def sample_proc_def)
  then show ?thesis using r m by (intro exI [of _ "(sample_kst h)\<lparr>sch := ?t, km := m, pipes := pipes0\<rparr>"]) simp
qed

definition sample_pipe :: pipe where
  "sample_pipe = \<lparr>p_data = [7, 8, 9] @ replicate 509 0, nread = 0, nwrite = 3, readopen = True, writeopen = True\<rparr>"

lemma sample_pipe_ok: "pipe_ok sample_pipe" "pipe_items sample_pipe = [7, 8, 9]" "readopen sample_pipe"
  by (simp_all add: sample_pipe_def pipe_ok_def pipe_items_def ring_items_def PIPESIZE_def upt_rec)

theorem pipewrite_appends_witness:
  "\<exists>s t. pipewrite 0x80006000 0x4010 2 s = Ok (Done 2, t) \<and> pipe_items (pipes s 0x80006000) = [7, 8, 9] \<and>
     length (pipe_items (pipes t 0x80006000)) = 5 \<and> take 3 (pipe_items (pipes t 0x80006000)) = [7, 8, 9]"
proof -
  obtain s :: kst where s: "runs (sch s) 0" "held (sch s) = []" "killed_flag (procs (sch s) 0) = 0" "pagetable (procs (sch s) 0) = 0x80001000"
     "\<forall>w. walkaddr 0x80001000 w (km s) = Ok (if w < MAXVA \<and> pg w = 4 then 0x80002000 else 0)" "pipes s = (\<lambda>_. sample_pipe)"
    using sample_user [of "\<lambda>_. sample_pipe"] by blast
  have u: "uaddr (pagetable (procs (sch s) 0)) (km s) (0x4010 + of_nat j) \<noteq> None" if "j < nat 2" for j
    using one_page_uaddr(2) [OF s(5), of "16 + j"] that s(4) by simp
  have q: "pipe_ok (pipes s 0x80006000)" "readopen (pipes s 0x80006000)" using s(6) sample_pipe_ok by simp_all
  from pipewrite_appends [where n = 2 and s = s and p = 0 and pi = "0x80006000" and addr = "0x4010", OF s(1,2) q s(3) _ u]
  obtain t where "pipewrite 0x80006000 0x4010 2 s = Ok (Done 2, t)" "pipe_items (pipes t 0x80006000) = [7, 8, 9] @ umem 0x80001000 (km s) 0x4010 2"
    using s(4,6) sample_pipe_ok by (auto simp: PIPESIZE_def)
  then show ?thesis using s(6) sample_pipe_ok by (intro exI [of _ s] exI [of _ t]) (simp add: umem_def)
qed

theorem piperead_takes_witness:
  "\<exists>s t. piperead 0x80006000 0x4010 2 s = Ok (Done 2, t) \<and> pipe_items (pipes s 0x80006000) = [7, 8, 9] \<and>
     pipe_items (pipes t 0x80006000) = [9] \<and> umem 0x80001000 (km t) 0x4010 2 = [7, 8]"
proof -
  obtain s :: kst where s: "runs (sch s) 0" "held (sch s) = []" "killed_flag (procs (sch s) 0) = 0" "pagetable (procs (sch s) 0) = 0x80001000"
     "pt_ok 0x80000000 2 (pmem (km s)) 0x80001000" "set (pt_pages 2 (pmem (km s)) 0x80001000) \<subseteq> {0x80001000, 0x80003000, 0x80004000}"
     "\<forall>w. walkaddr 0x80001000 w (km s) = Ok (if w < MAXVA \<and> pg w = 4 then 0x80002000 else 0)" "pipes s = (\<lambda>_. sample_pipe)"
    using sample_user [of "\<lambda>_. sample_pipe"] by blast
  let ?f = "\<lambda>i. 0x80002000 + of_nat (16 + i) :: u64"
  have u: "uaddr 0x80001000 (km s) (0x4010 + of_nat j) = Some (?f j)" if "j < 2" for j
    using one_page_uaddr(2) [OF s(7), of "16 + j"] that by simp
  have sep: "?f j \<notin> region x 4096" if "j < 2" "x \<in> set (pt_pages 2 (pmem (km s)) 0x80001000)" for j x
    using that s(6) by (intro pages_apart [OF _ _ _ one_page_uaddr(1) [OF s(7) u]]) (auto simp: example_aligned)
  have inj: "inj_on ?f {..<2}" by (auto simp: inj_on_def numeral_2_eq_2 less_Suc_eq)
  have q: "pipe_ok (pipes s 0x80006000)" using s(8) sample_pipe_ok by simp
  obtain t where "piperead 0x80006000 0x4010 2 s = Ok (Done 2, t)" "pipe_items (pipes t 0x80006000) = [9]" "umem 0x80001000 (km t) 0x4010 2 = [7, 8]"
    using piperead_takes [where s = s and p = 0 and pi = "0x80006000" and n = 2 and f = ?f and kend = "0x80000000" and addr = "0x4010", OF s(1,2) q s(3)]
      u sep inj s(4,5,8) sample_pipe_ok by (auto simp: numeral_2_eq_2)
  then show ?thesis using s(8) sample_pipe_ok by (intro exI [of _ s] exI [of _ t]) simp
qed

end
