(* ===== verification/Inode.thy ===== *)
theory Inode
  imports Pipe
begin

text \<open>
  Blocks and inodes of the file system: \<open>kernel/fs.c\<close> up to \<open>writei\<close>, with \<open>either_copyout\<close> and
  \<open>either_copyin\<close> of \<open>kernel/proc.c\<close>.  A pointer to an entry of the inode table is its index.
  The messages printed when blocks or inodes run out are not modelled.
\<close>

section \<open>Layout of the disk\<close>

definition T_DIR :: "16 word" where "T_DIR = 1"
definition T_FILE :: "16 word" where "T_FILE = 2"
definition T_DEVICE :: "16 word" where "T_DEVICE = 3"

definition DINODE :: nat where "DINODE = 64"
definition IPB :: nat where "IPB = BSIZE div DINODE"
definition BPB :: nat where "BPB = BSIZE * 8"

definition IBLOCK :: "u32 \<Rightarrow> superblock \<Rightarrow> u32" where
  "IBLOCK i b = i div of_nat IPB + sb_inodestart b"

definition BBLOCK :: "u32 \<Rightarrow> superblock \<Rightarrow> u32" where
  "BBLOCK b s = b div of_nat BPB + sb_bmapstart s"

text \<open>The fields of the on-disk inode at offset \<open>o\<close> of a block, into the in-memory inode and back.\<close>

definition dinode_off :: "u32 \<Rightarrow> nat" where
  "dinode_off i = DINODE * (unat i mod IPB)"

definition get_dinode :: "byte list \<Rightarrow> nat \<Rightarrow> inode \<Rightarrow> inode" where
  "get_dinode x d r = r\<lparr>i_type := rd16 x d, i_major := rd16 x (d + 2), i_minor := rd16 x (d + 4), i_nlink := rd16 x (d + 6),
     i_size := rd32 x (d + 8), i_addrs := map (\<lambda>k. rd32 x (d + 12 + 4 * k)) [0..<NDIRECT + 1]\<rparr>"

definition put_dinode :: "inode \<Rightarrow> nat \<Rightarrow> byte list \<Rightarrow> byte list" where
  "put_dinode r d x =
     wr32s (wr32 (wr16 (wr16 (wr16 (wr16 x d (i_type r)) (d + 2) (i_major r)) (d + 4) (i_minor r)) (d + 6) (i_nlink r)) (d + 8) (i_size r))
       (d + 12) (i_addrs r)"

section \<open>Blocks\<close>

definition readsb :: "u32 \<Rightarrow> kst \<Rightarrow> kst res" where
  "readsb dev s =
     bindR (bread dev 1 s) (\<lambda>(b, s).
     let x = bdata (bufs s b) in
     brelse b (s\<lparr>sb := \<lparr>sb_magic = rd32 x 0, sb_size = rd32 x 4, sb_nblocks = rd32 x 8, sb_ninodes = rd32 x 12, sb_nlog = rd32 x 16,
       sb_logstart = rd32 x 20, sb_inodestart = rd32 x 24, sb_bmapstart = rd32 x 28\<rparr>\<rparr>))"

definition fsinit :: "u32 \<Rightarrow> kst \<Rightarrow> kst res" where
  "fsinit dev s =
     bindR (readsb dev s) (\<lambda>s.
     if sb_magic (sb s) \<noteq> FSMAGIC then Panic ''invalid file system'' else initlog dev s)"

definition bzero :: "u32 \<Rightarrow> u32 \<Rightarrow> kst \<Rightarrow> kst res" where
  "bzero dev bno s =
     bindR (bread dev bno s) (\<lambda>(b, s).
     bindR (log_write b (upd_buf b (\<lambda>r. r\<lparr>bdata := replicate BSIZE 0\<rparr>) s)) (\<lambda>s.
     brelse b s))"

definition bmap_used :: "byte list \<Rightarrow> nat \<Rightarrow> bool" where
  "bmap_used x bi \<longleftrightarrow> x ! (bi div 8) AND push_bit (bi mod 8) 1 \<noteq> 0"

definition bmap_set :: "byte list \<Rightarrow> nat \<Rightarrow> byte list" where
  "bmap_set x bi = x[bi div 8 := x ! (bi div 8) OR push_bit (bi mod 8) 1]"

definition bmap_clear :: "byte list \<Rightarrow> nat \<Rightarrow> byte list" where
  "bmap_clear x bi = x[bi div 8 := x ! (bi div 8) AND NOT (push_bit (bi mod 8) 1)]"

text \<open>The first clear bit that the inner loop of \<open>balloc\<close> finds in the bitmap block for \<open>b\<close>.\<close>

definition free_bit :: "byte list \<Rightarrow> nat \<Rightarrow> nat \<Rightarrow> nat option" where
  "free_bit x b n = find (\<lambda>bi. \<not> bmap_used x bi) [0..<min BPB (n - b)]"

definition balloc_turn :: "u32 \<Rightarrow> u32 \<times> kst \<Rightarrow> (u32 \<times> kst, u32 \<times> kst) ctl res" where
  "balloc_turn dev = (\<lambda>(b, s).
     if b < sb_size (sb s) then
       bindR (bread dev (BBLOCK b (sb s)) s) (\<lambda>(bp, s).
       case free_bit (bdata (bufs s bp)) (unat b) (unat (sb_size (sb s))) of
         Some bi \<Rightarrow>
           bindR (log_write bp (upd_buf bp (\<lambda>r. r\<lparr>bdata := bmap_set (bdata r) bi\<rparr>) s)) (\<lambda>s.
           bindR (brelse bp s) (\<lambda>s.
           bindR (bzero dev (b + of_nat bi) s) (\<lambda>s.
           Ok (Exit (b + of_nat bi, s)))))
       | None \<Rightarrow> bindR (brelse bp s) (\<lambda>s. Ok (Next (b + of_nat BPB, s))))
     else Ok (Exit (0, s)))"

definition balloc :: "u32 \<Rightarrow> kst \<Rightarrow> (u32 \<times> kst) res" where
  "balloc dev s = loopR (balloc_turn dev) (0, s)"

definition bfree :: "u32 \<Rightarrow> u32 \<Rightarrow> kst \<Rightarrow> kst res" where
  "bfree dev b s =
     bindR (bread dev (BBLOCK b (sb s)) s) (\<lambda>(bp, s).
     let bi = unat b mod BPB in
     if \<not> bmap_used (bdata (bufs s bp)) bi then Panic ''freeing free block''
     else
       bindR (log_write bp (upd_buf bp (\<lambda>r. r\<lparr>bdata := bmap_clear (bdata r) bi\<rparr>) s)) (\<lambda>s.
       brelse bp s))"

section \<open>The inode table\<close>

definition iinit :: "kst \<Rightarrow> kst" where
  "iinit s = s\<lparr>sl := fold (\<lambda>i. initsleeplock (ChSleepInode i)) [0..<NINODE] (sl s)\<rparr>"

text \<open>The first entry in use for the inode, and the first free entry.\<close>

definition iget :: "u32 \<Rightarrow> u32 \<Rightarrow> kst \<Rightarrow> (nat \<times> kst) res" where
  "iget dev inum s =
     bindR (kacquire LkItable s) (\<lambda>s.
     case find (\<lambda>i. i_ref (inodes s i) > 0 \<and> i_dev (inodes s i) = dev \<and> i_num (inodes s i) = inum) [0..<NINODE] of
       Some i \<Rightarrow>
         bindR (krelease LkItable (upd_inode i (\<lambda>r. r\<lparr>i_ref := i_ref r + 1\<rparr>) s)) (\<lambda>s. Ok (i, s))
     | None \<Rightarrow>
         (case find (\<lambda>i. i_ref (inodes s i) = 0) [0..<NINODE] of
            None \<Rightarrow> Panic ''iget: no inodes''
          | Some i \<Rightarrow>
              bindR (krelease LkItable
                (upd_inode i (\<lambda>r. r\<lparr>i_dev := dev, i_num := inum, i_ref := 1, i_valid := False\<rparr>) s)) (\<lambda>s. Ok (i, s))))"

primrec ialloc_from :: "u32 \<Rightarrow> 16 word \<Rightarrow> nat list \<Rightarrow> kst \<Rightarrow> (nat option \<times> kst) res" where
  "ialloc_from dev ty [] s = Ok (None, s)"
| "ialloc_from dev ty (inum # inums) s =
     bindR (bread dev (IBLOCK (of_nat inum) (sb s)) s) (\<lambda>(bp, s).
     let d = dinode_off (of_nat inum) in
     if rd16 (bdata (bufs s bp)) d = 0 then
       let s = upd_buf bp (\<lambda>r. r\<lparr>bdata := wr16 (take d (bdata r) @ replicate DINODE 0 @ drop (d + DINODE) (bdata r)) d ty\<rparr>) s in
       bindR (log_write bp s) (\<lambda>s.
       bindR (brelse bp s) (\<lambda>s.
       bindR (iget dev (of_nat inum) s) (\<lambda>(i, s). Ok (Some i, s))))
     else bindR (brelse bp s) (ialloc_from dev ty inums))"

definition ialloc :: "u32 \<Rightarrow> 16 word \<Rightarrow> kst \<Rightarrow> (nat option \<times> kst) res" where
  "ialloc dev ty s = ialloc_from dev ty [1..<unat (sb_ninodes (sb s))] s"

definition iupdate :: "nat \<Rightarrow> kst \<Rightarrow> kst res" where
  "iupdate ip s =
     bindR (bread (i_dev (inodes s ip)) (IBLOCK (i_num (inodes s ip)) (sb s)) s) (\<lambda>(bp, s).
     let s = upd_buf bp (\<lambda>r. r\<lparr>bdata := put_dinode (inodes s ip) (dinode_off (i_num (inodes s ip))) (bdata r)\<rparr>) s in
     bindR (log_write bp s) (\<lambda>s.
     brelse bp s))"

definition idup :: "nat \<Rightarrow> kst \<Rightarrow> (nat \<times> kst) res" where
  "idup ip s =
     bindR (kacquire LkItable s) (\<lambda>s.
     bindR (krelease LkItable (upd_inode ip (\<lambda>r. r\<lparr>i_ref := i_ref r + 1\<rparr>) s)) (\<lambda>s. Ok (ip, s)))"

definition ilock :: "nat option \<Rightarrow> kst \<Rightarrow> kst res" where
  "ilock p s =
     (case p of None \<Rightarrow> Panic ''ilock'' | Some ip \<Rightarrow>
      if i_ref (inodes s ip) < 1 then Panic ''ilock''
      else
        bindR (kacquiresleep (ChSleepInode ip) s) (\<lambda>s.
        if \<not> i_valid (inodes s ip) then
          bindR (bread (i_dev (inodes s ip)) (IBLOCK (i_num (inodes s ip)) (sb s)) s) (\<lambda>(bp, s).
          let s = upd_inode ip (get_dinode (bdata (bufs s bp)) (dinode_off (i_num (inodes s ip)))) s in
          bindR (brelse bp s) (\<lambda>s.
          let s = upd_inode ip (\<lambda>r. r\<lparr>i_valid := True\<rparr>) s in
          if i_type (inodes s ip) = 0 then Panic ''ilock: no type'' else Ok s))
        else Ok s))"

definition iunlock :: "nat option \<Rightarrow> kst \<Rightarrow> kst res" where
  "iunlock p s =
     (case p of None \<Rightarrow> Panic ''iunlock'' | Some ip \<Rightarrow>
      bindR (kholdingsleep (ChSleepInode ip) s) (\<lambda>(mine, s).
      if \<not> mine \<or> i_ref (inodes s ip) < 1 then Panic ''iunlock''
      else kreleasesleep (ChSleepInode ip) s))"

section \<open>Inode content\<close>

definition set_addr :: "nat \<Rightarrow> nat \<Rightarrow> u32 \<Rightarrow> kst \<Rightarrow> kst" where
  "set_addr ip k a = upd_inode ip (\<lambda>r. r\<lparr>i_addrs := (i_addrs r)[k := a]\<rparr>)"

definition bmap :: "nat \<Rightarrow> u32 \<Rightarrow> kst \<Rightarrow> (u32 \<times> kst) res" where
  "bmap ip bn s =
     (if unat bn < NDIRECT then
        let addr = i_addrs (inodes s ip) ! unat bn in
        if addr = 0 then
          bindR (balloc (i_dev (inodes s ip)) s) (\<lambda>(addr, s).
          if addr = 0 then Ok (0, s) else Ok (addr, set_addr ip (unat bn) addr s))
        else Ok (addr, s)
      else
        let bn = bn - of_nat NDIRECT in
        if unat bn < NINDIRECT then
          bindR (let addr = i_addrs (inodes s ip) ! NDIRECT in
                 if addr = 0 then
                   bindR (balloc (i_dev (inodes s ip)) s) (\<lambda>(addr, s).
                   if addr = 0 then Ok (0, s) else Ok (addr, set_addr ip NDIRECT addr s))
                 else Ok (addr, s)) (\<lambda>(addr, s).
          if addr = 0 then Ok (0, s)
          else
            bindR (bread (i_dev (inodes s ip)) addr s) (\<lambda>(bp, s).
            let addr = rd32 (bdata (bufs s bp)) (4 * unat bn) in
            bindR (if addr = 0 then
                     bindR (balloc (i_dev (inodes s ip)) s) (\<lambda>(addr, s).
                     if addr \<noteq> 0 then
                       bindR (log_write bp (upd_buf bp (\<lambda>r. r\<lparr>bdata := wr32 (bdata r) (4 * unat bn) addr\<rparr>) s)) (\<lambda>s.
                       Ok (addr, s))
                     else Ok (0, s))
                   else Ok (addr, s)) (\<lambda>(addr, s).
            bindR (brelse bp s) (\<lambda>s. Ok (addr, s)))))
        else Panic ''bmap: out of range'')"

definition itrunc :: "nat \<Rightarrow> kst \<Rightarrow> kst res" where
  "itrunc ip s =
     bindR (forR (\<lambda>i s. let a = i_addrs (inodes s ip) ! i in
                if a \<noteq> 0 then bindR (bfree (i_dev (inodes s ip)) a s) (\<lambda>s. Ok (set_addr ip i 0 s)) else Ok s)
            [0..<NDIRECT] s) (\<lambda>s.
     bindR (let a = i_addrs (inodes s ip) ! NDIRECT in
            if a \<noteq> 0 then
              bindR (bread (i_dev (inodes s ip)) a s) (\<lambda>(bp, s).
              bindR (forR (\<lambda>j s. let b = rd32 (bdata (bufs s bp)) (4 * j) in
                         if b \<noteq> 0 then bfree (i_dev (inodes s ip)) b s else Ok s) [0..<NINDIRECT] s) (\<lambda>s.
              bindR (brelse bp s) (\<lambda>s.
              bindR (bfree (i_dev (inodes s ip)) (i_addrs (inodes s ip) ! NDIRECT) s) (\<lambda>s.
              Ok (set_addr ip NDIRECT 0 s)))))
            else Ok s) (\<lambda>s.
     iupdate ip (upd_inode ip (\<lambda>r. r\<lparr>i_size := 0\<rparr>) s)))"

definition iput :: "nat \<Rightarrow> kst \<Rightarrow> kst res" where
  "iput ip s =
     bindR (kacquire LkItable s) (\<lambda>s.
     bindR (if i_ref (inodes s ip) = 1 \<and> i_valid (inodes s ip) \<and> i_nlink (inodes s ip) = 0 then
              bindR (kacquiresleep (ChSleepInode ip) s) (\<lambda>s.
              bindR (krelease LkItable s) (\<lambda>s.
              bindR (itrunc ip s) (\<lambda>s.
              bindR (iupdate ip (upd_inode ip (\<lambda>r. r\<lparr>i_type := 0\<rparr>) s)) (\<lambda>s.
              bindR (kreleasesleep (ChSleepInode ip) (upd_inode ip (\<lambda>r. r\<lparr>i_valid := False\<rparr>) s)) (\<lambda>s.
              kacquire LkItable s)))))
            else Ok s) (\<lambda>s.
     krelease LkItable (upd_inode ip (\<lambda>r. r\<lparr>i_ref := i_ref r - 1\<rparr>) s)))"

definition iunlockput :: "nat \<Rightarrow> kst \<Rightarrow> kst res" where
  "iunlockput ip s = bindR (iunlock (Some ip) s) (iput ip)"

record cstat =
  st_dev :: u32
  st_ino :: u32
  st_type :: "16 word"
  st_nlink :: "16 word"
  st_size :: u64

definition stati :: "nat \<Rightarrow> kst \<Rightarrow> cstat" where
  "stati ip s = (let r = inodes s ip in
     \<lparr>st_dev = i_dev r, st_ino = i_num r, st_type = i_type r, st_nlink = i_nlink r, st_size = ucast (i_size r)\<rparr>)"

text \<open>
  Where \<open>readi\<close> puts the bytes and where \<open>writei\<close> takes them from: a user address, an address of
  kernel memory, or a local variable of the caller, which is the list of its bytes.
\<close>

datatype dest = DUser u64 | DKern u64 | DVar "byte list"
datatype source = SUser u64 | SKern u64 | SVar "byte list"

text \<open>The result holds the destination for the bytes that follow.\<close>

definition either_copyout :: "dest \<Rightarrow> byte list \<Rightarrow> kst \<Rightarrow> (int \<times> dest \<times> kst) res" where
  "either_copyout d bs s =
     bindR (deref (myproc (sch s))) (\<lambda>p.
     case d of
       DUser a \<Rightarrow> bindR (copyout_bytes (pagetable (procs (sch s) p)) a bs (km s)) (\<lambda>(r, m).
                   Ok (r, DUser (a + of_nat (length bs)), s\<lparr>km := m\<rparr>))
     | DKern a \<Rightarrow> Ok (0, DKern (a + of_nat (length bs)), s\<lparr>km := (km s)\<lparr>pmem := put_bytes (pmem (km s)) a bs\<rparr>\<rparr>)
     | DVar xs \<Rightarrow> Ok (0, DVar (xs @ bs), s))"

definition either_copyin :: "source \<Rightarrow> nat \<Rightarrow> kst \<Rightarrow> (int \<times> byte list \<times> source) res" where
  "either_copyin c n s =
     bindR (deref (myproc (sch s))) (\<lambda>p.
     case c of
       SUser a \<Rightarrow> bindR (copyin_bytes (pagetable (procs (sch s) p)) a n (km s)) (\<lambda>(r, bs). Ok (r, bs, SUser (a + of_nat n)))
     | SKern a \<Rightarrow> Ok (0, bytes_at (pmem (km s)) a n, SKern (a + of_nat n))
     | SVar xs \<Rightarrow> Ok (0, take n xs, SVar (drop n xs)))"

definition chunk_len :: "u32 \<Rightarrow> u32 \<Rightarrow> u32 \<Rightarrow> u32" where
  "chunk_len n tot off = min (n - tot) (of_nat BSIZE - off mod of_nat BSIZE)"

definition readi_turn :: "nat \<Rightarrow> u32 \<Rightarrow> u32 \<times> u32 \<times> dest \<times> kst \<Rightarrow> (u32 \<times> u32 \<times> dest \<times> kst, u32 \<times> dest \<times> kst) ctl res" where
  "readi_turn ip n = (\<lambda>(tot, off, d, s).
     if tot < n then
       bindR (bmap ip (off div of_nat BSIZE) s) (\<lambda>(addr, s).
       if addr = 0 then Ok (Exit (tot, d, s))
       else
         bindR (bread (i_dev (inodes s ip)) addr s) (\<lambda>(bp, s).
         let m = chunk_len n tot off; o' = unat off mod BSIZE in
         bindR (either_copyout d (take (unat m) (drop o' (bdata (bufs s bp)))) s) (\<lambda>(r, d, s).
         bindR (brelse bp s) (\<lambda>s.
         if r = -1 then Ok (Exit (-1, d, s))
         else Ok (Next (tot + m, off + m, d, s))))))
     else Ok (Exit (tot, d, s)))"

definition readi :: "nat \<Rightarrow> dest \<Rightarrow> u32 \<Rightarrow> u32 \<Rightarrow> kst \<Rightarrow> (int \<times> dest \<times> kst) res" where
  "readi ip d off n s =
     (let sz = i_size (inodes s ip) in
      if off > sz \<or> off + n < off then Ok (0, d, s)
      else
        let n = (if off + n > sz then sz - off else n) in
        bindR (loopR (readi_turn ip n) (0, off, d, s)) (\<lambda>(tot, d, s). Ok (sint tot, d, s)))"

definition splice_bytes :: "byte list \<Rightarrow> nat \<Rightarrow> byte list \<Rightarrow> byte list" where
  "splice_bytes x k bs = take k x @ bs @ drop (k + length bs) x"

text \<open>A copy that fails part of the way has changed the buffer.\<close>

definition writei_turn :: "nat \<Rightarrow> u32 \<Rightarrow> u32 \<times> u32 \<times> source \<times> kst \<Rightarrow> (u32 \<times> u32 \<times> source \<times> kst, u32 \<times> u32 \<times> kst) ctl res" where
  "writei_turn ip n = (\<lambda>(tot, off, c, s).
     if tot < n then
       bindR (bmap ip (off div of_nat BSIZE) s) (\<lambda>(addr, s).
       if addr = 0 then Ok (Exit (tot, off, s))
       else
         bindR (bread (i_dev (inodes s ip)) addr s) (\<lambda>(bp, s).
         let m = chunk_len n tot off; o' = unat off mod BSIZE in
         bindR (either_copyin c (unat m) s) (\<lambda>(r, bs, c).
         let s = upd_buf bp (\<lambda>b. b\<lparr>bdata := splice_bytes (bdata b) o' bs\<rparr>) s in
         if r = -1 then bindR (brelse bp s) (\<lambda>s. Ok (Exit (tot, off, s)))
         else
           bindR (log_write bp s) (\<lambda>s.
           bindR (brelse bp s) (\<lambda>s.
           Ok (Next (tot + m, off + m, c, s)))))))
     else Ok (Exit (tot, off, s)))"

definition writei :: "nat \<Rightarrow> source \<Rightarrow> u32 \<Rightarrow> u32 \<Rightarrow> kst \<Rightarrow> (int \<times> kst) res" where
  "writei ip c off n s =
     (if off > i_size (inodes s ip) \<or> off + n < off then Ok (-1, s)
      else if unat (off + n) > MAXFILE * BSIZE then Ok (-1, s)
      else
        bindR (loopR (writei_turn ip n) (0, off, c, s)) (\<lambda>(tot, off, s).
        let s = (if off > i_size (inodes s ip) then upd_inode ip (\<lambda>r. r\<lparr>i_size := off\<rparr>) s else s) in
        bindR (iupdate ip s) (\<lambda>s. Ok (sint tot, s))))"

section \<open>Reading and changing blocks in a transaction\<close>

text \<open>
  \<open>tx_step k s t\<close>: from \<open>s\<close> to \<open>t\<close> only the cache and the log have changed, with at most \<open>k\<close>
  more blocks in the log.  \<open>tx_room k H s\<close>: the log and the cache have room for \<open>k\<close> more
  blocks while the buffers \<open>H\<close> are in use.
\<close>

definition tx_step :: "nat \<Rightarrow> kst \<Rightarrow> kst \<Rightarrow> bool" where
  "tx_step k s t \<longleftrightarrow> km t = km s \<and> sb t = sb s \<and> inodes t = inodes s \<and> files t = files s \<and> pipes t = pipes s \<and> disk t = disk s \<and>
     woken (sch s) (sch t) \<and> (\<forall>i. sl t (ChSleepInode i) = sl s (ChSleepInode i)) \<and>
     lh_n (lg s) \<le> lh_n (lg t) \<and> lh_n (lg t) \<le> lh_n (lg s) + int k \<and> lg_dev (lg t) = lg_dev (lg s) \<and> lg_start (lg t) = lg_start (lg s) \<and>
     lg_size (lg t) = lg_size (lg s) \<and> outstanding (lg t) = outstanding (lg s) \<and> committing (lg t) = committing (lg s)"

definition tx_room :: "nat \<Rightarrow> nat set \<Rightarrow> kst \<Rightarrow> bool" where
  "tx_room k H s \<longleftrightarrow> 1 \<le> outstanding (lg s) \<and> lh_n (lg s) + int k + int (card H) < int NBUF \<and> lh_n (lg s) + int k < lg_size (lg s)"

lemma tx_step_refl [simp]: "tx_step k s s"
  by (simp add: tx_step_def)

lemma tx_step_trans: "tx_step j s t \<Longrightarrow> tx_step k t u \<Longrightarrow> tx_step (j + k) s u"
  by (auto simp: tx_step_def elim: woken_trans)

lemma tx_step_trans0: "tx_step 0 s t \<Longrightarrow> tx_step k t u \<Longrightarrow> tx_step k s u"
  using tx_step_trans [of 0 s t k u] by simp

lemma tx_step_mono: "tx_step j s t \<Longrightarrow> j \<le> k \<Longrightarrow> tx_step k s t"
  by (auto simp: tx_step_def)

lemma tx_room_step: "tx_room (j + k) H s \<Longrightarrow> tx_step j s t \<Longrightarrow> tx_room k H t"
  by (auto simp: tx_room_def tx_step_def)

lemma tx_room_mono: "tx_room j H s \<Longrightarrow> k \<le> j \<Longrightarrow> tx_room k H s"
  by (auto simp: tx_room_def)

lemma tx_step_cache: "cache_step s t \<Longrightarrow> tx_step 0 s t"
  by (auto simp: tx_step_def dest: cache_step_sel)

lemma tx_step_area: "tx_step k s t \<Longrightarrow> log_area (lg t) = log_area (lg s)"
  by (simp add: tx_step_def log_area_def fun_eq_iff)

lemma log_inv_frame [simp]:
  "log_inv p (s\<lparr>inodes := x\<rparr>) H = log_inv p s H" "log_inv p (s\<lparr>km := m\<rparr>) H = log_inv p s H" "log_inv p (s\<lparr>sb := y\<rparr>) H = log_inv p s H"
  "log_inv p (upd_inode i f s) H = log_inv p s H"
  by (simp_all add: log_inv_def bc_inv_def lru_def own_sleeplock_def log_pins_def all_cached_def upd_inode_def has_blk_def)

lemma blk_frame [simp]:
  "blk (s\<lparr>inodes := x\<rparr>) d n = blk s d n" "blk (s\<lparr>km := m\<rparr>) d n = blk s d n" "blk (s\<lparr>sb := y\<rparr>) d n = blk s d n"
  "blk (upd_inode i f s) d n = blk s d n"
  by (simp_all add: blk_def has_blk_def upd_inode_def split: option.split)

lemma log_inv_H: "log_inv p s H \<Longrightarrow> finite H \<and> lg_dev (lg s) \<noteq> 0 \<and> 0 \<le> lh_n (lg s) \<and> runs (sch s) p \<and> held (sch s) = []"
  by (auto simp: log_inv_def bc_inv_def log_ok_def intro: finite_subset)

lemma tx_look:
  assumes inv: "log_inv p s H" and room: "tx_room 0 H s" and d: "d \<noteq> 0"
    and ne: "\<And>i. i \<in> H \<Longrightarrow> \<not> (bdev (bufs s i) = d \<and> bblockno (bufs s i) = n)"
  shows "\<exists>b t u. bread d n s = Ok (b, t) \<and> bdata (bufs t b) = blk s d n \<and> tx_step 0 s t \<and> log_inv p t (insert b H) \<and> b \<notin> H \<and>
    bdev (bufs t b) = d \<and> bblockno (bufs t b) = n \<and>
    (\<forall>e m. e \<noteq> 0 \<longrightarrow> blk t e m = blk s e m) \<and> (\<forall>j\<in>H. bufs t j = bufs s j) \<and>
    (b \<in> log_pins (lg t) t \<or> bdata (bufs t b) = disk t (bdev (bufs t b)) (bblockno (bufs t b))) \<and>
    brelse b t = Ok u \<and> log_inv p u H \<and> tx_step 0 s u \<and> (\<forall>e m. e \<noteq> 0 \<longrightarrow> blk u e m = blk s e m) \<and> (\<forall>j\<in>H. bufs u j = bufs s j)"
proof -
  have "card H + nat (lh_n (lg s)) < NBUF" using room log_inv_H [OF inv] by (auto simp: tx_room_def)
  from tx_read [OF inv d this ne] obtain b t where b: "bread d n s = Ok (b, t)" "log_inv p t (insert b H)" "b \<notin> H" "cache_step s t"
    "bdev (bufs t b) = d" "bblockno (bufs t b) = n" "bdata (bufs t b) = blk s d n" "\<forall>e m. e \<noteq> 0 \<longrightarrow> blk t e m = blk s e m"
    "\<forall>j. j \<noteq> b \<longrightarrow> bufs t j = bufs s j" "b \<in> log_pins (lg t) t \<or> blk s d n = disk s d n" by blast
  have c: "b \<in> log_pins (lg t) t \<or> bdata (bufs t b) = disk t (bdev (bufs t b)) (bblockno (bufs t b))"
    using b(5-7,10) cache_step_sel(2) [OF b(4)] by auto
  from tx_release [OF b(2) insertI1 c] b(3) obtain u where u: "brelse b t = Ok u" "log_inv p u H" "cache_step t u"
    "\<forall>d n. blk u d n = blk t d n" "\<forall>j. j \<noteq> b \<longrightarrow> bufs u j = bufs t j" by auto
  have "tx_step 0 s u" using tx_step_trans0 [OF tx_step_cache [OF b(4)] tx_step_cache [OF u(3)]] .
  moreover have "\<forall>j\<in>H. bufs u j = bufs s j" "\<forall>j\<in>H. bufs t j = bufs s j" using b(3,9) u(5) by (metis)+
  ultimately show ?thesis using b u c tx_step_cache [OF b(4)] by (intro exI [of _ b] exI [of _ t] exI [of _ u]) simp
qed

lemma tx_modify:
  assumes inv: "log_inv p s H" and room: "tx_room (Suc k) H s" and d: "d = lg_dev (lg s)" "\<not> log_area (lg s) n"
    and ne: "\<And>i. i \<in> H \<Longrightarrow> \<not> (bdev (bufs s i) = d \<and> bblockno (bufs s i) = n)" and len: "length (f (blk s d n)) = BSIZE"
  shows "\<exists>b t u v. bread d n s = Ok (b, t) \<and> bdata (bufs t b) = blk s d n \<and> tx_step 0 s t \<and>
    log_write b (upd_buf b (\<lambda>r. r\<lparr>bdata := f (bdata r)\<rparr>) t) = Ok u \<and> brelse b u = Ok v \<and> log_inv p v H \<and> tx_room k H v \<and> tx_step 1 s v \<and>
    (\<forall>e m. e \<noteq> 0 \<longrightarrow> blk v e m = (if e = d \<and> m = n then f (blk s d n) else blk s e m)) \<and>
    (\<forall>j\<in>H. bdev (bufs v j) = bdev (bufs s j) \<and> bblockno (bufs v j) = bblockno (bufs s j) \<and> bdata (bufs v j) = bdata (bufs s j))"
proof -
  have H: "finite H" "lg_dev (lg s) \<noteq> 0" "0 \<le> lh_n (lg s)" using log_inv_H [OF inv] by auto
  have d0: "d \<noteq> 0" using d H by simp
  from tx_look [OF inv tx_room_mono [OF room le0] d0 ne] obtain b t where
    b: "bread d n s = Ok (b, t)" "bdata (bufs t b) = blk s d n" "tx_step 0 s t" "log_inv p t (insert b H)" "b \<notin> H"
       "bdev (bufs t b) = d" "bblockno (bufs t b) = n" "\<forall>e m. e \<noteq> 0 \<longrightarrow> blk t e m = blk s e m" "\<forall>j\<in>H. bufs t j = bufs s j" by blast
  have lt: "lg_dev (lg t) = d" "\<not> log_area (lg t) n" "lh_n (lg t) = lh_n (lg s)" "lg_size (lg t) = lg_size (lg s)" "outstanding (lg t) = outstanding (lg s)"
    using b(3) d tx_step_area [OF b(3)] by (auto simp: tx_step_def)
  have rm: "lh_n (lg t) < int LOGSIZE" "lh_n (lg t) < lg_size (lg t) - 1" "1 \<le> outstanding (lg t)"
    using room lt by (auto simp: tx_room_def NBUF_def LOGSIZE_def)
  have up: "upd_buf b (\<lambda>r. r\<lparr>bdata := f (bdata r)\<rparr>) t = upd_buf b (\<lambda>r. r\<lparr>bdata := f (blk s d n)\<rparr>) t" by (simp add: upd_buf_def b(2))
  from tx_write [OF b(4) insertI1 _ b(7) lt(2) rm len] b(5,6) lt(1) obtain u v where
    u: "log_write b (upd_buf b (\<lambda>r. r\<lparr>bdata := f (blk s d n)\<rparr>) t) = Ok u" "brelse b u = Ok v" "log_inv p v H" "lg v = log_add (lg t) n"
       "io_step (t\<lparr>lg := log_add (lg t) n\<rparr>) v" "disk v = disk t"
       "\<forall>e m. e \<noteq> 0 \<longrightarrow> blk v e m = (if e = d \<and> m = n then f (blk s d n) else blk t e m)"
       "\<forall>j. j \<noteq> b \<longrightarrow> bdev (bufs v j) = bdev (bufs t j) \<and> bblockno (bufs v j) = bblockno (bufs t j) \<and> bdata (bufs v j) = bdata (bufs t j)" by auto
  have lok: "log_ok (lg t)" using b(4) by (simp add: log_inv_def)
  have "tx_step 1 t v" using io_step_sel [OF u(5)] u(4,6) logged_add [OF lok rm(1), of n] by (simp add: tx_step_def)
  then have st: "tx_step 1 s v" by (rule tx_step_trans0 [OF b(3)])
  have "tx_room k H v" by (rule tx_room_step [OF _ st]) (use room in simp)
  moreover have "log_write b (upd_buf b (\<lambda>r. r\<lparr>bdata := f (bdata r)\<rparr>) t) = Ok u" using u(1) up by simp
  moreover have "\<forall>e m. e \<noteq> 0 \<longrightarrow> blk v e m = (if e = d \<and> m = n then f (blk s d n) else blk s e m)" using u(7) b(8) by simp
  moreover have "\<forall>j\<in>H. bdev (bufs v j) = bdev (bufs s j) \<and> bblockno (bufs v j) = bblockno (bufs s j) \<and> bdata (bufs v j) = bdata (bufs s j)"
  proof
    fix j assume "j \<in> H"
    then show "bdev (bufs v j) = bdev (bufs s j) \<and> bblockno (bufs v j) = bblockno (bufs s j) \<and> bdata (bufs v j) = bdata (bufs s j)"
      using u(8) [rule_format, of j] b(5,9) by auto
  qed
  ultimately show ?thesis using b(1,2,3) u(2,3) st by blast
qed

section \<open>The free map\<close>

lemma bmap_used_bit: "bmap_used x b \<longleftrightarrow> bit (x ! (b div 8)) (b mod 8)"
proof -
  have "b mod 8 < 8" by simp
  then have "bit (x ! (b div 8) AND push_bit (b mod 8) 1) n \<longleftrightarrow> n = b mod 8 \<and> bit (x ! (b div 8)) n" for n
    by (auto simp: bit_simps)
  then have "x ! (b div 8) AND push_bit (b mod 8) 1 \<noteq> 0 \<longleftrightarrow> bit (x ! (b div 8)) (b mod 8)"
    using bit_eqI [of "x ! (b div 8) AND push_bit (b mod 8) 1" 0] by (metis bit_0_eq bot_apply bot_bool_def)
  then show ?thesis by (simp add: bmap_used_def)
qed

lemma same_div_mod: "(b :: nat) = c \<longleftrightarrow> b div k = c div k \<and> b mod k = c mod k"
  by (metis div_mult_mod_eq)

lemma bmap_set_used: "b div 8 < length x \<Longrightarrow> bmap_used (bmap_set x b) c \<longleftrightarrow> c = b \<or> bmap_used x c"
  using same_div_mod [of c b 8] by (auto simp: bmap_used_bit bmap_set_def nth_list_update bit_simps)

lemma bmap_clear_used: "b div 8 < length x \<Longrightarrow> bmap_used (bmap_clear x b) c \<longleftrightarrow> c \<noteq> b \<and> bmap_used x c"
  using same_div_mod [of c b 8] by (auto simp: bmap_used_bit bmap_clear_def nth_list_update bit_simps)

lemma bmap_length [simp]: "length (bmap_set x b) = length x" "length (bmap_clear x b) = length x"
  by (simp_all add: bmap_set_def bmap_clear_def)

lemma BPB_nat: "BPB = 8192" "(of_nat BPB :: u32) = 8192"
  by (simp_all add: BPB_def BSIZE_def)

lemma BBLOCK_eq: "BBLOCK b t = BBLOCK c t \<longleftrightarrow> unat b div BPB = unat c div BPB"
proof -
  have "BBLOCK b t = BBLOCK c t \<longleftrightarrow> b div 8192 = c div 8192" by (simp add: BBLOCK_def BPB_nat)
  then show ?thesis by (simp add: word_unat_eq_iff unat_div BPB_nat)
qed

definition used :: "kst \<Rightarrow> u32 \<Rightarrow> bool" where
  "used s b \<longleftrightarrow> bmap_used (blk s (lg_dev (lg s)) (BBLOCK b (sb s))) (unat b mod BPB)"

text \<open>
  The log and the free map itself are marked as used and do not overlap, block 0 is used, and
  the size leaves room for the counter of \<open>balloc\<close>.
\<close>

definition map_ok :: "kst \<Rightarrow> bool" where
  "map_ok s \<longleftrightarrow> unat (sb_size (sb s)) + BPB < 2 ^ 32 \<and> used s 0 \<and>
     (\<forall>b< sb_size (sb s). \<not> log_area (lg s) (BBLOCK b (sb s)) \<and>
        (\<not> used s b \<longrightarrow> \<not> log_area (lg s) b \<and> (\<forall>c< sb_size (sb s). BBLOCK c (sb s) \<noteq> b)))"

text \<open>Buffers in use meanwhile hold allocated blocks outside the free map.\<close>

definition held_ok :: "kst \<Rightarrow> nat set \<Rightarrow> bool" where
  "held_ok s H \<longleftrightarrow> (\<forall>i\<in>H. bdev (bufs s i) = lg_dev (lg s) \<longrightarrow> bblockno (bufs s i) < sb_size (sb s) \<and> used s (bblockno (bufs s i)) \<and>
     (\<forall>c< sb_size (sb s). BBLOCK c (sb s) \<noteq> bblockno (bufs s i)))"

definition keeps :: "nat set \<Rightarrow> kst \<Rightarrow> kst \<Rightarrow> bool" where
  "keeps H s t \<longleftrightarrow> (\<forall>j\<in>H. bdev (bufs t j) = bdev (bufs s j) \<and> bblockno (bufs t j) = bblockno (bufs s j) \<and> bdata (bufs t j) = bdata (bufs s j))"

lemma keeps_trans: "keeps H s t \<Longrightarrow> keeps H t u \<Longrightarrow> keeps H s u"
  by (simp add: keeps_def)

lemma keeps_empty [simp]: "keeps {} s t"
  by (simp add: keeps_def)

lemma used_cong: "tx_step k s t \<Longrightarrow> blk t (lg_dev (lg s)) (BBLOCK b (sb s)) = blk s (lg_dev (lg s)) (BBLOCK b (sb s)) \<Longrightarrow> used t b = used s b"
  by (simp add: used_def tx_step_def)

lemma map_ok_cong:
  assumes "tx_step k s t" "\<And>m. blk t (lg_dev (lg s)) m = blk s (lg_dev (lg s)) m"
  shows "map_ok t = map_ok s" "keeps H s t \<Longrightarrow> held_ok t H = held_ok s H"
proof -
  have u: "used t b = used s b" for b using used_cong [OF assms(1)] assms(2) by simp
  have sb: "sb t = sb s" "lg_dev (lg t) = lg_dev (lg s)" using assms(1) by (simp_all add: tx_step_def)
  show "map_ok t = map_ok s" using tx_step_area [OF assms(1)] by (simp add: map_ok_def u sb)
  show "held_ok t H = held_ok s H" if "keeps H s t" using that by (auto simp: held_ok_def keeps_def u sb)
qed

lemma find_upt_Some: "find P [0..<n] = Some i \<Longrightarrow> i < n \<and> P i \<and> (\<forall>j<i. \<not> P j)"
  by (auto simp: find_Some_iff)

lemma find_upt_None: "find P [0..<n] = None \<Longrightarrow> i < n \<Longrightarrow> \<not> P i"
  by (auto simp: find_None_iff)

lemma used_in_block:
  assumes "unat b mod BPB = 0" "unat b \<le> unat c" "unat c < unat b + BPB"
  shows "used s c \<longleftrightarrow> bmap_used (blk s (lg_dev (lg s)) (BBLOCK b (sb s))) (unat c - unat b)"
proof -
  obtain i where i: "unat c = unat b + i" "i < BPB" using assms(2,3) by (auto simp: le_iff_add)
  have "unat c div BPB = unat b div BPB" "unat c mod BPB = i"
    using assms(1) i by (auto simp: div_add1_eq mod_add_eq [symmetric] BPB_nat)
  then show ?thesis using BBLOCK_eq [of c "sb s" b] i by (simp add: used_def)
qed

text \<open>The outcome of \<open>balloc\<close>: block \<open>r\<close>, or 0 when all blocks are in use.\<close>

definition allocated :: "kst \<Rightarrow> kst \<Rightarrow> u32 \<Rightarrow> bool" where
  "allocated s t r \<longleftrightarrow>
     (if r = 0 then (\<forall>c< sb_size (sb s). used s c) \<and> tx_step 0 s t \<and> (\<forall>e m. e \<noteq> 0 \<longrightarrow> blk t e m = blk s e m)
      else r < sb_size (sb s) \<and> \<not> used s r \<and> (\<forall>c<r. used s c) \<and> tx_step 2 s t \<and>
        (\<forall>e m. e \<noteq> 0 \<longrightarrow> blk t e m =
           (if e = lg_dev (lg s) \<and> m = BBLOCK r (sb s) then bmap_set (blk s e m) (unat r mod BPB)
            else if e = lg_dev (lg s) \<and> m = r then replicate BSIZE 0 else blk s e m)))"

lemma bzero_spec:
  assumes "log_inv p s H" "tx_room (Suc k) H s" "\<not> log_area (lg s) n"
    "\<And>i. i \<in> H \<Longrightarrow> \<not> (bdev (bufs s i) = lg_dev (lg s) \<and> bblockno (bufs s i) = n)"
  shows "\<exists>t. bzero (lg_dev (lg s)) n s = Ok t \<and> log_inv p t H \<and> tx_room k H t \<and> tx_step 1 s t \<and> keeps H s t \<and>
    (\<forall>e m. e \<noteq> 0 \<longrightarrow> blk t e m = (if e = lg_dev (lg s) \<and> m = n then replicate BSIZE 0 else blk s e m))"
  using tx_modify [OF assms(1,2) refl assms(3,4), where f = "\<lambda>_. replicate BSIZE 0"] by (auto simp: bzero_def keeps_def)

lemma balloc_take:
  assumes inv: "log_inv p s H" and room: "tx_room (Suc (Suc k)) H s" and ok: "map_ok s" "held_ok s H"
    and b: "unat b mod BPB = 0" "b < sb_size (sb s)"
    and f: "free_bit (blk s (lg_dev (lg s)) (BBLOCK b (sb s))) (unat b) (unat (sb_size (sb s))) = Some i"
    and before: "\<forall>c<b. used s c"
  shows "\<exists>t. balloc_turn (lg_dev (lg s)) (b, s) = Ok (Exit (b + of_nat i, t)) \<and> log_inv p t H \<and> tx_room k H t \<and> keeps H s t \<and>
    allocated s t (b + of_nat i)"
proof -
  let ?d = "lg_dev (lg s)" and ?B = "BBLOCK b (sb s)" and ?r = "b + of_nat i"
  have i: "i < BPB" "unat b + i < unat (sb_size (sb s))" "\<not> bmap_used (blk s ?d ?B) i" "\<forall>j<i. bmap_used (blk s ?d ?B) j"
    using find_upt_Some [OF f [unfolded free_bit_def]] by auto
  have "unat b + i < 2 ^ 32" using i(2) unsigned_less [of "sb_size (sb s)", where ?'a = nat] by simp
  then have r: "unat ?r = unat b + i" by (simp add: unat_word_ariths(1) unsigned_of_nat take_bit_eq_mod mod_simps)
  have rb: "unat ?r mod BPB = i" "BBLOCK ?r (sb s) = ?B" using b(1) i(1) BBLOCK_eq [of ?r "sb s" b]
    by (auto simp: r div_add1_eq mod_add_eq [symmetric] BPB_nat)
  have nu: "\<not> used s ?r" using i(3) by (simp add: used_def rb)
  have rs: "?r < sb_size (sb s)" using r i(2) by (simp add: word_less_nat_alt)
  have r0: "?r \<noteq> 0" using nu ok(1) by (metis map_ok_def)
  have lo: "used s c" if "c < ?r" for c
  proof (cases "c < b")
    case False
    then have "unat b \<le> unat c" "unat c < unat b + i" using that r by (auto simp: word_less_nat_alt)
    then show ?thesis using used_in_block [OF b(1), of c s] i(1,4) by auto
  qed (use before in simp)
  have areas: "\<not> log_area (lg s) ?B" "\<not> log_area (lg s) ?r" "?B \<noteq> ?r" using ok(1) b(2) rs nu by (auto simp: map_ok_def)
  have hB: "\<not> (bdev (bufs s j) = ?d \<and> bblockno (bufs s j) = ?B)" if "j \<in> H" for j using ok(2) that b(2) unfolding held_ok_def by metis
  have hr: "\<not> (bdev (bufs s j) = ?d \<and> bblockno (bufs s j) = ?r)" if "j \<in> H" for j using ok(2) that nu unfolding held_ok_def by metis
  have len: "length (bmap_set (blk s ?d ?B) i) = BSIZE"
    using inv blk_length [of p s H "log_pins (lg s) s" ?d ?B] log_inv_H [OF inv] by (simp add: log_inv_def)
  from tx_modify [OF inv room refl areas(1) hB, where f = "\<lambda>x. bmap_set x i", OF _ len] obtain bp t u v where
    m: "bread ?d ?B s = Ok (bp, t)" "bdata (bufs t bp) = blk s ?d ?B" "tx_step 0 s t"
       "log_write bp (upd_buf bp (\<lambda>r. r\<lparr>bdata := bmap_set (bdata r) i\<rparr>) t) = Ok u" "brelse bp u = Ok v" "log_inv p v H" "tx_room (Suc k) H v" "tx_step 1 s v"
       "\<forall>e m. e \<noteq> 0 \<longrightarrow> blk v e m = (if e = ?d \<and> m = ?B then bmap_set (blk s ?d ?B) i else blk s e m)" "keeps H s v" by (auto simp: keeps_def)
  have lv: "lg_dev (lg v) = ?d" "\<not> log_area (lg v) ?r" using m(8) areas(2) tx_step_area [OF m(8)] by (auto simp: tx_step_def)
  have "\<not> (bdev (bufs v j) = lg_dev (lg v) \<and> bblockno (bufs v j) = ?r)" if "j \<in> H" for j using hr [OF that] m(10) that lv by (auto simp: keeps_def)
  from bzero_spec [OF m(6,7) lv(2) this] lv(1) obtain w where
    w: "bzero ?d ?r v = Ok w" "log_inv p w H" "tx_room k H w" "tx_step 1 v w" "keeps H v w"
       "\<forall>e m. e \<noteq> 0 \<longrightarrow> blk w e m = (if e = ?d \<and> m = ?r then replicate BSIZE 0 else blk v e m)" by auto
  have sbt: "sb t = sb s" using m(3) by (simp add: tx_step_def)
  have "balloc_turn ?d (b, s) = Ok (Exit (?r, w))"
    using b(2) m(1,2,4,5) w(1) f by (simp add: balloc_turn_def sbt)
  moreover have "allocated s w ?r"
    unfolding allocated_def using r0 rs nu lo tx_step_trans [OF m(8) w(4)] m(9) w(6) areas(3) by (auto simp: rb numeral_2_eq_2)
  ultimately show ?thesis using w(2,3) keeps_trans [OF m(10) w(5)] by blast
qed

lemma balloc_next:
  assumes inv: "log_inv p s H" and room: "tx_room k H s" and ok: "held_ok s H"
    and b: "b < sb_size (sb s)" and f: "free_bit (blk s (lg_dev (lg s)) (BBLOCK b (sb s))) (unat b) (unat (sb_size (sb s))) = None"
  shows "\<exists>t. balloc_turn (lg_dev (lg s)) (b, s) = Ok (Next (b + of_nat BPB, t)) \<and> log_inv p t H \<and> tx_step 0 s t \<and> keeps H s t \<and>
    (\<forall>e m. e \<noteq> 0 \<longrightarrow> blk t e m = blk s e m)"
proof -
  let ?d = "lg_dev (lg s)" and ?B = "BBLOCK b (sb s)"
  have d: "?d \<noteq> 0" using log_inv_H [OF inv] by simp
  have hB: "\<not> (bdev (bufs s j) = ?d \<and> bblockno (bufs s j) = ?B)" if "j \<in> H" for j using ok that b unfolding held_ok_def by metis
  from tx_look [OF inv tx_room_mono [OF room le0] d hB] obtain bp t u where
    t: "bread ?d ?B s = Ok (bp, t)" "bdata (bufs t bp) = blk s ?d ?B" "tx_step 0 s t" "brelse bp t = Ok u" "log_inv p u H" "tx_step 0 s u"
       "\<forall>e m. e \<noteq> 0 \<longrightarrow> blk u e m = blk s e m" "\<forall>j\<in>H. bufs u j = bufs s j" by blast
  have "balloc_turn ?d (b, s) = Ok (Next (b + of_nat BPB, u))"
    using b f t(1,2,4) t(3) by (simp add: balloc_turn_def tx_step_def)
  then show ?thesis using t by (auto simp: keeps_def)
qed

lemma balloc_loop:
  assumes "log_inv p s H" "tx_room (Suc (Suc k)) H s" "map_ok s" "held_ok s H" "unat b mod BPB = 0" "\<forall>c<b. c < sb_size (sb s) \<longrightarrow> used s c"
  shows "\<exists>r t. loopR (balloc_turn (lg_dev (lg s))) (b, s) = Ok (r, t) \<and> log_inv p t H \<and> tx_room k H t \<and> keeps H s t \<and> allocated s t r"
  using assms
proof (induction "unat (sb_size (sb s)) - unat b" arbitrary: b s rule: less_induct)
  case less
  let ?d = "lg_dev (lg s)" and ?B = "BBLOCK b (sb s)" and ?n = "sb_size (sb s)"
  show ?case
  proof (cases "b < ?n")
    case False
    then have "balloc_turn ?d (b, s) = Ok (Exit (0, s))" by (simp add: balloc_turn_def)
    from loopR_Exit [of "balloc_turn ?d", OF this] show ?thesis
      using less.prems False by (intro exI [of _ 0] exI [of _ s]) (auto simp: allocated_def keeps_def intro: tx_room_mono)
  next
    case True
    show ?thesis
    proof (cases "free_bit (blk s ?d ?B) (unat b) (unat ?n)")
      case (Some i)
      have "\<forall>c<b. used s c" using less.prems(6) True by (meson less_trans)
      from balloc_take [OF less.prems(1-5) True Some this] obtain t where
        "balloc_turn ?d (b, s) = Ok (Exit (b + of_nat i, t))" "log_inv p t H" "tx_room k H t" "keeps H s t" "allocated s t (b + of_nat i)" by blast
      then show ?thesis using loopR_Exit [of "balloc_turn ?d" "(b, s)"] by blast
    next
      case None
      from balloc_next [OF less.prems(1,2,4) True None] obtain t where
        t: "balloc_turn ?d (b, s) = Ok (Next (b + of_nat BPB, t))" "log_inv p t H" "tx_step 0 s t" "keeps H s t" "\<forall>e m. e \<noteq> 0 \<longrightarrow> blk t e m = blk s e m" by blast
      have d: "?d \<noteq> 0" using log_inv_H [OF less.prems(1)] by simp
      have same: "sb t = sb s" "lg_dev (lg t) = ?d" using t(3) by (simp_all add: tx_step_def)
      have eq: "map_ok t" "held_ok t H" using map_ok_cong [OF t(3)] t(4,5) d less.prems(3,4) by auto
      have ut: "used t c = used s c" for c using used_cong [OF t(3)] t(5) d by simp
      have "unat ?n + BPB < 2 ^ 32" using less.prems(3) by (simp add: map_ok_def)
      then have b': "unat (b + of_nat BPB) = unat b + BPB"
        using True by (simp add: BPB_nat unat_word_ariths(1) word_less_nat_alt)
      have lo: "used s c" if "c < b + of_nat BPB" "c < ?n" for c
      proof (cases "c < b")
        case False
        then have c: "unat b \<le> unat c" "unat c < unat b + BPB" using that(1) b' by (auto simp: word_less_nat_alt)
        then have "unat c - unat b < min BPB (unat ?n - unat b)" using that(2) by (auto simp: word_less_nat_alt)
        then show ?thesis using find_upt_None [OF None [unfolded free_bit_def]] used_in_block [OF less.prems(5) c, of s] by auto
      qed (use less.prems(6) that in simp)
      have "\<exists>r u. loopR (balloc_turn (lg_dev (lg t))) (b + of_nat BPB, t) = Ok (r, u) \<and> log_inv p u H \<and> tx_room k H u \<and> keeps H t u \<and> allocated t u r"
      proof (rule less.hyps)
        show "unat (sb_size (sb t)) - unat (b + of_nat BPB) < unat ?n - unat b" 
          unfolding same b' using True by (simp add: BPB_nat(1) word_less_nat_alt)
        show "tx_room (Suc (Suc k)) H t" using tx_room_step [of 0 "Suc (Suc k)" H s t] less.prems(2) t(3) by simp
        show "unat (b + of_nat BPB) mod BPB = 0" using less.prems(5) by (simp add: b')
        show "\<forall>c<b + of_nat BPB. c < sb_size (sb t) \<longrightarrow> used t c" using lo by (simp add: ut same)
      qed (use t(2) eq in auto)
      then obtain r u where u: "loopR (balloc_turn ?d) (b + of_nat BPB, t) = Ok (r, u)" "log_inv p u H" "tx_room k H u" "keeps H t u" "allocated t u r"
        by (auto simp: same)
      have "allocated s u r" using u(5) t(5) d tx_step_trans0 [OF t(3)] by (auto simp: allocated_def same ut split: if_splits)
      then show ?thesis using u keeps_trans [OF t(4)] loopR_Next [of "balloc_turn ?d", OF t(1)] by auto
    qed
  qed
qed

text \<open>An example: a machine inside a transaction, with a given disk and inode table.\<close>

lemma sample_tx:
  assumes "\<And>d n. length (D d n) = BSIZE" "rd32 (D 1 2) 0 = 0"
  shows "\<exists>s. log_inv 0 s {} \<and> (\<forall>d n. d \<noteq> 0 \<longrightarrow> blk s d n = D d n) \<and> disk s = D \<and> sb s = sb (sample_kst undefined) \<and> inodes s = T \<and>
    (\<forall>i. \<not> slocked (sl s (ChSleepInode i))) \<and>
    lg s = \<lparr>lg_start = 2, lg_size = 30, outstanding = 1, committing = False, lg_dev = 1, lh_n = 0, lh_block = replicate 30 0\<rparr>"
proof -
  obtain h where h: "runs (sample_sst h) 0" using sample_runs by blast
  let ?u = "(sample_kst h)\<lparr>disk := D, inodes := T\<rparr>"
  let ?s = "binit ?u"
  have b: "bc_inv 0 ?s {} {}" "\<And>d n. blk ?s d n = D d n"
    using binit_inv [of ?u 0] h assms(1) by (auto simp: sample_kst_def)
  have sel: "disk ?s = D" "sb ?s = sb (sample_kst h)" "inodes ?s = T" "sl ?s (ChSleepInode i) = sl (sample_kst h) (ChSleepInode i)" for i
  proof -
    let ?f = "\<lambda>b s. link_first b (s\<lparr>sl := initsleeplock (ChSleepBuf b) (sl s)\<rparr>)"
    have "sb (fold ?f xs u) = sb u \<and> inodes (fold ?f xs u) = inodes u \<and> disk (fold ?f xs u) = disk u \<and> sl (fold ?f xs u) (ChSleepInode i) = sl u (ChSleepInode i)" for xs u
      by (induction xs arbitrary: u) (auto simp: link_first_def Let_def initsleeplock_def)
    then show "disk ?s = D" "sb ?s = sb (sample_kst h)" "inodes ?s = T" "sl ?s (ChSleepInode i) = sl (sample_kst h) (ChSleepInode i)" by (simp_all add: binit_def)
  qed
  have l: "lg ?s = lg (sample_kst h)" by simp
  have ok: "log_ok (lg ?s)" unfolding l by (simp add: log_ok_def sample_lg logged_def LOGSIZE_def MAXOPBLOCKS_def)
  have i: "log_inv 0 ?s {}" by (rule log_inv_cleared [OF b(1) ok refl]) (simp add: sample_lg)
  let ?t = "upd_log (\<lambda>l. l\<lparr>outstanding := 1\<rparr>) ?s"
  have "log_inv 0 ?t {}" using i by (auto simp: log_inv_def log_ok_def log_pins_def all_cached_def logged_def log_area_def)
  then show ?thesis using b(2) sel l by (intro exI [of _ ?t]) (simp add: sample_kst_def)
qed

lemma same_bit: "c = b \<longleftrightarrow> BBLOCK c t = BBLOCK b t \<and> unat c mod BPB = unat b mod BPB"
  using same_div_mod [of "unat c" "unat b" BPB] BBLOCK_eq [of c t b] by (auto simp: word_unat_eq_iff)

lemma bit_in_block: "unat (b :: u32) mod BPB div 8 < BSIZE"
proof -
  have "unat b mod 8192 < 8192" by simp
  then show ?thesis by (simp add: BPB_nat BSIZE_def less_mult_imp_div_less)
qed

text \<open>One bit of the free map changed by \<open>g\<close>.\<close>

lemma used_after:
  assumes st: "tx_step k s t" and len: "length (blk s (lg_dev (lg s)) (BBLOCK r (sb s))) = BSIZE"
    and b: "blk t (lg_dev (lg s)) (BBLOCK c (sb s)) =
      (if BBLOCK c (sb s) = BBLOCK r (sb s) then g (blk s (lg_dev (lg s)) (BBLOCK r (sb s))) (unat r mod BPB) else blk s (lg_dev (lg s)) (BBLOCK c (sb s)))"
    and g: "\<And>x i j. i div 8 < length x \<Longrightarrow> bmap_used (g x i) j = (if j = i then v else bmap_used x j)"
  shows "used t c = (if c = r then v else used s c)"
proof -
  have sel: "lg_dev (lg t) = lg_dev (lg s)" "sb t = sb s" using st by (simp_all add: tx_step_def)
  have i: "unat r mod BPB div 8 < length (blk s (lg_dev (lg s)) (BBLOCK r (sb s)))" unfolding len by (rule bit_in_block)
  show ?thesis
  proof (cases "BBLOCK c (sb s) = BBLOCK r (sb s)")
    case True
    then show ?thesis using b g [OF i, of "unat c mod BPB"] same_bit [of c r "sb s"] by (simp add: used_def sel)
  qed (use b same_bit [of c r "sb s"] in \<open>auto simp: used_def sel\<close>)
qed

text \<open>
  C3.  The block allocator: \<open>balloc\<close> returns the lowest free block, marks exactly that block as used,
  leaves it filled with zeros and every other block outside the free map as it was; when every
  block is in use it returns 0 and changes nothing.  It terminates on every free map.
\<close>

theorem balloc_correct:
  assumes inv: "log_inv p s H" and room: "tx_room 2 H s" and ok: "map_ok s" "held_ok s H"
  shows "\<exists>r t. balloc (lg_dev (lg s)) s = Ok (r, t) \<and> log_inv p t H \<and>
    (if \<forall>c < sb_size (sb s). used s c then r = 0 \<and> (\<forall>m. blk t (lg_dev (lg s)) m = blk s (lg_dev (lg s)) m)
     else r \<noteq> 0 \<and> r < sb_size (sb s) \<and> \<not> used s r \<and> (\<forall>c<r. used s c) \<and>
       (\<forall>c < sb_size (sb s). used t c \<longleftrightarrow> c = r \<or> used s c) \<and> blk t (lg_dev (lg s)) r = replicate BSIZE 0 \<and>
       (\<forall>m. m \<noteq> r \<longrightarrow> m \<noteq> BBLOCK r (sb s) \<longrightarrow> blk t (lg_dev (lg s)) m = blk s (lg_dev (lg s)) m))"
proof -
  let ?d = "lg_dev (lg s)" and ?n = "sb_size (sb s)"
  have d: "?d \<noteq> 0" using log_inv_H [OF inv] by simp
  from balloc_loop [OF inv _ ok, of 0 0] room obtain r t where
    t: "balloc ?d s = Ok (r, t)" "log_inv p t H" "allocated s t r" by (auto simp: balloc_def numeral_2_eq_2)
  show ?thesis
  proof (cases "r = 0")
    case True
    then have "\<forall>c < ?n. used s c" "\<forall>m. blk t ?d m = blk s ?d m" using t(3) d by (auto simp: allocated_def)
    then show ?thesis using t True by auto
  next
    case False
    then have r: "r < ?n" "\<not> used s r" "\<forall>c<r. used s c" "tx_step 2 s t"
      "\<And>m. blk t ?d m = (if m = BBLOCK r (sb s) then bmap_set (blk s ?d m) (unat r mod BPB) else if m = r then replicate BSIZE 0 else blk s ?d m)"
      using t(3) d by (auto simp: allocated_def)
    have B: "BBLOCK c (sb s) \<noteq> r" if "c < ?n" for c using ok(1) r(1,2) that unfolding map_ok_def by blast
    have len: "length (blk s ?d m) = BSIZE" for m using inv blk_length [OF _ d] by (auto simp: log_inv_def)
    have u: "used t c = (if c = r then True else used s c)" if "c < ?n" for c
      by (rule used_after [OF r(4) len, where g = bmap_set]) (use r(5) B [OF that] bmap_set_used in auto)
    have "\<not> (\<forall>c < ?n. used s c)" using r by blast
    then show ?thesis using t False r u B [OF r(1)] by (intro exI [of _ r] exI [of _ t]) auto
  qed
qed

text \<open>
  \<open>bfree\<close> of a used block clears exactly its mark and changes no block outside the free map;
  of a block that is already free it panics.
\<close>

theorem bfree_correct:
  assumes inv: "log_inv p s H" and room: "tx_room 1 H s" and ok: "map_ok s" "held_ok s H" and b: "b < sb_size (sb s)"
  shows "if used s b
    then \<exists>t. bfree (lg_dev (lg s)) b s = Ok t \<and> log_inv p t H \<and> (\<forall>c < sb_size (sb s). used t c \<longleftrightarrow> c \<noteq> b \<and> used s c) \<and>
      (\<forall>m. m \<noteq> BBLOCK b (sb s) \<longrightarrow> blk t (lg_dev (lg s)) m = blk s (lg_dev (lg s)) m)
    else bfree (lg_dev (lg s)) b s = Panic ''freeing free block''"
proof -
  let ?d = "lg_dev (lg s)" and ?B = "BBLOCK b (sb s)" and ?i = "unat b mod BPB"
  have d: "?d \<noteq> 0" using log_inv_H [OF inv] by simp
  have len: "length (blk s ?d m) = BSIZE" for m using inv blk_length [OF _ d] by (auto simp: log_inv_def)
  have a: "\<not> log_area (lg s) ?B" using ok(1) b by (auto simp: map_ok_def)
  have hB: "\<not> (bdev (bufs s j) = ?d \<and> bblockno (bufs s j) = ?B)" if "j \<in> H" for j using ok(2) that b unfolding held_ok_def by metis
  from tx_modify [where f = "\<lambda>x. bmap_clear x ?i" and k = 0, OF inv _ refl a hB] room len obtain bp t u v where
    m: "bread ?d ?B s = Ok (bp, t)" "bdata (bufs t bp) = blk s ?d ?B"
       "log_write bp (upd_buf bp (\<lambda>r. r\<lparr>bdata := bmap_clear (bdata r) ?i\<rparr>) t) = Ok u" "brelse bp u = Ok v" "log_inv p v H" "tx_step 1 s v"
       "\<forall>e m. e \<noteq> 0 \<longrightarrow> blk v e m = (if e = ?d \<and> m = ?B then bmap_clear (blk s ?d ?B) ?i else blk s e m)" by auto
  show ?thesis
  proof (cases "used s b")
    case True
    then have run: "bfree ?d b s = Ok v" using m by (simp add: bfree_def used_def)
    have B: "blk v ?d m = (if m = ?B then bmap_clear (blk s ?d ?B) ?i else blk s ?d m)" for m using m(7) d by simp
    have u: "used v c = (if c = b then False else used s c)" if c: "c < sb_size (sb s)" for c
      by (rule used_after [OF m(6) len, where g = bmap_clear]) (use B bmap_clear_used in auto)
    then show ?thesis using True run m(5) B by auto
  next
    case False
    then show ?thesis using m(1,2) by (simp add: bfree_def used_def)
  qed
qed

definition sample_map :: "byte list" where
  "sample_map = replicate 8 255 @ replicate 1016 0"

lemma sample_map_used: "b < 8192 \<Longrightarrow> bmap_used sample_map b \<longleftrightarrow> b < 64"
proof -
  assume b: "b < 8192"
  then have "b div 8 < 1024" by (simp add: less_mult_imp_div_less)
  moreover have "bit (255 :: byte) (b mod 8)"
  proof -
    have "(255 :: byte) = -1" by simp
    moreover have "b mod 8 < 8" by simp
    ultimately show ?thesis by (simp only: bit_minus_1_iff possible_bit_word) simp
  qed
  ultimately show ?thesis by (auto simp: bmap_used_bit sample_map_def nth_append)
qed

lemma sample_map_ok:
  "\<exists>s. log_inv 0 s {} \<and> tx_room 10 {} s \<and> map_ok s \<and> held_ok s {} \<and> lg_dev (lg s) = 1 \<and> sb_size (sb s) = 2000 \<and>
     (\<forall>b<2000. used s b \<longleftrightarrow> b < 64)"
proof -
  let ?D = "\<lambda>(d :: u32) (n :: u32). if n = 45 then sample_map else if n = 2 then replicate BSIZE 0 else replicate BSIZE (ucast n)"
  have len: "length (?D d n) = BSIZE" for d n by (simp add: sample_map_def BSIZE_def)
  have "rd32 (?D 1 2) 0 = 0" by (simp add: rd32_def BSIZE_def)
  from sample_tx [where D = ?D, OF len this, of undefined] obtain s where s: "log_inv 0 s {}" "\<forall>d n. d \<noteq> 0 \<longrightarrow> blk s d n = ?D d n" "sb s = sb (sample_kst undefined)"
    "lg s = \<lparr>lg_start = 2, lg_size = 30, outstanding = 1, committing = False, lg_dev = 1, lh_n = 0, lh_block = replicate 30 0\<rparr>" by auto
  have sb: "sb_size (sb s) = 2000" "sb_bmapstart (sb s) = 45" using s(3) by (simp_all add: sample_kst_def)
  have B: "BBLOCK b (sb s) = 45" "unat b mod BPB = unat b" "unat b < 8192" if "b < 2000" for b
  proof -
    have u: "unat b < 2000" using that by (simp add: word_less_nat_alt)
    then have "b div 8192 = 0" by (simp add: word_unat_eq_iff unat_div)
    then show "BBLOCK b (sb s) = 45" "unat b mod BPB = unat b" "unat b < 8192" using u by (simp_all add: BBLOCK_def BPB_nat sb)
  qed
  have us: "used s b \<longleftrightarrow> b < 64" if "b < 2000" for b
    using B [OF that] sample_map_used s(2,4) by (simp add: used_def word_less_nat_alt)
  have "map_ok s" unfolding map_ok_def sb(1)
    using us B(1) by (auto simp: BPB_nat s(4) log_area_def word_less_nat_alt word_unat_eq_iff)
  then show ?thesis using s us sb by (intro exI [of _ s]) (auto simp: tx_room_def held_ok_def NBUF_def MAXOPBLOCKS_def)
qed

theorem balloc_correct_witness:
  "\<exists>s t. balloc 1 s = Ok (64, t) \<and> \<not> used s 64 \<and> used t 64 \<and> blk t 1 64 = replicate BSIZE 0"
proof -
  obtain s where s: "log_inv 0 s {}" "tx_room 10 {} s" "map_ok s" "held_ok s {}" "lg_dev (lg s) = 1" "sb_size (sb s) = 2000"
    "\<forall>b<2000. used s b \<longleftrightarrow> b < 64" using sample_map_ok by blast
  have c64: "(64 :: u32) < 2000" "\<not> used s 64" using s(7) by auto
  then have n: "\<not> (\<forall>c < sb_size (sb s). used s c)" using s(6) by metis
  from balloc_correct [OF s(1) tx_room_mono [OF s(2)] s(3,4)] n obtain r t where
    t: "balloc (lg_dev (lg s)) s = Ok (r, t)" "r < sb_size (sb s)" "\<not> used s r" "\<forall>c<r. used s c"
       "\<forall>c < sb_size (sb s). used t c \<longleftrightarrow> c = r \<or> used s c" "blk t (lg_dev (lg s)) r = replicate BSIZE 0" by auto
  have "\<not> 64 < r" using t(4) c64 by blast
  moreover have "\<not> r < 64" using t(2,3) s(6,7) by auto
  ultimately have "r = 64" by simp
  then show ?thesis using t s(5,6) c64 by (intro exI [of _ s] exI [of _ t]) auto
qed

theorem bfree_correct_witness:
  "\<exists>s t. bfree 1 50 s = Ok t \<and> used s 50 \<and> \<not> used t 50 \<and> bfree 1 70 s = Panic ''freeing free block''"
proof -
  obtain s where s: "log_inv 0 s {}" "tx_room 10 {} s" "map_ok s" "held_ok s {}" "lg_dev (lg s) = 1" "sb_size (sb s) = 2000"
    "\<forall>b<2000. used s b \<longleftrightarrow> b < 64" using sample_map_ok by blast
  have u: "used s 50" "\<not> used s 70" "50 < sb_size (sb s)" "70 < sb_size (sb s)" using s(6,7) by auto
  note R = tx_room_mono [OF s(2)]
  from bfree_correct [OF s(1) R s(3,4) u(3)] u(1) s(5) obtain t where
    t: "bfree 1 50 s = Ok t" "\<forall>c < sb_size (sb s). used t c \<longleftrightarrow> c \<noteq> 50 \<and> used s c" by auto
  then have "\<not> used t 50" using u(3) by blast
  moreover have "bfree 1 70 s = Panic ''freeing free block''" using bfree_correct [OF s(1) R s(3,4) u(4)] u(2) s(5) by simp
  ultimately show ?thesis using t u by blast
qed

section \<open>Reading a file\<close>

text \<open>The disk block that holds block \<open>k\<close> of a file, and the bytes of the file.\<close>

definition fblock :: "kst \<Rightarrow> nat \<Rightarrow> nat \<Rightarrow> u32" where
  "fblock s ip k = (if k < NDIRECT then i_addrs (inodes s ip) ! k
     else rd32 (blk s (i_dev (inodes s ip)) (i_addrs (inodes s ip) ! NDIRECT)) (4 * (k - NDIRECT)))"

definition fbyte :: "kst \<Rightarrow> nat \<Rightarrow> nat \<Rightarrow> byte" where
  "fbyte s ip k = blk s (i_dev (inodes s ip)) (fblock s ip (k div BSIZE)) ! (k mod BSIZE)"

definition fcontent :: "kst \<Rightarrow> nat \<Rightarrow> byte list" where
  "fcontent s ip = map (fbyte s ip) [0..<unat (i_size (inodes s ip))]"

text \<open>Every block of the file is allocated.\<close>

definition file_ok :: "kst \<Rightarrow> nat \<Rightarrow> bool" where
  "file_ok s ip \<longleftrightarrow> i_dev (inodes s ip) \<noteq> 0 \<and> unat (i_size (inodes s ip)) \<le> MAXFILE * BSIZE \<and>
     (\<forall>k. k * BSIZE < unat (i_size (inodes s ip)) \<longrightarrow> fblock s ip k \<noteq> 0 \<and> (NDIRECT \<le> k \<longrightarrow> i_addrs (inodes s ip) ! NDIRECT \<noteq> 0))"

text \<open>From \<open>s\<close> to \<open>t\<close> only the cache has changed.\<close>

definition read_step :: "nat \<Rightarrow> kst \<Rightarrow> kst \<Rightarrow> bool" where
  "read_step p s t \<longleftrightarrow> log_inv p t {} \<and> tx_step 0 s t \<and> (\<forall>d n. d \<noteq> 0 \<longrightarrow> blk t d n = blk s d n)"

lemma read_step_trans: "read_step p s t \<Longrightarrow> read_step p t u \<Longrightarrow> read_step p s u"
  by (auto simp: read_step_def intro: tx_step_trans0)

lemma read_step_room: "read_step p s t \<Longrightarrow> tx_room k {} s \<Longrightarrow> tx_room k {} t"
  using tx_room_step [of 0 k "{}" s t] by (simp add: read_step_def)

lemma read_step_same:
  assumes "read_step p s t" "file_ok s ip"
  shows "inodes t = inodes s" "fblock t ip k = fblock s ip k" "fbyte t ip k = fbyte s ip k" "file_ok t ip" "fcontent t ip = fcontent s ip"
proof -
  have i: "inodes t = inodes s" using assms(1) by (simp add: read_step_def tx_step_def)
  have b: "blk t (i_dev (inodes s ip)) n = blk s (i_dev (inodes s ip)) n" for n using assms by (simp add: read_step_def file_ok_def)
  have f: "fblock t ip j = fblock s ip j" for j by (simp add: fblock_def i b)
  have g: "fbyte t ip j = fbyte s ip j" for j by (simp add: fbyte_def i b f)
  show "inodes t = inodes s" "fblock t ip k = fblock s ip k" "fbyte t ip k = fbyte s ip k" by (fact i, fact f, fact g)
  show "file_ok t ip" using assms(2) by (simp add: file_ok_def i f)
  show "fcontent t ip = fcontent s ip" by (simp add: fcontent_def i g)
qed


lemma bmap_mapped:
  assumes inv: "log_inv p s {}" and room: "tx_room 0 {} s" and ok: "file_ok s ip" and k: "unat bn * BSIZE < unat (i_size (inodes s ip))"
  shows "\<exists>t. bmap ip bn s = Ok (fblock s ip (unat bn), t) \<and> read_step p s t"
proof (cases "unat bn < NDIRECT")
  case True
  then have "fblock s ip (unat bn) = i_addrs (inodes s ip) ! unat bn" "fblock s ip (unat bn) \<noteq> 0" using ok k by (auto simp: fblock_def file_ok_def)
  then show ?thesis using True inv by (intro exI [of _ s]) (simp add: bmap_def read_step_def)
next
  case False
  let ?d = "i_dev (inodes s ip)" and ?a = "i_addrs (inodes s ip) ! NDIRECT"
  have "unat bn * BSIZE < MAXFILE * BSIZE" using ok k unfolding file_ok_def by linarith
  then have a: "?a \<noteq> 0" "fblock s ip (unat bn) \<noteq> 0" "?d \<noteq> 0" "unat bn < MAXFILE"
    using ok k False by (auto simp: file_ok_def not_less)
  have n: "unat (bn - of_nat NDIRECT) = unat bn - NDIRECT" using False by (simp add: unat_sub word_le_nat_alt NDIRECT_def)
  from tx_look [OF inv room a(3), of ?a] obtain b t u where
    t: "bread ?d ?a s = Ok (b, t)" "bdata (bufs t b) = blk s ?d ?a" "tx_step 0 s t" "brelse b t = Ok u" "log_inv p u {}" "tx_step 0 s u" "\<forall>e m. e \<noteq> 0 \<longrightarrow> blk u e m = blk s e m" by auto
  have r: "rd32 (blk s ?d ?a) (4 * (unat bn - NDIRECT)) = fblock s ip (unat bn)" using False by (simp add: fblock_def)
  have "bmap ip bn s = Ok (fblock s ip (unat bn), u)"
    using False a t n r by (simp add: bmap_def Let_def MAXFILE_def)
  then show ?thesis using t by (auto simp: read_step_def)
qed

lemma unat_BSIZE: "unat (of_nat BSIZE :: u32) = 1024" "BSIZE = 1024" "(of_nat BSIZE :: u32) = 1024"
  by (simp_all add: BSIZE_def)

lemma chunk_len_nat:
  assumes "tot < n"
  shows "unat (chunk_len n tot off) = min (unat n - unat tot) (BSIZE - unat off mod BSIZE)" "0 < unat (chunk_len n tot off)"
proof -
  have nt: "unat (n - tot) = unat n - unat tot" using assms by (simp add: unat_sub order.strict_implies_order)
  have o: "unat (off mod 1024) = unat off mod 1024" by (simp add: unat_mod)
  have "off mod 1024 \<le> 1024" by (simp add: word_le_nat_alt o)
  then have b: "unat (1024 - off mod 1024) = 1024 - unat off mod 1024" by (simp add: unat_sub o)
  show e: "unat (chunk_len n tot off) = min (unat n - unat tot) (BSIZE - unat off mod BSIZE)"
    using nt b by (simp add: chunk_len_def unat_BSIZE min_def word_le_nat_alt)
  have "unat off mod 1024 < 1024" by simp
  then show "0 < unat (chunk_len n tot off)" using assms by (simp add: e unat_BSIZE word_less_nat_alt)
qed

lemma chunk_bytes:
  assumes "length (blk s (i_dev (inodes s ip)) (fblock s ip (k div BSIZE))) = BSIZE" "m \<le> BSIZE - k mod BSIZE"
  shows "take m (drop (k mod BSIZE) (blk s (i_dev (inodes s ip)) (fblock s ip (k div BSIZE)))) = map (fbyte s ip) [k..<k + m]"
proof (rule nth_equalityI)
  let ?x = "blk s (i_dev (inodes s ip)) (fblock s ip (k div BSIZE))"
  have kb: "k mod 1024 < 1024" by simp
  show l: "length (take m (drop (k mod BSIZE) ?x)) = length (map (fbyte s ip) [k..<k + m])" using assms by simp
  fix j assume "j < length (take m (drop (k mod BSIZE) ?x))"
  then have j: "j < m" "k mod 1024 + j < 1024" using assms kb by (auto simp: unat_BSIZE)
  have "k + j = 1024 * (k div 1024) + (k mod 1024 + j)" by simp
  then have "(k + j) div 1024 = k div 1024" "(k + j) mod 1024 = k mod 1024 + j"
    using j(2) by (metis div_less div_mult_self4 add.right_neutral zero_neq_numeral mod_less mod_mult_self4)+
  then show "take m (drop (k mod BSIZE) ?x) ! j = map (fbyte s ip) [k..<k + m] ! j" using j assms by (simp add: fbyte_def unat_BSIZE)
qed

lemma readi_byte_turn:
  assumes inv: "log_inv p s {}" and room: "tx_room 0 {} s" and ok: "file_ok s ip" and t: "tot < n" and o: "unat off < unat (i_size (inodes s ip))"
  shows "\<exists>t. readi_turn ip n (tot, off, DVar xs, s) =
      Ok (Next (tot + chunk_len n tot off, off + chunk_len n tot off, DVar (xs @ map (fbyte s ip) [unat off..<unat off + unat (chunk_len n tot off)]), t)) \<and>
    read_step p s t"
proof -
  let ?bn = "off div of_nat BSIZE" and ?m = "chunk_len n tot off"
  have bn: "unat ?bn = unat off div BSIZE" by (simp add: unat_BSIZE unat_div)
  have "unat ?bn * BSIZE < unat (i_size (inodes s ip))" using o unfolding bn by (metis div_times_less_eq_dividend le_less_trans)
  from bmap_mapped [OF inv room ok this] obtain u where u: "bmap ip ?bn s = Ok (fblock s ip (unat off div BSIZE), u)" "read_step p s u"
    by (auto simp: bn)
  have nz: "fblock s ip (unat off div BSIZE) \<noteq> 0" using ok \<open>unat ?bn * BSIZE < _\<close> by (auto simp: file_ok_def bn)
  have d: "i_dev (inodes s ip) \<noteq> 0" using ok by (simp add: file_ok_def)
  have iu: "inodes u = inodes s" "log_inv p u {}" "tx_room 0 {} u" using u(2) read_step_same(1) [OF u(2) ok] read_step_room [OF u(2) room] by (auto simp: read_step_def)
  let ?a = "fblock s ip (unat off div BSIZE)"
  from tx_look [OF iu(2,3) d, of ?a] obtain b v w where
    v: "bread (i_dev (inodes s ip)) ?a u = Ok (b, v)" "bdata (bufs v b) = blk u (i_dev (inodes s ip)) ?a" "tx_step 0 u v" "log_inv p v {b}"
       "brelse b v = Ok w" "log_inv p w {}" "tx_step 0 u w" "\<forall>e m. e \<noteq> 0 \<longrightarrow> blk w e m = blk u e m" by auto
  have x: "bdata (bufs v b) = blk s (i_dev (inodes s ip)) ?a" using v(2) u(2) d by (simp add: read_step_def)
  have len: "length (blk s (i_dev (inodes s ip)) ?a) = BSIZE" using inv blk_length [OF _ d] by (auto simp: log_inv_def)
  have c: "take (unat ?m) (drop (unat off mod BSIZE) (bdata (bufs v b))) = map (fbyte s ip) [unat off..<unat off + unat ?m]"
    unfolding x by (rule chunk_bytes [OF len]) (simp add: chunk_len_nat [OF t])
  have p: "curproc (sch v) = Some p" using log_inv_H [OF v(4)] by (simp add: runs_def)
  have "readi_turn ip n (tot, off, DVar xs, s) = Ok (Next (tot + ?m, off + ?m, DVar (xs @ map (fbyte s ip) [unat off..<unat off + unat ?m]), w))"
    using t u(1) nz v(1,5) c p by (simp add: readi_turn_def iu(1) either_copyout_def myproc_def deref_def Let_def)
  moreover have "read_step p u w" using v by (simp add: read_step_def)
  ultimately show ?thesis using read_step_trans [OF u(2)] by blast
qed

lemma readi_loop:
  assumes "log_inv p s {}" "tx_room 0 {} s" "file_ok s ip" "tot \<le> n" "unat off + (unat n - unat tot) \<le> unat (i_size (inodes s ip))"
  shows "\<exists>t. loopR (readi_turn ip n) (tot, off, DVar xs, s) =
    Ok (n, DVar (xs @ map (fbyte s ip) [unat off..<unat off + (unat n - unat tot)]), t) \<and> read_step p s t"
  using assms
proof (induction "unat n - unat tot" arbitrary: tot off xs s rule: less_induct)
  case less
  show ?case
  proof (cases "tot < n")
    case False
    then have "tot = n" using less.prems(4) by simp
    then have "readi_turn ip n (tot, off, DVar xs, s) = Ok (Exit (n, DVar xs, s))" by (simp add: readi_turn_def)
    from loopR_Exit [of "readi_turn ip n", OF this] \<open>tot = n\<close> less.prems(1) show ?thesis by (auto simp: read_step_def)
  next
    case True
    let ?m = "chunk_len n tot off"
    have m: "unat ?m \<le> unat n - unat tot" "0 < unat ?m" using chunk_len_nat [OF True, of off] by auto
    have tn: "unat tot < unat n" using True by (simp add: word_less_nat_alt)
    then have o: "unat off < unat (i_size (inodes s ip))" using less.prems(5) by linarith
    from readi_byte_turn [OF less.prems(1-3) True o, of xs] obtain t where
      t: "readi_turn ip n (tot, off, DVar xs, s) = Ok (Next (tot + ?m, off + ?m, DVar (xs @ map (fbyte s ip) [unat off..<unat off + unat ?m]), t))" "read_step p s t" by blast
    have big: "unat n < 2 ^ 32" "unat (i_size (inodes s ip)) < 2 ^ 32" using unsigned_less [of n, where ?'a = nat] unsigned_less [of "i_size (inodes s ip)", where ?'a = nat] by simp_all
    have tm: "unat (tot + ?m) = unat tot + unat ?m" "unat (off + ?m) = unat off + unat ?m"
      using m tn big less.prems(5) by (auto simp: unat_word_ariths(1))
    let ?ys = "xs @ map (fbyte s ip) [unat off..<unat off + unat ?m]"
    have "\<exists>u. loopR (readi_turn ip n) (tot + ?m, off + ?m, DVar ?ys, t) =
      Ok (n, DVar (?ys @ map (fbyte t ip) [unat (off + ?m)..<unat (off + ?m) + (unat n - unat (tot + ?m))]), u) \<and> read_step p t u"
    proof (rule less.hyps)
      show "unat n - unat (tot + ?m) < unat n - unat tot" using m tn by (simp add: tm)
      show "log_inv p t {}" using t(2) by (simp add: read_step_def)
      show "tx_room 0 {} t" by (rule read_step_room [OF t(2) less.prems(2)])
      show "file_ok t ip" by (rule read_step_same(4) [OF t(2) less.prems(3)])
      show "tot + ?m \<le> n" using m tn by (simp add: word_le_nat_alt tm)
      show "unat (off + ?m) + (unat n - unat (tot + ?m)) \<le> unat (i_size (inodes t ip))"
        using less.prems(5) m tn by (simp add: tm read_step_same(1) [OF t(2) less.prems(3)])
    qed
    then obtain u where u: "loopR (readi_turn ip n) (tot + ?m, off + ?m, DVar ?ys, t) =
      Ok (n, DVar (?ys @ map (fbyte s ip) [unat off + unat ?m..<unat off + unat ?m + (unat n - (unat tot + unat ?m))]), u)" "read_step p t u"
      by (auto simp: tm read_step_same(3) [OF t(2) less.prems(3)])
    have "[unat off..<unat off + (unat n - unat tot)] = [unat off..<unat off + unat ?m] @ [unat off + unat ?m..<unat off + unat ?m + (unat n - (unat tot + unat ?m))]"
    proof -
      have e: "unat off + unat ?m + (unat n - (unat tot + unat ?m)) = unat off + (unat n - unat tot)" using m(1) by linarith
      show ?thesis using upt_add_eq_append [of "unat off" "unat off + unat ?m" "unat n - (unat tot + unat ?m)"] unfolding e by simp
    qed
    then have "map (fbyte s ip) [unat off..<unat off + (unat n - unat tot)] =
      map (fbyte s ip) [unat off..<unat off + unat ?m] @ map (fbyte s ip) [unat off + unat ?m..<unat off + unat ?m + (unat n - (unat tot + unat ?m))]" by simp
    then show ?thesis using u loopR_Next [of "readi_turn ip n", OF t(1)] read_step_trans [OF t(2) u(2)] by simp
  qed
qed

lemma sint_small: "unat (w :: u32) < 2 ^ 31 \<Longrightarrow> sint w = int (unat w)"
proof -
  assume a: "unat w < 2 ^ 31"
  then have "sint (word_of_nat (unat w) :: u32) = int (unat w)" by (intro sint_of_nat_small) simp
  then show ?thesis by simp
qed

text \<open>The number of bytes \<open>readi\<close> delivers.\<close>

definition read_count :: "u32 \<Rightarrow> u32 \<Rightarrow> u32 \<Rightarrow> nat" where
  "read_count z off n = (if unat off > unat z \<or> unat off + unat n \<ge> 2 ^ 32 then 0 else min (unat n) (unat z - unat off))"


definition sample_itable :: "nat \<Rightarrow> inode" where
  "sample_itable = (\<lambda>_. sample_inode)(3 := sample_inode\<lparr>i_dev := 1, i_num := 5, i_ref := 1, i_valid := True, i_type := 2, i_nlink := 1,
     i_size := 20, i_addrs := 100 # replicate 12 0\<rparr>)"

lemma sample_file_state:
  "\<exists>s. log_inv 0 s {} \<and> tx_room 5 {} s \<and> lg_dev (lg s) = 1 \<and> inodes s = sample_itable \<and> (\<forall>n. n \<noteq> 2 \<longrightarrow> blk s 1 n = replicate BSIZE (ucast n)) \<and>
     (\<forall>i. \<not> slocked (sl s (ChSleepInode i))) \<and> sb_inodestart (sb s) = 32 \<and> log_area (lg s) = (\<lambda>b. 2 \<le> unat b \<and> unat b < 32)"
proof -
  let ?D = "\<lambda>(d :: u32) (n :: u32). if n = 2 then replicate BSIZE 0 else replicate BSIZE (ucast n) :: byte list"
  have len: "length (?D d n) = BSIZE" for d n by simp
  have "rd32 (?D 1 2) 0 = 0" by (simp add: rd32_def BSIZE_def)
  from sample_tx [where D = ?D, OF len this, of sample_itable] obtain s where
    s: "log_inv 0 s {}" "\<forall>d n. d \<noteq> 0 \<longrightarrow> blk s d n = ?D d n" "sb s = sb (sample_kst undefined)" "inodes s = sample_itable" "\<forall>i. \<not> slocked (sl s (ChSleepInode i))"
    "lg s = \<lparr>lg_start = 2, lg_size = 30, outstanding = 1, committing = False, lg_dev = 1, lh_n = 0, lh_block = replicate 30 0\<rparr>" by auto
  then show ?thesis by (intro exI [of _ s]) (simp add: tx_room_def NBUF_def MAXOPBLOCKS_def sample_kst_def log_area_def fun_eq_iff)
qed


section \<open>Inodes on disk\<close>

lemma rd16_wr32s_other: "j + 1 < i \<or> i + 4 * length vs \<le> j \<Longrightarrow> rd16 (wr32s bs i vs) j = rd16 bs j"
  by (induction vs arbitrary: bs i) (auto simp: rd16_wr32_other)

lemma nth_wr32s_other: "j < i \<or> i + 4 * length vs \<le> j \<Longrightarrow> wr32s bs i vs ! j = bs ! j"
  by (induction vs arbitrary: bs i) (auto simp: wr_other)

lemma put_dinode_length [simp]: "length (put_dinode r d x) = length x"
  by (simp add: put_dinode_def)

definition same_disk_fields :: "inode \<Rightarrow> inode \<Rightarrow> inode" where
  "same_disk_fields r g = g\<lparr>i_type := i_type r, i_major := i_major r, i_minor := i_minor r, i_nlink := i_nlink r, i_size := i_size r, i_addrs := i_addrs r\<rparr>"

lemma get_put_dinode:
  assumes "d + DINODE \<le> length x" "length (i_addrs r) = NDIRECT + 1"
  shows "get_dinode (put_dinode r d x) d g = same_disk_fields r g"
proof -
  have l: "d + 64 \<le> length x" "length (i_addrs r) = 13" using assms by (simp_all add: DINODE_def NDIRECT_def)
  have a: "map (\<lambda>k. rd32 (put_dinode r d x) (d + 12 + 4 * k)) [0..<NDIRECT + 1] = i_addrs r"
    by (rule nth_equalityI) (use l in \<open>auto simp: put_dinode_def NDIRECT_def rd_wr32s\<close>)
  have "rd16 (put_dinode r d x) d = i_type r" "rd16 (put_dinode r d x) (d + 2) = i_major r" "rd16 (put_dinode r d x) (d + 4) = i_minor r"
    "rd16 (put_dinode r d x) (d + 6) = i_nlink r" "rd32 (put_dinode r d x) (d + 8) = i_size r"
    using l by (simp_all add: put_dinode_def rd16_wr32s_other wr32s_other rd_wr_other)
  then show ?thesis unfolding get_dinode_def same_disk_fields_def a by (simp only:)
qed

lemma put_dinode_other: "j < d \<or> d + DINODE \<le> j \<Longrightarrow> length (i_addrs r) = NDIRECT + 1 \<Longrightarrow> put_dinode r d x ! j = x ! j"
  by (auto simp: put_dinode_def nth_wr32s_other wr_other DINODE_def NDIRECT_def)

lemma get_dinode_cong:
  assumes "\<And>j. d \<le> j \<Longrightarrow> j < d + DINODE \<Longrightarrow> x ! j = y ! j"
  shows "get_dinode x d g = get_dinode y d g"
proof -
  have r: "rd32 x (d + k) = rd32 y (d + k)" if "k + 3 < DINODE" for k using assms that by (simp add: rd32_def)
  have q: "rd16 x (d + k) = rd16 y (d + k)" if "k + 1 < DINODE" for k using assms that by (simp add: rd16_def)
  have "map (\<lambda>k. rd32 x (d + 12 + 4 * k)) [0..<NDIRECT + 1] = map (\<lambda>k. rd32 y (d + 12 + 4 * k)) [0..<NDIRECT + 1]"
    by (rule map_cong) (use r [of "12 + 4 * _"] in \<open>auto simp: DINODE_def NDIRECT_def add.assoc\<close>)
  then show ?thesis using q [of 0] q [of 2] q [of 4] q [of 6] r [of 8] by (simp add: get_dinode_def DINODE_def)
qed

text \<open>The inode with number \<open>i\<close> as it is on the disk, seen through the cache and the log.\<close>

definition dinode :: "kst \<Rightarrow> u32 \<Rightarrow> inode \<Rightarrow> inode" where
  "dinode s i = get_dinode (blk s (lg_dev (lg s)) (IBLOCK i (sb s))) (dinode_off i)"

lemma dinode_place: "dinode_off i + DINODE \<le> BSIZE"
proof -
  have "unat i mod 16 < 16" by simp
  then have "64 * (unat i mod 16) + 64 \<le> 1024" by linarith
  then show ?thesis by (simp add: dinode_off_def DINODE_def IPB_def BSIZE_def)
qed

lemma dinode_apart:
  assumes "i \<noteq> j" "IBLOCK i b = IBLOCK j b"
  shows "dinode_off j + DINODE \<le> dinode_off i \<or> dinode_off i + DINODE \<le> dinode_off j"
proof -
  have "i div 16 = j div 16" using assms(2) by (simp add: IBLOCK_def IPB_def DINODE_def BSIZE_def)
  then have "unat i div 16 = unat j div 16" by (simp add: word_unat_eq_iff unat_div)
  then have "unat i mod 16 \<noteq> unat j mod 16" using assms(1) same_div_mod [of "unat i" "unat j" 16] by (auto simp: word_unat_eq_iff)
  then show ?thesis by (auto simp: dinode_off_def DINODE_def IPB_def BSIZE_def)
qed

lemma iupdate_spec:
  assumes inv: "log_inv p s H" and room: "tx_room (Suc k) H s" and d: "i_dev (inodes s ip) = lg_dev (lg s)" "length (i_addrs (inodes s ip)) = NDIRECT + 1"
    and a: "\<not> log_area (lg s) (IBLOCK (i_num (inodes s ip)) (sb s))"
    and ne: "\<And>i. i \<in> H \<Longrightarrow> \<not> (bdev (bufs s i) = lg_dev (lg s) \<and> bblockno (bufs s i) = IBLOCK (i_num (inodes s ip)) (sb s))"
  shows "\<exists>t. iupdate ip s = Ok t \<and> log_inv p t H \<and> tx_room k H t \<and> tx_step 1 s t \<and>
    (\<forall>e m. e \<noteq> 0 \<longrightarrow> (e, m) \<noteq> (lg_dev (lg s), IBLOCK (i_num (inodes s ip)) (sb s)) \<longrightarrow> blk t e m = blk s e m) \<and>
    (\<forall>j g. dinode t j g = (if j = i_num (inodes s ip) then same_disk_fields (inodes s ip) g else dinode s j g))"
proof -
  let ?r = "inodes s ip" and ?d = "lg_dev (lg s)" and ?B = "IBLOCK (i_num (inodes s ip)) (sb s)"
  let ?o = "dinode_off (i_num ?r)"
  have d0: "?d \<noteq> 0" using log_inv_H [OF inv] by simp
  have len: "length (blk s ?d m) = BSIZE" for m using inv blk_length [OF _ d0] by (auto simp: log_inv_def)
  from tx_modify [where f = "put_dinode ?r ?o", OF inv room refl a ne] len obtain b t u v where
    m: "bread ?d ?B s = Ok (b, t)" "tx_step 0 s t" "log_write b (upd_buf b (\<lambda>r. r\<lparr>bdata := put_dinode ?r ?o (bdata r)\<rparr>) t) = Ok u"
       "brelse b u = Ok v" "log_inv p v H" "tx_room k H v" "tx_step 1 s v"
       "\<forall>e m. e \<noteq> 0 \<longrightarrow> blk v e m = (if e = ?d \<and> m = ?B then put_dinode ?r ?o (blk s ?d ?B) else blk s e m)" by auto
  have it: "inodes t = inodes s" using m(2) by (simp add: tx_step_def)
  have run: "iupdate ip s = Ok v" using m(1,3,4) by (simp add: iupdate_def d(1) it Let_def)
  have sv: "lg_dev (lg v) = ?d" "sb v = sb s" using m(7) by (simp_all add: tx_step_def)
  have "dinode v j g = (if j = i_num ?r then same_disk_fields ?r g else dinode s j g)" for j g
  proof (cases "IBLOCK j (sb s) = ?B")
    case True
    then have D: "dinode v j g = get_dinode (put_dinode ?r ?o (blk s ?d ?B)) (dinode_off j) g" using m(8) d0 by (simp add: dinode_def sv)
    show ?thesis
    proof (cases "j = i_num ?r")
      case True then show ?thesis using D get_put_dinode [OF _ d(2)] dinode_place [of j] by (simp add: len)
    next
      case False
      then have "get_dinode (put_dinode ?r ?o (blk s ?d ?B)) (dinode_off j) g = get_dinode (blk s ?d ?B) (dinode_off j) g"
        using dinode_apart [OF False True] by (intro get_dinode_cong put_dinode_other [OF _ d(2)]) linarith
      then show ?thesis using D False True by (simp add: dinode_def)
    qed
  next
    case False
    then have "j \<noteq> i_num ?r" by auto
    then show ?thesis using False m(8) d0 by (simp add: dinode_def sv)
  qed
  then show ?thesis using run m by (intro exI [of _ v]) auto
qed



section \<open>The inode table\<close>

text \<open>Every inode has at most one entry in use, and no reference count is negative.\<close>

definition itable_ok :: "kst \<Rightarrow> bool" where
  "itable_ok s \<longleftrightarrow> (\<forall>i<NINODE. 0 \<le> i_ref (inodes s i)) \<and>
     (\<forall>i<NINODE. \<forall>j<NINODE. 0 < i_ref (inodes s i) \<longrightarrow> 0 < i_ref (inodes s j) \<longrightarrow>
        i_dev (inodes s i) = i_dev (inodes s j) \<longrightarrow> i_num (inodes s i) = i_num (inodes s j) \<longrightarrow> i = j)"

definition in_table :: "u32 \<Rightarrow> u32 \<Rightarrow> kst \<Rightarrow> nat \<Rightarrow> bool" where
  "in_table dev inum s i \<longleftrightarrow> 0 < i_ref (inodes s i) \<and> i_dev (inodes s i) = dev \<and> i_num (inodes s i) = inum"

text \<open>
  The inode table: \<open>iget\<close> returns the entry of the inode with one more reference, taking
  a free entry, marked as not read, only when there is none; no inode ever gets two entries; the
  other entries stay as they are; it panics exactly when the inode is not in the table and all
  entries are in use.
\<close>

theorem iget_correct:
  assumes ok: "itable_ok s" and lk: "LkItable \<notin> set (held (sch s))"
  shows "if (\<exists>i<NINODE. in_table dev inum s i) \<or> (\<exists>i<NINODE. i_ref (inodes s i) = 0)
    then \<exists>i t. iget dev inum s = Ok (i, t) \<and> i < NINODE \<and> in_table dev inum t i \<and> itable_ok t \<and> sch t = sch s \<and>
      (if \<exists>j<NINODE. in_table dev inum s j then in_table dev inum s i \<and> inodes t i = (inodes s i)\<lparr>i_ref := i_ref (inodes s i) + 1\<rparr>
       else i_ref (inodes s i) = 0 \<and> i_ref (inodes t i) = 1 \<and> \<not> i_valid (inodes t i)) \<and>
      (\<forall>j. j \<noteq> i \<longrightarrow> inodes t j = inodes s j)
    else iget dev inum s = Panic ''iget: no inodes''"
proof -
  let ?s = "s\<lparr>sch := (sch s)\<lparr>held := LkItable # held (sch s)\<rparr>\<rparr>"
  let ?P = "\<lambda>i. i_ref (inodes s i) > 0 \<and> i_dev (inodes s i) = dev \<and> i_num (inodes s i) = inum"
  have acq: "kacquire LkItable s = Ok ?s" using lk by simp
  have rel: "krelease LkItable (upd_inode i f ?s) = Ok (upd_inode i f s)" for i f
    by (simp add: upd_inode_def)
  show ?thesis
  proof (cases "find ?P [0..<NINODE]")
    case (Some i)
    then have i: "i < NINODE" "?P i" using find_upt_Some [OF Some] by auto
    let ?t = "upd_inode i (\<lambda>r. r\<lparr>i_ref := i_ref r + 1\<rparr>) s"
    have run: "iget dev inum s = Ok (i, ?t)" using acq Some rel by (simp add: iget_def)
    have "itable_ok ?t" using ok i by (auto simp: itable_ok_def upd_inode_def)
    then show ?thesis using run i by (auto simp: in_table_def upd_inode_def)
  next
    case None
    have no: "\<not> ?P i" if "i < NINODE" for i by (rule find_upt_None [OF None that])
    show ?thesis
    proof (cases "find (\<lambda>i. i_ref (inodes s i) = 0) [0..<NINODE]")
      case (Some i)
      then have i: "i < NINODE" "i_ref (inodes s i) = 0" using find_upt_Some [OF Some] by auto
      let ?t = "upd_inode i (\<lambda>r. r\<lparr>i_dev := dev, i_num := inum, i_ref := 1, i_valid := False\<rparr>) s"
      have run: "iget dev inum s = Ok (i, ?t)" using acq None Some rel by (simp add: iget_def)
      have "itable_ok ?t" using ok no i unfolding itable_ok_def upd_inode_def by auto
      then show ?thesis using run i no by (auto simp: in_table_def upd_inode_def)
    next
      case N: None
      have "iget dev inum s = Panic ''iget: no inodes''" using acq None N by (simp add: iget_def)
      then show ?thesis using no find_upt_None [OF N] by (auto simp: in_table_def)
    qed
  qed
qed

theorem iget_correct_witness:
  "\<exists>s t. iget 1 5 s = Ok (3, t) \<and> i_ref (inodes s 3) = 1 \<and> i_ref (inodes t 3) = 2"
proof -
  obtain s where s: "log_inv 0 s {}" "inodes s = sample_itable" using sample_file_state by blast
  have "held (sch s) = []" using log_inv_H [OF s(1)] by simp
  moreover have ok: "itable_ok s" by (simp add: itable_ok_def s(2) sample_itable_def sample_inode_def)
  moreover have only: "in_table 1 5 s i \<longleftrightarrow> i = 3" for i by (simp add: in_table_def s(2) sample_itable_def sample_inode_def)
  moreover have "(3 :: nat) < NINODE" by (simp add: NINODE_def)
  moreover from calculation obtain t where "iget 1 5 s = Ok (3, t)" "inodes t 3 = (inodes s 3)\<lparr>i_ref := i_ref (inodes s 3) + 1\<rparr>"
    using iget_correct [of s 1 5] by auto
  ultimately show ?thesis by (intro exI [of _ s] exI [of _ t]) (simp add: s(2) sample_itable_def sample_inode_def)
qed

end
