(* ===== verification/Dir.thy ===== *)
theory Dir
  imports Inode
begin

text \<open>
  Directories and path names: the rest of \<open>kernel/fs.c\<close>.  A C string is the list of its
  characters, with a NUL behind the last one; the name in a directory entry is an array of
  \<open>DIRSIZ\<close> characters that is not terminated when it is full.
\<close>

section \<open>Names\<close>

definition chr :: "byte list \<Rightarrow> byte" where
  "chr s = (case s of [] \<Rightarrow> 0 | c # _ \<Rightarrow> c)"

primrec strncmp_str :: "nat \<Rightarrow> byte list \<Rightarrow> byte list \<Rightarrow> int" where
  "strncmp_str 0 s t = 0"
| "strncmp_str (Suc n) s t =
     (if chr s \<noteq> 0 \<and> chr s = chr t then strncmp_str n (tl s) (tl t) else uint (chr s) - uint (chr t))"

definition namecmp :: "byte list \<Rightarrow> byte list \<Rightarrow> int" where
  "namecmp s t = strncmp_str DIRSIZ s t"

text \<open>\<open>strncpy(de.name, name, DIRSIZ)\<close>.\<close>

definition strncpy_str :: "nat \<Rightarrow> byte list \<Rightarrow> byte list" where
  "strncpy_str n s = take n (takeWhile (\<lambda>c. c \<noteq> 0) s @ replicate n 0)"

section \<open>Directories\<close>

definition DIRENT :: nat where "DIRENT = 16"

definition de_inum :: "byte list \<Rightarrow> 16 word" where "de_inum de = rd16 de 0"
definition de_name :: "byte list \<Rightarrow> byte list" where "de_name de = take DIRSIZ (drop 2 de)"

definition mk_dirent :: "16 word \<Rightarrow> byte list \<Rightarrow> byte list" where
  "mk_dirent i n = [ucast i, ucast (drop_bit 8 i)] @ n"

text \<open>\<open>readi\<close> of one entry into a local variable.\<close>

definition read_dirent :: "string \<Rightarrow> nat \<Rightarrow> u32 \<Rightarrow> kst \<Rightarrow> (byte list \<times> kst) res" where
  "read_dirent msg dp off s =
     bindR (readi dp (DVar []) off (of_nat DIRENT) s) (\<lambda>(r, d, s).
     if r \<noteq> int DIRENT then Panic msg
     else Ok ((case d of DVar de \<Rightarrow> de | _ \<Rightarrow> []), s))"

definition dirlookup_turn :: "nat \<Rightarrow> byte list \<Rightarrow> u32 \<times> kst \<Rightarrow> (u32 \<times> kst, nat option \<times> u32 \<times> kst) ctl res" where
  "dirlookup_turn dp nm = (\<lambda>(off, s).
     if off < i_size (inodes s dp) then
       bindR (read_dirent ''dirlookup read'' dp off s) (\<lambda>(de, s).
       if de_inum de = 0 then Ok (Next (off + of_nat DIRENT, s))
       else if namecmp nm (de_name de) = 0 then
         bindR (iget (i_dev (inodes s dp)) (ucast (de_inum de)) s) (\<lambda>(ip, s).
         Ok (Exit (Some ip, off, s)))
       else Ok (Next (off + of_nat DIRENT, s)))
     else Ok (Exit (None, 0, s)))"

text \<open>The offset of the entry is the second part of the result.\<close>

definition dirlookup :: "nat \<Rightarrow> byte list \<Rightarrow> kst \<Rightarrow> (nat option \<times> u32 \<times> kst) res" where
  "dirlookup dp nm s =
     (if i_type (inodes s dp) \<noteq> T_DIR then Panic ''dirlookup not DIR''
      else loopR (dirlookup_turn dp nm) (0, s))"

definition empty_slot_turn :: "nat \<Rightarrow> u32 \<times> kst \<Rightarrow> (u32 \<times> kst, u32 \<times> kst) ctl res" where
  "empty_slot_turn dp = (\<lambda>(off, s).
     if off < i_size (inodes s dp) then
       bindR (read_dirent ''dirlink read'' dp off s) (\<lambda>(de, s).
       if de_inum de = 0 then Ok (Exit (off, s)) else Ok (Next (off + of_nat DIRENT, s)))
     else Ok (Exit (off, s)))"

definition dirlink :: "nat \<Rightarrow> byte list \<Rightarrow> u32 \<Rightarrow> kst \<Rightarrow> (int \<times> kst) res" where
  "dirlink dp nm inum s =
     bindR (dirlookup dp nm s) (\<lambda>(found, _, s).
     case found of
       Some ip \<Rightarrow> bindR (iput ip s) (\<lambda>s. Ok (-1, s))
     | None \<Rightarrow>
         bindR (loopR (empty_slot_turn dp) (0, s)) (\<lambda>(off, s).
         bindR (writei dp (SVar (mk_dirent (ucast inum) (strncpy_str DIRSIZ nm))) off (of_nat DIRENT) s) (\<lambda>(r, s).
         if r \<noteq> int DIRENT then Ok (-1, s) else Ok (0, s))))"

section \<open>Paths\<close>

definition slash :: byte where "slash = 47"

text \<open>The rest of the path and the buffer for the element, or \<open>None\<close> for the null pointer.\<close>

definition skipelem :: "byte list \<Rightarrow> byte list \<Rightarrow> (byte list \<times> byte list) option" where
  "skipelem path nm =
     (let path = dropWhile (\<lambda>c. c = slash) path in
      if chr path = 0 then None
      else
        let elem = takeWhile (\<lambda>c. c \<noteq> slash \<and> c \<noteq> 0) path;
            path = dropWhile (\<lambda>c. c \<noteq> slash \<and> c \<noteq> 0) path;
            len = length elem;
            nm = (if len \<ge> DIRSIZ then take DIRSIZ elem @ drop DIRSIZ nm else elem @ [0] @ drop (len + 1) nm)
        in Some (dropWhile (\<lambda>c. c = slash) path, nm))"

definition namex_turn ::
  "bool \<Rightarrow> nat \<times> byte list \<times> byte list \<times> kst \<Rightarrow> (nat \<times> byte list \<times> byte list \<times> kst, nat option \<times> byte list \<times> kst) ctl res" where
  "namex_turn par = (\<lambda>(ip, path, nm, s).
     case skipelem path nm of
       None \<Rightarrow>
         if par then bindR (iput ip s) (\<lambda>s. Ok (Exit (None, nm, s))) else Ok (Exit (Some ip, nm, s))
     | Some (path, nm) \<Rightarrow>
         bindR (ilock (Some ip) s) (\<lambda>s.
         if i_type (inodes s ip) \<noteq> T_DIR then bindR (iunlockput ip s) (\<lambda>s. Ok (Exit (None, nm, s)))
         else if par \<and> chr path = 0 then bindR (iunlock (Some ip) s) (\<lambda>s. Ok (Exit (Some ip, nm, s)))
         else
           bindR (dirlookup ip nm s) (\<lambda>(nxt, _, s).
           bindR (iunlockput ip s) (\<lambda>s.
           case nxt of None \<Rightarrow> Ok (Exit (None, nm, s)) | Some i \<Rightarrow> Ok (Next (i, path, nm, s))))))"

definition namex :: "byte list \<Rightarrow> bool \<Rightarrow> byte list \<Rightarrow> kst \<Rightarrow> (nat option \<times> byte list \<times> kst) res" where
  "namex path par nm s =
     bindR (if chr path = slash then iget ROOTDEV ROOTINO s
            else
              bindR (deref (myproc (sch s))) (\<lambda>p.
              bindR (deref (cwd (procs (sch s) p))) (\<lambda>d. idup d s))) (\<lambda>(ip, s).
     loopR (namex_turn par) (ip, path, nm, s))"

text \<open>The buffer that \<open>namei\<close> passes is not initialised; its contents do not matter.\<close>

definition namei :: "byte list \<Rightarrow> kst \<Rightarrow> (nat option \<times> kst) res" where
  "namei path s = bindR (namex path False (replicate DIRSIZ 0) s) (\<lambda>(ip, _, s). Ok (ip, s))"

definition nameiparent :: "byte list \<Rightarrow> byte list \<Rightarrow> kst \<Rightarrow> (nat option \<times> byte list \<times> kst) res" where
  "nameiparent path nm s = namex path True nm s"

section \<open>Names compared\<close>

definition cstr :: "byte list \<Rightarrow> byte list" where
  "cstr s = takeWhile (\<lambda>c. c \<noteq> 0) s"

lemma cstr_Cons: "cstr s = (if chr s = 0 then [] else chr s # cstr (tl s))"
  by (cases s) (auto simp: cstr_def chr_def)

lemma strncmp_str_zero: "strncmp_str n s t = 0 \<longleftrightarrow> take n (cstr s) = take n (cstr t)"
proof (induction n arbitrary: s t)
  case (Suc n)
  have "uint (chr s) - uint (chr t) = 0 \<longleftrightarrow> chr s = chr t" by (auto simp: word_uint_eq_iff)
  then show ?case using Suc.IH [of "tl s" "tl t"] by (auto simp: cstr_Cons [of s] cstr_Cons [of t])
qed simp

text \<open>The comparison on lists is \<open>strncmp\<close> of \<open>string.c\<close> on strings in memory.\<close>

lemma strncmp_str_mem:
  assumes "\<And>i. i < n \<Longrightarrow> m (p + of_nat i) = (if i < length s then s ! i else 0)" "\<And>i. i < n \<Longrightarrow> m (q + of_nat i) = (if i < length t then t ! i else 0)"
  shows "strncmp_loop m p q n = strncmp_str n s t"
  using assms
proof (induction n arbitrary: p q s t)
  case (Suc n)
  have c: "m p = chr s" "m q = chr t" using Suc.prems(1) [of 0] Suc.prems(2) [of 0] by (auto simp: chr_def split: list.splits)
  have "strncmp_loop m (p + 1) (q + 1) n = strncmp_str n (tl s) (tl t)"
  proof (rule Suc.IH)
    fix i assume i: "i < n"
    show "m (p + 1 + of_nat i) = (if i < length (tl s) then tl s ! i else 0)"
      using Suc.prems(1) [of "Suc i"] i by (auto simp: nth_tl add.assoc)
    show "m (q + 1 + of_nat i) = (if i < length (tl t) then tl t ! i else 0)"
      using Suc.prems(2) [of "Suc i"] i by (auto simp: nth_tl add.assoc)
  qed
  then show ?case by (simp add: c)
qed simp

section \<open>Path elements\<close>

lemma dropWhile_head: "dropWhile P p = x # xs \<Longrightarrow> \<not> P x"
  by (induction p) (auto split: if_splits)

lemma skipelem_shorter: "skipelem path nm = Some (rest, nm') \<Longrightarrow> length rest < length path"
proof -
  let ?p = "dropWhile (\<lambda>c. c = slash) path"
  assume a: "skipelem path nm = Some (rest, nm')"
  then have c: "chr ?p \<noteq> 0" and r: "rest = dropWhile (\<lambda>c. c = slash) (dropWhile (\<lambda>c. c \<noteq> slash \<and> c \<noteq> 0) ?p)"
    by (auto simp: skipelem_def Let_def split: if_splits)
  then obtain x xs where p: "?p = x # xs" "x \<noteq> 0" by (auto simp: chr_def split: list.splits)
  have "x \<noteq> slash" by (rule dropWhile_head [OF p(1)])
  then have "rest = dropWhile (\<lambda>c. c = slash) (dropWhile (\<lambda>c. c \<noteq> slash \<and> c \<noteq> 0) xs)" using r p by simp
  then have "length rest \<le> length (dropWhile (\<lambda>c. c \<noteq> slash \<and> c \<noteq> 0) xs)" by (simp only: length_dropWhile_le)
  then have "length rest \<le> length xs" by (rule le_trans [OF _ length_dropWhile_le])
  moreover have "length ?p \<le> length path" by (rule length_dropWhile_le)
  ultimately show ?thesis using p by simp
qed

text \<open>The names that repeated calls of \<open>skipelem\<close> leave in the buffer.\<close>

function path_elems :: "byte list \<Rightarrow> byte list \<Rightarrow> byte list list" where
  "path_elems path nm =
     (case skipelem path nm of None \<Rightarrow> [] | Some (rest, nm) \<Rightarrow> cstr (take DIRSIZ nm) # path_elems rest nm)"
  by pat_completeness auto
termination by (relation "measure (\<lambda>(path, nm). length path)") (auto dest: skipelem_shorter)

declare path_elems.simps [simp del]

text \<open>Reference: the parts of the string between slashes, without the empty ones, cut to \<open>DIRSIZ\<close> characters.\<close>

fun split_slash :: "byte list \<Rightarrow> byte list list" where
  "split_slash [] = [[]]"
| "split_slash (c # cs) = (if c = slash then [] # split_slash cs else (c # hd (split_slash cs)) # tl (split_slash cs))"

definition components :: "byte list \<Rightarrow> byte list list" where
  "components path = filter (\<lambda>e. e \<noteq> []) (split_slash (cstr path))"

lemma split_slash_ne: "split_slash s \<noteq> []"
  by (cases s) auto

lemma components_slash: "components (slash # p) = components p"
  by (simp add: components_def cstr_def slash_def)

lemma components_dropWhile: "components (dropWhile (\<lambda>c. c = slash) p) = components p"
  by (induction p) (auto simp: components_slash)

lemma split_prefix:
  "\<forall>c\<in>set xs. c \<noteq> slash \<Longrightarrow> split_slash (xs @ ys) = (xs @ hd (split_slash ys)) # tl (split_slash ys)"
  by (induction xs) (auto simp: split_slash_ne)

lemma components_elem:
  assumes "\<forall>c\<in>set xs. c \<noteq> slash \<and> c \<noteq> 0" "xs \<noteq> []" "ys = [] \<or> hd ys = slash \<or> hd ys = 0"
  shows "components (xs @ ys) = xs # components ys"
proof -
  have c: "cstr (xs @ ys) = xs @ cstr ys" using assms(1) by (auto simp: cstr_def takeWhile_append)
  have "cstr ys = [] \<or> (\<exists>zs. cstr ys = slash # zs)" using assms(3) by (cases ys) (auto simp: cstr_def slash_def)
  then have h: "hd (split_slash (cstr ys)) = []" by (elim disjE exE) simp_all
  then have "split_slash (cstr (xs @ ys)) = xs # tl (split_slash (cstr ys))" using split_prefix [of xs "cstr ys"] assms(1) by (simp add: c h)
  moreover have "components ys = filter (\<lambda>e. e \<noteq> []) (tl (split_slash (cstr ys)))"
    using split_slash_ne [of "cstr ys"] h by (cases "split_slash (cstr ys)") (simp_all add: components_def)
  ultimately show ?thesis using assms(2) by (simp add: components_def)
qed

lemma cstr_nonzero: "\<forall>c\<in>set xs. c \<noteq> 0 \<Longrightarrow> cstr xs = xs" "\<forall>c\<in>set xs. c \<noteq> 0 \<Longrightarrow> cstr (xs @ 0 # ys) = xs"
  by (auto simp: cstr_def takeWhile_append takeWhile_eq_all_conv)

text \<open>
  C20.  Parsing of path names: the elements that \<open>skipelem\<close> yields are the non-empty parts of the
  path between slashes, in order, each cut to \<open>DIRSIZ\<close> characters, whatever the buffer held
  before; the loop over the path ends.
\<close>

theorem skipelem_components:
  "path_elems path nm = map (take DIRSIZ) (components path)"
proof (induction path nm rule: path_elems.induct)
  case (1 path nm)
  let ?p = "dropWhile (\<lambda>c. c = slash) path"
  let ?Q = "\<lambda>c. c \<noteq> slash \<and> c \<noteq> (0 :: byte)"
  let ?e = "takeWhile ?Q ?p" and ?r = "dropWhile ?Q ?p"
  have cp: "components path = components ?p" by (simp add: components_dropWhile)
  show ?case
  proof (cases "chr ?p = 0")
    case True
    then have "cstr ?p = []" by (simp add: cstr_Cons)
    then have "components ?p = []" by (simp add: components_def)
    then show ?thesis using True cp by (simp add: path_elems.simps [of path] skipelem_def Let_def)
  next
    case False
    define nm' where "nm' = (if length ?e \<ge> DIRSIZ then take DIRSIZ ?e @ drop DIRSIZ nm else ?e @ [0] @ drop (length ?e + 1) nm)"
    have sk: "skipelem path nm = Some (dropWhile (\<lambda>c. c = slash) ?r, nm')" using False by (simp add: skipelem_def Let_def nm'_def)
    obtain x xs where p: "?p = x # xs" "x \<noteq> 0" using False by (auto simp: chr_def split: list.splits)
    have "x \<noteq> slash" by (rule dropWhile_head [OF p(1)])
    then have e: "?e \<noteq> []" "\<forall>c\<in>set ?e. ?Q c" using p set_takeWhileD by fastforce+
    have "?r = [] \<or> hd ?r = slash \<or> hd ?r = 0" using hd_dropWhile [of ?Q ?p] by blast
    from components_elem [OF e(2,1) this] have c: "components ?p = ?e # components ?r" by simp
    have "cstr (take DIRSIZ nm') = take DIRSIZ ?e"
    proof (cases "length ?e \<ge> DIRSIZ")
      case True
      then have "take DIRSIZ nm' = take DIRSIZ ?e" by (simp add: nm'_def)
      moreover have "\<forall>c\<in>set (take DIRSIZ ?e). c \<noteq> 0"
      proof
        fix c assume "c \<in> set (take DIRSIZ ?e)"
        then show "c \<noteq> 0" using bspec [OF e(2) in_set_takeD] by blast
      qed
      ultimately show ?thesis by (simp only: cstr_nonzero(1))
    next
      case le: False
      then have "take DIRSIZ nm' = ?e @ 0 # take (DIRSIZ - length ?e - 1) (drop (length ?e + 1) nm)"
        by (simp add: nm'_def take_Cons')
      moreover have "\<forall>c\<in>set ?e. c \<noteq> 0" using e(2) by blast
      moreover have "take DIRSIZ ?e = ?e" using le by (intro take_all) linarith
      ultimately show ?thesis by (simp only: cstr_nonzero(2))
    qed
    then have "path_elems path nm = take DIRSIZ ?e # map (take DIRSIZ) (components (dropWhile (\<lambda>c. c = slash) ?r))"
      using 1 [OF sk refl] sk by (simp add: path_elems.simps [of path nm])
    then show ?thesis by (simp only: cp c components_dropWhile [of ?r] list.map)
  qed
qed

end
