(* ===== verification/File.thy ===== *)
theory File
  imports Dir
begin

text \<open>
  Open files (\<open>kernel/file.c\<close>) and \<open>pipealloc\<close> of \<open>kernel/pipe.c\<close>.  A pointer to an entry of
  the file table is its index.  The device switch is a parameter: the functions that are
  registered for a major number.  A read or write that sleeps returns \<open>Slept\<close>.
\<close>

type_synonym devfun = "int \<Rightarrow> u64 \<Rightarrow> int \<Rightarrow> kst \<Rightarrow> (iocall \<times> kst) res"

record devsw =
  dread :: "devfun option"
  dwrite :: "devfun option"

section \<open>The file table\<close>

definition filealloc :: "kst \<Rightarrow> (nat option \<times> kst) res" where
  "filealloc s =
     bindR (kacquire LkFtable s) (\<lambda>s.
     case find (\<lambda>f. f_ref (files s f) = 0) [0..<NFILE] of
       Some f \<Rightarrow> bindR (krelease LkFtable (upd_file f (\<lambda>r. r\<lparr>f_ref := 1\<rparr>) s)) (\<lambda>s. Ok (Some f, s))
     | None \<Rightarrow> bindR (krelease LkFtable s) (\<lambda>s. Ok (None, s)))"

definition filedup :: "nat \<Rightarrow> kst \<Rightarrow> (nat \<times> kst) res" where
  "filedup f s =
     bindR (kacquire LkFtable s) (\<lambda>s.
     if f_ref (files s f) < 1 then Panic ''filedup''
     else bindR (krelease LkFtable (upd_file f (\<lambda>r. r\<lparr>f_ref := f_ref r + 1\<rparr>) s)) (\<lambda>s. Ok (f, s)))"

definition fileclose :: "u64 \<Rightarrow> nat \<Rightarrow> kst \<Rightarrow> kst res" where
  "fileclose kend f s =
     bindR (kacquire LkFtable s) (\<lambda>s.
     if f_ref (files s f) < 1 then Panic ''fileclose''
     else
       let s = upd_file f (\<lambda>r. r\<lparr>f_ref := f_ref r - 1\<rparr>) s in
       if f_ref (files s f) > 0 then krelease LkFtable s
       else
         let ff = files s f in
         bindR (krelease LkFtable (upd_file f (\<lambda>r. r\<lparr>f_ref := 0, f_type := FD_NONE\<rparr>) s)) (\<lambda>s.
         case f_type ff of
           FD_PIPE \<Rightarrow> pipeclose kend (f_pipe ff) (f_writable ff) s
         | FD_NONE \<Rightarrow> Ok s
         | _ \<Rightarrow>
             bindR (begin_op s) (\<lambda>s.
             bindR (deref (f_ip ff)) (\<lambda>ip.
             bindR (iput ip s) (\<lambda>s.
             end_op s)))))"

text \<open>The bytes of a \<open>struct stat\<close>; the four padding bytes are not initialised.\<close>

definition le16 :: "16 word \<Rightarrow> byte list" where "le16 v = [ucast v, ucast (drop_bit 8 v)]"
definition le32 :: "u32 \<Rightarrow> byte list" where
  "le32 v = [ucast v, ucast (drop_bit 8 v), ucast (drop_bit 16 v), ucast (drop_bit 24 v)]"
definition le64 :: "u64 \<Rightarrow> byte list" where "le64 v = le32 (ucast v) @ le32 (ucast (drop_bit 32 v))"

definition stat_bytes :: "cstat \<Rightarrow> byte list \<Rightarrow> byte list" where
  "stat_bytes st pad = le32 (st_dev st) @ le32 (st_ino st) @ le16 (st_type st) @ le16 (st_nlink st) @ pad @ le64 (st_size st)"

definition filestat :: "byte list \<Rightarrow> nat \<Rightarrow> u64 \<Rightarrow> kst \<Rightarrow> (int \<times> kst) res" where
  "filestat pad f addr s =
     bindR (deref (myproc (sch s))) (\<lambda>p.
     if f_type (files s f) = FD_INODE \<or> f_type (files s f) = FD_DEVICE then
       bindR (ilock (f_ip (files s f)) s) (\<lambda>s.
       bindR (deref (f_ip (files s f))) (\<lambda>ip.
       let st = stati ip s in
       bindR (iunlock (f_ip (files s f)) s) (\<lambda>s.
       bindR (copyout_bytes (pagetable (procs (sch s) p)) addr (stat_bytes st pad) (km s)) (\<lambda>(r, m).
       Ok (if r < 0 then -1 else 0, s\<lparr>km := m\<rparr>)))))
     else Ok (-1, s))"

definition fileread :: "(int \<Rightarrow> devsw) \<Rightarrow> nat \<Rightarrow> u64 \<Rightarrow> int \<Rightarrow> kst \<Rightarrow> (iocall \<times> kst) res" where
  "fileread devs f addr n s =
     (if \<not> f_readable (files s f) then Ok (Done (-1), s)
      else case f_type (files s f) of
        FD_PIPE \<Rightarrow> piperead (f_pipe (files s f)) addr n s
      | FD_DEVICE \<Rightarrow>
          let mj = sint (f_major (files s f)) in
          if mj < 0 \<or> mj \<ge> NDEV then Ok (Done (-1), s)
          else (case dread (devs mj) of None \<Rightarrow> Ok (Done (-1), s) | Some rd \<Rightarrow> rd (sint (f_minor (files s f))) addr n s)
      | FD_INODE \<Rightarrow>
          bindR (ilock (f_ip (files s f)) s) (\<lambda>s.
          bindR (deref (f_ip (files s f))) (\<lambda>ip.
          bindR (readi ip (DUser addr) (f_off (files s f)) (word_of_int n) s) (\<lambda>(r, _, s).
          let s = (if r > 0 then upd_file f (\<lambda>x. x\<lparr>f_off := f_off x + word_of_int r\<rparr>) s else s) in
          bindR (iunlock (f_ip (files s f)) s) (\<lambda>s. Ok (Done r, s)))))
      | FD_NONE \<Rightarrow> Panic ''fileread'')"

definition filewrite_max :: int where
  "filewrite_max = int ((MAXOPBLOCKS - 1 - 1 - 2) div 2 * BSIZE)"

definition filewrite_turn :: "nat \<Rightarrow> u64 \<Rightarrow> int \<Rightarrow> int \<times> kst \<Rightarrow> (int \<times> kst, int \<times> kst) ctl res" where
  "filewrite_turn f addr n = (\<lambda>(i, s).
     if i < n then
       let n1 = (if n - i > filewrite_max then filewrite_max else n - i) in
       bindR (begin_op s) (\<lambda>s.
       bindR (ilock (f_ip (files s f)) s) (\<lambda>s.
       bindR (deref (f_ip (files s f))) (\<lambda>ip.
       bindR (writei ip (SUser (addr + of_int i)) (f_off (files s f)) (word_of_int n1) s) (\<lambda>(r, s).
       let s = (if r > 0 then upd_file f (\<lambda>x. x\<lparr>f_off := f_off x + word_of_int r\<rparr>) s else s) in
       bindR (iunlock (f_ip (files s f)) s) (\<lambda>s.
       bindR (end_op s) (\<lambda>s.
       if r \<noteq> n1 then Ok (Exit (i, s)) else Ok (Next (i + r, s))))))))
     else Ok (Exit (i, s)))"

definition filewrite :: "(int \<Rightarrow> devsw) \<Rightarrow> nat \<Rightarrow> u64 \<Rightarrow> int \<Rightarrow> kst \<Rightarrow> (iocall \<times> kst) res" where
  "filewrite devs f addr n s =
     (if \<not> f_writable (files s f) then Ok (Done (-1), s)
      else case f_type (files s f) of
        FD_PIPE \<Rightarrow> pipewrite (f_pipe (files s f)) addr n s
      | FD_DEVICE \<Rightarrow>
          let mj = sint (f_major (files s f)) in
          if mj < 0 \<or> mj \<ge> NDEV then Ok (Done (-1), s)
          else (case dwrite (devs mj) of None \<Rightarrow> Ok (Done (-1), s) | Some wr \<Rightarrow> wr (sint (f_minor (files s f))) addr n s)
      | FD_INODE \<Rightarrow>
          bindR (loopR (filewrite_turn f addr n) (0, s)) (\<lambda>(i, s). Ok (Done (if i = n then n else -1), s))
      | FD_NONE \<Rightarrow> Panic ''filewrite'')"

section \<open>Creating a pipe\<close>

text \<open>A page from \<open>kalloc\<close> is filled with fives.\<close>

definition new_pipe :: pipe where
  "new_pipe = \<lparr>p_data = replicate PIPESIZE 5, nread = 0, nwrite = 0, readopen = True, writeopen = True\<rparr>"

definition pipealloc :: "u64 \<Rightarrow> kst \<Rightarrow> ((nat \<times> nat) option \<times> kst) res" where
  "pipealloc kend s =
     bindR (filealloc s) (\<lambda>(f0, s).
     case f0 of None \<Rightarrow> Ok (None, s)
     | Some a \<Rightarrow>
         bindR (filealloc s) (\<lambda>(f1, s).
         case f1 of None \<Rightarrow> bindR (fileclose kend a s) (\<lambda>s. Ok (None, s))
         | Some b \<Rightarrow>
             let (pi, m) = kalloc (km s); s = s\<lparr>km := m\<rparr> in
             if pi = 0 then
               bindR (fileclose kend a s) (\<lambda>s.
               bindR (fileclose kend b s) (\<lambda>s. Ok (None, s)))
             else
               let s = upd_pipe pi (\<lambda>_. new_pipe) s;
                   s = upd_file a (\<lambda>r. r\<lparr>f_type := FD_PIPE, f_readable := True, f_writable := False, f_pipe := pi\<rparr>) s;
                   s = upd_file b (\<lambda>r. r\<lparr>f_type := FD_PIPE, f_readable := False, f_writable := True, f_pipe := pi\<rparr>) s
               in Ok (Some (a, b), s)))"

section \<open>Reference counts\<close>

lemma upd_file_sel [simp]:
  "files (upd_file a f s) = (files s)(a := f (files s a))" "sch (upd_file a f s) = sch s" "km (upd_file a f s) = km s" "pipes (upd_file a f s) = pipes s"
  by (simp_all add: upd_file_def)

lemma upd_file_sch: "(upd_file a f s)\<lparr>sch := t\<rparr> = upd_file a f (s\<lparr>sch := t\<rparr>)"
  by (simp add: upd_file_def)

lemma filealloc_spec:
  assumes "LkFtable \<notin> set (held (sch s))"
  shows "filealloc s = Ok (case find (\<lambda>f. f_ref (files s f) = 0) [0..<NFILE] of
      None \<Rightarrow> (None, s) | Some f \<Rightarrow> (Some f, upd_file f (\<lambda>r. r\<lparr>f_ref := 1\<rparr>) s))"
  using assms by (auto simp: filealloc_def upd_file_sch split: option.split)

lemma fileclose_fresh:
  assumes "LkFtable \<notin> set (held (sch s))" "f_ref (files s f) = 1" "f_type (files s f) = FD_NONE"
  shows "fileclose kend f s = Ok (upd_file f (\<lambda>r. r\<lparr>f_ref := 0\<rparr>) s)"
proof -
  have r: "(files s f)\<lparr>f_ref := 0, f_type := FD_NONE\<rparr> = (files s f)\<lparr>f_ref := 0\<rparr>" using assms(3) by (cases "files s f") simp
  show ?thesis using assms by (simp add: fileclose_def Let_def upd_file_sch) (simp add: upd_file_def r)
qed

text \<open>Entries that are not in use have no type.\<close>

definition ftable_ok :: "kst \<Rightarrow> bool" where
  "ftable_ok s \<longleftrightarrow> (\<forall>f<NFILE. f_ref (files s f) = 0 \<longrightarrow> f_type (files s f) = FD_NONE)"

definition free_file :: "kst \<Rightarrow> nat \<Rightarrow> bool" where
  "free_file s f \<longleftrightarrow> f < NFILE \<and> f_ref (files s f) = 0"

lemma undo_alloc:
  assumes "f_ref (files s a) = 0"
  shows "upd_file a (\<lambda>r. r\<lparr>f_ref := 0\<rparr>) (upd_file a (\<lambda>r. r\<lparr>f_ref := 1\<rparr>) s) = s"
proof -
  have "(files s a)\<lparr>f_ref := 0\<rparr> = files s a" using assms by (cases "files s a") simp
  then show ?thesis by (simp add: upd_file_def)
qed

lemma upd_file_swap: "a \<noteq> b \<Longrightarrow> upd_file a f (upd_file b g s) = upd_file b g (upd_file a f s)"
  by (simp add: upd_file_def fun_upd_twist)

text \<open>
  C21.  \<open>pipealloc\<close> either succeeds, with two fresh file entries for the two ends of one new, empty
  pipe in a page taken from the free list, or fails and gives everything back: the state is
  the one before.  It fails only without two free entries or without a free page.
\<close>

theorem pipealloc_correct:
  assumes lk: "LkFtable \<notin> set (held (sch s))" and ok: "ftable_ok s" and mem: "kmem_inv kend (km s) ps"
  shows "if (\<exists>a b. a \<noteq> b \<and> free_file s a \<and> free_file s b) \<and> ps \<noteq> []
    then \<exists>a b t. pipealloc kend s = Ok (Some (a, b), t) \<and> a \<noteq> b \<and> free_file s a \<and> free_file s b \<and> kmem_inv kend (km t) (tl ps) \<and>
      f_ref (files t a) = 1 \<and> f_type (files t a) = FD_PIPE \<and> f_readable (files t a) \<and> \<not> f_writable (files t a) \<and> f_pipe (files t a) = hd ps \<and>
      f_ref (files t b) = 1 \<and> f_type (files t b) = FD_PIPE \<and> \<not> f_readable (files t b) \<and> f_writable (files t b) \<and> f_pipe (files t b) = hd ps \<and>
      pipe_ok (pipes t (hd ps)) \<and> pipe_items (pipes t (hd ps)) = [] \<and> readopen (pipes t (hd ps)) \<and> writeopen (pipes t (hd ps)) \<and>
      (\<forall>f. f \<noteq> a \<longrightarrow> f \<noteq> b \<longrightarrow> files t f = files s f) \<and> sch t = sch s
    else pipealloc kend s = Ok (None, s)"
proof (cases "find (\<lambda>f. f_ref (files s f) = 0) [0..<NFILE]")
  case None
  then have "\<not> free_file s a" for a using find_upt_None [OF None, of a] by (auto simp: free_file_def)
  then show ?thesis using filealloc_spec [OF lk] None by (auto simp: pipealloc_def)
next
  case (Some a)
  then have a: "a < NFILE" "f_ref (files s a) = 0" "free_file s a" using find_upt_Some [OF Some] by (auto simp: free_file_def)
  let ?s1 = "upd_file a (\<lambda>r. r\<lparr>f_ref := 1\<rparr>) s"
  have fa: "filealloc s = Ok (Some a, ?s1)" using filealloc_spec [OF lk] Some by simp
  have ta: "f_type (files s a) = FD_NONE" using ok a by (simp add: ftable_ok_def)
  have lk1: "LkFtable \<notin> set (held (sch ?s1))" using lk by simp
  show ?thesis
  proof (cases "find (\<lambda>f. f_ref (files ?s1 f) = 0) [0..<NFILE]")
    case None
    then have no: "free_file s b \<Longrightarrow> b = a" for b using find_upt_None [OF None, of b] by (auto simp: free_file_def split: if_splits)
    have "fileclose kend a ?s1 = Ok s" using fileclose_fresh [OF lk1, of a kend] undo_alloc [OF a(2)] ta by simp
    then have "pipealloc kend s = Ok (None, s)" using fa filealloc_spec [OF lk1] None by (simp add: pipealloc_def)
    moreover have "\<not> (\<exists>a b. a \<noteq> b \<and> free_file s a \<and> free_file s b)" using no by metis
    ultimately show ?thesis by simp
  next
    case (Some b)
    then have b: "b < NFILE" "f_ref (files s b) = 0" "b \<noteq> a" "free_file s b" using find_upt_Some [OF Some] by (auto simp: free_file_def split: if_splits)
    let ?s2 = "upd_file b (\<lambda>r. r\<lparr>f_ref := 1\<rparr>) ?s1"
    have fb: "filealloc ?s1 = Ok (Some b, ?s2)" using filealloc_spec [OF lk1] Some by simp
    have tb: "f_type (files s b) = FD_NONE" using ok b by (simp add: ftable_ok_def)
    show ?thesis
    proof (cases ps)
      case Nil
      then have k: "kalloc (km s) = (0, km s)" using kalloc_empty mem by simp
      let ?s3 = "upd_file b (\<lambda>r. r\<lparr>f_ref := 1\<rparr>) s"
      have sw: "?s2 = upd_file a (\<lambda>r. r\<lparr>f_ref := 1\<rparr>) ?s3" by (rule upd_file_swap [OF b(3)])
      have "fileclose kend a ?s2 = Ok (upd_file a (\<lambda>r. r\<lparr>f_ref := 0\<rparr>) ?s2)" by (rule fileclose_fresh) (use lk b(3) ta in auto)
      moreover have "upd_file a (\<lambda>r. r\<lparr>f_ref := 0\<rparr>) ?s2 = ?s3" unfolding sw by (rule undo_alloc) (use a(2) b(3) in simp)
      ultimately have "fileclose kend a ?s2 = Ok ?s3" by simp
      moreover have "fileclose kend b ?s3 = Ok s" using fileclose_fresh [of ?s3 b kend] lk tb undo_alloc [OF b(2)] by simp
      moreover have same: "?s2\<lparr>km := km s\<rparr> = ?s2" by (simp add: upd_file_def)
      ultimately have "pipealloc kend s = Ok (None, s)" using fa fb k by (simp add: pipealloc_def same)
      then show ?thesis using Nil by simp
    next
      case (Cons pi qs)
      obtain m where m: "kalloc (km s) = (pi, m)" "kmem_inv kend m qs" using kalloc_inv [OF mem [unfolded Cons]] by blast
      have p0: "pi \<noteq> 0" using mem Cons by (simp add: kmem_inv_def)
      have n: "pipe_ok new_pipe" "pipe_items new_pipe = []" by (simp_all add: new_pipe_def pipe_ok_def pipe_items_def ring_items_def)
      let ?t = "upd_file b (\<lambda>r. r\<lparr>f_type := FD_PIPE, f_readable := False, f_writable := True, f_pipe := pi\<rparr>)
        (upd_file a (\<lambda>r. r\<lparr>f_type := FD_PIPE, f_readable := True, f_writable := False, f_pipe := pi\<rparr>) (upd_pipe pi (\<lambda>_. new_pipe) (?s2\<lparr>km := m\<rparr>)))"
      have run: "pipealloc kend s = Ok (Some (a, b), ?t)" using fa fb m(1) p0 by (simp add: pipealloc_def)
      have w: "readopen new_pipe" "writeopen new_pipe" by (simp_all add: new_pipe_def)
      have f: "files ?t = (files s)(a := (files s a)\<lparr>f_ref := 1, f_type := FD_PIPE, f_readable := True, f_writable := False, f_pipe := pi\<rparr>,
        b := (files s b)\<lparr>f_ref := 1, f_type := FD_PIPE, f_readable := False, f_writable := True, f_pipe := pi\<rparr>)"
        using b(3) by (simp add: upd_pipe_def upd_file_def fun_eq_iff)
      have "pipes ?t pi = new_pipe" "sch ?t = sch s" "km ?t = m" by (simp_all add: upd_file_def upd_pipe_def)
      then have "a \<noteq> b \<and> free_file s a \<and> free_file s b \<and> kmem_inv kend (km ?t) (tl ps) \<and>
        f_ref (files ?t a) = 1 \<and> f_type (files ?t a) = FD_PIPE \<and> f_readable (files ?t a) \<and> \<not> f_writable (files ?t a) \<and> f_pipe (files ?t a) = hd ps \<and>
        f_ref (files ?t b) = 1 \<and> f_type (files ?t b) = FD_PIPE \<and> \<not> f_readable (files ?t b) \<and> f_writable (files ?t b) \<and> f_pipe (files ?t b) = hd ps \<and>
        pipe_ok (pipes ?t (hd ps)) \<and> pipe_items (pipes ?t (hd ps)) = [] \<and> readopen (pipes ?t (hd ps)) \<and> writeopen (pipes ?t (hd ps)) \<and>
        (\<forall>f. f \<noteq> a \<longrightarrow> f \<noteq> b \<longrightarrow> files ?t f = files s f) \<and> sch ?t = sch s"
        unfolding f using a(3) b(3,4) m(2) n w by (simp add: Cons)
      then show ?thesis using run a b Cons by auto
    qed
  qed
qed

theorem pipealloc_correct_witness:
  "\<exists>s t a b. pipealloc 0x80000000 s = Ok (Some (a, b), t) \<and> f_pipe (files t a) = 0x80003000 \<and> f_pipe (files t b) = 0x80003000 \<and> a \<noteq> b"
proof -
  obtain m where m: "kfree 0x80000000 0x80003000 \<lparr>pmem = (\<lambda>_. 0), freelist = 0\<rparr> = Ok m" "kmem_inv 0x80000000 m [0x80003000]"
    using kfree_inv [of "0x80000000" "\<lparr>pmem = (\<lambda>_. 0), freelist = 0\<rparr>" "[]" "0x80003000"]
    by (auto simp: kmem_inv_def page_ok_def aligned_def PGSIZE_def PHYSTOP_def KERNBASE_def)
  obtain h where h: "runs (sample_sst h) 0" using sample_runs by blast
  let ?s = "(sample_kst h)\<lparr>km := m\<rparr>"
  have s: "LkFtable \<notin> set (held (sch ?s))" "ftable_ok ?s" "kmem_inv 0x80000000 (km ?s) [0x80003000]" "free_file ?s 0" "free_file ?s 1"
    using m(2) by (simp_all add: sample_kst_def ftable_ok_def sample_file_def free_file_def NFILE_def)
  have c: "(\<exists>a b. a \<noteq> b \<and> free_file ?s a \<and> free_file ?s b) \<and> [0x80003000 :: u64] \<noteq> []"
    using s(4,5) by (intro conjI exI [of _ 0] exI [of _ 1]) simp_all
  from pipealloc_correct [OF s(1-3), unfolded if_P [OF c] list.sel] show ?thesis by blast
qed

end
