(* ===== verification/ProcLife.thy ===== *)
theory ProcLife
  imports File
begin

text \<open>
  The life of a process, the rest of \<open>kernel/proc.c\<close>: \<open>allocproc\<close>, \<open>freeproc\<close>, \<open>userinit\<close>, \<open>growproc\<close>,
  \<open>fork\<close>, \<open>exit\<close>, \<open>wait\<close>, \<open>forkret\<close>, the queries \<open>uproc\<close>, \<open>sproc\<close> and \<open>cinfo\<close>, and \<open>cfork\<close>, which
  starts a process in a new container.  The parameters \<open>kend\<close>, \<open>tramp\<close>, \<open>fret\<close> and \<open>icode\<close> are the
  addresses of the symbols \<open>end\<close>, \<open>trampoline\<close>, \<open>forkret\<close> and \<open>initcode\<close>.  \<open>exit\<close> and \<open>wait\<close> are cut
  where they switch to the scheduler.
\<close>

section \<open>Access to the process table, the page allocator and the trap frame\<close>

definition pent :: "kst \<Rightarrow> nat \<Rightarrow> proc" where
  "pent s p = procs (sch s) p"

definition updp :: "nat \<Rightarrow> (proc \<Rightarrow> proc) \<Rightarrow> kst \<Rightarrow> kst" where
  "updp p f s = s\<lparr>sch := upd_proc p f (sch s)\<rparr>"

definition onK :: "(kmem \<Rightarrow> kmem res) \<Rightarrow> kst \<Rightarrow> kst res" where
  "onK f s = bindR (f (km s)) (\<lambda>m. Ok (s\<lparr>km := m\<rparr>))"

definition onKr :: "(kmem \<Rightarrow> ('a \<times> kmem) res) \<Rightarrow> kst \<Rightarrow> ('a \<times> kst) res" where
  "onKr f s = bindR (f (km s)) (\<lambda>(r, m). Ok (r, s\<lparr>km := m\<rparr>))"

definition onSr :: "(sst \<Rightarrow> ('a \<times> sst) res) \<Rightarrow> kst \<Rightarrow> ('a \<times> kst) res" where
  "onSr f s = bindR (f (sch s)) (\<lambda>(r, t). Ok (r, s\<lparr>sch := t\<rparr>))"

text \<open>Offsets in \<open>struct trapframe\<close>; the trap frame of a process is a page of physical memory.\<close>

definition TF_epc :: u64 where "TF_epc = 24"
definition TF_sp :: u64 where "TF_sp = 48"
definition TF_a0 :: u64 where "TF_a0 = 112"
definition TF_a1 :: u64 where "TF_a1 = 120"
definition TF_a7 :: u64 where "TF_a7 = 168"
definition TF_size :: nat where "TF_size = 288"

definition tf_load :: "nat \<Rightarrow> u64 \<Rightarrow> kst \<Rightarrow> u64 res" where
  "tf_load p off s = (if trapframe (pent s p) = 0 then Fault else Ok (load64 (pmem (km s)) (trapframe (pent s p) + off)))"

definition tf_store :: "nat \<Rightarrow> u64 \<Rightarrow> u64 \<Rightarrow> kst \<Rightarrow> kst res" where
  "tf_store p off v s =
     (if trapframe (pent s p) = 0 then Fault
      else Ok (s\<lparr>km := (km s)\<lparr>pmem := store64 (pmem (km s)) (trapframe (pent s p) + off) v\<rparr>\<rparr>))"

section \<open>Freeing and allocating a process\<close>

definition freeproc :: "u64 \<Rightarrow> nat \<Rightarrow> kst \<Rightarrow> kst res" where
  "freeproc kend p s =
     bindR (if trapframe (pent s p) \<noteq> 0 then onK (kfree kend (trapframe (pent s p))) s else Ok s) (\<lambda>s.
     let s = updp p (\<lambda>r. r\<lparr>trapframe := 0\<rparr>) s in
     bindR (if pagetable (pent s p) \<noteq> 0 then onK (proc_freepagetable kend (pagetable (pent s p)) (sz (pent s p))) s else Ok s) (\<lambda>s.
     let s = updp p (\<lambda>r. r\<lparr>pagetable := 0, sz := 0, pid := 0, parent := None, name := (name r)[0 := 0], chan := None,
                           killed_flag := 0, xstate := 0, state := UNUSED\<rparr>) s in
     bindR (kacquire LkUnused s) (\<lambda>s.
     bindR (onS (push_back LUnused (PElem p)) s) (\<lambda>s.
     bindR (krelease LkUnused s) (\<lambda>s.
     bindR (deref (contp (pent s p))) (\<lambda>c.
     bindR (kacquire (LkCont c) s) (\<lambda>s.
     bindR (onS (remove_elem (Some (PElemC p))) s) (\<lambda>s.
     bindR (list_empty (Some (lst (LProcs c))) (lh (sch s))) (\<lambda>cont_empty.
     bindR (krelease (LkCont c) s) (\<lambda>s.
     bindR (if cont_empty then
              bindR (kacquire LkContRun s) (\<lambda>s.
              bindR (onS (remove_elem (Some (CElem c))) s) (\<lambda>s.
              bindR (krelease LkContRun s) (\<lambda>s.
              let s = s\<lparr>sch := freecont c (sch s)\<rparr> in
              bindR (kacquire LkContUnused s) (\<lambda>s.
              bindR (onS (push_back LContUnused (CElem c)) s) (\<lambda>s.
              krelease LkContUnused s)))))
            else Ok s) (\<lambda>s.
     Ok (updp p (\<lambda>r. r\<lparr>contp := None\<rparr>) s))))))))))))"

definition allocproc :: "u64 \<Rightarrow> u64 \<Rightarrow> u64 \<Rightarrow> nat \<Rightarrow> kst \<Rightarrow> (nat option \<times> kst) res" where
  "allocproc kend tramp fret c s =
     bindR (kacquire LkUnused s) (\<lambda>s.
     bindR (onSr (take_first LUnused) s) (\<lambda>(e, s).
     bindR (krelease LkUnused s) (\<lambda>s.
     if e = None then Ok (None, s)
     else
       bindR (entry_proc e) (\<lambda>p.
       bindR (kacquire (LkProc p) s) (\<lambda>s.
       bindR (onSr (allocpid c) s) (\<lambda>(q, s).
       let s = updp p (\<lambda>r. r\<lparr>pid := q, state := USED\<rparr>) s;
           fail = (\<lambda>s. bindR (freeproc kend p s) (\<lambda>s. bindR (krelease (LkProc p) s) (\<lambda>s. Ok (None, s))));
           (tf, m) = kalloc (km s);
           s = updp p (\<lambda>r. r\<lparr>trapframe := tf\<rparr>) (s\<lparr>km := m\<rparr>) in
       if tf = 0 then fail s
       else
         bindR (onKr (proc_pagetable kend tramp tf) s) (\<lambda>(pt, s).
         let s = updp p (\<lambda>r. r\<lparr>pagetable := pt\<rparr>) s in
         if pt = 0 then fail s
         else
           let s = updp p (\<lambda>r. r\<lparr>ctxt := \<lparr>ra = fret, sp = kstack r + PGSIZE, saved = replicate 12 0\<rparr>,
                                 nsched := 0, nticks := 0, contp := Some c\<rparr>) s in
           bindR (kacquire (LkCont c) s) (\<lambda>s.
           bindR (onS (push_back (LProcs c) (PElemC p)) s) (\<lambda>s.
           bindR (krelease (LkCont c) s) (\<lambda>s.
           Ok (Some p, s)))))))))))"

section \<open>The first process\<close>

definition initcode :: "byte list" where
  "initcode =
    [0x17, 0x05, 0x00, 0x00, 0x13, 0x05, 0x45, 0x02,
     0x97, 0x05, 0x00, 0x00, 0x93, 0x85, 0x35, 0x02,
     0x93, 0x08, 0x70, 0x00, 0x73, 0x00, 0x00, 0x00,
     0x93, 0x08, 0x20, 0x00, 0x73, 0x00, 0x00, 0x00,
     0xef, 0xf0, 0x9f, 0xff, 0x2f, 0x69, 0x6e, 0x69,
     0x74, 0x00, 0x00, 0x24, 0x00, 0x00, 0x00, 0x00,
     0x00, 0x00, 0x00, 0x00]"

definition initcode_name :: "byte list" where
  "initcode_name = [105, 110, 105, 116, 99, 111, 100, 101]"

definition userinit :: "u64 \<Rightarrow> u64 \<Rightarrow> u64 \<Rightarrow> u64 \<Rightarrow> kst \<Rightarrow> kst res" where
  "userinit kend tramp fret icode s =
     bindR (deref (cont_root (sch s))) (\<lambda>c.
     bindR (allocproc kend tramp fret c s) (\<lambda>(np, s).
     let s = s\<lparr>sch := (sch s)\<lparr>initproc := np\<rparr>\<rparr> in
     bindR (deref np) (\<lambda>p.
     bindR (onK (uvmfirst (pagetable (pent s p)) icode (of_nat (length initcode))) s) (\<lambda>s.
     let s = updp p (\<lambda>r. r\<lparr>sz := PGSIZE\<rparr>) s in
     bindR (tf_store p TF_epc 0 s) (\<lambda>s.
     bindR (tf_store p TF_sp PGSIZE s) (\<lambda>s.
     let s = updp p (\<lambda>r. r\<lparr>name := safestrcpy_arr (name r) initcode_name\<rparr>) s in
     bindR (namei [47] s) (\<lambda>(ip, s).
     let s = updp p (\<lambda>r. r\<lparr>cwd := ip, state := RUNNABLE\<rparr>) s in
     bindR (krelease (LkProc p) s) (\<lambda>s.
     bindR (kacquire (LkCont c) s) (\<lambda>s.
     bindR (onS (push_back (LRunq c) (PElem p)) s) (\<lambda>s.
     krelease (LkCont c) s))))))))))"

section \<open>Memory size\<close>

definition growproc :: "u64 \<Rightarrow> int \<Rightarrow> kst \<Rightarrow> (int \<times> kst) res" where
  "growproc kend n s =
     bindR (deref (myproc (sch s))) (\<lambda>p.
     let siz = sz (pent s p); pt = pagetable (pent s p) in
     if n > 0 then
       bindR (onKr (uvmalloc kend pt siz (siz + word_of_int n) PTE_W) s) (\<lambda>(siz, s).
       if siz = 0 then Ok (-1, s) else Ok (0, updp p (\<lambda>r. r\<lparr>sz := siz\<rparr>) s))
     else if n < 0 then
       bindR (onKr (uvmdealloc kend pt siz (siz + word_of_int n)) s) (\<lambda>(siz, s).
       Ok (0, updp p (\<lambda>r. r\<lparr>sz := siz\<rparr>) s))
     else Ok (0, updp p (\<lambda>r. r\<lparr>sz := siz\<rparr>) s))"

section \<open>Fork\<close>

text \<open>The loop over the open files: \<open>np->ofile[i] = filedup(p->ofile[i])\<close>.\<close>

definition dup_files :: "nat \<Rightarrow> nat \<Rightarrow> kst \<Rightarrow> kst res" where
  "dup_files p np s =
     forR (\<lambda>i s. case ofile (pent s p) ! i of
                   None \<Rightarrow> Ok s
                 | Some f \<Rightarrow> bindR (filedup f s) (\<lambda>(f, s). Ok (updp np (\<lambda>r. r\<lparr>ofile := (ofile r)[i := Some f]\<rparr>) s)))
       [0..<NOFILE] s"

definition fork :: "u64 \<Rightarrow> u64 \<Rightarrow> u64 \<Rightarrow> nat \<Rightarrow> kst \<Rightarrow> (int \<times> kst) res" where
  "fork kend tramp fret c s =
     bindR (deref (myproc (sch s))) (\<lambda>p.
     bindR (allocproc kend tramp fret c s) (\<lambda>(np, s).
     case np of None \<Rightarrow> Ok (-1, s)
     | Some np \<Rightarrow>
         bindR (onKr (uvmcopy kend (pagetable (pent s p)) (pagetable (pent s np)) (sz (pent s p))) s) (\<lambda>(r, s).
         if r < 0 then
           bindR (freeproc kend np s) (\<lambda>s.
           bindR (krelease (LkProc np) s) (\<lambda>s. Ok (-1, s)))
         else
           let s = updp np (\<lambda>r. r\<lparr>sz := sz (pent s p)\<rparr>) s;
               m = pmem (km s);
               s = s\<lparr>km := (km s)\<lparr>pmem := put_bytes m (trapframe (pent s np)) (bytes_at m (trapframe (pent s p)) TF_size)\<rparr>\<rparr> in
           bindR (tf_store np TF_a0 0 s) (\<lambda>s.
           bindR (dup_files p np s) (\<lambda>s.
           bindR (deref (cwd (pent s p))) (\<lambda>d.
           bindR (idup d s) (\<lambda>(d, s).
           let s = updp np (\<lambda>r. r\<lparr>cwd := Some d, name := safestrcpy_arr (name r) (takeWhile (\<lambda>b. b \<noteq> 0) (name (pent s p)))\<rparr>) s;
               q = pid (pent s np) in
           bindR (krelease (LkProc np) s) (\<lambda>s.
           bindR (kacquire LkWait s) (\<lambda>s.
           bindR (krelease LkWait (updp np (\<lambda>r. r\<lparr>parent := Some p\<rparr>) s)) (\<lambda>s.
           bindR (kacquire (LkProc np) s) (\<lambda>s.
           bindR (krelease (LkProc np) (updp np (\<lambda>r. r\<lparr>state := RUNNABLE\<rparr>) s)) (\<lambda>s.
           bindR (kacquire (LkCont c) s) (\<lambda>s.
           bindR (onS (push_back (LRunq c) (PElem np)) s) (\<lambda>s.
           bindR (krelease (LkCont c) s) (\<lambda>s.
           Ok (sint q, s))))))))))))))))"

section \<open>Exit and wait\<close>

definition close_files :: "u64 \<Rightarrow> nat \<Rightarrow> kst \<Rightarrow> kst res" where
  "close_files kend p s =
     forR (\<lambda>fd s. case ofile (pent s p) ! fd of
                    None \<Rightarrow> Ok s
                  | Some f \<Rightarrow> bindR (fileclose kend f s) (\<lambda>s. Ok (updp p (\<lambda>r. r\<lparr>ofile := (ofile r)[fd := None]\<rparr>) s)))
       [0..<NOFILE] s"

definition put_inode :: "nat option \<Rightarrow> kst \<Rightarrow> kst res" where
  "put_inode ip s = bindR (begin_op s) (\<lambda>s. bindR (deref ip) (\<lambda>i. bindR (iput i s) end_op))"

text \<open>\<open>exit\<close> up to the switch to the scheduler, from which it never comes back.\<close>

definition exit :: "u64 \<Rightarrow> u32 \<Rightarrow> kst \<Rightarrow> kst res" where
  "exit kend status s =
     bindR (deref (myproc (sch s))) (\<lambda>p.
     if Some p = initproc (sch s) then Panic ''init exiting''
     else
       bindR (close_files kend p s) (\<lambda>s.
       bindR (put_inode (cwd (pent s p)) s) (\<lambda>s.
       let s = updp p (\<lambda>r. r\<lparr>cwd := None\<rparr>) s in
       bindR (deref (contp (pent s p))) (\<lambda>c.
       bindR (kacquire (LkCont c) s) (\<lambda>s.
       bindR (list_size (Some (lst (LProcs c))) (lh (sch s))) (\<lambda>nprocs.
       bindR (krelease (LkCont c) s) (\<lambda>s.
       bindR (if nprocs = 1 then put_inode (rootdir (conts (sch s) c)) s else Ok s) (\<lambda>s.
       bindR (kacquire LkWait s) (\<lambda>s.
       bindR (onS (reparent p) s) (\<lambda>s.
       bindR (onS (wakeup (map_option ChProc (parent (pent s p)))) s) (\<lambda>s.
       bindR (kacquire (LkProc p) s) (\<lambda>s.
       bindR (krelease LkWait (updp p (\<lambda>r. r\<lparr>xstate := status, state := ZOMBIE\<rparr>) s)) (\<lambda>s.
       onS sched s)))))))))))))"

text \<open>
  The scan of the process table in \<open>wait\<close>: \<open>Inl r\<close> when it returns \<open>r\<close>, \<open>Inr havekids\<close> when it
  comes to the end of the table.
\<close>

fun wait_scan :: "u64 \<Rightarrow> nat \<Rightarrow> u64 \<Rightarrow> nat list \<Rightarrow> bool \<Rightarrow> kst \<Rightarrow> ((int + bool) \<times> kst) res" where
  "wait_scan kend p addr [] havekids s = Ok (Inr havekids, s)"
| "wait_scan kend p addr (pp # pps) havekids s =
     (if parent (pent s pp) = Some p then
        bindR (kacquire (LkProc pp) s) (\<lambda>s.
        if state (pent s pp) = ZOMBIE then
          let q = pid (pent s pp) in
          bindR (if addr \<noteq> 0 then onKr (copyout_bytes (pagetable (pent s p)) addr (le32 (xstate (pent s pp)))) s else Ok (0, s)) (\<lambda>(r, s).
          if r < 0 then
            bindR (krelease (LkProc pp) s) (\<lambda>s.
            bindR (krelease LkWait s) (\<lambda>s. Ok (Inl (-1), s)))
          else
            bindR (freeproc kend pp s) (\<lambda>s.
            bindR (krelease (LkProc pp) s) (\<lambda>s.
            bindR (krelease LkWait s) (\<lambda>s. Ok (Inl (sint q), s)))))
        else
          bindR (krelease (LkProc pp) s) (\<lambda>s. wait_scan kend p addr pps True s))
      else wait_scan kend p addr pps havekids s)"

definition wait_turn :: "u64 \<Rightarrow> u64 \<Rightarrow> kst \<Rightarrow> (iocall \<times> kst) res" where
  "wait_turn kend addr s =
     bindR (deref (myproc (sch s))) (\<lambda>p.
     bindR (wait_scan kend p addr [0..<NPROC] False s) (\<lambda>(r, s).
     case r of Inl v \<Rightarrow> Ok (Done v, s)
     | Inr havekids \<Rightarrow>
         bindR (if havekids then kkilled p s else Ok (True, s)) (\<lambda>(stop, s).
         if stop then bindR (krelease LkWait s) (\<lambda>s. Ok (Done (-1), s))
         else bindR (onS (sleep (ChProc p) LkWait) s) (\<lambda>s. Ok (Slept 0, s)))))"

definition wait :: "u64 \<Rightarrow> u64 \<Rightarrow> kst \<Rightarrow> (iocall \<times> kst) res" where
  "wait kend addr s = bindR (kacquire LkWait s) (wait_turn kend addr)"

definition wait_resume :: "u64 \<Rightarrow> u64 \<Rightarrow> kst \<Rightarrow> (iocall \<times> kst) res" where
  "wait_resume kend addr s = bindR (onS (sleep_resume LkWait) s) (wait_turn kend addr)"

text \<open>
  \<open>forkret\<close> up to \<open>usertrapret\<close>.  \<open>first\<close> is its static variable; the new value is part of the
  result.
\<close>

definition forkret :: "bool \<Rightarrow> kst \<Rightarrow> (bool \<times> kst) res" where
  "forkret first s =
     bindR (deref (myproc (sch s))) (\<lambda>p.
     bindR (krelease (LkProc p) s) (\<lambda>s.
     if first then
       bindR (fsinit ROOTDEV (s\<lparr>sch := (sch s)\<lparr>cont_init := True\<rparr>\<rparr>)) (\<lambda>s. Ok (False, s))
     else Ok (first, s)))"

section \<open>Queries\<close>

primrec procstate_num :: "procstate \<Rightarrow> u32" where
  "procstate_num UNUSED = 0"
| "procstate_num USED = 1"
| "procstate_num SLEEPING = 2"
| "procstate_num RUNNABLE = 3"
| "procstate_num RUNNING = 4"
| "procstate_num ZOMBIE = 5"

text \<open>
  The bytes of a \<open>struct uproc\<close>; the four padding bytes before \<open>nsched\<close> are not initialised.
  \<open>sz\<close> is cut to 32 bits.
\<close>

definition uproc_bytes :: "proc \<Rightarrow> byte list \<Rightarrow> byte list" where
  "uproc_bytes p pad =
     le32 (pid p) @ le32 (procstate_num (state p)) @ le32 (ucast (sz p)) @ strncpy_str 16 (name p) @ pad @
     le64 (nsched p) @ le64 (nticks p)"

definition uproc :: "byte list \<Rightarrow> u32 \<Rightarrow> u64 \<Rightarrow> kst \<Rightarrow> (int \<times> kst) res" where
  "uproc pad q up_p s =
     bindR (deref (myproc (sch s))) (\<lambda>myp.
     case find (\<lambda>p. state (pent s p) \<noteq> UNUSED \<and> pid (pent s p) = q) [0..<NPROC] of
       None \<Rightarrow> Ok (-1, s)
     | Some p \<Rightarrow>
         bindR (kacquire (LkProc p) s) (\<lambda>s.
         let up = uproc_bytes (pent s p) pad in
         bindR (krelease (LkProc p) s) (\<lambda>s.
         bindR (onKr (copyout_bytes (pagetable (pent s myp)) up_p up) s) (\<lambda>(r, s).
         Ok (if r < 0 then -1 else sint q, s)))))"

text \<open>\<open>sproc\<close> does not check its index: outside the table it reads whatever lies there.\<close>

definition sproc :: "byte list \<Rightarrow> int \<Rightarrow> u64 \<Rightarrow> kst \<Rightarrow> (int \<times> kst) res" where
  "sproc pad slt up_p s =
     bindR (deref (myproc (sch s))) (\<lambda>myp.
     if slt < 0 \<or> slt \<ge> int NPROC then Fault
     else
       let p = nat slt in
       bindR (kacquire (LkProc p) s) (\<lambda>s.
       let up = uproc_bytes (pent s p) pad in
       bindR (krelease (LkProc p) s) (\<lambda>s.
       bindR (onKr (copyout_bytes (pagetable (pent s myp)) up_p up) s) (\<lambda>(r, s).
       Ok (if r < 0 then -1 else slt, s)))))"

definition CINFO :: nat where "CINFO = 172"

definition cinfo_bytes :: "cont \<Rightarrow> u64 \<Rightarrow> byte list" where
  "cinfo_bytes c nprocs =
     le32 (procstate_num (cstate c)) @ strncpy_str 16 (cname c) @ strncpy_str 128 (rootpath c) @
     le32 (max_mem_bytes c) @ le32 (max_disk_bytes c) @ le32 (used_mem_bytes c) @ le32 (used_disk_bytes c) @
     le32 (ucast nprocs) @ le32 (cnticks c)"

fun cinfo_from :: "nat list \<Rightarrow> u64 \<Rightarrow> u64 \<Rightarrow> kst \<Rightarrow> (int \<times> kst) res" where
  "cinfo_from [] pt up_p s = Ok (0, s)"
| "cinfo_from (c # cs) pt up_p s =
     bindR (kacquire (LkCont c) s) (\<lambda>s.
     if cstate (conts (sch s) c) \<noteq> UNUSED then
       bindR (list_size (Some (lst (LProcs c))) (lh (sch s))) (\<lambda>nprocs.
       let ci = cinfo_bytes (conts (sch s) c) nprocs in
       bindR (krelease (LkCont c) s) (\<lambda>s.
       bindR (onKr (copyout_bytes pt up_p ci) s) (\<lambda>(r, s).
       if r < 0 then Ok (-1, s) else cinfo_from cs pt (up_p + of_nat CINFO) s)))
     else bindR (krelease (LkCont c) s) (\<lambda>s. cinfo_from cs pt up_p s))"

definition cinfo :: "u64 \<Rightarrow> kst \<Rightarrow> (int \<times> kst) res" where
  "cinfo up_p s = bindR (deref (myproc (sch s))) (\<lambda>p. cinfo_from [0..<NCONT] (pagetable (pent s p)) up_p s)"

section \<open>A process in a new container\<close>

text \<open>
  \<open>alloccont\<close> on the whole state: the root directory is looked up by \<open>namei\<close> in a transaction of
  its own, with the container lock held.
\<close>

definition kalloccont :: "byte list \<Rightarrow> u32 \<Rightarrow> byte list \<Rightarrow> u32 \<Rightarrow> kst \<Rightarrow> (nat option \<times> kst) res" where
  "kalloccont nm max_mem crootdir max_disk s =
     (let isroot = (take 4 nm = root_name) in
      bindR (kacquire LkContUnused s) (\<lambda>s.
      bindR (onSr (take_first LContUnused) s) (\<lambda>(e, s).
      bindR (krelease LkContUnused s) (\<lambda>s.
      if e = None then Ok (None, s)
      else
        bindR (entry_cont e) (\<lambda>c.
        bindR (kacquire (LkCont c) s) (\<lambda>s.
        let s = s\<lparr>sch := upd_cont c (\<lambda>k. k\<lparr>cstate := USED, cnextpid := 1\<rparr>) (sch s)\<rparr> in
        bindR (onS (init_list (LProcs c)) s) (\<lambda>s.
        bindR (onS (init_list (LRunq c)) s) (\<lambda>s.
        let s = s\<lparr>sch := upd_cont c (\<lambda>k. k\<lparr>cname := safestrcpy_arr (cname k) nm, max_mem_bytes := max_mem,
                                             rootpath := safestrcpy_arr (rootpath k) crootdir\<rparr>) (sch s)\<rparr> in
        bindR (if isroot then Ok (True, s)
               else bindR (begin_op s) (\<lambda>s.
                    bindR (namei crootdir s) (\<lambda>(ip, s).
                    bindR (end_op (s\<lparr>sch := upd_cont c (\<lambda>k. k\<lparr>rootdir := ip\<rparr>) (sch s)\<rparr>)) (\<lambda>s.
                    Ok (ip \<noteq> None, s))))) (\<lambda>(ok, s).
        if \<not> ok then Ok (None, s)
        else
          let s = s\<lparr>sch := upd_cont c (\<lambda>k. k\<lparr>max_disk_bytes := max_disk, used_mem_bytes := 0,
                                               used_disk_bytes := 0, cnticks := 0\<rparr>) (sch s)\<rparr> in
          bindR (krelease (LkCont c) s) (\<lambda>s. Ok (Some c, s)))))))))))"

definition cfork :: "u64 \<Rightarrow> u64 \<Rightarrow> u64 \<Rightarrow> byte list \<Rightarrow> u32 \<Rightarrow> byte list \<Rightarrow> u32 \<Rightarrow> kst \<Rightarrow> (int \<times> kst) res" where
  "cfork kend tramp fret nm max_mem crootdir max_disk s =
     bindR (kalloccont nm max_mem crootdir max_disk s) (\<lambda>(c, s).
     case c of None \<Rightarrow> Ok (-1, s)
     | Some k \<Rightarrow>
         bindR (kacquire LkContRun s) (\<lambda>s.
         bindR (onS (push_back LContRun (CElem k)) s) (\<lambda>s.
         bindR (krelease LkContRun s) (\<lambda>s.
         fork kend tramp fret k s))))"

section \<open>Lifted operations\<close>

lemma pent_updp [simp]: "pent (updp p f s) q = (if q = p then f (pent s p) else pent s q)"
  by (simp add: pent_def updp_def)

lemma updp_sel [simp]: "files (updp p f s) = files s" "km (updp p f s) = km s" "held (sch (updp p f s)) = held (sch s)"
  "curproc (sch (updp p f s)) = curproc (sch s)" "inodes (updp p f s) = inodes s" "sch (updp p f s) = upd_proc p f (sch s)"
  "(updp p f s)\<lparr>km := m\<rparr> = updp p f (s\<lparr>km := m\<rparr>)"
  by (simp_all add: updp_def)

lemma pent_frame [simp]: "pent (s\<lparr>km := m\<rparr>) q = pent s q" "pent (s\<lparr>sch := t\<rparr>) q = procs t q"
  by (simp_all add: pent_def)

lemma upd_proc_twice: "upd_proc p f (upd_proc p g t) = upd_proc p (\<lambda>r. f (g r)) t" "upd_proc p f (t\<lparr>lh := h\<rparr>) = (upd_proc p f t)\<lparr>lh := h\<rparr>"
  by (simp_all add: upd_proc_def)

text \<open>Taking the first unused process.\<close>

lemma take_unused:
  assumes inv: "sched_inv (sch s) v" and u: "v LUnused = PElem p # us"
  obtains h where "onSr (take_first LUnused) s = Ok (Some (PElem p), s\<lparr>sch := (sch s)\<lparr>lh := h\<rparr>\<rparr>)"
    "lists_ok (live (sch s)) h (v(LUnused := us))"
proof -
  have "LUnused \<in> live (sch s)" by (simp add: live_def)
  from take_first_ok [OF sched_inv_lists [OF inv] this u] show ?thesis using that by (auto simp: onSr_def)
qed

lemma unused_facts:
  assumes "sched_inv (sch s) v" "v LUnused = PElem p # us"
  shows "p < NPROC" "state (pent s p) = UNUSED" "contp (pent s p) = None"
proof -
  have "PElem p \<in> PElem ` {i. i < NPROC \<and> state (procs (sch s) i) = UNUSED}"
    using sched_invD(1) [OF assms(1)] assms(2) by (metis list.set_intros(1))
  then show p: "p < NPROC" "state (pent s p) = UNUSED" by (auto simp: pent_def)
  then show "contp (pent s p) = None" using assms(1) unfolding sched_inv_def by (simp add: pent_def)
qed

lemma taken_off_lists:
  assumes "sched_inv (sch s) v" "v LUnused = PElem p # us" "k \<in> live (sch s)"
  shows "PElem p \<notin> set ((v(LUnused := us)) k)"
proof (cases "k = LUnused")
  case True
  have "LUnused \<in> live (sch s)" by (simp add: live_def)
  then have "distinct (v LUnused)" using dll_distinct [OF lists_ok_D(1) [OF sched_inv_lists [OF assms(1)]], of LUnused] by simp
  then show ?thesis using True assms(2) by simp
next
  case False
  have "LUnused \<in> live (sch s)" "PElem p \<in> set (v LUnused)" using assms(2) by (simp_all add: live_def)
  then show ?thesis using lists_ok_D(3) [OF sched_inv_lists [OF assms(1)] _ assms(3), of LUnused "PElem p"] False by simp
qed

text \<open>\<open>freeproc\<close> of a process that has no container yet.\<close>

lemma freeproc_no_container:
  assumes "trapframe (pent s p) = 0" "pagetable (pent s p) = 0" "contp (pent s p) = None" "LkUnused \<notin> set (held (sch s))"
    and ok: "lists_ok V (lh (sch s)) w" "LUnused \<in> V" "\<And>k. k \<in> V \<Longrightarrow> PElem p \<notin> set (w k)"
  shows "freeproc kend p s = Fault"
proof -
  define f :: "proc \<Rightarrow> proc" where "f = (\<lambda>r. r\<lparr>pagetable := 0, sz := 0, pid := 0, parent := None, name := (name r)[0 := 0], chan := None,
    killed_flag := 0, xstate := 0, state := UNUSED\<rparr>)"
  let ?t = "upd_proc p f (upd_proc p (\<lambda>r. r\<lparr>trapframe := 0\<rparr>) (sch s))"
  from push_back_ok [of V ?t w LUnused "PElem p"] ok obtain g where g: "push_back LUnused (PElem p) ?t = Ok (?t\<lparr>lh := g\<rparr>)" by auto
  have c: "contp (f r) = contp r" for r by (simp add: f_def)
  show ?thesis using assms(1-4) assms(3) [unfolded pent_def] g c unfolding freeproc_def f_def [symmetric] by (simp add: onS_def deref_def)
qed

text \<open>
  C23.  When \<open>allocproc\<close> finds a free slot but no page for the trap frame, it calls \<open>freeproc\<close> before \<open>contp\<close> has been
  set, and \<open>freeproc\<close> dereferences the null pointer.  So instead of returning 0, as its comment says,
  it faults: running out of memory in \<open>fork\<close> brings the kernel down.
\<close>

theorem allocproc_no_memory:
  assumes inv: "sched_inv (sch s) v" and u: "v LUnused = PElem p # us" and lk: "held (sch s) = []"
    and mem: "kmem_inv kend (km s) []" and pt: "pagetable (pent s p) = 0"
  shows "allocproc kend tramp fret c s = Fault"
proof -
  note uf = unused_facts [OF inv u]
  obtain h where h: "onSr (take_first LUnused) (s\<lparr>sch := (sch s)\<lparr>held := [LkUnused]\<rparr>\<rparr>)
      = Ok (Some (PElem p), s\<lparr>sch := (sch s)\<lparr>lh := h, held := [LkUnused]\<rparr>\<rparr>)" "lists_ok (live (sch s)) h (v(LUnused := us))"
    using take_unused [of "s\<lparr>sch := (sch s)\<lparr>held := [LkUnused]\<rparr>\<rparr>" v p us] inv u by (auto simp: live_def)
  have km: "kalloc (km s) = (0, km s)" by (rule kalloc_empty [OF mem])
  let ?s = "updp p (\<lambda>r. r\<lparr>trapframe := 0\<rparr>) (updp p (\<lambda>r. r\<lparr>pid := cnextpid (conts (sch s) c), state := USED\<rparr>)
    (s\<lparr>sch := (upd_cont c (\<lambda>k. k\<lparr>cnextpid := cnextpid k + 1\<rparr>) (sch s))\<lparr>lh := h, held := [LkProc p]\<rparr>\<rparr>))"
  have "freeproc kend p ?s = Fault"
    by (rule freeproc_no_container [where V = "live (sch s)" and w = "v(LUnused := us)"])
      (use uf(3) pt h(2) taken_off_lists [OF inv u] in \<open>auto simp: pent_def live_def\<close>)
  then show ?thesis using lk h(1) km unfolding allocproc_def by (simp add: onSr_def allocpid_spec)
qed

theorem allocproc_no_memory_witness:
  "\<exists>s v. sched_inv (sch s) v \<and> cont_root (sch s) = Some 0 \<and> allocproc 0x80000000 0x80007000 0x80008000 0 s = Fault"
proof -
  obtain h where h: "sched_inv (sample_sst h) sample_queues" using sample_inv by blast
  have q: "sample_queues LUnused = PElem 3 # map PElem [4..<64]" by (simp add: sample_queues_def NPROC_def upt_conv_Cons)
  have "allocproc 0x80000000 0x80007000 0x80008000 0 (sample_kst h) = Fault"
    by (rule allocproc_no_memory [where v = sample_queues and p = 3 and us = "map PElem [4..<64]"])
      (use h q in \<open>simp_all add: sample_kst_def kmem_inv_def pent_def sample_procs sample_proc_def sample_sst_def\<close>)
  moreover have "sched_inv (sch (sample_kst h)) sample_queues" "cont_root (sch (sample_kst h)) = Some 0"
    using h by (simp_all add: sample_kst_def)
  ultimately show ?thesis by blast
qed

section \<open>Allocating a process\<close>

text \<open>A fresh page table with one page mapped at \<open>va\<close>, given two free pages for the inner levels.\<close>

lemma map_one:
  assumes ok: "vm_ok kend pt s ps" and va: "aligned va" "unat va + 4096 \<le> 2 ^ 38" "\<not> valid (pt_get 2 (pmem s) pt va)" and n: "2 \<le> length ps"
  obtains t qs where "mappages pt va PGSIZE pa perm s = Ok (0, t)" "evolves kend pt s ps t qs" "length ps \<le> length qs + 2"
    "\<And>w. w < MAXVA \<Longrightarrow> pt_get 2 (pmem t) pt w = (if pg w = pg va then PA2PTE pa OR perm OR PTE_V else pt_get 2 (pmem s) pt w)"
proof -
  have a: "va < MAXVA" using va(2) MAXVA_nat by (simp add: word_less_nat_alt)
  have lp: "PGROUNDDOWN (va + PGSIZE - 1) = va" using last_page [OF va(1), of 0] va(2) by simp
  have "PGSIZE \<noteq> 0" by (simp add: PGSIZE_def)
  then have m: "mappages pt va PGSIZE pa perm s = loopR (map_loop pt perm va) (va, pa, s)"
    unfolding mappages_def map_loop_def Let_def aligned_rounddown [OF va(1)] lp by simp
  from map_loop_step [OF ok a va(3), of perm va pa] n obtain t qs where
    "evolves kend pt s ps t qs" "length ps \<le> length qs + 2" "map_loop pt perm va (va, pa, s) = Ok (Exit (0, t))"
    "\<forall>w<MAXVA. pt_get 2 (pmem t) pt w = (if pg w = pg va then PA2PTE pa OR perm OR PTE_V else pt_get 2 (pmem s) pt w)" by auto
  then show ?thesis using that m by (auto simp: loopR_Exit)
qed

lemma uvmcreate_ok:
  assumes "kmem_inv kend s (p # ps)"
  obtains t where "uvmcreate s = (p, t)" "vm_ok kend p t ps" "\<And>w. pt_get 2 (pmem t) p w = 0" "pt_pages 2 (pmem t) p = [p]"
    "\<And>x. x \<notin> region p 4096 \<Longrightarrow> pmem t x = pmem s x"
proof -
  from kalloc_inv [OF assms] obtain u where u: "kalloc s = (p, u)" "kmem_inv kend u ps" "page_ok kend p" "p \<notin> set ps"
    "\<forall>x. x \<notin> region p 4096 \<longrightarrow> pmem u x = pmem s x" by blast
  let ?t = "u\<lparr>pmem := memset (pmem u) p 0 (ucast PGSIZE)\<rparr>"
  have z: "pmem ?t x = 0" if "x \<in> region p 4096" for x using that by (simp add: memset_page_apply)
  have f: "pmem ?t x = pmem u x" if "x \<notin> region p 4096" for x using that by (simp add: memset_page_apply)
  have "kmem_inv kend ?t ps"
    by (rule kmem_inv_frame [OF u(2)]) (use u(2-4) page_sep f in \<open>force simp: kmem_inv_def\<close>)
  moreover have pg: "pt_pages 2 (pmem ?t) p = [p]" "pt_get 2 (pmem ?t) p w = 0" for w using pt_zero [of p "pmem ?t" 2] z by blast+
  ultimately have "vm_ok kend p ?t ps" using u(3,4) by (simp add: vm_ok_def pt_ok_def)
  moreover have "p \<noteq> 0" using u(3) by (simp add: page_ok_def)
  ultimately show ?thesis using that [of ?t] u(1,5) pg f by (simp add: uvmcreate_def)
qed

lemma TRAMPOLINE_facts: "aligned TRAMPOLINE" "aligned TRAPFRAME" "unat TRAMPOLINE + 4096 \<le> 2 ^ 38" "unat TRAPFRAME + 4096 \<le> 2 ^ 38"
  "TRAPFRAME < MAXVA" "TRAMPOLINE < MAXVA" "pg TRAMPOLINE \<noteq> pg TRAPFRAME"
  by (simp_all add: TRAMPOLINE_def TRAPFRAME_def MAXVA_def PGSIZE_def aligned_def pg_def)

text \<open>The user page table of a new process: trampoline and trap frame, nothing else.\<close>

definition proc_map :: "u64 \<Rightarrow> u64 \<Rightarrow> u64 \<Rightarrow> u64" where
  "proc_map tramp tf w =
     (if pg w = pg TRAPFRAME then PA2PTE tf OR (PTE_R OR PTE_W) OR PTE_V
      else if pg w = pg TRAMPOLINE then PA2PTE tramp OR (PTE_R OR PTE_X) OR PTE_V else 0)"

lemma proc_pagetable_ok:
  assumes inv: "kmem_inv kend s (p # ps)" and n: "4 \<le> length ps"
  obtains t qs ns where "proc_pagetable kend tramp tf s = Ok (p, t)" "vm_ok kend p t qs" "ps = ns @ qs" "set (pt_pages 2 (pmem t) p) = insert p (set ns)"
    "\<And>w. w < MAXVA \<Longrightarrow> pt_get 2 (pmem t) p w = proc_map tramp tf w"
    "\<And>x. (\<And>q. q \<in> insert p (set ps) \<Longrightarrow> x \<notin> region q 4096) \<Longrightarrow> pmem t x = pmem s x"
proof -
  have p0: "p \<noteq> 0" using inv by (simp add: kmem_inv_def page_ok_def)
  obtain a where a: "uvmcreate s = (p, a)" "vm_ok kend p a ps" "\<And>w. pt_get 2 (pmem a) p w = 0" "pt_pages 2 (pmem a) p = [p]"
    "\<And>x. x \<notin> region p 4096 \<Longrightarrow> pmem a x = pmem s x" by (rule uvmcreate_ok [OF inv]) blast
  note T = TRAMPOLINE_facts
  have "\<not> valid (pt_get 2 (pmem a) p TRAMPOLINE)" "2 \<le> length ps" using a(3) n by simp_all
  from map_one [OF a(2) T(1,3) this] obtain b bs where
    b: "mappages p TRAMPOLINE PGSIZE tramp (PTE_R OR PTE_X) a = Ok (0, b)" "evolves kend p a ps b bs" "length ps \<le> length bs + 2"
      "\<And>w. w < MAXVA \<Longrightarrow> pt_get 2 (pmem b) p w = (if pg w = pg TRAMPOLINE then PA2PTE tramp OR (PTE_R OR PTE_X) OR PTE_V else pt_get 2 (pmem a) p w)"
    by blast
  have vb: "vm_ok kend p b bs" using b(2) by (simp add: evolves_def)
  have "\<not> valid (pt_get 2 (pmem b) p TRAPFRAME)" "2 \<le> length bs" using a(3) b(3,4) T(5,7) n by simp_all
  from map_one [OF vb T(2,4) this] obtain c cs where
    c: "mappages p TRAPFRAME PGSIZE tf (PTE_R OR PTE_W) b = Ok (0, c)" "evolves kend p b bs c cs"
      "\<And>w. w < MAXVA \<Longrightarrow> pt_get 2 (pmem c) p w = (if pg w = pg TRAPFRAME then PA2PTE tf OR (PTE_R OR PTE_W) OR PTE_V else pt_get 2 (pmem b) p w)"
    by blast
  have run: "proc_pagetable kend tramp tf s = Ok (p, c)" using a(1) b(1) c(1) p0 by (simp add: proc_pagetable_def)
  note e = evolves_trans [OF b(2) c(2)]
  obtain ns where ns: "ps = ns @ cs" "set (pt_pages 2 (pmem c) p) = insert p (set ns)" using e a(4) by (auto simp: evolves_def)
  have "pmem c x = pmem s x" if "\<And>q. q \<in> insert p (set ps) \<Longrightarrow> x \<notin> region q 4096" for x
    using e ns that a(5) [of x] unfolding evolves_def by auto
  moreover have "pt_get 2 (pmem c) p w = proc_map tramp tf w" if "w < MAXVA" for w
    using b(4) [OF that] c(3) [OF that] a(3) by (simp add: proc_map_def)
  ultimately show ?thesis using that [OF run _ ns] e unfolding evolves_def by blast
qed

lemma alloc_inv:
  fixes s :: kst
  assumes inv: "sched_inv (sch s) v" and u: "v LUnused = PElem p # us" and c: "c < NCONT" "cstate (conts (sch s) c) = USED"
    and g: "lists_ok (live (sch s)) g (v(LUnused := us, LProcs c := v (LProcs c) @ [PElemC p]))"
    and F: "\<And>r. state (F r) = USED" "\<And>r. contp (F r) = Some c" and G: "\<And>k. cstate (G k) = cstate k"
  shows "sched_inv ((upd_proc p F (upd_cont c G (sch s)))\<lparr>lh := g\<rparr>) (v(LUnused := us, LProcs c := v (LProcs c) @ [PElemC p]))"
proof -
  let ?v = "v(LUnused := us, LProcs c := v (LProcs c) @ [PElemC p])" and ?t = "(upd_proc p F (upd_cont c G (sch s)))\<lparr>lh := g\<rparr>"
  note uf = unused_facts [OF inv u, unfolded pent_def]
  have cs: "cstate (conts ?t e) = cstate (conts (sch s) e)" for e using G by simp
  have lv: "live ?t = live (sch s)" unfolding live_def cs ..
  have d: "distinct (v LUnused)"
    using dll_distinct [OF lists_ok_D(1) [OF sched_inv_lists [OF inv]], of LUnused] by (simp add: live_def)
  have us: "set us = PElem ` {i. i < NPROC \<and> state (procs (sch s) i) = UNUSED \<and> i \<noteq> p}"
    using sched_invD(1) [OF inv] d u by auto
  have l: "set (?v (LRunq e)) = PElem ` {i. i < NPROC \<and> state (procs ?t i) = RUNNABLE \<and> contp (procs ?t i) = Some e}"
    "set (?v (LProcs e)) = PElemC ` {i. i < NPROC \<and> contp (procs ?t i) = Some e}"
    if "e < NCONT" "cstate (conts (sch s) e) = USED" for e
    using sched_inv_used [OF inv that] uf F by (auto simp: image_iff)
  show ?thesis using inv g us l uf F c unfolding sched_inv_def lv cs by (auto simp: image_iff)
qed

lemma proc_off_lists:
  fixes s :: kst
  assumes inv: "sched_inv (sch s) v" and u: "v LUnused = PElem p # us" and k: "k \<in> live (sch s)"
  shows "PElemC p \<notin> set ((v(LUnused := us)) k)"
proof -
  note uf = unused_facts [OF inv u, unfolded pent_def]
  have "PElemC p \<notin> set (v k)"
    using k sched_invD [OF inv] sched_inv_used [OF inv] uf unfolding live_def by auto
  then show ?thesis using u by (cases "k = LUnused") auto
qed

text \<open>
  C22.  With a free slot and six free pages \<open>allocproc\<close> returns the first unused process, with its lock held.  The
  process is \<open>USED\<close>, belongs to the container, has its next pid, a trap frame page of its own and a
  well-formed page table that maps the trampoline and the trap frame and nothing else.  The queues
  keep their invariant, and no other process changes.
\<close>

theorem allocproc_correct:
  assumes inv: "sched_inv (sch s) v" and u: "v LUnused = PElem p # us" and lk: "held (sch s) = []"
    and c: "c < NCONT" "cstate (conts (sch s) c) = USED"
    and mem: "kmem_inv kend (km s) (tf # pt # ps)" and n: "4 \<le> length ps"
  shows "\<exists>t. allocproc kend tramp fret c s = Ok (Some p, t) \<and> held (sch t) = [LkProc p] \<and>
    sched_inv (sch t) (v(LUnused := us, LProcs c := v (LProcs c) @ [PElemC p])) \<and>
    state (pent t p) = USED \<and> contp (pent t p) = Some c \<and> pid (pent t p) = cnextpid (conts (sch s) c) \<and>
    trapframe (pent t p) = tf \<and> pagetable (pent t p) = pt \<and> sz (pent t p) = sz (pent s p) \<and>
    (\<forall>w<MAXVA. pt_get 2 (pmem (km t)) pt w = proc_map tramp tf w) \<and> (\<exists>qs. vm_ok kend pt (km t) qs \<and> set qs \<subseteq> set ps) \<and>
    (\<forall>q. q \<noteq> p \<longrightarrow> pent t q = pent s q)"
proof -
  note uf = unused_facts [OF inv u]
  obtain h where h: "onSr (take_first LUnused) (s\<lparr>sch := (sch s)\<lparr>held := [LkUnused]\<rparr>\<rparr>)
      = Ok (Some (PElem p), s\<lparr>sch := (sch s)\<lparr>lh := h, held := [LkUnused]\<rparr>\<rparr>)" "lists_ok (live (sch s)) h (v(LUnused := us))"
    using take_unused [of "s\<lparr>sch := (sch s)\<lparr>held := [LkUnused]\<rparr>\<rparr>" v p us] inv u by (auto simp: live_def)
  obtain m where m: "kalloc (km s) = (tf, m)" "kmem_inv kend m (pt # ps)" "tf \<noteq> 0" using kalloc_inv [OF mem] mem by (auto simp: kmem_inv_def)
  obtain m2 qs ns where m2: "proc_pagetable kend tramp tf m = Ok (pt, m2)" "vm_ok kend pt m2 qs" "ps = ns @ qs"
    "\<And>w. w < MAXVA \<Longrightarrow> pt_get 2 (pmem m2) pt w = proc_map tramp tf w" by (rule proc_pagetable_ok [OF m(2) n]) blast
  have pt0: "pt \<noteq> 0" using m(2) by (simp add: kmem_inv_def page_ok_def)
  let ?G = "\<lambda>k. k\<lparr>cnextpid := cnextpid k + 1\<rparr>"
  let ?F = "\<lambda>r. r\<lparr>pid := cnextpid (conts (sch s) c), state := USED, trapframe := tf, pagetable := pt,
    ctxt := \<lparr>ra = fret, sp = kstack r + PGSIZE, saved = replicate 12 0\<rparr>, nsched := 0, nticks := 0, contp := Some c\<rparr>"
  let ?t = "(upd_proc p ?F (upd_cont c ?G (sch s)))\<lparr>lh := h\<rparr>"
  have "LProcs c \<in> live (sch s)" using c by (auto simp: live_def)
  with push_back_ok [of "live (sch s)" ?t "v(LUnused := us)" "LProcs c" "PElemC p"] h(2) proc_off_lists [OF inv u] obtain g where
    g: "push_back (LProcs c) (PElemC p) ?t = Ok (?t\<lparr>lh := g\<rparr>)" "lists_ok (live (sch s)) g (v(LUnused := us, LProcs c := v (LProcs c) @ [PElemC p]))" by auto
  have i: "sched_inv (?t\<lparr>lh := g\<rparr>) (v(LUnused := us, LProcs c := v (LProcs c) @ [PElemC p]))"
    using alloc_inv [OF inv u c g(2), of ?F ?G] by simp
  let ?s = "s\<lparr>km := m2, sch := (?t\<lparr>lh := g\<rparr>)\<lparr>held := [LkProc p]\<rparr>\<rparr>"
  have "allocproc kend tramp fret c s = Ok (Some p, ?s)"
    using lk h(1) m(1,3) m2(1) pt0 g(1) unfolding allocproc_def
    by (simp add: onSr_def allocpid_spec onKr_def onS_def updp_def upd_proc_twice)
  then show ?thesis using i m2 by (intro exI [of _ ?s]) (auto simp: pent_def)
qed

lemma kmem_exists: "distinct ps \<Longrightarrow> \<forall>p\<in>set ps. page_ok kend p \<Longrightarrow> \<exists>m. kmem_inv kend m ps"
proof (induction ps)
  case Nil
  show ?case by (rule exI [of _ "\<lparr>pmem = (\<lambda>_. 0), freelist = 0\<rparr>"]) (simp add: kmem_inv_def)
next
  case (Cons p ps)
  then obtain m where "kmem_inv kend m ps" by auto
  from kfree_inv [OF this, of p] Cons.prems show ?case by auto
qed

theorem allocproc_correct_witness:
  "\<exists>s t. allocproc 0x80000000 0x80007000 0x80008000 0 s = Ok (Some 3, t) \<and> cnextpid (conts (sch s) 0) = 4 \<and> pid (pent t 3) = 4 \<and>
     trapframe (pent t 3) = 0x80010000 \<and> pt_get 2 (pmem (km t)) 0x80011000 0 = 0"
proof -
  obtain h where h: "sched_inv (sample_sst h) sample_queues" using sample_inv by blast
  have q: "sample_queues LUnused = PElem 3 # map PElem [4..<64]" by (simp add: sample_queues_def NPROC_def upt_conv_Cons)
  let ?ps = "[0x80012000, 0x80013000, 0x80014000, 0x80015000] :: u64 list"
  have "\<forall>p\<in>set (0x80010000 # 0x80011000 # ?ps). page_ok 0x80000000 p"
    by (simp add: page_ok_def aligned_def PGSIZE_def PHYSTOP_def KERNBASE_def)
  then obtain m where m: "kmem_inv 0x80000000 m (0x80010000 # 0x80011000 # ?ps)"
    using kmem_exists [of "0x80010000 # 0x80011000 # ?ps" "0x80000000"] by auto
  let ?s = "(sample_kst h)\<lparr>km := m\<rparr>"
  have s: "sched_inv (sch ?s) sample_queues" "held (sch ?s) = []" "0 < NCONT" "cstate (conts (sch ?s) 0) = USED"
    "kmem_inv 0x80000000 (km ?s) (0x80010000 # 0x80011000 # ?ps)" "4 \<le> length ?ps" "cnextpid (conts (sch ?s) 0) = 4"
    using h m by (simp_all add: sample_kst_def sample_sst_def NCONT_def)
  from allocproc_correct [OF s(1) q s(2-6), of "0x80007000" "0x80008000"] obtain t where
    t: "allocproc 0x80000000 0x80007000 0x80008000 0 ?s = Ok (Some 3, t)" "pid (pent t 3) = 4" "trapframe (pent t 3) = 0x80010000"
      "\<forall>w<MAXVA. pt_get 2 (pmem (km t)) 0x80011000 w = proc_map 0x80007000 0x80010000 w" using s(7) by auto
  moreover have "(0 :: u64) < MAXVA" "proc_map 0x80007000 0x80010000 0 = 0"
    by (simp_all add: MAXVA_def proc_map_def pg_def TRAPFRAME_def TRAMPOLINE_def PGSIZE_def)
  ultimately show ?thesis using s(7) by (intro exI [of _ ?s] exI [of _ t]) simp
qed

end
