(* ===== verification/Console.thy ===== *)
theory Console
  imports ProcLife
begin

text \<open>
  Output and input of characters: \<open>kernel/printf.c\<close>, \<open>kernel/uart.c\<close>, \<open>kernel/console.c\<close> and the listings
  \<open>procdump\<close> and \<open>contdump\<close> of \<open>kernel/proc.c\<close>.  The registers of the UART are the device fields of the
  state: a loop that polls a busy device ends with \<open>Wait\<close>.  A call that sleeps (a full transmit
  buffer, an empty input line) is cut there, as in \<open>Pipe\<close>.
\<close>

section \<open>UART\<close>

definition UART_TX_BUF_SIZE :: nat where "UART_TX_BUF_SIZE = 32"

definition upd_uart :: "(uartst \<Rightarrow> uartst) \<Rightarrow> kst \<Rightarrow> kst" where
  "upd_uart f s = s\<lparr>uart := f (uart s)\<rparr>"

definition send_byte :: "byte \<Rightarrow> uartst \<Rightarrow> uartst" where
  "send_byte c u = u\<lparr>thr_out := thr_out u @ [c], thr_room := thr_room u - 1\<rparr>"

definition uartputc_sync :: "byte \<Rightarrow> kst \<Rightarrow> kst res" where
  "uartputc_sync c s = (if thr_room (uart s) = 0 then Wait else Ok (upd_uart (send_byte c) s))"

definition uartstart_turn :: "kst \<Rightarrow> (kst, kst) ctl res" where
  "uartstart_turn s =
     (if tx_w (uart s) = tx_r (uart s) then Ok (Exit s)
      else if thr_room (uart s) = 0 then Ok (Exit s)
      else
        let c = tx_buf (uart s) ! (unat (tx_r (uart s)) mod UART_TX_BUF_SIZE);
            s = upd_uart (\<lambda>u. u\<lparr>tx_r := tx_r u + 1\<rparr>) s in
        bindR (kwakeup ChUart s) (\<lambda>s. Ok (Next (upd_uart (send_byte c) s))))"

definition uartstart :: "kst \<Rightarrow> kst res" where
  "uartstart = loopR uartstart_turn"

definition uart_full :: "uartst \<Rightarrow> bool" where
  "uart_full u \<longleftrightarrow> tx_w u = tx_r u + of_nat UART_TX_BUF_SIZE"

text \<open>\<open>uartputc\<close> from the test of its loop on; \<open>False\<close> when it goes to sleep.\<close>

definition uartputc_loop :: "byte \<Rightarrow> kst \<Rightarrow> (bool \<times> kst) res" where
  "uartputc_loop c s =
     (if uart_full (uart s) then bindR (onS (sleep ChUart LkUart) s) (\<lambda>s. Ok (False, s))
      else
        let s = upd_uart (\<lambda>u. u\<lparr>tx_buf := (tx_buf u)[unat (tx_w u) mod UART_TX_BUF_SIZE := c], tx_w := tx_w u + 1\<rparr>) s in
        bindR (uartstart s) (\<lambda>s.
        bindR (krelease LkUart s) (\<lambda>s. Ok (True, s))))"

definition uartputc :: "byte \<Rightarrow> kst \<Rightarrow> (bool \<times> kst) res" where
  "uartputc c s = bindR (kacquire LkUart s) (uartputc_loop c)"

definition uartputc_resume :: "byte \<Rightarrow> kst \<Rightarrow> (bool \<times> kst) res" where
  "uartputc_resume c s = bindR (onS (sleep_resume LkUart) s) (uartputc_loop c)"

definition uartgetc :: "kst \<Rightarrow> int \<times> kst" where
  "uartgetc s =
     (case rhr (uart s) of
        [] \<Rightarrow> (-1, s)
      | c # cs \<Rightarrow> (uint c, upd_uart (\<lambda>u. u\<lparr>rhr := cs\<rparr>) s))"

section \<open>Printing\<close>

definition BACKSPACE :: int where "BACKSPACE = 0x100"

definition consputc :: "int \<Rightarrow> kst \<Rightarrow> kst res" where
  "consputc c s =
     (if c = BACKSPACE then
        bindR (uartputc_sync 8 s) (\<lambda>s. bindR (uartputc_sync 32 s) (uartputc_sync 8))
      else uartputc_sync (word_of_int c) s)"

definition asc :: "string \<Rightarrow> byte list" where
  "asc = map of_char"

definition digits :: "byte list" where
  "digits = asc ''0123456789abcdef''"

text \<open>The \<open>do\<close> loop of \<open>printint\<close>: the digits of \<open>x\<close>, the last one first.\<close>

function digit_loop :: "nat \<Rightarrow> nat \<Rightarrow> byte list" where
  "digit_loop base x = digits ! (x mod base) # (if base < 2 \<or> x div base = 0 then [] else digit_loop base (x div base))"
  by auto

termination
proof (relation "measure snd")
  fix base x :: nat assume "\<not> (base < 2 \<or> x div base = 0)"
  then have "1 < base" "0 < x" by (auto intro: gr0I)
  then show "((base, x div base), (base, x)) \<in> measure snd" by simp
qed simp

declare digit_loop.simps [simp del]

text \<open>What \<open>printint\<close> writes; the buffer \<open>buf\<close> is filled from the last digit and written backwards.\<close>

definition printint :: "u32 \<Rightarrow> nat \<Rightarrow> bool \<Rightarrow> byte list" where
  "printint xx base sign =
     (let neg = (sign \<and> sint xx < 0);
          x = (if neg then - xx else xx);
          buf = digit_loop base (unat x) @ (if neg then [45] else [])
      in rev buf)"

definition printptr :: "u64 \<Rightarrow> byte list" where
  "printptr x = [48, 120] @ map (\<lambda>i. digits ! unat (drop_bit 60 (push_bit (4 * i) x))) [0..<16]"

text \<open>
  The arguments of \<open>printf\<close>.  An argument that is missing or of another kind than the format says
  is undefined behaviour.
\<close>

datatype parg = PInt u32 | PPtr u64 | PStr "byte list option"

definition null_text :: "byte list" where
  "null_text = asc ''(null)''"

text \<open>What one conversion \<open>%c\<close> writes, and the arguments that are left.\<close>

definition conversion :: "byte \<Rightarrow> parg list \<Rightarrow> (byte list \<times> parg list) res" where
  "conversion c args =
     (if c = 100 then (case args of PInt x # as \<Rightarrow> Ok (printint x 10 True, as) | _ \<Rightarrow> Fault)
      else if c = 120 then (case args of PInt x # as \<Rightarrow> Ok (printint x 16 True, as) | _ \<Rightarrow> Fault)
      else if c = 112 then (case args of PPtr x # as \<Rightarrow> Ok (printptr x, as) | _ \<Rightarrow> Fault)
      else if c = 115 then
        (case args of PStr t # as \<Rightarrow> Ok (takeWhile (\<lambda>b. b \<noteq> 0) (case t of None \<Rightarrow> null_text | Some u \<Rightarrow> u), as) | _ \<Rightarrow> Fault)
      else if c = 37 then Ok ([37], args)
      else Ok ([37, c], args))"

fun format_text :: "byte list \<Rightarrow> parg list \<Rightarrow> byte list res" where
  "format_text [] args = Ok []"
| "format_text [c] args = Ok (if c = 37 then [] else [c])"
| "format_text (c # d # cs) args =
     (if c \<noteq> 37 then bindR (format_text (d # cs) args) (\<lambda>t. Ok (c # t))
      else bindR (conversion d args) (\<lambda>(u, as). bindR (format_text cs as) (\<lambda>t. Ok (u @ t))))"

fun put_all :: "byte list \<Rightarrow> kst \<Rightarrow> kst res" where
  "put_all [] s = Ok s"
| "put_all (c # cs) s = bindR (consputc (uint c) s) (put_all cs)"

definition printf :: "byte list \<Rightarrow> parg list \<Rightarrow> kst \<Rightarrow> kst res" where
  "printf fmt args s =
     (let locking = pr_locking s in
      bindR (if locking then kacquire LkPr s else Ok s) (\<lambda>s.
      bindR (format_text fmt args) (\<lambda>t.
      bindR (put_all t s) (\<lambda>s.
      if locking then krelease LkPr s else Ok s))))"

text \<open>\<open>panic\<close> prints its message and stops the machine; in the rest of the model it is the result \<open>Panic\<close>.\<close>

definition panic_output :: "byte list \<Rightarrow> kst \<Rightarrow> kst res" where
  "panic_output msg s =
     bindR (printf (asc ''panic: '') [] (s\<lparr>pr_locking := False\<rparr>)) (\<lambda>s.
     bindR (printf msg [] s) (\<lambda>s.
     printf [10] [] s))"

definition printfinit :: "kst \<Rightarrow> kst" where
  "printfinit s = s\<lparr>pr_locking := True\<rparr>"

section \<open>Listings\<close>

primrec state_name :: "procstate \<Rightarrow> byte list" where
  "state_name UNUSED = asc ''unused''"
| "state_name USED = asc ''used''"
| "state_name SLEEPING = asc ''sleep ''"
| "state_name RUNNABLE = asc ''runble''"
| "state_name RUNNING = asc ''run   ''"
| "state_name ZOMBIE = asc ''zombie''"

definition procdump :: "kst \<Rightarrow> kst res" where
  "procdump s =
     bindR (printf [10] [] s) (\<lambda>s.
     forR (\<lambda>p s.
       let r = pent s p in
       if state r = UNUSED then Ok s
       else
         bindR (deref (contp r)) (\<lambda>c.
         bindR (printf (asc ''[%s] %d %s %s %d'')
           [PStr (Some (cname (conts (sch s) c))), PInt (pid r), PStr (Some (state_name (state r))), PStr (Some (name r)),
            PInt (ucast (nticks r))] s) (\<lambda>s.
         printf [10] [] s)))
       [0..<NPROC] s)"

definition contdump :: "kst \<Rightarrow> kst res" where
  "contdump s =
     bindR (printf [10] [] s) (\<lambda>s.
     forR (\<lambda>c s.
       if cstate (conts (sch s) c) = UNUSED then Ok s
       else
         bindR (kacquire (LkCont c) s) (\<lambda>s.
         bindR (list_size (Some (lst (LProcs c))) (lh (sch s))) (\<lambda>nprocs.
         bindR (krelease (LkCont c) s) (\<lambda>s.
         let k = conts (sch s) c in
         bindR (printf (asc ''[%s] %d procs %d/%d mem %d/%d disk %d ticks'')
           [PStr (Some (cname k)), PInt (ucast nprocs), PInt (used_mem_bytes k), PInt (max_mem_bytes k),
            PInt (used_disk_bytes k), PInt (max_disk_bytes k), PInt (cnticks k)] s) (\<lambda>s.
         printf [10] [] s)))))
       [0..<NCONT] s)"

section \<open>Consoles\<close>

definition NCONS :: nat where "NCONS = 4"
definition INPUT_BUF_SIZE :: nat where "INPUT_BUF_SIZE = 512"

definition upd_cons :: "nat \<Rightarrow> (console \<Rightarrow> console) \<Rightarrow> kst \<Rightarrow> kst" where
  "upd_cons i f s = s\<lparr>consoles := (consoles s)(i := f (consoles s i))\<rparr>"

text \<open>\<open>cons[n]\<close>: the code does not check the index, and an access outside the array faults.\<close>

definition cons_index :: "int \<Rightarrow> nat res" where
  "cons_index n = (if 0 \<le> n \<and> n < int NCONS then Ok (nat n) else Fault)"

text \<open>The character at a position of the ring.\<close>

definition cons_at :: "console \<Rightarrow> u32 \<Rightarrow> byte" where
  "cons_at k i = c_buf k ! (unat i mod INPUT_BUF_SIZE)"

text \<open>
  \<open>consolewrite\<close> from character \<open>i\<close> on.  When \<open>uartputc\<close> sleeps the call ends with \<open>Slept i\<close>; it goes
  on in \<open>consolewrite_resume\<close> with the character it had already read.
\<close>

definition consolewrite_turn :: "int \<Rightarrow> u64 \<Rightarrow> int \<Rightarrow> int \<times> kst \<Rightarrow> (int \<times> kst, iocall \<times> kst) ctl res" where
  "consolewrite_turn cnum src n = (\<lambda>(i, s).
     if i < n then
       bindR (either_copyin (SUser (src + word_of_int i)) 1 s) (\<lambda>(r, bs, _).
       if r = -1 then Ok (Exit (Done i, s))
       else if cnum = conscur s then
         bindR (uartputc (bs ! 0) s) (\<lambda>(sent, s).
         Ok (if sent then Next (i + 1, s) else Exit (Slept i, s)))
       else Ok (Next (i + 1, s)))
     else Ok (Exit (Done i, s)))"

definition consolewrite :: "int \<Rightarrow> u64 \<Rightarrow> int \<Rightarrow> kst \<Rightarrow> (iocall \<times> kst) res" where
  "consolewrite cnum src n s = loopR (consolewrite_turn cnum src n) (0, s)"

definition consolewrite_resume :: "int \<Rightarrow> u64 \<Rightarrow> int \<Rightarrow> int \<Rightarrow> byte \<Rightarrow> kst \<Rightarrow> (iocall \<times> kst) res" where
  "consolewrite_resume cnum src n i c s =
     bindR (uartputc_resume c s) (\<lambda>(sent, s).
     if sent then loopR (consolewrite_turn cnum src n) (i + 1, s) else Ok (Slept i, s))"

text \<open>
  One turn of the outer loop of \<open>consoleread\<close>; \<open>n\<close> is what is still wanted.  \<open>None\<close> leaves the loop for
  the code after it.
\<close>

definition consoleread_turn ::
  "nat \<Rightarrow> nat \<Rightarrow> u32 \<Rightarrow> int \<times> u64 \<times> kst \<Rightarrow> (int \<times> u64 \<times> kst, iocall option \<times> int \<times> kst) ctl res" where
  "consoleread_turn pr k target = (\<lambda>(n, dst, s).
     if n > 0 then
       if c_r (consoles s k) = c_w (consoles s k) then
         bindR (kkilled pr s) (\<lambda>(dead, s).
         if dead then bindR (krelease (LkCons k) s) (\<lambda>s. Ok (Exit (Some (Done (-1)), n, s)))
         else bindR (onS (sleep (ChCons k) (LkCons k)) s) (\<lambda>s. Ok (Exit (Some (Slept n), n, s))))
       else
         let c = cons_at (consoles s k) (c_r (consoles s k));
             s = upd_cons k (\<lambda>x. x\<lparr>c_r := c_r x + 1\<rparr>) s in
         if c = 4 then
           Ok (Exit (None, n, if word_of_int n < target then upd_cons k (\<lambda>x. x\<lparr>c_r := c_r x - 1\<rparr>) s else s))
         else
           bindR (either_copyout (DUser dst) [c] s) (\<lambda>(r, _, s).
           if r = -1 then Ok (Exit (None, n, s))
           else if c = 10 then Ok (Exit (None, n - 1, s))
           else Ok (Next (n - 1, dst + 1, s)))
     else Ok (Exit (None, n, s)))"

definition consoleread_loop :: "nat \<Rightarrow> u32 \<Rightarrow> int \<Rightarrow> u64 \<Rightarrow> kst \<Rightarrow> (iocall \<times> kst) res" where
  "consoleread_loop k target n dst s =
     bindR (deref (myproc (sch s))) (\<lambda>pr.
     bindR (loopR (consoleread_turn pr k target) (n, dst, s)) (\<lambda>(r, n, s).
     case r of Some v \<Rightarrow> Ok (v, s)
     | None \<Rightarrow> bindR (krelease (LkCons k) s) (\<lambda>s. Ok (Done (sint (target - word_of_int n)), s))))"

definition consoleread :: "int \<Rightarrow> u64 \<Rightarrow> int \<Rightarrow> kst \<Rightarrow> (iocall \<times> kst) res" where
  "consoleread cnum dst n s =
     bindR (cons_index cnum) (\<lambda>k.
     bindR (kacquire (LkCons k) s) (\<lambda>s.
     consoleread_loop k (word_of_int n) n dst s))"

definition consoleread_resume :: "int \<Rightarrow> u32 \<Rightarrow> int \<Rightarrow> u64 \<Rightarrow> kst \<Rightarrow> (iocall \<times> kst) res" where
  "consoleread_resume cnum target n dst s =
     bindR (cons_index cnum) (\<lambda>k.
     bindR (onS (sleep_resume (LkCons k)) s) (\<lambda>s.
     consoleread_loop k target n dst s))"

definition active_text :: "byte list" where
  "active_text = asc ''[Console %d now active]'' @ [10]"

definition consolesw :: "int \<Rightarrow> kst \<Rightarrow> kst res" where
  "consolesw consnum s =
     (let s = s\<lparr>conscur := consnum\<rparr> in
      bindR (printf [27, 99] [] s) (\<lambda>s.
      printf active_text [PInt (word_of_int (conscur s))] s))"

definition consolenext :: "kst \<Rightarrow> kst res" where
  "consolenext s =
     bindR (kacquire LkConscur s) (\<lambda>s.
     bindR (krelease LkConscur (s\<lparr>conscur := (conscur s + 1) mod int NCONS\<rparr>)) (\<lambda>s.
     consolesw (conscur s) s))"

definition consw :: "int \<Rightarrow> kst \<Rightarrow> kst res" where
  "consw = consolesw"

definition kill_line_turn :: "nat \<Rightarrow> kst \<Rightarrow> (kst, kst) ctl res" where
  "kill_line_turn k s =
     (if c_e (consoles s k) \<noteq> c_w (consoles s k) \<and> cons_at (consoles s k) (c_e (consoles s k) - 1) \<noteq> 10 then
        bindR (consputc BACKSPACE (upd_cons k (\<lambda>x. x\<lparr>c_e := c_e x - 1\<rparr>) s)) (\<lambda>s. Ok (Next s))
      else Ok (Exit s))"

text \<open>The default case of \<open>consoleintr\<close>: an ordinary character.\<close>

definition input_char :: "int \<Rightarrow> nat \<Rightarrow> kst \<Rightarrow> kst res" where
  "input_char c k s =
     (if c \<noteq> 0 \<and> c_e (consoles s k) - c_r (consoles s k) < of_nat INPUT_BUF_SIZE then
        let c = (if c = 13 then 10 else c) in
        bindR (consputc c s) (\<lambda>s.
        let s = upd_cons k (\<lambda>x. x\<lparr>c_buf := (c_buf x)[unat (c_e x) mod INPUT_BUF_SIZE := word_of_int c], c_e := c_e x + 1\<rparr>) s in
        if c = 10 \<or> c = 4 \<or> c_e (consoles s k) - c_r (consoles s k) = of_nat INPUT_BUF_SIZE then
          kwakeup (ChCons k) (upd_cons k (\<lambda>x. x\<lparr>c_w := c_e x\<rparr>) s)
        else Ok s)
      else Ok s)"

definition consoleintr :: "int \<Rightarrow> kst \<Rightarrow> kst res" where
  "consoleintr c s =
     bindR (cons_index (conscur s)) (\<lambda>k.
     bindR (kacquire (LkCons k) s) (\<lambda>s.
     bindR (if c = 20 then
              bindR (krelease (LkCons k) s) (\<lambda>s.
              bindR (consolenext s) (\<lambda>s.
              bindR (cons_index (conscur s)) (\<lambda>k. kacquire (LkCons k) s)))
            else if c = 16 then procdump s
            else if c = 15 then contdump s
            else if c = 21 then loopR (kill_line_turn k) s
            else if c = 8 \<or> c = 127 then
              (if c_e (consoles s k) \<noteq> c_w (consoles s k)
               then consputc BACKSPACE (upd_cons k (\<lambda>x. x\<lparr>c_e := c_e x - 1\<rparr>) s) else Ok s)
            else input_char c k s) (\<lambda>s.
     bindR (cons_index (conscur s)) (\<lambda>k. krelease (LkCons k) s))))"

definition uartintr :: "kst \<Rightarrow> kst res" where
  "uartintr s =
     bindR (loopR (\<lambda>s.
       let (c, s) = uartgetc s in
       if c = -1 then Ok (Exit s) else bindR (consoleintr c s) (\<lambda>s. Ok (Next s))) s) (\<lambda>s.
     bindR (kacquire LkUart s) (\<lambda>s.
     bindR (uartstart s) (\<lambda>s.
     krelease LkUart s)))"

text \<open>The device switch as \<open>consoleinit\<close> leaves it: only the console is registered.\<close>

definition CONSOLE :: int where "CONSOLE = 1"

definition kdevsw :: "int \<Rightarrow> devsw" where
  "kdevsw mj = (if mj = CONSOLE then \<lparr>dread = Some consoleread, dwrite = Some consolewrite\<rparr>
                else \<lparr>dread = None, dwrite = None\<rparr>)"

definition consoleinit :: "kst \<Rightarrow> kst res" where
  "consoleinit s = printf active_text [PInt (word_of_int (conscur s))] s"

section \<open>Numbers printed\<close>

definition dval :: "byte \<Rightarrow> nat" where
  "dval c = (if c < 58 then unat c - 48 else unat c - 87)"

definition number :: "nat \<Rightarrow> byte list \<Rightarrow> nat" where
  "number b ds = foldl (\<lambda>a c. a * b + dval c) 0 ds"

lemma digits_list: "digits = [48, 49, 50, 51, 52, 53, 54, 55, 56, 57, 97, 98, 99, 100, 101, 102]"
  by (simp add: digits_def asc_def)

lemma dval_digit: "d < 16 \<Longrightarrow> dval (digits ! d) = d"
proof -
  have "\<forall>d \<in> set [0..<16]. dval (digits ! d) = d"
    by (simp add: digits_list dval_def upt_conv_Cons nth_Cons' )
  then show "d < 16 \<Longrightarrow> dval (digits ! d) = d" by simp
qed

lemma number_snoc: "number b (ds @ [c]) = number b ds * b + dval c"
  by (simp add: number_def)

lemma number_digits:
  assumes "2 \<le> b" "b \<le> 16"
  shows "number b (rev (digit_loop b x)) = x"
proof (induction x rule: less_induct)
  case (less x)
  show ?case
  proof (cases "x div b = 0")
    case True
    then have "x < b" using assms by (simp add: div_eq_0_iff)
    then show ?thesis using assms dval_digit [of x] by (subst digit_loop.simps) (simp add: number_def)
  next
    case False
    then have "x div b < x" using assms by (intro div_less_dividend) (auto intro: gr0I)
    then have "number b (rev (digit_loop b (x div b))) = x div b" by (rule less.IH)
    moreover have "x mod b < 16" using assms mod_less_divisor [of b x] by linarith
    ultimately show ?thesis using False assms by (subst digit_loop.simps) (simp add: number_snoc dval_digit)
  qed
qed

lemma digit_loop_length: "2 \<le> b \<Longrightarrow> x < b ^ Suc n \<Longrightarrow> length (digit_loop b x) \<le> Suc n"
proof (induction n arbitrary: x)
  case 0 then show ?case by (subst digit_loop.simps) simp
next
  case (Suc n)
  have "x div b < b ^ Suc n" using Suc.prems by (simp add: div_less_iff_less_mult mult.commute)
  then show ?case using Suc.IH [OF Suc.prems(1)] by (subst digit_loop.simps) simp
qed

lemma neg_sint: "sint (xx :: u32) < 0 \<Longrightarrow> int (unat (- xx)) = - sint xx"
proof -
  assume n: "sint xx < 0"
  have b: "- (2 ^ 31) \<le> sint xx" using sint_greater_eq [of xx] by simp
  have "uint xx = (sint xx + 2 ^ 32) mod 2 ^ 32" by (simp add: uint_sint take_bit_eq_mod)
  also have "\<dots> = sint xx + 2 ^ 32" using n b by (intro mod_pos_pos_trivial) simp_all
  finally have "(- uint xx) mod 2 ^ 32 = (- sint xx + (- 1) * 2 ^ 32) mod 2 ^ 32" by simp
  also have "\<dots> = - sint xx mod 2 ^ 32" by (rule mod_mult_self1)
  also have "\<dots> = - sint xx" using n b by (intro mod_pos_pos_trivial) simp_all
  finally have "uint (- xx) = - sint xx" by (simp add: uint_word_ariths)
  then show ?thesis by simp
qed

lemma nonneg_sint: "0 \<le> sint (xx :: u32) \<Longrightarrow> int (unat xx) = sint xx"
proof -
  assume "0 \<le> sint xx"
  moreover have "sint xx < 2 ^ 31" using sint_less [of xx] by simp
  ultimately have "uint xx = sint xx" by (simp add: uint_sint take_bit_eq_mod mod_pos_pos_trivial)
  then show ?thesis by simp
qed


section \<open>Bytes to the device\<close>

definition put_out :: "byte list \<Rightarrow> kst \<Rightarrow> kst" where
  "put_out t = upd_uart (\<lambda>u. u\<lparr>thr_out := thr_out u @ t, thr_room := thr_room u - length t\<rparr>)"

lemma put_out_Nil [simp]: "put_out [] s = s"
  by (simp add: put_out_def upd_uart_def)

lemma put_out_put_out [simp]: "put_out u (put_out t s) = put_out (t @ u) s"
  by (simp add: put_out_def upd_uart_def)

lemma put_out_sel [simp]:
  "sch (put_out t s) = sch s" "km (put_out t s) = km s" "consoles (put_out t s) = consoles s" "conscur (put_out t s) = conscur s"
  "thr_room (uart (put_out t s)) = thr_room (uart s) - length t" "thr_out (uart (put_out t s)) = thr_out (uart s) @ t"
  "pr_locking (put_out t s) = pr_locking s" "put_out t (s\<lparr>sch := x\<rparr>) = (put_out t s)\<lparr>sch := x\<rparr>"
  by (simp_all add: put_out_def upd_uart_def)

lemma uartputc_sync_ready: "0 < thr_room (uart s) \<Longrightarrow> uartputc_sync c s = Ok (put_out [c] s)"
  by (simp add: uartputc_sync_def put_out_def upd_uart_def send_byte_def)

lemma consputc_byte: "0 < thr_room (uart s) \<Longrightarrow> 0 \<le> c \<Longrightarrow> c < 256 \<Longrightarrow> consputc c s = Ok (put_out [word_of_int c] s)"
  by (simp add: consputc_def BACKSPACE_def uartputc_sync_ready)

lemma consputc_backspace: "3 \<le> thr_room (uart s) \<Longrightarrow> consputc BACKSPACE s = Ok (put_out [8, 32, 8] s)"
  by (simp add: consputc_def uartputc_sync_ready)

lemma put_all_ready: "length t \<le> thr_room (uart s) \<Longrightarrow> put_all t s = Ok (put_out t s)"
proof (induction t arbitrary: s)
  case (Cons c t)
  have "consputc (uint c) s = Ok (put_out [c] s)"
    using consputc_byte [of s "uint c"] Cons.prems uint_lt2p [of c] by simp
  then show ?case using Cons.IH [of "put_out [c] s"] Cons.prems by simp
qed simp

lemma sch_eta: "sch s = x \<Longrightarrow> s\<lparr>sch := x\<rparr> = s"
  by auto

text \<open>With the lock of \<open>printf\<close> free and room in the device, \<open>printf\<close> sends the formatted text.\<close>

lemma printf_ready:
  assumes "LkPr \<notin> set (held (sch s))" "format_text fmt args = Ok t" "length t \<le> thr_room (uart s)"
  shows "printf fmt args s = Ok (put_out t s)"
  using assms by (cases "pr_locking s") (simp_all add: printf_def Let_def put_all_ready sch_eta)

section \<open>The transmit buffer\<close>

interpretation uart_ring: ring UART_TX_BUF_SIZE "TYPE(64)"
  by unfold_locales (simp_all add: UART_TX_BUF_SIZE_def)

definition uart_ok :: "uartst \<Rightarrow> bool" where
  "uart_ok u \<longleftrightarrow> length (tx_buf u) = UART_TX_BUF_SIZE \<and> unat (tx_w u - tx_r u) \<le> UART_TX_BUF_SIZE"

definition uart_items :: "uartst \<Rightarrow> byte list" where
  "uart_items u = ring_items UART_TX_BUF_SIZE (tx_buf u) (tx_r u) (tx_w u)"

lemma uart_items_length [simp]: "length (uart_items u) = unat (tx_w u - tx_r u)"
  by (simp add: uart_items_def)

lemma upd_uart_sel [simp]:
  "uart (upd_uart f s) = f (uart s)" "sch (upd_uart f s) = sch s" "(upd_uart f s)\<lparr>sch := x\<rparr> = upd_uart f (s\<lparr>sch := x\<rparr>)"
  by (simp_all add: upd_uart_def)

text \<open>
  What the driver may do to the state: bytes move from the buffer to the device in order, sleepers
  are woken, nothing else changes.
\<close>

definition uart_stream :: "uartst \<Rightarrow> byte list" where
  "uart_stream u = thr_out u @ uart_items u"

definition uart_step :: "kst \<Rightarrow> kst \<Rightarrow> bool" where
  "uart_step s t \<longleftrightarrow> t = s\<lparr>uart := uart t, sch := sch t\<rparr> \<and> woken (sch s) (sch t) \<and> uart_ok (uart t) \<and>
     uart_stream (uart t) = uart_stream (uart s) \<and>
     length (thr_out (uart t)) + thr_room (uart t) = length (thr_out (uart s)) + thr_room (uart s)"

lemma uart_send:
  assumes ok: "uart_ok u" and ne: "tx_w u \<noteq> tx_r u" and rm: "0 < thr_room u"
  defines "w \<equiv> send_byte (tx_buf u ! (unat (tx_r u) mod UART_TX_BUF_SIZE)) (u\<lparr>tx_r := tx_r u + 1\<rparr>)"
  shows "uart_ok w" "uart_stream w = uart_stream u" "length (thr_out w) + thr_room w = length (thr_out u) + thr_room u"
    "unat (tx_w w - tx_r w) < unat (tx_w u - tx_r u)"
proof -
  have c: "Suc (unat (tx_w u - (tx_r u + 1))) = unat (tx_w u - tx_r u)" using uart_ring.count_get [of "tx_r u" "tx_w u"] ne by simp
  show "uart_ok w" using ok c by (simp add: uart_ok_def w_def send_byte_def)
  show "uart_stream w = uart_stream u"
    using uart_ring.items_get [of "tx_r u" "tx_w u" "tx_buf u"] ne by (simp add: uart_stream_def uart_items_def w_def send_byte_def)
  show "length (thr_out w) + thr_room w = length (thr_out u) + thr_room u" using rm by (simp add: w_def send_byte_def)
  show "unat (tx_w w - tx_r w) < unat (tx_w u - tx_r u)" using c by (simp add: w_def send_byte_def)
qed

lemma uartstart_ok:
  assumes r: "runs (sch s) p" "held (sch s) = [LkUart]" and ok: "uart_ok (uart s)"
  shows "\<exists>t. uartstart s = Ok t \<and> uart_step s t \<and> runs (sch t) p \<and> held (sch t) = [LkUart] \<and>
    (uart_items (uart t) = [] \<or> thr_room (uart t) = 0)"
  unfolding uartstart_def
proof (rule loopR_total [where I = "\<lambda>t. uart_step s t \<and> runs (sch t) p \<and> held (sch t) = [LkUart]"
      and f = "\<lambda>t. unat (tx_w (uart t) - tx_r (uart t))"], goal_cases)
  case 1
  then show ?case using r ok by (simp add: uart_step_def)
next
  case (2 t)
  then have t: "t = s\<lparr>uart := uart t, sch := sch t\<rparr>" "woken (sch s) (sch t)" "uart_ok (uart t)" "uart_stream (uart t) = uart_stream (uart s)"
    "length (thr_out (uart t)) + thr_room (uart t) = length (thr_out (uart s)) + thr_room (uart s)" "runs (sch t) p" "held (sch t) = [LkUart]"
    by (simp_all add: uart_step_def)
  show ?case
  proof (cases "tx_w (uart t) = tx_r (uart t) \<or> thr_room (uart t) = 0")
    case True
    then have "uart_items (uart t) = [] \<or> thr_room (uart t) = 0" by (auto simp flip: length_0_conv)
    then show ?thesis using True 2 by (auto simp: uartstart_turn_def)
  next
    case False
    let ?t1 = "upd_uart (\<lambda>u. u\<lparr>tx_r := tx_r u + 1\<rparr>) t"
    let ?c = "tx_buf (uart t) ! (unat (tx_r (uart t)) mod UART_TX_BUF_SIZE)"
    have "no_table_locks (sch ?t1)" using t(7) by (simp add: no_table_locks_def)
    then obtain v where v: "kwakeup ChUart ?t1 = Ok (?t1\<lparr>sch := v\<rparr>)" "runs v p" "woken (sch t) v"
      using kwakeup_runs [of ?t1 p ChUart] t(6) by auto
    let ?u = "upd_uart (send_byte ?c) (?t1\<lparr>sch := v\<rparr>)"
    have b: "uartstart_turn t = Ok (Next ?u)" using False v(1) by (simp add: uartstart_turn_def Let_def)
    note s = uart_send [of "uart t"]
    have e: "uart ?u = send_byte ?c ((uart t)\<lparr>tx_r := tx_r (uart t) + 1\<rparr>)" "sch ?u = v" by (simp_all add: upd_uart_def)
    have "?u = s\<lparr>uart := uart ?u, sch := sch ?u\<rparr>" unfolding e upd_uart_def by (subst t(1)) simp
    then have "uart_step s ?u" using s t v(3) False woken_trans [OF t(2) v(3)] unfolding uart_step_def e by auto
    moreover have "held v = [LkUart]" using woken_sel(2) [OF v(3)] t(7) by simp
    ultimately show ?thesis using b v(2) s(4) t(3) False unfolding e by (intro disjI1 exI [of _ ?u]) (simp add: e)
  qed
qed

text \<open>
  The UART driver loses, duplicates and reorders nothing: with room in the transmit buffer, \<open>uartputc c\<close>
  returns and the bytes sent to the device followed by the bytes still in the buffer are those from
  before followed by \<open>c\<close>; sending stops only when the buffer is empty or the device is busy.  With a
  full buffer the process goes to sleep on the buffer and the buffer is unchanged.
\<close>

theorem uartputc_stream:
  assumes run: "runs (sch s) p" "held (sch s) = []" and ok: "uart_ok (uart s)"
  shows "if length (uart_items (uart s)) < UART_TX_BUF_SIZE
    then \<exists>t. uartputc c s = Ok (True, t) \<and> uart_ok (uart t) \<and> uart_stream (uart t) = uart_stream (uart s) @ [c] \<and>
      (uart_items (uart t) = [] \<or> thr_room (uart t) = 0) \<and> runs (sch t) p \<and> held (sch t) = []
    else \<exists>t. uartputc c s = Ok (False, t) \<and> uart t = uart s \<and> asleep p ChUart (sch t)"
proof -
  let ?s = "s\<lparr>sch := (sch s)\<lparr>held := [LkUart]\<rparr>\<rparr>"
  have l: "length (uart_items (uart s)) = unat (tx_w (uart s) - tx_r (uart s))" by simp
  have a: "kacquire LkUart s = Ok ?s" using run(2) by simp
  have f: "uart_full (uart s) \<longleftrightarrow> length (uart_items (uart s)) = UART_TX_BUF_SIZE"
    unfolding uart_full_def l by (rule uart_ring.full_iff) (use ok in \<open>simp add: uart_ok_def\<close>)
  show ?thesis
  proof (cases "length (uart_items (uart s)) < UART_TX_BUF_SIZE")
    case True
    let ?w = "\<lambda>u. u\<lparr>tx_buf := (tx_buf u)[unat (tx_w u) mod UART_TX_BUF_SIZE := c], tx_w := tx_w u + 1\<rparr>"
    let ?s1 = "upd_uart ?w ?s"
    have n: "unat (tx_w (uart s) - tx_r (uart s)) < UART_TX_BUF_SIZE" using True l by simp
    have u: "uart_ok (uart ?s1)" using ok uart_ring.count_put [OF n] n by (simp add: uart_ok_def)
    have st: "uart_stream (uart ?s1) = uart_stream (uart s) @ [c]"
      using uart_ring.items_put [OF _ n, of "tx_buf (uart s)" c] ok by (simp add: uart_stream_def uart_items_def uart_ok_def)
    have "runs (sch ?s1) p" "held (sch ?s1) = [LkUart]" using run by simp_all
    from uartstart_ok [OF this u] obtain t where
      t: "uartstart ?s1 = Ok t" "uart_step ?s1 t" "runs (sch t) p" "held (sch t) = [LkUart]" "uart_items (uart t) = [] \<or> thr_room (uart t) = 0" by blast
    have "uartputc c s = Ok (True, t\<lparr>sch := (sch t)\<lparr>held := []\<rparr>\<rparr>)"
      using a f True t(1,4) by (simp add: uartputc_def uartputc_loop_def Let_def)
    then show ?thesis using True t st unfolding uart_step_def by simp
  next
    case False
    then have full: "uart_full (uart s)" using f ok by (simp add: uart_ok_def)
    have "runs (sch ?s) p" "held (sch ?s) = [LkUart]" using run by simp_all
    from pipe_sleep [OF this, of ChUart] obtain t where
      "onS (sleep ChUart LkUart) ?s = Ok (?s\<lparr>sch := t\<rparr>)" "asleep p ChUart t" by auto
    then show ?thesis using False a full by (simp add: uartputc_def uartputc_loop_def)
  qed
qed

theorem uartputc_stream_witness:
  "\<exists>s t. runs (sch s) 0 \<and> thr_out (uart s) = [] \<and> uartputc 65 s = Ok (True, t) \<and> thr_out (uart t) @ uart_items (uart t) = [65]"
proof -
  obtain h where h: "runs (sample_sst h) 0" using sample_runs by blast
  let ?s = "(sample_kst h)\<lparr>uart := \<lparr>tx_buf = replicate 32 0, tx_w = 0, tx_r = 0, thr_room = 5, thr_out = [], rhr = []\<rparr>\<rparr>"
  have s: "runs (sch ?s) 0" "held (sch ?s) = []" "uart_ok (uart ?s)" and e: "uart_items (uart ?s) = []" "thr_out (uart ?s) = []"
    using h by (simp_all add: sample_kst_def uart_ok_def uart_items_def ring_items_def UART_TX_BUF_SIZE_def)
  have c: "length (uart_items (uart ?s)) < UART_TX_BUF_SIZE" unfolding e by (simp add: UART_TX_BUF_SIZE_def)
  from uartputc_stream [OF s, of 65, unfolded if_P [OF c]] s(1) e show ?thesis unfolding uart_stream_def by fastforce
qed

section \<open>The line editor\<close>

interpretation cons_ring: ring INPUT_BUF_SIZE "TYPE(32)"
  by unfold_locales (simp_all add: INPUT_BUF_SIZE_def)

definition cons_ok :: "console \<Rightarrow> bool" where
  "cons_ok k \<longleftrightarrow> length (c_buf k) = INPUT_BUF_SIZE \<and> unat (c_e k - c_r k) \<le> INPUT_BUF_SIZE \<and>
     unat (c_w k - c_r k) \<le> unat (c_e k - c_r k)"

text \<open>What was typed and not read yet: the part that readers may take, and the line being edited.\<close>

definition typed :: "console \<Rightarrow> byte list" where
  "typed k = ring_items INPUT_BUF_SIZE (c_buf k) (c_r k) (c_e k)"

definition ready :: "console \<Rightarrow> byte list" where
  "ready k = ring_items INPUT_BUF_SIZE (c_buf k) (c_r k) (c_w k)"

definition edited :: "console \<Rightarrow> byte list" where
  "edited k = drop (unat (c_w k - c_r k)) (typed k)"

lemma typed_split: "cons_ok k \<Longrightarrow> typed k = ready k @ edited k"
proof -
  assume "cons_ok k"
  then have "take (unat (c_w k - c_r k)) (typed k) = ready k"
    by (simp add: cons_ok_def typed_def ready_def ring_items_def take_map)
  then show ?thesis unfolding edited_def by (metis append_take_drop_id)
qed

lemma typed_length [simp]: "length (typed k) = unat (c_e k - c_r k)" "length (ready k) = unat (c_w k - c_r k)"
  by (simp_all add: typed_def ready_def)

lemma edited_Nil: "cons_ok k \<Longrightarrow> edited k = [] \<longleftrightarrow> c_e k = c_w k"
proof -
  assume k: "cons_ok k"
  have "edited k = [] \<longleftrightarrow> unat (c_e k - c_r k) \<le> unat (c_w k - c_r k)" by (simp add: edited_def)
  also have "\<dots> \<longleftrightarrow> unat (c_e k - c_r k) = unat (c_w k - c_r k)" using k by (auto simp: cons_ok_def)
  also have "\<dots> \<longleftrightarrow> c_e k = c_w k" by (metis diff_add_cancel word_unat_eq_iff)
  finally show ?thesis .
qed

lemma split_unique: "typed k = r @ e \<Longrightarrow> length r = unat (c_w k - c_r k) \<Longrightarrow> cons_ok k \<Longrightarrow> ready k = r \<and> edited k = e"
  using typed_split [of k] typed_length(2) [of k] by (metis append_eq_append_conv)

text \<open>The abstract editor: what one key does to these two parts.\<close>

definition key_step :: "int \<Rightarrow> byte list \<times> byte list \<Rightarrow> byte list \<times> byte list" where
  "key_step c = (\<lambda>(rd, ed).
     if c = 21 then (rd, rev (dropWhile (\<lambda>b. b \<noteq> 10) (rev ed)))
     else if c = 8 \<or> c = 127 then (rd, butlast ed)
     else if c = 0 \<or> length rd + length ed \<ge> INPUT_BUF_SIZE then (rd, ed)
     else
       let ed = ed @ [if c = 13 then 10 else word_of_int c] in
       if c = 13 \<or> c = 10 \<or> c = 4 \<or> length rd + length ed = INPUT_BUF_SIZE then (rd @ ed, []) else (rd, ed))"

lemma erase_one:
  assumes k: "cons_ok k" and ne: "edited k \<noteq> []"
  shows "cons_ok (k\<lparr>c_e := c_e k - 1\<rparr>)" "ready (k\<lparr>c_e := c_e k - 1\<rparr>) = ready k" "edited (k\<lparr>c_e := c_e k - 1\<rparr>) = butlast (edited k)"
    "edited k ! (length (edited k) - 1) = cons_at k (c_e k - 1)"
proof -
  let ?k = "k\<lparr>c_e := c_e k - 1\<rparr>"
  have lt: "unat (c_w k - c_r k) < unat (c_e k - c_r k)" using ne by (simp add: edited_def)
  have "c_e k - 1 \<noteq> c_e k" by simp
  have n: "unat (c_e k - 1 - c_r k) = unat (c_e k - c_r k) - 1"
  proof -
    have "c_e k - c_r k \<noteq> 0" using lt by auto
    then show ?thesis using unat_minus_one [of "c_e k - c_r k"] by (simp add: algebra_simps)
  qed
  show ok: "cons_ok ?k" using k lt n by (auto simp: cons_ok_def)
  have t: "typed ?k = butlast (typed k)" using n lt
    by (cases "unat (c_e k - c_r k)") (simp_all add: typed_def ring_items_def)
  show "ready ?k = ready k" by (simp add: ready_def)
  show "edited ?k = butlast (edited k)" using lt by (simp add: edited_def t drop_butlast)
  have e: "c_r k + of_nat (unat (c_e k - c_r k) - 1) = c_e k - 1"
  proof -
    have "(of_nat (unat (c_e k - c_r k) - 1) :: u32) = of_nat (unat (c_e k - 1 - c_r k))" using n by simp
    then show ?thesis by simp
  qed
  have "edited k ! (length (edited k) - 1) = typed k ! (unat (c_e k - c_r k) - 1)"
    using lt by (simp add: edited_def)
  also have "\<dots> = cons_at k (c_e k - 1)" using lt e by (simp add: typed_def ring_items_def cons_at_def)
  finally show "edited k ! (length (edited k) - 1) = cons_at k (c_e k - 1)" .
qed

lemma add_char:
  fixes x :: byte
  assumes k: "cons_ok k" and n: "length (typed k) < INPUT_BUF_SIZE"
  defines "k' \<equiv> k\<lparr>c_buf := (c_buf k)[unat (c_e k) mod INPUT_BUF_SIZE := x], c_e := c_e k + 1\<rparr>"
  shows "cons_ok k'" "typed k' = typed k @ [x]" "ready k' = ready k" "edited k' = edited k @ [x]"
    "cons_ok (k'\<lparr>c_w := c_e k'\<rparr>)" "ready (k'\<lparr>c_w := c_e k'\<rparr>) = typed k @ [x]" "edited (k'\<lparr>c_w := c_e k'\<rparr>) = []"
proof -
  have l: "unat (c_e k - c_r k) < INPUT_BUF_SIZE" using n by simp
  have c: "unat (c_e k + 1 - c_r k) = Suc (unat (c_e k - c_r k))" by (rule cons_ring.count_put [OF l])
  show ok: "cons_ok k'" using k c l by (simp add: cons_ok_def k'_def)
  show t: "typed k' = typed k @ [x]"
    using cons_ring.items_put [OF _ l, of "c_buf k" x] k by (simp add: typed_def k'_def cons_ok_def)
  have "typed k' = ready k @ (edited k @ [x])" using t typed_split [OF k] by simp
  then show "ready k' = ready k" "edited k' = edited k @ [x]" using split_unique [OF _ _ ok] by (simp_all add: k'_def)
  show ok2: "cons_ok (k'\<lparr>c_w := c_e k'\<rparr>)" using ok by (simp add: cons_ok_def)
  have "typed (k'\<lparr>c_w := c_e k'\<rparr>) = typed k'" by (simp add: typed_def)
  then show "ready (k'\<lparr>c_w := c_e k'\<rparr>) = typed k @ [x]" "edited (k'\<lparr>c_w := c_e k'\<rparr>) = []"
    using split_unique [OF _ _ ok2, of "typed k'" "[]"] t by (simp_all add: typed_def)
qed

lemma upd_cons_sel [simp]:
  "consoles (upd_cons k f s) = (consoles s)(k := f (consoles s k))" "sch (upd_cons k f s) = sch s" "uart (upd_cons k f s) = uart s"
  "conscur (upd_cons k f s) = conscur s" "pr_locking (upd_cons k f s) = pr_locking s"
  by (simp_all add: upd_cons_def)

lemma kill_line:
  assumes "cons_ok (consoles s k)" "3 * length (edited (consoles s k)) \<le> thr_room (uart s)"
  shows "\<exists>t. loopR (kill_line_turn k) s = Ok t \<and> cons_ok (consoles t k) \<and> ready (consoles t k) = ready (consoles s k) \<and>
    edited (consoles t k) = rev (dropWhile (\<lambda>b. b \<noteq> 10) (rev (edited (consoles s k)))) \<and>
    (\<forall>j. j \<noteq> k \<longrightarrow> consoles t j = consoles s j) \<and> sch t = sch s \<and> conscur t = conscur s"
  using assms
proof (induction "edited (consoles s k)" arbitrary: s rule: rev_induct)
  case Nil
  then have "kill_line_turn k s = Ok (Exit s)" using edited_Nil [OF Nil.prems(1)] by (simp add: kill_line_turn_def)
  then show ?case using Nil by (intro exI [of _ s]) (simp add: loopR_Exit)
next
  case (snoc x xs)
  let ?k = "consoles s k"
  have ne: "edited ?k \<noteq> []" using snoc.hyps(2) by auto
  note e = erase_one [OF snoc.prems(1) ne]
  have x: "cons_at ?k (c_e ?k - 1) = x" using e(4) snoc.hyps(2) [symmetric] by simp
  have w: "c_e ?k \<noteq> c_w ?k" using edited_Nil [OF snoc.prems(1)] ne by simp
  show ?case
  proof (cases "x = 10")
    case True
    then have "kill_line_turn k s = Ok (Exit s)" using x by (simp add: kill_line_turn_def)
    then show ?thesis using True snoc.prems(1) snoc.hyps(2) [symmetric] by (intro exI [of _ s]) (simp add: loopR_Exit)
  next
    case False
    let ?s = "put_out [8, 32, 8] (upd_cons k (\<lambda>x. x\<lparr>c_e := c_e x - 1\<rparr>) s)"
    have "3 \<le> thr_room (uart (upd_cons k (\<lambda>x. x\<lparr>c_e := c_e x - 1\<rparr>) s))" using snoc.prems(2) snoc.hyps(2) [symmetric] by simp
    from consputc_backspace [OF this] have b: "kill_line_turn k s = Ok (Next ?s)" using w x False by (simp add: kill_line_turn_def)
    have s: "consoles ?s k = ?k\<lparr>c_e := c_e ?k - 1\<rparr>" by simp
    have i: "xs = edited (consoles ?s k)" unfolding s e(3) using snoc.hyps(2) [symmetric] by simp
    have "cons_ok (consoles ?s k)" unfolding s by (rule e(1))
    moreover have "3 * length (edited (consoles ?s k)) \<le> thr_room (uart ?s)"
      unfolding i [symmetric] using snoc.prems(2) snoc.hyps(2) [symmetric] by simp
    ultimately obtain t where "loopR (kill_line_turn k) ?s = Ok t" "cons_ok (consoles t k)" "ready (consoles t k) = ready (consoles ?s k)"
      "edited (consoles t k) = rev (dropWhile (\<lambda>b. b \<noteq> 10) (rev (edited (consoles ?s k))))"
      "\<forall>j. j \<noteq> k \<longrightarrow> consoles t j = consoles ?s j" "sch t = sch ?s" "conscur t = conscur ?s" using snoc.hyps(1) [OF i] by blast
    moreover have "ready (consoles ?s k) = ready ?k" unfolding s by (rule e(2))
    ultimately show ?thesis using b i False snoc.hyps(2) [symmetric] by (intro exI [of _ t]) (simp add: loopR_Next)
  qed
qed

text \<open>A state in which console \<open>k\<close> has gone one key further and the other consoles are as they were.\<close>

definition edits :: "nat \<Rightarrow> int \<Rightarrow> kst \<Rightarrow> kst \<Rightarrow> bool" where
  "edits k c s t \<longleftrightarrow> cons_ok (consoles t k) \<and>
     (ready (consoles t k), edited (consoles t k)) = key_step c (ready (consoles s k), edited (consoles s k)) \<and>
     (\<forall>j. j \<noteq> k \<longrightarrow> consoles t j = consoles s j) \<and> conscur t = conscur s \<and>
     (ready (consoles t k) \<noteq> ready (consoles s k) \<longrightarrow> sleepers (Some (ChCons k)) (sch t) = {})"

lemma input_char_edits:
  assumes run: "runs (sch s) p" "held (sch s) = [LkCons k]" and ok: "cons_ok (consoles s k)" and rm: "0 < thr_room (uart s)"
    and c: "0 \<le> c" "c < 256" "c \<noteq> 21" "c \<noteq> 8" "c \<noteq> 127"
  shows "\<exists>t. input_char c k s = Ok t \<and> edits k c s t \<and> runs (sch t) p \<and> held (sch t) = [LkCons k]"
proof (cases "c \<noteq> 0 \<and> length (typed (consoles s k)) < INPUT_BUF_SIZE")
  case False
  have e: "c_e (consoles s k) - c_r (consoles s k) < of_nat INPUT_BUF_SIZE \<longleftrightarrow> length (typed (consoles s k)) < INPUT_BUF_SIZE"
    by (simp add: word_less_nat_alt INPUT_BUF_SIZE_def)
  have "length (ready (consoles s k)) + length (edited (consoles s k)) = length (typed (consoles s k))"
    using typed_split [OF ok] by (metis length_append)
  then have "key_step c (ready (consoles s k), edited (consoles s k)) = (ready (consoles s k), edited (consoles s k))"
    using False c by (auto simp: key_step_def)
  moreover have "input_char c k s = Ok s" using False e by (auto simp: input_char_def)
  ultimately show ?thesis using run ok by (intro exI [of _ s]) (simp add: edits_def)
next
  case True
  let ?k = "consoles s k" and ?b = "if c = 13 then 10 else c"
  let ?x = "word_of_int ?b :: byte"
  have n: "length (typed ?k) < INPUT_BUF_SIZE" using True by simp
  have e: "c_e ?k - c_r ?k < of_nat INPUT_BUF_SIZE" using True by (simp add: word_less_nat_alt INPUT_BUF_SIZE_def)
  note a = add_char [OF ok n, of ?x]
  let ?k1 = "?k\<lparr>c_buf := (c_buf ?k)[unat (c_e ?k) mod INPUT_BUF_SIZE := ?x], c_e := c_e ?k + 1\<rparr>"
  let ?s1 = "upd_cons k (\<lambda>x. x\<lparr>c_buf := (c_buf x)[unat (c_e x) mod INPUT_BUF_SIZE := ?x], c_e := c_e x + 1\<rparr>) (put_out [?x] s)"
  have p: "consputc ?b s = Ok (put_out [?x] s)" using consputc_byte [OF rm, of ?b] c by auto
  have full: "c_e ?k1 - c_r ?k1 = of_nat INPUT_BUF_SIZE \<longleftrightarrow> Suc (length (typed ?k)) = INPUT_BUF_SIZE"
    using arg_cong [OF a(2), of length] by (simp add: word_unat_eq_iff INPUT_BUF_SIZE_def)
  have len: "length (ready ?k) + length (edited ?k) = length (typed ?k)" using typed_split [OF ok] by (metis length_append)
  let ?commit = "c = 13 \<or> c = 10 \<or> c = 4 \<or> Suc (length (typed ?k)) = INPUT_BUF_SIZE"
  have xs: "(if c = 13 then 10 else word_of_int c) = ?x" by simp
  have key: "key_step c (ready ?k, edited ?k) =
      (if ?commit then (typed ?k @ [?x], []) else (ready ?k, edited ?k @ [?x]))"
    using True c len typed_split [OF ok] by (auto simp: key_step_def Let_def xs)
  have s1: "consoles ?s1 k = ?k1" by simp
  have d: "input_char c k s = (if ?b = 10 \<or> ?b = 4 \<or> c_e (consoles ?s1 k) - c_r (consoles ?s1 k) = of_nat INPUT_BUF_SIZE
      then kwakeup (ChCons k) (upd_cons k (\<lambda>x. x\<lparr>c_w := c_e x\<rparr>) ?s1) else Ok ?s1)"
    using True e p by (simp add: input_char_def Let_def)
  have b: "(?b = 10 \<or> ?b = 4 \<or> c_e (consoles ?s1 k) - c_r (consoles ?s1 k) = of_nat INPUT_BUF_SIZE) = ?commit"
    unfolding s1 full by auto
  show ?thesis
  proof (cases ?commit)
    case True
    let ?s2 = "upd_cons k (\<lambda>x. x\<lparr>c_w := c_e x\<rparr>) ?s1"
    have "runs (sch ?s2) p" "held (sch ?s2) = [LkCons k]" using run by simp_all
    from pipe_wakeup [OF this, of "ChCons k"] obtain v where
      v: "kwakeup (ChCons k) ?s2 = Ok (?s2\<lparr>sch := v\<rparr>)" "runs v p" "held v = [LkCons k]" "sleepers (Some (ChCons k)) v = {}" by auto
    have s2: "consoles ?s2 k = ?k1\<lparr>c_w := c_e ?k1\<rparr>" by simp
    have "edits k c s (?s2\<lparr>sch := v\<rparr>)" unfolding edits_def key using a(5-7) True v(4) by simp
    then show ?thesis using d v True unfolding b by (intro exI [of _ "?s2\<lparr>sch := v\<rparr>"]) simp
  next
    case False
    have "edits k c s ?s1" unfolding edits_def key using a(1,3,4) False by simp
    then show ?thesis using d False run unfolding b by (intro exI [of _ ?s1]) simp
  qed
qed

text \<open>
  C27.  The console is a line editor.  For every key but the three that switch consoles or print a
  listing, the interrupt handler returns and does to the ring of the active console exactly what the
  editor does to the pair of finished input and current line: control-U erases the line, backspace
  its last character, a carriage return counts as newline, a newline or control-D or a full ring hands
  the line to the readers, of whom none stays asleep.  Other consoles are untouched.
\<close>

theorem consoleintr_edits:
  assumes run: "runs (sch s) p" "held (sch s) = []" and k: "k < NCONS" "conscur s = int k" "cons_ok (consoles s k)"
    and rm: "3 * INPUT_BUF_SIZE \<le> thr_room (uart s)" and c: "0 \<le> c" "c < 256" "c \<noteq> 20" "c \<noteq> 16" "c \<noteq> 15"
  shows "\<exists>t. consoleintr c s = Ok t \<and> edits k c s t \<and> runs (sch t) p \<and> held (sch t) = []"
proof -
  let ?s = "s\<lparr>sch := (sch s)\<lparr>held := [LkCons k]\<rparr>\<rparr>" and ?k = "consoles s k"
  have a: "kacquire (LkCons k) s = Ok ?s" "cons_index (conscur s) = Ok k" using run(2) k by (simp_all add: cons_index_def)
  have r: "runs (sch ?s) p" "held (sch ?s) = [LkCons k]" using run by simp_all
  have len: "length (edited ?k) \<le> INPUT_BUF_SIZE" using k(3) unfolding edited_def cons_ok_def by simp linarith
  define m where "m = (if c = 21 then loopR (kill_line_turn k) ?s
    else if c = 8 \<or> c = 127 then
      (if c_e ?k \<noteq> c_w ?k then consputc BACKSPACE (upd_cons k (\<lambda>x. x\<lparr>c_e := c_e x - 1\<rparr>) ?s) else Ok ?s)
    else input_char c k ?s)"
  have m: "\<exists>t. m = Ok t \<and> edits k c s t \<and> runs (sch t) p \<and> held (sch t) = [LkCons k]"
  proof (cases "c = 21")
    case True
    then show ?thesis using kill_line [of ?s k] k(3) len rm r by (auto simp: m_def edits_def key_step_def)
  next
    case n21: False
    show ?thesis
    proof (cases "c = 8 \<or> c = 127")
      case True
      show ?thesis
      proof (cases "edited ?k = []")
        case True
        then show ?thesis using edited_Nil [OF k(3)] n21 \<open>c = 8 \<or> c = 127\<close> k(3) r
          by (intro exI [of _ ?s]) (auto simp: m_def edits_def key_step_def)
      next
        case False
        let ?u = "upd_cons k (\<lambda>x. x\<lparr>c_e := c_e x - 1\<rparr>) ?s"
        have "3 \<le> thr_room (uart ?u)" using rm by (simp add: INPUT_BUF_SIZE_def)
        from consputc_backspace [OF this] show ?thesis using edited_Nil [OF k(3)] False n21 True r erase_one [OF k(3) False]
          by (intro exI [of _ "put_out [8, 32, 8] ?u"]) (auto simp: m_def edits_def key_step_def)
      qed
    next
      case False
      have "0 < thr_room (uart ?s)" "cons_ok (consoles ?s k)" using rm k(3) by (simp_all add: INPUT_BUF_SIZE_def)
      from input_char_edits [OF r this(2,1) c(1,2) n21] False obtain t where
        "input_char c k ?s = Ok t" "edits k c ?s t" "runs (sch t) p" "held (sch t) = [LkCons k]" by auto
      then show ?thesis using False n21 by (auto simp: m_def edits_def)
    qed
  qed
  then obtain t where t: "m = Ok t" "edits k c s t" "runs (sch t) p" "held (sch t) = [LkCons k]" by blast
  have "cons_index (conscur t) = Ok k" using t(2) k by (simp add: edits_def cons_index_def)
  moreover have "consoleintr c s = bindR m (\<lambda>s. bindR (cons_index (conscur s)) (\<lambda>k. krelease (LkCons k) s))"
    using a c(3-5) unfolding m_def consoleintr_def by simp
  ultimately have "consoleintr c s = Ok (t\<lparr>sch := (sch t)\<lparr>held := []\<rparr>\<rparr>)" using t(1,4) by simp
  moreover have "edits k c s (t\<lparr>sch := (sch t)\<lparr>held := []\<rparr>\<rparr>)" using t(2) by (simp add: edits_def sleepers_def)
  ultimately show ?thesis using t(3) by (intro exI [of _ "t\<lparr>sch := (sch t)\<lparr>held := []\<rparr>\<rparr>"]) simp
qed

theorem consoleintr_edits_witness:
  "\<exists>s t. ready (consoles s 0) = [] \<and> edited (consoles s 0) = [] \<and> consoleintr 13 s = Ok t \<and> ready (consoles t 0) = [10]"
proof -
  obtain h where h: "runs (sample_sst h) 0" using sample_runs by blast
  let ?s = "(sample_kst h)\<lparr>uart := \<lparr>tx_buf = replicate 32 0, tx_w = 0, tx_r = 0, thr_room = 2000, thr_out = [], rhr = []\<rparr>\<rparr>"
  have s: "runs (sch ?s) 0" "held (sch ?s) = []" "0 < NCONS" "conscur ?s = int 0" "cons_ok (consoles ?s 0)"
    "3 * INPUT_BUF_SIZE \<le> thr_room (uart ?s)" and e: "ready (consoles ?s 0) = []" "edited (consoles ?s 0) = []"
    using h by (simp_all add: sample_kst_def cons_ok_def ready_def edited_def typed_def ring_items_def NCONS_def INPUT_BUF_SIZE_def)
  from consoleintr_edits [OF s, of 13] obtain t where "consoleintr 13 ?s = Ok t" "edits 0 13 ?s t" by auto
  moreover have "key_step 13 ([], []) = ([10], [])" by (simp add: key_step_def Let_def INPUT_BUF_SIZE_def)
  ultimately have "consoleintr 13 ?s = Ok t \<and> ready (consoles t 0) = [10]" unfolding edits_def e by simp
  then show ?thesis using e by blast
qed

end
