(* ===== verification/Ulib.thy ===== *)
theory Ulib
  imports Console
begin

text \<open>
  The library of the user programs: strings and numbers (\<open>user/ulib.c\<close>) and formatted output
  (\<open>user/printf.c\<close>).  A C string that is only read is the list of its bytes before the NUL.  An open
  descriptor is the list of the pieces that successive reads find: a read takes as much of the first
  piece as fits, and an empty piece is the end of the file or an error.
\<close>

section \<open>Strings\<close>

fun strcmp :: "byte list \<Rightarrow> byte list \<Rightarrow> int" where
  "strcmp (p # ps) (q # qs) = (if p = q then strcmp ps qs else uint p - uint q)"
| "strcmp (p # ps) [] = uint p"
| "strcmp [] (q # qs) = - uint q"
| "strcmp [] [] = 0"

fun strchr :: "byte list \<Rightarrow> byte \<Rightarrow> nat option" where
  "strchr [] c = None"
| "strchr (b # bs) c = (if b = 0 then None else if b = c then Some 0 else map_option Suc (strchr bs c))"

definition strcpy :: "memory \<Rightarrow> u64 \<Rightarrow> u64 \<Rightarrow> memory res" where
  "strcpy m s t = loopR (\<lambda>(m, s, t). let c = m t; m = m(s := c) in Ok (if c \<noteq> 0 then Next (m, s + 1, t + 1) else Exit m)) (m, s, t)"

text \<open>\<open>memmove\<close> of the library compares only the addresses, and its count is signed.\<close>

definition umemmove :: "memory \<Rightarrow> u64 \<Rightarrow> u64 \<Rightarrow> u32 \<Rightarrow> memory" where
  "umemmove m dst src n =
     (if src > dst then copy_up m dst src (nat (sint n))
      else copy_down m (dst + scast n) (src + scast n) (nat (sint n)))"

fun atoi_from :: "u32 \<Rightarrow> byte list \<Rightarrow> u32" where
  "atoi_from n [] = n"
| "atoi_from n (c # s) = (if 48 \<le> c \<and> c \<le> 57 then atoi_from (n * 10 + ucast c - 48) s else n)"

definition atoi :: "byte list \<Rightarrow> u32" where
  "atoi s = atoi_from 0 s"

section \<open>Reading\<close>

fun read_some :: "nat \<Rightarrow> byte list list \<Rightarrow> byte list \<times> byte list list" where
  "read_some n [] = ([], [])"
| "read_some n (b # bs) = (if length b \<le> n then (b, bs) else (take n b, drop n b # bs))"

text \<open>\<open>gets\<close>, which reads one byte at a time; \<open>i\<close> bytes are stored.  The result is the buffer up to its NUL.\<close>

function gets_from :: "int \<Rightarrow> byte list \<Rightarrow> byte list list \<Rightarrow> byte list \<times> byte list list" where
  "gets_from mx buf fd =
     (if int (length buf) + 1 < mx then
        let (cc, fd) = read_some 1 fd in
        if cc = [] then (buf, fd)
        else if hd cc = 10 \<or> hd cc = 13 then (buf @ [hd cc], fd)
        else gets_from mx (buf @ [hd cc]) fd
      else (buf, fd))"
  by auto

termination
  by (relation "measure (\<lambda>(mx, buf, fd). nat (mx - int (length buf)))") auto

declare gets_from.simps [simp del]

definition gets :: "int \<Rightarrow> byte list list \<Rightarrow> byte list \<times> byte list list" where
  "gets mx fd = gets_from mx [] fd"

section \<open>Formatted output\<close>

definition udigits :: "byte list" where
  "udigits = asc ''0123456789ABCDEF''"

function udigit_loop :: "u32 \<Rightarrow> nat \<Rightarrow> byte list" where
  "udigit_loop x base =
     udigits ! (unat x mod base) # (if base < 2 \<or> unat x div base = 0 then [] else udigit_loop (of_nat (unat x div base)) base)"
  by auto

termination
proof (relation "measure (unat \<circ> fst)")
  fix x :: u32 and base :: nat
  assume "\<not> (base < 2 \<or> unat x div base = 0)"
  then have b: "1 < base" "0 < unat x" by (auto intro: gr0I)
  then have "unat x div base < unat x" by simp
  moreover from this have "unat (of_nat (unat x div base) :: u32) = unat x div base"
    using unsigned_less [of x, where ?'a = nat] by (simp add: unsigned_of_nat take_bit_nat_eq_self)
  ultimately show "((of_nat (unat x div base), base), (x, base)) \<in> measure (unat \<circ> fst)" by simp
qed simp

declare udigit_loop.simps [simp del]

definition uprintint :: "u32 \<Rightarrow> nat \<Rightarrow> bool \<Rightarrow> byte list" where
  "uprintint xx base sg =
     (let neg = (sg \<and> sint xx < 0);
          x = (if neg then - xx else xx)
      in rev (udigit_loop x base @ (if neg then [45] else [])))"

definition uprintptr :: "u64 \<Rightarrow> byte list" where
  "uprintptr x = [48, 120] @ map (\<lambda>i. udigits ! unat (drop_bit 60 (push_bit (4 * i) x))) [0..<16]"

text \<open>
  \<open>vprintf\<close>; the flag is its variable \<open>state\<close>.  \<open>%l\<close> takes a 64-bit argument and prints its lower half;
  \<open>%c\<close> takes an \<open>int\<close>.
\<close>

definition uconversion :: "byte \<Rightarrow> parg list \<Rightarrow> (byte list \<times> parg list) res" where
  "uconversion c args =
     (if c = 100 then (case args of PInt x # as \<Rightarrow> Ok (uprintint x 10 True, as) | _ \<Rightarrow> Fault)
      else if c = 108 then (case args of PPtr x # as \<Rightarrow> Ok (uprintint (ucast x) 10 False, as) | _ \<Rightarrow> Fault)
      else if c = 120 then (case args of PInt x # as \<Rightarrow> Ok (uprintint x 16 False, as) | _ \<Rightarrow> Fault)
      else if c = 112 then (case args of PPtr x # as \<Rightarrow> Ok (uprintptr x, as) | _ \<Rightarrow> Fault)
      else if c = 115 then
        (case args of PStr t # as \<Rightarrow> Ok (takeWhile (\<lambda>b. b \<noteq> 0) (case t of None \<Rightarrow> null_text | Some u \<Rightarrow> u), as) | _ \<Rightarrow> Fault)
      else if c = 99 then (case args of PInt x # as \<Rightarrow> Ok ([ucast x], as) | _ \<Rightarrow> Fault)
      else if c = 37 then Ok ([37], args)
      else Ok ([37, c], args))"

fun vprintf :: "bool \<Rightarrow> byte list \<Rightarrow> parg list \<Rightarrow> byte list res" where
  "vprintf percent [] args = Ok []"
| "vprintf percent (c # fmt) args =
     (if \<not> percent then
        if c = 37 then vprintf True fmt args else bindR (vprintf False fmt args) (\<lambda>t. Ok (c # t))
      else bindR (uconversion c args) (\<lambda>(u, as). bindR (vprintf False fmt as) (\<lambda>t. Ok (u @ t))))"

definition uprintf :: "byte list \<Rightarrow> parg list \<Rightarrow> byte list res" where
  "uprintf fmt args = vprintf False fmt args"

section \<open>Properties\<close>

lemma copy_down_self: "copy_down m d d n = m"
  by (induction n arbitrary: d) simp_all

text \<open>The library's \<open>memmove\<close> decides the direction in another way than the kernel's, with the same result.\<close>

theorem umemmove_kernel:
  assumes n: "0 \<le> sint n" and s: "unat src + unat n < 2 ^ 64" and d: "unat dst + unat n \<le> 2 ^ 64"
  shows "umemmove m dst src n = memmove m dst src n"
proof -
  have k: "nat (sint n) = unat n" "(scast n :: u64) = of_nat (unat n)" using nonneg_sint [OF n]
    by (metis nat_int) (metis nonneg_sint [OF n] of_int_of_nat_eq scast_eq)
  have lt: "unat n < 2 ^ 64" using unat_u32_less [of n] by simp
  show ?thesis
  proof (cases "src = dst")
    case True
    have "memmove m src src n a = m a" for a
    proof (cases "a \<in> region src (unat n)")
      case True
      then obtain i where "a = src + of_nat i" "i < unat n" using in_region_iff [OF less_imp_le [OF lt]] by blast
      then show ?thesis using memmove_content [OF s, of src i m] s by simp
    qed (simp add: memmove_frame)
    then show ?thesis using True k copy_down_self by (simp add: umemmove_def fun_eq_iff)
  next
    case False
    show ?thesis
    proof
      fix a
      show "umemmove m dst src n a = memmove m dst src n a"
      proof (cases "a \<in> region dst (unat n)")
        case True
        then obtain i where i: "a = dst + of_nat i" "i < unat n" using in_region_iff [OF less_imp_le [OF lt]] by blast
        then have "umemmove m dst src n a = m (src + of_nat i)"
          using memmove_down [OF s d _ i(2), of m] memmove_up [OF s d _ i(2), of m] False k less_imp_le [of dst src]
          by (cases "dst < src") (auto simp: umemmove_def not_less)
        then show ?thesis using i memmove_content [OF s d i(2)] by simp
      next
        case False
        then have "umemmove m dst src n a = m a"
          using copy_up_other [of "unat n" a dst m src] copy_down_other [of "unat n" a "dst + of_nat (unat n)" m "src + of_nat (unat n)"] lt k
          by (simp add: umemmove_def)
        then show ?thesis using memmove_frame [OF False] by simp
      qed
    qed
  qed
qed

lemma udigits_list: "udigits = [48, 49, 50, 51, 52, 53, 54, 55, 56, 57, 65, 66, 67, 68, 69, 70]"
  by (simp add: udigits_def asc_def)

lemma udigit:
  assumes "d < 10"
  shows "48 \<le> udigits ! d" "udigits ! d \<le> 57" "(ucast (udigits ! d) :: u32) = 48 + of_nat d"
proof -
  have "\<forall>d \<in> set [0..<10]. 48 \<le> udigits ! d \<and> udigits ! d \<le> 57 \<and> (ucast (udigits ! d) :: u32) = 48 + of_nat d"
    by (simp add: udigits_list upt_conv_Cons)
  then show "48 \<le> udigits ! d" "udigits ! d \<le> 57" "(ucast (udigits ! d) :: u32) = 48 + of_nat d" using assms by simp_all
qed

lemma atoi_snoc:
  "\<forall>c\<in>set ds. 48 \<le> c \<and> c \<le> 57 \<Longrightarrow> 48 \<le> d \<Longrightarrow> d \<le> 57 \<Longrightarrow> atoi_from n (ds @ [d]) = atoi_from n ds * 10 + ucast d - 48"
  by (induction ds arbitrary: n) simp_all

lemma udigit_loop_digits: "c \<in> set (udigit_loop x 10) \<Longrightarrow> 48 \<le> c \<and> c \<le> 57"
proof (induction x "10 :: nat" rule: udigit_loop.induct)
  case (1 x)
  show ?case
  proof (cases "unat x div 10 = 0")
    case True
    then have "c = udigits ! (unat x mod 10)" using 1(2) by (simp add: udigit_loop.simps [of x 10])
    then show ?thesis using udigit [of "unat x mod 10"] by simp
  next
    case False
    then have "c = udigits ! (unat x mod 10) \<or> c \<in> set (udigit_loop (of_nat (unat x div 10)) 10)"
      using 1(2) by (simp add: udigit_loop.simps [of x 10])
    then show ?thesis using 1(1) False udigit [of "unat x mod 10"] by auto
  qed
qed

lemma atoi_digits: "atoi (rev (udigit_loop x 10)) = x"
proof (induction x "10 :: nat" rule: udigit_loop.induct)
  case (1 x)
  let ?d = "udigits ! (unat x mod 10)"
  have d: "48 \<le> ?d" "?d \<le> 57" "(ucast ?d :: u32) = 48 + of_nat (unat x mod 10)" by (simp_all add: udigit del: of_nat_unat)
  show ?case
  proof (cases "unat x div 10 = 0")
    case True
    then have "x = of_nat (unat x mod 10)" by (metis add.left_neutral div_mult_mod_eq mult_zero_left of_nat_unat ucast_id)
    then show ?thesis using True d by (simp add: udigit_loop.simps [of x 10] atoi_def)
  next
    case False
    let ?y = "of_nat (unat x div 10) :: u32"
    have "atoi_from 0 (rev (udigit_loop ?y 10) @ [?d]) = ?y * 10 + of_nat (unat x mod 10)"
      using atoi_snoc [of "rev (udigit_loop ?y 10)" ?d 0] udigit_loop_digits [of _ ?y] d 1 False by (simp add: atoi_def)
    also have "\<dots> = of_nat (unat x div 10 * 10 + unat x mod 10)" by (simp only: of_nat_add of_nat_mult of_nat_numeral)
    also have "\<dots> = x" by (simp only: div_mult_mod_eq) simp
    finally show ?thesis using False by (simp add: udigit_loop.simps [of x 10] atoi_def)
  qed
qed

text \<open>\<open>atoi\<close> reads back what \<open>%d\<close> prints, for every number that is not negative.\<close>

theorem atoi_printint: "0 \<le> sint x \<Longrightarrow> atoi (uprintint x 10 True) = x"
  by (simp add: uprintint_def Let_def atoi_digits)

end
