(* ===== verification/Grep.thy ===== *)
theory Grep
  imports Ulib
begin

text \<open>
  The user program \<open>grep\<close> (\<open>user/grep.c\<close>): the matcher of regular expressions and the loop over the lines of
  the input.  \<open>match_iff\<close> says what a pattern means, \<open>grep_prints_matches\<close> what is printed.
\<close>

section \<open>The regular-expression matcher\<close>

text \<open>
  A C string is the list of its bytes before the NUL; reading the byte after the last one gives the
  NUL.  \<open>star\<close>, \<open>dot\<close>, \<open>dollar\<close> and \<open>caret\<close> are the operators.
\<close>

abbreviation (input) star :: byte where "star \<equiv> 42"
abbreviation (input) dot :: byte where "dot \<equiv> 46"
abbreviation (input) dollar :: byte where "dollar \<equiv> 36"
abbreviation (input) caret :: byte where "caret \<equiv> 94"

function matchhere :: "byte list \<Rightarrow> byte list \<Rightarrow> bool"
  and matchstar :: "byte \<Rightarrow> byte list \<Rightarrow> byte list \<Rightarrow> bool" where
  "matchhere re text =
     (case re of [] \<Rightarrow> True
      | c # re' \<Rightarrow>
          if re' \<noteq> [] \<and> hd re' = star then matchstar c (tl re') text
          else if c = dollar \<and> re' = [] then text = []
          else if text \<noteq> [] \<and> (c = dot \<or> c = hd text) then matchhere re' (tl text)
          else False)"
| "matchstar c re text =
     (if matchhere re text then True
      else if text \<noteq> [] \<and> (hd text = c \<or> c = dot) then matchstar c re (tl text)
      else False)"
  by pat_completeness auto

termination
  by (relation "measure (case_sum (\<lambda>(re, t). 2 * (length re + length t)) (\<lambda>(c, re, t). 2 * (length re + length t) + 1))")
    (auto simp: neq_Nil_conv)

declare matchhere.simps [simp del] matchstar.simps [simp del]

text \<open>The loop of \<open>match\<close> over the suffixes of the text, the empty one included.\<close>

fun match_from :: "byte list \<Rightarrow> byte list \<Rightarrow> bool" where
  "match_from re text = (if matchhere re text then True else case text of [] \<Rightarrow> False | _ # t \<Rightarrow> match_from re t)"

declare match_from.simps [simp del]

definition match :: "byte list \<Rightarrow> byte list \<Rightarrow> bool" where
  "match re text =
     (if re \<noteq> [] \<and> hd re = caret then matchhere (tl re) text else match_from re text)"

section \<open>The main loop\<close>

lemma strchr_bound: "strchr bs c = Some k \<Longrightarrow> k < length bs"
  by (induction bs c arbitrary: k rule: strchr.induct) (auto split: if_splits)

text \<open>
  The inner loop, from \<open>p\<close> on: every line that ends in the buffer is written when it matches.  The
  result is what was written and the rest of the buffer.
\<close>

function grep_lines :: "byte list \<Rightarrow> byte list \<Rightarrow> byte list \<times> byte list" where
  "grep_lines pattern p =
     (case strchr p 10 of
        None \<Rightarrow> ([], p)
      | Some q \<Rightarrow>
          let (out, rest) = grep_lines pattern (drop (Suc q) p)
          in ((if match pattern (take q p) then take (Suc q) p else []) @ out, rest))"
  by auto

termination
  by (relation "measure (\<lambda>(pattern, p). length p)") (auto dest: strchr_bound)

declare grep_lines.simps [simp del]

definition bufsize :: nat where "bufsize = 1024"

text \<open>\<open>grep\<close> with the bytes \<open>buf\<close> of an unfinished line in its buffer; the result is what it writes.\<close>

lemma read_some_less: "read_some n fd = (bs, fd') \<Longrightarrow> bs \<noteq> [] \<Longrightarrow> length (concat fd') < length (concat fd)"
  by (cases fd) (auto split: if_splits)

function grep_from :: "byte list \<Rightarrow> byte list \<Rightarrow> byte list list \<Rightarrow> byte list" where
  "grep_from pattern buf fd =
     (let (bs, fd') = read_some (bufsize - length buf - 1) fd in
      if bs = [] then []
      else let (out, rest) = grep_lines pattern (buf @ bs) in out @ grep_from pattern rest fd')"
  by auto

termination
proof (relation "measure (\<lambda>(pattern, buf, fd). length (concat fd))")
  fix pattern buf rest out :: "byte list" and fd fd' bs x y
  assume "x = read_some (bufsize - length buf - 1) fd" "(bs, fd') = x" "bs \<noteq> []"
  then show "((pattern, rest, fd'), pattern, buf, fd) \<in> measure (\<lambda>(pattern, buf, fd). length (concat fd))"
    using read_some_less [of "bufsize - length buf - 1" fd bs fd'] by simp
qed simp

declare grep_from.simps [simp del]

definition grep :: "byte list \<Rightarrow> byte list list \<Rightarrow> byte list" where
  "grep pattern fd = grep_from pattern [] fd"

section \<open>What a pattern means\<close>

text \<open>
  A pattern is a sequence of items, each of which takes a piece of the text, and whether the
  end of the text has to follow.
\<close>

datatype item = One byte | Many byte

definition fits :: "byte \<Rightarrow> byte \<Rightarrow> bool" where
  "fits c x \<longleftrightarrow> c = dot \<or> c = x"

fun piece :: "item \<Rightarrow> byte list \<Rightarrow> bool" where
  "piece (One c) u = (\<exists>x. u = [x] \<and> fits c x)"
| "piece (Many c) u = (\<forall>x\<in>set u. fits c x)"

fun items :: "byte list \<Rightarrow> item list \<times> bool" where
  "items [] = ([], False)"
| "items (c # d # re) = (if d = star then apfst (Cons (Many c)) (items re) else apfst (Cons (One c)) (items (d # re)))"
| "items [c] = (if c = dollar then ([], True) else ([One c], False))"

definition describes :: "item list \<times> bool \<Rightarrow> byte list \<Rightarrow> bool" where
  "describes = (\<lambda>(its, e) t. \<exists>us rest. t = concat us @ rest \<and> list_all2 piece its us \<and> (e \<longrightarrow> rest = []))"

definition regexp_matches :: "byte list \<Rightarrow> byte list \<Rightarrow> bool" where
  "regexp_matches re text \<longleftrightarrow>
     (\<exists>pre t. text = pre @ t \<and> (if re \<noteq> [] \<and> hd re = caret then pre = [] \<and> describes (items (tl re)) t
                                else describes (items re) t))"

lemma describes_Nil [simp]: "describes ([], e) t \<longleftrightarrow> (e \<longrightarrow> t = [])"
  by (auto simp: describes_def)

lemma describes_Cons: "describes (i # its, e) t \<longleftrightarrow> (\<exists>u v. t = u @ v \<and> piece i u \<and> describes (its, e) v)"
proof
  assume "describes (i # its, e) t"
  then obtain us rest where "t = concat us @ rest" "list_all2 piece (i # its) us" "e \<longrightarrow> rest = []"
    unfolding describes_def prod.case by blast
  then obtain u us rest where "t = concat (u # us) @ rest" "piece i u" "list_all2 piece its us" "e \<longrightarrow> rest = []"
    unfolding list_all2_Cons1 by blast
  then show "\<exists>u v. t = u @ v \<and> piece i u \<and> describes (its, e) v"
    by (intro exI [of _ u] exI [of _ "concat us @ rest"]) (auto simp: describes_def)
next
  assume "\<exists>u v. t = u @ v \<and> piece i u \<and> describes (its, e) v"
  then obtain u us rest where u: "t = u @ concat us @ rest" "piece i u" "list_all2 piece its us" "e \<longrightarrow> rest = []"
    unfolding describes_def prod.case by blast
  then have "t = concat (u # us) @ rest" "list_all2 piece (i # its) (u # us)" by simp_all
  with u(4) show "describes (i # its, e) t" unfolding describes_def by (simp only: prod.case) blast
qed

lemma describes_One: "describes (One c # its, e) t \<longleftrightarrow> t \<noteq> [] \<and> fits c (hd t) \<and> describes (its, e) (tl t)"
proof
  assume "describes (One c # its, e) t"
  then show "t \<noteq> [] \<and> fits c (hd t) \<and> describes (its, e) (tl t)" unfolding describes_Cons by auto
next
  assume "t \<noteq> [] \<and> fits c (hd t) \<and> describes (its, e) (tl t)"
  then show "describes (One c # its, e) t"
    unfolding describes_Cons by (intro exI [of _ "[hd t]"] exI [of _ "tl t"]) simp
qed

lemma describes_Many:
  "describes (Many c # its, e) t \<longleftrightarrow> describes (its, e) t \<or> t \<noteq> [] \<and> fits c (hd t) \<and> describes (Many c # its, e) (tl t)"
proof
  assume "describes (Many c # its, e) t"
  then obtain u v where t: "t = u @ v" "\<forall>x\<in>set u. fits c x" "describes (its, e) v" by (auto simp: describes_Cons)
  show "describes (its, e) t \<or> t \<noteq> [] \<and> fits c (hd t) \<and> describes (Many c # its, e) (tl t)"
  proof (cases u)
    case (Cons x u')
    then have "describes (Many c # its, e) (u' @ v)" unfolding describes_Cons using t by auto
    then show ?thesis using t Cons by simp
  qed (use t in simp)
next
  assume r: "describes (its, e) t \<or> t \<noteq> [] \<and> fits c (hd t) \<and> describes (Many c # its, e) (tl t)"
  show "describes (Many c # its, e) t"
  proof (cases "describes (its, e) t")
    case True
    then show ?thesis unfolding describes_Cons by (intro exI [of _ "[]"] exI [of _ t]) simp
  next
    case False
    with r obtain x u v where "t = x # u @ v" "fits c x" "\<forall>y\<in>set u. fits c y" "describes (its, e) v"
      by (cases t) (auto simp: describes_Cons)
    then show ?thesis unfolding describes_Cons by (intro exI [of _ "x # u"] exI [of _ v]) simp
  qed
qed

lemma items_Cons:
  "items (c # re) =
     (if re \<noteq> [] \<and> hd re = star then apfst (Cons (Many c)) (items (tl re))
      else if c = dollar \<and> re = [] then ([], True) else apfst (Cons (One c)) (items re))"
  by (cases re) auto

lemma matchhere_describes:
  "matchhere re tx = describes (items re) tx" "matchstar c re tx = describes (apfst (Cons (Many c)) (items re)) tx"
proof (induction re tx and c re tx rule: matchhere_matchstar.induct)
  case (1 re tx)
  show ?case
  proof (cases re)
    case (Cons c re')
    obtain its e where i: "items re' = (its, e)" by fastforce
    show ?thesis using 1 [OF Cons] i unfolding Cons matchhere.simps [of "c # re'"]
      by (auto simp: items_Cons describes_One fits_def split: if_splits)
  qed (simp add: matchhere.simps)
next
  case (2 c re tx)
  obtain its e where i: "items re = (its, e)" by fastforce
  show ?case using 2 i unfolding matchstar.simps [of c re tx]
    by (auto simp: describes_Many [of c its e tx] fits_def)
qed

lemma match_from_suffix: "match_from re tx \<longleftrightarrow> (\<exists>pre t. tx = pre @ t \<and> matchhere re t)"
proof (induction tx)
  case (Cons x tx)
  have "(\<exists>pre t. x # tx = pre @ t \<and> matchhere re t) \<longleftrightarrow> matchhere re (x # tx) \<or> (\<exists>pre t. tx = pre @ t \<and> matchhere re t)"
    by (auto simp: Cons_eq_append_conv)
  then show ?case using Cons by (subst match_from.simps) simp
qed (simp add: match_from.simps)

lemma match_iff: "match re tx \<longleftrightarrow> regexp_matches re tx"
  by (auto simp: match_def regexp_matches_def match_from_suffix matchhere_describes)

text \<open>
  C29.  The recursive matcher of \<open>grep\<close> accepts exactly the texts that the pattern describes: \<open>c\<close> stands for
  itself, \<open>.\<close> for any character, \<open>c*\<close> for any number of characters \<open>c\<close>, a leading \<open>^\<close> binds to the
  beginning and a final \<open>$\<close> to the end of the tx.
\<close>

theorem match_regexp: "match re tx \<longleftrightarrow> regexp_matches re tx"
  by (rule match_iff)

section \<open>What grep prints\<close>

text \<open>The finished lines of a text, each with its newline.\<close>

fun text_lines :: "byte list \<Rightarrow> byte list list" where
  "text_lines [] = []"
| "text_lines (b # bs) =
     (if b = 10 then [b] # text_lines bs
      else case text_lines bs of [] \<Rightarrow> [] | l # ls \<Rightarrow> (b # l) # ls)"

definition chosen :: "byte list \<Rightarrow> byte list list \<Rightarrow> byte list" where
  "chosen pattern ls = concat (filter (\<lambda>l. match pattern (butlast l)) ls)"

lemma strchr_Some: "strchr bs c = Some k \<Longrightarrow> bs = take k bs @ c # drop (Suc k) bs \<and> c \<notin> set (take k bs)"
  by (induction bs c arbitrary: k rule: strchr.induct) (auto split: if_splits)

lemma strchr_None: "strchr bs c = None \<Longrightarrow> 0 \<notin> set bs \<Longrightarrow> c \<notin> set bs"
  by (induction bs c rule: strchr.induct) (auto split: if_splits)

lemma text_lines_line: "10 \<notin> set l \<Longrightarrow> text_lines (l @ 10 # bs) = (l @ [10]) # text_lines bs"
  by (induction l) auto

lemma text_lines_none: "10 \<notin> set l \<Longrightarrow> text_lines l = []"
  by (induction l) auto

lemma grep_lines_spec:
  "0 \<notin> set p \<Longrightarrow> \<exists>ls rest. grep_lines pattern p = (chosen pattern ls, rest) \<and> p = concat ls @ rest \<and> 10 \<notin> set rest \<and>
     (\<forall>t. text_lines (p @ t) = ls @ text_lines (rest @ t))"
proof (induction pattern p rule: grep_lines.induct)
  case (1 pattern p)
  show ?case
  proof (cases "strchr p 10")
    case None
    then show ?thesis using strchr_None [OF None 1(2)]
      by (intro exI [of _ "[]"] exI [of _ p]) (simp add: grep_lines.simps [of pattern p] chosen_def)
  next
    case (Some q)
    let ?l = "take q p" and ?r = "drop (Suc q) p"
    have p: "p = ?l @ 10 # ?r" "10 \<notin> set ?l" using strchr_Some [OF Some] by auto
    have "0 \<notin> set ?r" using 1(2) by (meson in_set_dropD)
    from 1(1) [OF Some this] obtain ls rest where r: "grep_lines pattern ?r = (chosen pattern ls, rest)" "?r = concat ls @ rest"
      "10 \<notin> set rest" "\<And>t. text_lines (?r @ t) = ls @ text_lines (rest @ t)" by blast
    have l: "take (Suc q) p = ?l @ [10]" using p(1) strchr_bound [OF Some] by (metis append_Cons append_Nil append_assoc append_same_eq append_take_drop_id)
    have "grep_lines pattern p = (chosen pattern ((?l @ [10]) # ls), rest)"
      using Some r(1) l by (simp add: grep_lines.simps [of pattern p] chosen_def)
    moreover have "p = concat ((?l @ [10]) # ls) @ rest" using p(1) r(2) by simp
    moreover have "text_lines (p @ t) = ((?l @ [10]) # ls) @ text_lines (rest @ t)" for t
      using text_lines_line [OF p(2), of "?r @ t"] r(4) [of t] p(1) by (metis append_Cons append_assoc)
    ultimately show ?thesis using r(3) by blast
  qed
qed

lemma read_some_spec:
  assumes "read_some n fd = (bs, fd')" "[] \<notin> set fd" "0 < n"
  shows "concat fd = bs @ concat fd'" "[] \<notin> set fd'" "length bs \<le> n" "bs = [] \<longleftrightarrow> fd = []"
  using assms by (cases fd; auto split: if_splits)+

lemma text_lines_long:
  assumes "10 \<notin> set buf" "\<forall>l\<in>set (text_lines (buf @ t)). length l \<le> length buf"
  shows "text_lines (buf @ t) = []"
proof (cases "10 \<in> set t")
  case True
  then obtain u v where t: "t = u @ 10 # v" "10 \<notin> set u" by (meson split_list_first)
  then have "text_lines (buf @ t) = (buf @ u @ [10]) # text_lines v"
    using text_lines_line [of "buf @ u" v] assms(1) by simp
  then show ?thesis using assms(2) by auto
next
  case False
  then show ?thesis using assms(1) text_lines_none [of "buf @ t"] by simp
qed

lemma grep_from_spec:
  "0 \<notin> set (buf @ concat fd) \<Longrightarrow> 10 \<notin> set buf \<Longrightarrow> [] \<notin> set fd \<Longrightarrow>
   \<forall>l\<in>set (text_lines (buf @ concat fd)). length l < bufsize \<Longrightarrow>
   grep_from pattern buf fd = chosen pattern (text_lines (buf @ concat fd))"
proof (induction pattern buf fd rule: grep_from.induct)
  case (1 pattern buf fd)
  obtain bs fd' where rd: "read_some (bufsize - length buf - 1) fd = (bs, fd')" by fastforce
  show ?case
  proof (cases "bufsize - length buf - 1 = 0 \<or> fd = []")
    case True
    have "text_lines (buf @ concat fd) = []"
    proof (cases "fd = []")
      case False
      with True have "\<forall>l\<in>set (text_lines (buf @ concat fd)). length l \<le> length buf" using 1(5) by fastforce
      then show ?thesis by (rule text_lines_long [OF 1(3)])
    qed (use 1(3) text_lines_none in simp)
    moreover have "bs = []" using rd True 1(4) by (cases fd) (auto split: if_splits)
    ultimately show ?thesis using rd by (simp add: grep_from.simps [of pattern buf fd] chosen_def)
  next
    case False
    then have n: "0 < bufsize - length buf - 1" "bs \<noteq> []" using read_some_spec(4) [OF rd 1(4)] by auto
    note r = read_some_spec [OF rd 1(4) n(1)]
    have "0 \<notin> set (buf @ bs)" using 1(2) r(1) by auto
    then obtain ls rest where g: "grep_lines pattern (buf @ bs) = (chosen pattern ls, rest)" "buf @ bs = concat ls @ rest" "10 \<notin> set rest"
      "\<And>t. text_lines (buf @ bs @ t) = ls @ text_lines (rest @ t)" using grep_lines_spec by (metis append_assoc)
    have split: "text_lines (buf @ concat fd) = ls @ text_lines (rest @ concat fd')" using g(4) [of "concat fd'"] r(1) by simp
    have "set rest \<subseteq> set (buf @ bs)" unfolding g(2) by simp
    then have "0 \<notin> set (rest @ concat fd')" using 1(2) r(1) by auto
    then have "grep_from pattern rest fd' = chosen pattern (text_lines (rest @ concat fd'))"
      using 1(1) [OF rd [symmetric] refl n(2) g(1) [symmetric] refl] g(3) r(2) 1(5) split by simp
    then show ?thesis using rd n(2) g(1) split by (simp add: grep_from.simps [of pattern buf fd] chosen_def)
  qed
qed

text \<open>
  However the input comes in pieces, \<open>grep\<close> prints exactly the lines that match the pattern, in order and
  with their newlines, when the input has no NUL and no line is longer than its buffer.  A text
  after the last newline is never printed.
\<close>

theorem grep_prints_matches:
  assumes "0 \<notin> set (concat fd)" "[] \<notin> set fd" "\<forall>l\<in>set (text_lines (concat fd)). length l < bufsize"
  shows "grep pattern fd = concat (filter (\<lambda>l. regexp_matches pattern (butlast l)) (text_lines (concat fd)))"
  using grep_from_spec [of "[]" fd pattern] assms by (simp add: grep_def chosen_def match_iff)

theorem grep_prints_matches_witness:
  "grep [97, 42, 98] [[97, 97], [98, 10, 99, 10], [98]] = [97, 97, 98, 10]"
proof -
  have r: "regexp_matches [97, 42, 98] [97, 97, 98]" "\<not> regexp_matches [97, 42, 98] [99]"
    by (simp_all add: match_iff [symmetric] match_def match_from.simps matchhere.simps matchstar.simps)
  show ?thesis
    using grep_prints_matches [of "[[97, 97], [98, 10, 99, 10], [98]]" "[97, 42, 98]"] r by (simp add: bufsize_def)
qed

end
