(* ===== verification/Catwc.thy ===== *)
theory Catwc
  imports Grep
begin

text \<open>
  Two utilities that transform their input: \<open>user/cat.c\<close>, which here reads line by line and can number the
  lines, and \<open>user/wc.c\<close>.  Input is the list of pieces that successive reads find, as in \<open>Ulib\<close>; writing
  always succeeds.
\<close>

section \<open>Reading a line\<close>

definition BUFSIZE :: nat where "BUFSIZE = 512"
definition NUMSIZE :: nat where "NUMSIZE = 6"
definition NUMWIDTH :: nat where "NUMWIDTH = NUMSIZE + 2"

text \<open>\<open>None\<close> is the exit with \<open>line too long\<close>; the bytes of the buffer that a line does not reach stay.\<close>

function readline_from :: "nat \<Rightarrow> byte list \<Rightarrow> nat \<Rightarrow> byte list list \<Rightarrow> nat option \<times> byte list \<times> byte list list" where
  "readline_from i buf maxlen fd =
     (let (c, fd) = read_some 1 fd in
      if c = [] then (if i = 0 then (Some 0, buf, fd) else (Some (i + 1), buf[i + 1 := 0], fd))
      else
        let buf = buf[i := hd c] in
        if hd c = 10 then (Some (i + 1), buf[i + 1 := 0], fd)
        else if i + 1 \<ge> maxlen - 1 then (None, buf, fd)
        else readline_from (i + 1) buf maxlen fd)"
  by auto

termination
  by (relation "measure (\<lambda>(i, buf, maxlen, fd). maxlen - i)") auto

declare readline_from.simps [simp del]

definition readline :: "byte list \<Rightarrow> nat \<Rightarrow> byte list list \<Rightarrow> nat option \<times> byte list \<times> byte list list" where
  "readline buf maxlen fd = readline_from 0 buf maxlen fd"

section \<open>Line numbers\<close>

text \<open>Division of C.\<close>

definition cdiv10 :: "int \<Rightarrow> int" where
  "cdiv10 v = sgn v * (\<bar>v\<bar> div 10)"

function int_digits :: "int \<Rightarrow> byte list" where
  "int_digits v = (if v = 0 then [] else of_int (48 + (v - 10 * cdiv10 v)) # int_digits (cdiv10 v))"
  by auto

termination
  by (relation "measure (nat \<circ> abs)") (auto simp: cdiv10_def abs_mult)

declare int_digits.simps [simp del]

definition int_to_str :: "int \<Rightarrow> byte list" where
  "int_to_str v =
     (let tmp = (if v = 0 then [48] else int_digits v) in
      replicate (NUMSIZE - length tmp) 32 @ rev tmp @ [32, 32])"

section \<open>cat\<close>

lemma readline_from_less:
  "readline_from i buf maxlen fd = (Some n, buf', fd') \<Longrightarrow> n \<noteq> 0 \<Longrightarrow> length (concat fd') + (if i = 0 then 1 else 0) \<le> length (concat fd)"
proof (induction i buf maxlen fd rule: readline_from.induct)
  case (1 i buf maxlen fd)
  obtain c fd1 where r: "read_some 1 fd = (c, fd1)" by fastforce
  have le: "length (concat fd1) \<le> length (concat fd)" "c \<noteq> [] \<Longrightarrow> length (concat fd1) < length (concat fd)"
    using r read_some_less [OF r] by (cases fd; auto split: if_splits)+
  show ?case using "1.IH" [OF r [symmetric] refl] "1.prems" le r
    by (auto simp: readline_from.simps [of i buf maxlen fd] Let_def split: if_splits)
qed

function cat_from :: "bool \<Rightarrow> int \<Rightarrow> byte list \<Rightarrow> byte list list \<Rightarrow> byte list \<times> bool" where
  "cat_from linenums i buf fd =
     (case readline buf BUFSIZE fd of
        (None, _, _) \<Rightarrow> ([], False)
      | (Some n, buf, fd) \<Rightarrow>
          if n = 0 then ([], True)
          else
            let (out, ok) = cat_from linenums (i + 1) buf fd in
            ((if linenums then take NUMWIDTH (int_to_str i) else []) @ take n buf @ out, ok))"
  by auto

termination
  by (relation "measure (\<lambda>(linenums, i, buf, fd). length (concat fd))") (auto simp: readline_def dest!: readline_from_less [OF sym])

declare cat_from.simps [simp del]

text \<open>The static buffer starts as zeros; the flag says that the program has not given up.\<close>

definition cat :: "bool \<Rightarrow> byte list \<Rightarrow> byte list list \<Rightarrow> byte list \<times> bool" where
  "cat linenums buf fd = cat_from linenums 1 buf fd"

section \<open>wc\<close>

definition wc_byte :: "byte \<Rightarrow> u32 \<times> u32 \<times> u32 \<times> bool \<Rightarrow> u32 \<times> u32 \<times> u32 \<times> bool" where
  "wc_byte b = (\<lambda>(l, w, c, inword).
     let c = c + 1;
         l = (if b = 10 then l + 1 else l) in
     if strchr [32, 13, 9, 10, 11] b \<noteq> None then (l, w, c, False)
     else if \<not> inword then (l, w + 1, c, True)
     else (l, w, c, inword))"

function wc_from :: "u32 \<times> u32 \<times> u32 \<times> bool \<Rightarrow> byte list list \<Rightarrow> u32 \<times> u32 \<times> u32 \<times> bool" where
  "wc_from st fd =
     (let (bs, fd') = read_some 512 fd in
      if bs = [] then st else wc_from (fold wc_byte bs st) fd')"
  by auto

termination
  by (relation "measure (\<lambda>(st, fd). length (concat fd))") (auto dest: read_some_less [OF sym])

declare wc_from.simps [simp del]

definition wc :: "byte list \<Rightarrow> bool \<Rightarrow> byte list list \<Rightarrow> byte list res" where
  "wc nm linesonly fd =
     (let (l, w, c, _) = wc_from (0, 0, 0, False) fd in
      if linesonly then uprintf (asc ''%d %s'' @ [10]) [PInt l, PStr (Some nm)]
      else uprintf (asc ''%d %d %d %s'' @ [10]) [PInt l, PInt w, PInt c, PStr (Some nm)])"

section \<open>Lines\<close>

lemma read_one:
  assumes "[] \<notin> set fd" "concat fd = b # t"
  shows "\<exists>fd'. read_some 1 fd = ([b], fd') \<and> [] \<notin> set fd' \<and> concat fd' = t"
proof -
  obtain c fd' where r: "read_some 1 fd = (c, fd')" by fastforce
  note s = read_some_spec [OF r assms(1)]
  have "fd \<noteq> []" using assms(2) by auto
  then have "length c = 1" using s(3,4) by (cases c) auto
  then obtain x where "c = [x]" by (auto simp: length_Suc_conv)
  then show ?thesis using r s(1,2) assms(2) by auto
qed

lemma readline_line:
  assumes "10 \<notin> set l" "[] \<notin> set fd" "concat fd = l @ 10 # t" "i + length l + 1 < maxlen" "length buf = maxlen"
  shows "\<exists>buf' fd'. readline_from i buf maxlen fd = (Some (i + length l + 1), buf', fd') \<and> [] \<notin> set fd' \<and> concat fd' = t \<and>
    length buf' = maxlen \<and> take (i + length l + 1) buf' = take i buf @ l @ [10]"
  using assms
proof (induction l arbitrary: i buf fd)
  case Nil
  then obtain fd' where "read_some 1 fd = ([10], fd')" "[] \<notin> set fd'" "concat fd' = t" using read_one [of fd 10 t] by auto
  then show ?case using Nil by (simp add: readline_from.simps [of i buf maxlen fd] take_Suc_conv_app_nth)
next
  case (Cons b l)
  then obtain fd1 where r: "read_some 1 fd = ([b], fd1)" "[] \<notin> set fd1" "concat fd1 = l @ 10 # t" using read_one [of fd b "l @ 10 # t"] by auto
  have "take (Suc i) (buf[i := b]) = take i buf @ [b]" using Cons.prems by (simp add: take_Suc_conv_app_nth)
  moreover have "\<exists>buf' fd'. readline_from (Suc i) (buf[i := b]) maxlen fd1 = (Some (Suc i + length l + 1), buf', fd') \<and> [] \<notin> set fd' \<and> concat fd' = t \<and>
    length buf' = maxlen \<and> take (Suc i + length l + 1) buf' = take (Suc i) (buf[i := b]) @ l @ [10]"
    by (rule Cons.IH) (use Cons.prems r in auto)
  moreover have "readline_from i buf maxlen fd = readline_from (Suc i) (buf[i := b]) maxlen fd1"
    using r Cons.prems by (auto simp: readline_from.simps [of i buf maxlen fd] Let_def)
  ultimately show ?case by (auto simp: add.assoc)
qed

lemma readline_rest:
  assumes "10 \<notin> set l" "[] \<notin> set fd" "concat fd = l" "i + length l + 1 < maxlen" "length buf = maxlen" "i + length l \<noteq> 0"
  shows "\<exists>buf'. readline_from i buf maxlen fd = (Some (i + length l + 1), buf', []) \<and> length buf' = maxlen \<and> take (i + length l) buf' = take i buf @ l"
  using assms
proof (induction l arbitrary: i buf fd)
  case Nil
  then have "fd = []" by (cases fd) auto
  then show ?case using Nil by (simp add: readline_from.simps [of i buf maxlen "[]"])
next
  case (Cons b l)
  then obtain fd1 where r: "read_some 1 fd = ([b], fd1)" "[] \<notin> set fd1" "concat fd1 = l" using read_one [of fd b l] by auto
  have "take (Suc i) (buf[i := b]) = take i buf @ [b]" using Cons.prems by (simp add: take_Suc_conv_app_nth)
  moreover have "\<exists>buf'. readline_from (Suc i) (buf[i := b]) maxlen fd1 = (Some (Suc i + length l + 1), buf', []) \<and> length buf' = maxlen \<and>
    take (Suc i + length l) buf' = take (Suc i) (buf[i := b]) @ l"
    by (rule Cons.IH) (use Cons.prems r in auto)
  moreover have "readline_from i buf maxlen fd = readline_from (Suc i) (buf[i := b]) maxlen fd1"
    using r Cons.prems by (auto simp: readline_from.simps [of i buf maxlen fd] Let_def)
  ultimately show ?case by auto
qed

text \<open>Each line with its number in front, if numbers are asked for.\<close>

primrec numbered :: "bool \<Rightarrow> int \<Rightarrow> byte list list \<Rightarrow> byte list" where
  "numbered nums i [] = []"
| "numbered nums i (l # ls) = (if nums then take NUMWIDTH (int_to_str i) else []) @ l @ numbered nums (i + 1) ls"

text \<open>
  A file of lines of at most 510 bytes and perhaps a last line without a newline.  \<open>cat\<close> copies the
  lines, with their numbers if they are asked for.  After a last line without a newline it writes one
  byte that is not in the file, whatever the buffer holds there.
\<close>

theorem cat_copies:
  assumes "\<forall>l\<in>set ls. 10 \<notin> set l \<and> length l \<le> 510" "10 \<notin> set rest" "length rest \<le> 510" "[] \<notin> set fd"
    "concat fd = concat (map (\<lambda>l. l @ [10]) ls) @ rest" "length buf = BUFSIZE"
  shows "\<exists>x. cat nums buf fd = (numbered nums 1 (map (\<lambda>l. l @ [10]) ls @ (if rest = [] then [] else [rest @ [x]])), True)"
proof -
  have "\<exists>x. cat_from nums i buf fd = (numbered nums i (map (\<lambda>l. l @ [10]) ls @ (if rest = [] then [] else [rest @ [x]])), True)" for i
    using assms
  proof (induction ls arbitrary: i buf fd)
    case Nil
    show ?case
    proof (cases "rest = []")
      case True
      then have "fd = []" using Nil.prems by (cases fd) auto
      then show ?thesis using True by (simp add: cat_from.simps [of nums i buf "[]"] readline_def readline_from.simps [of 0 buf])
    next
      case False
      then obtain buf' where b: "readline buf BUFSIZE fd = (Some (length rest + 1), buf', [])" "length buf' = BUFSIZE" "take (length rest) buf' = rest"
        using readline_rest [of rest fd 0 BUFSIZE buf] Nil.prems by (auto simp: readline_def BUFSIZE_def)
      have "take (Suc (length rest)) buf' = rest @ [buf' ! length rest]" using b Nil.prems by (subst take_Suc_conv_app_nth) (auto simp: BUFSIZE_def)
      moreover have "cat_from nums (i + 1) buf' [] = ([], True)" by (simp add: cat_from.simps [of nums "i + 1"] readline_def readline_from.simps [of 0 buf'])
      ultimately show ?thesis using False b(1) by (intro exI [of _ "buf' ! length rest"]) (simp add: cat_from.simps [of nums i buf fd])
    qed
  next
    case (Cons l ls)
    have "concat fd = l @ 10 # concat (map (\<lambda>l. l @ [10]) ls) @ rest" using Cons.prems by simp
    then obtain buf' fd' where b: "readline buf BUFSIZE fd = (Some (length l + 1), buf', fd')" "[] \<notin> set fd'"
      "concat fd' = concat (map (\<lambda>l. l @ [10]) ls) @ rest" "length buf' = BUFSIZE" "take (length l + 1) buf' = l @ [10]"
      using readline_line [of l fd _ 0 BUFSIZE buf] Cons.prems by (fastforce simp: readline_def BUFSIZE_def)
    obtain x where "cat_from nums (i + 1) buf' fd' = (numbered nums (i + 1) (map (\<lambda>l. l @ [10]) ls @ (if rest = [] then [] else [rest @ [x]])), True)"
      using Cons.IH [of fd' buf' "i + 1"] Cons.prems b by auto
    then show ?case using b(1,5) by (intro exI [of _ x]) (simp add: cat_from.simps [of nums i buf fd])
  qed
  then show ?thesis by (simp add: cat_def)
qed

section \<open>Words\<close>

definition blank :: "byte \<Rightarrow> bool" where
  "blank b \<longleftrightarrow> b \<in> {32, 13, 9, 10, 11}"

lemma strchr_blank: "strchr [32, 13, 9, 10, 11] b \<noteq> None \<longleftrightarrow> blank b"
  by (auto simp: blank_def)

text \<open>The words of a text: its longest pieces without a blank.\<close>

function text_words :: "byte list \<Rightarrow> byte list list" where
  "text_words t =
     (let u = dropWhile blank t in
      if u = [] then [] else takeWhile (\<lambda>b. \<not> blank b) u # text_words (dropWhile (\<lambda>b. \<not> blank b) u))"
  by auto

termination
proof (relation "measure length")
  fix t u assume u: "u = dropWhile blank t" "u \<noteq> []"
  then have "\<not> blank (hd u)" using hd_dropWhile [of blank t] by simp
  then have "length (dropWhile (\<lambda>b. \<not> blank b) u) < length u" using u(2) length_dropWhile_le [of _ "tl u"] by (cases u) (auto simp: less_Suc_eq_le)
  moreover have "length u \<le> length t" using u(1) length_dropWhile_le by blast
  ultimately show "(dropWhile (\<lambda>b. \<not> blank b) u, t) \<in> measure length" by simp
qed simp

declare text_words.simps [simp del]

lemma text_words_Nil: "text_words [] = []"
  by (simp add: text_words.simps [of "[]"])

lemma text_words_blank: "blank b \<Longrightarrow> text_words (b # t) = text_words t"
  by (simp add: text_words.simps [of "b # t"] text_words.simps [of t])

lemma text_words_start: "\<not> blank b \<Longrightarrow> length (text_words (b # t)) = Suc (length (text_words (dropWhile (\<lambda>b. \<not> blank b) t)))"
  by (simp add: text_words.simps [of "b # t"])

text \<open>The counters after a text, when it begins inside a word or not.\<close>

lemma wc_bytes:
  "fold wc_byte t (l, w, c, inw) =
     (l + of_nat (count_list t 10), w + of_nat (length (text_words (if inw then dropWhile (\<lambda>b. \<not> blank b) t else t))), c + of_nat (length t),
      if t = [] then inw else \<not> blank (last t))"
proof (induction t arbitrary: l w c inw)
  case Nil then show ?case by (simp add: text_words_Nil)
next
  case (Cons b t)
  have n: "b \<noteq> 10" if "\<not> blank b" using that by (auto simp: blank_def)
  have "wc_byte b (l, w, c, inw) = (if b = 10 then l + 1 else l, if \<not> blank b \<and> \<not> inw then w + 1 else w, c + 1, \<not> blank b)"
    unfolding wc_byte_def strchr_blank by (simp add: Let_def)
  then show ?case using n Cons.IH [of "if b = 10 then l + 1 else l" "if \<not> blank b \<and> \<not> inw then w + 1 else w" "c + 1" "\<not> blank b"]
    by (auto simp: text_words_blank text_words_start)
qed

lemma wc_from_all: "[] \<notin> set fd \<Longrightarrow> wc_from st fd = fold wc_byte (concat fd) st"
proof (induction st fd rule: wc_from.induct)
  case (1 st fd)
  obtain bs fd' where r: "read_some 512 fd = (bs, fd')" by fastforce
  note s = read_some_spec [OF r "1.prems"]
  show ?case
  proof (cases "bs = []")
    case True then show ?thesis using s(4) by (simp add: wc_from.simps [of st "[]"])
  next
    case False then show ?thesis using "1.IH" [OF r [symmetric] refl] r s by (simp add: wc_from.simps [of st fd])
  qed
qed

text \<open>
  However the input is cut into pieces, \<open>wc\<close> counts its newlines, its words and its bytes.
\<close>

theorem wc_counts:
  assumes "[] \<notin> set fd"
  shows "wc nm linesonly fd =
    (let t = concat fd; l = PInt (of_nat (count_list t 10)) in
     if linesonly then uprintf (asc ''%d %s'' @ [10]) [l, PStr (Some nm)]
     else uprintf (asc ''%d %d %d %s'' @ [10]) [l, PInt (of_nat (length (text_words t))), PInt (of_nat (length t)), PStr (Some nm)])"
  unfolding wc_def wc_from_all [OF assms] by (simp add: wc_bytes Let_def)

text \<open>A file with one line and a last line without a newline, in two pieces.\<close>

theorem cat_copies_witness:
  "\<exists>x. cat False (replicate BUFSIZE 0) [[97], [10, 98]] = ([97, 10, 98, x], True)"
proof -
  have "\<exists>x. cat False (replicate BUFSIZE 0) [[97], [10, 98]] =
    (numbered False 1 (map (\<lambda>l. l @ [10]) [[97]] @ (if [98 :: byte] = [] then [] else [[98] @ [x]])), True)"
    by (rule cat_copies) (simp_all add: BUFSIZE_def)
  then show ?thesis by simp
qed

end
