(* ===== verification/Umalloc.thy ===== *)
theory Umalloc
  imports Ulib
begin

text \<open>
  The allocator of the user programs (\<open>user/umalloc.c\<close>).  The headers are two maps from addresses to fields, of
  which only the addresses of headers are used; what the program stores in its blocks is outside the
  model.  \<open>base\<close> is the address of the static header, \<open>avail\<close> says up to which size the kernel lets the
  process grow.
\<close>

section \<open>Headers and the break\<close>

record uheap =
  hptr :: "u64 \<Rightarrow> u64"
  hsize :: "u64 \<Rightarrow> u32"
  freep :: u64
  ubrk :: u64

definition HEADER :: u64 where "HEADER = 16"

text \<open>The system call as \<open>sys_sbrk\<close> and \<open>growproc\<close> answer it.\<close>

definition sbrk :: "(u64 \<Rightarrow> bool) \<Rightarrow> u32 \<Rightarrow> uheap \<Rightarrow> u64 \<times> uheap" where
  "sbrk avail n h =
     (let addr = ubrk h; new = addr + scast n in
      if 0 < sint n then (if avail new then (addr, h\<lparr>ubrk := new\<rparr>) else (-1, h))
      else if sint n < 0 then (addr, if new \<ge> addr then h else h\<lparr>ubrk := new\<rparr>)
      else (addr, h))"

text \<open>\<open>p + p->s.size\<close> in units of headers.\<close>

definition hend :: "uheap \<Rightarrow> u64 \<Rightarrow> u64" where
  "hend h p = p + ucast (hsize h p) * HEADER"

section \<open>Freeing\<close>

definition place_turn :: "uheap \<Rightarrow> u64 \<Rightarrow> u64 \<Rightarrow> (u64, u64) ctl res" where
  "place_turn h bp p =
     (let q = hptr h p in
      if bp > p \<and> bp < q then Ok (Exit p)
      else if p \<ge> q \<and> (bp > p \<or> bp < q) then Ok (Exit p)
      else Ok (Next q))"

definition join_next :: "u64 \<Rightarrow> u64 \<Rightarrow> uheap \<Rightarrow> uheap" where
  "join_next bp p h =
     (let q = hptr h p in
      if hend h bp = q
      then h\<lparr>hsize := (hsize h)(bp := hsize h bp + hsize h q), hptr := (hptr h)(bp := hptr h q)\<rparr>
      else h\<lparr>hptr := (hptr h)(bp := q)\<rparr>)"

definition join_prev :: "u64 \<Rightarrow> u64 \<Rightarrow> uheap \<Rightarrow> uheap" where
  "join_prev bp p h =
     (if hend h p = bp
      then h\<lparr>hsize := (hsize h)(p := hsize h p + hsize h bp), hptr := (hptr h)(p := hptr h bp)\<rparr>
      else h\<lparr>hptr := (hptr h)(p := bp)\<rparr>)"

definition free :: "u64 \<Rightarrow> uheap \<Rightarrow> uheap res" where
  "free ap h =
     (let bp = ap - HEADER in
      bindR (loopR (place_turn h bp) (freep h)) (\<lambda>p.
      Ok ((join_prev bp p (join_next bp p h))\<lparr>freep := p\<rparr>)))"

section \<open>Allocating\<close>

text \<open>The argument of \<open>sbrk\<close> is an \<open>int\<close>: the product is cut to 32 bits.\<close>

definition morecore :: "(u64 \<Rightarrow> bool) \<Rightarrow> u32 \<Rightarrow> uheap \<Rightarrow> (u64 \<times> uheap) res" where
  "morecore avail nu h =
     (let nu = (if nu < 4096 then 4096 else nu);
          (p, h) = sbrk avail (ucast (ucast nu * HEADER)) h in
      if p = -1 then Ok (0, h)
      else
        bindR (free (p + HEADER) (h\<lparr>hsize := (hsize h)(p := nu)\<rparr>)) (\<lambda>h.
        Ok (freep h, h)))"

text \<open>A block that is large enough is taken out whole, or its end is cut off.\<close>

definition take_block :: "u32 \<Rightarrow> u64 \<Rightarrow> u64 \<Rightarrow> uheap \<Rightarrow> u64 \<times> uheap" where
  "take_block nunits prevp p h =
     (if hsize h p = nunits then (p + HEADER, h\<lparr>hptr := (hptr h)(prevp := hptr h p), freep := prevp\<rparr>)
      else
        let h = h\<lparr>hsize := (hsize h)(p := hsize h p - nunits)\<rparr>;
            p = hend h p in
        (p + HEADER, h\<lparr>hsize := (hsize h)(p := nunits), freep := prevp\<rparr>))"

definition malloc_turn :: "(u64 \<Rightarrow> bool) \<Rightarrow> u32 \<Rightarrow> u64 \<times> u64 \<times> uheap \<Rightarrow> (u64 \<times> u64 \<times> uheap, u64 \<times> uheap) ctl res" where
  "malloc_turn avail nunits = (\<lambda>(prevp, p, h).
     if hsize h p \<ge> nunits then Ok (Exit (take_block nunits prevp p h))
     else if p = freep h then
       bindR (morecore avail nunits h) (\<lambda>(p, h).
       Ok (if p = 0 then Exit (0, h) else Next (p, hptr h p, h)))
     else Ok (Next (p, hptr h p, h)))"

text \<open>The number of headers in a block with \<open>nbytes\<close> bytes, computed in 64 bits.\<close>

definition units :: "u32 \<Rightarrow> u32" where
  "units nbytes = ucast ((ucast nbytes + HEADER - 1) div HEADER + 1)"

definition malloc :: "u64 \<Rightarrow> (u64 \<Rightarrow> bool) \<Rightarrow> u32 \<Rightarrow> uheap \<Rightarrow> (u64 \<times> uheap) res" where
  "malloc base avail nbytes h =
     (let h = (if freep h = 0 then h\<lparr>hptr := (hptr h)(base := base), freep := base, hsize := (hsize h)(base := 0)\<rparr> else h);
          prevp = freep h in
      loopR (malloc_turn avail (units nbytes)) (prevp, hptr h prevp, h))"

section \<open>The free list\<close>

primrec path :: "(u64 \<Rightarrow> u64) \<Rightarrow> u64 \<Rightarrow> u64 list \<Rightarrow> u64 \<Rightarrow> bool" where
  "path f a [] b \<longleftrightarrow> a = b"
| "path f a (x # xs) b \<longleftrightarrow> x = a \<and> path f (f x) xs b"

lemma path_append [simp]: "path f a (xs @ ys) b \<longleftrightarrow> (\<exists>c. path f a xs c \<and> path f c ys b)"
  by (induction xs arbitrary: a) auto

lemma path_other [simp]: "x \<notin> set xs \<Longrightarrow> path (f(x := v)) a xs b = path f a xs b"
  by (induction xs arbitrary: a) auto

lemma path_cong: "\<forall>x\<in>set xs. f x = g x \<Longrightarrow> path f a xs b = path g a xs b"
  by (induction xs arbitrary: a) auto

text \<open>The end of a block, its bytes, and the bytes of several blocks.\<close>

definition btop :: "uheap \<Rightarrow> u64 \<Rightarrow> nat" where
  "btop h a = unat a + 16 * unat (hsize h a)"

definition bytes :: "uheap \<Rightarrow> u64 \<Rightarrow> nat set" where
  "bytes h a = {unat a..<btop h a}"

definition space :: "uheap \<Rightarrow> u64 set \<Rightarrow> nat set" where
  "space h A = (\<Union>a\<in>A. bytes h a)"

abbreviation apart :: "uheap \<Rightarrow> u64 list \<Rightarrow> bool" where
  "apart h \<equiv> sorted_wrt (\<lambda>a b. btop h a < unat b)"

text \<open>
  The free blocks \<open>bs\<close> form a cycle of ascending addresses that starts with the static header, and no
  two of them touch.
\<close>

definition free_ok :: "u64 \<Rightarrow> uheap \<Rightarrow> u64 list \<Rightarrow> bool" where
  "free_ok base h bs \<longleftrightarrow> base \<noteq> 0 \<and> bs \<noteq> [] \<and> path (hptr h) base bs base \<and> apart h bs \<and> freep h \<in> set bs \<and>
     hsize h base = 0 \<and> (\<forall>a\<in>set bs - {base}. 0 < hsize h a)"

text \<open>The allocated blocks \<open>U\<close> are disjoint from the free ones and from each other; all lie below the break.\<close>

definition heap_ok :: "u64 \<Rightarrow> uheap \<Rightarrow> u64 list \<Rightarrow> u64 set \<Rightarrow> bool" where
  "heap_ok base h bs U \<longleftrightarrow> free_ok base h bs \<and>
     (\<forall>a\<in>U. 0 < hsize h a \<and> base < a \<and> bytes h a \<inter> space h (set bs) = {} \<and> (\<forall>b\<in>U. a \<noteq> b \<longrightarrow> bytes h a \<inter> bytes h b = {})) \<and>
     base < ubrk h \<and> space h (set bs \<union> U) \<subseteq> {..<unat (ubrk h)} \<and> unat (ubrk h) < 2 ^ 36"

section \<open>Arithmetic of blocks\<close>

lemma unat_units: "unat (ucast (n :: u32) * HEADER :: u64) = 16 * unat n"
proof -
  have "unat n < 2 ^ 32" using unsigned_less [of n] by simp
  then show ?thesis by (simp add: HEADER_def unat_word_ariths unsigned_ucast_eq take_bit_nat_eq_self)
qed

lemma unat_hend: "btop h a < 2 ^ 64 \<Longrightarrow> unat (hend h a) = btop h a"
  unfolding hend_def btop_def by (simp add: unat_word_ariths(1) unat_units)

lemma in_bytes: "0 < hsize h a \<Longrightarrow> unat a \<in> bytes h a"
  by (auto simp: bytes_def btop_def word_less_nat_alt)

lemma btop_ge: "unat a \<le> btop h a"
  by (simp add: btop_def)

lemma apart_less: "apart h bs \<Longrightarrow> sorted_wrt (<) bs"
  by (induction bs) (auto simp: word_less_nat_alt btop_def)

lemma apart_distinct: "apart h bs \<Longrightarrow> distinct bs"
  using apart_less strict_sorted_iff by blast

lemma apart_cong: "apart h bs \<Longrightarrow> \<forall>a\<in>set bs. btop h' a = btop h a \<Longrightarrow> apart h' bs"
  by (induction bs) auto

lemma space_simps: "space h {} = {}" "space h (insert a A) = bytes h a \<union> space h A" "space h (A \<union> B) = space h A \<union> space h B"
  by (auto simp: space_def)

lemma space_cong: "(\<And>a. a \<noteq> x \<Longrightarrow> bytes h' a = bytes h a) \<Longrightarrow> x \<notin> A \<Longrightarrow> space h' A = space h A"
  unfolding space_def by (rule SUP_cong [OF refl]) metis

lemma path_next: "path f a (xs @ p # ys) b \<Longrightarrow> f p = (case ys of [] \<Rightarrow> b | y # _ \<Rightarrow> y)"
  by (auto split: list.splits)

lemma free_ok_hd: "free_ok base h bs \<Longrightarrow> \<exists>cs. bs = base # cs"
  by (cases bs) (auto simp: free_ok_def)

text \<open>From every node of a cycle every other one is reached.\<close>

lemma cycle_reach:
  assumes "path f base bs base" "distinct bs" "a \<in> set bs" "b \<in> set bs"
  shows "\<exists>zs. path f a zs b \<and> set zs \<subseteq> set bs - {b}"
proof -
  obtain xs ys where bs: "bs = xs @ b # ys" using assms(4) by (meson split_list)
  then have p: "path f base xs b" "path f (f b) ys base" and n: "b \<notin> set xs" "b \<notin> set ys" using assms(1,2) by auto
  consider "a = b" | us vs where "xs = us @ a # vs" | us vs where "ys = us @ a # vs" using assms(3) bs by (auto dest: split_list)
  then show ?thesis
  proof cases
    case 1 then show ?thesis by (intro exI [of _ "[]"]) simp
  next
    case 2 then show ?thesis using p n bs by (intro exI [of _ "a # vs"]) auto
  next
    case 3 then show ?thesis using p n bs by (intro exI [of _ "(a # vs) @ xs"]) auto
  qed
qed

section \<open>Finding the place of a block\<close>

lemma place_walk:
  "path (hptr h) a zs p \<Longrightarrow> \<forall>z\<in>set zs. place_turn h bp z = Ok (Next (hptr h z)) \<Longrightarrow> place_turn h bp p = Ok (Exit p) \<Longrightarrow>
   loopR (place_turn h bp) a = Ok p"
proof (induction zs arbitrary: a)
  case Nil then show ?case by (simp add: loopR_Exit)
next
  case (Cons z zs)
  then have "loopR (place_turn h bp) z = loopR (place_turn h bp) (hptr h z)" by (intro loopR_Next) simp
  moreover have "loopR (place_turn h bp) (hptr h z) = Ok p" using Cons.prems by (intro Cons.IH) auto
  ultimately show ?case using Cons.prems(1) by simp
qed

lemma split_sorted:
  assumes "sorted_wrt (<) bs" "bs \<noteq> []" "hd bs < b" "b \<notin> set bs"
  shows "\<exists>xs p ys. bs = xs @ p # ys \<and> (\<forall>a\<in>set (xs @ [p]). a < b) \<and> (\<forall>a\<in>set ys. b < (a :: u64))"
  using assms
proof (induction bs rule: rev_induct)
  case (snoc x bs)
  show ?case
  proof (cases "x < b")
    case True
    then show ?thesis using snoc.prems by (intro exI [of _ bs] exI [of _ x] exI [of _ "[]"]) (auto simp: sorted_wrt_append)
  next
    case False
    then have "bs \<noteq> []" using snoc.prems by auto
    then obtain xs p ys where "bs = xs @ p # ys" "\<forall>a\<in>set (xs @ [p]). a < b" "\<forall>a\<in>set ys. b < a" using snoc by (auto simp: sorted_wrt_append)
    then show ?thesis using False snoc.prems by (intro exI [of _ xs] exI [of _ p] exI [of _ "ys @ [x]"]) auto
  qed
qed simp

lemma place_found:
  assumes ok: "free_ok base h bs" and bp: "base < bp" "bp \<notin> set bs"
  shows "\<exists>xs p ys. bs = xs @ p # ys \<and> (\<forall>a\<in>set (xs @ [p]). a < bp) \<and> (\<forall>a\<in>set ys. bp < a) \<and> loopR (place_turn h bp) (freep h) = Ok p"
proof -
  obtain cs where cs: "bs = base # cs" using free_ok_hd [OF ok] by blast
  have f: "path (hptr h) base bs base" "sorted_wrt (<) bs" "distinct bs" "freep h \<in> set bs"
    using ok apart_less apart_distinct by (auto simp: free_ok_def)
  obtain xs p ys where s: "bs = xs @ p # ys" "\<forall>a\<in>set (xs @ [p]). a < bp" "\<forall>a\<in>set ys. bp < a"
    using split_sorted [OF f(2), of bp] bp cs by auto
  have nxt: "hptr h z = (case vs of [] \<Rightarrow> base | y # _ \<Rightarrow> y)" if "bs = us @ z # vs" for us z vs using path_next f(1) that by metis
  have "base \<le> p" using cs s(1) f(2) by (cases xs) auto
  then have "place_turn h bp p = Ok (Exit p)"
    using nxt [OF s(1)] s(2,3) bp(1) cs f(2) s(1) by (cases ys) (auto simp: place_turn_def Let_def not_less order.strict_implies_order)
  moreover have "place_turn h bp z = Ok (Next (hptr h z))" if z: "z \<in> set bs - {p}" for z
  proof -
    consider us vs where "xs = us @ z # vs" | us vs where "ys = us @ z # vs" using z s(1) by (auto dest: split_list)
    then show ?thesis
    proof cases
      case 1
      then have b: "bs = us @ z # vs @ p # ys" using s(1) by simp
      have "hptr h z \<in> set (vs @ [p])" using nxt [OF b] by (cases vs) auto
      moreover have "\<forall>a\<in>set (vs @ [p]). z < a \<and> a < bp" using f(2) b s(2) 1 by (auto simp: sorted_wrt_append)
      ultimately have "z < hptr h z" "hptr h z < bp" by blast+
      then show ?thesis by (auto simp: place_turn_def Let_def)
    next
      case 2
      then have b: "bs = (xs @ p # us) @ z # vs" using s(1) by simp
      have "bp < z" using 2 s(3) by simp
      moreover have "hptr h z = base \<or> z < hptr h z" using nxt [OF b] f(2) unfolding b by (cases vs) (auto simp: sorted_wrt_append)
      ultimately show ?thesis using bp(1) by (auto simp: place_turn_def Let_def)
    qed
  qed
  moreover obtain zs where "path (hptr h) (freep h) zs p" "set zs \<subseteq> set bs - {p}" using cycle_reach [OF f(1,3,4), of p] s(1) by auto
  ultimately have "loopR (place_turn h bp) (freep h) = Ok p" by (intro place_walk) auto
  then show ?thesis using s by blast
qed

section \<open>Joining blocks\<close>

text \<open>The block \<open>bp\<close> between the free blocks \<open>p\<close> and \<open>ys\<close>, before and after it is joined with its successor.\<close>

lemma join_next_ok:
  assumes pth: "path (hptr h) (hptr h p) ys base" "bp \<notin> set ys" and ap: "apart h ys" "\<forall>y\<in>set ys. btop h bp \<le> unat y"
    and b: "base < bp" "0 < hsize h bp" and top: "btop h bp < 2 ^ 36" "\<forall>y\<in>set ys. btop h y < 2 ^ 36"
    and h': "h' = join_next bp p h"
  shows "\<exists>zs. path (hptr h') bp (bp # zs) base \<and> apart h' (bp # zs) \<and> set zs \<subseteq> set ys \<and> hsize h bp \<le> hsize h' bp \<and>
    (\<forall>a. a \<noteq> bp \<longrightarrow> hptr h' a = hptr h a \<and> hsize h' a = hsize h a) \<and> freep h' = freep h \<and> ubrk h' = ubrk h \<and>
    space h' (insert bp (set zs)) = space h (insert bp (set ys))"
proof (cases "hend h bp = hptr h p")
  case False
  have e: "unat (hend h bp) = btop h bp" using top(1) by (intro unat_hend) simp
  have "btop h bp \<noteq> unat y" if "y \<in> set ys" for y
  proof
    assume t: "btop h bp = unat y"
    from split_list [OF that] obtain us vs where y: "ys = us @ y # vs" by blast
    show False
    proof (cases us)
      case Nil then have "hptr h p = y" using pth(1) y by simp
      then show False using False t e by (metis unsigned_word_eqI)
    next
      case (Cons u us') then have "btop h u < unat y" "btop h bp \<le> unat u" using ap y by (auto simp: sorted_wrt_append)
      then show False using t btop_ge [of u h] by simp
    qed
  qed
  then have "\<forall>y\<in>set ys. btop h bp < unat y" using ap(2) le_neq_implies_less by blast
  moreover have "h' = h\<lparr>hptr := (hptr h)(bp := hptr h p)\<rparr>" using False h' by (simp add: join_next_def)
  ultimately show ?thesis using pth ap b by (intro exI [of _ ys]) (auto simp: btop_def space_def bytes_def)
next
  case True
  let ?q = "hptr h p"
  have e: "unat (hend h bp) = btop h bp" using top(1) by (intro unat_hend) simp
  have "ys \<noteq> []"
  proof
    assume "ys = []"
    then have "hend h bp = base" using True pth(1) by simp
    then show False using e b(1) by (simp add: word_less_nat_alt btop_def)
  qed
  then obtain zs where ys: "ys = ?q # zs" using pth(1) by (cases ys) auto
  have t: "btop h bp = unat ?q" using e True by simp
  have h: "h' = h\<lparr>hsize := (hsize h)(bp := hsize h bp + hsize h ?q), hptr := (hptr h)(bp := hptr h ?q)\<rparr>" using True h' by (simp add: join_next_def Let_def)
  have "16 * (unat (hsize h bp) + unat (hsize h ?q)) < 2 ^ 36" using t top(2) ys by (auto simp: btop_def)
  then have sum: "unat (hsize h bp + hsize h ?q) = unat (hsize h bp) + unat (hsize h ?q)" by (simp add: unat_word_ariths)
  then have bt: "btop h' bp = btop h ?q" using t by (simp add: h btop_def)
  have o: "btop h' a = btop h a" "bytes h' a = bytes h a" if "a \<noteq> bp" for a using that by (simp_all add: h btop_def bytes_def)
  have n: "bp \<notin> set zs" using pth(2) ys by simp
  have "apart h (?q # zs)" using ap(1) ys by metis
  moreover have "\<forall>a\<in>set zs. btop h' a = btop h a" using n o(1) by metis
  then have "apart h' zs" using apart_cong [of h zs h'] calculation by simp
  ultimately have "apart h' (bp # zs)" by (simp add: bt)
  moreover have "path (hptr h') bp (bp # zs) base" using pth(1) ys n by (simp add: h)
  moreover have "bytes h' bp = bytes h bp \<union> bytes h ?q" using bt t btop_ge [of bp h] btop_ge [of ?q h] by (auto simp: bytes_def)
  then have "space h' (insert bp (set zs)) = space h (insert bp (set ys))" using space_cong [OF o(2) n] ys by (metis list.simps(15) space_simps(2) sup_assoc)
  moreover have "hsize h bp \<le> hsize h' bp" using sum by (simp add: h word_le_nat_alt)
  ultimately show ?thesis using ys by (intro exI [of _ zs]) (auto simp: h)
qed

lemma join_prev_ok:
  assumes pth: "path (hptr h) base xs p" "path (hptr h) bp (bp # zs) base" and ap: "apart h (xs @ [p])" "apart h (bp # zs)" "btop h p \<le> unat bp"
    and top: "\<forall>a\<in>{p, bp}. btop h a < 2 ^ 36" and bp: "base < bp" and d: "distinct (xs @ p # bp # zs)"
    and h': "h' = join_prev bp p h"
  shows "\<exists>ws. path (hptr h') base (xs @ p # ws) base \<and> apart h' (xs @ p # ws) \<and> set ws \<subseteq> insert bp (set zs) \<and>
    (\<forall>a. a \<noteq> p \<longrightarrow> hsize h' a = hsize h a) \<and> (p = base \<longrightarrow> hsize h base = 0 \<longrightarrow> hsize h' base = 0) \<and> hsize h p \<le> hsize h' p \<and>
    (hsize h bp \<le> hsize h' p \<or> hptr h' p = bp) \<and> freep h' = freep h \<and> ubrk h' = ubrk h \<and>
    space h' (set (xs @ p # ws)) = space h (set (xs @ p # bp # zs))"
proof (cases "hend h p = bp")
  case False
  have e: "unat (hend h p) = btop h p" using top by (intro unat_hend) simp
  then have lt: "btop h p < unat bp" using ap(3) False by (metis le_neq_implies_less unsigned_word_eqI)
  have h: "h' = h\<lparr>hptr := (hptr h)(p := bp)\<rparr>" using False h' by (simp add: join_prev_def)
  have bt: "btop h' = btop h" "bytes h' = bytes h" by (simp_all add: h btop_def bytes_def fun_eq_iff)
  have "btop h a < unat b" if "a \<in> set (xs @ [p])" "b \<in> set (bp # zs)" for a b
  proof -
    have "btop h a \<le> btop h p" using that(1) ap(1) btop_ge [of p h] by (auto simp: sorted_wrt_append)
    moreover have "unat bp \<le> unat b" using that(2) ap(2) btop_ge [of bp h] by auto
    ultimately show ?thesis using lt by simp
  qed
  then have "apart h' ((xs @ [p]) @ bp # zs)" using ap by (simp only: bt sorted_wrt_append) blast
  moreover have "path (hptr h') base (xs @ p # bp # zs) base" using pth d by (auto simp: h)
  ultimately show ?thesis by (intro exI [of _ "bp # zs"]) (auto simp: h space_def bytes_def btop_def)
next
  case True
  have e: "unat (hend h p) = btop h p" using top by (intro unat_hend) simp
  have t: "btop h p = unat bp" using e True by simp
  have h: "h' = h\<lparr>hsize := (hsize h)(p := hsize h p + hsize h bp), hptr := (hptr h)(p := hptr h bp)\<rparr>" using True h' by (simp add: join_prev_def)
  have "16 * (unat (hsize h p) + unat (hsize h bp)) < 2 ^ 36" using t top by (auto simp: btop_def)
  then have sum: "unat (hsize h p + hsize h bp) = unat (hsize h p) + unat (hsize h bp)" by (simp add: unat_word_ariths)
  have bt: "btop h' p = btop h bp" using t sum by (simp add: h btop_def)
  have o: "btop h' a = btop h a" "bytes h' a = bytes h a" if "a \<noteq> p" for a using that by (simp_all add: h btop_def bytes_def)
  have n: "p \<notin> set xs" "p \<notin> set zs" "p \<noteq> bp" using d by auto
  have lt: "btop h a < unat b" if "a \<in> set xs" "b \<in> set zs" for a b
  proof -
    have "btop h a \<le> btop h p" using that(1) ap(1) btop_ge [of p h] by (auto simp: sorted_wrt_append)
    moreover have "unat bp < unat b" using that(2) ap(2) btop_ge [of bp h] by auto
    ultimately show ?thesis using t by simp
  qed
  have keep: "\<forall>a\<in>set xs \<union> set zs. btop h' a = btop h a" using n o(1) by (metis UnE)
  have "apart h xs" "apart h zs" using ap(1,2) by (simp_all add: sorted_wrt_append)
  then have "apart h' xs" "apart h' zs" using apart_cong keep by (metis UnCI)+
  then have "apart h' (xs @ p # zs)" using ap lt keep by (auto simp: sorted_wrt_append bt)
  moreover have "path (hptr h') base (xs @ p # zs) base" using pth n by (simp add: h)
  moreover have "bytes h' p = bytes h p \<union> bytes h bp" using bt t btop_ge [of p h] btop_ge [of bp h] by (auto simp: bytes_def)
  then have "space h' (set (xs @ p # zs)) = space h (set (xs @ p # bp # zs))"
    using space_cong [OF o(2) n(1)] space_cong [OF o(2) n(2)] by (auto simp: space_simps)
  moreover have "p \<noteq> base" if "hsize h base = 0" using that t bp by (auto simp: btop_def word_less_nat_alt)
  moreover have "hsize h p \<le> hsize h' p" "hsize h bp \<le> hsize h' p" using sum by (simp_all add: h word_le_nat_alt)
  ultimately show ?thesis by (intro exI [of _ zs]) (auto simp: h)
qed

section \<open>The invariant\<close>

lemma heap_okD:
  assumes "heap_ok base h bs U"
  shows "free_ok base h bs" "base < ubrk h" "unat (ubrk h) < 2 ^ 36" "a \<in> U \<Longrightarrow> 0 < hsize h a" "a \<in> U \<Longrightarrow> base < a"
    "a \<in> U \<Longrightarrow> bytes h a \<inter> space h (set bs) = {}" "a \<in> U \<Longrightarrow> b \<in> U \<Longrightarrow> a \<noteq> b \<Longrightarrow> bytes h a \<inter> bytes h b = {}"
    "space h (set bs \<union> U) \<subseteq> {..<unat (ubrk h)}"
  using assms unfolding heap_ok_def by blast+

lemma heap_okI:
  assumes "free_ok base h bs" "base < ubrk h" "unat (ubrk h) < 2 ^ 36" "\<And>a. a \<in> U \<Longrightarrow> 0 < hsize h a \<and> base < a"
    "\<And>a. a \<in> U \<Longrightarrow> bytes h a \<inter> space h (set bs) = {}" "\<And>a b. a \<in> U \<Longrightarrow> b \<in> U \<Longrightarrow> a \<noteq> b \<Longrightarrow> bytes h a \<inter> bytes h b = {}"
    "space h (set bs) \<subseteq> {..<unat (ubrk h)}" "\<And>a. a \<in> U \<Longrightarrow> bytes h a \<subseteq> {..<unat (ubrk h)}"
  shows "heap_ok base h bs U"
proof -
  have "space h (set bs \<union> U) \<subseteq> {..<unat (ubrk h)}" using assms(7,8) unfolding space_def by blast
  then show ?thesis using assms(1-6) unfolding heap_ok_def by simp
qed

lemma heap_below:
  assumes "heap_ok base h bs U"
  shows "space h (set bs) \<subseteq> {..<unat (ubrk h)}" "a \<in> U \<Longrightarrow> bytes h a \<subseteq> {..<unat (ubrk h)}"
  using heap_okD(8) [OF assms] unfolding space_def by blast+

lemma heap_block:
  assumes ok: "heap_ok base h bs U" and a: "a \<in> set bs \<union> U"
  shows "a = base \<or> 0 < hsize h a" "btop h a \<le> unat (ubrk h)" "btop h a < 2 ^ 36" "base \<le> a"
proof -
  show p: "a = base \<or> 0 < hsize h a" using a heap_okD(1,4) [OF ok] by (auto simp: free_ok_def)
  show t: "btop h a \<le> unat (ubrk h)"
  proof (cases "a = base")
    case True then show ?thesis using heap_okD(1,2) [OF ok] by (simp add: free_ok_def btop_def word_less_nat_alt)
  next
    case False
    then have "btop h a - 1 \<in> bytes h a" using p by (auto simp: bytes_def btop_def word_less_nat_alt)
    then have "btop h a - 1 \<in> space h (set bs \<union> U)" using a by (auto simp: space_def)
    then show ?thesis using heap_okD(8) [OF ok] by (auto simp: subset_iff)
  qed
  then show "btop h a < 2 ^ 36" using heap_okD(3) [OF ok] by simp
  have "apart h bs" and "\<exists>cs. bs = base # cs" using heap_okD(1) [OF ok] free_ok_hd by (auto simp: free_ok_def)
  then show "base \<le> a" using a heap_okD(5) [OF ok] apart_less by (fastforce intro: order.strict_implies_order)
qed

lemma heap_disjoint: "heap_ok base h bs U \<Longrightarrow> a \<in> U \<Longrightarrow> a \<notin> set bs"
  using heap_okD(4,6) in_bytes by (fastforce simp: space_def)

lemma free_block:
  assumes ok: "heap_ok base h bs (insert a U)" and a: "a \<notin> U"
  shows "\<exists>h' bs'. free (a + HEADER) h = Ok h' \<and> heap_ok base h' bs' U \<and> space h' (set bs') = space h (set bs) \<union> bytes h a \<and>
    (\<forall>b\<in>U. hsize h' b = hsize h b) \<and> ubrk h' = ubrk h \<and>
    (hsize h a \<le> hsize h' (freep h') \<or> hsize h a \<le> hsize h' (hptr h' (freep h')))"
proof -
  note f = heap_okD(1) [OF ok] and A = heap_okD(4-6) [OF ok, of a, simplified]
  have a': "a \<notin> set bs" using heap_disjoint [OF ok] by simp
  obtain xs p ys where s: "bs = xs @ p # ys" "\<forall>c\<in>set (xs @ [p]). c < a" "\<forall>c\<in>set ys. a < c" "loopR (place_turn h a) (freep h) = Ok p"
    using place_found [OF f A(2) a'] by blast
  have pth: "path (hptr h) base xs p" "path (hptr h) (hptr h p) ys base" and ap: "apart h (xs @ p # ys)" "hsize h base = 0" "base \<noteq> 0"
    and pos: "\<forall>c\<in>set bs - {base}. 0 < hsize h c" using f s(1) by (auto simp: free_ok_def)
  have d: "distinct (xs @ p # ys)" using apart_distinct [OF ap(1)] .
  have dis: "bytes h a \<inter> bytes h c = {}" if "c \<in> set bs" for c using A(3) that by (auto simp: space_def)
  have "\<forall>y\<in>set ys. btop h a \<le> unat y"
  proof
    fix y assume y: "y \<in> set ys"
    then have "a < y" "0 < hsize h y" using s A(2) pos by auto
    then show "btop h a \<le> unat y" using dis [of y] y s(1) in_bytes [of h y] by (force simp: bytes_def word_less_nat_alt)
  qed
  moreover have "btop h p \<le> unat a" using dis [of p] s in_bytes [of h a] A(1) by (force simp: bytes_def word_less_nat_alt)
  note pa = this
  have top: "btop h c < 2 ^ 36" if "c \<in> insert a (set bs)" for c using heap_block(3) [OF ok, of c] that by auto
  define h1 where "h1 = join_next a p h"
  define h2 where "h2 = join_prev a p h1"
  have "\<exists>zs. path (hptr h1) a (a # zs) base \<and> apart h1 (a # zs) \<and> set zs \<subseteq> set ys \<and> hsize h a \<le> hsize h1 a \<and>
    (\<forall>c. c \<noteq> a \<longrightarrow> hptr h1 c = hptr h c \<and> hsize h1 c = hsize h c) \<and> freep h1 = freep h \<and> ubrk h1 = ubrk h \<and>
    space h1 (insert a (set zs)) = space h (insert a (set ys))"
    by (rule join_next_ok [OF pth(2) _ _ calculation A(2,1) _ _ h1_def]) (use a' s(1) ap top in \<open>auto simp: sorted_wrt_append\<close>)
  then obtain zs where z: "path (hptr h1) a (a # zs) base" "apart h1 (a # zs)" "set zs \<subseteq> set ys" "hsize h a \<le> hsize h1 a"
    "\<And>c. c \<noteq> a \<Longrightarrow> hptr h1 c = hptr h c" "\<And>c. c \<noteq> a \<Longrightarrow> hsize h1 c = hsize h c" "freep h1 = freep h" "ubrk h1 = ubrk h"
    "space h1 (insert a (set zs)) = space h (insert a (set ys))" by blast
  have z': "\<forall>c\<in>set (xs @ [p]). hptr h1 c = hptr h c \<and> hsize h1 c = hsize h c"
  proof
    fix c assume "c \<in> set (xs @ [p])"
    then have "c \<noteq> a" using a' s(1) by auto
    then show "hptr h1 c = hptr h c \<and> hsize h1 c = hsize h c" using z(5,6) by simp
  qed
  have "path (hptr h1) base xs p" using pth(1) path_cong [of xs "hptr h1" "hptr h"] z' by simp
  moreover have ap1: "apart h (xs @ [p])" using ap(1) by (simp add: sorted_wrt_append)
  then have "apart h1 (xs @ [p])" by (rule apart_cong) (use z' in \<open>simp add: btop_def\<close>)
  moreover have "btop h1 p \<le> unat a" using pa z' by (simp add: btop_def)
  moreover have t1: "btop h1 a < 2 ^ 36"
  proof -
    have "0 < hsize h1 a" using A(1) z(4) by simp
    then have "btop h1 a - 1 \<in> bytes h1 a" by (auto simp: bytes_def btop_def word_less_nat_alt)
    then have "btop h1 a - 1 \<in> space h (insert a (set ys))" using z(9) by (auto simp: space_simps)
    also have "\<dots> \<subseteq> {..<unat (ubrk h)}" using heap_okD(8) [OF ok] s(1) by (auto simp: space_simps)
    finally show ?thesis using heap_okD(3) [OF ok] by simp
  qed
  then have "\<forall>c\<in>{p, a}. btop h1 c < 2 ^ 36" using top [of p] s(1) z' by (simp add: btop_def)
  moreover have dz: "distinct (xs @ p # a # zs)" using d a' s(1) z(3) apart_distinct [OF z(2)] by auto
  ultimately have "\<exists>ws. path (hptr h2) base (xs @ p # ws) base \<and> apart h2 (xs @ p # ws) \<and> set ws \<subseteq> insert a (set zs) \<and>
    (\<forall>c. c \<noteq> p \<longrightarrow> hsize h2 c = hsize h1 c) \<and> (p = base \<longrightarrow> hsize h1 base = 0 \<longrightarrow> hsize h2 base = 0) \<and> hsize h1 p \<le> hsize h2 p \<and>
    (hsize h1 a \<le> hsize h2 p \<or> hptr h2 p = a) \<and> freep h2 = freep h1 \<and> ubrk h2 = ubrk h1 \<and>
    space h2 (set (xs @ p # ws)) = space h1 (set (xs @ p # a # zs))"
    using join_prev_ok [OF _ z(1) _ z(2) _ _ A(2) _ h2_def, of xs] by blast
  then obtain ws where w: "path (hptr h2) base (xs @ p # ws) base" "apart h2 (xs @ p # ws)" "set ws \<subseteq> insert a (set zs)"
    "\<And>c. c \<noteq> p \<Longrightarrow> hsize h2 c = hsize h1 c" "p = base \<Longrightarrow> hsize h1 base = 0 \<Longrightarrow> hsize h2 base = 0" "hsize h1 p \<le> hsize h2 p"
    "hsize h1 a \<le> hsize h2 p \<or> hptr h2 p = a" "ubrk h2 = ubrk h" "space h2 (set (xs @ p # ws)) = space h1 (set (xs @ p # a # zs))"
    using z(8) by metis
  let ?h = "h2\<lparr>freep := p\<rparr>" and ?bs = "xs @ p # ws"
  have sel: "btop ?h = btop h2" "bytes ?h = bytes h2" "space ?h = space h2" by (simp_all add: btop_def bytes_def space_def fun_eq_iff)
  have ba: "base \<noteq> a" using A(2) by auto
  have "hsize h2 base = 0" using w(4) [of base] w(5) z(6) [OF ba] ap(2) by (cases "p = base") auto
  moreover have "0 < hsize h2 c" if "c \<in> set ?bs" "c \<noteq> base" for c
  proof -
    have "0 < hsize h1 c" using that w(3) z(3,4) z(6) [of c] pos s(1) A(1) by (cases "c = a") auto
    then show ?thesis using w(4) [of c] w(6) by (cases "c = p") auto
  qed
  ultimately have fr: "free_ok base ?h ?bs" using ap(3) w(1,2) by (simp add: free_ok_def sel)
  have sp: "space ?h (set ?bs) = space h (set bs) \<union> bytes h a"
  proof -
    have "space h1 (set (xs @ [p])) = space h (set (xs @ [p]))" using z' unfolding space_def bytes_def btop_def by (intro SUP_cong) auto
    moreover have "set (xs @ p # a # zs) = set (xs @ [p]) \<union> insert a (set zs)" "set bs = set (xs @ [p]) \<union> set ys" using s(1) by auto
    ultimately show ?thesis unfolding sel w(9) using z(9) by (simp only: space_simps(3)) (auto simp: space_simps)
  qed
  have u: "hsize ?h b = hsize h b" "bytes ?h b = bytes h b" if "b \<in> U" for b
  proof -
    have "b \<noteq> p" "b \<noteq> a" using heap_disjoint [OF ok, of b] that a s(1) by auto
    then have "hsize h2 b = hsize h b" using w(4) z(6) by metis
    then show "hsize ?h b = hsize h b" "bytes ?h b = bytes h b" by (simp_all add: bytes_def btop_def)
  qed
  have "heap_ok base ?h ?bs U"
  proof (rule heap_okI)
    show "free_ok base ?h ?bs" by (rule fr)
    show "base < ubrk ?h" "unat (ubrk ?h) < 2 ^ 36" using heap_okD(2,3) [OF ok] w(8) by simp_all
    show "0 < hsize ?h b \<and> base < b" if "b \<in> U" for b using u(1) [OF that] heap_okD(4,5) [OF ok, of b] that by simp
    show "bytes ?h b \<inter> space ?h (set ?bs) = {}" if "b \<in> U" for b
      using heap_okD(6) [OF ok, of b] heap_okD(7) [OF ok, of b a] that a unfolding sp u(2) [OF that] by blast
    show "bytes ?h b \<inter> bytes ?h c = {}" if "b \<in> U" "c \<in> U" "b \<noteq> c" for b c
      using heap_okD(7) [OF ok, of b c] that by (simp add: u(2))
    show "space ?h (set ?bs) \<subseteq> {..<unat (ubrk ?h)}" using heap_below [OF ok] w(8) unfolding sp by simp
    show "bytes ?h b \<subseteq> {..<unat (ubrk ?h)}" if "b \<in> U" for b using heap_below(2) [OF ok, of b] that w(8) by (simp add: u(2))
  qed
  moreover have "free (a + HEADER) h = Ok ?h" using s(4) by (simp add: free_def h1_def h2_def)
  moreover have "hsize h a \<le> hsize h2 p \<or> hsize h a \<le> hsize h2 (hptr h2 p)" using w(7) w(4) [of a] z(4) dz by auto
  ultimately show ?thesis using sp u(1) w(8) by (intro exI [of _ ?h] exI [of _ ?bs]) auto
qed

section \<open>Taking a block\<close>

lemma apart_disjoint:
  assumes "apart h bs" "a \<in> set bs" "b \<in> set bs" "a \<noteq> b"
  shows "bytes h a \<inter> bytes h b = {}"
proof -
  from split_list [OF assms(2)] obtain xs ys where bs: "bs = xs @ a # ys" by blast
  then have "btop h b < unat a \<or> btop h a < unat b" using assms by (auto simp: sorted_wrt_append)
  then show ?thesis by (auto simp: bytes_def)
qed

lemma apart_mono: "apart h bs \<Longrightarrow> \<forall>a\<in>set bs. btop h' a \<le> btop h a \<Longrightarrow> apart h' bs"
  by (induction bs) (auto intro: le_less_trans)

lemma take_ok:
  assumes ok: "heap_ok base h bs U" and z: "z \<in> set bs" "prev \<in> set bs" "hptr h prev = z" and n: "n \<le> hsize h z" "0 < n"
  shows "\<exists>a h' bs'. take_block n prev z h = (a + HEADER, h') \<and> a \<notin> U \<and> heap_ok base h' bs' (insert a U) \<and> hsize h' a = n \<and>
    (\<forall>b\<in>U. hsize h' b = hsize h b) \<and> ubrk h' = ubrk h"
proof -
  note f = heap_okD(1) [OF ok]
  have pth: "path (hptr h) base bs base" and ap: "apart h bs" "hsize h base = 0" "base \<noteq> 0" and pos: "\<forall>c\<in>set bs - {base}. 0 < hsize h c"
    using f by (auto simp: free_ok_def)
  have zb: "z \<noteq> base" using n ap(2) by auto
  from split_list [OF z(2)] obtain us ws where "bs = us @ prev # ws" by blast
  moreover from this have "ws \<noteq> [] \<and> hd ws = z" using path_next [of "hptr h" base us prev ws base] pth z(3) zb by (cases ws) auto
  ultimately obtain vs where bs: "bs = us @ prev # z # vs" by (cases ws) auto
  have d: "distinct bs" using apart_distinct [OF ap(1)] .
  have zU: "z \<notin> U" using heap_disjoint [OF ok] z(1) by blast
  have bz: "base < z" using heap_block(4) [OF ok, of z] z(1) zb by auto
  have U: "bytes h a \<inter> bytes h c = {}" if "a \<in> U" "c \<in> set bs" for a c using heap_okD(6) [OF ok that(1)] that(2) by (auto simp: space_def)
  show ?thesis
  proof (cases "hsize h z = n")
    case True
    let ?h = "h\<lparr>hptr := (hptr h)(prev := hptr h z), freep := prev\<rparr>" and ?bs = "us @ prev # vs"
    have sel: "btop ?h = btop h" "bytes ?h = bytes h" "space ?h = space h" by (simp_all add: btop_def bytes_def space_def fun_eq_iff)
    have sub: "set ?bs \<subseteq> set bs" "z \<notin> set ?bs" using bs d by auto
    have "path (hptr ?h) base ?bs base" using pth d bs by auto
    moreover have "apart ?h ?bs" using ap(1) unfolding sel bs by (auto simp: sorted_wrt_append)
    ultimately have fr: "free_ok base ?h ?bs" using ap(2,3) pos sub(1) by (auto simp: free_ok_def)
    have zs: "bytes h z \<inter> bytes h c = {}" if "c \<in> set ?bs" for c using apart_disjoint [OF ap(1) z(1), of c] that sub by blast
    have sp: "space h (set ?bs) \<subseteq> space h (set bs)" "bytes h z \<subseteq> space h (set bs)" using sub(1) z(1) unfolding space_def by blast+
    have "heap_ok base ?h ?bs (insert z U)"
    proof (rule heap_okI)
      show "free_ok base ?h ?bs" by (rule fr)
      show "base < ubrk ?h" "unat (ubrk ?h) < 2 ^ 36" using heap_okD(2,3) [OF ok] by simp_all
      show "0 < hsize ?h b \<and> base < b" if "b \<in> insert z U" for b using heap_okD(4,5) [OF ok, of b] that True n bz by auto
      show "bytes ?h b \<inter> space ?h (set ?bs) = {}" if "b \<in> insert z U" for b
      proof (cases "b = z")
        case True then show ?thesis using zs unfolding sel space_def by blast
      next
        case False then show ?thesis using that heap_okD(6) [OF ok, of b] sp(1) unfolding sel by blast
      qed
      show "bytes ?h b \<inter> bytes ?h c = {}" if "b \<in> insert z U" "c \<in> insert z U" "b \<noteq> c" for b c
        using heap_okD(7) [OF ok, of b c] U [OF _ z(1)] that unfolding sel by blast
      show "space ?h (set ?bs) \<subseteq> {..<unat (ubrk ?h)}" using heap_below(1) [OF ok] sp(1) unfolding sel by simp
      show "bytes ?h b \<subseteq> {..<unat (ubrk ?h)}" if "b \<in> insert z U" for b using heap_below [OF ok] sp(2) that unfolding sel by auto
    qed
    then show ?thesis using True zU by (intro exI [of _ z] exI [of _ ?h] exI [of _ ?bs]) (auto simp: take_block_def)
  next
    case False
    define m where "m = hsize h z - n"
    define a where "a = hend (h\<lparr>hsize := (hsize h)(z := m)\<rparr>) z"
    define h' where "h' = h\<lparr>hsize := (hsize h)(z := m, a := n), freep := prev\<rparr>"
    have m: "unat m = unat (hsize h z) - unat n" "unat n < unat (hsize h z)" using n(1) False
      by (simp_all add: m_def word_less_nat_alt [symmetric] word_le_nat_alt unat_sub order.not_eq_order_implies_strict)
    have ua: "unat a = unat z + 16 * unat m"
      using unat_hend [of "h\<lparr>hsize := (hsize h)(z := m)\<rparr>" z] heap_block(3) [OF ok, of z] z(1) m by (simp add: a_def btop_def)
    then have za: "unat z < unat a" "unat a + 16 * unat n = btop h z" using m by (auto simp: btop_def)
    have az: "unat a \<in> bytes h z" using za n(2) by (auto simp: bytes_def word_less_nat_alt)
    have "a \<noteq> base" "a \<noteq> z" using za(1) bz by (auto simp: word_less_nat_alt)
    then have a: "a \<notin> set bs" "a \<notin> U" "a \<noteq> z" using az apart_disjoint [OF ap(1) z(1)] in_bytes [of h a] pos U [OF _ z(1)] heap_okD(4) [OF ok] by blast+
    have o: "hsize h' c = hsize h c" "bytes h' c = bytes h c" "btop h' c = btop h c" if "c \<noteq> a" "c \<noteq> z" for c
      using that by (simp_all add: h'_def bytes_def btop_def)
    have hs: "hsize h' z = m" "hsize h' a = n" "hptr h' = hptr h" "ubrk h' = ubrk h" "freep h' = prev" using a(3) by (simp_all add: h'_def)
    have new: "btop h' z = unat a" "btop h' a = btop h z" using ua za(2) by (simp_all add: btop_def hs)
    have sz: "bytes h' z \<union> bytes h' a = bytes h z" "bytes h' z \<inter> bytes h' a = {}" using new za btop_ge [of z h] by (auto simp: bytes_def)
    have "apart h' bs" using a(1) o(3) new za(2) by (intro apart_mono [OF ap(1)]) (metis le_add1 order_refl)
    moreover have "0 < m" using m by (simp add: word_less_nat_alt)
    then have p': "\<forall>c\<in>set bs - {base}. 0 < hsize h' c" using pos o(1) a(1) hs(1) by (metis DiffD1)
    moreover have "hsize h' base = 0" using o(1) ap(2) zb \<open>a \<noteq> base\<close> by metis
    ultimately have f': "free_ok base h' bs" using pth ap(3) z(2) by (auto simp: free_ok_def hs)
    have sub: "bytes h' c \<subseteq> bytes h c" if "c \<in> set bs" for c using that a(1) o(2) [of c] sz(1) by (cases "c = z") auto
    then have sp: "space h' (set bs) \<subseteq> space h (set bs)" by (auto simp: space_def)
    have "bytes h' a \<inter> bytes h' c = {}" if "c \<in> set bs" for c
      using that sz apart_disjoint [OF ap(1) z(1) that] sub [OF that] by (cases "c = z") blast+
    then have ab: "bytes h' a \<inter> space h' (set bs) = {}" by (auto simp: space_def)
    have u: "hsize h' b = hsize h b" "bytes h' b = bytes h b" if "b \<in> U" for b using that o a(2) zU by metis+
    have au: "bytes h' a \<inter> bytes h b = {}" if "b \<in> U" for b using U [OF that z(1)] sz(1) by blast
    have ba: "base < a" using bz za(1) by (simp add: word_less_nat_alt)
    have "heap_ok base h' bs (insert a U)"
    proof (rule heap_okI)
      show "free_ok base h' bs" by (rule f')
      show "base < ubrk h'" "unat (ubrk h') < 2 ^ 36" using heap_okD(2,3) [OF ok] by (simp_all add: hs)
      show "0 < hsize h' b \<and> base < b" if "b \<in> insert a U" for b using heap_okD(4,5) [OF ok, of b] that n(2) ba by (auto simp: hs u(1))
      show "bytes h' b \<inter> space h' (set bs) = {}" if "b \<in> insert a U" for b
        using that heap_okD(6) [OF ok, of b] sp ab u(2) by blast
      show "bytes h' b \<inter> bytes h' c = {}" if bc: "b \<in> insert a U" "c \<in> insert a U" "b \<noteq> c" for b c
      proof -
        consider "b = a" "c \<in> U" | "c = a" "b \<in> U" | "b \<in> U" "c \<in> U" using bc by blast
        then show ?thesis using heap_okD(7) [OF ok, of b c] bc(3) au [of b] au [of c] by cases (simp_all add: u(2) Int_commute)
      qed
      show "space h' (set bs) \<subseteq> {..<unat (ubrk h')}" using heap_below(1) [OF ok] sp by (simp add: hs)
      show "bytes h' b \<subseteq> {..<unat (ubrk h')}" if "b \<in> insert a U" for b
        using that heap_below(2) [OF ok, of b] heap_below(1) [OF ok] sz(1) z(1) u(2) [of b] unfolding hs space_def by blast
    qed
    moreover have "take_block n prev z h = (a + HEADER, h')" using False by (simp add: take_block_def Let_def a_def h'_def m_def)
    ultimately show ?thesis using a(2) u(1) hs by (intro exI [of _ a] exI [of _ h'] exI [of _ bs]) simp
  qed
qed

section \<open>Searching\<close>

text \<open>The walk from \<open>p\<close> to \<open>freep\<close> finds the first block that is large enough.\<close>

lemma search_found:
  "path (hptr h) p zs (freep h) \<Longrightarrow> freep h \<notin> set zs \<Longrightarrow> hptr h prev = p \<Longrightarrow> insert prev (insert (freep h) (set zs)) \<subseteq> A \<Longrightarrow>
   \<exists>z\<in>insert (freep h) (set zs). n \<le> hsize h z \<Longrightarrow>
   \<exists>q z. loopR (malloc_turn avail n) (prev, p, h) = Ok (take_block n q z h) \<and> hptr h q = z \<and> n \<le> hsize h z \<and> q \<in> A \<and> z \<in> A"
proof (induction zs arbitrary: p prev)
  case Nil
  then have "malloc_turn avail n (prev, p, h) = Ok (Exit (take_block n prev p h))" by (simp add: malloc_turn_def)
  then show ?case using Nil by (intro exI [of _ prev] exI [of _ p]) (auto simp: loopR_Exit)
next
  case (Cons x zs)
  then have x: "x = p" "path (hptr h) (hptr h p) zs (freep h)" by auto
  show ?case
  proof (cases "n \<le> hsize h p")
    case True
    then have "malloc_turn avail n (prev, p, h) = Ok (Exit (take_block n prev p h))" by (simp add: malloc_turn_def)
    then show ?thesis using Cons.prems x True by (intro exI [of _ prev] exI [of _ p]) (auto simp: loopR_Exit)
  next
    case False
    then have "malloc_turn avail n (prev, p, h) = Ok (Next (p, hptr h p, h))" using Cons.prems x by (auto simp: malloc_turn_def)
    then have "loopR (malloc_turn avail n) (prev, p, h) = loopR (malloc_turn avail n) (p, hptr h p, h)" by (rule loopR_Next)
    then show ?thesis using Cons.IH [OF x(2), of p] Cons.prems x False by auto
  qed
qed

lemma search_end:
  "path (hptr h) p zs (freep h) \<Longrightarrow> freep h \<notin> set zs \<Longrightarrow> \<forall>z\<in>set zs. \<not> n \<le> hsize h z \<Longrightarrow>
   \<exists>q. loopR (malloc_turn avail n) (prev, p, h) = loopR (malloc_turn avail n) (q, freep h, h)"
proof (induction zs arbitrary: p prev)
  case (Cons x zs)
  then have x: "x = p" "path (hptr h) (hptr h p) zs (freep h)" by auto
  then have "malloc_turn avail n (prev, p, h) = Ok (Next (p, hptr h p, h))" using Cons.prems by (auto simp: malloc_turn_def)
  then have "loopR (malloc_turn avail n) (prev, p, h) = loopR (malloc_turn avail n) (p, hptr h p, h)" by (rule loopR_Next)
  then show ?case using Cons.IH [OF x(2), of p] Cons.prems by auto
qed auto

lemma free_ok_next:
  assumes "free_ok base h bs" "p \<in> set bs"
  shows "hptr h p \<in> set bs"
proof -
  from split_list [OF assms(2)] obtain xs ys where bs: "bs = xs @ p # ys" by blast
  then have "hptr h p = (case ys of [] \<Rightarrow> base | y # _ \<Rightarrow> y)" using assms(1) path_next by (auto simp: free_ok_def)
  moreover have "base \<in> set bs" using free_ok_hd [OF assms(1)] by auto
  ultimately show ?thesis using bs by (cases ys) simp_all
qed

text \<open>A full turn round the cycle, from the successor of \<open>freep\<close>.\<close>

lemma search_turn:
  assumes ok: "free_ok base h bs"
  obtains zs where "path (hptr h) (hptr h (freep h)) zs (freep h)" "freep h \<notin> set zs" "insert (freep h) (set zs) = set bs"
proof -
  have f: "path (hptr h) base bs base" "freep h \<in> set bs" "distinct bs" using ok apart_distinct by (auto simp: free_ok_def)
  from split_list [OF f(2)] obtain xs ys where bs: "bs = xs @ freep h # ys" by blast
  then have "path (hptr h) (hptr h (freep h)) (ys @ xs) (freep h)" using f(1) by auto
  then show thesis using that [of "ys @ xs"] bs f(3) by auto
qed

section \<open>Growing\<close>

lemma sbrk_units:
  fixes m :: u32
  assumes "unat m < 2 ^ 27" "0 < m"
  shows "0 < sint (ucast (ucast m * HEADER :: u64) :: u32)" "scast (ucast (ucast m * HEADER :: u64) :: u32) = (of_nat (16 * unat m) :: u64)"
proof -
  let ?w = "ucast (ucast m * HEADER :: u64) :: u32"
  have u: "unat ?w = 16 * unat m" using assms(1) unat_units [of m] by (simp add: unsigned_ucast_eq take_bit_nat_eq_self)
  then have "?w = of_nat (16 * unat m)" by (metis of_nat_unat ucast_id)
  then show "scast ?w = (of_nat (16 * unat m) :: u64)" using assms(1) scast_of_nat_small [of "16 * unat m"] by simp
  have "0 < unat ?w" "unat ?w < 2 ^ 31" using u assms by (simp_all add: word_less_nat_alt)
  then show "0 < sint ?w" using sint_small [of ?w] by linarith
qed

lemma brk_value:
  fixes b :: u64
  assumes "unat b < 2 ^ 36"
  shows "b \<noteq> -1" "b + HEADER \<noteq> 0"
proof -
  have "unat (-1 :: u64) = 2 ^ 64 - 1" by (simp add: unsigned_minus_1_eq_mask mask_eq_exp_minus_1)
  then show "b \<noteq> -1" using assms by auto
  have "unat (b + HEADER) = unat b + 16" using unat_add_of_nat [of b 16] assms by (simp add: HEADER_def)
  then show "b + HEADER \<noteq> 0" by (metis add_is_0 unat_0 zero_neq_numeral)
qed

lemma morecore_ok:
  assumes ok: "heap_ok base h bs U" and n: "unat n < 2 ^ 27" and av: "\<forall>z. avail z \<longrightarrow> unat z < 2 ^ 36"
    and m: "m = (if n < 4096 then 4096 else n)"
  shows "if avail (ubrk h + of_nat (16 * unat m))
    then \<exists>h' bs'. morecore avail n h = Ok (freep h', h') \<and> heap_ok base h' bs' U \<and> (\<forall>b\<in>U. hsize h' b = hsize h b) \<and>
      (n \<le> hsize h' (freep h') \<or> n \<le> hsize h' (hptr h' (freep h')))
    else morecore avail n h = Ok (0, h)"
proof -
  have m': "unat m < 2 ^ 27" "0 < m" "n \<le> m" using n m by (auto simp: word_less_nat_alt word_le_nat_alt)
  note s = sbrk_units [OF m'(1,2)]
  let ?b = "ubrk h" and ?new = "ubrk h + of_nat (16 * unat m)"
  have b: "unat ?b < 2 ^ 36" using heap_okD(3) [OF ok] .
  have new: "unat ?new = unat ?b + 16 * unat m" using b m'(1) by (intro unat_add_of_nat) simp
  have bm: "?b \<noteq> -1" using brk_value [OF b] by simp
  show ?thesis
  proof (cases "avail ?new")
    case False
    then have "sbrk avail (ucast (ucast m * HEADER)) h = (-1, h)" using s by (simp add: sbrk_def Let_def)
    then show ?thesis using False unfolding morecore_def m [symmetric] by simp
  next
    case True
    then have sb: "sbrk avail (ucast (ucast m * HEADER)) h = (?b, h\<lparr>ubrk := ?new\<rparr>)" using s by (simp add: sbrk_def Let_def)
    define g where "g = h\<lparr>ubrk := ?new, hsize := (hsize h)(?b := m)\<rparr>"
    have low: "unat c < unat ?b" if "c \<in> set bs \<union> U" for c
    proof (cases "c = base")
      case True then show ?thesis using heap_okD(2) [OF ok] by (simp add: word_less_nat_alt)
    next
      case False
      then have "unat c \<in> space h (set bs \<union> U)" using heap_block(1) [OF ok that] in_bytes [of h c] that unfolding space_def by blast
      then show ?thesis using heap_okD(8) [OF ok] by auto
    qed
    have n: "?b \<notin> set bs" "?b \<notin> U" using low by blast+
    have o: "hsize g c = hsize h c" "btop g c = btop h c" "bytes g c = bytes h c" if "c \<in> set bs \<union> U" for c
      using that n by (auto simp: g_def btop_def bytes_def)
    have sp: "space g (set bs) = space h (set bs)" using o(3) by (auto simp: space_def)
    have nb: "bytes g ?b = {unat ?b..<unat ?new}" using new by (simp add: g_def bytes_def btop_def)
    have sel: "hptr g = hptr h" "freep g = freep h" "ubrk g = ?new" "hsize g ?b = m" by (simp_all add: g_def)
    have bb: "base \<in> set bs" using free_ok_hd [OF heap_okD(1) [OF ok]] by auto
    have fr: "free_ok base g bs" using heap_okD(1) [OF ok] apart_cong [of h bs g] o bb by (auto simp: free_ok_def sel)
    have "heap_ok base g bs (insert ?b U)"
    proof (rule heap_okI)
      show "free_ok base g bs" by (rule fr)
      show "base < ubrk g" using heap_okD(2) [OF ok] new by (simp add: sel word_less_nat_alt)
      show "unat (ubrk g) < 2 ^ 36" using av True by (simp add: sel)
      show "0 < hsize g c \<and> base < c" if "c \<in> insert ?b U" for c
        using that m'(2) heap_okD(2) [OF ok] heap_okD(4,5) [OF ok, of c] o(1) [of c] by (auto simp: sel)
      show "bytes g c \<inter> space g (set bs) = {}" if "c \<in> insert ?b U" for c
        using that heap_okD(6) [OF ok, of c] heap_below(1) [OF ok] o(3) [of c] by (auto simp: sp nb)
      show "bytes g c \<inter> bytes g d = {}" if cd: "c \<in> insert ?b U" "d \<in> insert ?b U" "c \<noteq> d" for c d
      proof -
        have x: "bytes g e \<inter> bytes g ?b = {}" if "e \<in> U" for e using heap_below(2) [OF ok that] o(3) [of e] that by (auto simp: nb)
        consider "c = ?b" "d \<in> U" | "d = ?b" "c \<in> U" | "c \<in> U" "d \<in> U" using cd by blast
        then show ?thesis using heap_okD(7) [OF ok, of c d] cd(3) x [of c] x [of d] o(3) [of c] o(3) [of d] by cases (simp_all add: Int_commute)
      qed
      show "space g (set bs) \<subseteq> {..<unat (ubrk g)}" using heap_below(1) [OF ok] new by (auto simp: sp sel)
      show "bytes g c \<subseteq> {..<unat (ubrk g)}" if "c \<in> insert ?b U" for c
      proof (cases "c = ?b")
        case True then show ?thesis by (auto simp: sel nb)
      next
        case False
        then have "bytes g c \<subseteq> {..<unat ?b}" using that heap_below(2) [OF ok, of c] o(3) [of c] by simp
        also have "\<dots> \<subseteq> {..<unat ?new}" using new by auto
        finally show ?thesis by (simp add: sel)
      qed
    qed
    from free_block [OF this n(2)] obtain h' bs' where f: "free (?b + HEADER) g = Ok h'" "heap_ok base h' bs' U" "\<forall>b\<in>U. hsize h' b = hsize g b"
      "m \<le> hsize h' (freep h') \<or> m \<le> hsize h' (hptr h' (freep h'))" unfolding sel(4) by blast
    have "morecore avail n h = Ok (freep h', h')" using f(1) sb bm unfolding morecore_def m [symmetric] by (simp add: g_def)
    moreover have "\<forall>b\<in>U. hsize h' b = hsize h b" using f(3) o(1) by simp
    ultimately show ?thesis using True f(2,4) m'(3) by (auto intro: order_trans)
  qed
qed

section \<open>Allocation\<close>

lemma unat_units_of: "unat (units n) = (unat n + 15) div 16 + 1"
proof -
  have n: "unat n < 2 ^ 32" using unsigned_less [of n] by simp
  then have "unat (ucast n + HEADER - 1 :: u64) = unat n + 15"
    by (simp add: HEADER_def unat_word_ariths unsigned_ucast_eq take_bit_nat_eq_self)
  then have "unat ((ucast n + HEADER - 1) div HEADER + 1 :: u64) = (unat n + 15) div 16 + 1" using n
    by (simp add: unat_word_ariths HEADER_def unat_div)
  then show ?thesis using n by (simp add: units_def unsigned_ucast_eq take_bit_nat_eq_self)
qed

abbreviation started :: "u64 \<Rightarrow> uheap \<Rightarrow> uheap" where
  "started base h \<equiv> h\<lparr>hptr := (hptr h)(base := base), freep := base, hsize := (hsize h)(base := 0)\<rparr>"

lemma started_ok: "base \<noteq> 0 \<Longrightarrow> base < ubrk h \<Longrightarrow> unat (ubrk h) < 2 ^ 36 \<Longrightarrow> heap_ok base (started base h) [base] {}"
  by (rule heap_okI) (auto simp: free_ok_def space_def bytes_def btop_def)

lemma search_ok:
  assumes ok: "heap_ok base h bs U" and n: "0 < n" "unat n < 2 ^ 27" and av: "\<forall>z. avail z \<longrightarrow> unat z < 2 ^ 36"
  shows "(\<exists>a h' bs'. loopR (malloc_turn avail n) (freep h, hptr h (freep h), h) = Ok (a + HEADER, h') \<and> a \<notin> U \<and>
      heap_ok base h' bs' (insert a U) \<and> hsize h' a = n \<and> (\<forall>b\<in>U. hsize h' b = hsize h b)) \<or>
    loopR (malloc_turn avail n) (freep h, hptr h (freep h), h) = Ok (0, h)"
proof -
  have found: "\<exists>a h' bs'. loopR (malloc_turn avail n) (freep g, hptr g (freep g), g) = Ok (a + HEADER, h') \<and> a \<notin> U \<and>
      heap_ok base h' bs' (insert a U) \<and> hsize h' a = n \<and> (\<forall>b\<in>U. hsize h' b = hsize g b)"
    if g: "heap_ok base g cs U" "\<exists>z\<in>set cs. n \<le> hsize g z" for g cs
  proof -
    note f = heap_okD(1) [OF g(1)]
    obtain zs where zs: "path (hptr g) (hptr g (freep g)) zs (freep g)" "freep g \<notin> set zs" "insert (freep g) (set zs) = set cs"
      using search_turn [OF f] by blast
    have "\<exists>q z. loopR (malloc_turn avail n) (freep g, hptr g (freep g), g) = Ok (take_block n q z g) \<and> hptr g q = z \<and> n \<le> hsize g z \<and> q \<in> set cs \<and> z \<in> set cs"
      by (rule search_found [OF zs(1,2) refl]) (use zs(3) g(2) in auto)
    then obtain q z where q: "loopR (malloc_turn avail n) (freep g, hptr g (freep g), g) = Ok (take_block n q z g)" "hptr g q = z" "n \<le> hsize g z"
      "q \<in> set cs" "z \<in> set cs" by blast
    from take_ok [OF g(1) q(5,4,2,3) n(1)] q(1) show ?thesis by auto
  qed
  show ?thesis
  proof (cases "\<exists>z\<in>set bs. n \<le> hsize h z")
    case True then show ?thesis using found [OF ok] by blast
  next
    case False
    obtain zs where zs: "path (hptr h) (hptr h (freep h)) zs (freep h)" "freep h \<notin> set zs" "insert (freep h) (set zs) = set bs"
      using search_turn [OF heap_okD(1) [OF ok]] by blast
    have "\<exists>q. loopR (malloc_turn avail n) (freep h, hptr h (freep h), h) = loopR (malloc_turn avail n) (q, freep h, h)"
      by (rule search_end [OF zs(1,2)]) (use zs(3) False in auto)
    then obtain q where q: "loopR (malloc_turn avail n) (freep h, hptr h (freep h), h) = loopR (malloc_turn avail n) (q, freep h, h)" by blast
    have big: "\<not> n \<le> hsize h (freep h)" using zs(3) False by auto
    define m where "m = (if n < 4096 then 4096 else n)"
    note mc = morecore_ok [OF ok n(2) av m_def]
    show ?thesis
    proof (cases "avail (ubrk h + of_nat (16 * unat m))")
      case True
      with mc obtain g cs where g: "morecore avail n h = Ok (freep g, g)" "heap_ok base g cs U" "\<forall>b\<in>U. hsize g b = hsize h b"
        "n \<le> hsize g (freep g) \<or> n \<le> hsize g (hptr g (freep g))" by auto
      have f: "freep g \<in> set cs" "base \<noteq> 0" using heap_okD(1) [OF g(2)] by (auto simp: free_ok_def)
      then have "freep g \<noteq> 0" using heap_block(4) [OF g(2), of "freep g"] by auto
      then have "malloc_turn avail n (q, freep h, h) = Ok (Next (freep g, hptr g (freep g), g))" using big g(1) by (simp add: malloc_turn_def)
      then have "loopR (malloc_turn avail n) (q, freep h, h) = loopR (malloc_turn avail n) (freep g, hptr g (freep g), g)" by (rule loopR_Next)
      moreover have "\<exists>z\<in>set cs. n \<le> hsize g z" using g(4) f(1) free_ok_next [OF heap_okD(1) [OF g(2)] f(1)] by blast
      ultimately show ?thesis using found [OF g(2)] q g(3) by fastforce
    next
      case False
      then have "malloc_turn avail n (q, freep h, h) = Ok (Exit (0, h))" using mc big by (simp add: malloc_turn_def)
      then show ?thesis using q by (simp add: loopR_Exit)
    qed
  qed
qed

lemma malloc_ok:
  assumes ok: "heap_ok base h bs U \<or> freep h = 0 \<and> U = {} \<and> base \<noteq> 0 \<and> base < ubrk h \<and> unat (ubrk h) < 2 ^ 36"
    and n: "nbytes \<le> 0x7fffffe0" and av: "\<forall>z. avail z \<longrightarrow> unat z < 2 ^ 36"
  shows "\<exists>r h' bs'. malloc base avail nbytes h = Ok (r, h') \<and> (\<forall>b\<in>U. hsize h' b = hsize h b) \<and>
    (if r = 0 then heap_ok base h' bs' U
     else r - HEADER \<notin> U \<and> heap_ok base h' bs' (insert (r - HEADER) U) \<and> 16 + unat nbytes \<le> 16 * unat (hsize h' (r - HEADER)))"
proof -
  define g where "g = (if freep h = 0 then started base h else h)"
  obtain cs where g: "heap_ok base g cs U" "\<forall>b\<in>U. hsize g b = hsize h b"
  proof (cases "freep h = 0")
    case True
    have "\<not> heap_ok base h bs U"
    proof
      assume "heap_ok base h bs U"
      from heap_block(4) [OF this, of "freep h"] heap_okD(1) [OF this] True show False by (auto simp: free_ok_def)
    qed
    then show thesis using that [of "[base]"] ok started_ok [of base h] True by (auto simp: g_def)
  next
    case False then show thesis using that [of bs] ok by (auto simp: g_def)
  qed
  let ?n = "units nbytes"
  have u: "unat ?n = (unat nbytes + 15) div 16 + 1" "unat nbytes \<le> 0x7fffffe0" using unat_units_of n by (simp_all add: word_le_nat_alt)
  then have n: "0 < ?n" "unat ?n < 2 ^ 27" "16 + unat nbytes \<le> 16 * unat ?n" by (simp_all add: word_less_nat_alt) 
  have m: "malloc base avail nbytes h = loopR (malloc_turn avail ?n) (freep g, hptr g (freep g), g)" by (simp add: malloc_def g_def Let_def)
  from search_ok [OF g(1) n(1,2) av] show ?thesis
  proof
    assume "\<exists>a h' bs'. loopR (malloc_turn avail ?n) (freep g, hptr g (freep g), g) = Ok (a + HEADER, h') \<and> a \<notin> U \<and>
      heap_ok base h' bs' (insert a U) \<and> hsize h' a = ?n \<and> (\<forall>b\<in>U. hsize h' b = hsize g b)"
    then obtain a h' bs' where a: "malloc base avail nbytes h = Ok (a + HEADER, h')" "a \<notin> U" "heap_ok base h' bs' (insert a U)" "hsize h' a = ?n"
      "\<forall>b\<in>U. hsize h' b = hsize g b" using m by auto
    have "unat a < 2 ^ 36" using heap_block(3) [OF a(3), of a] btop_ge [of a h'] by simp
    then have "a + HEADER \<noteq> 0" by (rule brk_value)
    then show ?thesis using a g(2) n(3) by (intro exI [of _ "a + HEADER"] exI [of _ h'] exI [of _ bs']) simp
  next
    assume "loopR (malloc_turn avail ?n) (freep g, hptr g (freep g), g) = Ok (0, g)"
    then show ?thesis using m g by (intro exI [of _ 0] exI [of _ g] exI [of _ cs]) simp
  qed
qed

section \<open>Properties\<close>

text \<open>
  The heaps of a program that only frees what it has allocated; \<open>U\<close> are the headers of its blocks.
\<close>

inductive heap_run :: "u64 \<Rightarrow> (u64 \<Rightarrow> bool) \<Rightarrow> uheap \<Rightarrow> u64 set \<Rightarrow> bool" for base avail where
  start: "heap_run base avail h {}" if "freep h = 0" "base < ubrk h" "unat (ubrk h) < 2 ^ 36"
| alloc: "heap_run base avail h' (if r = 0 then U else insert (r - HEADER) U)"
    if "heap_run base avail h U" "n \<le> 0x7fffffe0" "malloc base avail n h = Ok (r, h')"
| release: "heap_run base avail h' (U - {a})" if "heap_run base avail h U" "a \<in> U" "free (a + HEADER) h = Ok h'"

lemma heap_run_ok:
  assumes "heap_run base avail h U" "base \<noteq> 0" "\<forall>z. avail z \<longrightarrow> unat z < 2 ^ 36"
  shows "\<exists>bs. heap_ok base h bs U \<or> freep h = 0 \<and> U = {} \<and> base \<noteq> 0 \<and> base < ubrk h \<and> unat (ubrk h) < 2 ^ 36"
  using assms
proof (induction rule: heap_run.induct)
  case (start h) then show ?case by simp
next
  case (alloc h U n r h')
  then obtain bs where "heap_ok base h bs U \<or> freep h = 0 \<and> U = {} \<and> base \<noteq> 0 \<and> base < ubrk h \<and> unat (ubrk h) < 2 ^ 36" by blast
  from malloc_ok [OF this alloc.hyps(2) alloc.prems(2)] alloc.hyps(3) show ?case by (auto split: if_splits)
next
  case (release h U a h')
  then obtain bs where "heap_ok base h bs U" by blast
  then have "heap_ok base h bs (insert a (U - {a}))" using release.hyps(2) by (simp add: insert_absorb)
  from free_block [OF this] release.hyps(3) show ?case by auto
qed

text \<open>
  C37.  The allocator of the user programs.  However a program allocates and frees, its blocks never overlap each other
  and lie below the break.  In every such state \<open>malloc\<close> of up to 2 GB and \<open>free\<close> return: the search of the
  circular list ends.  A block that is not null is none of the program's blocks, has room for the bytes
  asked for, and the blocks the program has keep their size.
\<close>

theorem umalloc_safe:
  assumes run: "heap_run base avail h U" and base: "base \<noteq> 0" and av: "\<forall>z. avail z \<longrightarrow> unat z < 2 ^ 36"
  shows "(\<forall>a\<in>U. \<forall>b\<in>U. a \<noteq> b \<longrightarrow> bytes h a \<inter> bytes h b = {}) \<and> space h U \<subseteq> {..<unat (ubrk h)} \<and>
    (\<forall>n\<le>0x7fffffe0. \<exists>r h'. malloc base avail n h = Ok (r, h') \<and> (\<forall>b\<in>U. hsize h' b = hsize h b) \<and>
      (r \<noteq> 0 \<longrightarrow> r - HEADER \<notin> U \<and> 16 + unat n \<le> 16 * unat (hsize h' (r - HEADER)))) \<and>
    (\<forall>a\<in>U. \<exists>h'. free (a + HEADER) h = Ok h' \<and> (\<forall>b\<in>U - {a}. hsize h' b = hsize h b))"
proof -
  obtain bs where ok: "heap_ok base h bs U \<or> freep h = 0 \<and> U = {} \<and> base \<noteq> 0 \<and> base < ubrk h \<and> unat (ubrk h) < 2 ^ 36"
    using heap_run_ok [OF assms] by blast
  have "\<forall>a\<in>U. \<forall>b\<in>U. a \<noteq> b \<longrightarrow> bytes h a \<inter> bytes h b = {}" using ok heap_okD(7) by blast
  moreover have "space h U \<subseteq> {..<unat (ubrk h)}" using ok heap_okD(8) [of base h bs U] by (auto simp: space_simps)
  moreover have "\<exists>r h'. malloc base avail n h = Ok (r, h') \<and> (\<forall>b\<in>U. hsize h' b = hsize h b) \<and>
      (r \<noteq> 0 \<longrightarrow> r - HEADER \<notin> U \<and> 16 + unat n \<le> 16 * unat (hsize h' (r - HEADER)))" if "n \<le> 0x7fffffe0" for n
    using malloc_ok [OF ok that av] by (auto split: if_splits)
  moreover have "\<exists>h'. free (a + HEADER) h = Ok h' \<and> (\<forall>b\<in>U - {a}. hsize h' b = hsize h b)" if "a \<in> U" for a
  proof -
    have "heap_ok base h bs (insert a (U - {a}))" using ok that by (auto simp: insert_absorb)
    from free_block [OF this] show ?thesis by auto
  qed
  ultimately show ?thesis by blast
qed


definition sample_uheap :: uheap where
  "sample_uheap = \<lparr>hptr = (\<lambda>_. 0), hsize = (\<lambda>_. 0), freep = 0, ubrk = 0x3000\<rparr>"

theorem umalloc_safe_witness:
  "\<exists>r h'. malloc 0x2000 (\<lambda>z. z \<le> 0x20000) 100 sample_uheap = Ok (r, h') \<and> (r \<noteq> 0 \<longrightarrow> 116 \<le> 16 * unat (hsize h' (r - HEADER)))"
proof -
  have run: "heap_run 0x2000 (\<lambda>z. z \<le> 0x20000) sample_uheap {}" by (rule heap_run.start) (simp_all add: sample_uheap_def)
  have av: "\<forall>z :: u64. z \<le> 0x20000 \<longrightarrow> unat z < 2 ^ 36" by (simp add: word_le_nat_alt)
  from umalloc_safe [OF run _ av] have "\<forall>n\<le>0x7fffffe0. \<exists>r h'. malloc 0x2000 (\<lambda>z. z \<le> 0x20000) n sample_uheap = Ok (r, h') \<and>
      (r \<noteq> 0 \<longrightarrow> 16 + unat n \<le> 16 * unat (hsize h' (r - HEADER)))" by auto
  from this [rule_format, of 100] show ?thesis by auto
qed


end
