(* ===== verification/Exec.thy ===== *)
theory Exec
  imports Console
begin

text \<open>
  \<open>kernel/exec.c\<close>: replacing the memory image of a process by a program file, with the ELF headers of
  \<open>kernel/elf.h\<close>.  Headers are read into local variables, which are lists of bytes; program segments
  are read straight into physical pages.
\<close>

section \<open>Headers\<close>

definition rd64 :: "byte list \<Rightarrow> nat \<Rightarrow> u64" where
  "rd64 bs i = ucast (rd32 bs i) OR push_bit 32 (ucast (rd32 bs (i + 4)))"

definition ELF_MAGIC :: u32 where "ELF_MAGIC = 0x464C457F"
definition ELF_PROG_LOAD :: u32 where "ELF_PROG_LOAD = 1"
definition ELFHDR :: nat where "ELFHDR = 64"
definition PROGHDR :: nat where "PROGHDR = 56"
definition MAXARG :: nat where "MAXARG = 64"

record elfhdr =
  e_magic :: u32
  e_entry :: u64
  e_phoff :: u64
  e_phnum :: "16 word"

definition get_elfhdr :: "byte list \<Rightarrow> elfhdr" where
  "get_elfhdr b = \<lparr>e_magic = rd32 b 0, e_entry = rd64 b 24, e_phoff = rd64 b 32, e_phnum = rd16 b 56\<rparr>"

record proghdr =
  ph_type :: u32
  ph_flags :: u32
  ph_off :: u64
  ph_vaddr :: u64
  ph_filesz :: u64
  ph_memsz :: u64

definition get_proghdr :: "byte list \<Rightarrow> proghdr" where
  "get_proghdr b = \<lparr>ph_type = rd32 b 0, ph_flags = rd32 b 4, ph_off = rd64 b 8, ph_vaddr = rd64 b 16,
     ph_filesz = rd64 b 32, ph_memsz = rd64 b 40\<rparr>"

text \<open>\<open>readi(ip, 0, (uint64)&x, off, sizeof(x)) == sizeof(x)\<close> for a local variable \<open>x\<close>.\<close>

definition read_struct :: "nat \<Rightarrow> u32 \<Rightarrow> nat \<Rightarrow> kst \<Rightarrow> (byte list option \<times> kst) res" where
  "read_struct ip off n s =
     bindR (readi ip (DVar []) off (of_nat n) s) (\<lambda>(r, d, s).
     Ok (if r = int n then (case d of DVar bs \<Rightarrow> Some bs | _ \<Rightarrow> None) else None, s))"

definition flags2perm :: "u32 \<Rightarrow> u64" where
  "flags2perm flags =
     (let perm = (if flags AND 1 \<noteq> 0 then PTE_X else 0)
      in if flags AND 2 \<noteq> 0 then perm OR PTE_W else perm)"

section \<open>Loading\<close>

definition loadseg_turn :: "u64 \<Rightarrow> u64 \<Rightarrow> nat \<Rightarrow> u32 \<Rightarrow> u32 \<Rightarrow> u32 \<times> kst \<Rightarrow> (u32 \<times> kst, int \<times> kst) ctl res" where
  "loadseg_turn pt va ip offset siz = (\<lambda>(i, s).
     if i < siz then
       bindR (walkaddr pt (va + ucast i) (km s)) (\<lambda>pa.
       if pa = 0 then Panic ''loadseg: address should exist''
       else
         let n = (if siz - i < ucast PGSIZE then siz - i else ucast PGSIZE) in
         bindR (readi ip (DKern pa) (offset + i) n s) (\<lambda>(r, _, s).
         if word_of_int r \<noteq> n then Ok (Exit (-1, s)) else Ok (Next (i + ucast PGSIZE, s))))
     else Ok (Exit (0, s)))"

definition loadseg :: "u64 \<Rightarrow> u64 \<Rightarrow> nat \<Rightarrow> u32 \<Rightarrow> u32 \<Rightarrow> kst \<Rightarrow> (int \<times> kst) res" where
  "loadseg pt va ip offset siz s = loopR (loadseg_turn pt va ip offset siz) (0, s)"

text \<open>
  The loop over the program headers, \<open>n\<close> of which are left.  The result says whether it came to
  the end (\<open>False\<close> is \<open>goto bad\<close>) and holds the current size.
\<close>

primrec load_segs :: "nat \<Rightarrow> u64 \<Rightarrow> u64 \<Rightarrow> nat \<Rightarrow> u32 \<Rightarrow> u64 \<Rightarrow> kst \<Rightarrow> (bool \<times> u64 \<times> kst) res" where
  "load_segs 0 kend pt ip off siz s = Ok (True, siz, s)"
| "load_segs (Suc n) kend pt ip off siz s =
     bindR (read_struct ip off PROGHDR s) (\<lambda>(b, s).
     case b of None \<Rightarrow> Ok (False, siz, s)
     | Some bs \<Rightarrow>
         let ph = get_proghdr bs in
         if ph_type ph \<noteq> ELF_PROG_LOAD then load_segs n kend pt ip (off + of_nat PROGHDR) siz s
         else if ph_memsz ph < ph_filesz ph then Ok (False, siz, s)
         else if ph_vaddr ph + ph_memsz ph < ph_vaddr ph then Ok (False, siz, s)
         else if ph_vaddr ph mod PGSIZE \<noteq> 0 then Ok (False, siz, s)
         else
           bindR (onKr (uvmalloc kend pt siz (ph_vaddr ph + ph_memsz ph) (flags2perm (ph_flags ph))) s) (\<lambda>(sz1, s).
           if sz1 = 0 then Ok (False, siz, s)
           else
             bindR (loadseg pt (ph_vaddr ph) ip (ucast (ph_off ph)) (ucast (ph_filesz ph)) s) (\<lambda>(r, s).
             if r < 0 then Ok (False, sz1, s) else load_segs n kend pt ip (off + of_nat PROGHDR) sz1 s)))"

section \<open>The argument stack\<close>

text \<open>
  The loop that pushes the strings: the arguments left, the stack pointer, and the entries of
  \<open>ustack\<close> made so far.  Reading past the end of \<open>argv\<close> faults; \<open>False\<close> is \<open>goto bad\<close>.
\<close>

fun push_args :: "u64 \<Rightarrow> u64 \<Rightarrow> u64 list \<Rightarrow> u64 \<Rightarrow> u64 list \<Rightarrow> kst \<Rightarrow> (bool \<times> u64 \<times> u64 list \<times> kst) res" where
  "push_args pt stackbase [] stp us s = Fault"
| "push_args pt stackbase (a # as) stp us s =
     (if a = 0 then Ok (True, stp, us, s)
      else if length us \<ge> MAXARG then Ok (False, stp, us, s)
      else
        bindR (strlen (pmem (km s)) a) (\<lambda>l.
        let stp = stp - (scast l + 1); stp = stp - stp mod 16 in
        if stp < stackbase then Ok (False, stp, us, s)
        else
          bindR (onKr (copyout pt stp a (scast l + 1)) s) (\<lambda>(r, s).
          if r < 0 then Ok (False, stp, us, s) else push_args pt stackbase as stp (us @ [stp]) s)))"

text \<open>The part of the path after the last slash.\<close>

definition last_part :: "byte list \<Rightarrow> byte list" where
  "last_part path = foldl (\<lambda>l (i, c). if c = slash then drop (Suc i) path else l) path (enumerate 0 path)"

definition exec_bad :: "u64 \<Rightarrow> u64 \<Rightarrow> u64 \<Rightarrow> nat option \<Rightarrow> kst \<Rightarrow> (int \<times> kst) res" where
  "exec_bad kend pt siz ip s =
     bindR (if pt \<noteq> 0 then onK (proc_freepagetable kend pt siz) s else Ok s) (\<lambda>s.
     case ip of None \<Rightarrow> Ok (-1, s)
     | Some i \<Rightarrow> bindR (iunlockput i s) (\<lambda>s. bindR (end_op s) (\<lambda>s. Ok (-1, s))))"

text \<open>\<open>exec\<close> from the stack pages on, after the program file is closed.\<close>

definition exec_stack :: "u64 \<Rightarrow> u64 \<Rightarrow> u64 \<Rightarrow> elfhdr \<Rightarrow> byte list \<Rightarrow> u64 list \<Rightarrow> kst \<Rightarrow> (int \<times> kst) res" where
  "exec_stack kend pt siz elf path argv s =
     bindR (deref (myproc (sch s))) (\<lambda>p.
     let oldsz = sz (pent s p); siz = PGROUNDUP siz in
     bindR (onKr (uvmalloc kend pt siz (siz + 2 * PGSIZE) PTE_W) s) (\<lambda>(sz1, s).
     if sz1 = 0 then exec_bad kend pt siz None s
     else
       bindR (onK (uvmclear pt (sz1 - 2 * PGSIZE)) s) (\<lambda>s.
       let stackbase = sz1 - PGSIZE in
       bindR (push_args pt stackbase argv sz1 [] s) (\<lambda>(ok, stp, us, s).
       if \<not> ok then exec_bad kend pt sz1 None s
       else
         let us = us @ [0]; argc = length us - 1; stp = stp - of_nat (argc + 1) * 8; stp = stp - stp mod 16 in
         if stp < stackbase then exec_bad kend pt sz1 None s
         else
           bindR (onKr (copyout_bytes pt stp (concat (map le64 us))) s) (\<lambda>(r, s).
           if r < 0 then exec_bad kend pt sz1 None s
           else
             bindR (tf_store p TF_a1 stp s) (\<lambda>s.
             let s = updp p (\<lambda>r. r\<lparr>name := safestrcpy_arr (name r) (last_part path)\<rparr>) s;
                 oldpt = pagetable (pent s p);
                 s = updp p (\<lambda>r. r\<lparr>pagetable := pt, sz := sz1\<rparr>) s in
             bindR (tf_store p TF_epc (e_entry elf) s) (\<lambda>s.
             bindR (tf_store p TF_sp stp s) (\<lambda>s.
             bindR (onK (proc_freepagetable kend oldpt oldsz) s) (\<lambda>s.
             Ok (int argc, s))))))))))"

definition exec :: "u64 \<Rightarrow> u64 \<Rightarrow> byte list \<Rightarrow> u64 list \<Rightarrow> kst \<Rightarrow> (int \<times> kst) res" where
  "exec kend tramp path argv s =
     bindR (deref (myproc (sch s))) (\<lambda>p.
     bindR (begin_op s) (\<lambda>s.
     bindR (namei path s) (\<lambda>(ip, s).
     case ip of None \<Rightarrow> bindR (end_op s) (\<lambda>s. Ok (-1, s))
     | Some i \<Rightarrow>
         bindR (ilock ip s) (\<lambda>s.
         bindR (read_struct i 0 ELFHDR s) (\<lambda>(b, s).
         case b of None \<Rightarrow> exec_bad kend 0 0 ip s
         | Some bs \<Rightarrow>
             let elf = get_elfhdr bs in
             if e_magic elf \<noteq> ELF_MAGIC then exec_bad kend 0 0 ip s
             else
               bindR (onKr (proc_pagetable kend tramp (trapframe (pent s p))) s) (\<lambda>(pt, s).
               if pt = 0 then exec_bad kend 0 0 ip s
               else
                 bindR (load_segs (unat (e_phnum elf)) kend pt i (ucast (e_phoff elf)) 0 s) (\<lambda>(ok, siz, s).
                 if \<not> ok then exec_bad kend pt siz ip s
                 else
                   bindR (iunlockput i s) (\<lambda>s.
                   bindR (end_op s) (\<lambda>s.
                   exec_stack kend pt siz elf path argv s)))))))))"

end
