(* ===== verification/Syscall.thy ===== *)
theory Syscall
  imports Exec
begin

text \<open>
  System calls: arguments and dispatch (\<open>kernel/syscall.c\<close>), process calls (\<open>kernel/sysproc.c\<close>) and file
  calls (\<open>kernel/sysfile.c\<close>).  Arguments come from the trap frame of the current process; strings are
  copied into local buffers, which are lists of bytes without the final NUL.

  \<open>kenv\<close> holds the linker symbols and the bytes of padding in structures that are copied out.  A
  handler returns a number, goes to sleep, or (only \<open>exit\<close>) never comes back.
\<close>

record kenv =
  k_end :: u64
  k_tramp :: u64
  k_forkret :: u64
  k_pad :: "byte list"

datatype sysret = Returns int | Sleeps | Exits

definition io_ret :: "(iocall \<times> kst) res \<Rightarrow> (sysret \<times> kst) res" where
  "io_ret m = bindR m (\<lambda>(r, s). Ok (case r of Done v \<Rightarrow> Returns v | Slept _ \<Rightarrow> Sleeps, s))"

definition ret :: "(int \<times> kst) res \<Rightarrow> (sysret \<times> kst) res" where
  "ret m = bindR m (\<lambda>(r, s). Ok (Returns r, s))"

section \<open>Arguments\<close>

definition fetchaddr :: "u64 \<Rightarrow> kst \<Rightarrow> (int \<times> u64) res" where
  "fetchaddr addr s =
     bindR (deref (myproc (sch s))) (\<lambda>p.
     if addr \<ge> sz (pent s p) \<or> addr + 8 > sz (pent s p) then Ok (-1, 0)
     else
       bindR (copyin_bytes (pagetable (pent s p)) addr 8 (km s)) (\<lambda>(r, bs).
       if r \<noteq> 0 then Ok (-1, 0) else Ok (0, rd64 bs 0)))"

text \<open>\<open>copyinstr\<close> into a local buffer; the result holds the bytes before the NUL.\<close>

definition copyinstr_turn ::
  "u64 \<Rightarrow> kmem \<Rightarrow> bool \<times> byte list \<times> u64 \<times> u64 \<Rightarrow> (bool \<times> byte list \<times> u64 \<times> u64, int \<times> byte list) ctl res" where
  "copyinstr_turn pt s = (\<lambda>(got_null, acc, srcva, mx).
     if \<not> got_null \<and> mx > 0 then
       let va0 = PGROUNDDOWN srcva in
       bindR (walkaddr pt va0 s) (\<lambda>pa0.
       if pa0 = 0 then Ok (Exit (-1, acc))
       else
         let n = PGSIZE - (srcva - va0);
             n = (if n > mx then mx else n);
             chunk = bytes_at (pmem s) (pa0 + (srcva - va0)) (unat n);
             t = takeWhile (\<lambda>b. b \<noteq> 0) chunk
         in Ok (Next (length t < unat n, acc @ t, va0 + PGSIZE, mx - of_nat (length t))))
     else Ok (Exit (if got_null then 0 else -1, acc)))"

definition copyinstr_bytes :: "u64 \<Rightarrow> u64 \<Rightarrow> u64 \<Rightarrow> kmem \<Rightarrow> (int \<times> byte list) res" where
  "copyinstr_bytes pt srcva mx s = loopR (copyinstr_turn pt s) (False, [], srcva, mx)"

definition fetchstr :: "u64 \<Rightarrow> nat \<Rightarrow> kst \<Rightarrow> (int \<times> byte list) res" where
  "fetchstr addr mx s =
     bindR (deref (myproc (sch s))) (\<lambda>p.
     bindR (copyinstr_bytes (pagetable (pent s p)) addr (of_nat mx) (km s)) (\<lambda>(r, buf).
     if r < 0 then Ok (-1, buf) else Ok (int (length buf), buf)))"

definition argraw :: "nat \<Rightarrow> kst \<Rightarrow> u64 res" where
  "argraw n s =
     bindR (deref (myproc (sch s))) (\<lambda>p.
     if n \<le> 5 then tf_load p (TF_a0 + 8 * of_nat n) s else Panic ''argraw'')"

definition argint :: "nat \<Rightarrow> kst \<Rightarrow> int res" where
  "argint n s = bindR (argraw n s) (\<lambda>a. Ok (sint (ucast a :: u32)))"

definition argaddr :: "nat \<Rightarrow> kst \<Rightarrow> u64 res" where
  "argaddr n s = argraw n s"

definition MAXPATH :: nat where "MAXPATH = 128"

definition argstr :: "nat \<Rightarrow> nat \<Rightarrow> kst \<Rightarrow> (int \<times> byte list) res" where
  "argstr n mx s = bindR (argaddr n s) (\<lambda>addr. fetchstr addr mx s)"

text \<open>The descriptor and its file, or \<open>None\<close> for the result -1.\<close>

definition argfd :: "nat \<Rightarrow> kst \<Rightarrow> (nat \<times> nat) option res" where
  "argfd n s =
     bindR (argint n s) (\<lambda>fd.
     bindR (deref (myproc (sch s))) (\<lambda>p.
     if fd < 0 \<or> fd \<ge> int NOFILE then Ok None
     else Ok (map_option (Pair (nat fd)) (ofile (pent s p) ! nat fd))))"

definition fdalloc :: "nat \<Rightarrow> kst \<Rightarrow> (int \<times> kst) res" where
  "fdalloc f s =
     bindR (deref (myproc (sch s))) (\<lambda>p.
     case find (\<lambda>fd. ofile (pent s p) ! fd = None) [0..<NOFILE] of
       None \<Rightarrow> Ok (-1, s)
     | Some fd \<Rightarrow> Ok (int fd, updp p (\<lambda>r. r\<lparr>ofile := (ofile r)[fd := Some f]\<rparr>) s))"

text \<open>\<open>myproc()->ofile[fd] = 0\<close>.\<close>

definition drop_fd :: "nat \<Rightarrow> kst \<Rightarrow> kst res" where
  "drop_fd fd s = bindR (deref (myproc (sch s))) (\<lambda>p. Ok (updp p (\<lambda>r. r\<lparr>ofile := (ofile r)[fd := None]\<rparr>) s))"

section \<open>Process calls\<close>

definition sys_exit :: "kenv \<Rightarrow> kst \<Rightarrow> (sysret \<times> kst) res" where
  "sys_exit e s = bindR (argint 0 s) (\<lambda>n. bindR (exit (k_end e) (word_of_int n) s) (\<lambda>s. Ok (Exits, s)))"

definition sys_getpid :: "kst \<Rightarrow> (int \<times> kst) res" where
  "sys_getpid s = bindR (deref (myproc (sch s))) (\<lambda>p. Ok (sint (pid (pent s p)), s))"

definition sys_fork :: "kenv \<Rightarrow> kst \<Rightarrow> (int \<times> kst) res" where
  "sys_fork e s =
     bindR (mycont (sch s)) (\<lambda>cp.
     bindR (deref cp) (\<lambda>c. fork (k_end e) (k_tramp e) (k_forkret e) c s))"

definition sys_wait :: "kenv \<Rightarrow> kst \<Rightarrow> (iocall \<times> kst) res" where
  "sys_wait e s = bindR (argaddr 0 s) (\<lambda>p. wait (k_end e) p s)"

definition sys_sbrk :: "kenv \<Rightarrow> kst \<Rightarrow> (int \<times> kst) res" where
  "sys_sbrk e s =
     bindR (argint 0 s) (\<lambda>n.
     bindR (deref (myproc (sch s))) (\<lambda>p.
     let addr = sz (pent s p) in
     bindR (growproc (k_end e) n s) (\<lambda>(r, s).
     if r < 0 then Ok (-1, s) else Ok (uint addr, s))))"

text \<open>
  \<open>sys_sleep\<close> from the test of its loop on.  The comparison is unsigned: a negative count is a very
  long time.
\<close>

definition sys_sleep_loop :: "u32 \<Rightarrow> u32 \<Rightarrow> kst \<Rightarrow> (iocall \<times> kst) res" where
  "sys_sleep_loop ticks0 n s =
     (if ticks (sch s) - ticks0 < n then
        bindR (deref (myproc (sch s))) (\<lambda>p.
        bindR (kkilled p s) (\<lambda>(dead, s).
        if dead then bindR (krelease LkTicks s) (\<lambda>s. Ok (Done (-1), s))
        else bindR (onS (sleep ChTicks LkTicks) s) (\<lambda>s. Ok (Slept 0, s))))
      else bindR (krelease LkTicks s) (\<lambda>s. Ok (Done 0, s)))"

definition sys_sleep :: "kst \<Rightarrow> (iocall \<times> kst) res" where
  "sys_sleep s =
     bindR (argint 0 s) (\<lambda>n.
     bindR (kacquire LkTicks s) (\<lambda>s.
     sys_sleep_loop (ticks (sch s)) (word_of_int n) s))"

definition sys_sleep_resume :: "u32 \<Rightarrow> u32 \<Rightarrow> kst \<Rightarrow> (iocall \<times> kst) res" where
  "sys_sleep_resume ticks0 n s = bindR (onS (sleep_resume LkTicks) s) (sys_sleep_loop ticks0 n)"

definition sys_kill :: "kst \<Rightarrow> (int \<times> kst) res" where
  "sys_kill s = bindR (argint 0 s) (\<lambda>n. onSr (kill (word_of_int n)) s)"

definition sys_uptime :: "kst \<Rightarrow> (int \<times> kst) res" where
  "sys_uptime s =
     bindR (kacquire LkTicks s) (\<lambda>s.
     let xticks = ticks (sch s) in
     bindR (krelease LkTicks s) (\<lambda>s. Ok (uint xticks, s)))"

definition sys_sbrksz :: "kst \<Rightarrow> (int \<times> kst) res" where
  "sys_sbrksz s = bindR (deref (myproc (sch s))) (\<lambda>p. Ok (uint (sz (pent s p)), s))"

text \<open>
  A \<open>copyin\<close> that fails on the second page has already copied the part on the first page; the bytes
  it copied are the list that \<open>copyin_bytes\<close> returns.
\<close>

definition sys_sname :: "kst \<Rightarrow> (int \<times> kst) res" where
  "sys_sname s =
     bindR (argaddr 0 s) (\<lambda>name_p.
     bindR (deref (myproc (sch s))) (\<lambda>p.
     bindR (copyin_bytes (pagetable (pent s p)) name_p 16 (km s)) (\<lambda>(r, bs).
     Ok (if r < 0 then -1 else 0, updp p (\<lambda>x. x\<lparr>name := bs @ drop (length bs) (name x)\<rparr>) s))))"

definition sys_sproc :: "kenv \<Rightarrow> kst \<Rightarrow> (int \<times> kst) res" where
  "sys_sproc e s =
     bindR (argint 0 s) (\<lambda>slt.
     bindR (argaddr 1 s) (\<lambda>up_p. sproc (k_pad e) slt up_p s))"

definition sys_consw :: "kst \<Rightarrow> (int \<times> kst) res" where
  "sys_consw s = bindR (argint 0 s) (\<lambda>consnum. bindR (consw consnum s) (\<lambda>s. Ok (0, s)))"

definition sys_cfork :: "kenv \<Rightarrow> kst \<Rightarrow> (int \<times> kst) res" where
  "sys_cfork e s =
     bindR (argstr 0 16 s) (\<lambda>(n, cname).
     if n < 0 then Ok (-1, s)
     else
       bindR (argint 1 s) (\<lambda>max_mem.
       bindR (argstr 2 MAXPATH s) (\<lambda>(n, crootdir).
       if n < 0 then Ok (-1, s)
       else
         bindR (argint 3 s) (\<lambda>max_disk.
         cfork (k_end e) (k_tramp e) (k_forkret e) cname (word_of_int max_mem) crootdir (word_of_int max_disk) s))))"

definition sys_cinfo :: "kst \<Rightarrow> (int \<times> kst) res" where
  "sys_cinfo s = bindR (argaddr 0 s) (\<lambda>up_p. cinfo up_p s)"

section \<open>File calls on descriptors\<close>

definition sys_dup :: "kst \<Rightarrow> (int \<times> kst) res" where
  "sys_dup s =
     bindR (argfd 0 s) (\<lambda>a.
     case a of None \<Rightarrow> Ok (-1, s)
     | Some (_, f) \<Rightarrow>
         bindR (fdalloc f s) (\<lambda>(fd, s).
         if fd < 0 then Ok (-1, s) else bindR (filedup f s) (\<lambda>(_, s). Ok (fd, s))))"

definition sys_read :: "kst \<Rightarrow> (iocall \<times> kst) res" where
  "sys_read s =
     bindR (argaddr 1 s) (\<lambda>p.
     bindR (argint 2 s) (\<lambda>n.
     bindR (argfd 0 s) (\<lambda>a.
     case a of None \<Rightarrow> Ok (Done (-1), s) | Some (_, f) \<Rightarrow> fileread kdevsw f p n s)))"

definition sys_write :: "kst \<Rightarrow> (iocall \<times> kst) res" where
  "sys_write s =
     bindR (argaddr 1 s) (\<lambda>p.
     bindR (argint 2 s) (\<lambda>n.
     bindR (argfd 0 s) (\<lambda>a.
     case a of None \<Rightarrow> Ok (Done (-1), s) | Some (_, f) \<Rightarrow> filewrite kdevsw f p n s)))"

definition sys_close :: "kenv \<Rightarrow> kst \<Rightarrow> (int \<times> kst) res" where
  "sys_close e s =
     bindR (argfd 0 s) (\<lambda>a.
     case a of None \<Rightarrow> Ok (-1, s)
     | Some (fd, f) \<Rightarrow>
         bindR (drop_fd fd s) (\<lambda>s.
         bindR (fileclose (k_end e) f s) (\<lambda>s. Ok (0, s))))"

definition sys_fstat :: "kenv \<Rightarrow> kst \<Rightarrow> (int \<times> kst) res" where
  "sys_fstat e s =
     bindR (argaddr 1 s) (\<lambda>st.
     bindR (argfd 0 s) (\<lambda>a.
     case a of None \<Rightarrow> Ok (-1, s) | Some (_, f) \<Rightarrow> filestat (k_pad e) f st s))"

section \<open>Links and names\<close>

text \<open>\<open>ip->nlink\<close> changed and written back, for a locked inode.\<close>

definition add_nlink :: "nat \<Rightarrow> 16 word \<Rightarrow> kst \<Rightarrow> kst res" where
  "add_nlink ip d s = iupdate ip (upd_inode ip (\<lambda>r. r\<lparr>i_nlink := i_nlink r + d\<rparr>) s)"

text \<open>\<open>end_op(); return -1;\<close>\<close>

definition fail_op :: "kst \<Rightarrow> (int \<times> kst) res" where
  "fail_op s = bindR (end_op s) (\<lambda>s. Ok (-1, s))"

definition link_bad :: "nat \<Rightarrow> kst \<Rightarrow> (int \<times> kst) res" where
  "link_bad ip s =
     bindR (ilock (Some ip) s) (\<lambda>s.
     bindR (add_nlink ip (-1) s) (\<lambda>s.
     bindR (iunlockput ip s) fail_op))"

definition sys_link :: "kst \<Rightarrow> (int \<times> kst) res" where
  "sys_link s =
     bindR (argstr 0 MAXPATH s) (\<lambda>(n0, old).
     if n0 < 0 then Ok (-1, s)
     else
       bindR (argstr 1 MAXPATH s) (\<lambda>(n1, new).
       if n1 < 0 then Ok (-1, s)
       else
         bindR (begin_op s) (\<lambda>s.
         bindR (namei old s) (\<lambda>(ip, s).
         case ip of None \<Rightarrow> fail_op s
         | Some i \<Rightarrow>
             bindR (ilock ip s) (\<lambda>s.
             if i_type (inodes s i) = T_DIR then bindR (iunlockput i s) fail_op
             else
               bindR (add_nlink i 1 s) (\<lambda>s.
               bindR (iunlock ip s) (\<lambda>s.
               bindR (nameiparent new (replicate DIRSIZ 0) s) (\<lambda>(dp, nm, s).
               case dp of None \<Rightarrow> link_bad i s
               | Some d \<Rightarrow>
                   bindR (ilock dp s) (\<lambda>s.
                   bindR (if i_dev (inodes s d) \<noteq> i_dev (inodes s i) then Ok (-1, s)
                          else dirlink d nm (i_num (inodes s i)) s) (\<lambda>(r, s).
                   if r < 0 then bindR (iunlockput d s) (link_bad i)
                   else
                     bindR (iunlockput d s) (\<lambda>s.
                     bindR (iput i s) (\<lambda>s.
                     bindR (end_op s) (\<lambda>s. Ok (0, s))))))))))))))"

definition isdirempty_turn :: "nat \<Rightarrow> u32 \<times> kst \<Rightarrow> (u32 \<times> kst, bool \<times> kst) ctl res" where
  "isdirempty_turn dp = (\<lambda>(off, s).
     if off < i_size (inodes s dp) then
       bindR (read_dirent ''isdirempty: readi'' dp off s) (\<lambda>(de, s).
       if de_inum de \<noteq> 0 then Ok (Exit (False, s)) else Ok (Next (off + of_nat DIRENT, s)))
     else Ok (Exit (True, s)))"

definition isdirempty :: "nat \<Rightarrow> kst \<Rightarrow> (bool \<times> kst) res" where
  "isdirempty dp s = loopR (isdirempty_turn dp) (2 * of_nat DIRENT, s)"

text \<open>The names \<open>.\<close> and \<open>..\<close>.\<close>

definition dot_name :: "byte list" where "dot_name = [46]"
definition dotdot_name :: "byte list" where "dotdot_name = [46, 46]"

definition unlink_bad :: "nat \<Rightarrow> kst \<Rightarrow> (int \<times> kst) res" where
  "unlink_bad dp s = bindR (iunlockput dp s) fail_op"

definition sys_unlink :: "kst \<Rightarrow> (int \<times> kst) res" where
  "sys_unlink s =
     bindR (argstr 0 MAXPATH s) (\<lambda>(n, path).
     if n < 0 then Ok (-1, s)
     else
       bindR (begin_op s) (\<lambda>s.
       bindR (nameiparent path (replicate DIRSIZ 0) s) (\<lambda>(dp, nm, s).
       case dp of None \<Rightarrow> fail_op s
       | Some d \<Rightarrow>
           bindR (ilock dp s) (\<lambda>s.
           if namecmp nm dot_name = 0 \<or> namecmp nm dotdot_name = 0 then unlink_bad d s
           else
             bindR (dirlookup d nm s) (\<lambda>(ip, off, s).
             case ip of None \<Rightarrow> unlink_bad d s
             | Some i \<Rightarrow>
                 bindR (ilock ip s) (\<lambda>s.
                 if sint (i_nlink (inodes s i)) < 1 then Panic ''unlink: nlink < 1''
                 else
                   bindR (if i_type (inodes s i) = T_DIR then isdirempty i s else Ok (True, s)) (\<lambda>(em, s).
                   if \<not> em then bindR (iunlockput i s) (unlink_bad d)
                   else
                     bindR (writei d (SVar (replicate DIRENT 0)) off (of_nat DIRENT) s) (\<lambda>(r, s).
                     if r \<noteq> int DIRENT then Panic ''unlink: writei''
                     else
                       bindR (if i_type (inodes s i) = T_DIR then add_nlink d (-1) s else Ok s) (\<lambda>s.
                       bindR (iunlockput d s) (\<lambda>s.
                       bindR (add_nlink i (-1) s) (\<lambda>s.
                       bindR (iunlockput i s) (\<lambda>s.
                       bindR (end_op s) (\<lambda>s. Ok (0, s))))))))))))))"

section \<open>Creating and opening\<close>

definition create_fail :: "nat \<Rightarrow> nat \<Rightarrow> kst \<Rightarrow> (nat option \<times> kst) res" where
  "create_fail ip dp s =
     bindR (iupdate ip (upd_inode ip (\<lambda>r. r\<lparr>i_nlink := 0\<rparr>) s)) (\<lambda>s.
     bindR (iunlockput ip s) (\<lambda>s.
     bindR (iunlockput dp s) (\<lambda>s. Ok (None, s))))"

definition create :: "byte list \<Rightarrow> 16 word \<Rightarrow> 16 word \<Rightarrow> 16 word \<Rightarrow> kst \<Rightarrow> (nat option \<times> kst) res" where
  "create path ty mj mn s =
     bindR (nameiparent path (replicate DIRSIZ 0) s) (\<lambda>(dp, nm, s).
     case dp of None \<Rightarrow> Ok (None, s)
     | Some d \<Rightarrow>
         bindR (ilock dp s) (\<lambda>s.
         bindR (dirlookup d nm s) (\<lambda>(ip, _, s).
         case ip of
           Some i \<Rightarrow>
             bindR (iunlockput d s) (\<lambda>s.
             bindR (ilock ip s) (\<lambda>s.
             if ty = T_FILE \<and> (i_type (inodes s i) = T_FILE \<or> i_type (inodes s i) = T_DEVICE) then Ok (ip, s)
             else bindR (iunlockput i s) (\<lambda>s. Ok (None, s))))
         | None \<Rightarrow>
             bindR (ialloc (i_dev (inodes s d)) ty s) (\<lambda>(ip, s).
             case ip of None \<Rightarrow> bindR (iunlockput d s) (\<lambda>s. Ok (None, s))
             | Some i \<Rightarrow>
                 bindR (ilock ip s) (\<lambda>s.
                 bindR (iupdate i (upd_inode i (\<lambda>r. r\<lparr>i_major := mj, i_minor := mn, i_nlink := 1\<rparr>) s)) (\<lambda>s.
                 bindR (if ty = T_DIR then
                          bindR (dirlink i dot_name (i_num (inodes s i)) s) (\<lambda>(r, s).
                          if r < 0 then Ok (False, s)
                          else bindR (dirlink i dotdot_name (i_num (inodes s d)) s) (\<lambda>(r, s). Ok (r \<ge> 0, s)))
                        else Ok (True, s)) (\<lambda>(ok, s).
                 if \<not> ok then create_fail i d s
                 else
                   bindR (dirlink d nm (i_num (inodes s i)) s) (\<lambda>(r, s).
                   if r < 0 then create_fail i d s
                   else
                     bindR (if ty = T_DIR then add_nlink d 1 s else Ok s) (\<lambda>s.
                     bindR (iunlockput d s) (\<lambda>s. Ok (ip, s)))))))))))"

definition O_RDONLY :: u32 where "O_RDONLY = 0"
definition O_WRONLY :: u32 where "O_WRONLY = 1"
definition O_RDWR :: u32 where "O_RDWR = 2"
definition O_CREATE :: u32 where "O_CREATE = 0x200"
definition O_TRUNC :: u32 where "O_TRUNC = 0x400"

text \<open>
  \<open>sys_open\<close> in three parts: finding the inode, which comes back locked; checking it; and filling in
  a file entry and a descriptor for it.
\<close>

definition open_inode :: "u32 \<Rightarrow> byte list \<Rightarrow> kst \<Rightarrow> (nat option \<times> kst) res" where
  "open_inode omode path s =
     (if omode AND O_CREATE \<noteq> 0 then create path T_FILE 0 0 s
      else
        bindR (namei path s) (\<lambda>(ip, s).
        case ip of None \<Rightarrow> Ok (None, s)
        | Some i \<Rightarrow>
            bindR (ilock ip s) (\<lambda>s.
            if i_type (inodes s i) = T_DIR \<and> omode \<noteq> O_RDONLY then bindR (iunlockput i s) (\<lambda>s. Ok (None, s))
            else Ok (ip, s))))"

definition open_file :: "kenv \<Rightarrow> u32 \<Rightarrow> nat \<Rightarrow> kst \<Rightarrow> (int \<times> kst) res" where
  "open_file e omode i s =
     bindR (filealloc s) (\<lambda>(f, s).
     case f of None \<Rightarrow> bindR (iunlockput i s) fail_op
     | Some f \<Rightarrow>
         bindR (fdalloc f s) (\<lambda>(fd, s).
         if fd < 0 then
           bindR (fileclose (k_end e) f s) (\<lambda>s.
           bindR (iunlockput i s) fail_op)
         else
           let r = inodes s i;
               s = (if i_type r = T_DEVICE
                    then upd_file f (\<lambda>x. x\<lparr>f_type := FD_DEVICE, f_major := i_major r, f_minor := i_minor r\<rparr>) s
                    else upd_file f (\<lambda>x. x\<lparr>f_type := FD_INODE, f_off := 0\<rparr>) s);
               s = upd_file f (\<lambda>x. x\<lparr>f_ip := Some i, f_readable := (omode AND O_WRONLY = 0),
                                     f_writable := (omode AND O_WRONLY \<noteq> 0 \<or> omode AND O_RDWR \<noteq> 0)\<rparr>) s in
           bindR (if omode AND O_TRUNC \<noteq> 0 \<and> i_type r = T_FILE then itrunc i s else Ok s) (\<lambda>s.
           bindR (iunlock (Some i) s) (\<lambda>s.
           bindR (end_op s) (\<lambda>s. Ok (fd, s))))))"

definition sys_open :: "kenv \<Rightarrow> kst \<Rightarrow> (int \<times> kst) res" where
  "sys_open e s =
     bindR (argint 1 s) (\<lambda>om.
     let omode = word_of_int om in
     bindR (argstr 0 MAXPATH s) (\<lambda>(n, path).
     if n < 0 then Ok (-1, s)
     else
       bindR (begin_op s) (\<lambda>s.
       bindR (open_inode omode path s) (\<lambda>(ip, s).
       case ip of None \<Rightarrow> fail_op s
       | Some i \<Rightarrow>
           if i_type (inodes s i) = T_DEVICE \<and> (sint (i_major (inodes s i)) < 0 \<or> sint (i_major (inodes s i)) \<ge> NDEV)
           then bindR (iunlockput i s) fail_op
           else open_file e omode i s))))"

definition sys_mkdir :: "kst \<Rightarrow> (int \<times> kst) res" where
  "sys_mkdir s =
     bindR (begin_op s) (\<lambda>s.
     bindR (argstr 0 MAXPATH s) (\<lambda>(n, path).
     if n < 0 then fail_op s
     else
       bindR (create path T_DIR 0 0 s) (\<lambda>(ip, s).
       case ip of None \<Rightarrow> fail_op s
       | Some i \<Rightarrow> bindR (iunlockput i s) (\<lambda>s. bindR (end_op s) (\<lambda>s. Ok (0, s))))))"

definition sys_mknod :: "kst \<Rightarrow> (int \<times> kst) res" where
  "sys_mknod s =
     bindR (begin_op s) (\<lambda>s.
     bindR (argint 1 s) (\<lambda>mj.
     bindR (argint 2 s) (\<lambda>mn.
     bindR (argstr 0 MAXPATH s) (\<lambda>(n, path).
     if n < 0 then fail_op s
     else
       bindR (create path T_DEVICE (word_of_int mj) (word_of_int mn) s) (\<lambda>(ip, s).
       case ip of None \<Rightarrow> fail_op s
       | Some i \<Rightarrow> bindR (iunlockput i s) (\<lambda>s. bindR (end_op s) (\<lambda>s. Ok (0, s))))))))"

definition sys_chdir :: "kst \<Rightarrow> (int \<times> kst) res" where
  "sys_chdir s =
     bindR (deref (myproc (sch s))) (\<lambda>p.
     bindR (begin_op s) (\<lambda>s.
     bindR (argstr 0 MAXPATH s) (\<lambda>(n, path).
     if n < 0 then fail_op s
     else
       bindR (namei path s) (\<lambda>(ip, s).
       case ip of None \<Rightarrow> fail_op s
       | Some i \<Rightarrow>
           bindR (ilock ip s) (\<lambda>s.
           if i_type (inodes s i) \<noteq> T_DIR then bindR (iunlockput i s) fail_op
           else
             bindR (iunlock ip s) (\<lambda>s.
             bindR (deref (cwd (pent s p))) (\<lambda>d.
             bindR (iput d s) (\<lambda>s.
             bindR (end_op s) (\<lambda>s.
             Ok (0, updp p (\<lambda>r. r\<lparr>cwd := ip\<rparr>) s))))))))))"

section \<open>Programs and pipes\<close>

text \<open>
  The argument loop of \<open>sys_exec\<close> with \<open>n\<close> entries of \<open>argv\<close> left: the pages with the strings so far,
  and whether the loop ended at a null pointer (\<open>False\<close> is \<open>goto bad\<close>).  \<open>fetchstr\<close> copies into the page.
\<close>

primrec fetch_args :: "nat \<Rightarrow> u64 \<Rightarrow> u64 list \<Rightarrow> kst \<Rightarrow> (bool \<times> u64 list \<times> kst) res" where
  "fetch_args 0 uargv argv s = Ok (False, argv, s)"
| "fetch_args (Suc n) uargv argv s =
     bindR (fetchaddr uargv s) (\<lambda>(r, uarg).
     if r < 0 then Ok (False, argv, s)
     else if uarg = 0 then Ok (True, argv, s)
     else
       let (pa, m) = kalloc (km s); s = s\<lparr>km := m\<rparr> in
       if pa = 0 then Ok (False, argv, s)
       else
         bindR (deref (myproc (sch s))) (\<lambda>p.
         bindR (onKr (copyinstr (pagetable (pent s p)) pa uarg PGSIZE) s) (\<lambda>(r, s).
         if r < 0 then Ok (False, argv @ [pa], s)
         else fetch_args n (uargv + 8) (argv @ [pa]) s)))"

definition free_args :: "u64 \<Rightarrow> u64 list \<Rightarrow> kst \<Rightarrow> kst res" where
  "free_args kend argv s = forR (\<lambda>i. onK (kfree kend (argv ! i))) [0..<length argv] s"

definition sys_exec :: "kenv \<Rightarrow> kst \<Rightarrow> (int \<times> kst) res" where
  "sys_exec e s =
     bindR (argaddr 1 s) (\<lambda>uargv.
     bindR (argstr 0 MAXPATH s) (\<lambda>(n, path).
     if n < 0 then Ok (-1, s)
     else
       bindR (fetch_args MAXARG uargv [] s) (\<lambda>(ok, argv, s).
       if \<not> ok then bindR (free_args (k_end e) argv s) (\<lambda>s. Ok (-1, s))
       else
         bindR (exec (k_end e) (k_tramp e) path (argv @ replicate (MAXARG - length argv) 0) s) (\<lambda>(r, s).
         bindR (free_args (k_end e) argv s) (\<lambda>s. Ok (r, s))))))"

definition close_both :: "u64 \<Rightarrow> nat \<Rightarrow> nat \<Rightarrow> kst \<Rightarrow> (int \<times> kst) res" where
  "close_both kend rfile wfile s = bindR (fileclose kend rfile s) (\<lambda>s. bindR (fileclose kend wfile s) (\<lambda>s. Ok (-1, s)))"

definition sys_pipe :: "kenv \<Rightarrow> kst \<Rightarrow> (int \<times> kst) res" where
  "sys_pipe e s =
     bindR (deref (myproc (sch s))) (\<lambda>p.
     bindR (argaddr 0 s) (\<lambda>fdarray.
     bindR (pipealloc (k_end e) s) (\<lambda>(fs, s).
     case fs of None \<Rightarrow> Ok (-1, s)
     | Some (rfile, wfile) \<Rightarrow>
         bindR (fdalloc rfile s) (\<lambda>(fd0, s).
         if fd0 < 0 then close_both (k_end e) rfile wfile s
         else
           bindR (fdalloc wfile s) (\<lambda>(fd1, s).
           if fd1 < 0 then bindR (drop_fd (nat fd0) s) (close_both (k_end e) rfile wfile)
           else
             bindR (onKr (copyout_bytes (pagetable (pent s p)) fdarray (le32 (word_of_int fd0))) s) (\<lambda>(r0, s).
             bindR (if r0 < 0 then Ok (-1, s)
                    else onKr (copyout_bytes (pagetable (pent s p)) (fdarray + 4) (le32 (word_of_int fd1))) s) (\<lambda>(r1, s).
             if r1 < 0 then
               bindR (drop_fd (nat fd0) s) (\<lambda>s.
               bindR (drop_fd (nat fd1) s) (close_both (k_end e) rfile wfile))
             else Ok (0, s))))))))"

definition sys_pipec :: "kst \<Rightarrow> (int \<times> kst) res" where
  "sys_pipec s =
     bindR (argfd 0 s) (\<lambda>a.
     case a of None \<Rightarrow> Ok (-1, s)
     | Some (_, f) \<Rightarrow> Ok (if f_type (files s f) \<noteq> FD_PIPE then -1 else pipecount (f_pipe (files s f)) s, s))"

section \<open>Dispatch\<close>

text \<open>The table \<open>syscalls\<close>, with the numbers of \<open>kernel/syscall.h\<close>.  It has no entry for \<open>SYS_pipec\<close> (23).\<close>

definition SYS_pipec :: nat where "SYS_pipec = 23"

definition syscalls :: "kenv \<Rightarrow> (nat \<times> (kst \<Rightarrow> (sysret \<times> kst) res)) list" where
  "syscalls e =
    [(1, ret \<circ> sys_fork e),
     (2, sys_exit e),
     (3, io_ret \<circ> sys_wait e),
     (4, ret \<circ> sys_pipe e),
     (5, io_ret \<circ> sys_read),
     (6, ret \<circ> sys_kill),
     (7, ret \<circ> sys_exec e),
     (8, ret \<circ> sys_fstat e),
     (9, ret \<circ> sys_chdir),
     (10, ret \<circ> sys_dup),
     (11, ret \<circ> sys_getpid),
     (12, ret \<circ> sys_sbrk e),
     (13, io_ret \<circ> sys_sleep),
     (14, ret \<circ> sys_uptime),
     (15, ret \<circ> sys_open e),
     (16, io_ret \<circ> sys_write),
     (17, ret \<circ> sys_mknod),
     (18, ret \<circ> sys_unlink),
     (19, ret \<circ> sys_link),
     (20, ret \<circ> sys_mkdir),
     (21, ret \<circ> sys_close e),
     (22, ret \<circ> sys_sbrksz),
     (24, ret \<circ> sys_sname),
     (25, ret \<circ> sys_sproc e),
     (26, ret \<circ> sys_consw),
     (27, ret \<circ> sys_cfork e),
     (28, ret \<circ> sys_cinfo)]"

definition unknown_text :: "byte list" where
  "unknown_text = asc ''%d %s: unknown sys call %d'' @ [10]"

text \<open>\<open>syscall\<close>; when the handler returns its value goes into \<open>a0\<close>.\<close>

definition syscall :: "kenv \<Rightarrow> kst \<Rightarrow> (sysret \<times> kst) res" where
  "syscall e s =
     bindR (deref (myproc (sch s))) (\<lambda>p.
     bindR (tf_load p TF_a7 s) (\<lambda>a7.
     let num = sint (ucast a7 :: u32) in
     case (if num > 0 then map_of (syscalls e) (nat num) else None) of
       Some h \<Rightarrow>
         bindR (h s) (\<lambda>(r, s).
         case r of Returns v \<Rightarrow> bindR (tf_store p TF_a0 (word_of_int v) s) (\<lambda>s. Ok (r, s)) | _ \<Rightarrow> Ok (r, s))
     | None \<Rightarrow>
         bindR (printf unknown_text [PInt (pid (pent s p)), PStr (Some (name (pent s p))), PInt (word_of_int num)] s) (\<lambda>s.
         bindR (tf_store p TF_a0 (-1) s) (\<lambda>s. Ok (Returns (-1), s)))))"

section \<open>Unknown calls\<close>

lemma known_calls: "map_of (syscalls e) n \<noteq> None \<longleftrightarrow> 1 \<le> n \<and> n \<le> 28 \<and> n \<noteq> SYS_pipec"
proof -
  have "map_of (syscalls e) n \<noteq> None \<longleftrightarrow> n \<in> fst ` set (syscalls e)" by (metis domIff dom_map_of_conv_image_fst)
  also have "\<dots> \<longleftrightarrow> n \<in> {1, 2, 3, 4, 5, 6, 7, 8, 9, 10, 11, 12, 13, 14, 15, 16, 17, 18, 19, 20, 21, 22, 24, 25, 26, 27, 28}"
    by (simp only: syscalls_def list.simps image_insert image_empty fst_conv)
  also have "\<dots> \<longleftrightarrow> 1 \<le> n \<and> n \<le> 28 \<and> n \<noteq> SYS_pipec"
    by (simp only: insert_iff empty_iff SYS_pipec_def) presburger
  finally show ?thesis .
qed

text \<open>The message for an unknown call.\<close>

definition unknown_message :: "proc \<Rightarrow> int \<Rightarrow> byte list" where
  "unknown_message r num =
     printint (pid r) 10 True @ [32] @ takeWhile (\<lambda>b. b \<noteq> 0) (name r) @ asc '': unknown sys call '' @ printint (word_of_int num) 10 True @ [10]"

lemma unknown_format:
  "format_text unknown_text [PInt (pid r), PStr (Some (name r)), PInt (word_of_int num)] = Ok (unknown_message r num)"
  by (simp add: unknown_text_def asc_def conversion_def unknown_message_def)

definition set_a0 :: "nat \<Rightarrow> u64 \<Rightarrow> kst \<Rightarrow> kst" where
  "set_a0 p v s = s\<lparr>km := (km s)\<lparr>pmem := store64 (pmem (km s)) (trapframe (pent s p) + TF_a0) v\<rparr>\<rparr>"

text \<open>
  A call number outside the table, which is every number but 1 to 28 and also 23, \<open>SYS_pipec\<close>, prints
  a message, puts -1 into \<open>a0\<close> and does nothing else.  So the system call \<open>pipec\<close>, although it is
  implemented and has a number and a user stub, cannot be made.
\<close>

theorem syscall_unknown:
  assumes cur: "curproc (sch s) = Some p" and tf: "trapframe (pent s p) \<noteq> 0"
    and num: "num = sint (ucast (load64 (pmem (km s)) (trapframe (pent s p) + TF_a7)) :: u32)"
    and bad: "num < 1 \<or> 28 < num \<or> num = int SYS_pipec"
    and pr: "LkPr \<notin> set (held (sch s))" "length (unknown_message (pent s p) num) \<le> thr_room (uart s)"
  shows "syscall e s = Ok (Returns (-1), set_a0 p (-1) (put_out (unknown_message (pent s p) num) s))"
proof -
  have none: "(if num > 0 then map_of (syscalls e) (nat num) else None) = None"
    using known_calls [of e "nat num"] bad by auto
  have "printf unknown_text [PInt (pid (pent s p)), PStr (Some (name (pent s p))), PInt (word_of_int num)] s
      = Ok (put_out (unknown_message (pent s p) num) s)"
    by (rule printf_ready [OF pr(1) unknown_format pr(2)])
  moreover have "tf_store p TF_a0 (-1) (put_out m s) = Ok (set_a0 p (-1) (put_out m s))" for m
    using tf by (simp add: tf_store_def set_a0_def pent_def)
  moreover have "tf_load p TF_a7 s = Ok (load64 (pmem (km s)) (trapframe (pent s p) + TF_a7))" using tf by (simp add: tf_load_def)
  ultimately show ?thesis
    using cur none by (simp only: syscall_def myproc_def deref_def option.case bindR.simps Let_def num [symmetric])
qed

theorem syscall_unknown_witness:
  "\<exists>s t. load64 (pmem (km s)) (trapframe (pent s 0) + TF_a7) = of_nat SYS_pipec \<and>
     syscall \<lparr>k_end = 0, k_tramp = 0, k_forkret = 0, k_pad = []\<rparr> s = Ok (Returns (-1), t)"
proof -
  define r where "r = (procs (sample_sst (\<lambda>_. undefined)) 0)\<lparr>trapframe := 0x80007000\<rparr>"
  define s where "s = (sample_kst (\<lambda>_. undefined))\<lparr>sch := (sample_sst (\<lambda>_. undefined))\<lparr>procs := (\<lambda>_. r)\<rparr>,
    km := \<lparr>pmem = store64 (\<lambda>_. 0) (0x80007000 + TF_a7) 23, freelist = 0\<rparr>,
    uart := \<lparr>tx_buf = [], tx_w = 0, tx_r = 0, thr_room = length (unknown_message r 23), thr_out = [], rhr = []\<rparr>\<rparr>"
  have p: "pent s 0 = r" "trapframe r = 0x80007000" by (simp_all add: s_def r_def pent_def)
  have l: "load64 (pmem (km s)) (trapframe (pent s 0) + TF_a7) = 23" unfolding p by (simp add: s_def)
  have "syscall \<lparr>k_end = 0, k_tramp = 0, k_forkret = 0, k_pad = []\<rparr> s
      = Ok (Returns (-1), set_a0 0 (-1) (put_out (unknown_message (pent s 0) 23) s))"
    by (rule syscall_unknown) (unfold l p, simp_all add: SYS_pipec_def, simp_all add: s_def)
  then obtain t where "syscall \<lparr>k_end = 0, k_tramp = 0, k_forkret = 0, k_pad = []\<rparr> s = Ok (Returns (-1), t)" by blast
  then show ?thesis using l by (intro exI [of _ s] exI [of _ t]) (simp add: SYS_pipec_def)
qed

section \<open>Strings from user memory\<close>

text \<open>The string at a user address, byte by byte: \<open>None\<close> when it does not end within \<open>n\<close> mapped bytes.\<close>

fun ustr :: "u64 \<Rightarrow> kmem \<Rightarrow> u64 \<Rightarrow> nat \<Rightarrow> byte list option" where
  "ustr pt s va 0 = None"
| "ustr pt s va (Suc n) =
     (case uaddr pt s va of None \<Rightarrow> None
      | Some a \<Rightarrow> if pmem s a = 0 then Some [] else map_option (Cons (pmem s a)) (ustr pt s (va + 1) n))"

lemma ustr_length: "ustr pt s va n = Some t \<Longrightarrow> length t < n \<and> 0 \<notin> set t"
  by (induction n arbitrary: va t) (auto split: option.splits if_splits)

lemma umem_first: "umem pt s va (Suc n) = pmem s (the (uaddr pt s va)) # umem pt s (va + 1) n"
  using umem_add [of pt s va 1 n] by (simp add: umem_def)

lemma ustr_chunk:
  assumes "\<And>i. i < n \<Longrightarrow> uaddr pt s (va + of_nat i) \<noteq> None" "n \<le> m"
  shows "ustr pt s va m =
    (let ch = umem pt s va n; t = takeWhile (\<lambda>b. b \<noteq> 0) ch
     in if length t < n then Some t else map_option ((@) ch) (ustr pt s (va + of_nat n) (m - n)))"
  using assms
proof (induction n arbitrary: va m)
  case 0
  have "map_option ((@) []) x = x" for x :: "byte list option" by (cases x) simp_all
  then show ?case by (simp add: umem_def)
next
  case (Suc n)
  obtain k where k: "m = Suc k" "n \<le> k" using Suc.prems(2) by (cases m) auto
  obtain a where a: "uaddr pt s va = Some a" using Suc.prems(1) [of 0] by auto
  have "ustr pt s (va + 1) k =
    (let ch = umem pt s (va + 1) n; t = takeWhile (\<lambda>b. b \<noteq> 0) ch
     in if length t < n then Some t else map_option ((@) ch) (ustr pt s (va + 1 + of_nat n) (k - n)))"
  proof (rule Suc.IH [OF _ k(2)])
    fix i assume "i < n" then show "uaddr pt s (va + 1 + of_nat i) \<noteq> None" using Suc.prems(1) [of "Suc i"] by (simp add: ac_simps)
  qed
  moreover have "(@) (x # xs) = (\<lambda>y. x # xs @ y)" for x :: byte and xs by auto
  ultimately show ?case using a k by (simp add: umem_first Let_def option.map_comp comp_def ac_simps)
qed

lemma copyinstr_loop:
  "\<exists>u. loopR (copyinstr_turn pt s) (False, acc, va, m) =
     Ok (case ustr pt s va (unat m) of Some t \<Rightarrow> (0, acc @ t) | None \<Rightarrow> (-1, u))"
proof (induction "unat m" arbitrary: acc va m rule: less_induct)
  case less
  show ?case
  proof (cases "m = 0")
    case True
    then show ?thesis by (simp add: loopR_Exit [where r = "(-1, acc)"] copyinstr_turn_def)
  next
    case False
    then have m: "0 < m" "0 < unat m" by (simp_all add: word_neq_0_conv unat_gt_0)
    obtain p where p: "walkaddr pt (PGROUNDDOWN va) s = Ok p" using walkaddr_returns by blast
    show ?thesis
    proof (cases "p = 0")
      case True
      then have "uaddr pt s va = None" using p by (simp add: uaddr_def)
      then have "ustr pt s va (unat m) = None" using m(2) by (cases "unat m") simp_all
      moreover have "copyinstr_turn pt s (False, acc, va, m) = Ok (Exit (-1, acc))" using True p m by (simp add: copyinstr_turn_def Let_def)
      ultimately show ?thesis by (simp add: loopR_Exit)
    next
      case p0: False
      let ?w = "PGSIZE - (va - PGROUNDDOWN va)"
      let ?n = "if ?w > m then m else ?w"
      have n: "unat ?n = min (page_rest va) (unat m)" by (auto simp: page_rest_def word_less_nat_alt)
      have pr: "0 < page_rest va" by (rule page_offset(3))
      let ?ch = "umem pt s va (unat ?n)" and ?t = "takeWhile (\<lambda>b. b \<noteq> 0) (umem pt s va (unat ?n))"
      have c: "bytes_at (pmem s) (p + (va - PGROUNDDOWN va)) (unat ?n) = ?ch"
        by (rule umem_chunk [OF p p0, symmetric]) (simp add: n)
      have cl: "length ?ch = unat ?n" by (simp add: umem_def)
      have turn: "copyinstr_turn pt s (False, acc, va, m) =
          Ok (Next (length ?t < unat ?n, acc @ ?t, va + of_nat (page_rest va), m - of_nat (length ?t)))"
        using p p0 m c by (simp only: copyinstr_turn_def case_prod_conv Let_def next_page bindR.simps if_False if_True simp_thms)
      have us: "ustr pt s va (unat m) = (if length ?t < unat ?n then Some ?t
          else map_option ((@) ?ch) (ustr pt s (va + of_nat (unat ?n)) (unat m - unat ?n)))"
        using ustr_chunk [of "unat ?n" pt s va "unat m"] uaddr_chunk [OF p p0] n by (simp add: Let_def)
      show ?thesis
      proof (cases "length ?t < unat ?n")
        case True
        have "copyinstr_turn pt s (True, acc @ ?t, va + of_nat (page_rest va), m - of_nat (length ?t)) = Ok (Exit (0, acc @ ?t))"
          by (simp add: copyinstr_turn_def)
        then have "loopR (copyinstr_turn pt s) (False, acc, va, m) = Ok (0, acc @ ?t)"
          using turn True by (simp add: loopR_Next loopR_Exit)
        then show ?thesis using us True by simp
      next
        case False
        then have t: "?t = ?ch" using cl takeWhile_eq_take [of "\<lambda>b. b \<noteq> 0" ?ch] by simp
        let ?m = "m - ?n"
        have um: "unat ?m = unat m - unat ?n" using n by (simp add: unat_sub word_le_nat_alt)
        have lt: "unat ?m < unat m" using um n pr m(2) by simp
        obtain u where u: "loopR (copyinstr_turn pt s) (False, acc @ ?ch, va + of_nat (page_rest va), ?m) =
          Ok (case ustr pt s (va + of_nat (page_rest va)) (unat ?m) of Some t \<Rightarrow> (0, (acc @ ?ch) @ t) | None \<Rightarrow> (-1, u))"
          using less [OF lt] by blast
        have step: "loopR (copyinstr_turn pt s) (False, acc, va, m) = loopR (copyinstr_turn pt s) (False, acc @ ?ch, va + of_nat (page_rest va), ?m)"
          by (rule loopR_Next) (use turn False in \<open>simp add: t cl\<close>)
        have e: "ustr pt s (va + of_nat (unat ?n)) (unat m - unat ?n) = ustr pt s (va + of_nat (page_rest va)) (unat ?m)"
        proof (cases "page_rest va \<le> unat m")
          case True then show ?thesis using n um by simp
        next
          case f: False then have "unat m - unat ?n = 0" using n by simp
          then show ?thesis using um by simp
        qed
        show ?thesis unfolding step u using us False unfolding e by (cases "ustr pt s (va + of_nat (page_rest va)) (unat ?m)") simp_all
      qed
    qed
  qed
qed

text \<open>
  C26.  \<open>fetchstr\<close>, which copies page by page into a local buffer of \<open>max\<close> bytes, agrees with reading the user
  string byte by byte: it returns the string and its length when a NUL comes within \<open>max\<close> mapped bytes,
  and -1 otherwise.  The string and its NUL always fit the buffer.
\<close>

theorem fetchstr_reference:
  assumes "curproc (sch s) = Some p" "mx < 2 ^ 64"
  shows "case ustr (pagetable (pent s p)) (km s) addr mx of
      Some t \<Rightarrow> fetchstr addr mx s = Ok (int (length t), t) \<and> length t < mx
    | None \<Rightarrow> \<exists>u. fetchstr addr mx s = Ok (-1, u)"
proof -
  have "unat (of_nat mx :: u64) = mx" using assms(2) by (simp add: unsigned_of_nat take_bit_nat_eq_self)
  with copyinstr_loop [of "pagetable (pent s p)" "km s" "[]" addr "of_nat mx"] obtain u where
    "copyinstr_bytes (pagetable (pent s p)) addr (of_nat mx) (km s) =
       Ok (case ustr (pagetable (pent s p)) (km s) addr mx of Some t \<Rightarrow> (0, t) | None \<Rightarrow> (-1, u))"
    unfolding copyinstr_bytes_def append_Nil by metis
  then show ?thesis using assms(1) ustr_length [of "pagetable (pent s p)" "km s" addr mx]
    by (auto simp: fetchstr_def myproc_def deref_def split: option.split)
qed

theorem fetchstr_reference_witness:
  "\<exists>s. pagetable (pent s 0) = 0x80001000 \<and> fetchstr 0x4010 128 s = Ok (0, [])"
proof -
  obtain s :: kst where s: "runs (sch s) 0" "pagetable (procs (sch s) 0) = 0x80001000" "pt_ok 0x80000000 2 (pmem (km s)) 0x80001000"
    "set (pt_pages 2 (pmem (km s)) 0x80001000) \<subseteq> {0x80001000, 0x80003000, 0x80004000}"
    "\<forall>w. walkaddr 0x80001000 w (km s) = Ok (if w < MAXVA \<and> pg w = 4 then 0x80002000 else 0)"
    using sample_user by blast
  have u: "uaddr 0x80001000 (km s) 0x4010 = Some 0x80002010" using one_page_uaddr(2) [OF s(5), of 16] by simp
  have "0x80002010 \<notin> region p 4096" if "p \<in> set (pt_pages 2 (pmem (km s)) 0x80001000)" for p
    using that s(4) by (intro pages_apart [OF _ _ _ one_page_uaddr(1) [OF s(5) u]]) (auto simp: example_aligned)
  then have st: "stable 0x80001000 (km s) {0x80002010}" by (intro stable_user [OF s(3)]) auto
  let ?m = "(pmem (km s))(0x80002010 := 0)" and ?s = "s\<lparr>km := (km s)\<lparr>pmem := (pmem (km s))(0x80002010 := 0)\<rparr>\<rparr>"
  have "uaddr 0x80001000 (km ?s) 0x4010 = Some 0x80002010" using st u by (simp add: stable_def uaddr_def)
  then have "ustr 0x80001000 (km ?s) 0x4010 128 = Some []" by (simp add: numeral_eq_Suc)
  moreover have "pagetable (pent ?s 0) = 0x80001000" "curproc (sch ?s) = Some 0" using s(1,2) by (simp_all add: pent_def runs_def)
  ultimately have "fetchstr 0x4010 128 ?s = Ok (0, []) \<and> pagetable (pent ?s 0) = 0x80001000"
    using fetchstr_reference [of ?s 0 128 "0x4010"] by simp
  then show ?thesis by blast
qed

section \<open>Reference counts of open files\<close>

text \<open>The descriptors that refer to a file, over all processes.\<close>

definition fdrefs :: "kst \<Rightarrow> nat \<Rightarrow> nat" where
  "fdrefs s f = (\<Sum>p<NPROC. count_list (ofile (pent s p)) (Some f))"

text \<open>Every descriptor table has its size, names files of the table, and the counts are right.\<close>

definition refs_ok :: "kst \<Rightarrow> bool" where
  "refs_ok s \<longleftrightarrow> (\<forall>p<NPROC. length (ofile (pent s p)) = NOFILE) \<and> (\<forall>f. f_ref (files s f) = int (fdrefs s f))"

definition set_fd :: "nat \<Rightarrow> nat \<Rightarrow> nat option \<Rightarrow> kst \<Rightarrow> kst" where
  "set_fd p i x = updp p (\<lambda>r. r\<lparr>ofile := (ofile r)[i := x]\<rparr>)"

lemma upd_file_pent [simp]: "pent (upd_file a f s) q = pent s q"
  by (simp add: pent_def)

lemma count_list_update:
  "i < length xs \<Longrightarrow> count_list (xs[i := y]) x + (if xs ! i = x then 1 else 0) = count_list xs x + (if y = x then 1 else 0)"
proof (induction xs arbitrary: i)
  case (Cons a xs)
  show ?case
  proof (cases i)
    case (Suc j) then show ?thesis using Cons.IH [of j] Cons.prems by (auto split: if_splits)
  qed auto
qed simp

lemma count_mem: "i < length xs \<Longrightarrow> xs ! i = x \<Longrightarrow> 0 < count_list xs x"
  by (metis count_list_0_iff nth_mem gr0I)

lemma fdrefs_set:
  assumes "p < NPROC" "i < length (ofile (pent s p))"
  shows "fdrefs (set_fd p i x s) f + (if ofile (pent s p) ! i = Some f then 1 else 0) = fdrefs s f + (if x = Some f then 1 else 0)"
proof -
  let ?c = "\<lambda>s q. count_list (ofile (pent s q)) (Some f)"
  have fin: "finite {..<NPROC}" "p \<in> {..<NPROC}" using assms(1) by simp_all
  have "fdrefs s f = ?c s p + (\<Sum>q\<in>{..<NPROC} - {p}. ?c s q)" unfolding fdrefs_def by (rule sum.remove [OF fin])
  moreover have "fdrefs (set_fd p i x s) f = ?c (set_fd p i x s) p + (\<Sum>q\<in>{..<NPROC} - {p}. ?c (set_fd p i x s) q)"
    unfolding fdrefs_def by (rule sum.remove [OF fin])
  moreover have "(\<Sum>q\<in>{..<NPROC} - {p}. ?c (set_fd p i x s) q) = (\<Sum>q\<in>{..<NPROC} - {p}. ?c s q)"
    by (rule sum.cong) (simp_all add: set_fd_def)
  ultimately show ?thesis using count_list_update [OF assms(2), of x "Some f"] by (simp add: set_fd_def)
qed

lemma fdrefs_file [simp]: "fdrefs (upd_file g h s) f = fdrefs s f"
  by (simp add: fdrefs_def)

lemma refs_step:
  assumes "refs_ok s" "p < NPROC" "i < NOFILE" "ofile (pent s p) ! i = None"
  shows "refs_ok (upd_file f (\<lambda>r. r\<lparr>f_ref := f_ref r + 1\<rparr>) (set_fd p i (Some f) s))"
    "refs_ok (set_fd p i (Some f) (upd_file f (\<lambda>r. r\<lparr>f_ref := f_ref r + 1\<rparr>) s))"
proof -
  have l: "i < length (ofile (pent s p))" using assms(1-3) by (simp add: refs_ok_def)
  have e: "set_fd p i (Some f) (upd_file f (\<lambda>r. r\<lparr>f_ref := f_ref r + 1\<rparr>) s) = upd_file f (\<lambda>r. r\<lparr>f_ref := f_ref r + 1\<rparr>) (set_fd p i (Some f) s)"
    by (simp add: set_fd_def updp_def upd_file_def)
  have "fdrefs (set_fd p i (Some f) s) g = fdrefs s g + (if f = g then 1 else 0)" for g
    using fdrefs_set [OF assms(2) l, of "Some f" g] assms(4) by auto
  then show "refs_ok (upd_file f (\<lambda>r. r\<lparr>f_ref := f_ref r + 1\<rparr>) (set_fd p i (Some f) s))"
    using assms(1) unfolding refs_ok_def by (auto simp: set_fd_def)
  then show "refs_ok (set_fd p i (Some f) (upd_file f (\<lambda>r. r\<lparr>f_ref := f_ref r + 1\<rparr>) s))" unfolding e .
qed

lemma refs_positive:
  assumes "refs_ok s" "p < NPROC" "i < NOFILE" "ofile (pent s p) ! i = Some f"
  shows "1 \<le> f_ref (files s f)"
proof -
  have "0 < count_list (ofile (pent s p)) (Some f)" using assms by (intro count_mem [of i]) (simp_all add: refs_ok_def)
  moreover have "count_list (ofile (pent s p)) (Some f) \<le> fdrefs s f"
    unfolding fdrefs_def using assms(2) by (intro member_le_sum) auto
  ultimately show ?thesis using assms(1) by (simp add: refs_ok_def)
qed

lemma filedup_ok:
  assumes "LkFtable \<notin> set (held (sch s))" "1 \<le> f_ref (files s f)"
  shows "filedup f s = Ok (f, upd_file f (\<lambda>r. r\<lparr>f_ref := f_ref r + 1\<rparr>) s)"
  using assms by (simp add: filedup_def upd_file_sch sch_eta)

text \<open>
  The loop of \<open>fork\<close> that passes on the open files returns, gives the child the same descriptors as the
  parent, and keeps the invariant that the reference count of every file is the number of
  descriptors for it.
\<close>

theorem dup_files_refs:
  assumes ok: "refs_ok s" and p: "p < NPROC" "np < NPROC" "p \<noteq> np" and lk: "LkFtable \<notin> set (held (sch s))"
    and fresh: "ofile (pent s np) = replicate NOFILE None"
  shows "\<exists>t. dup_files p np s = Ok t \<and> refs_ok t \<and> ofile (pent t np) = ofile (pent s p) \<and>
    (\<forall>q. q \<noteq> np \<longrightarrow> pent t q = pent s q) \<and> held (sch t) = held (sch s)"
proof -
  let ?n = "\<lambda>k. take k (ofile (pent s p)) @ replicate (NOFILE - k) None"
  let ?I = "\<lambda>ds t. refs_ok t \<and> ofile (pent t np) = ?n (length ds) \<and> (\<forall>q. q \<noteq> np \<longrightarrow> pent t q = pent s q) \<and> held (sch t) = held (sch s)"
  have lp: "length (ofile (pent s p)) = NOFILE" using ok p by (simp add: refs_ok_def)
  have "\<exists>t. dup_files p np s = Ok t \<and> ?I [0..<NOFILE] t"
    unfolding dup_files_def
  proof (rule forR_prefix_rule)
    show "?I [] s" using ok fresh by simp
  next
    fix ds i es t assume js: "[0..<NOFILE] = ds @ i # es" and I: "?I ds t"
    from filter_upt_prefix [OF js] have i: "length ds = i" "i < NOFILE" by auto
    have pp: "pent t p = pent s p" using I p(3) by simp
    have c: "pent t np = (pent t np)\<lparr>ofile := ?n i\<rparr>" using I i(1) by (cases "pent t np") simp
    have none: "ofile (pent t np) ! i = None" using I i lp by (simp add: nth_append)
    have nx: "(?n i)[i := ofile (pent s p) ! i] = ?n (Suc i)"
    proof -
      have "NOFILE - i = Suc (NOFILE - Suc i)" using i(2) by simp
      then show ?thesis using i(2) lp by (simp add: list_update_append take_Suc_conv_app_nth)
    qed
    show "\<exists>u. (case ofile (pent t p) ! i of None \<Rightarrow> Ok t
        | Some f \<Rightarrow> bindR (filedup f t) (\<lambda>(f, s). Ok (updp np (\<lambda>r. r\<lparr>ofile := (ofile r)[i := Some f]\<rparr>) s))) = Ok u \<and> ?I (ds @ [i]) u"
    proof (cases "ofile (pent s p) ! i")
      case None
      then have "(?n i)[i := None] = ?n (Suc i)" using nx by simp
      moreover have "(?n i)[i := None] = ?n i" using none I i(1) by (metis list_update_id)
      ultimately show ?thesis using None pp I i(1) by (intro exI [of _ t]) simp
    next
      case (Some f)
      have "1 \<le> f_ref (files t f)" using refs_positive [of t p i f] I p(1) i(2) pp Some by simp
      then have fd: "filedup f t = Ok (f, upd_file f (\<lambda>r. r\<lparr>f_ref := f_ref r + 1\<rparr>) t)" using I lk by (intro filedup_ok) simp_all
      let ?u = "set_fd np i (Some f) (upd_file f (\<lambda>r. r\<lparr>f_ref := f_ref r + 1\<rparr>) t)"
      have "refs_ok ?u" using refs_step(2) [of t np i f] I p(2) i(2) none by simp
      moreover have "ofile (pent ?u np) = ?n (Suc i)" using nx Some I i(1) by (simp add: set_fd_def)
      ultimately show ?thesis using Some pp fd I i(1) by (intro exI [of _ ?u]) (simp add: set_fd_def)
    qed
  qed
  then show ?thesis using lp by auto
qed

lemma sample_refs: "refs_ok (sample_kst h)" "ofile (pent (sample_kst h) q) = replicate NOFILE None" "held (sch (sample_kst h)) = []"
proof -
  show o: "ofile (pent (sample_kst h) q) = replicate NOFILE None" for q
    by (simp add: pent_def sample_kst_def sample_sst_def sample_proc_def)
  have "count_list (replicate n None) (Some f) = 0" for n and f :: nat by (induction n) auto
  then show "refs_ok (sample_kst h)" unfolding refs_ok_def fdrefs_def o by (simp add: sample_kst_def sample_file_def)
  show "held (sch (sample_kst h)) = []" by (simp add: sample_kst_def)
qed

theorem dup_files_refs_witness:
  "\<exists>s t. dup_files 0 3 s = Ok t \<and> f_ref (files s 5) = 1 \<and> f_ref (files t 5) = 2 \<and> ofile (pent t 3) ! 0 = Some 5"
proof -
  let ?b = "sample_kst (\<lambda>_. undefined)"
  define s where "s = upd_file 5 (\<lambda>r. r\<lparr>f_ref := f_ref r + 1\<rparr>) (set_fd 0 0 (Some 5) ?b)"
  have ok: "refs_ok s" unfolding s_def by (rule refs_step) (simp_all add: sample_refs NPROC_def NOFILE_def)
  have o: "ofile (pent s q) = (if q = 0 then (replicate NOFILE None)[0 := Some 5] else replicate NOFILE None)" for q
    by (simp add: s_def set_fd_def sample_refs)
  have r: "fdrefs ?b 5 = 0" using sample_refs(1) [of "\<lambda>_. undefined"] unfolding refs_ok_def by (simp add: sample_kst_def sample_file_def)
  have l: "LkFtable \<notin> set (held (sch s))" by (simp add: s_def set_fd_def sample_refs)
  from dup_files_refs [OF ok, of 0 3] l o obtain t where
    t: "dup_files 0 3 s = Ok t" "refs_ok t" "ofile (pent t 3) = ofile (pent s 0)" "\<forall>q. q \<noteq> 3 \<longrightarrow> pent t q = pent s q"
    by (auto simp: NPROC_def)
  have "fdrefs t 5 = 2"
  proof -
    have "fdrefs t 5 = (\<Sum>q<NPROC. if q = 0 \<or> q = 3 then 1 else 0)" unfolding fdrefs_def
    proof (rule sum.cong)
      fix q :: nat
      have c: "count_list (replicate n None) (Some f) = 0" for n and f :: nat by (induction n) auto
      have "ofile (pent t q) = (if q = 0 \<or> q = 3 then (replicate NOFILE None)[0 := Some 5] else replicate NOFILE None)"
        using t(3,4) o by (cases "q = 3") auto
      then show "count_list (ofile (pent t q)) (Some 5) = (if q = 0 \<or> q = 3 then 1 else 0)"
        using count_list_update [of 0 "replicate NOFILE None" "Some 5" "Some (5 :: nat)"] c by (auto simp: NOFILE_def)
    qed simp
    also have "\<dots> = card {q. q < NPROC \<and> (q = 0 \<or> q = 3)}" by (simp add: sum.If_cases Collect_conj_eq lessThan_def)
    also have "{q. q < NPROC \<and> (q = 0 \<or> q = 3)} = {0, 3}" by (auto simp: NPROC_def)
    finally show ?thesis by simp
  qed
  moreover have "f_ref (files s 5) = 1" by (simp add: s_def set_fd_def sample_kst_def sample_file_def)
  ultimately show ?thesis using t o by (intro exI [of _ s] exI [of _ t]) (simp add: refs_ok_def NOFILE_def)
qed

end
