(* ===== verification/Shell.thy ===== *)
theory Shell
  imports Ulib Syscall
begin

text \<open>
  The command parser of the shell (\<open>user/sh.c\<close>).  Pointers into the command line are positions in it; the
  byte after its last one is the NUL.  The strings of a parsed command are slices \<open>(q, eq)\<close> of the
  line until \<open>nulterminate\<close> writes a NUL at the end of each.  An \<open>execcmd\<close> is wrapped by redirections
  while its arguments are still being added: the parser keeps the redirections in a list and wraps at
  the end.  \<open>panic\<close> ends the shell's child with a message.  The mutual recursion is bounded by a depth,
  \<open>Diverge\<close> beyond it; \<open>parsecmd_total\<close> shows that the depth that \<open>parsecmd\<close> uses is always enough.
\<close>

section \<open>Commands and tokens\<close>

datatype 'w cmd =
    EXEC "'w list"
  | REDIR "'w cmd" 'w u32 nat
  | PIPE "'w cmd" "'w cmd"
  | LIST "'w cmd" "'w cmd"
  | BACK "'w cmd"

type_synonym pcmd = "(nat \<times> nat) cmd"

definition MAXARGS :: nat where "MAXARGS = 256"

definition whitespace :: "byte list" where "whitespace = [32, 9, 13, 10, 11]"
definition symbols :: "byte list" where "symbols = [60, 124, 62, 38, 59, 40, 41]"

definition at :: "byte list \<Rightarrow> nat \<Rightarrow> byte" where
  "at line s = (if s < length line then line ! s else 0)"

definition skip_ws :: "byte list \<Rightarrow> nat \<Rightarrow> nat" where
  "skip_ws line s = s + length (takeWhile (\<lambda>c. strchr whitespace c \<noteq> None) (drop s line))"

text \<open>The kind of the token (\<open>97\<close>, that is \<open>'a'\<close>, for a word), its slice and the position after it.\<close>

definition gettoken :: "byte list \<Rightarrow> nat \<Rightarrow> byte \<times> (nat \<times> nat) \<times> nat" where
  "gettoken line s =
     (let q = skip_ws line s;
          c = at line q;
          (r, eq) =
            (if c = 0 then (c, q)
             else if c \<in> {124, 40, 41, 59, 38, 60} then (c, q + 1)
             else if c = 62 then (if at line (q + 1) = 62 then (43, q + 2) else (c, q + 1))
             else (97, q + length (takeWhile (\<lambda>c. strchr whitespace c = None \<and> strchr symbols c = None) (drop q line))))
      in (r, (q, eq), skip_ws line eq))"

definition peek :: "byte list \<Rightarrow> nat \<Rightarrow> byte list \<Rightarrow> bool \<times> nat" where
  "peek line s toks = (let s = skip_ws line s in (at line s \<noteq> 0 \<and> strchr toks (at line s) \<noteq> None, s))"

section \<open>The parser\<close>

text \<open>A redirection: its file, mode and descriptor.\<close>

type_synonym redir = "(nat \<times> nat) \<times> u32 \<times> nat"

definition redirect :: "byte \<Rightarrow> nat \<times> nat \<Rightarrow> redir list" where
  "redirect tok f =
     (if tok = 60 then [(f, O_RDONLY, 0)]
      else if tok = 62 then [(f, O_WRONLY OR O_CREATE OR O_TRUNC, 1)]
      else if tok = 43 then [(f, O_WRONLY OR O_CREATE, 1)]
      else [])"

definition wrap :: "'w cmd \<Rightarrow> ('w \<times> u32 \<times> nat) list \<Rightarrow> 'w cmd" where
  "wrap c rs = foldl (\<lambda>c (f, mode, fd). REDIR c f mode fd) c rs"

definition parseredirs_turn :: "byte list \<Rightarrow> redir list \<times> nat \<Rightarrow> (redir list \<times> nat, redir list \<times> nat) ctl res" where
  "parseredirs_turn line = (\<lambda>(rs, s).
     let (more, s) = peek line s [60, 62] in
     if more then
       let (tok, _, s) = gettoken line s;
           (kind, f, s) = gettoken line s in
       if kind \<noteq> 97 then Panic ''missing file for redirection''
       else Ok (Next (rs @ redirect tok f, s))
     else Ok (Exit (rs, s)))"

definition parseredirs :: "byte list \<Rightarrow> redir list \<Rightarrow> nat \<Rightarrow> (redir list \<times> nat) res" where
  "parseredirs line rs s = loopR (parseredirs_turn line) (rs, s)"

definition parseargs_turn ::
  "byte list \<Rightarrow> (nat \<times> nat) list \<times> redir list \<times> nat \<Rightarrow> ((nat \<times> nat) list \<times> redir list \<times> nat, pcmd \<times> nat) ctl res" where
  "parseargs_turn line = (\<lambda>(argv, rs, s).
     let (stop, s) = peek line s [124, 41, 38, 59] in
     if stop then Ok (Exit (wrap (EXEC argv) rs, s))
     else
       let (tok, a, s) = gettoken line s in
       if tok = 0 then Ok (Exit (wrap (EXEC argv) rs, s))
       else if tok \<noteq> 97 then Panic ''syntax''
       else if length argv + 1 \<ge> MAXARGS then Panic ''too many args''
       else bindR (parseredirs line rs s) (\<lambda>(rs, s). Ok (Next (argv @ [a], rs, s))))"

text \<open>The loop of \<open>parseline\<close> over \<open>&\<close>.\<close>

definition parseback_turn :: "byte list \<Rightarrow> pcmd \<times> nat \<Rightarrow> (pcmd \<times> nat, pcmd \<times> nat) ctl res" where
  "parseback_turn line = (\<lambda>(c, s).
     let (more, s) = peek line s [38] in
     if more then let (_, _, s) = gettoken line s in Ok (Next (BACK c, s)) else Ok (Exit (c, s)))"

fun parseline :: "nat \<Rightarrow> byte list \<Rightarrow> nat \<Rightarrow> (pcmd \<times> nat) res"
  and parsepipe :: "nat \<Rightarrow> byte list \<Rightarrow> nat \<Rightarrow> (pcmd \<times> nat) res"
  and parseexec :: "nat \<Rightarrow> byte list \<Rightarrow> nat \<Rightarrow> (pcmd \<times> nat) res"
  and parseblock :: "nat \<Rightarrow> byte list \<Rightarrow> nat \<Rightarrow> (pcmd \<times> nat) res" where
  "parseline 0 line s = Diverge"
| "parsepipe 0 line s = Diverge"
| "parseexec 0 line s = Diverge"
| "parseblock 0 line s = Diverge"
| "parseline (Suc n) line s =
     bindR (parsepipe n line s) (\<lambda>(c, s).
     bindR (loopR (parseback_turn line) (c, s)) (\<lambda>(c, s).
     let (more, s) = peek line s [59] in
     if more then
       let (_, _, s) = gettoken line s in
       bindR (parseline n line s) (\<lambda>(d, s). Ok (LIST c d, s))
     else Ok (c, s)))"
| "parsepipe (Suc n) line s =
     bindR (parseexec n line s) (\<lambda>(c, s).
     let (more, s) = peek line s [124] in
     if more then
       let (_, _, s) = gettoken line s in
       bindR (parsepipe n line s) (\<lambda>(d, s). Ok (PIPE c d, s))
     else Ok (c, s))"
| "parseexec (Suc n) line s =
     (let (block, s) = peek line s [40] in
      if block then parseblock n line s
      else
        bindR (parseredirs line [] s) (\<lambda>(rs, s).
        loopR (parseargs_turn line) ([], rs, s)))"
| "parseblock (Suc n) line s =
     (let (block, s) = peek line s [40] in
      if \<not> block then Panic ''parseblock''
      else
        let (_, _, s) = gettoken line s in
        bindR (parseline n line s) (\<lambda>(c, s).
        let (close, s) = peek line s [41] in
        if \<not> close then Panic ''syntax - missing )''
        else
          let (_, _, s) = gettoken line s in
          bindR (parseredirs line [] s) (\<lambda>(rs, s). Ok (wrap c rs, s))))"

primrec nulterminate :: "pcmd \<Rightarrow> byte list \<Rightarrow> byte list" where
  "nulterminate (EXEC argv) buf = foldl (\<lambda>b (q, eq). b[eq := 0]) buf argv"
| "nulterminate (REDIR c f mode fd) buf = (nulterminate c buf)[snd f := 0]"
| "nulterminate (PIPE l r) buf = nulterminate r (nulterminate l buf)"
| "nulterminate (LIST l r) buf = nulterminate r (nulterminate l buf)"
| "nulterminate (BACK c) buf = nulterminate c buf"

text \<open>The parsed command and the command line with the NULs in it.\<close>

definition parsecmd :: "byte list \<Rightarrow> (pcmd \<times> byte list) res" where
  "parsecmd line =
     bindR (parseline (4 * length line + 4) line 0) (\<lambda>(c, s).
     let s = snd (peek line s []) in
     if s \<noteq> length line then Panic ''syntax'' else Ok (c, nulterminate c line))"

section \<open>Runs that end\<close>

definition ends :: "('a \<Rightarrow> bool) \<Rightarrow> 'a res \<Rightarrow> bool" where
  "ends Q r \<longleftrightarrow> (\<exists>x. r = Ok x \<and> Q x) \<or> (\<exists>msg. r = Panic msg)"

lemma ends_simps [simp]: "ends Q (Ok x) \<longleftrightarrow> Q x" "ends Q (Panic msg)" "\<not> ends Q Diverge" "\<not> ends Q Fault" "\<not> ends Q Wait"
  by (simp_all add: ends_def)

lemma ends_bind: "ends P r \<Longrightarrow> (\<And>x. P x \<Longrightarrow> ends Q (f x)) \<Longrightarrow> ends Q (bindR r f)"
  by (cases r) simp_all

lemma ends_loop:
  assumes "I s" "\<And>s. I s \<Longrightarrow> ends (case_ctl (\<lambda>t. I t \<and> (m t :: nat) < m s) Q) (body s)"
  shows "ends Q (loopR body s)"
  using assms(1)
proof (induction s rule: measure_induct_rule [where f = m])
  case (less s)
  show ?case
    by (subst loopR_unfold, rule ends_bind [OF assms(2) [OF less.prems]]) (auto split: ctl.splits intro: less.IH)
qed

section \<open>Tokens\<close>

definition word_char :: "byte \<Rightarrow> bool" where
  "word_char c \<longleftrightarrow> c \<noteq> 0 \<and> c \<notin> set whitespace \<and> c \<notin> set symbols"

text \<open>A slice that is a maximal word of the line.\<close>

definition word_slice :: "byte list \<Rightarrow> nat \<times> nat \<Rightarrow> bool" where
  "word_slice line = (\<lambda>(q, eq). q < eq \<and> eq \<le> length line \<and> (\<forall>i. q \<le> i \<and> i < eq \<longrightarrow> word_char (line ! i)) \<and>
     (eq < length line \<longrightarrow> \<not> word_char (line ! eq)))"

lemma strchr_mem: "strchr bs c = None \<longleftrightarrow> c \<notin> set (takeWhile (\<lambda>b. b \<noteq> 0) bs)"
  by (induction bs c rule: strchr.induct) auto

lemma strchr_classes: "strchr whitespace c = None \<longleftrightarrow> c \<notin> set whitespace" "strchr symbols c = None \<longleftrightarrow> c \<notin> set symbols"
  by (simp_all add: strchr_mem whitespace_def symbols_def)

lemma skip_ws_bounds: "s \<le> length line \<Longrightarrow> s \<le> skip_ws line s \<and> skip_ws line s \<le> length line"
  using length_takeWhile_le [of "\<lambda>c. strchr whitespace c \<noteq> None" "drop s line"] by (simp add: skip_ws_def del: not_None_eq)

lemma at_skip: "s \<le> length line \<Longrightarrow> at line (skip_ws line s) \<notin> set whitespace"
proof -
  assume s: "s \<le> length line"
  let ?n = "length (takeWhile (\<lambda>c. strchr whitespace c \<noteq> None) (drop s line))"
  show ?thesis
  proof (cases "skip_ws line s < length line")
    case True
    then have n: "?n < length (drop s line)" by (simp add: skip_ws_def)
    from nth_length_takeWhile [OF n] have "strchr whitespace (line ! skip_ws line s) = None"
      using s by (simp add: skip_ws_def)
    then show ?thesis using True by (simp add: at_def strchr_classes)
  qed (simp add: at_def whitespace_def)
qed

lemma skip_ws_stays: "at line s \<notin> set whitespace \<Longrightarrow> skip_ws line s = s"
proof (cases "s < length line")
  case True
  assume "at line s \<notin> set whitespace"
  then have "strchr whitespace (line ! s) = None" using True by (simp add: at_def strchr_classes)
  moreover have "drop s line = line ! s # drop (Suc s) line" using Cons_nth_drop_Suc [OF True] by simp
  ultimately show ?thesis by (simp add: skip_ws_def)
qed (simp add: skip_ws_def)

lemma skip_ws_idem: "s \<le> length line \<Longrightarrow> skip_ws line (skip_ws line s) = skip_ws line s"
  by (rule skip_ws_stays [OF at_skip])

text \<open>The extent of a word.\<close>

definition word_end :: "byte list \<Rightarrow> nat \<Rightarrow> nat" where
  "word_end line q = q + length (takeWhile (\<lambda>c. strchr whitespace c = None \<and> strchr symbols c = None) (drop q line))"

lemma word_end_slice:
  assumes q: "q < length line" "word_char (line ! q)" and nz: "0 \<notin> set line"
  shows "word_slice line (q, word_end line q)"
proof -
  let ?P = "\<lambda>c. strchr whitespace c = None \<and> strchr symbols c = None"
  have P: "?P (line ! i) \<longleftrightarrow> word_char (line ! i)" if "i < length line" for i
    using nz nth_mem [OF that] by (auto simp: word_char_def strchr_classes)
  let ?w = "takeWhile ?P (drop q line)"
  have "drop q line = line ! q # drop (Suc q) line" using Cons_nth_drop_Suc [OF q(1)] by simp
  then have "?w \<noteq> []" using q P [of q] by simp
  moreover have l: "length ?w \<le> length line - q" using length_takeWhile_le [of ?P "drop q line"] by simp
  moreover have "word_char (line ! i)" if "q \<le> i" "i < q + length ?w" for i
  proof -
    have "?w ! (i - q) \<in> set ?w" using that by (intro nth_mem) simp
    then have "?P (?w ! (i - q))" by (rule set_takeWhileD [THEN conjunct2])
    moreover have "?w ! (i - q) = line ! i" using that l q by (simp add: takeWhile_nth)
    ultimately show ?thesis using P [of i] that l q by simp
  qed
  moreover have "\<not> word_char (line ! (q + length ?w))" if "q + length ?w < length line"
  proof -
    have "length ?w < length (drop q line)" using that by simp
    from nth_length_takeWhile [OF this] show ?thesis using P [OF that] q by simp
  qed
  ultimately show ?thesis using q by (auto simp: word_slice_def word_end_def)
qed

lemma at_nonzero: "at line s \<noteq> 0 \<Longrightarrow> s < length line"
  by (auto simp: at_def split: if_splits)

definition token_end :: "byte list \<Rightarrow> nat \<Rightarrow> byte \<times> nat" where
  "token_end line q =
     (let c = at line q in
      if c = 0 then (c, q)
      else if c \<in> {124, 40, 41, 59, 38, 60} then (c, q + 1)
      else if c = 62 then (if at line (q + 1) = 62 then (43, q + 2) else (c, q + 1))
      else (97, word_end line q))"

lemma gettoken_eq:
  "gettoken line s = (let q = skip_ws line s; (r, e) = token_end line q in (r, (q, e), skip_ws line e))"
  unfolding gettoken_def token_end_def word_end_def Let_def ..

lemma token_end_bounds:
  assumes "at line q \<notin> set whitespace" "token_end line q = (r, e)" "0 \<notin> set line"
  shows "r = 0 \<longleftrightarrow> at line q = 0" "r = 0 \<Longrightarrow> e = q" "r \<noteq> 0 \<Longrightarrow> q < e \<and> e \<le> length line" "r = 97 \<Longrightarrow> word_slice line (q, e)"
proof -
  have w: "word_slice line (q, word_end line q)" if "at line q \<noteq> 0" "at line q \<notin> {124, 40, 41, 59, 38, 60}" "at line q \<noteq> 62"
  proof -
    have q: "q < length line" by (rule at_nonzero [OF that(1)])
    then have "word_char (line ! q)" using that assms(1) by (simp add: at_def word_char_def symbols_def)
    then show ?thesis by (rule word_end_slice [OF q _ assms(3)])
  qed
  have l: "q < length line" if "at line q \<noteq> 0" using at_nonzero [OF that] .
  have l2: "q + 1 < length line" if "at line (q + 1) = 62" using at_nonzero [of line "q + 1"] that by simp
  show "r = 0 \<longleftrightarrow> at line q = 0" "r = 0 \<Longrightarrow> e = q"
    using assms(2) by (auto simp: token_end_def Let_def split: if_splits)
  show "r \<noteq> 0 \<Longrightarrow> q < e \<and> e \<le> length line"
    using assms(2) l l2 w by (auto simp: token_end_def Let_def word_slice_def split: if_splits)
  show "r = 97 \<Longrightarrow> word_slice line (q, e)"
    using assms(2) w by (auto simp: token_end_def Let_def split: if_splits)
qed

lemma gettoken_bounds:
  assumes s: "s \<le> length line" and nz: "0 \<notin> set line" and g: "gettoken line s = (r, a, s')"
  shows "s \<le> s'" "s' \<le> length line" "r \<noteq> 0 \<Longrightarrow> s < s'" "r = 97 \<Longrightarrow> word_slice line a" "r = 0 \<longleftrightarrow> at line (skip_ws line s) = 0"
proof -
  let ?q = "skip_ws line s"
  obtain e where t: "token_end line ?q = (r, e)" "a = (?q, e)" "s' = skip_ws line e"
    using g by (auto simp: gettoken_eq Let_def split: prod.splits)
  note b = token_end_bounds [OF at_skip [OF s] t(1) nz] and k = skip_ws_bounds [OF s]
  have e: "?q \<le> e" "e \<le> length line" using b(2,3) k by fastforce+
  note k' = skip_ws_bounds [OF e(2)]
  show "s \<le> s'" "s' \<le> length line" using k k' e t(3) by simp_all
  show "r \<noteq> 0 \<Longrightarrow> s < s'" using b(3) k k' t(3) by fastforce
  show "r = 97 \<Longrightarrow> word_slice line a" using b(4) t(2) by simp
  show "r = 0 \<longleftrightarrow> at line ?q = 0" by (rule b(1))
qed

lemma peek_bounds:
  assumes "s \<le> length line" "peek line s toks = (b, s')"
  shows "s \<le> s'" "s' \<le> length line" "b \<Longrightarrow> at line s' \<noteq> 0" "skip_ws line s' = s'"
  using assms skip_ws_bounds [OF assms(1)] skip_ws_idem [OF assms(1)] by (auto simp: peek_def Let_def)

text \<open>A token that \<open>peek\<close> has seen is consumed.\<close>

lemma peek_gettoken:
  assumes "s \<le> length line" "0 \<notin> set line" "peek line s toks = (True, s1)" "gettoken line s1 = (r, a, s2)"
  shows "s < s2" "s2 \<le> length line" "r \<noteq> 0"
proof -
  note p = peek_bounds [OF assms(1,3)]
  note g = gettoken_bounds [OF p(2) assms(2,4)]
  show "r \<noteq> 0" using g(5) p(3,4) by simp
  then show "s < s2" "s2 \<le> length line" using g(2,3) p(1) by auto
qed

section \<open>The parser ends\<close>

abbreviation words :: "byte list \<Rightarrow> (nat \<times> nat) set \<Rightarrow> bool" where
  "words line A \<equiv> \<forall>a\<in>A. word_slice line a"

lemma set_wrap [simp]: "set_cmd (wrap c rs) = set_cmd c \<union> fst ` set rs"
  by (induction rs arbitrary: c) (auto simp: wrap_def)

definition redirs_ok :: "byte list \<Rightarrow> nat \<Rightarrow> redir list \<times> nat \<Rightarrow> bool" where
  "redirs_ok line s = (\<lambda>(rs, s'). s \<le> s' \<and> s' \<le> length line \<and> words line (fst ` set rs))"

lemma parseredirs_ends:
  assumes "s \<le> length line" "0 \<notin> set line" "words line (fst ` set rs)"
  shows "ends (redirs_ok line s) (parseredirs line rs s)"
  unfolding parseredirs_def
proof (rule ends_loop [where I = "redirs_ok line s" and m = "\<lambda>(rs, s'). length line - s'"])
  show "redirs_ok line s (rs, s)" using assms by (simp add: redirs_ok_def)
  fix x assume "redirs_ok line s x"
  then obtain us s1 where x: "x = (us, s1)" "s \<le> s1" "s1 \<le> length line" "words line (fst ` set us)" by (cases x) (auto simp: redirs_ok_def)
  obtain b s2 where p: "peek line s1 [60, 62] = (b, s2)" by fastforce
  note pb = peek_bounds [OF x(3) p]
  show "ends (case_ctl (\<lambda>t. redirs_ok line s t \<and> (case t of (rs, s') \<Rightarrow> length line - s') < (case x of (rs, s') \<Rightarrow> length line - s'))
    (redirs_ok line s)) (parseredirs_turn line x)"
  proof (cases b)
    case True
    obtain tok a s3 where g: "gettoken line s2 = (tok, a, s3)" by (cases "gettoken line s2") auto
    obtain kind f s4 where h: "gettoken line s3 = (kind, f, s4)" by (cases "gettoken line s3") auto
    have p': "peek line s1 [60, 62] = (True, s2)" using p True by simp
    note s3 = peek_gettoken [OF x(3) assms(2) p' g]
    note s4 = gettoken_bounds [OF s3(2) assms(2) h]
    have "fst ` set (redirect tok f) \<subseteq> {f}" by (auto simp: redirect_def)
    then show ?thesis using True p g h x s3 s4 by (auto simp: parseredirs_turn_def redirs_ok_def image_Un)
  next
    case False
    then show ?thesis using p x pb by (simp add: parseredirs_turn_def redirs_ok_def)
  qed
qed

definition parsed :: "byte list \<Rightarrow> nat \<Rightarrow> pcmd \<times> nat \<Rightarrow> bool" where
  "parsed line s = (\<lambda>(c, s'). s \<le> s' \<and> s' \<le> length line \<and> words line (set_cmd c))"

lemma parsed_mono: "parsed line s1 x \<Longrightarrow> s \<le> s1 \<Longrightarrow> parsed line s x"
  by (auto simp: parsed_def)

lemma parseargs_ends:
  assumes "s \<le> length line" "0 \<notin> set line" "words line (fst ` set rs)"
  shows "ends (parsed line s) (loopR (parseargs_turn line) ([], rs, s))"
proof (rule ends_loop [where I = "\<lambda>(argv, rs, s'). redirs_ok line s (rs, s') \<and> words line (set argv)" and m = "\<lambda>(argv, rs, s'). length line - s'"])
  show "case ([], rs, s) of (argv, rs, s') \<Rightarrow> redirs_ok line s (rs, s') \<and> words line (set argv)"
    using assms by (simp add: redirs_ok_def)
  fix x assume "case x of (argv, rs, s') \<Rightarrow> redirs_ok line s (rs, s') \<and> words line (set argv)"
  then obtain argv us s1 where x: "x = (argv, us, s1)" "s \<le> s1" "s1 \<le> length line" "words line (fst ` set us)" "words line (set argv)"
    by (cases x) (auto simp: redirs_ok_def)
  obtain b s2 where p: "peek line s1 [124, 41, 38, 59] = (b, s2)" by fastforce
  note pb = peek_bounds [OF x(3) p]
  obtain tok a s3 where g: "gettoken line s2 = (tok, a, s3)" by (cases "gettoken line s2") auto
  note gb = gettoken_bounds [OF pb(2) assms(2) g]
  let ?Q = "case_ctl (\<lambda>t. (case t of (argv, rs, s') \<Rightarrow> redirs_ok line s (rs, s') \<and> words line (set argv)) \<and>
    (case t of (argv, rs, s') \<Rightarrow> length line - s') < (case x of (argv, rs, s') \<Rightarrow> length line - s')) (parsed line s)"
  have fin: "parsed line s (wrap (EXEC argv) us, s2)" "parsed line s (wrap (EXEC argv) us, s3)"
    using x pb gb by (simp_all add: parsed_def set_wrap ball_Un)
  show "ends ?Q (parseargs_turn line x)"
  proof (cases "b \<or> tok \<noteq> 97 \<or> MAXARGS \<le> length argv + 1")
    case True
    then show ?thesis using x(1) p g fin by (auto simp: parseargs_turn_def)
  next
    case False
    have "ends ?Q (bindR (parseredirs line us s3) (\<lambda>(rs, s). Ok (Next (argv @ [a], rs, s))))"
      by (rule ends_bind [OF parseredirs_ends [OF gb(2) assms(2) x(4)]])
        (use x pb gb False in \<open>auto simp: redirs_ok_def\<close>)
    then show ?thesis using False x(1) p g by (simp add: parseargs_turn_def)
  qed
qed

lemma parseback_ends:
  assumes "parsed line s (c, s1)" "0 \<notin> set line"
  shows "ends (parsed line s) (loopR (parseback_turn line) (c, s1))"
proof (rule ends_loop [where I = "parsed line s" and m = "\<lambda>(c, s'). length line - s'"])
  fix x assume "parsed line s x"
  then obtain d s2 where x: "x = (d, s2)" "s \<le> s2" "s2 \<le> length line" "words line (set_cmd d)" by (cases x) (auto simp: parsed_def)
  obtain b s3 where p: "peek line s2 [38] = (b, s3)" by fastforce
  obtain tok a s4 where g: "gettoken line s3 = (tok, a, s4)" by (cases "gettoken line s3") auto
  show "ends (case_ctl (\<lambda>t. parsed line s t \<and> (case t of (c, s') \<Rightarrow> length line - s') < (case x of (c, s') \<Rightarrow> length line - s')) (parsed line s))
    (parseback_turn line x)"
  proof (cases b)
    case True
    then have p': "peek line s2 [38] = (True, s3)" using p by simp
    show ?thesis using p' g x peek_gettoken [OF x(3) assms(2) p' g] by (auto simp: parseback_turn_def parsed_def)
  next
    case False
    then show ?thesis using p x peek_bounds [OF x(3) p] by (auto simp: parseback_turn_def parsed_def)
  qed
qed (use assms in simp)

text \<open>
  One lemma per production: it ends when what it calls ends, further on in the line where a token
  was consumed.
\<close>

lemma peek_then_ends:
  assumes s: "s \<le> length line" and nz: "0 \<notin> set line"
    and f: "\<And>t. s < t \<Longrightarrow> t \<le> length line \<Longrightarrow> ends Q (f t)" and g: "\<And>t. s \<le> t \<Longrightarrow> t \<le> length line \<Longrightarrow> ends Q (g t)"
  shows "ends Q (let (more, s) = peek line s toks in if more then let (_, _, s) = gettoken line s in f s else g s)"
proof -
  obtain b s2 where p: "peek line s toks = (b, s2)" by fastforce
  obtain tok a s3 where h: "gettoken line s2 = (tok, a, s3)" by (cases "gettoken line s2") auto
  show ?thesis using p h f [OF peek_gettoken(1,2) [OF s nz, of toks s2 tok a s3]] g [OF peek_bounds(1,2) [OF s p]] by (cases b) simp_all
qed

lemma parseline_step:
  assumes pp: "ends (parsed line s) (parsepipe n line s)" and nz: "0 \<notin> set line"
    and rec: "\<And>t. s < t \<Longrightarrow> t \<le> length line \<Longrightarrow> ends (parsed line t) (parseline n line t)"
  shows "ends (parsed line s) (parseline (Suc n) line s)"
  unfolding parseline.simps
proof (rule ends_bind [OF pp], clarify, rule ends_bind [OF parseback_ends [OF _ nz]], assumption, clarify)
  fix c s1 assume c: "parsed line s (c, s1)"
  then have s1: "s \<le> s1" "s1 \<le> length line" "words line (set_cmd c)" by (auto simp: parsed_def)
  show "ends (parsed line s) (let (more, s) = peek line s1 [59] in if more then let (_, _, s) = gettoken line s in
      bindR (parseline n line s) (\<lambda>(d, s). Ok (LIST c d, s)) else Ok (c, s))"
    by (rule peek_then_ends [OF s1(2) nz], rule ends_bind [OF rec]) (use s1 in \<open>auto simp: parsed_def\<close>)
qed

lemma parsepipe_step:
  assumes pp: "ends (parsed line s) (parseexec n line s)" and nz: "0 \<notin> set line"
    and rec: "\<And>t. s < t \<Longrightarrow> t \<le> length line \<Longrightarrow> ends (parsed line t) (parsepipe n line t)"
  shows "ends (parsed line s) (parsepipe (Suc n) line s)"
  unfolding parsepipe.simps
proof (rule ends_bind [OF pp], clarify)
  fix c s1 assume c: "parsed line s (c, s1)"
  then have s1: "s \<le> s1" "s1 \<le> length line" "words line (set_cmd c)" by (auto simp: parsed_def)
  show "ends (parsed line s) (let (more, s) = peek line s1 [124] in if more then let (_, _, s) = gettoken line s in
      bindR (parsepipe n line s) (\<lambda>(d, s). Ok (PIPE c d, s)) else Ok (c, s))"
    by (rule peek_then_ends [OF s1(2) nz], rule ends_bind [OF rec]) (use s1 in \<open>auto simp: parsed_def\<close>)
qed

lemma parseexec_step:
  assumes s: "s \<le> length line" and nz: "0 \<notin> set line"
    and rec: "\<And>t. s \<le> t \<Longrightarrow> t \<le> length line \<Longrightarrow> ends (parsed line t) (parseblock n line t)"
  shows "ends (parsed line s) (parseexec (Suc n) line s)"
proof -
  obtain b t where p: "peek line s [40] = (b, t)" by fastforce
  note t = peek_bounds(1,2) [OF s p]
  have "ends (parsed line t) (bindR (parseredirs line [] t) (\<lambda>(rs, s). loopR (parseargs_turn line) ([], rs, s)))"
  proof (rule ends_bind [OF parseredirs_ends [OF t(2) nz]], simp, clarify)
    fix rs u assume "redirs_ok line t (rs, u)"
    then have u: "t \<le> u" "u \<le> length line" "words line (fst ` set rs)" by (auto simp: redirs_ok_def)
    show "ends (parsed line t) (loopR (parseargs_turn line) ([], rs, u))"
      using parseargs_ends [OF u(2) nz u(3)] parsed_mono [OF _ u(1)] by (auto simp: ends_def)
  qed
  then have "ends (parsed line t) (parseexec (Suc n) line s)" using p rec [OF t] by simp
  then show ?thesis using parsed_mono [OF _ t(1)] by (auto simp: ends_def)
qed

lemma parseblock_step:
  assumes s: "s \<le> length line" and nz: "0 \<notin> set line"
    and rec: "\<And>t. s < t \<Longrightarrow> t \<le> length line \<Longrightarrow> ends (parsed line t) (parseline n line t)"
  shows "ends (parsed line s) (parseblock (Suc n) line s)"
proof -
  define f where "f c u = bindR (parseredirs line [] u) (\<lambda>(rs, s). Ok (wrap c rs, s))" for c u
  have f: "ends (parsed line s) (f c u)" if "s \<le> u" "u \<le> length line" "words line (set_cmd c)" for c u
    unfolding f_def by (rule ends_bind [OF parseredirs_ends [OF that(2) nz]]) (use that in \<open>auto simp: parsed_def redirs_ok_def ball_Un\<close>)
  define k where "k t = bindR (parseline n line t) (\<lambda>(c, s). let (more, s) = peek line s [41] in
    if more then let (_, _, s) = gettoken line s in f c s else Panic ''syntax - missing )'')" for t
  have k: "ends (parsed line s) (k t)" if "s < t" "t \<le> length line" for t
    unfolding k_def
  proof (rule ends_bind [OF rec [OF that]], clarify)
    fix c u assume "parsed line t (c, u)"
    then have u: "t \<le> u" "u \<le> length line" "words line (set_cmd c)" by (auto simp: parsed_def)
    show "ends (parsed line s) (let (more, s) = peek line u [41] in if more then let (_, _, s) = gettoken line s in f c s
      else Panic ''syntax - missing )'')" by (rule peek_then_ends [OF u(2) nz], rule f) (use u that in auto)
  qed
  have "ends (parsed line s) (let (more, s) = peek line s [40] in if more then let (_, _, s) = gettoken line s in k s else Panic ''parseblock'')"
    by (rule peek_then_ends [OF s nz], rule k) auto
  moreover have "(if \<not> b then x else y) = (if b then y else x)" for b and x y :: "(pcmd \<times> nat) res" by simp
  ultimately show ?thesis by (simp add: k_def f_def Let_def split_def cong: if_cong)
qed

lemma parser_ends:
  assumes "0 \<notin> set line" "s \<le> length line"
  shows "4 * (length line - s) + 4 \<le> n \<Longrightarrow> ends (parsed line s) (parseline n line s)"
    "4 * (length line - s) + 3 \<le> n \<Longrightarrow> ends (parsed line s) (parsepipe n line s)"
    "4 * (length line - s) + 2 \<le> n \<Longrightarrow> ends (parsed line s) (parseexec n line s)"
    "4 * (length line - s) + 1 \<le> n \<Longrightarrow> ends (parsed line s) (parseblock n line s)"
  using assms(2)
proof (induction n arbitrary: s)
  case (Suc n)
  case 1 then show ?case using Suc by (intro parseline_step assms(1)) auto
next
  case (Suc n)
  case 2 then show ?case using Suc by (intro parsepipe_step assms(1)) auto
next
  case (Suc n)
  case 3
  show ?case by (rule parseexec_step [OF 3(2) assms(1)], rule Suc.IH(4)) (use 3 in auto)
next
  case (Suc n)
  case 4
  show ?case by (rule parseblock_step [OF 4(2) assms(1)], rule Suc.IH(1)) (use 4 in auto)
qed auto

section \<open>The strings after the NULs are written\<close>

definition slice :: "byte list \<Rightarrow> nat \<times> nat \<Rightarrow> byte list" where
  "slice line = (\<lambda>(q, e). take (e - q) (drop q line))"

definition cstring :: "byte list \<Rightarrow> nat \<Rightarrow> byte list" where
  "cstring buf q = takeWhile (\<lambda>b. b \<noteq> 0) (drop q buf)"

lemma nul_args:
  "length (foldl (\<lambda>b (q, e). b[e := 0]) buf argv) = length buf \<and>
   (\<forall>i<length buf. foldl (\<lambda>b (q, e). b[e := 0]) buf argv ! i = (if i \<in> snd ` set argv then 0 else buf ! i))"
proof (induction argv arbitrary: buf)
  case (Cons a argv)
  then show ?case using Cons.IH [of "buf[snd a := 0]"] by (simp add: split_def nth_list_update)
qed simp

lemma nulterminate_nth:
  "length (nulterminate c buf) = length buf \<and> (\<forall>i<length buf. nulterminate c buf ! i = (if i \<in> snd ` set_cmd c then 0 else buf ! i))"
proof (induction c arbitrary: buf)
  case (EXEC argv)
  show ?case using nul_args [of buf argv] by simp
next
  case (REDIR c f mode fd)
  then show ?case by (cases "snd f < length buf") (auto simp: nth_list_update)
qed (simp_all add: image_Un)

lemma cstring_slice:
  assumes w: "words line (set_cmd c)" and a: "(q, e) \<in> set_cmd c"
  shows "cstring (nulterminate c line) q = slice line (q, e)"
proof -
  let ?b = "nulterminate c line"
  have s: "q < e" "e \<le> length line" "\<And>i. q \<le> i \<Longrightarrow> i < e \<Longrightarrow> word_char (line ! i)" using w a by (auto simp: word_slice_def)
  have l: "length ?b = length line" using nulterminate_nth by blast
  have n: "?b ! i = (if i \<in> snd ` set_cmd c then 0 else line ! i)" if "i < length line" for i using nulterminate_nth that by blast
  have out: "i \<notin> snd ` set_cmd c" if "q \<le> i" "i < e" for i
  proof
    assume "i \<in> snd ` set_cmd c"
    then obtain q' where "(q', i) \<in> set_cmd c" by auto
    then have "word_slice line (q', i)" using w by blast
    then have "\<not> word_char (line ! i)" using that s(2) by (auto simp: word_slice_def)
    then show False using s(3) [OF that] by simp
  qed
  have "take (e - q) (drop q ?b) = slice line (q, e)"
    by (rule nth_equalityI) (use l s n out in \<open>auto simp: slice_def\<close>)
  then have d: "drop q ?b = slice line (q, e) @ drop e ?b" using append_take_drop_id [of "e - q" "drop q ?b"] s by simp
  moreover have "\<forall>x\<in>set (slice line (q, e)). x \<noteq> 0"
    using s by (auto simp: slice_def in_set_conv_nth word_char_def)
  moreover have "takeWhile (\<lambda>b. b \<noteq> 0) (drop e ?b) = []"
  proof (cases "e < length line")
    case True
    then have "drop e ?b = ?b ! e # drop (Suc e) ?b" using l by (simp add: Cons_nth_drop_Suc)
    moreover have "?b ! e = 0" using n [OF True] a by force
    ultimately show ?thesis by simp
  qed (use l in simp)
  ultimately show ?thesis by (simp add: cstring_def takeWhile_append2)
qed

text \<open>
  C30.  The parser of the shell ends on every command line, with a command or with an error message.  In the
  command every string is a whole word of the line, and after \<open>nulterminate\<close> the C string at the
  pointer is exactly that word: no NUL falls into another string.
\<close>

theorem parsecmd_total:
  assumes "0 \<notin> set line"
  shows "(\<exists>msg. parsecmd line = Panic msg) \<or>
    (\<exists>c buf. parsecmd line = Ok (c, buf) \<and>
       (\<forall>(q, e)\<in>set_cmd c. word_slice line (q, e) \<and> cstring buf q = slice line (q, e)))"
proof -
  have "ends (parsed line 0) (parseline (4 * length line + 4) line 0)"
    using parser_ends(1) [OF assms, of 0] by simp
  then consider msg where "parseline (4 * length line + 4) line 0 = Panic msg"
    | c s where "parseline (4 * length line + 4) line 0 = Ok (c, s)" "words line (set_cmd c)"
    by (auto simp: ends_def parsed_def)
  then show ?thesis
  proof cases
    case 1
    then show ?thesis by (simp add: parsecmd_def)
  next
    case (2 c s)
    then show ?thesis using cstring_slice [OF 2(2)] by (auto simp: parsecmd_def Let_def)
  qed
qed

section \<open>Printing and parsing back\<close>

text \<open>A command as the user would type it, with a space after every token and parentheses where they are needed.\<close>

definition show_redir :: "byte list \<times> u32 \<times> nat \<Rightarrow> byte list" where
  "show_redir = (\<lambda>(f, mode, fd).
     (if fd = 0 then [60, 32] else if mode = O_WRONLY OR O_CREATE OR O_TRUNC then [62, 32] else [62, 62, 32]) @ f @ [32])"

definition paren :: "bool \<Rightarrow> byte list \<Rightarrow> byte list" where
  "paren b t = (if b then [40, 32] @ t @ [41, 32] else t)"

text \<open>The number is the context: a whole line, before \<open>;\<close>, inside a pipe, or where only a simple command stands.\<close>

primrec show_cmd :: "byte list cmd \<Rightarrow> nat \<Rightarrow> byte list" where
  "show_cmd (EXEC argv) k = concat (map (\<lambda>w. w @ [32]) argv)"
| "show_cmd (REDIR c f mode fd) k = show_cmd c 3 @ show_redir (f, mode, fd)"
| "show_cmd (LIST l r) k = paren (k > 0) (show_cmd l 1 @ [59, 32] @ show_cmd r 0)"
| "show_cmd (BACK c) k = paren (k > 1) (show_cmd c 1 @ [38, 32])"
| "show_cmd (PIPE l r) k = paren (k > 2) (show_cmd l 3 @ [124, 32] @ show_cmd r 2)"

definition is_word :: "byte list \<Rightarrow> bool" where
  "is_word w \<longleftrightarrow> w \<noteq> [] \<and> (\<forall>c\<in>set w. word_char c)"

definition redir_ok :: "byte list \<times> u32 \<times> nat \<Rightarrow> bool" where
  "redir_ok = (\<lambda>(f, mode, fd). is_word f \<and> (mode, fd) \<in> {(O_RDONLY, 0), (O_WRONLY OR O_CREATE OR O_TRUNC, 1), (O_WRONLY OR O_CREATE, 1)})"

text \<open>What can be typed: words without blanks and symbols, three kinds of redirection, less than \<open>MAXARGS\<close> arguments.\<close>

primrec cmd_ok :: "byte list cmd \<Rightarrow> bool" where
  "cmd_ok (EXEC argv) = (length argv < MAXARGS \<and> (\<forall>w\<in>set argv. is_word w))"
| "cmd_ok (REDIR c f mode fd) = (cmd_ok c \<and> redir_ok (f, mode, fd))"
| "cmd_ok (PIPE l r) = (cmd_ok l \<and> cmd_ok r)"
| "cmd_ok (LIST l r) = (cmd_ok l \<and> cmd_ok r)"
| "cmd_ok (BACK c) = cmd_ok c"

subsection \<open>Tokens of a printed command\<close>

text \<open>The rest of the line from a position on, which does not begin with a blank.\<close>

definition looks :: "byte list \<Rightarrow> nat \<Rightarrow> byte list \<Rightarrow> bool" where
  "looks line s t \<longleftrightarrow> s \<le> length line \<and> drop s line = t \<and> (t = [] \<or> hd t \<notin> set whitespace)"

lemma looks_at: "looks line s t \<Longrightarrow> at line s = (if t = [] then 0 else hd t)"
  by (auto simp: looks_def at_def hd_drop_conv_nth)

lemma looks_skip: "looks line s t \<Longrightarrow> skip_ws line s = s"
proof (rule skip_ws_stays)
  assume l: "looks line s t"
  have "0 \<notin> set whitespace" by (simp add: whitespace_def)
  then show "at line s \<notin> set whitespace" using looks_at [OF l] l by (auto simp: looks_def)
qed

lemma drop_further: "drop s line = u @ t \<Longrightarrow> drop (s + length u) line = t"
  by (metis add.commute append_eq_conv_conj drop_drop)

lemma looks_drop: "looks line s (u @ t) \<Longrightarrow> t = [] \<or> hd t \<notin> set whitespace \<Longrightarrow> looks line (s + length u) t"
proof -
  assume l: "looks line s (u @ t)" and t: "t = [] \<or> hd t \<notin> set whitespace"
  then have "length (drop s line) = length (u @ t)" "s \<le> length line" by (simp_all only: looks_def)
  then have "s + length u \<le> length line" by simp
  moreover have "drop (s + length u) line = t" using l by (auto simp: looks_def intro: drop_further)
  ultimately show ?thesis using t by (simp add: looks_def)
qed

lemma skip_one: "drop e line = 32 # t \<Longrightarrow> t = [] \<or> hd t \<notin> set whitespace \<Longrightarrow> skip_ws line e = e + 1"
  by (cases t) (auto simp: skip_ws_def strchr_mem whitespace_def)

text \<open>A token of length \<open>k\<close>, followed by a space.\<close>

lemma gettoken_looks:
  assumes l: "looks line s (u @ 32 # t)" and t: "t = [] \<or> hd t \<notin> set whitespace" and e: "token_end line s = (r, s + length u)"
  shows "gettoken line s = (r, (s, s + length u), s + length u + 1)" "looks line (s + length u + 1) t"
proof -
  have "drop (s + length u) line = 32 # t" using l by (auto simp: looks_def intro: drop_further)
  from skip_one [OF this t] show "gettoken line s = (r, (s, s + length u), s + length u + 1)"
    using e looks_skip [OF l] by (simp add: gettoken_eq)
  show "looks line (s + length u + 1) t" using looks_drop [of line s "u @ [32]" t] l t by simp
qed

lemma looks_nth: "looks line s (u @ t) \<Longrightarrow> i < length u \<Longrightarrow> at line (s + i) = u ! i \<and> s + i < length line"
proof -
  assume l: "looks line s (u @ t)" and i: "i < length u"
  then have "length (drop s line) = length (u @ t)" "drop s line ! i = (u @ t) ! i" by (simp_all only: looks_def)
  then show ?thesis using i l by (auto simp: at_def looks_def nth_append)
qed

lemma gettoken_symbol:
  assumes l: "looks line s (c # 32 # t)" and t: "t = [] \<or> hd t \<notin> set whitespace" and c: "c \<in> set symbols"
  shows "gettoken line s = (c, (s, s + 1), s + 2)" "looks line (s + 2) t"
proof -
  have "at line s = c" "at line (s + 1) = 32" using looks_nth [of line s "[c, 32]" t 0] looks_nth [of line s "[c, 32]" t 1] l by simp_all
  then have "token_end line s = (c, s + length [c])" using c by (auto simp: token_end_def Let_def symbols_def)
  from gettoken_looks [OF _ t this] l show "gettoken line s = (c, (s, s + 1), s + 2)" "looks line (s + 2) t" by simp_all
qed

lemma gettoken_append:
  assumes l: "looks line s (62 # 62 # 32 # t)" and t: "t = [] \<or> hd t \<notin> set whitespace"
  shows "gettoken line s = (43, (s, s + 2), s + 3)" "looks line (s + 3) t"
proof -
  have "at line s = 62" "at line (s + 1) = 62" using looks_nth [of line s "[62, 62]" "32 # t" 0] looks_nth [of line s "[62, 62]" "32 # t" 1] l by simp_all
  then have "token_end line s = (43, s + length [62, 62 :: byte])" by (simp add: token_end_def Let_def)
  from gettoken_looks [OF _ t this] l show "gettoken line s = (43, (s, s + 2), s + 3)" "looks line (s + 3) t"
    by (simp_all add: numeral_3_eq_3)
qed

lemma gettoken_word:
  assumes l: "looks line s (w @ 32 # t)" and t: "t = [] \<or> hd t \<notin> set whitespace" and w: "is_word w"
  shows "gettoken line s = (97, (s, s + length w), s + length w + 1)" "looks line (s + length w + 1) t" "slice line (s, s + length w) = w"
proof -
  have d: "drop s line = w @ 32 # t" using l by (simp add: looks_def)
  have "at line s = hd w" "word_char (hd w)" using looks_at [OF l] w by (auto simp: is_word_def)
  moreover have "takeWhile (\<lambda>c. strchr whitespace c = None \<and> strchr symbols c = None) (w @ 32 # t) = w"
    using w by (subst takeWhile_append2) (auto simp: is_word_def word_char_def strchr_classes whitespace_def)
  ultimately have "token_end line s = (97, s + length w)"
    by (auto simp: token_end_def Let_def word_end_def d word_char_def symbols_def)
  from gettoken_looks [OF l t this]
  show "gettoken line s = (97, (s, s + length w), s + length w + 1)" "looks line (s + length w + 1) t" .
  show "slice line (s, s + length w) = w" by (simp add: slice_def d)
qed

lemma peek_looks: "looks line s t \<Longrightarrow> peek line s toks = (t \<noteq> [] \<and> hd t \<noteq> 0 \<and> strchr toks (hd t) \<noteq> None, s)"
  by (auto simp: peek_def looks_skip looks_at)

subsection \<open>Redirections and arguments\<close>

definition show_redirs :: "(byte list \<times> u32 \<times> nat) list \<Rightarrow> byte list" where
  "show_redirs rs = concat (map show_redir rs)"

abbreviation same_redirs :: "byte list \<Rightarrow> redir list \<Rightarrow> (byte list \<times> u32 \<times> nat) list \<Rightarrow> bool" where
  "same_redirs line rs us \<equiv> map (apfst (slice line)) rs = us"

text \<open>What may follow: the end of the line or one of the given tokens.\<close>

definition follows :: "byte list \<Rightarrow> byte list \<Rightarrow> bool" where
  "follows cs t \<longleftrightarrow> t = [] \<or> hd t \<in> set cs"

lemma follows_nonblank: "follows cs t \<Longrightarrow> set cs \<subseteq> set symbols \<Longrightarrow> t = [] \<or> hd t \<notin> set whitespace"
  by (auto simp: follows_def symbols_def whitespace_def)

lemma word_hd: "is_word w \<Longrightarrow> w @ t \<noteq> [] \<and> word_char (hd (w @ t))"
  by (auto simp: is_word_def)

lemma word_char_hd: "word_char c \<Longrightarrow> c \<noteq> 0 \<and> c \<notin> set whitespace \<and> c \<notin> set symbols"
  by (simp add: word_char_def)

lemma redir_turn:
  assumes l: "looks line s (show_redir r @ t)" and t: "t = [] \<or> hd t \<notin> set whitespace" and r: "redir_ok r"
  shows "\<exists>r'. parseredirs_turn line (us, s) = Ok (Next (us @ [r'], s + length (show_redir r))) \<and> apfst (slice line) r' = r \<and>
    looks line (s + length (show_redir r)) t"
proof -
  obtain f mode fd where rr: "r = (f, mode, fd)" by (cases r) auto
  have f: "is_word f" and m: "(mode, fd) \<in> {(O_RDONLY, 0), (O_WRONLY OR O_CREATE OR O_TRUNC, 1), (O_WRONLY OR O_CREATE, 1)}"
    using r by (auto simp: rr redir_ok_def)
  have ft: "hd (f @ 32 # t) \<notin> set whitespace" using word_hd [OF f, of "32 # t"] by (simp add: word_char_def)
  define sym :: "byte list" where "sym = (if fd = 0 then [60] else if mode = O_WRONLY OR O_CREATE OR O_TRUNC then [62] else [62, 62])"
  have sh: "show_redir r = sym @ 32 # f @ [32]" by (simp add: show_redir_def rr sym_def)
  define tok :: byte where "tok = (if fd = 0 then 60 else if mode = O_WRONLY OR O_CREATE OR O_TRUNC then 62 else 43)"
  have g: "gettoken line s = (tok, (s, s + length sym), s + length sym + 1)" "looks line (s + length sym + 1) (f @ 32 # t)"
    using gettoken_symbol [of line s 60 "f @ 32 # t"] gettoken_symbol [of line s 62 "f @ 32 # t"] gettoken_append [of line s "f @ 32 # t"] l ft m
    by (auto simp: sh sym_def tok_def symbols_def numeral_3_eq_3)
  note h = gettoken_word [OF g(2) t f]
  have "peek line s [60, 62] = (True, s)" using l by (auto simp: peek_looks sh sym_def)
  then have "parseredirs_turn line (us, s) =
      Ok (Next (us @ redirect tok (s + length sym + 1, s + length sym + 1 + length f), s + length sym + 1 + length f + 1))"
    using g(1) h(1) by (simp add: parseredirs_turn_def)
  moreover have "redirect tok a = [(a, mode, fd)]" for a
    using m by (auto simp: redirect_def tok_def O_RDONLY_def O_WRONLY_def O_CREATE_def O_TRUNC_def)
  ultimately show ?thesis using h(2,3) by (simp add: sh [unfolded rr] rr add.assoc)
qed

lemma parseredirs_shown:
  assumes "looks line s (show_redirs rs @ t)" "\<forall>r\<in>set rs. redir_ok r" "t = [] \<or> hd t \<notin> set whitespace" "t = [] \<or> hd t \<noteq> 60 \<and> hd t \<noteq> 62"
  shows "\<exists>rs'. parseredirs line us s = Ok (us @ rs', s + length (show_redirs rs)) \<and> same_redirs line rs' rs \<and>
    looks line (s + length (show_redirs rs)) t"
  using assms(1,2)
proof (induction rs arbitrary: us s)
  case Nil
  then have "peek line s [60, 62] = (False, s)" using assms(4) by (auto simp: peek_looks show_redirs_def)
  then have "parseredirs line us s = Ok (us, s)" by (simp add: parseredirs_def parseredirs_turn_def loopR_Exit)
  then show ?case using Nil by (simp add: show_redirs_def)
next
  case (Cons r rs)
  let ?n = "s + length (show_redir r)"
  have nb: "show_redirs rs @ t = [] \<or> hd (show_redirs rs @ t) \<notin> set whitespace"
    using assms(3) by (cases rs) (auto simp: show_redirs_def show_redir_def whitespace_def split: if_splits prod.splits)
  have l: "looks line s (show_redir r @ show_redirs rs @ t)" and r: "redir_ok r" using Cons.prems by (simp_all add: show_redirs_def)
  from redir_turn [OF l nb r] obtain r' where t1: "parseredirs_turn line (us, s) = Ok (Next (us @ [r'], ?n))"
    "apfst (slice line) r' = r" "looks line ?n (show_redirs rs @ t)" by blast
  from Cons.IH [OF t1(3), of "us @ [r']"] Cons.prems obtain rs' where "parseredirs line (us @ [r']) ?n = Ok (us @ r' # rs', ?n + length (show_redirs rs))"
    "same_redirs line rs' rs" "looks line (?n + length (show_redirs rs)) t" by auto
  then show ?case using t1 by (intro exI [of _ "r' # rs'"]) (simp add: parseredirs_def loopR_Next show_redirs_def add.assoc)
qed

lemma parseredirs_none:
  assumes "looks line s t" "t = [] \<or> hd t \<noteq> 60 \<and> hd t \<noteq> 62"
  shows "parseredirs line us s = Ok (us, s)"
proof -
  have "t = [] \<or> hd t \<notin> set whitespace" using assms(1) by (auto simp: looks_def)
  then show ?thesis using parseredirs_shown [of line s "[]" t us] assms by (auto simp: show_redirs_def)
qed

lemma parseargs_stop:
  assumes l: "looks line s t" and f: "follows [124, 41, 38, 59] t"
  shows "loopR (parseargs_turn line) (argv, us, s) = Ok (wrap (EXEC argv) us, s)"
proof -
  have p: "peek line s [124, 41, 38, 59] = (t \<noteq> [], s)"
    using l f by (cases "t = []") (auto simp: peek_looks follows_def)
  have "fst (gettoken line s) = 0" "snd (snd (gettoken line s)) = s" if "t = []"
    using that looks_skip [OF l] looks_at [OF l] by (simp_all add: gettoken_eq token_end_def Let_def)
  then have "parseargs_turn line (argv, us, s) = Ok (Exit (wrap (EXEC argv) us, s))"
    using p by (cases "t = []") (auto simp: parseargs_turn_def split: prod.splits)
  then show ?thesis by (rule loopR_Exit)
qed

lemma parseargs_shown:
  assumes "looks line s (concat (map (\<lambda>w. w @ [32]) args) @ show_redirs rs @ t)" "\<forall>w\<in>set args. is_word w" "\<forall>r\<in>set rs. redir_ok r"
    "follows [124, 41, 38, 59] t" "args = [] \<Longrightarrow> rs = []" "length argv + length args < MAXARGS"
  shows "\<exists>args' rs'. loopR (parseargs_turn line) (argv, us, s) =
      Ok (wrap (EXEC (argv @ args')) (us @ rs'), s + length (concat (map (\<lambda>w. w @ [32]) args)) + length (show_redirs rs)) \<and>
    map (slice line) args' = args \<and> same_redirs line rs' rs"
  using assms
proof (induction args arbitrary: argv us s)
  case Nil
  have "looks line s t" using Nil by (simp add: show_redirs_def)
  from parseargs_stop [OF this Nil(4)] show ?case using Nil(5) by (simp add: show_redirs_def)
next
  case (Cons w args)
  define k where "k = concat (map (\<lambda>w. w @ [32]) args) @ show_redirs rs @ t"
  have w: "is_word w" using Cons.prems by simp
  have l: "looks line s (w @ 32 # k)" using Cons.prems(1) by (simp add: k_def)
  have nbt: "t = [] \<or> hd t \<notin> set whitespace" by (rule follows_nonblank [OF Cons.prems(4)]) (simp add: symbols_def)
  have nb: "k = [] \<or> hd k \<notin> set whitespace"
  proof (cases args)
    case (Cons v vs)
    then have "is_word v" using Cons.prems(2) by simp
    then show ?thesis using word_hd [of v] Cons by (simp add: k_def word_char_def)
  next
    case Nil
    then show ?thesis using nbt by (cases rs) (auto simp: k_def show_redirs_def show_redir_def whitespace_def split: if_splits prod.splits)
  qed
  note g = gettoken_word [OF l nb w]
  have wc: "word_char (hd (w @ 32 # k))" using word_hd [OF w] by simp
  then have p: "peek line s [124, 41, 38, 59] = (False, s)"
    using l by (auto simp: peek_looks word_char_def symbols_def strchr_mem)
  have turn: "parseargs_turn line (argv, us, s) =
      bindR (parseredirs line us (s + length w + 1)) (\<lambda>(rs, s'). Ok (Next (argv @ [(s, s + length w)], rs, s')))"
    using p g(1) Cons.prems(6) by (simp add: parseargs_turn_def)
  show ?case
  proof (cases "args = []")
    case True
    have lk: "looks line (s + length w + 1) (show_redirs rs @ t)" using g(2) True by (simp add: k_def)
    have "t = [] \<or> hd t \<noteq> 60 \<and> hd t \<noteq> 62" using Cons.prems(4) by (auto simp: follows_def)
    from parseredirs_shown [OF lk Cons.prems(3) nbt this, of us] obtain rs' where
      r: "parseredirs line us (s + length w + 1) = Ok (us @ rs', s + length w + 1 + length (show_redirs rs))" "same_redirs line rs' rs"
        "looks line (s + length w + 1 + length (show_redirs rs)) t" by blast
    let ?s = "s + length w + 1 + length (show_redirs rs)" and ?a = "argv @ [(s, s + length w)]"
    have "loopR (parseargs_turn line) (?a, us @ rs', ?s) = Ok (wrap (EXEC ?a) (us @ rs'), ?s)"
      by (rule parseargs_stop [OF r(3) Cons.prems(4)])
    then show ?thesis using turn r(1,2) g(3) True by (intro exI [of _ "[(s, s + length w)]"] exI [of _ rs']) (simp add: loopR_Next)
  next
    case False
    have "k \<noteq> [] \<and> word_char (hd k)" using False word_hd Cons.prems(2) by (cases args) (auto simp: k_def)
    then have "parseredirs line us (s + length w + 1) = Ok (us, s + length w + 1)"
      by (intro parseredirs_none [OF g(2)]) (auto simp: word_char_def symbols_def)
    then have "loopR (parseargs_turn line) (argv, us, s) = loopR (parseargs_turn line) (argv @ [(s, s + length w)], us, s + length w + 1)"
      using turn by (simp add: loopR_Next)
    moreover from Cons.IH [of "s + length w + 1" "argv @ [(s, s + length w)]" us] obtain args' rs' where
      "loopR (parseargs_turn line) (argv @ [(s, s + length w)], us, s + length w + 1) =
        Ok (wrap (EXEC ((argv @ [(s, s + length w)]) @ args')) (us @ rs'),
          s + length w + 1 + length (concat (map (\<lambda>w. w @ [32]) args)) + length (show_redirs rs))"
      "map (slice line) args' = args" "same_redirs line rs' rs" using g(2) Cons.prems False by (auto simp: k_def)
    ultimately show ?thesis using g(3) by (intro exI [of _ "(s, s + length w) # args'"] exI [of _ rs']) simp
  qed
qed

subsection \<open>The productions\<close>

text \<open>A parser reads the text \<open>u\<close> of the command \<open>c\<close> when one of the tokens \<open>cs\<close> follows.\<close>

definition parses ::
  "(nat \<Rightarrow> byte list \<Rightarrow> nat \<Rightarrow> (pcmd \<times> nat) res) \<Rightarrow> nat \<Rightarrow> byte list \<Rightarrow> byte list \<Rightarrow> byte list \<Rightarrow> byte list cmd \<Rightarrow> bool" where
  "parses f k cs line u c \<longleftrightarrow> (\<forall>n s t. looks line s (u @ t) \<and> follows cs t \<and> 4 * length u + k \<le> n \<longrightarrow>
     (\<exists>c'. f n line s = Ok (c', s + length u) \<and> map_cmd (slice line) c' = c \<and> looks line (s + length u) t))"

abbreviation nonblank :: "byte list \<Rightarrow> bool" where
  "nonblank t \<equiv> t = [] \<or> hd t \<notin> set whitespace"

definition parse_back :: "nat \<Rightarrow> byte list \<Rightarrow> nat \<Rightarrow> (pcmd \<times> nat) res" where
  "parse_back n line s = bindR (parsepipe n line s) (loopR (parseback_turn line))"

lemma parseline_back:
  "parseline (Suc n) line s =
     bindR (parse_back n line s) (\<lambda>(c, s).
     let (more, s) = peek line s [59] in
     if more then let (_, _, s) = gettoken line s in bindR (parseline n line s) (\<lambda>(d, s). Ok (LIST c d, s))
     else Ok (c, s))"
  by (simp add: parse_back_def bindR_assoc split_def)

lemma parsesI:
  assumes "\<And>n s t. looks line s (u @ t) \<Longrightarrow> follows cs t \<Longrightarrow> 4 * length u + k \<le> n \<Longrightarrow>
    \<exists>c'. f n line s = Ok (c', s + length u) \<and> map_cmd (slice line) c' = c" "set cs \<subseteq> set symbols"
  shows "parses f k cs line u c"
  unfolding parses_def using assms(1) looks_drop follows_nonblank [OF _ assms(2)] by blast

lemma parsesD:
  assumes "parses f k cs line u c" "looks line s (u @ t)" "follows cs t" "4 * length u + k \<le> n"
  obtains c' where "f n line s = Ok (c', s + length u)" "map_cmd (slice line) c' = c" "looks line (s + length u) t"
  using assms unfolding parses_def by blast

lemma map_wrap: "map_cmd f (wrap c rs) = wrap (map_cmd f c) (map (apfst f) rs)"
  by (induction rs arbitrary: c) (auto simp: wrap_def)

lemma peek_follows: "looks line s t \<Longrightarrow> follows cs t \<Longrightarrow> set cs \<inter> set toks = {} \<Longrightarrow> peek line s toks = (False, s)"
  by (auto simp: peek_looks follows_def strchr_mem dest: set_takeWhileD)

lemma nonblank_append: "nonblank u \<Longrightarrow> nonblank t \<Longrightarrow> nonblank (u @ t)"
  by (cases u) auto

lemma redirs_nonblank: "nonblank (show_redirs rs)"
  by (cases rs) (auto simp: show_redirs_def show_redir_def whitespace_def split: if_splits prod.splits)

lemma cmd_nonblank: "cmd_ok c \<Longrightarrow> nonblank (show_cmd c k)"
proof (induction c arbitrary: k)
  case (EXEC argv)
  then show ?case by (cases argv) (auto simp: is_word_def word_char_def)
next
  case (REDIR c f mode fd)
  then show ?case using redirs_nonblank [of "[(f, mode, fd)]"] nonblank_append [of "show_cmd c 3"] by (simp add: show_redirs_def)
qed (auto simp: paren_def whitespace_def hd_append)

lemma parses_pipe:
  assumes "parses parseexec 2 [124, 41, 38, 59] line u c"
  shows "parses parsepipe 3 [41, 38, 59] line u c"
proof (rule parsesI)
  fix n s t assume l: "looks line s (u @ t)" and f: "follows [41, 38, 59] t" and n: "4 * length u + 3 \<le> n"
  obtain m where m: "n = Suc m" "4 * length u + 2 \<le> m" using n by (cases n) auto
  have "follows [124, 41, 38, 59] t" using f by (auto simp: follows_def)
  from parsesD [OF assms l this m(2)] obtain c' where
    c: "parseexec m line s = Ok (c', s + length u)" "map_cmd (slice line) c' = c" "looks line (s + length u) t" .
  have "peek line (s + length u) [124] = (False, s + length u)" by (rule peek_follows [OF c(3) f]) auto
  then show "\<exists>c'. parsepipe n line s = Ok (c', s + length u) \<and> map_cmd (slice line) c' = c" using c m by simp
qed (simp add: symbols_def)

definition amps :: "nat \<Rightarrow> byte list" where
  "amps j = concat (replicate j [38, 32])"

lemma back_loop:
  assumes "looks line s (amps j @ t)" "follows [41, 59] t"
  shows "loopR (parseback_turn line) (c, s) = Ok ((BACK ^^ j) c, s + length (amps j))"
  using assms(1)
proof (induction j arbitrary: s c)
  case 0
  then have "peek line s [38] = (False, s)" by (intro peek_follows [OF _ assms(2)]) (auto simp: amps_def)
  then show ?case by (simp add: amps_def loopR_Exit parseback_turn_def)
next
  case (Suc j)
  have nb: "nonblank (amps j @ t)" using follows_nonblank [OF assms(2)]
    by (cases j) (auto simp: amps_def symbols_def whitespace_def)
  have l: "looks line s (38 # 32 # amps j @ t)" using Suc.prems by (simp add: amps_def)
  note g = gettoken_symbol [OF l nb]
  have "peek line s [38] = (True, s)" using l by (simp add: peek_looks)
  then have "parseback_turn line (c, s) = Ok (Next (BACK c, s + 2))" using g(1) by (simp add: parseback_turn_def symbols_def)
  then show ?case using Suc.IH [OF g(2), of "BACK c"] by (simp add: loopR_Next amps_def symbols_def funpow_swap1)
qed

lemma parses_back:
  assumes "parses parsepipe 3 [41, 38, 59] line u c"
  shows "parses parse_back 3 [41, 59] line (u @ amps j) ((BACK ^^ j) c)"
proof (rule parsesI)
  fix n s t assume l: "looks line s ((u @ amps j) @ t)" and f: "follows [41, 59] t" and n: "4 * length (u @ amps j) + 3 \<le> n"
  have "follows [41, 38, 59] (amps j @ t)" using f by (cases j) (auto simp: follows_def amps_def)
  with parsesD [OF assms, of s "amps j @ t" n] l n obtain c' where
    c: "parsepipe n line s = Ok (c', s + length u)" "map_cmd (slice line) c' = c" "looks line (s + length u) (amps j @ t)" by auto
  have "map_cmd (slice line) ((BACK ^^ j) c') = (BACK ^^ j) c" using c(2) by (induction j) simp_all
  then show "\<exists>c'. parse_back n line s = Ok (c', s + length (u @ amps j)) \<and> map_cmd (slice line) c' = (BACK ^^ j) c"
    using c back_loop [OF c(3) f, of c'] by (simp add: parse_back_def)
qed (simp add: symbols_def)

lemma parses_line:
  assumes "parses parse_back 3 [41, 59] line u c"
  shows "parses parseline 4 [41] line u c"
proof (rule parsesI)
  fix n s t assume l: "looks line s (u @ t)" and f: "follows [41] t" and n: "4 * length u + 4 \<le> n"
  obtain m where m: "n = Suc m" "4 * length u + 3 \<le> m" using n by (cases n) auto
  have "follows [41, 59] t" using f by (auto simp: follows_def)
  from parsesD [OF assms l this m(2)] obtain c' where
    c: "parse_back m line s = Ok (c', s + length u)" "map_cmd (slice line) c' = c" "looks line (s + length u) t" .
  have "peek line (s + length u) [59] = (False, s + length u)" by (rule peek_follows [OF c(3) f]) auto
  then show "\<exists>c'. parseline n line s = Ok (c', s + length u) \<and> map_cmd (slice line) c' = c" using c m by (simp add: parseline_back del: parseline.simps)
qed (simp add: symbols_def)

lemma parses_PIPE:
  assumes a: "parses parseexec 2 [124, 41, 38, 59] line u a" and b: "parses parsepipe 3 [41, 38, 59] line v b" and nb: "nonblank v"
  shows "parses parsepipe 3 [41, 38, 59] line (u @ [124, 32] @ v) (PIPE a b)"
proof (rule parsesI)
  fix n s t assume l: "looks line s ((u @ [124, 32] @ v) @ t)" and f: "follows [41, 38, 59] t" and n: "4 * length (u @ [124, 32] @ v) + 3 \<le> n"
  obtain m where m: "n = Suc m" "4 * length u + 2 \<le> m" "4 * length v + 3 \<le> m" using n by (cases n) auto
  have nbt: "nonblank (v @ t)" using nb follows_nonblank [OF f] by (intro nonblank_append) (auto simp: symbols_def)
  have "looks line s (u @ 124 # 32 # v @ t)" using l by simp
  from parsesD [OF a this _ m(2)] obtain c1 where
    c1: "parseexec m line s = Ok (c1, s + length u)" "map_cmd (slice line) c1 = a" "looks line (s + length u) (124 # 32 # v @ t)"
    by (auto simp: follows_def)
  note g = gettoken_symbol [OF c1(3) nbt]
  from parsesD [OF b g(2) f m(3)] obtain c2 where
    c2: "parsepipe m line (s + length u + 2) = Ok (c2, s + length u + 2 + length v)" "map_cmd (slice line) c2 = b"
    by (auto simp: symbols_def)
  have "peek line (s + length u) [124] = (True, s + length u)" using c1(3) by (simp add: peek_looks)
  then show "\<exists>c'. parsepipe n line s = Ok (c', s + length (u @ [124, 32] @ v)) \<and> map_cmd (slice line) c' = PIPE a b"
    using c1 c2 g(1) m(1) by (simp add: symbols_def)
qed (simp add: symbols_def)

lemma parses_LIST:
  assumes a: "parses parse_back 3 [41, 59] line u a" and b: "parses parseline 4 [41] line v b" and nb: "nonblank v"
  shows "parses parseline 4 [41] line (u @ [59, 32] @ v) (LIST a b)"
proof (rule parsesI)
  fix n s t assume l: "looks line s ((u @ [59, 32] @ v) @ t)" and f: "follows [41] t" and n: "4 * length (u @ [59, 32] @ v) + 4 \<le> n"
  obtain m where m: "n = Suc m" "4 * length u + 3 \<le> m" "4 * length v + 4 \<le> m" using n by (cases n) auto
  have nbt: "nonblank (v @ t)" using nb follows_nonblank [OF f] by (intro nonblank_append) (auto simp: symbols_def)
  have "looks line s (u @ 59 # 32 # v @ t)" using l by simp
  from parsesD [OF a this _ m(2)] obtain c1 where
    c1: "parse_back m line s = Ok (c1, s + length u)" "map_cmd (slice line) c1 = a" "looks line (s + length u) (59 # 32 # v @ t)"
    by (auto simp: follows_def)
  note g = gettoken_symbol [OF c1(3) nbt]
  from parsesD [OF b g(2) f m(3)] obtain c2 where
    c2: "parseline m line (s + length u + 2) = Ok (c2, s + length u + 2 + length v)" "map_cmd (slice line) c2 = b"
    by (auto simp: symbols_def)
  have "peek line (s + length u) [59] = (True, s + length u)" using c1(3) by (simp add: peek_looks)
  then show "\<exists>c'. parseline n line s = Ok (c', s + length (u @ [59, 32] @ v)) \<and> map_cmd (slice line) c' = LIST a b"
    using c1 c2 g(1) m(1) by (simp add: symbols_def parseline_back del: parseline.simps)
qed (simp add: symbols_def)

lemma parses_block:
  assumes c: "parses parseline 4 [41] line u c" and nb: "nonblank u" and rs: "\<forall>r\<in>set rs. redir_ok r"
  shows "parses parseexec 2 [124, 41, 38, 59] line ([40, 32] @ u @ [41, 32] @ show_redirs rs) (wrap c rs)"
proof (rule parsesI)
  fix n s t assume l: "looks line s (([40, 32] @ u @ [41, 32] @ show_redirs rs) @ t)" and f: "follows [124, 41, 38, 59] t"
    and n: "4 * length ([40, 32] @ u @ [41, 32] @ show_redirs rs) + 2 \<le> n"
  obtain m where m: "n = Suc (Suc m)" "4 * length u + 4 \<le> m" using n by (cases n; cases "n - 1") auto
  have nbt: "nonblank t" by (rule follows_nonblank [OF f]) (simp add: symbols_def)
  have nr: "nonblank (show_redirs rs @ t)" by (rule nonblank_append [OF redirs_nonblank nbt])
  have nu: "nonblank (u @ 41 # 32 # show_redirs rs @ t)" by (rule nonblank_append [OF nb]) (simp add: whitespace_def)
  have l1: "looks line s (40 # 32 # u @ 41 # 32 # show_redirs rs @ t)" using l by simp
  note g1 = gettoken_symbol [OF l1 nu]
  from parsesD [OF c g1(2) _ m(2)] obtain c' where c': "parseline m line (s + 2) = Ok (c', s + 2 + length u)" "map_cmd (slice line) c' = c"
    "looks line (s + 2 + length u) (41 # 32 # show_redirs rs @ t)" by (auto simp: follows_def symbols_def)
  note g2 = gettoken_symbol [OF c'(3) nr]
  have "t = [] \<or> hd t \<noteq> 60 \<and> hd t \<noteq> 62" using f by (auto simp: follows_def)
  from parseredirs_shown [OF g2(2) rs nbt this, of "[]"] obtain rs' where
    r: "parseredirs line [] (s + 2 + length u + 2) = Ok (rs', s + 2 + length u + 2 + length (show_redirs rs))" "same_redirs line rs' rs"
    by (auto simp: symbols_def)
  have p: "peek line s [40] = (True, s)" "peek line (s + 2 + length u) [41] = (True, s + 2 + length u)"
    using l1 c'(3) by (simp_all add: peek_looks)
  have "parseexec n line s = Ok (wrap c' rs', s + 2 + length u + 2 + length (show_redirs rs))"
    using p g1(1) g2(1) c'(1) r(1) by (simp add: m(1) symbols_def)
  then show "\<exists>c'. parseexec n line s = Ok (c', s + length ([40, 32] @ u @ [41, 32] @ show_redirs rs)) \<and> map_cmd (slice line) c' = wrap c rs"
    using c'(2) r(2) by (auto simp: map_wrap)
qed (simp add: symbols_def)

lemma parses_EXEC:
  assumes argv: "length argv < MAXARGS" "\<forall>w\<in>set argv. is_word w" and rs: "\<forall>r\<in>set rs. redir_ok r"
  shows "parses parseexec 2 [124, 41, 38, 59] line (show_cmd (EXEC argv) 3 @ show_redirs rs) (wrap (EXEC argv) rs)"
proof (rule parsesI)
  let ?u = "concat (map (\<lambda>w. w @ [32]) argv)"
  fix n s t assume l: "looks line s ((show_cmd (EXEC argv) 3 @ show_redirs rs) @ t)" and f: "follows [124, 41, 38, 59] t"
    and n: "4 * length (show_cmd (EXEC argv) 3 @ show_redirs rs) + 2 \<le> n"
  obtain m where m: "n = Suc m" using n by (cases n) auto
  have nbt: "nonblank t" and ht: "t = [] \<or> hd t \<noteq> 60 \<and> hd t \<noteq> 62"
    using follows_nonblank [OF f] f by (auto simp: symbols_def follows_def)
  have l1: "looks line s (?u @ show_redirs rs @ t)" using l by simp
  have "?u @ show_redirs rs @ t = [] \<or> hd (?u @ show_redirs rs @ t) \<noteq> 40"
    using argv f by (cases argv; cases rs)
      (auto simp: is_word_def word_char_def symbols_def show_redirs_def show_redir_def follows_def split: prod.splits if_splits)
  then have p: "peek line s [40] = (False, s)" using l1 by (auto simp: peek_looks)
  show "\<exists>c'. parseexec n line s = Ok (c', s + length (show_cmd (EXEC argv) 3 @ show_redirs rs)) \<and>
    map_cmd (slice line) c' = wrap (EXEC argv) rs"
  proof (cases "argv = []")
    case True
    then have l2: "looks line s (show_redirs rs @ t)" using l1 by simp
    from parseredirs_shown [OF l2 rs nbt ht, of "[]"] obtain rs' where r: "parseredirs line [] s = Ok (rs', s + length (show_redirs rs))"
      "same_redirs line rs' rs" "looks line (s + length (show_redirs rs)) t" by auto
    then show ?thesis using p True parseargs_stop [OF r(3) f, of "[]" rs'] by (auto simp: m map_wrap)
  next
    case False
    then have "hd (?u @ show_redirs rs @ t) \<noteq> 60 \<and> hd (?u @ show_redirs rs @ t) \<noteq> 62"
      using argv by (cases argv) (auto simp: is_word_def word_char_def symbols_def)
    then have "parseredirs line [] s = Ok ([], s)" by (intro parseredirs_none [OF l1]) simp
    moreover from parseargs_shown [OF l1 argv(2) rs f, of "[]" "[]"] False argv(1) obtain args' rs' where
      "loopR (parseargs_turn line) ([], [], s) = Ok (wrap (EXEC args') rs', s + length ?u + length (show_redirs rs))"
      "map (slice line) args' = argv" "same_redirs line rs' rs" by auto
    ultimately show ?thesis using p by (auto simp: m map_wrap)
  qed
qed (simp add: symbols_def)

text \<open>All four levels at once; \<open>chain\<close> goes from the level of simple commands to that of lines.\<close>

definition reads_all :: "byte list \<Rightarrow> byte list cmd \<Rightarrow> bool" where
  "reads_all line c \<longleftrightarrow>
     (\<forall>rs. (\<forall>r\<in>set rs. redir_ok r) \<longrightarrow> parses parseexec 2 [124, 41, 38, 59] line (show_cmd c 3 @ show_redirs rs) (wrap c rs)) \<and>
     parses parsepipe 3 [41, 38, 59] line (show_cmd c 2) c \<and>
     (\<forall>j. parses parse_back 3 [41, 59] line (show_cmd c 1 @ amps j) ((BACK ^^ j) c)) \<and>
     parses parseline 4 [41] line (show_cmd c 0) c"

lemma wrap_Nil [simp]: "wrap c [] = c" and show_redirs_Nil [simp]: "show_redirs [] = []" and amps_0 [simp]: "amps 0 = []"
  by (simp_all add: wrap_def show_redirs_def amps_def)

lemma exec_plain:
  "(\<And>rs. \<forall>r\<in>set rs. redir_ok r \<Longrightarrow> parses parseexec 2 cs line (u @ show_redirs rs) (wrap c rs)) \<Longrightarrow> parses parseexec 2 cs line u c"
  by (metis append_Nil2 empty_iff list.set(1) show_redirs_Nil wrap_Nil)

lemma back_plain: "(\<And>j. parses parse_back 3 cs line (u @ amps j) ((BACK ^^ j) c)) \<Longrightarrow> parses parse_back 3 cs line u c"
  by (metis append_Nil2 amps_0 funpow_0)

lemma reads_simple:
  assumes "\<And>rs. \<forall>r\<in>set rs. redir_ok r \<Longrightarrow> parses parseexec 2 [124, 41, 38, 59] line (u @ show_redirs rs) (wrap c rs)"
    "\<And>k. show_cmd c k = u"
  shows "reads_all line c"
proof -
  note e = exec_plain [OF assms(1)]
  note p = parses_pipe [OF e]
  note b = parses_back [OF p]
  show ?thesis using assms p b parses_line [OF back_plain [OF b]] unfolding reads_all_def by auto
qed

lemma reads_block:
  assumes "parses parseline 4 [41] line (show_cmd c 0) c" "cmd_ok c" "show_cmd c 3 = paren True (show_cmd c 0)"
  shows "\<forall>rs. (\<forall>r\<in>set rs. redir_ok r) \<longrightarrow> parses parseexec 2 [124, 41, 38, 59] line (show_cmd c 3 @ show_redirs rs) (wrap c rs)"
  using parses_block [OF assms(1) cmd_nonblank [OF assms(2)]] by (simp add: assms(3) paren_def)

lemma reads_shown: "cmd_ok c \<Longrightarrow> reads_all line c"
proof (induction c)
  case (EXEC argv)
  show ?case by (rule reads_simple [OF parses_EXEC]) (use EXEC in auto)
next
  case (REDIR c f mode fd)
  show ?case
  proof (rule reads_simple)
    fix rs assume rs: "\<forall>r\<in>set rs. redir_ok r"
    have "parses parseexec 2 [124, 41, 38, 59] line (show_cmd c 3 @ show_redirs ((f, mode, fd) # rs)) (wrap c ((f, mode, fd) # rs))"
      using REDIR rs by (simp add: reads_all_def)
    then show "parses parseexec 2 [124, 41, 38, 59] line (show_cmd (REDIR c f mode fd) 3 @ show_redirs rs) (wrap (REDIR c f mode fd) rs)"
      by (simp add: show_redirs_def wrap_def)
  qed simp
next
  case (PIPE l r)
  have p: "parses parsepipe 3 [41, 38, 59] line (show_cmd (PIPE l r) 2) (PIPE l r)"
    using parses_PIPE [of line "show_cmd l 3" l "show_cmd r 2" r] exec_plain [of _ line "show_cmd l 3" l] PIPE cmd_nonblank [of r 2]
    by (simp add: reads_all_def paren_def)
  note b = parses_back [OF p]
  have n: "parses parseline 4 [41] line (show_cmd (PIPE l r) 0) (PIPE l r)" using parses_line [OF back_plain [OF b]] by (simp add: paren_def)
  show ?case unfolding reads_all_def using p b n reads_block [OF n] PIPE.prems by (simp add: paren_def)
next
  case (LIST l r)
  have ok: "cmd_ok r" and l: "parses parse_back 3 [41, 59] line (show_cmd l 1 @ amps j) ((BACK ^^ j) l)"
    and r: "parses parseline 4 [41] line (show_cmd r 0) r" for j
    using LIST by (simp_all add: reads_all_def)
  have n: "parses parseline 4 [41] line (show_cmd (LIST l r) 0) (LIST l r)"
    using parses_LIST [OF back_plain [OF l] r cmd_nonblank [OF ok]] by (simp add: paren_def)
  have e: "\<forall>rs. (\<forall>r\<in>set rs. redir_ok r) \<longrightarrow> parses parseexec 2 [124, 41, 38, 59] line (show_cmd (LIST l r) 3 @ show_redirs rs) (wrap (LIST l r) rs)"
    by (rule reads_block [OF n]) (use LIST.prems in \<open>simp_all add: paren_def\<close>)
  have p: "parses parsepipe 3 [41, 38, 59] line (show_cmd (LIST l r) 3) (LIST l r)" by (rule parses_pipe, rule exec_plain) (use e in blast)
  show ?case unfolding reads_all_def using n e p parses_back [OF p] by (simp add: paren_def)
next
  case (BACK c)
  have "parses parse_back 3 [41, 59] line (show_cmd c 1 @ amps (Suc j)) ((BACK ^^ Suc j) c)" for j using BACK by (simp only: reads_all_def cmd_ok.simps)
  then have b: "parses parse_back 3 [41, 59] line (show_cmd (BACK c) 1 @ amps j) ((BACK ^^ j) (BACK c))" for j
    by (simp add: paren_def amps_def funpow_swap1)
  have n: "parses parseline 4 [41] line (show_cmd (BACK c) 0) (BACK c)" using parses_line [OF back_plain [OF b]] by (simp add: paren_def)
  have e: "\<forall>rs. (\<forall>r\<in>set rs. redir_ok r) \<longrightarrow> parses parseexec 2 [124, 41, 38, 59] line (show_cmd (BACK c) 3 @ show_redirs rs) (wrap (BACK c) rs)"
    by (rule reads_block [OF n]) (use BACK.prems in \<open>simp_all add: paren_def\<close>)
  have p: "parses parsepipe 3 [41, 38, 59] line (show_cmd (BACK c) 3) (BACK c)" by (rule parses_pipe, rule exec_plain) (use e in blast)
  show ?case unfolding reads_all_def using n e p b by (simp add: paren_def)
qed

lemma shown_no_NUL: "cmd_ok c \<Longrightarrow> 0 \<notin> set (show_cmd c k)"
  by (induction c arbitrary: k) (auto simp: paren_def is_word_def word_char_def redir_ok_def show_redir_def split: if_splits)

lemma shown_parsed:
  assumes "cmd_ok c"
  shows "\<exists>c' buf. parsecmd (show_cmd c 0) = Ok (c', buf) \<and> map_cmd (\<lambda>(q, e). cstring buf q) c' = c"
proof -
  let ?line = "show_cmd c 0"
  note nz = shown_no_NUL [OF assms, of 0]
  have l: "looks ?line 0 (?line @ [])" using cmd_nonblank [OF assms, of 0] by (simp add: looks_def)
  have "parses parseline 4 [41] ?line ?line c" using reads_shown [OF assms] by (simp add: reads_all_def)
  from parsesD [OF this l, of "4 * length ?line + 4"] obtain c' where
    c: "parseline (4 * length ?line + 4) ?line 0 = Ok (c', length ?line)" "map_cmd (slice ?line) c' = c" by (auto simp: follows_def)
  have "words ?line (set_cmd c')" using parser_ends(1) [OF nz, of 0 "4 * length ?line + 4"] c(1) by (simp add: parsed_def)
  from cstring_slice [OF this] have "map_cmd (\<lambda>(q, e). cstring (nulterminate c' ?line) q) c' = map_cmd (slice ?line) c'"
    by (intro cmd.map_cong0) auto
  moreover have "parsecmd ?line = Ok (c', nulterminate c' ?line)"
    using c(1) by (simp add: parsecmd_def peek_def skip_ws_def)
  ultimately show ?thesis using c(2) by auto
qed

text \<open>
  C31.  Every command that can be typed is parsed back from its printed form: the shell builds the same
  tree of pipes, lists, background commands, blocks and redirections, and the C strings that its
  pointers point to are the words of the command.
\<close>

theorem parsecmd_shown:
  assumes "cmd_ok c"
  shows "\<exists>c' buf. parsecmd (show_cmd c 0) = Ok (c', buf) \<and> map_cmd (\<lambda>(q, e). cstring buf q) c' = c"
  using assms by (rule shown_parsed)

theorem parsecmd_shown_witness:
  "\<exists>c' buf. parsecmd [108, 115, 32, 124, 32, 119, 99, 32, 62, 32, 120, 32, 38, 32] = Ok (c', buf) \<and>
     map_cmd (\<lambda>(q, e). cstring buf q) c' =
     BACK (PIPE (EXEC [[108, 115]]) (REDIR (EXEC [[119, 99]]) [120] (O_WRONLY OR O_CREATE OR O_TRUNC) 1))"
proof -
  let ?c = "BACK (PIPE (EXEC [[108, 115]]) (REDIR (EXEC [[119, 99]]) [120] (O_WRONLY OR O_CREATE OR O_TRUNC) 1)) :: byte list cmd"
  have "cmd_ok ?c" by (simp add: MAXARGS_def is_word_def word_char_def whitespace_def symbols_def redir_ok_def)
  from parsecmd_shown [OF this] show ?thesis by (simp add: paren_def show_redir_def)
qed

theorem parsecmd_total_witness:
  "(\<exists>msg. parsecmd [40, 108, 115] = Panic msg) \<or> (\<exists>c buf. parsecmd [40, 108, 115] = Ok (c, buf))"
  using parsecmd_total [of "[40, 108, 115]"] by auto

end
