(* ===== verification/Runcmd.thy ===== *)
theory Runcmd
  imports Shell
begin

text \<open>
  The part of the shell that runs commands (\<open>runcmd\<close> and \<open>main\<close> of \<open>user/sh.c\<close>).  A process is the tree of
  the system calls it makes, with a branch for every answer it distinguishes.  \<open>run\<close> gives the programs
  that are started, each with its open files, when the calls succeed that the table of descriptors
  allows; it allocates the lowest free descriptor as \<open>fdalloc\<close> of the kernel does.
\<close>

section \<open>Processes\<close>

datatype prog =
    PExit nat
  | PExec "byte list list" prog
  | PClose int prog
  | POpen "byte list" u32 "int \<Rightarrow> prog"
  | PPipe "(nat \<times> nat) option \<Rightarrow> prog"
  | PDup nat prog
  | PFork prog prog prog
  | PWait prog
  | PChdir "byte list" "int \<Rightarrow> prog"
  | PPrint "byte list" "byte list list" prog
  | PStuck

text \<open>\<open>panic\<close> and \<open>fork1\<close>.\<close>

definition sh_panic :: "byte list \<Rightarrow> prog" where
  "sh_panic s = PPrint (asc ''%s'' @ [10]) [s] (PExit 1)"

definition fork1 :: "prog \<Rightarrow> prog \<Rightarrow> prog" where
  "fork1 ch par = PFork ch par (sh_panic (asc ''fork''))"

primrec runcmd :: "byte list cmd \<Rightarrow> prog" where
  "runcmd (EXEC argv) =
     (if argv = [] then PExit 1
      else PExec argv (PPrint (asc ''exec %s failed'' @ [10]) [hd argv] (PExit 0)))"
| "runcmd (REDIR c f mode fd) =
     PClose (int fd) (POpen f mode (\<lambda>r.
       if r < 0 then PPrint (asc ''open %s failed'' @ [10]) [f] (PExit 1) else runcmd c))"
| "runcmd (LIST l r) = fork1 (runcmd l) (PWait (runcmd r))"
| "runcmd (PIPE l r) =
     PPipe (\<lambda>p. case p of
       None \<Rightarrow> sh_panic (asc ''pipe'')
     | Some (p0, p1) \<Rightarrow>
         fork1 (PClose 1 (PDup p1 (PClose (int p0) (PClose (int p1) (runcmd l)))))
           (fork1 (PClose 0 (PDup p0 (PClose (int p0) (PClose (int p1) (runcmd r)))))
             (PClose (int p0) (PClose (int p1) (PWait (PWait (PExit 0)))))))"
| "runcmd (BACK c) = fork1 (runcmd c) (PExit 0)"

text \<open>The strings that the pointers of a parsed command point to.\<close>

definition strings :: "pcmd \<times> byte list \<Rightarrow> byte list cmd" where
  "strings = (\<lambda>(c, buf). map_cmd (\<lambda>(q, _). cstring buf q) c)"

text \<open>
  \<open>main\<close>: the loop that opens the console, with the turns that are left, and the loop over the lines
  that \<open>gets\<close> delivers, the empty one at the end of the input.
\<close>

primrec open_console :: "nat \<Rightarrow> prog \<Rightarrow> prog" where
  "open_console 0 k = PStuck"
| "open_console (Suc n) k =
     POpen (asc ''console'') O_RDWR (\<lambda>fd.
       if fd \<ge> 0 then (if fd \<ge> 3 then PClose fd k else open_console n k) else k)"

primrec sh_loop :: "byte list list \<Rightarrow> prog" where
  "sh_loop [] = PExit 0"
| "sh_loop (buf # ls) =
     PPrint (asc ''$ '') []
       (if buf = [] then PExit 0
        else if take 3 buf = asc ''cd '' then
          PChdir (drop 3 (butlast buf)) (\<lambda>r.
            if r < 0 then PPrint (asc ''cannot cd %s'' @ [10]) [drop 3 (butlast buf)] (sh_loop ls) else sh_loop ls)
        else
          fork1 (case parsecmd buf of
                   Ok x \<Rightarrow> runcmd (strings x)
                 | Panic msg \<Rightarrow> sh_panic (asc msg)
                 | _ \<Rightarrow> PStuck)
            (PWait (sh_loop ls)))"

definition sh_main :: "byte list list \<Rightarrow> prog" where
  "sh_main ls = open_console (NOFILE + 1) (sh_loop ls)"

section \<open>Descriptors\<close>

datatype fobj = OFile "byte list" u32 | OPipeR nat | OPipeW nat | OOther nat

type_synonym fds = "nat \<Rightarrow> fobj option"

definition lowest :: "fds \<Rightarrow> nat option" where
  "lowest f = find (\<lambda>d. f d = None) [0..<NOFILE]"

datatype event = Started "byte list list" fds | Stuck

text \<open>The number names the next pipe.\<close>

primrec run :: "prog \<Rightarrow> fds \<Rightarrow> nat \<Rightarrow> event list \<times> nat" where
  "run (PExit c) f n = ([], n)"
| "run (PExec argv k) f n = ([Started argv f], n)"
| "run (PClose d k) f n = run k (f(nat d := None)) n"
| "run (POpen nm m k) f n =
     (case lowest f of None \<Rightarrow> run (k (-1)) f n | Some d \<Rightarrow> run (k (int d)) (f(d \<mapsto> OFile nm m)) n)"
| "run (PPipe k) f n =
     (case lowest f of
        None \<Rightarrow> run (k None) f n
      | Some a \<Rightarrow>
          (case lowest (f(a \<mapsto> OPipeR n)) of
             None \<Rightarrow> run (k None) f n
           | Some b \<Rightarrow> run (k (Some (a, b))) (f(a \<mapsto> OPipeR n, b \<mapsto> OPipeW n)) (n + 1)))"
| "run (PDup d k) f n = (case lowest f of None \<Rightarrow> run k f n | Some e \<Rightarrow> run k (f(e := f d)) n)"
| "run (PFork c p q) f n = (let (es, n) = run c f n; (es', n) = run p f n in (es @ es', n))"
| "run (PWait k) f n = run k f n"
| "run (PChdir p k) f n = run (k 0) f n"
| "run (PPrint fmt args k) f n = run k f n"
| "run PStuck f n = ([Stuck], n)"

section \<open>What a command line means\<close>

text \<open>
  Which programs a command starts and with which files: a redirection replaces one descriptor, a pipe
  connects the output of its left side with the input of its right side, and nothing else changes.
\<close>

primrec wiring :: "byte list cmd \<Rightarrow> fds \<Rightarrow> nat \<Rightarrow> event list \<times> nat" where
  "wiring (EXEC argv) f n = (if argv = [] then [] else [Started argv f], n)"
| "wiring (REDIR c nm mode fd) f n = wiring c (f(fd \<mapsto> OFile nm mode)) n"
| "wiring (LIST l r) f n = (let (es, n) = wiring l f n; (es', n) = wiring r f n in (es @ es', n))"
| "wiring (PIPE l r) f n =
     (let (es, k) = wiring l (f(1 \<mapsto> OPipeW n)) (n + 1); (es', k) = wiring r (f(0 \<mapsto> OPipeR n)) k in (es @ es', k))"
| "wiring (BACK c) f n = wiring c f n"

primrec session :: "byte list list \<Rightarrow> fds \<Rightarrow> nat \<Rightarrow> event list \<times> nat" where
  "session [] f n = ([], n)"
| "session (buf # ls) f n =
     (if buf = [] then ([], n)
      else if take 3 buf = asc ''cd '' then session ls f n
      else
        let (es, n) = (case parsecmd buf of Ok x \<Rightarrow> wiring (strings x) f n | _ \<Rightarrow> ([], n));
            (es', n) = session ls f n in
        (es @ es', n))"

text \<open>The standard descriptors are open and two others are free.\<close>

definition fds_ok :: "fds \<Rightarrow> bool" where
  "fds_ok f \<longleftrightarrow> f 0 \<noteq> None \<and> f 1 \<noteq> None \<and> (\<exists>a b. a < b \<and> b < NOFILE \<and> f a = None \<and> f b = None)"

lemma lowest_Some: "lowest f = Some d \<Longrightarrow> f d = None \<and> d < NOFILE"
  by (auto simp: lowest_def find_Some_iff)

lemma lowest_ex: "d < NOFILE \<Longrightarrow> f d = None \<Longrightarrow> \<exists>e. lowest f = Some e"
  by (cases "lowest f") (auto simp: lowest_def find_None_iff)

lemma lowest_std: "lowest (f(0 := None)) = Some 0" "f 0 \<noteq> None \<Longrightarrow> lowest (f(1 := None)) = Some 1"
  by (simp_all add: lowest_def NOFILE_def upt_conv_Cons)

primrec std :: "'w cmd \<Rightarrow> bool" where
  "std (EXEC argv) = True"
| "std (REDIR c f mode fd) = (std c \<and> fd \<in> {0, 1})"
| "std (PIPE l r) = (std l \<and> std r)"
| "std (LIST l r) = (std l \<and> std r)"
| "std (BACK c) = std c"

lemma fds_ok_upd: "fds_ok f \<Longrightarrow> d \<in> {0, 1} \<Longrightarrow> fds_ok (f(d \<mapsto> x))"
proof -
  assume f: "fds_ok f" "d \<in> {0, 1}"
  then obtain a b where ab: "a < b" "b < NOFILE" "f a = None" "f b = None" "f 0 \<noteq> None" "f 1 \<noteq> None" by (auto simp: fds_ok_def)
  then have "a \<noteq> d" "b \<noteq> d" using f(2) by auto
  then have "a < b \<and> b < NOFILE \<and> (f(d \<mapsto> x)) a = None \<and> (f(d \<mapsto> x)) b = None" using ab by simp
  then have "\<exists>a b. a < b \<and> b < NOFILE \<and> (f(d \<mapsto> x)) a = None \<and> (f(d \<mapsto> x)) b = None" by blast
  then show "fds_ok (f(d \<mapsto> x))" unfolding fds_ok_def using ab(5,6) by simp
qed

lemma pipe_fds:
  assumes "fds_ok f"
  obtains a b where "lowest f = Some a" "lowest (f(a \<mapsto> x)) = Some b" "a \<noteq> b" "a \<notin> {0, 1}" "b \<notin> {0, 1}" "f a = None" "f b = None"
proof -
  obtain c d where cd: "c < d" "d < NOFILE" "f c = None" "f d = None" using assms by (auto simp: fds_ok_def)
  then obtain a where a: "lowest f = Some a" "f a = None" using lowest_ex [of c f] lowest_Some by fastforce
  have "(f(a \<mapsto> x)) (if a = c then d else c) = None" "(if a = c then d else c) < NOFILE" using cd by auto
  then obtain b where b: "lowest (f(a \<mapsto> x)) = Some b" using lowest_ex by blast
  then have "(f(a \<mapsto> x)) b = None" using lowest_Some by blast
  then have "b \<noteq> a" "f b = None" by (auto split: if_splits)
  moreover have "a \<noteq> 0" "a \<noteq> 1" "b \<noteq> 0" "b \<noteq> 1" using a(2) \<open>f b = None\<close> assms unfolding fds_ok_def by metis+
  then have "a \<notin> {0, 1}" "b \<notin> {0, 1}" by simp_all
  ultimately show thesis using that a b by metis
qed

lemma runcmd_wiring: "std c \<Longrightarrow> fds_ok f \<Longrightarrow> run (runcmd c) f n = wiring c f n"
proof (induction c arbitrary: f n)
  case (REDIR c nm mode fd)
  have "lowest (f(fd := None)) = Some fd" using REDIR.prems lowest_std [of f] by (auto simp: fds_ok_def)
  then show ?case using REDIR fds_ok_upd by simp
next
  case (PIPE l r)
  obtain a b where ab: "lowest f = Some a" "lowest (f(a \<mapsto> OPipeR n)) = Some b" "a \<noteq> b" "a \<notin> {0, 1}" "b \<notin> {0, 1}" "f a = None" "f b = None"
    using pipe_fds [OF PIPE.prems(2)] by metis
  let ?f = "f(a \<mapsto> OPipeR n, b \<mapsto> OPipeW n)"
  have l: "lowest (?f(1 := None)) = Some 1" "lowest (?f(0 := None)) = Some 0" using lowest_std [of ?f] PIPE.prems(2) by (auto simp: fds_ok_def)
  have e: "?f(1 := Some (OPipeW n), a := None, b := None) = f(1 \<mapsto> OPipeW n)" "?f(0 := Some (OPipeR n), a := None, b := None) = f(0 \<mapsto> OPipeR n)"
    using ab by (auto simp: fun_eq_iff)
  have "run (runcmd l) (f(1 \<mapsto> OPipeW n)) m = wiring l (f(1 \<mapsto> OPipeW n)) m" "run (runcmd r) (f(0 \<mapsto> OPipeR n)) m = wiring r (f(0 \<mapsto> OPipeR n)) m" for m
    using PIPE fds_ok_upd by simp_all
  then show ?case using ab(1-5) l e by (simp add: fork1_def split: prod.splits)
qed (auto simp: fork1_def split: prod.splits)

section \<open>Opening the console\<close>

definition console_fds :: "fds \<Rightarrow> fds" where
  "console_fds f = (\<lambda>d. if d < 3 \<and> f d = None then Some (OFile (asc ''console'') O_RDWR) else f d)"

lemma open_console_run:
  "card {d. d < 3 \<and> f d = None} < m \<Longrightarrow> \<forall>d\<ge>3. f d = None \<Longrightarrow> run (open_console m k) f n = run k (console_fds f) n"
proof (induction m arbitrary: f)
  case (Suc m)
  obtain d where d: "lowest f = Some d" using lowest_ex [of 3 f] Suc.prems(2) by (auto simp: NOFILE_def)
  then have m: "f d = None" "\<forall>e<d. f e \<noteq> None" by (auto simp: lowest_def find_Some_iff)
  let ?g = "f(d \<mapsto> OFile (asc ''console'') O_RDWR)"
  show ?case
  proof (cases "d < 3")
    case True
    have "{e. e < 3 \<and> f e = None} = insert d {e. e < 3 \<and> ?g e = None}" using True m(1) by auto
    then have "card {e. e < 3 \<and> f e = None} = Suc (card {e. e < 3 \<and> ?g e = None})" by simp
    then have "run (open_console m k) ?g n = run k (console_fds ?g) n" using Suc.prems True by (intro Suc.IH) auto
    moreover have "console_fds ?g = console_fds f" using True m(1) by (auto simp: console_fds_def)
    ultimately show ?thesis using d True by simp
  next
    case False
    then have "?g(d := None) = f" "console_fds f = f" using m by (auto simp: console_fds_def fun_eq_iff)
    then show ?thesis using d False by simp
  qed
qed simp

section \<open>The parser only redirects the standard descriptors\<close>

definition gives :: "('a \<Rightarrow> bool) \<Rightarrow> 'a res \<Rightarrow> bool" where
  "gives Q r \<longleftrightarrow> (\<forall>x. r = Ok x \<longrightarrow> Q x)"

lemma gives_simps [simp]: "gives Q (Ok x) \<longleftrightarrow> Q x" "gives Q (Panic e)" "gives Q Fault" "gives Q Wait" "gives Q Diverge"
  by (simp_all add: gives_def)

lemma gives_bind: "gives P r \<Longrightarrow> (\<And>x. P x \<Longrightarrow> gives Q (f x)) \<Longrightarrow> gives Q (bindR r f)"
  by (cases r) simp_all

lemma gives_loop:
  assumes "I s" "\<And>s. I s \<Longrightarrow> gives (case_ctl I Q) (body s)"
  shows "gives Q (loopR body s)"
proof -
  let ?b = "\<lambda>t. case t of Ok (Next _) \<Rightarrow> True | _ \<Rightarrow> False" and ?c = "\<lambda>t. case t of Ok (Next u) \<Rightarrow> body u | _ \<Rightarrow> t"
  have "gives (case_ctl I Q) t" if "while_option ?b ?c (Ok (Next s)) = Some t" for t
    by (rule while_option_rule [where P = "gives (case_ctl I Q)", OF _ that]) (use assms in \<open>auto split: res.splits ctl.splits\<close>)
  then show ?thesis unfolding loopR_def
    by (cases "while_option ?b ?c (Ok (Next s))") (auto intro: gives_bind split: ctl.splits)
qed

definition std_redirs :: "redir list \<Rightarrow> bool" where
  "std_redirs rs \<longleftrightarrow> (\<forall>r\<in>set rs. snd (snd r) \<in> {0, 1})"

lemma std_redirs_simps [simp]: "std_redirs []" "std_redirs (rs @ redirect tok f) = std_redirs rs"
  by (auto simp: std_redirs_def redirect_def)

lemma std_wrap: "std c \<Longrightarrow> std_redirs rs \<Longrightarrow> std (wrap c rs)"
  by (induction rs arbitrary: c) (auto simp: wrap_def std_redirs_def)

lemma parseredirs_std:
  assumes "std_redirs rs"
  shows "gives (\<lambda>x. std_redirs (fst x)) (parseredirs line rs s)"
  unfolding parseredirs_def
proof (rule gives_loop [where I = "\<lambda>x. std_redirs (fst x)"])
  show "std_redirs (fst (rs, s))" using assms by simp
  fix x :: "redir list \<times> nat" assume "std_redirs (fst x)"
  then show "gives (case_ctl (\<lambda>x. std_redirs (fst x)) (\<lambda>x. std_redirs (fst x))) (parseredirs_turn line x)"
    by (auto simp: parseredirs_turn_def Let_def split: prod.splits)
qed

lemma parseargs_std:
  assumes "std_redirs rs"
  shows "gives (\<lambda>x. std (fst x)) (loopR (parseargs_turn line) ([], rs, s))"
proof (rule gives_loop [where I = "\<lambda>x. std_redirs (fst (snd x))"])
  show "std_redirs (fst (snd ([], rs, s)))" using assms by simp
  fix x :: "(nat \<times> nat) list \<times> redir list \<times> nat" assume "std_redirs (fst (snd x))"
  then obtain argv us s1 where x: "x = (argv, us, s1)" "std_redirs us" by (cases x) auto
  have "gives (case_ctl (\<lambda>x. std_redirs (fst (snd x))) (\<lambda>x :: pcmd \<times> nat. std (fst x))) (bindR (parseredirs line us s3) (\<lambda>(rs, s). Ok (Next (argv @ [a], rs, s))))" for s3 a
    by (rule gives_bind [OF parseredirs_std [OF x(2)]]) auto
  moreover have "std (wrap (EXEC argv) us)" using std_wrap x(2) by simp
  ultimately show "gives (case_ctl (\<lambda>x. std_redirs (fst (snd x))) (\<lambda>x. std (fst x))) (parseargs_turn line x)"
    unfolding x(1) parseargs_turn_def by (simp split: prod.splits)
qed

lemma parseback_std:
  assumes "std c"
  shows "gives (\<lambda>x. std (fst x)) (loopR (parseback_turn line) (c, s))"
proof (rule gives_loop [where I = "\<lambda>x. std (fst x)"])
  show "std (fst (c, s))" using assms by simp
qed (auto simp: parseback_turn_def Let_def split: prod.splits)

lemma parser_std:
  "gives (\<lambda>x. std (fst x)) (parseline n line s)" "gives (\<lambda>x. std (fst x)) (parsepipe n line s)"
  "gives (\<lambda>x. std (fst x)) (parseexec n line s)" "gives (\<lambda>x. std (fst x)) (parseblock n line s)"
proof (induction n arbitrary: s)
  case (Suc n)
  let ?Q = "\<lambda>x. std (fst x)"
  { case 1
    have "gives ?Q (bindR (parseline n line s2) (\<lambda>(d, s). Ok (LIST c d, s)))" if "std c" for c s2
      by (rule gives_bind [OF Suc.IH(1)]) (use that in auto)
    then have "gives ?Q (bindR (loopR (parseback_turn line) (c, s1)) (\<lambda>(c, s). let (more, s) = peek line s [59] in
        if more then let (_, _, s) = gettoken line s in bindR (parseline n line s) (\<lambda>(d, s). Ok (LIST c d, s)) else Ok (c, s)))"
      if "std c" for c s1 by (intro gives_bind [OF parseback_std [OF that]]) (auto split: prod.splits)
    then show ?case by (auto intro!: gives_bind [OF Suc.IH(2)]) }
  { case 2
    have "gives ?Q (bindR (parsepipe n line s2) (\<lambda>(d, s). Ok (PIPE c d, s)))" if "std c" for c s2
      by (rule gives_bind [OF Suc.IH(2)]) (use that in auto)
    then show ?case by (auto intro!: gives_bind [OF Suc.IH(3)] split: prod.splits) }
  { case 3
    have "gives ?Q (bindR (parseredirs line [] s1) (\<lambda>(rs, s). loopR (parseargs_turn line) ([], rs, s)))" for s1
      by (rule gives_bind [OF parseredirs_std]) (auto intro: parseargs_std)
    then show ?case using Suc.IH(4) by (simp split: prod.splits) }
  { case 4
    have "gives ?Q (bindR (parseredirs line [] s1) (\<lambda>(rs, s). Ok (wrap c rs, s)))" if "std c" for s1 c
      by (rule gives_bind [OF parseredirs_std]) (use that std_wrap in auto)
    then show ?case by (auto intro!: gives_bind [OF Suc.IH(1)] simp: Let_def split: prod.splits) }
qed simp_all

lemma parsecmd_std: "parsecmd line = Ok x \<Longrightarrow> std (strings x)"
proof -
  have m: "std (map_cmd g c) = std c" for g c by (induction c) auto
  have "gives (\<lambda>x. std (fst x)) (parsecmd line)" unfolding parsecmd_def
    by (rule gives_bind [OF parser_std(1)]) (auto simp: Let_def)
  then show "parsecmd line = Ok x \<Longrightarrow> std (strings x)" by (auto simp: gives_def strings_def m split: prod.splits)
qed

lemma parsecmd_ends: "0 \<notin> set line \<Longrightarrow> ends (\<lambda>_. True) (parsecmd line)"
  unfolding parsecmd_def by (rule ends_bind [OF parser_ends(1) [where s = 0]]) (auto simp: Let_def)

section \<open>Properties\<close>



end
