(* ===== verification/Virtio.thy ===== *)
theory Virtio
  imports Pipe
begin

text \<open>
  The driver of the disk (\<open>kernel/virtio_disk.c\<close>): descriptors, the two rings shared with the device, requests and
  the interrupt handler, and the start of the device.  The pages of the queue and the driver's own variables are the record
  \<open>vdisk\<close>; the addresses in descriptors name what they point to.  A request is cut where the process
  sleeps.  The buffer cache (\<open>Bio\<close>) uses the driver through its effect on blocks.
\<close>

section \<open>Data\<close>

definition NUM :: nat where "NUM = 8"
definition VRING_DESC_F_NEXT :: "16 word" where "VRING_DESC_F_NEXT = 1"
definition VRING_DESC_F_WRITE :: "16 word" where "VRING_DESC_F_WRITE = 2"
definition VIRTIO_BLK_T_IN :: u32 where "VIRTIO_BLK_T_IN = 0"
definition VIRTIO_BLK_T_OUT :: u32 where "VIRTIO_BLK_T_OUT = 1"

text \<open>Nothing, \<open>&disk.ops[i]\<close>, \<open>b->data\<close>, \<open>&disk.info[i].status\<close>.\<close>

datatype vaddr = VNull | VOps nat | VData nat | VStatus nat

record virtq_desc =
  d_addr :: vaddr
  d_len :: u32
  d_flags :: "16 word"
  d_next :: "16 word"

record virtio_blk_req =
  q_type :: u32
  q_reserved :: u32
  q_sector :: u64

text \<open>\<open>used_dev\<close> is the index that the device keeps in the used ring, \<open>b_disk\<close> the field \<open>disk\<close> of the buffers.\<close>

record vdisk =
  desc :: "nat \<Rightarrow> virtq_desc"
  avail_ring :: "nat \<Rightarrow> 16 word"
  avail_idx :: "16 word"
  used_ring :: "nat \<Rightarrow> u32"
  used_dev :: "16 word"
  dfree :: "nat \<Rightarrow> bool"
  used_idx :: "16 word"
  info_b :: "nat \<Rightarrow> nat option"
  info_status :: "nat \<Rightarrow> byte"
  ops :: "nat \<Rightarrow> virtio_blk_req"
  b_disk :: "nat \<Rightarrow> bool"
  notifies :: nat
  int_status :: u32
  int_ack :: u32

section \<open>Start\<close>

definition VIRTIO_MMIO_MAGIC_VALUE :: u32 where "VIRTIO_MMIO_MAGIC_VALUE = 0x000"
definition VIRTIO_MMIO_VERSION :: u32 where "VIRTIO_MMIO_VERSION = 0x004"
definition VIRTIO_MMIO_DEVICE_ID :: u32 where "VIRTIO_MMIO_DEVICE_ID = 0x008"
definition VIRTIO_MMIO_VENDOR_ID :: u32 where "VIRTIO_MMIO_VENDOR_ID = 0x00c"
definition VIRTIO_MMIO_DEVICE_FEATURES :: u32 where "VIRTIO_MMIO_DEVICE_FEATURES = 0x010"
definition VIRTIO_MMIO_DRIVER_FEATURES :: u32 where "VIRTIO_MMIO_DRIVER_FEATURES = 0x020"
definition VIRTIO_MMIO_QUEUE_SEL :: u32 where "VIRTIO_MMIO_QUEUE_SEL = 0x030"
definition VIRTIO_MMIO_QUEUE_NUM_MAX :: u32 where "VIRTIO_MMIO_QUEUE_NUM_MAX = 0x034"
definition VIRTIO_MMIO_QUEUE_NUM :: u32 where "VIRTIO_MMIO_QUEUE_NUM = 0x038"
definition VIRTIO_MMIO_QUEUE_READY :: u32 where "VIRTIO_MMIO_QUEUE_READY = 0x044"
definition VIRTIO_MMIO_STATUS :: u32 where "VIRTIO_MMIO_STATUS = 0x070"
definition VIRTIO_MMIO_QUEUE_DESC_LOW :: u32 where "VIRTIO_MMIO_QUEUE_DESC_LOW = 0x080"
definition VIRTIO_MMIO_QUEUE_DESC_HIGH :: u32 where "VIRTIO_MMIO_QUEUE_DESC_HIGH = 0x084"
definition VIRTIO_MMIO_DRIVER_DESC_LOW :: u32 where "VIRTIO_MMIO_DRIVER_DESC_LOW = 0x090"
definition VIRTIO_MMIO_DRIVER_DESC_HIGH :: u32 where "VIRTIO_MMIO_DRIVER_DESC_HIGH = 0x094"
definition VIRTIO_MMIO_DEVICE_DESC_LOW :: u32 where "VIRTIO_MMIO_DEVICE_DESC_LOW = 0x0a0"
definition VIRTIO_MMIO_DEVICE_DESC_HIGH :: u32 where "VIRTIO_MMIO_DEVICE_DESC_HIGH = 0x0a4"
definition VIRTIO_CONFIG_S_ACKNOWLEDGE :: u32 where "VIRTIO_CONFIG_S_ACKNOWLEDGE = 1"
definition VIRTIO_CONFIG_S_DRIVER :: u32 where "VIRTIO_CONFIG_S_DRIVER = 2"
definition VIRTIO_CONFIG_S_DRIVER_OK :: u32 where "VIRTIO_CONFIG_S_DRIVER_OK = 4"
definition VIRTIO_CONFIG_S_FEATURES_OK :: u32 where "VIRTIO_CONFIG_S_FEATURES_OK = 8"
definition VIRTIO_BLK_F_RO :: nat where "VIRTIO_BLK_F_RO = 5"
definition VIRTIO_BLK_F_SCSI :: nat where "VIRTIO_BLK_F_SCSI = 7"
definition VIRTIO_BLK_F_CONFIG_WCE :: nat where "VIRTIO_BLK_F_CONFIG_WCE = 11"
definition VIRTIO_BLK_F_MQ :: nat where "VIRTIO_BLK_F_MQ = 12"
definition VIRTIO_F_ANY_LAYOUT :: nat where "VIRTIO_F_ANY_LAYOUT = 27"
definition VIRTIO_RING_F_INDIRECT_DESC :: nat where "VIRTIO_RING_F_INDIRECT_DESC = 28"
definition VIRTIO_RING_F_EVENT_IDX :: nat where "VIRTIO_RING_F_EVENT_IDX = 29"

text \<open>A device: what a register reads after the register writes so far.\<close>

type_synonym mmio = "(u32 \<times> u32) list \<Rightarrow> u32 \<Rightarrow> u32"

definition clear_features :: "u64 \<Rightarrow> u64" where
  "clear_features f =
     foldl (\<lambda>f n. f AND NOT (push_bit n 1)) f
       [VIRTIO_BLK_F_RO, VIRTIO_BLK_F_SCSI, VIRTIO_BLK_F_CONFIG_WCE, VIRTIO_BLK_F_MQ, VIRTIO_F_ANY_LAYOUT,
        VIRTIO_RING_F_EVENT_IDX, VIRTIO_RING_F_INDIRECT_DESC]"

text \<open>
  The three pages of the queue are allocated and cleared; the record \<open>vdisk\<close> stands for what they
  hold.  The result also has the register writes in order.
\<close>

definition queue_start :: "mmio \<Rightarrow> u32 \<Rightarrow> (u32 \<times> u32) list \<Rightarrow> vdisk \<times> kst \<Rightarrow> ((u32 \<times> u32) list \<times> vdisk \<times> kst) res" where
  "queue_start dev status w = (\<lambda>(v, s).
     let w = w @ [(VIRTIO_MMIO_QUEUE_SEL, 0)] in
     if dev w VIRTIO_MMIO_QUEUE_READY \<noteq> 0 then Panic ''virtio disk should not be ready''
     else
       let max = dev w VIRTIO_MMIO_QUEUE_NUM_MAX in
       if max = 0 then Panic ''virtio disk has no queue 0''
       else if unat max < NUM then Panic ''virtio disk max queue too short''
       else
         let (d, m) = kalloc (km s); (a, m) = kalloc m; (u, m) = kalloc m in
         if d = 0 \<or> a = 0 \<or> u = 0 then Panic ''virtio disk kalloc''
         else
           let s = s\<lparr>km := m\<lparr>pmem := memset (memset (memset (pmem m) d 0 (ucast PGSIZE)) a 0 (ucast PGSIZE)) u 0 (ucast PGSIZE)\<rparr>\<rparr>;
               v = v\<lparr>desc := (\<lambda>_. \<lparr>d_addr = VNull, d_len = 0, d_flags = 0, d_next = 0\<rparr>), avail_ring := (\<lambda>_. 0), avail_idx := 0,
                     used_ring := (\<lambda>_. 0), used_dev := 0\<rparr>;
               w = w @ [(VIRTIO_MMIO_QUEUE_NUM, of_nat NUM),
                        (VIRTIO_MMIO_QUEUE_DESC_LOW, ucast d), (VIRTIO_MMIO_QUEUE_DESC_HIGH, ucast (drop_bit 32 d)),
                        (VIRTIO_MMIO_DRIVER_DESC_LOW, ucast a), (VIRTIO_MMIO_DRIVER_DESC_HIGH, ucast (drop_bit 32 a)),
                        (VIRTIO_MMIO_DEVICE_DESC_LOW, ucast u), (VIRTIO_MMIO_DEVICE_DESC_HIGH, ucast (drop_bit 32 u)),
                        (VIRTIO_MMIO_QUEUE_READY, 1)];
               v = v\<lparr>dfree := (\<lambda>i. if i < NUM then True else dfree v i)\<rparr> in
           Ok (w @ [(VIRTIO_MMIO_STATUS, status OR VIRTIO_CONFIG_S_DRIVER_OK)], v, s))"

definition virtio_disk_init :: "mmio \<Rightarrow> vdisk \<times> kst \<Rightarrow> ((u32 \<times> u32) list \<times> vdisk \<times> kst) res" where
  "virtio_disk_init dev x =
     (if dev [] VIRTIO_MMIO_MAGIC_VALUE \<noteq> 0x74726976 \<or> dev [] VIRTIO_MMIO_VERSION \<noteq> 2 \<or>
         dev [] VIRTIO_MMIO_DEVICE_ID \<noteq> 2 \<or> dev [] VIRTIO_MMIO_VENDOR_ID \<noteq> 0x554d4551
      then Panic ''could not find virtio disk''
      else
        let w = [(VIRTIO_MMIO_STATUS, 0)];
            status = VIRTIO_CONFIG_S_ACKNOWLEDGE;
            w = w @ [(VIRTIO_MMIO_STATUS, status)];
            status = status OR VIRTIO_CONFIG_S_DRIVER;
            w = w @ [(VIRTIO_MMIO_STATUS, status)];
            features = clear_features (ucast (dev w VIRTIO_MMIO_DEVICE_FEATURES));
            w = w @ [(VIRTIO_MMIO_DRIVER_FEATURES, ucast features)];
            status = status OR VIRTIO_CONFIG_S_FEATURES_OK;
            w = w @ [(VIRTIO_MMIO_STATUS, status)];
            status = dev w VIRTIO_MMIO_STATUS in
        if status AND VIRTIO_CONFIG_S_FEATURES_OK = 0 then Panic ''virtio disk FEATURES_OK unset''
        else queue_start dev status w x)"

section \<open>Descriptors\<close>

definition alloc_desc :: "vdisk \<Rightarrow> nat option \<times> vdisk" where
  "alloc_desc v =
     (case find (dfree v) [0..<NUM] of
        None \<Rightarrow> (None, v)
      | Some i \<Rightarrow> (Some i, v\<lparr>dfree := (dfree v)(i := False)\<rparr>))"

definition free_desc :: "nat \<Rightarrow> vdisk \<times> kst \<Rightarrow> (vdisk \<times> kst) res" where
  "free_desc i = (\<lambda>(v, s).
     if i \<ge> NUM then Panic ''free_desc 1''
     else if dfree v i then Panic ''free_desc 2''
     else
       bindR (kwakeup ChDiskFree s) (\<lambda>s.
       Ok (v\<lparr>desc := (desc v)(i := \<lparr>d_addr = VNull, d_len = 0, d_flags = 0, d_next = 0\<rparr>), dfree := (dfree v)(i := True)\<rparr>, s)))"

definition free_chain_turn :: "nat \<times> vdisk \<times> kst \<Rightarrow> (nat \<times> vdisk \<times> kst, vdisk \<times> kst) ctl res" where
  "free_chain_turn = (\<lambda>(i, v, s).
     let flag = d_flags (desc v i); nxt = unat (d_next (desc v i)) in
     bindR (free_desc i (v, s)) (\<lambda>(v, s).
     Ok (if flag AND VRING_DESC_F_NEXT \<noteq> 0 then Next (nxt, v, s) else Exit (v, s))))"

definition free_chain :: "nat \<Rightarrow> vdisk \<times> kst \<Rightarrow> (vdisk \<times> kst) res" where
  "free_chain i = (\<lambda>(v, s). loopR free_chain_turn (i, v, s))"

primrec free_descs :: "nat list \<Rightarrow> vdisk \<times> kst \<Rightarrow> (vdisk \<times> kst) res" where
  "free_descs [] x = Ok x"
| "free_descs (i # is) x = bindR (free_desc i x) (free_descs is)"

text \<open>The loop of \<open>alloc3_desc\<close> with \<open>n\<close> turns left and the indices found so far.\<close>

fun alloc_descs :: "nat \<Rightarrow> nat list \<Rightarrow> vdisk \<times> kst \<Rightarrow> (nat list option \<times> vdisk \<times> kst) res" where
  "alloc_descs 0 idx (v, s) = Ok (Some idx, v, s)"
| "alloc_descs (Suc n) idx (v, s) =
     (case alloc_desc v of
        (None, v) \<Rightarrow> bindR (free_descs idx (v, s)) (\<lambda>(v, s). Ok (None, v, s))
      | (Some i, v) \<Rightarrow> alloc_descs n (idx @ [i]) (v, s))"

definition alloc3_desc :: "vdisk \<times> kst \<Rightarrow> (nat list option \<times> vdisk \<times> kst) res" where
  "alloc3_desc x = alloc_descs 3 [] x"

section \<open>Requests\<close>

text \<open>The three descriptors, the command and the entry of the ring; the sector is computed in 32 bits.\<close>

definition format_request :: "nat \<Rightarrow> bool \<Rightarrow> u32 \<Rightarrow> nat \<Rightarrow> nat \<Rightarrow> nat \<Rightarrow> vdisk \<Rightarrow> vdisk" where
  "format_request b wr blockno i0 i1 i2 v =
     v\<lparr>ops := (ops v)(i0 := \<lparr>q_type = (if wr then VIRTIO_BLK_T_OUT else VIRTIO_BLK_T_IN), q_reserved = 0,
                               q_sector = ucast (blockno * of_nat (BSIZE div 512))\<rparr>),
       desc := (desc v)(
         i0 := \<lparr>d_addr = VOps i0, d_len = 16, d_flags = VRING_DESC_F_NEXT, d_next = of_nat i1\<rparr>,
         i1 := \<lparr>d_addr = VData b, d_len = of_nat BSIZE,
                d_flags = (if wr then 0 else VRING_DESC_F_WRITE) OR VRING_DESC_F_NEXT, d_next = of_nat i2\<rparr>,
         i2 := \<lparr>d_addr = VStatus i0, d_len = 1, d_flags = VRING_DESC_F_WRITE, d_next = 0\<rparr>),
       info_status := (info_status v)(i0 := 0xff),
       b_disk := (b_disk v)(b := True),
       info_b := (info_b v)(i0 := Some b),
       avail_ring := (avail_ring v)(unat (avail_idx v) mod NUM := of_nat i0),
       avail_idx := avail_idx v + 1,
       notifies := notifies v + 1\<rparr>"

text \<open>A request is done, or its process sleeps for lack of descriptors, or until the device has finished.\<close>

datatype rwcall = RwDone | RwNoDesc | RwAsleep nat

text \<open>\<open>virtio_disk_rw\<close> from its last loop on.\<close>

definition rw_wait :: "nat \<Rightarrow> nat \<Rightarrow> vdisk \<times> kst \<Rightarrow> (rwcall \<times> vdisk \<times> kst) res" where
  "rw_wait b i0 = (\<lambda>(v, s).
     if b_disk v b then bindR (onS (sleep (ChBuf b) LkVdisk) s) (\<lambda>s. Ok (RwAsleep i0, v, s))
     else
       bindR (free_chain i0 (v\<lparr>info_b := (info_b v)(i0 := None)\<rparr>, s)) (\<lambda>(v, s).
       bindR (krelease LkVdisk s) (\<lambda>s. Ok (RwDone, v, s))))"

definition rw_start :: "nat \<Rightarrow> bool \<Rightarrow> vdisk \<times> kst \<Rightarrow> (rwcall \<times> vdisk \<times> kst) res" where
  "rw_start b wr x =
     bindR (alloc3_desc x) (\<lambda>(r, v, s).
     case r of
       None \<Rightarrow> bindR (onS (sleep ChDiskFree LkVdisk) s) (\<lambda>s. Ok (RwNoDesc, v, s))
     | Some idx \<Rightarrow> rw_wait b (idx ! 0) (format_request b wr (bblockno (bufs s b)) (idx ! 0) (idx ! 1) (idx ! 2) v, s))"

definition vdisk_rw :: "nat \<Rightarrow> bool \<Rightarrow> vdisk \<times> kst \<Rightarrow> (rwcall \<times> vdisk \<times> kst) res" where
  "vdisk_rw b wr = (\<lambda>(v, s). bindR (kacquire LkVdisk s) (\<lambda>s. rw_start b wr (v, s)))"

definition vdisk_rw_retry :: "nat \<Rightarrow> bool \<Rightarrow> vdisk \<times> kst \<Rightarrow> (rwcall \<times> vdisk \<times> kst) res" where
  "vdisk_rw_retry b wr = (\<lambda>(v, s). bindR (onS (sleep_resume LkVdisk) s) (\<lambda>s. rw_start b wr (v, s)))"

definition vdisk_rw_resume :: "nat \<Rightarrow> nat \<Rightarrow> vdisk \<times> kst \<Rightarrow> (rwcall \<times> vdisk \<times> kst) res" where
  "vdisk_rw_resume b i0 = (\<lambda>(v, s). bindR (onS (sleep_resume LkVdisk) s) (\<lambda>s. rw_wait b i0 (v, s)))"

section \<open>Completion\<close>

text \<open>The number that the device gives is used as an index without a check.\<close>

definition intr_turn :: "vdisk \<times> kst \<Rightarrow> (vdisk \<times> kst, vdisk \<times> kst) ctl res" where
  "intr_turn = (\<lambda>(v, s).
     if used_idx v \<noteq> used_dev v then
       let i = unat (used_ring v (unat (used_idx v) mod NUM)) in
       if i \<ge> NUM then Fault
       else if info_status v i \<noteq> 0 then Panic ''virtio_disk_intr status''
       else
         bindR (deref (info_b v i)) (\<lambda>b.
         bindR (kwakeup (ChBuf b) s) (\<lambda>s.
         Ok (Next (v\<lparr>b_disk := (b_disk v)(b := False), used_idx := used_idx v + 1\<rparr>, s))))
     else Ok (Exit (v, s)))"

definition virtio_disk_intr :: "vdisk \<times> kst \<Rightarrow> (vdisk \<times> kst) res" where
  "virtio_disk_intr = (\<lambda>(v, s).
     bindR (kacquire LkVdisk s) (\<lambda>s.
     bindR (loopR intr_turn (v\<lparr>int_ack := int_status v AND 3\<rparr>, s)) (\<lambda>(v, s).
     bindR (krelease LkVdisk s) (\<lambda>s. Ok (v, s)))))"

section \<open>Requests in flight\<close>

text \<open>A chain of three descriptors.\<close>

fun chained :: "vdisk \<Rightarrow> nat list \<Rightarrow> bool" where
  "chained v [i] \<longleftrightarrow> d_flags (desc v i) AND VRING_DESC_F_NEXT = 0"
| "chained v (i # j # is) \<longleftrightarrow> d_flags (desc v i) AND VRING_DESC_F_NEXT \<noteq> 0 \<and> d_next (desc v i) = of_nat j \<and> chained v (j # is)"
| "chained v [] \<longleftrightarrow> False"

text \<open>Every descriptor is free or in exactly one of the chains.\<close>

definition chains_ok :: "vdisk \<Rightarrow> nat list list \<Rightarrow> bool" where
  "chains_ok v C \<longleftrightarrow> distinct (concat C) \<and> set (concat C) = {i. i < NUM \<and> \<not> dfree v i} \<and>
     (\<forall>c\<in>set C. length c = 3 \<and> chained v c \<and> d_addr (desc v (hd c)) = VOps (hd c))"

text \<open>
  What the device reads from the queue for the request at descriptor \<open>i\<close>: whether it is a write, the
  sector, the buffer, the place for the status, as section 5.2 of the virtio specification says.
\<close>

definition decode :: "vdisk \<Rightarrow> nat \<Rightarrow> (bool \<times> u64 \<times> nat \<times> nat) option" where
  "decode v i =
     (let a = desc v i; b = desc v (unat (d_next a)); c = desc v (unat (d_next b)) in
      case (d_addr a, d_addr b, d_addr c) of
        (VOps q, VData n, VStatus st) \<Rightarrow>
          let wr = (q_type (ops v q) = VIRTIO_BLK_T_OUT) in
          if d_len a = 16 \<and> d_len b = of_nat BSIZE \<and> d_len c = 1 \<and> d_flags a = VRING_DESC_F_NEXT \<and>
             d_flags b = (if wr then VRING_DESC_F_NEXT else VRING_DESC_F_NEXT OR VRING_DESC_F_WRITE) \<and> d_flags c = VRING_DESC_F_WRITE
          then Some (wr, q_sector (ops v q), n, st) else None
      | _ \<Rightarrow> None)"

section \<open>Freeing descriptors\<close>

text \<open>\<open>t\<close> follows \<open>s\<close> with the driver's lock held: process \<open>p\<close> still runs and nobody new sleeps.\<close>

definition vstep :: "nat \<Rightarrow> kst \<Rightarrow> kst \<Rightarrow> bool" where
  "vstep p s t \<longleftrightarrow> (\<exists>u. t = s\<lparr>sch := u\<rparr> \<and> runs u p \<and> held u = [LkVdisk] \<and> (\<forall>ch. sleepers ch u \<subseteq> sleepers ch (sch s)))"

lemma vstep_refl: "runs (sch s) p \<Longrightarrow> held (sch s) = [LkVdisk] \<Longrightarrow> vstep p s s"
  unfolding vstep_def by (intro exI [of _ "sch s"]) simp

lemma vstep_trans: "vstep p s t \<Longrightarrow> vstep p t u \<Longrightarrow> vstep p s u"
  unfolding vstep_def by fastforce

lemma vstep_runs: "vstep p s t \<Longrightarrow> runs (sch t) p \<and> held (sch t) = [LkVdisk]"
  by (auto simp: vstep_def)

lemma vdisk_wakeup:
  assumes "runs (sch s) p" "held (sch s) = [LkVdisk]"
  shows "\<exists>t. kwakeup c s = Ok t \<and> vstep p s t \<and> sleepers (Some c) (sch t) = {}"
proof -
  have n: "no_table_locks (sch s)" using assms(2) by (auto simp: no_table_locks_def)
  obtain v where v: "sched_inv (sch s) v" using assms(1) by (auto simp: runs_def)
  from wakeup_spec [OF v n, of "Some c"] obtain h where
    h: "wakeup (Some c) (sch s) = Ok (make_runnable (sleepers (Some c) (sch s)) (sch s)\<lparr>lh := h\<rparr>)" by blast
  let ?t = "make_runnable (sleepers (Some c) (sch s)) (sch s)\<lparr>lh := h\<rparr>"
  have "sleepers ch ?t \<subseteq> sleepers ch (sch s)" "sleepers (Some c) ?t = {}" for ch
    by (auto simp: sleepers_def make_runnable_def split: if_splits)
  moreover have "runs ?t p" "held ?t = [LkVdisk]" using wakeup_runs [OF assms(1) n, of "Some c"] h assms(2) woken_sel(2) by auto
  ultimately show ?thesis using h unfolding vstep_def kwakeup_def onS_def
    by (intro exI [of _ "s\<lparr>sch := ?t\<rparr>"] conjI exI [of _ ?t]) simp_all
qed

definition freed :: "nat set \<Rightarrow> vdisk \<Rightarrow> vdisk" where
  "freed A v = v\<lparr>desc := (\<lambda>i. if i \<in> A then \<lparr>d_addr = VNull, d_len = 0, d_flags = 0, d_next = 0\<rparr> else desc v i),
     dfree := (\<lambda>i. dfree v i \<or> i \<in> A)\<rparr>"

lemma freed_simps: "freed {} v = v" "freed A (freed B v) = freed (A \<union> B) v"
  by (auto simp: freed_def fun_eq_iff intro!: vdisk.equality)

lemma free_desc_ok:
  assumes "runs (sch s) p" "held (sch s) = [LkVdisk]" "i < NUM" "\<not> dfree v i"
  shows "\<exists>t. free_desc i (v, s) = Ok (freed {i} v, t) \<and> vstep p s t \<and> sleepers (Some ChDiskFree) (sch t) = {}"
proof -
  obtain t where "kwakeup ChDiskFree s = Ok t" "vstep p s t" "sleepers (Some ChDiskFree) (sch t) = {}"
    using vdisk_wakeup [OF assms(1,2)] by blast
  then show ?thesis using assms(3,4) by (auto simp: free_desc_def freed_def fun_eq_iff intro!: vdisk.equality)
qed

lemma free_descs_ok:
  "runs (sch s) p \<Longrightarrow> held (sch s) = [LkVdisk] \<Longrightarrow> distinct idx \<Longrightarrow> \<forall>i\<in>set idx. i < NUM \<and> \<not> dfree v i \<Longrightarrow>
   \<exists>t. free_descs idx (v, s) = Ok (freed (set idx) v, t) \<and> vstep p s t"
proof (induction idx arbitrary: v s)
  case Nil then show ?case by (simp add: freed_simps vstep_refl)
next
  case (Cons i idx)
  then obtain t where t: "free_desc i (v, s) = Ok (freed {i} v, t)" "vstep p s t" using free_desc_ok [of s p i v] by auto
  have "\<forall>j\<in>set idx. j < NUM \<and> \<not> dfree (freed {i} v) j" using Cons.prems by (auto simp: freed_def)
  then obtain u where "free_descs idx (freed {i} v, t) = Ok (freed (set idx) (freed {i} v), u)" "vstep p t u"
    using Cons.IH [of t "freed {i} v"] vstep_runs [OF t(2)] Cons.prems by auto
  then show ?case using t vstep_trans by (auto simp: freed_simps)
qed

lemma chained_cong: "chained v c \<Longrightarrow> \<forall>i\<in>set c. desc w i = desc v i \<Longrightarrow> chained w c"
  by (induction v c rule: chained.induct) auto

lemma free_chain_ok:
  "runs (sch s) p \<Longrightarrow> held (sch s) = [LkVdisk] \<Longrightarrow> distinct c \<Longrightarrow> \<forall>i\<in>set c. i < NUM \<and> \<not> dfree v i \<Longrightarrow> chained v c \<Longrightarrow>
   \<exists>t. free_chain (hd c) (v, s) = Ok (freed (set c) v, t) \<and> vstep p s t \<and> sleepers (Some ChDiskFree) (sch t) = {}"
proof (induction c arbitrary: v s)
  case (Cons i ks)
  from Cons.prems obtain t where t: "free_desc i (v, s) = Ok (freed {i} v, t)" "vstep p s t" "sleepers (Some ChDiskFree) (sch t) = {}"
    using free_desc_ok [of s p i v] by auto
  show ?case
  proof (cases ks)
    case Nil
    then have "free_chain_turn (i, v, s) = Ok (Exit (freed {i} v, t))" using t(1) Cons.prems by (simp add: free_chain_turn_def)
    then show ?thesis using t(2,3) Nil by (auto simp: free_chain_def loopR_Exit)
  next
    case (Cons j js)
    have n: "unat (of_nat j :: 16 word) = j" using Cons.prems Cons by (simp add: NUM_def unsigned_of_nat take_bit_nat_eq_self)
    have turn: "free_chain_turn (i, v, s) = Ok (Next (j, freed {i} v, t))" using t(1) Cons.prems Cons n by (simp add: free_chain_turn_def)
    have "chained v ks" using Cons.prems Cons by simp
    moreover have d: "i \<notin> set ks" "\<forall>k\<in>set ks. k < NUM \<and> \<not> dfree v k" using Cons.prems(3,4) by simp_all
    ultimately have "chained (freed {i} v) ks" by (intro chained_cong [of v ks "freed {i} v"]) (auto simp: freed_def)
    moreover have "\<forall>k\<in>set ks. k < NUM \<and> \<not> dfree (freed {i} v) k" using d by (auto simp: freed_def)
    ultimately obtain u where u: "free_chain (hd ks) (freed {i} v, t) = Ok (freed (set ks) (freed {i} v), u)" "vstep p t u"
      "sleepers (Some ChDiskFree) (sch u) = {}"
      using Cons.IH [of t "freed {i} v"] vstep_runs [OF t(2)] Cons.prems by auto
    moreover have "free_chain i (v, s) = free_chain (hd ks) (freed {i} v, t)"
      using loopR_Next [of free_chain_turn, OF turn] Cons by (simp add: free_chain_def)
    ultimately show ?thesis using vstep_trans [OF t(2) u(2)] by (intro exI [of _ u]) (simp add: freed_simps)
  qed
qed simp

section \<open>Taking descriptors\<close>

lemma alloc_desc_None: "alloc_desc v = (None, w) \<Longrightarrow> w = v \<and> {i. i < NUM \<and> dfree v i} = {}"
  by (auto simp: alloc_desc_def find_None_iff split: option.splits)

lemma alloc_desc_Some: "alloc_desc v = (Some i, w) \<Longrightarrow> w = v\<lparr>dfree := (dfree v)(i := False)\<rparr> \<and> i < NUM \<and> dfree v i"
  by (auto simp: alloc_desc_def find_Some_iff split: option.splits)

definition taken :: "nat set \<Rightarrow> vdisk \<Rightarrow> vdisk" where
  "taken A v = v\<lparr>dfree := (\<lambda>i. dfree v i \<and> i \<notin> A)\<rparr>"

lemma taken_simps: "taken {} v = v" "taken A (taken B v) = taken (A \<union> B) v" "v\<lparr>dfree := (dfree v)(i := False)\<rparr> = taken {i} v"
  by (auto simp: taken_def fun_eq_iff intro!: vdisk.equality)

abbreviation nfree :: "vdisk \<Rightarrow> nat" where
  "nfree v \<equiv> card {i. i < NUM \<and> dfree v i}"

lemma nfree_taken: "i < NUM \<Longrightarrow> dfree v i \<Longrightarrow> nfree v = Suc (nfree (taken {i} v))"
proof -
  assume i: "i < NUM" "dfree v i"
  then have "{j. j < NUM \<and> dfree v j} = insert i {j. j < NUM \<and> dfree (taken {i} v) j}" by (auto simp: taken_def)
  then show ?thesis by (simp add: taken_def)
qed

lemma alloc_descs_ok:
  "n \<le> nfree v \<Longrightarrow> \<exists>ks. alloc_descs n idx (v, s) = Ok (Some (idx @ ks), taken (set ks) v, s) \<and> length ks = n \<and> distinct ks \<and>
     (\<forall>i\<in>set ks. i < NUM \<and> dfree v i)"
proof (induction n arbitrary: idx v)
  case 0 then show ?case by (simp add: taken_simps)
next
  case (Suc n)
  show ?case
  proof (cases "fst (alloc_desc v)")
    case None
    then have "nfree v = 0" using alloc_desc_None [of v "snd (alloc_desc v)"] by (metis card.empty prod.collapse)
    then have False using Suc.prems by linarith
    then show ?thesis ..
  next
    case (Some i)
    then have a: "alloc_desc v = (Some i, taken {i} v)" "i < NUM" "dfree v i"
      using alloc_desc_Some [of v i "snd (alloc_desc v)"] by (auto simp: taken_simps prod_eq_iff)
    then have "n \<le> nfree (taken {i} v)" using Suc.prems nfree_taken by simp
    from Suc.IH [OF this, of "idx @ [i]"] obtain ks where i: "alloc_descs n (idx @ [i]) (taken {i} v, s) = Ok (Some (idx @ i # ks), taken (set ks) (taken {i} v), s)"
      "length ks = n" "distinct ks" "\<forall>j\<in>set ks. j < NUM \<and> dfree (taken {i} v) j" by auto
    then show ?thesis using a by (intro exI [of _ "i # ks"]) (auto simp: taken_simps taken_def)
  qed
qed

lemma alloc_descs_fail:
  "nfree v < n \<Longrightarrow> runs (sch s) p \<Longrightarrow> held (sch s) = [LkVdisk] \<Longrightarrow> distinct idx \<Longrightarrow> \<forall>i\<in>set idx. i < NUM \<and> \<not> dfree v i \<Longrightarrow>
   \<exists>A t. alloc_descs n idx (v, s) = Ok (None, freed (set idx \<union> A) v, t) \<and> vstep p s t \<and> (\<forall>i\<in>A. dfree v i)"
proof (induction n arbitrary: idx v)
  case (Suc n)
  show ?case
  proof (cases "fst (alloc_desc v)")
    case None
    then have "alloc_desc v = (None, v)" using alloc_desc_None [of v "snd (alloc_desc v)"] by (auto simp: prod_eq_iff)
    then show ?thesis using free_descs_ok [OF Suc.prems(2-5)] by (intro exI [of _ "{}"]) auto
  next
    case (Some i)
    then have a: "alloc_desc v = (Some i, taken {i} v)" "i < NUM" "dfree v i"
      using alloc_desc_Some [of v i "snd (alloc_desc v)"] by (auto simp: taken_simps prod_eq_iff)
    have "nfree (taken {i} v) < n" using Suc.prems(1) nfree_taken [OF a(2,3)] by simp
    moreover have "distinct (idx @ [i])" "\<forall>j\<in>set (idx @ [i]). j < NUM \<and> \<not> dfree (taken {i} v) j" using Suc.prems a by (auto simp: taken_def)
    ultimately obtain A t where t: "alloc_descs n (idx @ [i]) (taken {i} v, s) = Ok (None, freed (set (idx @ [i]) \<union> A) (taken {i} v), t)"
      "vstep p s t" "\<forall>j\<in>A. dfree (taken {i} v) j" using Suc.IH [of "taken {i} v" "idx @ [i]"] Suc.prems by auto
    have "freed (set (idx @ [i]) \<union> A) (taken {i} v) = freed (set idx \<union> insert i A) v"
      using a by (auto simp: freed_def taken_def fun_eq_iff intro!: vdisk.equality)
    then show ?thesis using a t by (intro exI [of _ "insert i A"] exI [of _ t]) (auto simp: taken_def)
  qed
qed simp

section \<open>Chains\<close>

lemma unat_desc: "i < NUM \<Longrightarrow> unat (of_nat i :: 16 word) = i"
  by (simp add: NUM_def unsigned_of_nat take_bit_nat_eq_self)

lemma chains_okD:
  assumes "chains_ok v C" "c \<in> set C"
  obtains a b d where "c = [a, b, d]" "chained v c" "d_addr (desc v a) = VOps a" "\<forall>i\<in>set c. i < NUM \<and> \<not> dfree v i"
proof -
  have "length c = 3" "chained v c" "d_addr (desc v (hd c)) = VOps (hd c)" using assms by (auto simp: chains_ok_def)
  moreover have "set c \<subseteq> {i. i < NUM \<and> \<not> dfree v i}" using assms unfolding chains_ok_def by fastforce
  ultimately show thesis using that by (cases c rule: remdups_adj.cases) (auto simp: numeral_3_eq_3 length_Suc_conv)
qed

text \<open>Another state of the driver in which the requests of \<open>C\<close> are the same.\<close>

definition keeps :: "nat list list \<Rightarrow> vdisk \<Rightarrow> vdisk \<Rightarrow> bool" where
  "keeps C v w \<longleftrightarrow> (\<forall>c\<in>set C. (\<forall>i\<in>set c. desc w i = desc v i) \<and> ops w (hd c) = ops v (hd c))"

lemma keeps_decode:
  assumes "chains_ok v C" "keeps D v w" "set D \<subseteq> set C" "c \<in> set D"
  shows "decode w (hd c) = decode v (hd c)"
proof -
  obtain a b d where c: "c = [a, b, d]" "chained v c" "d_addr (desc v a) = VOps a" "\<forall>i\<in>set c. i < NUM \<and> \<not> dfree v i"
    using chains_okD [OF assms(1) subsetD [OF assms(3,4)]] .
  have e: "desc w a = desc v a" "desc w b = desc v b" "desc w d = desc v d" "ops w a = ops v a" using assms(2,4) c(1) by (auto simp: keeps_def)
  have n: "unat (d_next (desc v a)) = b" "unat (d_next (desc v b)) = d" using c unat_desc by auto
  show ?thesis unfolding decode_def Let_def c(1) list.sel e n c(3) prod.case vaddr.case e ..
qed

lemma chains_ok_keeps:
  assumes ok: "chains_ok v C" and k: "keeps D v w" and "set (concat D) = {i. i < NUM \<and> \<not> dfree w i}" "distinct (concat D)" "set D \<subseteq> set C"
  shows "chains_ok w D"
proof -
  have "length c = 3 \<and> chained w c \<and> d_addr (desc w (hd c)) = VOps (hd c)" if "c \<in> set D" for c
  proof -
    have c: "c \<in> set C" using that assms(5) by blast
    then obtain a b d where "c = [a, b, d]" "chained v c" "d_addr (desc v a) = VOps a" using chains_okD [OF ok c] by metis
    then show ?thesis using k that chained_cong [of v c w] by (auto simp: keeps_def)
  qed
  then show ?thesis using assms(3,4) by (simp add: chains_ok_def)
qed

lemma freed_keeps:
  assumes "chains_ok v C" "\<forall>i\<in>A. dfree v i"
  shows "keeps C v (freed A v)" "chains_ok (freed A v) C"
proof -
  have "i \<notin> A" if "c \<in> set C" "i \<in> set c" for c i using chains_okD [OF assms(1) that(1)] assms(2) that(2) by metis
  then show k: "keeps C v (freed A v)" by (auto simp: keeps_def freed_def)
  have "{i. i < NUM \<and> \<not> dfree (freed A v) i} = {i. i < NUM \<and> \<not> dfree v i}" using assms(2) by (auto simp: freed_def)
  then show "chains_ok (freed A v) C" using assms(1) by (intro chains_ok_keeps [OF assms(1) k]) (auto simp: chains_ok_def)
qed

lemma NEXT_flags: "VRING_DESC_F_NEXT AND VRING_DESC_F_NEXT \<noteq> 0" "VRING_DESC_F_WRITE AND VRING_DESC_F_NEXT = 0"
  "(VRING_DESC_F_WRITE OR VRING_DESC_F_NEXT) AND VRING_DESC_F_NEXT \<noteq> 0"
  by (simp_all add: VRING_DESC_F_NEXT_def VRING_DESC_F_WRITE_def)

lemma format_request_ok:
  assumes ok: "chains_ok v C" and i: "distinct [i0, i1, i2]" "\<forall>i\<in>{i0, i1, i2}. i < NUM \<and> dfree v i"
    and w_def: "w = format_request b wr n i0 i1 i2 (taken {i0, i1, i2} v)"
  shows "chains_ok w (C @ [[i0, i1, i2]])" "decode w i0 = Some (wr, ucast (n * 2), b, i0)" "keeps C v w"
proof -
  have d: "desc w i0 = \<lparr>d_addr = VOps i0, d_len = 16, d_flags = VRING_DESC_F_NEXT, d_next = of_nat i1\<rparr>"
    "desc w i1 = \<lparr>d_addr = VData b, d_len = of_nat BSIZE, d_flags = (if wr then 0 else VRING_DESC_F_WRITE) OR VRING_DESC_F_NEXT, d_next = of_nat i2\<rparr>"
    "desc w i2 = \<lparr>d_addr = VStatus i0, d_len = 1, d_flags = VRING_DESC_F_WRITE, d_next = 0\<rparr>"
    using i(1) by (auto simp: w_def format_request_def)
  have o: "j \<notin> {i0, i1, i2}" if "c \<in> set C" "j \<in> set c" for c j using chains_okD [OF ok that(1)] i(2) that(2) by (metis (full_types))
  have "hd c \<in> set c" if "c \<in> set C" for c using chains_okD [OF ok that] by (metis list.set_intros(1) list.sel(1))
  then show k: "keeps C v w" using o by (fastforce simp: keeps_def w_def format_request_def taken_def)
  have "q_type (ops w i0) = (if wr then VIRTIO_BLK_T_OUT else VIRTIO_BLK_T_IN)" "q_sector (ops w i0) = ucast (n * 2)"
    by (simp_all add: w_def format_request_def BSIZE_def)
  then show "decode w i0 = Some (wr, ucast (n * 2), b, i0)"
    using d i(2) unat_desc by (auto simp: decode_def Let_def VIRTIO_BLK_T_IN_def VIRTIO_BLK_T_OUT_def or.commute)
  have f: "{i. i < NUM \<and> \<not> dfree w i} = {i. i < NUM \<and> \<not> dfree v i} \<union> {i0, i1, i2}" using i(2) by (auto simp: w_def format_request_def taken_def)
  have s: "set (concat C) = {i. i < NUM \<and> \<not> dfree v i}" "distinct (concat C)" using ok by (simp_all add: chains_ok_def)
  have "chained w [i0, i1, i2]" using d NEXT_flags by (auto simp: or.commute)
  moreover have "length c = 3 \<and> chained w c \<and> d_addr (desc w (hd c)) = VOps (hd c)" if "c \<in> set C" for c
    using chains_okD [OF ok that] k that chained_cong [of v c w] unfolding keeps_def by (metis length_Cons list.size(3) numeral_3_eq_3 list.sel(1) list.set_intros(1))
  ultimately show "chains_ok w (C @ [[i0, i1, i2]])"
    using s f i d(1) unfolding chains_ok_def by auto
qed

section \<open>The interrupt handler\<close>

text \<open>The first descriptors of the \<open>n\<close> requests that the device has finished since the last interrupt.\<close>

definition completed :: "nat \<Rightarrow> vdisk \<Rightarrow> nat list" where
  "completed n v = map (\<lambda>k. unat (used_ring v (unat (used_idx v + of_nat k) mod NUM))) [0..<n]"

lemma completed_0: "completed 0 v = []"
  by (simp add: completed_def)

lemma completed_Suc:
  "completed (Suc n) v = unat (used_ring v (unat (used_idx v) mod NUM)) # completed n (v\<lparr>b_disk := B, used_idx := used_idx v + 1\<rparr>)"
  by (simp add: completed_def map_upt_Suc ac_simps del: upt_Suc)

definition finished :: "nat \<Rightarrow> vdisk \<Rightarrow> nat set" where
  "finished n v = {b. \<exists>i\<in>set (completed n v). info_b v i = Some b}"

lemma intr_loop:
  "runs (sch s) p \<Longrightarrow> held (sch s) = [LkVdisk] \<Longrightarrow> n < 2 ^ 16 \<Longrightarrow> used_dev v = used_idx v + of_nat n \<Longrightarrow>
   \<forall>i\<in>set (completed n v). i < NUM \<and> info_status v i = 0 \<and> info_b v i \<noteq> None \<Longrightarrow>
   \<exists>t. loopR intr_turn (v, s) = Ok (v\<lparr>b_disk := (\<lambda>b. b_disk v b \<and> b \<notin> finished n v), used_idx := used_dev v\<rparr>, t) \<and> vstep p s t \<and>
     (\<forall>b\<in>finished n v. sleepers (Some (ChBuf b)) (sch t) = {})"
proof (induction n arbitrary: v s)
  case 0
  then have "intr_turn (v, s) = Ok (Exit (v, s))" by (simp add: intr_turn_def)
  then show ?case using 0 vstep_refl by (auto simp: loopR_Exit finished_def completed_0)
next
  case (Suc n)
  let ?i = "unat (used_ring v (unat (used_idx v) mod NUM))"
  have "(of_nat (Suc n) :: 16 word) \<noteq> 0" using Suc.prems(3) unfolding word_of_nat_eq_0_iff by (auto dest!: dvd_imp_le)
  then have ne: "used_idx v \<noteq> used_dev v" using Suc.prems(4) by simp
  have i: "?i < NUM" "info_status v ?i = 0" "info_b v ?i \<noteq> None"
    and rest: "\<forall>i\<in>set (completed n (v\<lparr>b_disk := B, used_idx := used_idx v + 1\<rparr>)). i < NUM \<and> info_status v i = 0 \<and> info_b v i \<noteq> None" for B
    using Suc.prems(5) unfolding completed_Suc [of n v B] by simp_all
  obtain b where b: "info_b v ?i = Some b" using i(3) by blast
  define w where "w = v\<lparr>b_disk := (b_disk v)(b := False), used_idx := used_idx v + 1\<rparr>"
  obtain t where t: "kwakeup (ChBuf b) s = Ok t" "vstep p s t" "sleepers (Some (ChBuf b)) (sch t) = {}" using vdisk_wakeup [OF Suc.prems(1,2)] by blast
  have turn: "intr_turn (v, s) = Ok (Next (w, t))" using ne i b t(1) by (simp add: intr_turn_def w_def deref_def)
  have fin: "finished (Suc n) v = insert b (finished n w)" using b by (auto simp: finished_def completed_Suc [of n v "(b_disk v)(b := False)"] w_def)
  have "\<forall>i\<in>set (completed n w). i < NUM \<and> info_status w i = 0 \<and> info_b w i \<noteq> None" using rest by (simp add: w_def)
  moreover have "used_dev w = used_idx w + of_nat n" using Suc.prems(4) by (simp add: w_def ac_simps)
  ultimately obtain u where u: "loopR intr_turn (w, t) = Ok (w\<lparr>b_disk := (\<lambda>b. b_disk w b \<and> b \<notin> finished n w), used_idx := used_dev w\<rparr>, u)" "vstep p t u"
    "\<forall>b\<in>finished n w. sleepers (Some (ChBuf b)) (sch u) = {}"
    using Suc.IH [of t w] vstep_runs [OF t(2)] Suc.prems(3) by auto
  have "w\<lparr>b_disk := (\<lambda>b. b_disk w b \<and> b \<notin> finished n w), used_idx := used_dev w\<rparr> =
    v\<lparr>b_disk := (\<lambda>b. b_disk v b \<and> b \<notin> finished (Suc n) v), used_idx := used_dev v\<rparr>" unfolding fin by (simp add: w_def fun_eq_iff)
  moreover have "sleepers (Some (ChBuf b)) (sch u) = {}" using t(3) u(2) unfolding vstep_def by fastforce
  ultimately show ?case using loopR_Next [of intr_turn, OF turn] u vstep_trans [OF t(2) u(2)] by (auto simp: fin)
qed

text \<open>
  When the device has finished \<open>n\<close> requests without an error, the handler takes exactly these from the
  ring, marks exactly their buffers as no longer owned by the disk and wakes who waits for them.
\<close>

lemma virtio_disk_intr_ok:
  assumes "runs (sch s) p" "held (sch s) = []" "n \<le> NUM" "used_dev v = used_idx v + of_nat n"
    "\<forall>i\<in>set (completed n v). i < NUM \<and> info_status v i = 0 \<and> info_b v i \<noteq> None"
  shows "\<exists>t. virtio_disk_intr (v, s) =
      Ok (v\<lparr>b_disk := (\<lambda>b. b_disk v b \<and> b \<notin> finished n v), used_idx := used_dev v, int_ack := int_status v AND 3\<rparr>, s\<lparr>sch := t\<rparr>) \<and>
    runs t p \<and> held t = [] \<and> (\<forall>b\<in>finished n v. sleepers (Some (ChBuf b)) t = {})"
proof -
  let ?s = "s\<lparr>sch := (sch s)\<lparr>held := [LkVdisk]\<rparr>\<rparr>" and ?v = "v\<lparr>int_ack := int_status v AND 3\<rparr>"
  have a: "kacquire LkVdisk s = Ok ?s" and r: "runs (sch ?s) p" "held (sch ?s) = [LkVdisk]" using assms by simp_all
  have c: "completed n ?v = completed n v" by (simp add: completed_def)
  then have f: "finished n ?v = finished n v" by (simp add: finished_def)
  have "n < 2 ^ 16" using assms(3) by (simp add: NUM_def)
  from intr_loop [OF r this, of ?v] assms(4,5) obtain t where t: "loopR intr_turn (?v, ?s) = Ok (?v\<lparr>b_disk := (\<lambda>b. b_disk v b \<and> b \<notin> finished n v), used_idx := used_dev v\<rparr>, t)"
    "vstep p ?s t" "\<forall>b\<in>finished n v. sleepers (Some (ChBuf b)) (sch t) = {}" by (auto simp: c f)
  obtain u where u: "t = s\<lparr>sch := u\<rparr>" "runs u p" "held u = [LkVdisk]" using t(2) by (auto simp: vstep_def)
  have "sleepers ch (u\<lparr>held := []\<rparr>) = sleepers ch u" for ch by (simp add: sleepers_def)
  then show ?thesis using a t(1,3) u by (intro exI [of _ "u\<lparr>held := []\<rparr>"]) (simp add: virtio_disk_intr_def)
qed

lemmas mmio_regs = VIRTIO_MMIO_STATUS_def VIRTIO_MMIO_DRIVER_FEATURES_def VIRTIO_MMIO_QUEUE_SEL_def VIRTIO_MMIO_QUEUE_NUM_def VIRTIO_MMIO_QUEUE_DESC_LOW_def VIRTIO_MMIO_QUEUE_DESC_HIGH_def VIRTIO_MMIO_DRIVER_DESC_LOW_def VIRTIO_MMIO_DRIVER_DESC_HIGH_def VIRTIO_MMIO_DEVICE_DESC_LOW_def VIRTIO_MMIO_DEVICE_DESC_HIGH_def VIRTIO_MMIO_QUEUE_READY_def

section \<open>Properties\<close>

text \<open>
  C35.  A request to the disk.  With three free descriptors the driver builds a chain that the device reads as the
  transfer asked for (direction, sector, buffer), enters it into the ring behind the other requests
  and lets the process sleep until the device has finished.  With fewer it gives back what it took
  and lets the process sleep until descriptors are freed.  In both cases every descriptor is free or
  in exactly one request, and the other requests are not touched.
\<close>

theorem vdisk_rw_submits:
  assumes run: "runs (sch s) p" "held (sch s) = []" and ok: "chains_ok v C"
  shows "if 3 \<le> card {i. i < NUM \<and> dfree v i}
    then \<exists>i0 i1 i2 w t. vdisk_rw b wr (v, s) = Ok (RwAsleep i0, w, s\<lparr>sch := t\<rparr>) \<and> asleep p (ChBuf b) t \<and>
      chains_ok w (C @ [[i0, i1, i2]]) \<and> decode w i0 = Some (wr, ucast (bblockno (bufs s b) * 2), b, i0) \<and> info_b w i0 = Some b \<and>
      avail_ring w (unat (avail_idx v) mod NUM) = of_nat i0 \<and> avail_idx w = avail_idx v + 1 \<and> (\<forall>c\<in>set C. decode w (hd c) = decode v (hd c))
    else \<exists>w t. vdisk_rw b wr (v, s) = Ok (RwNoDesc, w, s\<lparr>sch := t\<rparr>) \<and> asleep p ChDiskFree t \<and>
      chains_ok w C \<and> dfree w = dfree v \<and> (\<forall>c\<in>set C. decode w (hd c) = decode v (hd c))"
proof -
  let ?s = "s\<lparr>sch := (sch s)\<lparr>held := [LkVdisk]\<rparr>\<rparr>"
  have a: "kacquire LkVdisk s = Ok ?s" and r: "runs (sch ?s) p" "held (sch ?s) = [LkVdisk]" using run by simp_all
  show ?thesis
  proof (cases "3 \<le> nfree v")
    case True
    from alloc_descs_ok [OF True, of "[]" ?s] obtain ks where ks: "alloc3_desc (v, ?s) = Ok (Some ks, taken (set ks) v, ?s)"
      "length ks = 3" "distinct ks" "\<forall>i\<in>set ks. i < NUM \<and> dfree v i" by (auto simp: alloc3_desc_def)
    then obtain i0 i1 i2 where k: "ks = [i0, i1, i2]" by (auto simp: numeral_3_eq_3 length_Suc_conv)
    define w where "w = format_request b wr (bblockno (bufs s b)) i0 i1 i2 (taken {i0, i1, i2} v)"
    note f = format_request_ok [OF ok _ _ w_def]
    have w: "b_disk w b" "info_b w i0 = Some b" "avail_ring w (unat (avail_idx v) mod NUM) = of_nat i0" "avail_idx w = avail_idx v + 1"
      by (simp_all add: w_def format_request_def taken_def)
    from pipe_sleep [OF r, of "ChBuf b"] obtain t where t: "onS (sleep (ChBuf b) LkVdisk) ?s = Ok (?s\<lparr>sch := t\<rparr>)" "asleep p (ChBuf b) t" by auto
    have "vdisk_rw b wr (v, s) = Ok (RwAsleep i0, w, s\<lparr>sch := t\<rparr>)"
      using a ks(1) w(1) t(1) by (simp add: vdisk_rw_def rw_start_def rw_wait_def k w_def)
    then show ?thesis using True t(2) w f ks k keeps_decode [OF ok _ subset_refl] by auto
  next
    case False
    then have "nfree v < 3" by simp
    from alloc_descs_fail [OF this r, of "[]"] obtain A t where t: "alloc3_desc (v, ?s) = Ok (None, freed A v, t)" "vstep p ?s t" "\<forall>i\<in>A. dfree v i"
      by (auto simp: alloc3_desc_def)
    from pipe_sleep [OF conjunct1 [OF vstep_runs [OF t(2)]] conjunct2 [OF vstep_runs [OF t(2)]], of ChDiskFree] obtain u where
      u: "onS (sleep ChDiskFree LkVdisk) t = Ok (t\<lparr>sch := u\<rparr>)" "asleep p ChDiskFree u" by auto
    moreover have "t\<lparr>sch := u\<rparr> = s\<lparr>sch := u\<rparr>" using t(2) by (auto simp: vstep_def)
    moreover have "dfree (freed A v) = dfree v" using t(3) by (auto simp: freed_def)
    ultimately show ?thesis using False a t(1) freed_keeps [OF ok t(3)] keeps_decode [OF ok _ subset_refl]
      by (auto simp: vdisk_rw_def rw_start_def)
  qed
qed

text \<open>
  C36.  The end of a request.  When the device is done with the buffer, the process frees exactly the descriptors
  of its request: the call returns without a panic, the other requests stay as they are, and whoever
  waits for descriptors is woken.
\<close>

theorem vdisk_rw_completes:
  assumes run: "runs (sch s) p" "held (sch s) = [LkProc p]" and ok: "chains_ok v (C @ c # D)" and b: "\<not> b_disk v b"
  shows "\<exists>w t. vdisk_rw_resume b (hd c) (v, s) = Ok (RwDone, w, s\<lparr>sch := t\<rparr>) \<and> runs t p \<and> held t = [] \<and>
    chains_ok w (C @ D) \<and> info_b w (hd c) = None \<and> sleepers (Some ChDiskFree) t = {} \<and> (\<forall>d\<in>set (C @ D). decode w (hd d) = decode v (hd d))"
proof -
  obtain q where q: "sched_inv (sch s) q" "curproc (sch s) = Some p" "p < NPROC" using run(1) by (auto simp: runs_def)
  let ?t = "upd_proc p (\<lambda>r. r\<lparr>chan := None\<rparr>) (sch s)\<lparr>held := [LkVdisk]\<rparr>"
  note rs = sleep_resume_spec [OF q run(2), of LkVdisk]
  have r: "runs (sch (s\<lparr>sch := ?t\<rparr>)) p" "held (sch (s\<lparr>sch := ?t\<rparr>)) = [LkVdisk]" using rs(2) q run(1) by (auto simp: runs_def)
  let ?v = "v\<lparr>info_b := (info_b v)(hd c := None)\<rparr>"
  have c: "chained v c" "\<forall>i\<in>set c. i < NUM \<and> \<not> dfree v i" using chains_okD [OF ok, of c] by (metis in_set_conv_decomp)+
  have d: "distinct c" "\<forall>i\<in>set c. i \<notin> set (concat (C @ D))" using ok by (auto simp: chains_ok_def)
  have "chained ?v c" by (rule chained_cong [OF c(1)]) simp
  moreover have "\<forall>i\<in>set c. i < NUM \<and> \<not> dfree ?v i" using c(2) by simp
  ultimately have "\<exists>t. free_chain (hd c) (?v, s\<lparr>sch := ?t\<rparr>) = Ok (freed (set c) ?v, t) \<and> vstep p (s\<lparr>sch := ?t\<rparr>) t \<and> sleepers (Some ChDiskFree) (sch t) = {}"
    by (intro free_chain_ok [OF r d(1)])
  then obtain t where t: "free_chain (hd c) (?v, s\<lparr>sch := ?t\<rparr>) = Ok (freed (set c) ?v, t)" "vstep p (s\<lparr>sch := ?t\<rparr>) t" "sleepers (Some ChDiskFree) (sch t) = {}"
    by blast
  obtain u where u: "t = s\<lparr>sch := u\<rparr>" "runs u p" "held u = [LkVdisk]" using t(2) by (auto simp: vstep_def)
  let ?w = "freed (set c) ?v"
  have sub: "set (C @ D) \<subseteq> set (C @ c # D)" by auto
  have n: "i \<notin> set c" if "e \<in> set (C @ D)" "i \<in> set e" for e i
  proof
    assume "i \<in> set c"
    then have "i \<notin> set (concat (C @ D))" using d(2) by blast
    then show False using that by (simp only: set_concat UN_iff) blast
  qed
  then have k: "keeps (C @ D) v ?w" unfolding keeps_def by (intro ballI conjI) (simp_all add: freed_def)
  have s: "set (concat (C @ c # D)) = {i. i < NUM \<and> \<not> dfree v i}" "distinct (concat (C @ c # D))" using ok by (simp_all only: chains_ok_def)
  have "set (concat (C @ D)) = {i. i < NUM \<and> \<not> dfree v i} - set c" using s(1) d(2) by (auto simp only: concat_append concat.simps set_append)
  also have "\<dots> = {i. i < NUM \<and> \<not> dfree ?w i}" by (auto simp: freed_def)
  finally have ok': "chains_ok ?w (C @ D)" using s(2) by (intro chains_ok_keeps [OF ok k _ _ sub]) auto
  have "vdisk_rw_resume b (hd c) (v, s) = Ok (RwDone, ?w, s\<lparr>sch := u\<lparr>held := []\<rparr>\<rparr>)"
    using rs(1) b t(1) u by (simp add: vdisk_rw_resume_def rw_wait_def onS_def)
  moreover have "runs (u\<lparr>held := []\<rparr>) p" using u(2) by simp
  moreover have "info_b ?w (hd c) = None" "sleepers (Some ChDiskFree) (u\<lparr>held := []\<rparr>) = {}" using t(3) u(1) by (simp_all add: freed_def sleepers_def)
  ultimately show ?thesis using ok' keeps_decode [OF ok k sub] by (intro exI [of _ ?w] exI [of _ "u\<lparr>held := []\<rparr>"]) simp
qed


text \<open>A queue with the request of buffer 4 at descriptors 0, 1, 2, finished by the device.\<close>

definition sample_vdisk :: vdisk where
  "sample_vdisk = \<lparr>
     desc = (\<lambda>i. if i = 0 then \<lparr>d_addr = VOps 0, d_len = 16, d_flags = 1, d_next = 1\<rparr>
       else if i = 1 then \<lparr>d_addr = VData 4, d_len = 1024, d_flags = 3, d_next = 2\<rparr>
       else if i = 2 then \<lparr>d_addr = VStatus 0, d_len = 1, d_flags = 2, d_next = 0\<rparr>
       else \<lparr>d_addr = VNull, d_len = 0, d_flags = 0, d_next = 0\<rparr>),
     avail_ring = (\<lambda>_. 0), avail_idx = 1, used_ring = (\<lambda>_. 0), used_dev = 1, dfree = (\<lambda>i. i \<ge> 3), used_idx = 0,
     info_b = (\<lambda>i. if i = 0 then Some 4 else None), info_status = (\<lambda>_. 0), ops = (\<lambda>_. \<lparr>q_type = 0, q_reserved = 0, q_sector = 14\<rparr>),
     b_disk = (\<lambda>b. b = 4), notifies = 1, int_status = 1, int_ack = 0\<rparr>"

lemma sample_chains: "chains_ok sample_vdisk [[0, 1, 2]]"
  by (auto simp: chains_ok_def sample_vdisk_def NUM_def VRING_DESC_F_NEXT_def)

definition sample_mmio :: mmio where
  "sample_mmio w r =
     (if r = VIRTIO_MMIO_MAGIC_VALUE then 0x74726976 else if r = VIRTIO_MMIO_VERSION then 2 else if r = VIRTIO_MMIO_DEVICE_ID then 2
      else if r = VIRTIO_MMIO_VENDOR_ID then 0x554d4551 else if r = VIRTIO_MMIO_QUEUE_NUM_MAX then 1024
      else if r = VIRTIO_MMIO_STATUS \<and> w \<noteq> [] then snd (last w) else 0)"


theorem vdisk_rw_submits_witness:
  "\<exists>h i0 i1 i2 w t. vdisk_rw 5 True (sample_vdisk, sample_kst h) = Ok (RwAsleep i0, w, t) \<and> chains_ok w [[0, 1, 2], [i0, i1, i2]] \<and>
     decode w i0 = Some (True, 0, 5, i0) \<and> decode w 0 = Some (False, 14, 4, 0)"
proof -
  obtain h where h: "runs (sample_sst h) 0" using sample_runs by blast
  have s: "runs (sch (sample_kst h)) 0" "held (sch (sample_kst h)) = []" "bblockno (bufs (sample_kst h) 5) = 0"
    using h by (simp_all add: sample_kst_def sample_sst_def)
  have "{3, 4, 5} \<subseteq> {i. i < NUM \<and> dfree sample_vdisk i}" by (auto simp: sample_vdisk_def NUM_def)
  then have n: "3 \<le> nfree sample_vdisk" using card_mono [of "{i. i < NUM \<and> dfree sample_vdisk i}" "{3, 4, 5}"] by simp
  have d: "decode sample_vdisk 0 = Some (False, 14, 4, 0)"
    by (simp add: decode_def sample_vdisk_def Let_def VIRTIO_BLK_T_OUT_def VRING_DESC_F_NEXT_def VRING_DESC_F_WRITE_def BSIZE_def)
  from vdisk_rw_submits [OF s(1,2) sample_chains, of 5 True] n obtain i0 i1 i2 w t where
    w: "vdisk_rw 5 True (sample_vdisk, sample_kst h) = Ok (RwAsleep i0, w, t)" "chains_ok w [[0, 1, 2], [i0, i1, i2]]"
      "decode w i0 = Some (True, ucast (bblockno (bufs (sample_kst h) 5) * 2), 5, i0)" "decode w 0 = decode sample_vdisk 0" by auto
  then have "decode w i0 = Some (True, 0, 5, i0)" using s(3) by simp
  then show ?thesis using w(1,2,4) d by (intro exI [of _ h] exI [of _ i0] exI [of _ i1] exI [of _ i2] exI [of _ w] exI [of _ t]) simp
qed

theorem vdisk_rw_completes_witness:
  "\<exists>s w t. vdisk_rw_resume 4 0 (sample_vdisk\<lparr>b_disk := (\<lambda>_. False)\<rparr>, s) = Ok (RwDone, w, t) \<and> chains_ok w [] \<and> info_b w 0 = None"
proof -
  obtain h where h: "runs (sample_sst h) 0" using sample_runs by blast
  let ?s = "(sample_kst h)\<lparr>sch := (sample_sst h)\<lparr>held := [LkProc 0]\<rparr>\<rparr>" and ?v = "sample_vdisk\<lparr>b_disk := (\<lambda>_. False)\<rparr>"
  have s: "runs (sch ?s) 0" "held (sch ?s) = [LkProc 0]" using h by simp_all
  have "chains_ok ?v ([] @ [0, 1, 2] # [])" using sample_chains by (auto simp: chains_ok_def)
  from vdisk_rw_completes [OF s this, of 4] show ?thesis by auto
qed

end
