(* ===== verification/Trap.thy ===== *)
theory Trap
  imports Syscall Virtio
begin

text \<open>
  Traps (\<open>kernel/trap.c\<close>) and the interrupt controller (\<open>kernel/plic.c\<close>).  \<open>hart\<close> holds the supervisor registers
  that the code reads and writes, the registers of the interrupt controller for this hart with the interrupts that it
  has pending and those that were completed, and the state of the disk driver, which its interrupt handler needs.  \<open>tenv\<close> holds the
  addresses of the code that traps go to.  \<open>usertrap\<close> and \<open>kerneltrap\<close> are cut where the process gives up
  the CPU.
\<close>

section \<open>Registers\<close>

record hart =
  r_tp :: u64
  r_sstatus :: u64
  r_sepc :: u64
  r_scause :: u64
  r_stval :: u64
  r_stvec :: u64
  r_satp :: u64
  r_sip :: u64
  plic_pending :: "nat list"
  plic_completed :: "nat list"
  plic_priority :: "nat \<Rightarrow> u32"
  plic_senable :: u32
  plic_spriority :: u32
  vdisk_of :: vdisk

record tenv =
  t_kernelvec :: u64
  t_usertrap :: u64
  t_uservec :: u64
  t_trampoline :: u64

definition SSTATUS_SPP :: u64 where "SSTATUS_SPP = push_bit 8 1"
definition SSTATUS_SPIE :: u64 where "SSTATUS_SPIE = push_bit 5 1"
definition SSTATUS_SIE :: u64 where "SSTATUS_SIE = push_bit 1 1"
definition SATP_SV39 :: u64 where "SATP_SV39 = push_bit 60 8"
definition UART0_IRQ :: nat where "UART0_IRQ = 10"
definition VIRTIO0_IRQ :: nat where "VIRTIO0_IRQ = 1"

definition MAKE_SATP :: "u64 \<Rightarrow> u64" where
  "MAKE_SATP pt = SATP_SV39 OR drop_bit 12 pt"

definition intr_on :: "hart \<Rightarrow> hart" where
  "intr_on h = h\<lparr>r_sstatus := r_sstatus h OR SSTATUS_SIE\<rparr>"

definition intr_off :: "hart \<Rightarrow> hart" where
  "intr_off h = h\<lparr>r_sstatus := r_sstatus h AND NOT SSTATUS_SIE\<rparr>"

definition intr_get :: "hart \<Rightarrow> bool" where
  "intr_get h \<longleftrightarrow> r_sstatus h AND SSTATUS_SIE \<noteq> 0"

definition TF_kernel_satp :: u64 where "TF_kernel_satp = 0"
definition TF_kernel_sp :: u64 where "TF_kernel_sp = 8"
definition TF_kernel_trap :: u64 where "TF_kernel_trap = 16"
definition TF_kernel_hartid :: u64 where "TF_kernel_hartid = 32"

section \<open>Device interrupts\<close>

definition trapinithart :: "tenv \<Rightarrow> hart \<Rightarrow> hart" where
  "trapinithart a h = h\<lparr>r_stvec := t_kernelvec a\<rparr>"

definition plicinit :: "hart \<Rightarrow> hart" where
  "plicinit h = h\<lparr>plic_priority := (plic_priority h)(UART0_IRQ := 1, VIRTIO0_IRQ := 1)\<rparr>"

definition plicinithart :: "hart \<Rightarrow> hart" where
  "plicinithart h = h\<lparr>plic_senable := push_bit UART0_IRQ 1 OR push_bit VIRTIO0_IRQ 1, plic_spriority := 0\<rparr>"

text \<open>The claim register gives the number of a pending interrupt, 0 when there is none.\<close>

definition plic_claim :: "hart \<Rightarrow> nat \<times> hart" where
  "plic_claim h = (case plic_pending h of [] \<Rightarrow> (0, h) | i # is \<Rightarrow> (i, h\<lparr>plic_pending := is\<rparr>))"

definition plic_complete :: "nat \<Rightarrow> hart \<Rightarrow> hart" where
  "plic_complete irq h = h\<lparr>plic_completed := plic_completed h @ [irq]\<rparr>"

definition clockintr :: "kst \<Rightarrow> kst res" where
  "clockintr s =
     bindR (kacquire LkTicks s) (\<lambda>s.
     bindR (kwakeup ChTicks (s\<lparr>sch := (sch s)\<lparr>ticks := ticks (sch s) + 1\<rparr>\<rparr>)) (\<lambda>s.
     krelease LkTicks s))"

definition unexpected_irq_text :: "byte list" where
  "unexpected_irq_text = asc ''unexpected interrupt irq=%d'' @ [10]"

definition devintr :: "hart \<Rightarrow> kst \<Rightarrow> (nat \<times> hart \<times> kst) res" where
  "devintr h s =
     (let scause = r_scause h in
      if scause AND 0x8000000000000000 \<noteq> 0 \<and> scause AND 0xff = 9 then
        let (irq, h) = plic_claim h in
        bindR (if irq = UART0_IRQ then bindR (uartintr s) (\<lambda>s. Ok (h, s))
               else if irq = VIRTIO0_IRQ then bindR (virtio_disk_intr (vdisk_of h, s)) (\<lambda>(v, s). Ok (h\<lparr>vdisk_of := v\<rparr>, s))
               else if irq \<noteq> 0 then bindR (printf unexpected_irq_text [PInt (of_nat irq)] s) (\<lambda>s. Ok (h, s))
               else Ok (h, s)) (\<lambda>(h, s).
        Ok (1, if irq \<noteq> 0 then plic_complete irq h else h, s))
      else if scause = 0x8000000000000001 then
        bindR (if r_tp h = 0 then clockintr s else Ok s) (\<lambda>s.
        Ok (2, h\<lparr>r_sip := r_sip h AND NOT 2\<rparr>, s))
      else Ok (0, h, s))"

section \<open>Traps from user space\<close>

datatype trapret = ToUser u64 | Gives_up | Exited

text \<open>The result is the user page table that \<open>userret\<close> installs.\<close>

definition usertrapret :: "tenv \<Rightarrow> hart \<Rightarrow> kst \<Rightarrow> (trapret \<times> hart \<times> kst) res" where
  "usertrapret a h s =
     bindR (deref (myproc (sch s))) (\<lambda>p.
     let h = intr_off h;
         h = h\<lparr>r_stvec := TRAMPOLINE + (t_uservec a - t_trampoline a)\<rparr> in
     bindR (tf_store p TF_kernel_satp (r_satp h) s) (\<lambda>s.
     bindR (tf_store p TF_kernel_sp (kstack (pent s p) + PGSIZE) s) (\<lambda>s.
     bindR (tf_store p TF_kernel_trap (t_usertrap a) s) (\<lambda>s.
     bindR (tf_store p TF_kernel_hartid (r_tp h) s) (\<lambda>s.
     let x = (r_sstatus h AND NOT SSTATUS_SPP) OR SSTATUS_SPIE in
     bindR (tf_load p TF_epc s) (\<lambda>epc.
     let h = h\<lparr>r_sstatus := x, r_sepc := epc\<rparr> in
     Ok (ToUser (MAKE_SATP (pagetable (pent s p))), h, s)))))))"

text \<open>\<open>p->nticks += 1; p->contp->nticks += 1; yield();\<close>\<close>

definition tick_yield :: "nat \<Rightarrow> kst \<Rightarrow> kst res" where
  "tick_yield p s =
     (let s = updp p (\<lambda>r. r\<lparr>nticks := nticks r + 1\<rparr>) s in
      bindR (deref (contp (pent s p))) (\<lambda>c.
      onS yield (s\<lparr>sch := upd_cont c (\<lambda>k. k\<lparr>cnticks := cnticks k + 1\<rparr>) (sch s)\<rparr>)))"

text \<open>\<open>usertrap\<close> after the trap has been handled.\<close>

definition usertrap_end :: "kenv \<Rightarrow> tenv \<Rightarrow> nat \<Rightarrow> nat \<Rightarrow> hart \<Rightarrow> kst \<Rightarrow> (trapret \<times> hart \<times> kst) res" where
  "usertrap_end e a p which_dev h s =
     bindR (kkilled p s) (\<lambda>(dead, s).
     if dead then bindR (exit (k_end e) (-1) s) (\<lambda>s. Ok (Exited, h, s))
     else if which_dev = 2 then bindR (tick_yield p s) (\<lambda>s. Ok (Gives_up, h, s))
     else usertrapret a h s)"

definition unexpected_scause_text :: "byte list" where
  "unexpected_scause_text = asc ''usertrap(): unexpected scause %p pid=%d'' @ [10]"

definition unexpected_sepc_text :: "byte list" where
  "unexpected_sepc_text = asc ''            sepc=%p stval=%p'' @ [10]"

definition usertrap :: "kenv \<Rightarrow> tenv \<Rightarrow> hart \<Rightarrow> kst \<Rightarrow> (trapret \<times> hart \<times> kst) res" where
  "usertrap e a h s =
     (if r_sstatus h AND SSTATUS_SPP \<noteq> 0 then Panic ''usertrap: not from user mode''
      else
        let h = h\<lparr>r_stvec := t_kernelvec a\<rparr> in
        bindR (deref (myproc (sch s))) (\<lambda>p.
        bindR (tf_store p TF_epc (r_sepc h) s) (\<lambda>s.
        if r_scause h = 8 then
          bindR (kkilled p s) (\<lambda>(dead, s).
          if dead then bindR (exit (k_end e) (-1) s) (\<lambda>s. Ok (Exited, h, s))
          else
            bindR (tf_load p TF_epc s) (\<lambda>epc.
            bindR (tf_store p TF_epc (epc + 4) s) (\<lambda>s.
            let h = intr_on h in
            bindR (syscall e s) (\<lambda>(r, s).
            case r of Returns _ \<Rightarrow> usertrap_end e a p 0 h s
            | Sleeps \<Rightarrow> Ok (Gives_up, h, s)
            | Exits \<Rightarrow> Ok (Exited, h, s)))))
        else
          bindR (devintr h s) (\<lambda>(which_dev, h, s).
          if which_dev \<noteq> 0 then usertrap_end e a p which_dev h s
          else
            bindR (printf unexpected_scause_text [PPtr (r_scause h), PInt (pid (pent s p))] s) (\<lambda>s.
            bindR (printf unexpected_sepc_text [PPtr (r_sepc h), PPtr (r_stval h)] s) (\<lambda>s.
            bindR (onS (setkilled p) s) (\<lambda>s.
            usertrap_end e a p 0 h s)))))))"

text \<open>What follows the \<open>yield\<close> of \<open>usertrap\<close>.\<close>

definition usertrap_resume :: "tenv \<Rightarrow> hart \<Rightarrow> kst \<Rightarrow> (trapret \<times> hart \<times> kst) res" where
  "usertrap_resume a h s = bindR (onS yield_resume s) (usertrapret a h)"

section \<open>Traps from the kernel\<close>

definition kerneltrap :: "hart \<Rightarrow> kst \<Rightarrow> (bool \<times> hart \<times> kst) res" where
  "kerneltrap h s =
     (let sepc = r_sepc h; sstatus = r_sstatus h; scause = r_scause h in
      if sstatus AND SSTATUS_SPP = 0 then Panic ''kerneltrap: not from supervisor mode''
      else if intr_get h then Panic ''kerneltrap: interrupts enabled''
      else
        bindR (devintr h s) (\<lambda>(which_dev, h, s).
        if which_dev = 0 then
          bindR (printf (asc ''scause %p'' @ [10]) [PPtr scause] s) (\<lambda>s.
          bindR (printf (asc ''sepc=%p stval=%p'' @ [10]) [PPtr (r_sepc h), PPtr (r_stval h)] s) (\<lambda>s.
          Panic ''kerneltrap''))
        else
          case myproc (sch s) of
            Some p \<Rightarrow>
              if which_dev = 2 \<and> state (pent s p) = RUNNING then bindR (tick_yield p s) (\<lambda>s. Ok (False, h, s))
              else Ok (True, h\<lparr>r_sepc := sepc, r_sstatus := sstatus\<rparr>, s)
          | None \<Rightarrow> Ok (True, h\<lparr>r_sepc := sepc, r_sstatus := sstatus\<rparr>, s)))"

text \<open>
  What follows the \<open>yield\<close> of \<open>kerneltrap\<close>: the registers get back the values that the local variables
  have kept.
\<close>

definition kerneltrap_resume :: "u64 \<Rightarrow> u64 \<Rightarrow> hart \<Rightarrow> kst \<Rightarrow> (hart \<times> kst) res" where
  "kerneltrap_resume sepc sstatus h s = bindR (onS yield_resume s) (\<lambda>s. Ok (h\<lparr>r_sepc := sepc, r_sstatus := sstatus\<rparr>, s))"

section \<open>The trap frame\<close>

text \<open>Two fields at least eight bytes apart do not overlap.\<close>

lemma field_apart:
  assumes "i + 8 \<le> j \<or> j + 8 \<le> i" "i < 4096" "j < (4096 :: nat)"
  shows "load64 (store64 m (tf + of_nat i) v) (tf + of_nat j) = load64 m (tf + of_nat j)"
proof (rule load64_cong, rule store64_other)
  fix x assume "x \<in> region (tf + of_nat j) 8"
  then obtain k where k: "k < 8" "x = tf + of_nat (j + k)" by (auto simp: in_region_iff add.assoc)
  show "x \<notin> region (tf + of_nat i) 8"
  proof
    assume "x \<in> region (tf + of_nat i) 8"
    then obtain l where l: "l < 8" "x = tf + of_nat (i + l)" by (auto simp: in_region_iff add.assoc)
    with k have "(of_nat (j + k) :: u64) = of_nat (i + l)" by (simp only: add_left_cancel)
    moreover have "unat (of_nat (j + k) :: u64) = j + k" "unat (of_nat (i + l) :: u64) = i + l"
      by (rule unat_of_nat_small; use assms k l in simp)+
    ultimately have "j + k = i + l" by simp
    then show False using assms k l by simp
  qed
qed

lemma field_apart_num:
  "i + 8 \<le> j \<or> j + 8 \<le> i \<Longrightarrow> i < 4096 \<Longrightarrow> j < 4096 \<Longrightarrow> a = of_nat i \<Longrightarrow> b = of_nat j \<Longrightarrow>
   load64 (store64 m (tf + a) v) (tf + b) = load64 m (tf + b)"
  using field_apart by blast

lemmas TF_defs = TF_kernel_satp_def TF_kernel_sp_def TF_kernel_trap_def TF_kernel_hartid_def TF_epc_def TF_a0_def TF_a7_def

lemma field_simps [simp]:
  "load64 (store64 m (tf + TF_epc) v) (tf + TF_a0) = load64 m (tf + TF_a0)" "load64 (store64 m (tf + TF_epc) v) (tf + TF_a7) = load64 m (tf + TF_a7)"
  "load64 (store64 m (tf + TF_a0) v) (tf + TF_epc) = load64 m (tf + TF_epc)"
  by (rule field_apart_num [where i = 24 and j = 112] field_apart_num [where i = 24 and j = 168] field_apart_num [where i = 112 and j = 24];
      simp add: TF_defs)+

text \<open>What \<open>usertrapret\<close> stores for the next trap.\<close>

definition return_frame :: "tenv \<Rightarrow> hart \<Rightarrow> u64 \<Rightarrow> u64 \<Rightarrow> memory \<Rightarrow> memory" where
  "return_frame a h ks tf m =
     store64 (store64 (store64 (store64 m (tf + TF_kernel_satp) (r_satp h)) (tf + TF_kernel_sp) (ks + PGSIZE))
       (tf + TF_kernel_trap) (t_usertrap a)) (tf + TF_kernel_hartid) (r_tp h)"

lemma return_frame_user:
  assumes "j = 24 \<or> 40 \<le> j" "j < 4096" "b = of_nat j"
  shows "load64 (return_frame a h ks tf m) (tf + b) = load64 m (tf + b)"
proof -
  have "load64 (store64 m (tf + of_nat i) v) (tf + b) = load64 m (tf + b)" if "i \<in> {0, 8, 16, 32}" for i m v
    using field_apart [of i j m tf v] assms that by auto
  from this [of 0] this [of 8] this [of 16] this [of 32] show ?thesis by (simp add: return_frame_def TF_defs)
qed

lemma usertrapret_ok:
  assumes "curproc (sch s) = Some p" "trapframe (pent s p) \<noteq> 0"
  shows "usertrapret a h s = Ok (ToUser (MAKE_SATP (pagetable (pent s p))),
      h\<lparr>r_stvec := TRAMPOLINE + (t_uservec a - t_trampoline a),
        r_sstatus := ((r_sstatus h AND NOT SSTATUS_SIE) AND NOT SSTATUS_SPP) OR SSTATUS_SPIE,
        r_sepc := load64 (pmem (km s)) (trapframe (pent s p) + TF_epc)\<rparr>,
      s\<lparr>km := (km s)\<lparr>pmem := return_frame a h (kstack (pent s p)) (trapframe (pent s p)) (pmem (km s))\<rparr>\<rparr>)"
proof -
  let ?tf = "trapframe (pent s p)"
  have "load64 (return_frame a h (kstack (pent s p)) ?tf (pmem (km s))) (?tf + TF_epc) = load64 (pmem (km s)) (?tf + TF_epc)"
    by (rule return_frame_user [where j = 24]) (simp_all add: TF_epc_def)
  then show ?thesis using assms
    by (simp add: usertrapret_def myproc_def deref_def tf_store_def tf_load_def Let_def intr_off_def return_frame_def)
qed

text \<open>User mode with interrupts on, as \<open>sret\<close> finds it.\<close>

definition user_mode :: "u64 \<Rightarrow> bool" where
  "user_mode x \<longleftrightarrow> x AND SSTATUS_SPP = 0 \<and> x AND SSTATUS_SPIE = SSTATUS_SPIE \<and> x AND SSTATUS_SIE = 0"

lemma status_bits: "bit SSTATUS_SPP n \<longleftrightarrow> n = 8" "bit SSTATUS_SPIE n \<longleftrightarrow> n = 5" "bit SSTATUS_SIE n \<longleftrightarrow> n = 1"
  unfolding SSTATUS_SPP_def SSTATUS_SPIE_def SSTATUS_SIE_def by (simp_all only: bit_push_bit_iff bit_1_iff) auto

lemma user_mode_return: "user_mode (((x AND NOT SSTATUS_SIE) AND NOT SSTATUS_SPP) OR SSTATUS_SPIE)"
  unfolding user_mode_def by (intro conjI bit_word_eqI) (auto simp: bit_and_iff bit_or_iff bit_not_iff status_bits)

lemma frame_store:
  assumes "x \<notin> region tf TF_size" "i + 8 \<le> TF_size" "b = of_nat i"
  shows "store64 m (tf + b) v x = m x"
proof (rule store64_other)
  show "x \<notin> region (tf + b) 8"
  proof
    assume "x \<in> region (tf + b) 8"
    then obtain k where "k < 8" "x = tf + of_nat (i + k)" using assms(3) by (auto simp: in_region_iff add.assoc)
    then have "x \<in> region tf TF_size" using assms(2) by (subst in_region_iff) (auto simp: TF_size_def intro!: exI [of _ "i + k"])
    then show False using assms(1) by simp
  qed
qed

section \<open>Clock interrupts\<close>

lemma clockintr_ok:
  assumes run: "runs (sch s) p" and lk: "held (sch s) = []"
  shows "\<exists>t. clockintr s = Ok (s\<lparr>sch := t\<rparr>) \<and> runs t p \<and> woken ((sch s)\<lparr>ticks := ticks (sch s) + 1\<rparr>) t \<and> held t = [] \<and>
    sleepers (Some ChTicks) t = {}"
proof -
  let ?s = "s\<lparr>sch := (sch s)\<lparr>held := [LkTicks], ticks := ticks (sch s) + 1\<rparr>\<rparr>"
  have "runs (sch ?s) p" "held (sch ?s) = [LkTicks]" using run by (simp_all add: runs_def)
  from pipe_wakeup [OF this, of ChTicks] obtain t where t: "kwakeup ChTicks ?s = Ok (?s\<lparr>sch := t\<rparr>)" "runs t p" "woken (sch ?s) t"
    "held t = [LkTicks]" "sleepers (Some ChTicks) t = {}" by auto
  have e: "sch ?s = (sch s)\<lparr>ticks := ticks (sch s) + 1, held := [LkTicks]\<rparr>" by simp
  have "woken ((sch s)\<lparr>ticks := ticks (sch s) + 1\<rparr>) (t\<lparr>held := []\<rparr>)"
    using woken_held [where s = "(sch s)\<lparr>ticks := ticks (sch s) + 1\<rparr>" and x = "[LkTicks]" and t = t] t(3) [unfolded e] lk by simp
  then show ?thesis using t lk by (intro exI [of _ "t\<lparr>held := []\<rparr>"]) (simp add: clockintr_def sleepers_def)
qed

lemma tick_yield_ok:
  assumes run: "runs (sch s) p" and lk: "held (sch s) = []"
  shows "\<exists>t v c. tick_yield p s = Ok (s\<lparr>sch := t\<rparr>) \<and> contp (pent s p) = Some c \<and> sched_inv t (set_queue v c p) \<and> held t = [LkProc p] \<and>
    procs t = (procs (sch s))(p := (pent s p)\<lparr>nticks := nticks (pent s p) + 1, state := RUNNABLE\<rparr>) \<and> ticks t = ticks (sch s) \<and> curproc t = Some p"
proof -
  obtain v where v: "sched_inv (sch s) v" and p: "curproc (sch s) = Some p" "p < NPROC" "state (pent s p) = RUNNING"
    using run by (auto simp: runs_def pent_def)
  obtain c where c: "contp (pent s p) = Some c" using sleeping_contp [OF v p(2)] p(3) by (auto simp: pent_def)
  let ?t = "upd_cont c (\<lambda>k. k\<lparr>cnticks := cnticks k + 1\<rparr>) (upd_proc p (\<lambda>r. r\<lparr>nticks := nticks r + 1\<rparr>) (sch s))"
  have "sched_inv ?t v" by (rule sched_inv_cong [OF v]) auto
  from yield_spec [OF this, of p c] obtain h where "yield ?t = Ok (upd_proc p (\<lambda>r. r\<lparr>state := RUNNABLE\<rparr>) ?t\<lparr>lh := h, held := [LkProc p]\<rparr>)"
    "sched_inv (upd_proc p (\<lambda>r. r\<lparr>state := RUNNABLE\<rparr>) ?t\<lparr>lh := h, held := [LkProc p]\<rparr>) (set_queue v c p)"
    using p c lk by (auto simp: pent_def)
  moreover have "ticks (upd_proc i f x) = ticks x" "ticks (upd_cont i g x) = ticks x" for i f g x by (simp_all add: upd_proc_def upd_cont_def)
  ultimately show ?thesis using c p(1)
    by (intro exI [of _ "upd_proc p (\<lambda>r. r\<lparr>state := RUNNABLE\<rparr>) ?t\<lparr>lh := h, held := [LkProc p]\<rparr>"] exI [of _ v] exI [of _ c])
      (simp add: tick_yield_def deref_def onS_def Let_def pent_def updp_def)
qed

section \<open>Properties\<close>

text \<open>
  C32.  The way of a system call through the kernel, at the example of \<open>getpid\<close>: a trap from user mode with number
  11 in \<open>a7\<close> returns to user mode behind the \<open>ecall\<close> with the process id in \<open>a0\<close>, on the page table of the
  process; memory other than the trap frame and everything else in the kernel is as it was.
\<close>

theorem getpid_ecall:
  assumes run: "curproc (sch s) = Some p" "held (sch s) = []" "killed_flag (pent s p) = 0"
    and tf: "trapframe (pent s p) = tf" "tf \<noteq> 0" "load64 (pmem (km s)) (tf + TF_a7) = 11"
    and user: "r_sstatus h AND SSTATUS_SPP = 0" "r_scause h = 8"
  shows "\<exists>h' m. usertrap e a h s = Ok (ToUser (MAKE_SATP (pagetable (pent s p))), h', s\<lparr>km := (km s)\<lparr>pmem := m\<rparr>\<rparr>) \<and>
    r_sepc h' = r_sepc h + 4 \<and> user_mode (r_sstatus h') \<and>
    load64 m (tf + TF_a0) = scast (pid (pent s p)) \<and> (\<forall>x. x \<notin> region tf TF_size \<longrightarrow> m x = pmem (km s) x)"
proof -
  let ?pc = "r_sepc h + 4" and ?id = "scast (pid (pent s p)) :: u64"
  define m where "m = store64 (store64 (store64 (pmem (km s)) (tf + TF_epc) (r_sepc h)) (tf + TF_epc) ?pc) (tf + TF_a0) ?id"
  let ?u = "s\<lparr>km := (km s)\<lparr>pmem := store64 (store64 (pmem (km s)) (tf + TF_epc) (r_sepc h)) (tf + TF_epc) ?pc\<rparr>\<rparr>"
    and ?s = "s\<lparr>km := (km s)\<lparr>pmem := m\<rparr>\<rparr>"
  have num: "map_of (syscalls e) (nat (sint (ucast (11 :: u64) :: u32))) = Some (ret \<circ> sys_getpid)" "0 < sint (ucast (11 :: u64) :: u32)"
    by (simp_all add: syscalls_def)
  have "tf_load p TF_a7 ?u = Ok 11" using tf by (simp add: tf_load_def pent_def)
  moreover have "(ret \<circ> sys_getpid) ?u = Ok (Returns (sint (pid (pent s p))), ?u)"
    using run by (simp add: ret_def sys_getpid_def myproc_def deref_def pent_def)
  moreover have "tf_store p TF_a0 ?id ?u = Ok ?s" using tf by (simp add: tf_store_def m_def pent_def)
  then have "tf_store p TF_a0 (word_of_int (sint (pid (pent s p)))) ?u = Ok ?s" by (simp only: scast_eq)
  moreover note this
  moreover have "myproc (sch ?u) = Some p" using run by (simp add: myproc_def)
  ultimately have sys: "syscall e ?u = Ok (Returns (sint (pid (pent s p))), ?s)"
    unfolding syscall_def by (simp only: deref_def option.case bindR.simps Let_def num if_True prod.case sysret.case)
  let ?h = "intr_on (h\<lparr>r_stvec := t_kernelvec a\<rparr>)" and ?w = "s\<lparr>km := (km s)\<lparr>pmem := store64 (pmem (km s)) (tf + TF_epc) (r_sepc h)\<rparr>\<rparr>"
  have alive: "kkilled p ?w = Ok (False, ?w)" "kkilled p ?s = Ok (False, ?s)" using run by (simp_all add: kkilled_no pent_def)
  have epc: "tf_store p TF_epc (r_sepc h) s = Ok ?w" "tf_load p TF_epc ?w = Ok (r_sepc h)" "tf_store p TF_epc ?pc ?w = Ok ?u"
    using tf by (simp_all add: tf_store_def tf_load_def pent_def)
  have my: "myproc (sch s) = Some p" using run by (simp add: myproc_def)
  have regs: "r_sepc (h\<lparr>r_stvec := x\<rparr>) = r_sepc h" "r_scause (h\<lparr>r_stvec := x\<rparr>) = r_scause h" for x by simp_all
  have "usertrap e a h s = usertrap_end e a p 0 ?h ?s"
    unfolding usertrap_def
    by (simp only: user my epc alive sys Let_def deref_def option.case bindR.simps prod.case sysret.case if_True if_False simp_thms regs)
  also have "\<dots> = usertrapret a ?h ?s"
    unfolding usertrap_end_def by (simp only: alive bindR.simps prod.case if_False) simp
  finally have *: "usertrap e a h s = usertrapret a ?h ?s" .
  have tf': "trapframe (pent ?s p) \<noteq> 0" "curproc (sch ?s) = Some p" using tf run by (simp_all add: pent_def)
  note r = usertrapret_ok [OF tf'(2,1), of a ?h]
  let ?m = "return_frame a ?h (kstack (pent s p)) tf m"
  have "load64 ?m (tf + TF_a0) = load64 m (tf + TF_a0)" by (rule return_frame_user [where j = 112]) (simp_all add: TF_a0_def)
  moreover have "load64 m (tf + TF_epc) = ?pc" "load64 m (tf + TF_a0) = ?id" by (simp_all add: m_def)
  moreover have "?m x = pmem (km s) x" if "x \<notin> region tf TF_size" for x
  proof -
    have "store64 m' (tf + of_nat i) v x = m' x" if "i \<in> {0, 8, 16, 24, 32, 112}" for i m' v
      using frame_store [OF \<open>x \<notin> region tf TF_size\<close>, of i] that by (auto simp: TF_size_def)
    from this [of 0] this [of 8] this [of 16] this [of 24] this [of 32] this [of 112]
    show ?thesis by (simp add: return_frame_def m_def TF_defs)
  qed
  ultimately show ?thesis unfolding * r using user_mode_return tf(1)
    by (intro exI) (auto simp: pent_def)
qed

text \<open>
  C33.  Preemption.  A timer interrupt in user mode saves the program counter, counts a tick of the process (and, on
  CPU 0, of the clock, and wakes who sleeps until then) and puts the process at the end of the run list
  of its container, with the invariant of the process table kept.  Whenever the process is given the
  CPU again with its trap frame intact, it returns to user mode at the saved program counter.
\<close>

theorem preempt_resume:
  assumes run: "runs (sch s) p" "held (sch s) = []" "killed_flag (pent s p) = 0"
    and tf: "trapframe (pent s p) = tf" "tf \<noteq> 0"
    and user: "r_sstatus h AND SSTATUS_SPP = 0" "r_scause h = 0x8000000000000001"
  shows "\<exists>h' t v c. usertrap e a h s = Ok (Gives_up, h', t) \<and> contp (pent s p) = Some c \<and>
    sched_inv (sch t) (v(LRunq c := v (LRunq c) @ [PElem p])) \<and> state (pent t p) = RUNNABLE \<and> nticks (pent t p) = nticks (pent s p) + 1 \<and>
    (r_tp h = 0 \<longrightarrow> ticks (sch t) = ticks (sch s) + 1 \<and> sleepers (Some ChTicks) (sch t) = {}) \<and>
    (\<forall>u g. curproc (sch u) = Some p \<and> held (sch u) = [LkProc p] \<and> trapframe (pent u p) = tf \<and>
       load64 (pmem (km u)) (tf + TF_epc) = load64 (pmem (km t)) (tf + TF_epc) \<longrightarrow>
       (\<exists>g' w. usertrap_resume a g u = Ok (ToUser (MAKE_SATP (pagetable (pent u p))), g', w) \<and>
          r_sepc g' = r_sepc h \<and> user_mode (r_sstatus g')))"
proof -
  define s0 where "s0 = s\<lparr>km := (km s)\<lparr>pmem := store64 (pmem (km s)) (tf + TF_epc) (r_sepc h)\<rparr>\<rparr>"
  have cur: "curproc (sch s) = Some p" using run by (simp add: runs_def)
  obtain s1 where s1: "(if r_tp h = 0 then clockintr s0 else Ok s0) = Ok (s0\<lparr>sch := s1\<rparr>)" "runs s1 p" "held s1 = []" "procs s1 p = pent s p"
    "r_tp h = 0 \<longrightarrow> ticks s1 = ticks (sch s) + 1 \<and> sleepers (Some ChTicks) s1 = {}"
  proof (cases "r_tp h = 0")
    case True
    from clockintr_ok [of s0 p] run obtain t where t: "clockintr s0 = Ok (s0\<lparr>sch := t\<rparr>)" "runs t p"
      "woken ((sch s)\<lparr>ticks := ticks (sch s) + 1\<rparr>) t" "held t = []" "sleepers (Some ChTicks) t = {}" by (auto simp: s0_def)
    then show thesis using woken_sel(7) [OF t(3)] woken_sel(8) [OF t(3), of p] cur True by (intro that [of t]) (simp_all add: pent_def)
  next
    case False
    then show thesis using run by (intro that [of "sch s"]) (simp_all add: s0_def pent_def)
  qed
  let ?h = "h\<lparr>r_stvec := t_kernelvec a, r_sip := r_sip h AND NOT 2\<rparr>" and ?s = "s0\<lparr>sch := s1\<rparr>"
  have dev: "devintr (h\<lparr>r_stvec := t_kernelvec a\<rparr>) s0 = Ok (2, ?h, ?s)"
    using user(2) s1(1) by (simp add: devintr_def Let_def)
  from tick_yield_ok [of ?s p] s1 obtain t v c where t: "tick_yield p ?s = Ok (?s\<lparr>sch := t\<rparr>)" "contp (pent ?s p) = Some c"
    "sched_inv t (set_queue v c p)" "procs t = (procs s1)(p := (pent ?s p)\<lparr>nticks := nticks (pent ?s p) + 1, state := RUNNABLE\<rparr>)" "ticks t = ticks s1" "curproc t = curproc s1" using s1(2) by (auto simp: runs_def)
  have "kkilled p ?s = Ok (False, ?s)" using s1 run(3) by (simp add: kkilled_no)
  then have "usertrap_end e a p 2 ?h ?s = Ok (Gives_up, ?h, ?s\<lparr>sch := t\<rparr>)" using t(1) by (simp add: usertrap_end_def)
  moreover have "tf_store p TF_epc (r_sepc h) s = Ok s0" using tf by (simp add: tf_store_def s0_def)
  ultimately have u: "usertrap e a h s = Ok (Gives_up, ?h, ?s\<lparr>sch := t\<rparr>)"
    using user cur dev by (simp add: usertrap_def myproc_def deref_def)
  have c: "contp (pent s p) = Some c" using t(2) s1(4) by (simp add: pent_def)
  have sl: "sleepers ch t \<subseteq> sleepers ch s1" for ch by (auto simp: sleepers_def t(4,6) split: if_splits)
  then have sl: "r_tp h = 0 \<Longrightarrow> sleepers (Some ChTicks) t = {}" using s1(5) by fastforce
  have res: "\<exists>g' w. usertrap_resume a g x = Ok (ToUser (MAKE_SATP (pagetable (pent x p))), g', w) \<and> r_sepc g' = r_sepc h \<and> user_mode (r_sstatus g')"
    if x: "curproc (sch x) = Some p" "held (sch x) = [LkProc p]" "trapframe (pent x p) = tf" "load64 (pmem (km x)) (tf + TF_epc) = load64 (pmem (km s0)) (tf + TF_epc)" for x g
  proof -
    let ?x = "x\<lparr>sch := (sch x)\<lparr>held := []\<rparr>\<rparr>"
    have "onS yield_resume x = Ok ?x" using x by (simp add: onS_def yield_resume_def myproc_def deref_def)
    moreover have "curproc (sch ?x) = Some p" "trapframe (pent ?x p) \<noteq> 0" using x tf by (simp_all add: pent_def)
    note r = usertrapret_ok [OF this, of a g]
    moreover have "load64 (pmem (km s0)) (tf + TF_epc) = r_sepc h" by (simp add: s0_def)
    ultimately show ?thesis using x user_mode_return by (auto simp: usertrap_resume_def pent_def)
  qed
  show ?thesis
    by (intro exI [of _ ?h] exI [of _ "?s\<lparr>sch := t\<rparr>"] exI [of _ v] exI [of _ c])
      (use u c t(3,4,5) s1(4,5) sl res in \<open>auto simp: set_queue_def pent_def\<close>)
qed

text \<open>
  C34.  A disk interrupt while the kernel runs.  When the device has finished \<open>n\<close> requests without an error, the trap
  takes exactly these from the ring, marks exactly their buffers as no longer owned by the disk, wakes
  everyone who waits for one of them and completes the interrupt at the controller.  It returns to the
  interrupted code with the program counter and the status register as they were and no lock held, and
  nothing else of the driver and of the kernel changes.
\<close>

theorem disk_interrupt:
  assumes run: "runs (sch s) p" "held (sch s) = []"
    and h: "r_sstatus h AND SSTATUS_SPP \<noteq> 0" "\<not> intr_get h" "r_scause h = 0x8000000000000009" "plic_pending h = VIRTIO0_IRQ # irqs" "vdisk_of h = v"
    and dev: "n \<le> NUM" "used_dev v = used_idx v + of_nat n" "\<forall>i\<in>set (completed n v). i < NUM \<and> info_status v i = 0 \<and> info_b v i \<noteq> None"
  shows "\<exists>t. kerneltrap h s =
      Ok (True, h\<lparr>plic_pending := irqs, plic_completed := plic_completed h @ [VIRTIO0_IRQ],
        vdisk_of := v\<lparr>b_disk := (\<lambda>b. b_disk v b \<and> b \<notin> finished n v), used_idx := used_dev v, int_ack := int_status v AND 3\<rparr>\<rparr>, s\<lparr>sch := t\<rparr>) \<and>
    runs t p \<and> held t = [] \<and> (\<forall>b\<in>finished n v. sleepers (Some (ChBuf b)) t = {})"
proof -
  from virtio_disk_intr_ok [OF run dev] obtain t where t: "virtio_disk_intr (v, s) =
      Ok (v\<lparr>b_disk := (\<lambda>b. b_disk v b \<and> b \<notin> finished n v), used_idx := used_dev v, int_ack := int_status v AND 3\<rparr>, s\<lparr>sch := t\<rparr>)"
    "runs t p" "held t = []" "\<forall>b\<in>finished n v. sleepers (Some (ChBuf b)) t = {}" by blast
  let ?h = "h\<lparr>plic_pending := irqs, plic_completed := plic_completed h @ [VIRTIO0_IRQ],
    vdisk_of := v\<lparr>b_disk := (\<lambda>b. b_disk v b \<and> b \<notin> finished n v), used_idx := used_dev v, int_ack := int_status v AND 3\<rparr>\<rparr>"
  have dev: "devintr h s = Ok (1, ?h, s\<lparr>sch := t\<rparr>)"
    using h(3-5) t(1) by (simp add: devintr_def plic_claim_def plic_complete_def VIRTIO0_IRQ_def UART0_IRQ_def)
  have "curproc t = Some p" using t(2) by (simp add: runs_def)
  then have "kerneltrap h s = Ok (True, ?h\<lparr>r_sepc := r_sepc h, r_sstatus := r_sstatus h\<rparr>, s\<lparr>sch := t\<rparr>)"
    using h(1,2) dev by (simp add: kerneltrap_def myproc_def)
  then show ?thesis using t(2-4) by (intro exI [of _ t]) simp
qed

theorem getpid_ecall_witness:
  "\<forall>e a. \<exists>s h h' m. r_sepc h = 0x1000 \<and> pid (pent s 0) = 1 \<and>
     usertrap e a h s = Ok (ToUser SATP_SV39, h', s\<lparr>km := (km s)\<lparr>pmem := m\<rparr>\<rparr>) \<and>
     r_sepc h' = 0x1004 \<and> load64 m (0x80010000 + TF_a0) = 1"
proof (intro allI)
  fix e a
  obtain x where x: "sched_inv (sample_sst x) sample_queues" using sample_inv by blast
  define s where "s = updp 0 (\<lambda>r. r\<lparr>trapframe := 0x80010000\<rparr>) (sample_kst x\<lparr>km := \<lparr>pmem = store64 (\<lambda>_. 0) (0x80010000 + TF_a7) 11, freelist = 0\<rparr>\<rparr>)"
  define h where "h = \<lparr>r_tp = 0, r_sstatus = 0, r_sepc = 0x1000, r_scause = 8, r_stval = 0, r_stvec = 0, r_satp = 0, r_sip = 0,
    plic_pending = [], plic_completed = [], plic_priority = (\<lambda>_. 0), plic_senable = 0, plic_spriority = 0, vdisk_of = sample_vdisk\<rparr>"
  have s: "curproc (sch s) = Some 0" "held (sch s) = []" "killed_flag (pent s 0) = 0" "trapframe (pent s 0) = 0x80010000"
    "load64 (pmem (km s)) (0x80010000 + TF_a7) = 11" "pagetable (pent s 0) = 0" "pid (pent s 0) = 1"
    by (simp_all add: s_def sample_kst_def pent_def sample_sst_def sample_proc_def)
  have h: "r_sstatus h AND SSTATUS_SPP = 0" "r_scause h = 8" "r_sepc h = 0x1000" by (simp_all add: h_def)
  from getpid_ecall [OF s(1-4) _ s(5) h(1,2), of e a] obtain h' m where
    "usertrap e a h s = Ok (ToUser (MAKE_SATP 0), h', s\<lparr>km := (km s)\<lparr>pmem := m\<rparr>\<rparr>)" "r_sepc h' = r_sepc h + 4"
    "load64 m (0x80010000 + TF_a0) = scast (1 :: u32)" unfolding s by auto
  then show "\<exists>s h h' m. r_sepc h = 0x1000 \<and> pid (pent s 0) = 1 \<and>
     usertrap e a h s = Ok (ToUser SATP_SV39, h', s\<lparr>km := (km s)\<lparr>pmem := m\<rparr>\<rparr>) \<and>
     r_sepc h' = 0x1004 \<and> load64 m (0x80010000 + TF_a0) = 1" using s(7) h(3) by (intro exI [of _ s] exI [of _ h] exI [of _ h'] exI [of _ m]) (simp add: MAKE_SATP_def)
qed

theorem preempt_resume_witness:
  "\<forall>e a. \<exists>s h h' t. r_tp h = 0 \<and> usertrap e a h s = Ok (Gives_up, h', t) \<and> state (pent t 0) = RUNNABLE \<and>
     ticks (sch t) = ticks (sch s) + 1 \<and> sleepers (Some ChTicks) (sch t) = {}"
proof (intro allI)
  fix e a
  obtain x where x: "runs (sample_sst x) 0" using sample_runs by blast
  define s where "s = updp 0 (\<lambda>r. r\<lparr>trapframe := 0x80010000\<rparr>) (sample_kst x)"
  define h where "h = \<lparr>r_tp = 0, r_sstatus = 0, r_sepc = 0x1000, r_scause = 0x8000000000000001, r_stval = 0, r_stvec = 0, r_satp = 0, r_sip = 0,
    plic_pending = [], plic_completed = [], plic_priority = (\<lambda>_. 0), plic_senable = 0, plic_spriority = 0, vdisk_of = sample_vdisk\<rparr>"
  obtain v where v: "sched_inv (sample_sst x) v" using x by (auto simp: runs_def)
  have "sched_inv (sch s) v" by (rule sched_inv_cong [OF v]) (auto simp: s_def sample_kst_def)
  then have s: "runs (sch s) 0" using x by (auto simp: s_def runs_def sample_kst_def)
  have t: "held (sch s) = []" "killed_flag (pent s 0) = 0" "trapframe (pent s 0) = 0x80010000"
    by (simp_all add: s_def sample_kst_def pent_def sample_sst_def sample_proc_def)
  have h: "r_sstatus h AND SSTATUS_SPP = 0" "r_scause h = 0x8000000000000001" "r_tp h = 0" by (simp_all add: h_def)
  from preempt_resume [OF s t(1-3) _ h(1,2), of e a] h(3) obtain h' t where
    "usertrap e a h s = Ok (Gives_up, h', t)" "state (pent t 0) = RUNNABLE" "ticks (sch t) = ticks (sch s) + 1" "sleepers (Some ChTicks) (sch t) = {}"
    by auto
  then show "\<exists>s h h' t. r_tp h = 0 \<and> usertrap e a h s = Ok (Gives_up, h', t) \<and> state (pent t 0) = RUNNABLE \<and>
     ticks (sch t) = ticks (sch s) + 1 \<and> sleepers (Some ChTicks) (sch t) = {}" using h(3) by (intro exI [of _ s] exI [of _ h] exI [of _ h'] exI [of _ t]) simp
qed

theorem disk_interrupt_witness:
  "\<exists>s h h' t. vdisk_of h = sample_vdisk \<and> b_disk sample_vdisk 4 \<and> kerneltrap h s = Ok (True, h', t) \<and> plic_completed h' = [VIRTIO0_IRQ] \<and>
     \<not> b_disk (vdisk_of h') 4 \<and> used_idx (vdisk_of h') = 1"
proof -
  obtain x where x: "runs (sample_sst x) 0" using sample_runs by blast
  define h where "h = \<lparr>r_tp = 0, r_sstatus = SSTATUS_SPP, r_sepc = 0x80001000, r_scause = 0x8000000000000009, r_stval = 0, r_stvec = 0, r_satp = 0, r_sip = 0,
    plic_pending = [VIRTIO0_IRQ], plic_completed = [], plic_priority = (\<lambda>_. 0), plic_senable = 0, plic_spriority = 0, vdisk_of = sample_vdisk\<rparr>"
  have s: "runs (sch (sample_kst x)) 0" "held (sch (sample_kst x)) = []" using x by (simp_all add: sample_kst_def sample_sst_def)
  have h: "r_sstatus h AND SSTATUS_SPP \<noteq> 0" "\<not> intr_get h" "r_scause h = 0x8000000000000009" "plic_pending h = [VIRTIO0_IRQ]" "vdisk_of h = sample_vdisk"
    "plic_completed h = []" by (simp_all add: h_def intr_get_def SSTATUS_SPP_def SSTATUS_SIE_def)
  have c: "completed 1 sample_vdisk = [0]" by (simp add: completed_def sample_vdisk_def)
  have f: "4 \<in> finished 1 sample_vdisk" unfolding finished_def c by (simp add: sample_vdisk_def)
  have v: "used_dev sample_vdisk = 1" "used_idx sample_vdisk = 0" "b_disk sample_vdisk 4" "1 \<le> NUM" "0 < NUM" "info_status sample_vdisk 0 = 0" "info_b sample_vdisk 0 = Some 4"
    by (simp_all add: sample_vdisk_def NUM_def)
  from disk_interrupt [OF s h(1-5), of 1] v c obtain t where "kerneltrap h (sample_kst x) = Ok (True, h\<lparr>plic_pending := [], plic_completed := plic_completed h @ [VIRTIO0_IRQ],
      vdisk_of := sample_vdisk\<lparr>b_disk := (\<lambda>b. b_disk sample_vdisk b \<and> b \<notin> finished 1 sample_vdisk), used_idx := used_dev sample_vdisk,
        int_ack := int_status sample_vdisk AND 3\<rparr>\<rparr>, t)" by auto
  then show ?thesis using f v h by - (rule exI [of _ "sample_kst x"], rule exI [of _ h], rule exI, rule exI, intro conjI, assumption+, simp_all)
qed

end
