(* ===== verification/Spec2Isabelle.thy ===== *)
theory Spec2Isabelle
  imports ListSort Kalloc Sched Spinlock VmFree Catwc Umalloc Runcmd Trap
begin

text \<open>
  A verification development for the teaching kernel xv6 for RISC-V, extended with containers, queue
  scheduling and several consoles, in \<open>src/project05-zwang203-main/xv6\<close> (below: \<open>kernel/\<close>, \<open>user/\<close>).

  \<^bold>\<open>How C is modelled.\<close>  A call that may fail has the type \<open>'a res\<close> (\<open>Prelude\<close>): \<open>Ok\<close>, \<open>Panic\<close> with
  the message, \<open>Fault\<close> for undefined behaviour such as a null pointer or an index outside an array,
  \<open>Wait\<close> when another process or CPU or a device has to act first, \<open>Diverge\<close> for a loop that never
  ends.  \<open>bindR\<close> is the sequence of statements; a loop is \<open>loopR\<close> over a turn that goes on (\<open>Next\<close>) or
  leaves (\<open>Exit\<close>), or \<open>forR\<close> over its indices.  A theorem whose conclusion is \<open>Ok\<close> therefore includes
  that the code returns.  Integers have the width of the code as words.  A function that gives up the
  CPU in the middle (\<open>sleep\<close>, \<open>yield\<close>, and what calls them) is cut there; a second definition, named
  \<open>_resume\<close>, continues it.

  \<^bold>\<open>Kernel theories, from the bottom up.\<close>
  \<^item> \<open>LinkedList\<close>, \<open>ListSort\<close>: \<open>kernel/list.c\<close> over a heap of elements.  The operations refine lists; the
    natural merge sort sorts, is stable and terminates.
  \<^item> \<open>CMem\<close>, \<open>Encode\<close>: byte memory, \<open>kernel/string.c\<close>, little-endian fields of disk structures.
  \<^item> \<open>Kalloc\<close>: \<open>kernel/kalloc.c\<close>, the free list inside the free pages (\<open>kmem_inv\<close>).
  \<^item> \<open>Sched\<close>: tables, queues and scheduling of \<open>kernel/proc.c\<close>.  \<open>sched_inv\<close> is the invariant of the
    process and container tables; it is kept by every step, every step returns, the root container is
    served round robin.
  \<^item> \<open>Spinlock\<close>: \<open>kernel/spinlock.c\<close> on several CPUs, cut at the atomic instructions, as a step relation,
    with mutual exclusion; \<open>kernel/sleeplock.c\<close> without lost wakeups.
  \<^item> \<open>Vm\<close>, \<open>UserCopy\<close>, \<open>VmFree\<close>: \<open>kernel/vm.c\<close>.  Page tables in memory (\<open>vm_ok\<close>), mapping and unmapping,
    copies to and from user memory against a byte-wise specification, \<open>freewalk\<close> by recursion on the
    level of the table (three levels).
  \<^item> \<open>KState\<close>: the state of the components above.
  \<^item> \<open>Bio\<close>: \<open>kernel/bio.c\<close>; \<open>bc_inv\<close> is the invariant of the buffer cache, \<open>blk\<close> the contents of a block as
    the rest of the kernel sees it.
  \<^item> \<open>Log\<close>: \<open>kernel/log.c\<close>; a crash anywhere in a commit or in recovery leaves all or nothing.
  \<^item> \<open>Pipe\<close>: \<open>kernel/pipe.c\<close> as a FIFO, through the locale \<open>ring\<close> for ring buffers.
  \<^item> \<open>Inode\<close>, \<open>Dir\<close>, \<open>File\<close>: \<open>kernel/fs.c\<close> and \<open>kernel/file.c\<close>: block and inode allocation, inodes on disk,
    reading and writing, directories, path names, open files.
  \<^item> \<open>ProcLife\<close>: the rest of \<open>kernel/proc.c\<close>: creation, \<open>fork\<close>, \<open>exit\<close>, \<open>wait\<close>, containers.
  \<^item> \<open>Console\<close>: \<open>kernel/uart.c\<close>, \<open>kernel/printf.c\<close>, \<open>kernel/console.c\<close>: the transmit ring and the line
    editor are interpretations of the same locale \<open>ring\<close>.
  \<^item> \<open>Exec\<close>, \<open>Syscall\<close>: \<open>kernel/exec.c\<close>, \<open>kernel/syscall.c\<close>, \<open>kernel/sysproc.c\<close>, \<open>kernel/sysfile.c\<close>: every
    handler, the argument fetching and the table.
  \<^item> \<open>Virtio\<close>: \<open>kernel/virtio_disk.c\<close>: descriptors, the rings, the start of the device, requests and their completion; every descriptor
    is free or in exactly one request (\<open>chains_ok\<close>), and \<open>decode\<close> is what the device reads.
  \<^item> \<open>Trap\<close>: \<open>kernel/trap.c\<close> and \<open>kernel/plic.c\<close> over the supervisor registers: the way of a system call,
    preemption by the timer and the interrupts of the disk, across the components above.

  \<^bold>\<open>User theories.\<close>  \<open>Ulib\<close>: strings, numbers and output of \<open>user/ulib.c\<close> and \<open>user/printf.c\<close>.  \<open>Grep\<close>:
  the matcher of \<open>user/grep.c\<close> against the meaning of patterns, and what the program prints.  \<open>Catwc\<close>: what
  \<open>user/cat.c\<close> copies and \<open>user/wc.c\<close> counts.  \<open>Umalloc\<close>: the allocator of
  \<open>user/umalloc.c\<close>, whose blocks never overlap.  \<open>Shell\<close>: the
  parser of \<open>user/sh.c\<close>, whose recursion takes a number that bounds its depth; the number that \<open>parsecmd\<close>
  starts with, four times the length of the line plus four, is proved to be enough.  Parsing inverts
  printing.  \<open>Runcmd\<close>: the rest of \<open>user/sh.c\<close>, with processes as trees of system calls; what is started
  and with which open files is what the command line means.

  \<^bold>\<open>Devices.\<close>  The disk is a map from blocks to bytes whose writes are atomic and recorded in order;
  the UART is the bytes sent, the bytes waiting and how many bytes it takes before it is busy.  The
  buffer cache sees the disk through the effect of a finished request; \<open>Virtio\<close> shows that requests
  reach the device as they were asked for.

  \<^bold>\<open>Not modelled.\<close>  Boot and assembly (\<open>start.c\<close>, \<open>main.c\<close>, the \<open>.S\<close> files) and device set-up
  (\<open>uartinit\<close>); \<open>ramdisk.c\<close>, which is not part of the build; programs that only call the system, and the test programs.
\<close>

end
